(* ===== verification/Prelude.thy ===== *)
theory Prelude
  imports Main "HOL-Library.Word" "HOL-Library.List_Lexorder"
begin

text \<open>
  Shared vocabulary of the development: bytes, Rust's \<open>Result\<close> as a sum type, byte
  slices, the bit length behind \<open>leading_zeros\<close>, big-endian integers, and the contract
  of a codec that gives every value exactly one spelling.

  Conventions used by every component theory:
  \<^item> a Rust \<open>Result<T, E>\<close> is \<open>'e + 'a\<close>, \<open>Inl\<close> the error; \<open>and_then\<close> is the
    \<open>?\<close> operator; a panic (\<open>expect\<close>, a subslice out of range) is a constructor of the
    component's error type;
  \<^item> \<open>usize\<close> and \<open>u64\<close> are \<open>nat\<close>, with the 64-bit bound written out wherever the
    source can meet it (\<open>checked_add\<close>, \<open>checked_mul\<close>, \<open>try_from\<close>); counters whose
    plain \<open>+\<close> can overflow are \<open>64 word\<close>;
  \<^item> the text of a message (\<open>format!\<close>, \<open>Display\<close>) is not modelled: an error keeps
    its constructor and its numeric or structural fields.
\<close>

unbundle bit_operations_syntax

section \<open>Collections\<close>

named_theorems result_simps \<open>unfolding of the result combinators\<close>
named_theorems subslice_simps \<open>slices of concatenations\<close>
named_theorems bytes_simps \<open>bytes, heads and big-endian integers\<close>

section \<open>Types\<close>

type_synonym byte = "8 word"
type_synonym bytes = "8 word list"
type_synonym u64 = "64 word"

abbreviation u64_limit :: nat where
  "u64_limit \<equiv> 2 ^ 64"

section \<open>Results\<close>

definition and_then :: "'e + 'a \<Rightarrow> ('a \<Rightarrow> 'e + 'b) \<Rightarrow> 'e + 'b" where
  "and_then r f = (case r of Inl e \<Rightarrow> Inl e | Inr x \<Rightarrow> f x)"

definition map_err :: "('e \<Rightarrow> 'f) \<Rightarrow> 'e + 'a \<Rightarrow> 'f + 'a" where
  "map_err f r = (case r of Inl e \<Rightarrow> Inl (f e) | Inr x \<Rightarrow> Inr x)"

definition ok_or :: "'e \<Rightarrow> 'a option \<Rightarrow> 'e + 'a" where
  "ok_or e x = (case x of None \<Rightarrow> Inl e | Some y \<Rightarrow> Inr y)"

definition is_ok :: "'e + 'a \<Rightarrow> bool" where
  "is_ok r = (case r of Inl _ \<Rightarrow> False | Inr _ \<Rightarrow> True)"

lemma and_then_simps [simp, result_simps]:
  "and_then (Inl e) f = Inl e"
  "and_then (Inr x) f = f x"
  by (simp_all add: and_then_def)

lemma map_err_simps [simp, result_simps]:
  "map_err f (Inl e) = Inl (f e)"
  "map_err f (Inr x) = Inr x"
  by (simp_all add: map_err_def)

lemma ok_or_simps [simp, result_simps]:
  "ok_or e None = Inl e"
  "ok_or e (Some y) = Inr y"
  by (simp_all add: ok_or_def)

lemma is_ok_simps [simp, result_simps]:
  "is_ok (Inl e) = False"
  "is_ok (Inr x) = True"
  by (simp_all add: is_ok_def)

lemma and_then_eq_Inr: "and_then r f = Inr y \<longleftrightarrow> (\<exists>x. r = Inr x \<and> f x = Inr y)"
  by (cases r) auto

lemma map_err_eq_Inr [simp]: "map_err f r = Inr y \<longleftrightarrow> r = Inr y"
  by (cases r) auto

lemma is_ok_iff: "is_ok r \<longleftrightarrow> (\<exists>x. r = Inr x)"
  by (cases r) auto

lemma ex_length_Suc:
  "(\<exists>xs. length xs = Suc n \<and> P xs) \<longleftrightarrow> (\<exists>x xs. length xs = n \<and> P (x # xs))"
  by (metis length_Cons length_Suc_conv)

lemma ex_length_Suc_pair:
  "(\<exists>xs. length xs = Suc n \<and> P xs) \<longleftrightarrow> (\<exists>x y xs. length xs = n \<and> P ((x, y) # xs))"
  by (simp add: ex_length_Suc)

text \<open>\<open>iter().map(f).collect::<Result<Vec<_>, _>>()\<close>.\<close>

fun traverse :: "('a \<Rightarrow> 'e + 'b) \<Rightarrow> 'a list \<Rightarrow> 'e + 'b list" where
  "traverse f [] = Inr []"
| "traverse f (x # xs) = and_then (f x) (\<lambda>y. and_then (traverse f xs) (\<lambda>ys. Inr (y # ys)))"

lemma traverse_total: "(\<And>x. x \<in> set xs \<Longrightarrow> f x = Inr (g x)) \<Longrightarrow> traverse f xs = Inr (map g xs)"
  by (induction xs) auto

lemma traverse_eq_Inr: "traverse f xs = Inr ys \<longleftrightarrow> list_all2 (\<lambda>x y. f x = Inr y) xs ys"
  by (induction xs arbitrary: ys) (auto simp: and_then_eq_Inr list_all2_Cons1)

section \<open>Slices\<close>

text \<open>\<open>&b[from..to]\<close> for \<open>from \<le> to \<le> b.len()\<close>.\<close>

definition subslice :: "'a list \<Rightarrow> nat \<Rightarrow> nat \<Rightarrow> 'a list" where
  "subslice xs s e = take (e - s) (drop s xs)"

lemma subslice_empty [simp]: "subslice xs s s = []"
  by (simp add: subslice_def)

lemma length_subslice [simp]: "length (subslice xs s e) = min (e - s) (length xs - s)"
  by (simp add: subslice_def min.commute)

lemma subslice_append_mid [simp, subslice_simps]:
  "subslice (xs @ ys @ zs) (length xs) (length xs + length ys) = ys"
  by (simp add: subslice_def)

lemma subslice_split:
  assumes "s \<le> m" "m \<le> e"
  shows "subslice xs s e = subslice xs s m @ subslice xs m e"
proof -
  from assms obtain i j where "m = s + i" "e = s + i + j"
    by (metis le_add_diff_inverse)
  then show ?thesis by (simp add: subslice_def take_add add.commute)
qed

lemma subslice_whole [simp]: "subslice xs 0 (length xs) = xs"
  by (simp add: subslice_def)

lemma nth_subslice: "i < e - s \<Longrightarrow> s + i < length xs \<Longrightarrow> subslice xs s e ! i = xs ! (s + i)"
  by (simp add: subslice_def)

lemma subslice_eq_appendE:
  assumes "s \<le> e" "e \<le> length xs"
  obtains pre post where "xs = pre @ subslice xs s e @ post" "length pre = s"
proof
  show "xs = take s xs @ subslice xs s e @ drop e xs"
    using assms unfolding subslice_def
    by (metis append_take_drop_id le_add_diff_inverse2 append.assoc drop_drop)
  show "length (take s xs) = s" using assms by simp
qed

lemma take_subslice: "take k (subslice xs s e) = subslice xs s (min e (s + k))"
proof -
  have "min e (s + k) - s = min k (e - s)" by auto
  then show ?thesis by (simp add: subslice_def)
qed

lemma drop_subslice: "drop k (subslice xs s e) = subslice xs (s + k) e"
  by (simp add: subslice_def drop_take add.commute)

section \<open>Bit length\<close>

text \<open>
  The number of significant bits of an unsigned integer: on a \<open>w\<close>-bit type,
  \<open>x.leading_zeros()\<close> is \<open>w - bit_length x\<close>.
\<close>

fun bit_length :: "nat \<Rightarrow> nat" where
  "bit_length n = (if n = 0 then 0 else Suc (bit_length (n div 2)))"

declare bit_length.simps [simp del]

definition leading_zeros :: "nat \<Rightarrow> nat \<Rightarrow> nat" where
  "leading_zeros w x = w - bit_length x"

lemma bit_length_0 [simp]: "bit_length 0 = 0"
  by (simp add: bit_length.simps)

lemma bit_length_pos: "0 < n \<Longrightarrow> bit_length n = Suc (bit_length (n div 2))"
  by (simp add: bit_length.simps [of n])

lemma bit_length_bounds: "0 < n \<Longrightarrow> 2 ^ (bit_length n - 1) \<le> n \<and> n < 2 ^ bit_length n"
proof (induction n rule: bit_length.induct)
  case (1 n)
  show ?case
  proof (cases "n div 2 = 0")
    case True
    with 1(2) have "n = 1" by linarith
    then show ?thesis by (simp add: bit_length_pos)
  next
    case False
    with 1 have IH: "2 ^ (bit_length (n div 2) - 1) \<le> n div 2" "n div 2 < 2 ^ bit_length (n div 2)"
      by auto
    from False obtain j where j: "bit_length (n div 2) = Suc j"
      by (meson bit_length_pos not_gr_zero)
    with IH have "2 ^ j \<le> n div 2" "n div 2 < 2 * 2 ^ j" by auto
    then have "2 * 2 ^ j \<le> n" "n < 2 * (2 * 2 ^ j)" by linarith+
    with 1(2) j show ?thesis by (simp add: bit_length_pos [of n])
  qed
qed

lemma bit_length_unique: "2 ^ j \<le> n \<Longrightarrow> n < 2 ^ Suc j \<Longrightarrow> bit_length n = Suc j"
proof (induction j arbitrary: n)
  case 0
  then have "n = 1" by simp
  then show ?case by (simp add: bit_length_pos)
next
  case (Suc j)
  then have "2 ^ j \<le> n div 2" "n div 2 < 2 ^ Suc j" by auto
  then have "bit_length (n div 2) = Suc j" by (rule Suc.IH)
  moreover have "0 < n" using Suc.prems(1) by (metis gr_zeroI not_le zero_less_numeral zero_less_power)
  ultimately show ?case by (simp add: bit_length_pos)
qed

section \<open>Big-endian integers\<close>

definition be_nat :: "bytes \<Rightarrow> nat" where
  "be_nat bs = foldl (\<lambda>acc b. acc * 256 + unat b) 0 bs"

fun be_bytes :: "nat \<Rightarrow> nat \<Rightarrow> bytes" where
  "be_bytes 0 v = []"
| "be_bytes (Suc n) v = be_bytes n (v div 256) @ [of_nat (v mod 256)]"

lemma length_be_bytes [simp]: "length (be_bytes n v) = n"
  by (induction n arbitrary: v) auto

lemma be_nat_snoc [simp]: "be_nat (bs @ [b]) = be_nat bs * 256 + unat b"
  by (simp add: be_nat_def)

lemma be_nat_Nil [simp]: "be_nat [] = 0"
  by (simp add: be_nat_def)

lemma unat_byte_bound [simp]: "unat (b :: byte) < 256"
  using unsigned_less [of b] by simp

lemma be_nat_bound: "be_nat bs < 256 ^ length bs"
proof (induction bs rule: rev_induct)
  case (snoc b bs)
  have "be_nat bs * 256 + unat b < (be_nat bs + 1) * 256"
    using unat_byte_bound [of b] by simp
  also have "\<dots> \<le> 256 ^ length bs * 256"
    using snoc by (intro mult_le_mono1) simp
  finally show ?case by simp
qed simp

lemma be_nat_be_bytes: "be_nat (be_bytes n v) = v mod 256 ^ n"
proof (induction n arbitrary: v)
  case (Suc n)
  have "v mod 256 ^ Suc n = (v div 256 mod 256 ^ n) * 256 + v mod 256"
    by (metis mod_mult2_eq power_Suc add.commute mult.commute)
  then show ?case using Suc by (simp add: unat_of_nat)
qed simp

lemma be_bytes_be_nat: "be_bytes (length bs) (be_nat bs) = bs"
proof (induction bs rule: rev_induct)
  case (snoc b bs)
  have "(be_nat bs * 256 + unat b) div 256 = be_nat bs" "(be_nat bs * 256 + unat b) mod 256 = unat b"
    using unat_byte_bound [of b] by auto
  with snoc show ?case by simp
qed simp

section \<open>Decimal numbers\<close>

text \<open>\<open>Display\<close> of an unsigned integer.\<close>

fun decimal :: "nat \<Rightarrow> string" where
  "decimal n = (if n < 10 then [char_of (48 + n)] else decimal (n div 10) @ [char_of (48 + n mod 10)])"

declare decimal.simps [simp del]

lemma length_decimal: "n < 10 ^ Suc k \<Longrightarrow> length (decimal n) \<le> Suc k"
proof (induction k arbitrary: n)
  case 0
  then show ?case by (subst decimal.simps) simp
next
  case (Suc k)
  then have "n div 10 < 10 ^ Suc k" by simp
  from Suc.IH [OF this] show ?case by (subst decimal.simps) simp
qed

lemma decimal_digits: "c \<in> set (decimal n) \<Longrightarrow> 48 \<le> (of_char c :: nat) \<and> of_char c < (58 :: nat)"
proof (induction n rule: decimal.induct)
  case (1 n)
  have digit: "of_char (char_of (48 + m :: nat)) = (48 + m :: nat)" if "m < 10" for m
    using that by (simp add: of_char_of)
  show ?case
  proof (cases "n < 10")
    case True
    with "1.prems" have "c = char_of (48 + n)" by (subst (asm) decimal.simps) simp
    with digit [OF True] True show ?thesis by simp
  next
    case False
    with "1.prems" have "c \<in> set (decimal (n div 10)) \<or> c = char_of (48 + n mod 10)"
      by (subst (asm) decimal.simps) auto
    with "1.IH" [OF False] digit [of "n mod 10"] show ?thesis by auto
  qed
qed

text \<open>The number a numeral spells.\<close>

definition numeral_value :: "string \<Rightarrow> nat" where
  "numeral_value s = foldl (\<lambda>v c. v * 10 + (of_char c - 48)) 0 s"

lemma numeral_value_decimal: "numeral_value (decimal n) = n"
proof (induction n rule: decimal.induct)
  case (1 n)
  show ?case
  proof (cases "n < 10")
    case True
    then show ?thesis by (subst decimal.simps) (simp add: numeral_value_def of_char_of)
  next
    case False
    with 1 have "numeral_value (decimal n) = n div 10 * 10 + n mod 10"
      by (subst decimal.simps) (simp add: numeral_value_def of_char_of)
    then show ?thesis by simp
  qed
qed

lemma decimal_inject: "decimal m = decimal n \<longleftrightarrow> m = n"
  by (metis numeral_value_decimal)

section \<open>Codecs with one spelling per value\<close>

text \<open>
  The contract several components promise of a pair \<open>enc\<close>/\<open>dec\<close>: decoding undoes
  encoding, and whatever decodes was produced by encoding the result. Two spellings of one
  value are then impossible.
\<close>

locale canonical_codec =
  fixes enc :: "'a \<Rightarrow> 'b"
    and dec :: "'b \<Rightarrow> 'e + 'a"
    and valid :: "'a \<Rightarrow> bool"
  assumes dec_enc: "valid x \<Longrightarrow> dec (enc x) = Inr x"
    and enc_dec: "dec t = Inr x \<Longrightarrow> valid x \<and> enc x = t"
begin

lemma spelling_inject: "valid x \<Longrightarrow> valid y \<Longrightarrow> enc x = enc y \<longleftrightarrow> x = y"
  using dec_enc by (metis sum.inject(2))

lemma one_spelling: "dec t = Inr x \<Longrightarrow> dec u = Inr x \<Longrightarrow> t = u"
  using enc_dec by metis

lemma dec_ok_iff: "is_ok (dec t) \<longleftrightarrow> (\<exists>x. valid x \<and> t = enc x)"
  using dec_enc enc_dec unfolding is_ok_iff by metis

lemma dec_eq_iff: "dec t = Inr x \<longleftrightarrow> valid x \<and> t = enc x"
  using dec_enc enc_dec by metis

end

end
