(* ===== verification/Canon_Cbor.thy ===== *)
theory Canon_Cbor
  imports Prelude
begin

text \<open>
  The strict canonical-form scanner of gx-canon (\<open>src/crates/gx-canon/src/cbor.rs\<close>) and
  the crate's error type (\<open>src/crates/gx-canon/src/lib.rs\<close>). \<open>scan_strict\<close> is compared
  with a reference grammar: the values gx admits, each with its one canonical encoding.

  The serde codec (\<open>serde_ipld_dagcbor\<close>) is not part of the repository: its
  \<open>to_vec\<close> and \<open>from_slice\<close> are arguments of the operations that call them.
\<close>

section \<open>Errors\<close>

datatype canon_error =
    Encode string
  | Decode string
  | NotCanonicalizable canon_error
  | Truncated nat nat nat
  | Empty
  | NonMinimal nat nat nat nat
  | IndefiniteLength nat
  | ReservedAdditionalInfo nat nat
  | TagNotAllowed nat nat
  | FloatNotAllowed nat
  | SimpleValueNotAllowed nat nat
  | NonTextMapKey nat nat
  | UnsortedOrDuplicateMapKey nat
  | InvalidUtf8 nat
  | TrailingBytes nat nat
  | TooDeep nat nat
  | CidText
  | Jcs

section \<open>The scanner\<close>

definition MAX_DEPTH :: nat where
  "MAX_DEPTH = 64"

record scan =
  scan_b :: bytes
  scan_i :: nat

text \<open>\<open>Scan::take\<close>: the next \<open>n\<close> bytes; \<open>checked_add\<close> refuses a wrap of \<open>usize\<close>.\<close>

definition scan_take :: "nat \<Rightarrow> scan \<Rightarrow> canon_error + bytes \<times> scan" where
  "scan_take n s =
     (let at = scan_i s; end = at + n in
      if end \<ge> u64_limit then Inl (Truncated at n n)
      else if end > length (scan_b s) then Inl (Truncated at n (end - length (scan_b s)))
      else Inr (subslice (scan_b s) at end, s\<lparr>scan_i := end\<rparr>))"

definition scan_peek :: "scan \<Rightarrow> canon_error + byte" where
  "scan_peek s =
     (if scan_i s < length (scan_b s) then Inr (scan_b s ! scan_i s)
      else Inl (Truncated (scan_i s) 1 1))"

definition byte_major :: "byte \<Rightarrow> nat" where
  "byte_major b = unat (drop_bit 5 b)"

definition byte_ai :: "byte \<Rightarrow> nat" where
  "byte_ai b = unat (b AND 0x1f)"

definition require_minimal :: "nat \<Rightarrow> nat \<Rightarrow> nat \<Rightarrow> nat \<Rightarrow> bool \<Rightarrow> canon_error + nat" where
  "require_minimal v major ai at ok = (if ok then Inr v else Inl (NonMinimal at major ai v))"

text \<open>
  \<open>Scan::head\<close>: the major type, the argument and the offset. The four wide forms read 1, 2,
  4 or 8 big-endian bytes and demand that the next shorter form would not have held the value.
\<close>

definition wide_arg ::
  "nat \<Rightarrow> nat \<Rightarrow> nat \<Rightarrow> nat \<Rightarrow> (nat \<Rightarrow> bool) \<Rightarrow> scan \<Rightarrow> canon_error + nat \<times> scan" where
  "wide_arg width major ai at ok s =
     and_then (scan_take width s) (\<lambda>(raw, s1).
     and_then (require_minimal (be_nat raw) major ai at (ok (be_nat raw))) (\<lambda>v.
     Inr (v, s1)))"

definition head_arg :: "nat \<Rightarrow> nat \<Rightarrow> nat \<Rightarrow> scan \<Rightarrow> canon_error + nat \<times> scan" where
  "head_arg major ai at s =
     (if ai \<le> 23 then Inr (ai, s)
      else if ai = 24 then wide_arg 1 major 24 at (\<lambda>v. v \<ge> 24) s
      else if ai = 25 then wide_arg 2 major 25 at (\<lambda>v. v > 0xff) s
      else if ai = 26 then wide_arg 4 major 26 at (\<lambda>v. v > 0xffff) s
      else if ai = 27 then wide_arg 8 major 27 at (\<lambda>v. v > 0xffffffff) s
      else if ai = 31 then Inl (IndefiniteLength at)
      else Inl (ReservedAdditionalInfo at ai))"

definition scan_head :: "scan \<Rightarrow> canon_error + (nat \<times> nat \<times> nat) \<times> scan" where
  "scan_head s =
     (let at = scan_i s in
      and_then (scan_take 1 s) (\<lambda>(raw, s1).
      let b = raw ! 0; major = byte_major b; ai = byte_ai b in
      and_then (head_arg major ai at s1) (\<lambda>(arg, s2). Inr ((major, arg, at), s2))))"

text \<open>
  \<open>core::str::from_utf8\<close>: well-formed UTF-8 by the table of RFC 3629 (no overlong forms, no
  surrogates, nothing above U+10FFFF).
\<close>

definition byte_in_range :: "byte \<Rightarrow> nat \<Rightarrow> nat \<Rightarrow> bool" where
  "byte_in_range b lo hi \<longleftrightarrow> lo \<le> unat b \<and> unat b \<le> hi"

definition utf8_step :: "bytes \<Rightarrow> nat option" where
  "utf8_step bs =
     (case bs of
        [] \<Rightarrow> None
      | b0 # r \<Rightarrow>
          if byte_in_range b0 0x00 0x7f then Some 1
          else if byte_in_range b0 0xc2 0xdf then
            (case r of b1 # _ \<Rightarrow> if byte_in_range b1 0x80 0xbf then Some 2 else None | _ \<Rightarrow> None)
          else if byte_in_range b0 0xe0 0xef then
            (case r of b1 # b2 # _ \<Rightarrow>
               if byte_in_range b1 (if unat b0 = 0xe0 then 0xa0 else 0x80)
                              (if unat b0 = 0xed then 0x9f else 0xbf)
                  \<and> byte_in_range b2 0x80 0xbf then Some 3 else None | _ \<Rightarrow> None)
          else if byte_in_range b0 0xf0 0xf4 then
            (case r of b1 # b2 # b3 # _ \<Rightarrow>
               if byte_in_range b1 (if unat b0 = 0xf0 then 0x90 else 0x80)
                              (if unat b0 = 0xf4 then 0x8f else 0xbf)
                  \<and> byte_in_range b2 0x80 0xbf \<and> byte_in_range b3 0x80 0xbf then Some 4 else None | _ \<Rightarrow> None)
          else None)"

lemma utf8_step_pos: "utf8_step bs = Some n \<Longrightarrow> 0 < n"
  by (auto simp: utf8_step_def split: list.splits if_splits)

function utf8_valid :: "bytes \<Rightarrow> bool" where
  "utf8_valid bs =
     (if bs = [] then True
      else case utf8_step bs of None \<Rightarrow> False | Some n \<Rightarrow> utf8_valid (drop n bs))"
  by pat_completeness auto
termination
  by (relation "measure length") (auto dest: utf8_step_pos)

declare utf8_valid.simps [simp del]

lemma utf8_valid_ascii: "\<forall>b \<in> set bs. b < 0x80 \<Longrightarrow> utf8_valid bs"
proof (induction bs)
  case (Cons b bs)
  then have "byte_in_range b 0x00 0x7f" by (auto simp: byte_in_range_def word_less_nat_alt)
  with Cons show ?case by (subst utf8_valid.simps) (simp add: utf8_step_def)
qed (simp add: utf8_valid.simps)

text \<open>\<open>Scan::simple_or_float\<close>: of major type 7, only false, true and null.\<close>

definition simple_or_float :: "scan \<Rightarrow> canon_error + scan" where
  "simple_or_float s =
     (let at = scan_i s in
      and_then (scan_take 1 s) (\<lambda>(raw, s1).
      let ai = byte_ai (raw ! 0) in
      if 20 \<le> ai \<and> ai \<le> 22 then Inr s1
      else if 25 \<le> ai \<and> ai \<le> 27 then Inl (FloatNotAllowed at)
      else if ai = 31 then Inl (IndefiniteLength at)
      else if 28 \<le> ai \<and> ai \<le> 30 then Inl (ReservedAdditionalInfo at ai)
      else Inl (SimpleValueNotAllowed at ai)))"

text \<open>
  \<open>Scan::item\<close> recurses through its two loops only, one level deeper each time. The loops
  take the scan of one nested item, \<open>self.item(depth + 1)\<close>, as an argument.
\<close>

fun repeat_items :: "(scan \<Rightarrow> canon_error + scan) \<Rightarrow> nat \<Rightarrow> scan \<Rightarrow> canon_error + scan" where
  "repeat_items nested n s =
     (if n = 0 then Inr s else and_then (nested s) (repeat_items nested (n - 1)))"

declare repeat_items.simps [simp del]

text \<open>\<open>Scan::map\<close>: text keys, strictly increasing in the bytewise order of their encoded form.\<close>

fun scan_map ::
  "(scan \<Rightarrow> canon_error + scan) \<Rightarrow> nat \<Rightarrow> bytes option \<Rightarrow> scan \<Rightarrow> canon_error + scan" where
  "scan_map nested entries previous s =
     (if entries = 0 then Inr s
      else and_then (scan_peek s) (\<lambda>b.
        if byte_major b \<noteq> 3 then Inl (NonTextMapKey (scan_i s) (byte_major b))
        else and_then (nested s) (\<lambda>s1.
          let key = subslice (scan_b s) (scan_i s) (scan_i s1) in
          if (case previous of None \<Rightarrow> False | Some prev \<Rightarrow> key \<le> prev)
          then Inl (UnsortedOrDuplicateMapKey (scan_i s))
          else and_then (nested s1) (scan_map nested (entries - 1) (Some key)))))"

declare scan_map.simps [simp del]

definition item_content ::
  "(scan \<Rightarrow> canon_error + scan) \<Rightarrow> nat \<Rightarrow> nat \<Rightarrow> nat \<Rightarrow> scan \<Rightarrow> canon_error + scan" where
  "item_content nested major arg at s =
     (if major = 0 \<or> major = 1 then Inr s
      else if major = 2 then and_then (scan_take arg s) (\<lambda>(_, s2). Inr s2)
      else if major = 3 then
        and_then (scan_take arg s) (\<lambda>(raw, s2).
          if utf8_valid raw then Inr s2 else Inl (InvalidUtf8 at))
      else if major = 4 then repeat_items nested arg s
      else if major = 5 then scan_map nested arg None s
      else Inl (TagNotAllowed at arg))"

definition item_body :: "(scan \<Rightarrow> canon_error + scan) \<Rightarrow> scan \<Rightarrow> canon_error + scan" where
  "item_body nested s =
     and_then (scan_peek s) (\<lambda>b.
     if byte_major b = 7 then simple_or_float s
     else and_then (scan_head s) (\<lambda>((major, arg, at), s1). item_content nested major arg at s1))"

function scan_item :: "nat \<Rightarrow> scan \<Rightarrow> canon_error + scan" where
  "scan_item depth =
     (if depth > MAX_DEPTH then (\<lambda>s. Inl (TooDeep (scan_i s) MAX_DEPTH))
      else item_body (scan_item (depth + 1)))"
  by pat_completeness auto
termination
  by (relation "measure (\<lambda>depth. Suc MAX_DEPTH - depth)") auto

declare scan_item.simps [simp del]

definition scan_strict :: "bytes \<Rightarrow> canon_error + unit" where
  "scan_strict bs =
     (if bs = [] then Inl Empty
      else and_then (scan_item 0 \<lparr>scan_b = bs, scan_i = 0\<rparr>) (\<lambda>s.
        if scan_i s = length bs then Inr ()
        else Inl (TrailingBytes (scan_i s) (length bs - scan_i s))))"

section \<open>The codec entry points\<close>

definition cbor_encode :: "('a \<Rightarrow> string + bytes) \<Rightarrow> 'a \<Rightarrow> canon_error + bytes" where
  "cbor_encode to_vec v =
     and_then (map_err Encode (to_vec v)) (\<lambda>bs.
     case scan_strict bs of Inr _ \<Rightarrow> Inr bs | Inl e \<Rightarrow> Inl (NotCanonicalizable e))"

definition cbor_decode :: "(bytes \<Rightarrow> string + 'a) \<Rightarrow> bytes \<Rightarrow> canon_error + 'a" where
  "cbor_decode from_slice bs =
     and_then (scan_strict bs) (\<lambda>_. map_err Decode (from_slice bs))"

definition is_canonical :: "(bytes \<Rightarrow> string + 'i) \<Rightarrow> ('i \<Rightarrow> string + bytes) \<Rightarrow> bytes \<Rightarrow> bool" where
  "is_canonical from_slice to_vec bs =
     (case from_slice bs of
        Inl _ \<Rightarrow> False
      | Inr v \<Rightarrow> (case cbor_encode to_vec v of Inr again \<Rightarrow> again = bs | Inl _ \<Rightarrow> False))"

lemma cbor_encode_ok: "cbor_encode tv v = Inr bs \<longleftrightarrow> tv v = Inr bs \<and> is_ok (scan_strict bs)"
  by (cases "tv v") (auto simp: cbor_encode_def is_ok_iff split: sum.splits)

lemma cbor_decode_encoded: "cbor_encode tv v = Inr bs \<Longrightarrow> fv bs = Inr x \<Longrightarrow> cbor_decode fv bs = Inr x"
  by (auto simp: cbor_encode_ok cbor_decode_def is_ok_iff)

section \<open>The span of one map entry\<close>

definition text_content_of :: "bytes \<Rightarrow> bytes option" where
  "text_content_of encoded =
     (case encoded of
        [] \<Rightarrow> None
      | first # _ \<Rightarrow>
          if byte_major first \<noteq> 3 then None
          else
            (let ai = byte_ai first;
                 header = (if ai \<le> 23 then Some 1 else if ai = 24 then Some 2
                           else if ai = 25 then Some 3 else if ai = 26 then Some 5
                           else if ai = 27 then Some 9 else None)
             in case header of
                  None \<Rightarrow> None
                | Some h \<Rightarrow> if h \<le> length encoded then Some (drop h encoded) else None))"

fun span_loop ::
  "(scan \<Rightarrow> canon_error + scan) \<Rightarrow> bytes \<Rightarrow> nat \<Rightarrow> bytes option \<Rightarrow> (nat \<times> nat) option \<Rightarrow> scan
    \<Rightarrow> canon_error + (nat \<times> nat) option \<times> scan" where
  "span_loop nested key entries previous found s =
     (if entries = 0 then Inr (found, s)
      else and_then (scan_peek s) (\<lambda>b.
        if byte_major b \<noteq> 3 then Inl (NonTextMapKey (scan_i s) (byte_major b))
        else and_then (nested s) (\<lambda>s1.
          let encoded_key = subslice (scan_b s) (scan_i s) (scan_i s1) in
          if (case previous of None \<Rightarrow> False | Some prev \<Rightarrow> encoded_key \<le> prev)
          then Inl (UnsortedOrDuplicateMapKey (scan_i s))
          else and_then (nested s1) (\<lambda>s2.
            span_loop nested key (entries - 1) (Some encoded_key)
              (if found = None \<and> text_content_of encoded_key = Some key
               then Some (scan_i s1, scan_i s2) else found) s2))))"

declare span_loop.simps [simp del]

definition value_span_of ::
  "bytes \<Rightarrow> nat \<Rightarrow> scan \<Rightarrow> canon_error + (nat \<times> nat) option \<times> scan" where
  "value_span_of key depth s =
     and_then (scan_head s) (\<lambda>((major, arg, at), s1).
     if major \<noteq> 5 then Inl (NonTextMapKey at major)
     else span_loop (scan_item (depth + 1)) key arg None None s1)"

definition value_span :: "bytes \<Rightarrow> bytes \<Rightarrow> canon_error + (nat \<times> nat) option" where
  "value_span bs key =
     (if bs = [] then Inl Empty
      else and_then (value_span_of key 0 \<lparr>scan_b = bs, scan_i = 0\<rparr>) (\<lambda>(span, s).
        if scan_i s = length bs then Inr span
        else Inl (TrailingBytes (scan_i s) (length bs - scan_i s))))"

section \<open>The reference grammar\<close>

text \<open>
  The values the canonical form admits: unsigned and negative integers, byte and text strings,
  arrays, maps with text keys, false, true and null. \<open>enc\<close> gives each its encoding with
  minimal heads; \<open>fits d\<close> says the value is admissible \<open>d\<close> levels deep.
\<close>

datatype cbor =
    CUInt nat
  | CNInt nat
  | CBytes bytes
  | CText bytes
  | CArr "cbor list"
  | CMap "(bytes \<times> cbor) list"
  | CBool bool
  | CNull

definition head_byte :: "nat \<Rightarrow> nat \<Rightarrow> byte" where
  "head_byte major ai = of_nat (32 * major + ai)"

definition enc_head :: "nat \<Rightarrow> nat \<Rightarrow> bytes" where
  "enc_head major arg =
     (if arg \<le> 23 then [head_byte major arg]
      else if arg \<le> 0xff then head_byte major 24 # be_bytes 1 arg
      else if arg \<le> 0xffff then head_byte major 25 # be_bytes 2 arg
      else if arg \<le> 0xffffffff then head_byte major 26 # be_bytes 4 arg
      else head_byte major 27 # be_bytes 8 arg)"

definition enc_text :: "bytes \<Rightarrow> bytes" where
  "enc_text k = enc_head 3 (length k) @ k"

fun enc :: "cbor \<Rightarrow> bytes" where
  "enc (CUInt n) = enc_head 0 n"
| "enc (CNInt n) = enc_head 1 n"
| "enc (CBytes bs) = enc_head 2 (length bs) @ bs"
| "enc (CText bs) = enc_text bs"
| "enc (CArr vs) = enc_head 4 (length vs) @ concat (map enc vs)"
| "enc (CMap kvs) = enc_head 5 (length kvs) @ concat (map (\<lambda>(k, v). enc_text k @ enc v) kvs)"
| "enc (CBool x) = [if x then 0xf5 else 0xf4]"
| "enc CNull = [0xf6]"

fun fits :: "nat \<Rightarrow> cbor \<Rightarrow> bool" where
  "fits d (CUInt n) = (d \<le> MAX_DEPTH \<and> n < u64_limit)"
| "fits d (CNInt n) = (d \<le> MAX_DEPTH \<and> n < u64_limit)"
| "fits d (CBytes bs) = (d \<le> MAX_DEPTH \<and> length bs < u64_limit)"
| "fits d (CText bs) = (d \<le> MAX_DEPTH \<and> length bs < u64_limit \<and> utf8_valid bs)"
| "fits d (CArr vs) = (d \<le> MAX_DEPTH \<and> length vs < u64_limit \<and> (\<forall>v\<in>set vs. fits (d + 1) v))"
| "fits d (CMap kvs) =
     (d \<le> MAX_DEPTH \<and> length kvs < u64_limit
      \<and> (\<forall>(k, v)\<in>set kvs. fits (d + 1) (CText k) \<and> fits (d + 1) v)
      \<and> sorted_wrt (<) (map (enc_text \<circ> fst) kvs))"
| "fits d (CBool x) = (d \<le> MAX_DEPTH)"
| "fits d CNull = (d \<le> MAX_DEPTH)"

abbreviation enc_entries :: "(bytes \<times> cbor) list \<Rightarrow> bytes" where
  "enc_entries kvs \<equiv> concat (map (\<lambda>(k, v). enc_text k @ enc v) kvs)"

section \<open>Bytes and heads\<close>

lemma byte_major_div: "byte_major b = unat b div 32"
  by (simp add: byte_major_def drop_bit_eq_div unat_div)

lemma byte_ai_mod: "byte_ai b = unat b mod 32"
proof -
  have "b AND 0x1f = take_bit 5 b"
    by (simp add: take_bit_eq_mask mask_eq_exp_minus_1)
  then show ?thesis
    by (simp add: byte_ai_def take_bit_eq_mod unat_mod)
qed

lemma unat_head_byte: "m < 8 \<Longrightarrow> a < 32 \<Longrightarrow> unat (head_byte m a) = 32 * m + a"
  by (simp add: head_byte_def unat_of_nat del: of_nat_add of_nat_mult)

lemma byte_major_head [simp]: "m < 8 \<Longrightarrow> a < 32 \<Longrightarrow> byte_major (head_byte m a) = m"
  by (simp add: byte_major_div unat_head_byte)

lemma byte_ai_head [simp]: "m < 8 \<Longrightarrow> a < 32 \<Longrightarrow> byte_ai (head_byte m a) = a"
  by (simp add: byte_ai_mod unat_head_byte)

lemma head_byte_split [simp]: "head_byte (byte_major b) (byte_ai b) = b"
proof -
  have "32 * byte_major b + byte_ai b = unat b"
    by (simp add: byte_major_div byte_ai_mod)
  then show ?thesis unfolding head_byte_def by (simp only: of_nat_unat ucast_id)
qed

lemma byte_major_bound [simp]: "byte_major b < 8"
  unfolding byte_major_div using unat_byte_bound [of b] by arith

lemma byte_ai_bound [simp]: "byte_ai b < 32"
  by (simp add: byte_ai_mod)

lemma enc_head_nonempty [simp]: "enc_head m a \<noteq> []"
  by (simp add: enc_head_def)

lemma hd_enc_head_major [simp]: "m < 8 \<Longrightarrow> byte_major (hd (enc_head m a)) = m"
  by (simp add: enc_head_def)

section \<open>Positions\<close>

text \<open>
  \<open>ahead s bs\<close>: the bytes at the cursor start with \<open>bs\<close>. Every scanning operation that
  succeeds has read exactly what is ahead and moved the cursor behind it.
\<close>

definition ahead :: "scan \<Rightarrow> bytes \<Rightarrow> bool" where
  "ahead s bs \<longleftrightarrow> take (length bs) (drop (scan_i s) (scan_b s)) = bs"

definition adv :: "scan \<Rightarrow> nat \<Rightarrow> scan" where
  "adv s n = s\<lparr>scan_i := scan_i s + n\<rparr>"

definition scan_ok :: "scan \<Rightarrow> bool" where
  "scan_ok s \<longleftrightarrow> scan_i s \<le> length (scan_b s) \<and> length (scan_b s) < u64_limit"

lemma adv_simps [simp]:
  "scan_i (adv s n) = scan_i s + n" "scan_b (adv s n) = scan_b s"
  "adv (adv s n) m = adv s (n + m)" "adv s 0 = s"
  by (simp_all add: adv_def)

lemma ahead_Nil [simp]: "ahead s []"
  by (simp add: ahead_def)

lemma take_append_split:
  "take (length xs + length ys) zs = xs @ ys
    \<longleftrightarrow> take (length xs) zs = xs \<and> take (length ys) (drop (length xs) zs) = ys"
proof
  assume l: "take (length xs + length ys) zs = xs @ ys"
  then have "take (length xs) (take (length xs + length ys) zs) = xs"
    and "drop (length xs) (take (length xs + length ys) zs) = ys" by simp_all
  then show "take (length xs) zs = xs \<and> take (length ys) (drop (length xs) zs) = ys"
    by (simp add: min_def drop_take)
qed (simp add: take_add)

lemma ahead_append: "ahead s (xs @ ys) \<longleftrightarrow> ahead s xs \<and> ahead (adv s (length xs)) ys"
  by (simp add: ahead_def take_append_split add.commute)

lemma ahead_length: "ahead s bs \<Longrightarrow> scan_ok s \<Longrightarrow> scan_i s + length bs \<le> length (scan_b s)"
  unfolding ahead_def scan_ok_def
  by (metis add.commute diff_diff_cancel le_add_diff_inverse2 le_diff_conv2 length_drop length_take min.cobounded1)

lemma scan_ok_adv: "ahead s bs \<Longrightarrow> scan_ok s \<Longrightarrow> scan_ok (adv s (length bs))"
  using ahead_length by (fastforce simp: scan_ok_def)

lemma ahead_subslice: "ahead s bs \<Longrightarrow> subslice (scan_b s) (scan_i s) (scan_i s + length bs) = bs"
  by (simp add: ahead_def subslice_def)

lemma scan_take_iff:
  assumes "scan_ok s"
  shows "scan_take n s = Inr (raw, s') \<longleftrightarrow> length raw = n \<and> ahead s raw \<and> s' = adv s n"
proof
  assume "scan_take n s = Inr (raw, s')"
  then show "length raw = n \<and> ahead s raw \<and> s' = adv s n"
    using assms by (auto simp: scan_take_def Let_def ahead_def adv_def subslice_def split: if_splits)
next
  assume r: "length raw = n \<and> ahead s raw \<and> s' = adv s n"
  with assms have "scan_i s + n \<le> length (scan_b s)" using ahead_length by blast
  with r assms ahead_subslice show "scan_take n s = Inr (raw, s')"
    by (auto simp: scan_take_def Let_def scan_ok_def adv_def)
qed

lemma scan_take_ahead [simp]:
  "scan_ok s \<Longrightarrow> ahead s raw \<Longrightarrow> scan_take (length raw) s = Inr (raw, adv s (length raw))"
  by (simp add: scan_take_iff)

lemma scan_peek_ahead:
  assumes "scan_ok s" "ahead s bs" "bs \<noteq> []"
  shows "scan_peek s = Inr (hd bs)"
proof -
  from assms have l: "scan_i s < length (scan_b s)"
    using ahead_length [OF assms(2,1)] by (cases bs) auto
  then have "drop (scan_i s) (scan_b s) = scan_b s ! scan_i s # drop (Suc (scan_i s)) (scan_b s)"
    by (rule Cons_nth_drop_Suc [symmetric])
  with assms(2,3) have "hd bs = scan_b s ! scan_i s"
    by (cases bs) (auto simp: ahead_def)
  with l show ?thesis by (simp add: scan_peek_def)
qed

section \<open>Heads\<close>

lemma wide_arg_iff:
  assumes "scan_ok s"
  shows "wide_arg w major ai at ok s = Inr (v, s')
    \<longleftrightarrow> ok v \<and> v < 256 ^ w \<and> ahead s (be_bytes w v) \<and> s' = adv s w"
proof -
  have "wide_arg w major ai at ok s = Inr (v, s')
    \<longleftrightarrow> (\<exists>raw. length raw = w \<and> ahead s raw \<and> s' = adv s w \<and> ok (be_nat raw) \<and> v = be_nat raw)"
    using assms unfolding wide_arg_def require_minimal_def
    by (auto simp: and_then_eq_Inr scan_take_iff split: if_splits)
  also have "\<dots> \<longleftrightarrow> ok v \<and> v < 256 ^ w \<and> ahead s (be_bytes w v) \<and> s' = adv s w"
    using be_nat_bound be_bytes_be_nat be_nat_be_bytes length_be_bytes
    by (metis mod_less)
  finally show ?thesis .
qed

lemma head_arg_iff:
  assumes "scan_ok s" "m < 8" "ai < 32"
  shows "head_arg m ai at s = Inr (a, s')
    \<longleftrightarrow> a < u64_limit \<and> hd (enc_head m a) = head_byte m ai \<and> ahead s (tl (enc_head m a))
      \<and> s' = adv s (length (tl (enc_head m a)))"
proof -
  have hb: "head_byte m x = head_byte m y \<longleftrightarrow> x = y" if "x < 32" "y < 32" for x y
    using byte_ai_head [OF assms(2)] that by metis
  consider "a \<le> 23" | "23 < a" "a \<le> 0xff" | "0xff < a" "a \<le> 0xffff"
    | "0xffff < a" "a \<le> 0xffffffff" | "0xffffffff < a" by linarith
  then show ?thesis
    using assms(3) by cases (auto simp: head_arg_def wide_arg_iff [OF assms(1)] enc_head_def hb)
qed

lemma scan_head_ahead:
  assumes "scan_ok s" "ahead s [b]"
  shows "scan_head s = and_then (head_arg (byte_major b) (byte_ai b) (scan_i s) (adv s 1))
     (\<lambda>(arg, s2). Inr ((byte_major b, arg, scan_i s), s2))"
proof -
  have "scan_take 1 s = Inr ([b], adv s 1)" using assms by (simp add: scan_take_iff)
  then show ?thesis by (simp add: scan_head_def Let_def)
qed

lemma scan_head_Inr:
  assumes "scan_ok s" "scan_head s = Inr ((m, a, at), s')"
  shows "m < 8 \<and> a < u64_limit \<and> at = scan_i s \<and> ahead s (enc_head m a)
    \<and> s' = adv s (length (enc_head m a))"
proof -
  from assms obtain b where b: "ahead s [b]"
    unfolding scan_head_def Let_def
    by (auto simp: and_then_eq_Inr scan_take_iff length_Suc_conv)
  have ok1: "scan_ok (adv s 1)" using scan_ok_adv [OF b assms(1)] by simp
  from assms(2) have m: "m = byte_major b" "at = scan_i s"
    and "head_arg m (byte_ai b) at (adv s 1) = Inr (a, s')"
    by (auto simp: scan_head_ahead [OF assms(1) b] and_then_eq_Inr)
  with ok1 have a: "a < u64_limit" "hd (enc_head m a) = b" "ahead (adv s 1) (tl (enc_head m a))"
      "s' = adv s (1 + length (tl (enc_head m a)))"
    by (auto simp: head_arg_iff)
  then have "enc_head m a = [b] @ tl (enc_head m a)"
    by (metis append_Cons append_Nil enc_head_nonempty list.collapse)
  moreover from a(3) b have "ahead s ([b] @ tl (enc_head m a))"
    by (subst ahead_append) simp
  moreover have "length (enc_head m a) = 1 + length (tl (enc_head m a))"
    by (cases "enc_head m a") auto
  ultimately show ?thesis using m a byte_major_bound [of b] by metis
qed

lemma scan_head_enc:
  assumes "scan_ok s" "m < 8" "a < u64_limit" "ahead s (enc_head m a)"
  shows "scan_head s = Inr ((m, a, scan_i s), adv s (length (enc_head m a)))"
proof -
  obtain x t where xt: "enc_head m a = x # t" by (cases "enc_head m a") auto
  with assms(4) have x: "ahead s [x]" and t: "ahead (adv s 1) t"
    using ahead_append [of s "[x]" t] by simp_all
  have ok1: "scan_ok (adv s 1)" using scan_ok_adv [OF x assms(1)] by simp
  have m: "byte_major x = m" using hd_enc_head_major [OF assms(2), of a] xt by simp
  then have "head_byte m (byte_ai x) = x" using head_byte_split [of x] by simp
  then have "head_arg m (byte_ai x) (scan_i s) (adv s 1) = Inr (a, adv s (Suc (length t)))"
    using head_arg_iff [OF ok1 assms(2) byte_ai_bound] xt t assms(3) by simp
  then show ?thesis by (simp add: scan_head_ahead [OF assms(1) x] m xt)
qed

section \<open>The scanner accepts exactly the grammar\<close>

text \<open>\<open>nested\<close> reads exactly the encodings of the values \<open>W\<close> admits.\<close>

definition accepts :: "(scan \<Rightarrow> canon_error + scan) \<Rightarrow> (cbor \<Rightarrow> bool) \<Rightarrow> bool" where
  "accepts nested W \<longleftrightarrow>
     (\<forall>s s'. scan_ok s \<longrightarrow> (nested s = Inr s' \<longleftrightarrow>
        (\<exists>v. W v \<and> ahead s (enc v) \<and> s' = adv s (length (enc v)))))"

lemma acceptsD:
  "accepts nested W \<Longrightarrow> scan_ok s \<Longrightarrow>
    nested s = Inr s' \<longleftrightarrow> (\<exists>v. W v \<and> ahead s (enc v) \<and> s' = adv s (length (enc v)))"
  by (simp add: accepts_def)

lemma repeat_items_iff:
  assumes acc: "accepts nested W"
  shows "scan_ok s \<Longrightarrow> repeat_items nested n s = Inr s' \<longleftrightarrow>
    (\<exists>vs. length vs = n \<and> (\<forall>v\<in>set vs. W v) \<and> ahead s (concat (map enc vs))
      \<and> s' = adv s (length (concat (map enc vs))))"
proof (induction n arbitrary: s)
  case 0
  then show ?case by (auto simp: repeat_items.simps [of nested 0])
next
  case (Suc n)
  have "repeat_items nested (Suc n) s = Inr s' \<longleftrightarrow>
      (\<exists>v. W v \<and> ahead s (enc v) \<and> repeat_items nested n (adv s (length (enc v))) = Inr s')"
    using acceptsD [OF acc Suc.prems]
    by (auto simp: repeat_items.simps [of nested "Suc n"] and_then_eq_Inr)
  also have "\<dots> \<longleftrightarrow> (\<exists>v vs. W v \<and> length vs = n \<and> (\<forall>w\<in>set vs. W w)
      \<and> ahead s (enc v @ concat (map enc vs)) \<and> s' = adv s (length (enc v @ concat (map enc vs))))"
    using Suc.IH [OF scan_ok_adv [OF _ Suc.prems]] by (auto simp: ahead_append)
  also have "\<dots> \<longleftrightarrow> (\<exists>vs. length vs = Suc n \<and> (\<forall>v\<in>set vs. W v)
      \<and> ahead s (concat (map enc vs)) \<and> s' = adv s (length (concat (map enc vs))))"
    by (subst ex_length_Suc) auto
  finally show ?case .
qed

fun major_of :: "cbor \<Rightarrow> nat" where
  "major_of (CUInt _) = 0"
| "major_of (CNInt _) = 1"
| "major_of (CBytes _) = 2"
| "major_of (CText _) = 3"
| "major_of (CArr _) = 4"
| "major_of (CMap _) = 5"
| "major_of (CBool _) = 7"
| "major_of CNull = 7"

lemma enc_nonempty [simp]: "enc v \<noteq> []"
  by (cases v) (simp_all add: enc_text_def)

lemma enc_text_nonempty [simp]: "enc_text k \<noteq> []"
  by (simp add: enc_text_def)

lemma byte_major_simple [simp]:
  "byte_major 0xf4 = 7" "byte_major 0xf5 = 7" "byte_major 0xf6 = 7"
  by (simp_all add: byte_major_div)

lemma major_hd_enc: "byte_major (hd (enc v)) = major_of v"
  by (cases v) (simp_all add: enc_text_def)

lemma major_of_3: "major_of v = 3 \<longleftrightarrow> (\<exists>k. v = CText k)"
  by (cases v) auto

text \<open>Keys strictly above \<open>previous\<close>, in order.\<close>

definition sorted_from :: "bytes option \<Rightarrow> bytes list \<Rightarrow> bool" where
  "sorted_from previous ks = sorted_wrt (<) (case previous of None \<Rightarrow> ks | Some p \<Rightarrow> p # ks)"

lemma sorted_from_Cons:
  "sorted_from previous (k # ks) \<longleftrightarrow>
    (case previous of None \<Rightarrow> True | Some p \<Rightarrow> \<not> k \<le> p) \<and> sorted_from (Some k) ks"
  by (cases previous) (auto simp: sorted_from_def not_le)

lemma sorted_from_Nil [simp]: "sorted_from previous []"
  by (cases previous) (auto simp: sorted_from_def)

definition key_ok :: "bytes option \<Rightarrow> bytes \<Rightarrow> bool" where
  "key_ok previous k = (case previous of None \<Rightarrow> True | Some p \<Rightarrow> \<not> k \<le> p)"

lemma scan_map_step:
  assumes acc: "accepts nested W" and ok: "scan_ok s"
  shows "scan_map nested (Suc n) previous s = Inr s' \<longleftrightarrow>
    (\<exists>k v. W (CText k) \<and> W v \<and> key_ok previous (enc_text k) \<and> ahead s (enc_text k @ enc v)
      \<and> scan_map nested n (Some (enc_text k)) (adv s (length (enc_text k @ enc v))) = Inr s')"
    (is "?L \<longleftrightarrow> ?R")
proof
  assume ?L
  then obtain b s1 s2 where b: "scan_peek s = Inr b" "byte_major b = 3" "nested s = Inr s1"
      "key_ok previous (subslice (scan_b s) (scan_i s) (scan_i s1))" "nested s1 = Inr s2"
      "scan_map nested n (Some (subslice (scan_b s) (scan_i s) (scan_i s1))) s2 = Inr s'"
    by (auto simp: scan_map.simps [of nested "Suc n"] and_then_eq_Inr Let_def key_ok_def
        split: if_splits option.splits)
  from b(3) obtain u where u: "W u" "ahead s (enc u)" "s1 = adv s (length (enc u))"
    using acceptsD [OF acc ok] by blast
  then have "hd (enc u) = b" using scan_peek_ahead [OF ok u(2)] b(1) by simp
  then obtain k where k: "u = CText k" using b(2) major_hd_enc major_of_3 by metis
  have ok1: "scan_ok s1" using u scan_ok_adv ok by blast
  from b(5) obtain v where v: "W v" "ahead s1 (enc v)" "s2 = adv s1 (length (enc v))"
    using acceptsD [OF acc ok1] by blast
  have "subslice (scan_b s) (scan_i s) (scan_i s1) = enc_text k"
    using u k ahead_subslice [OF u(2)] by simp
  with b u v k show ?R by (auto simp: ahead_append add.assoc)
next
  assume ?R
  then obtain k v where kv: "W (CText k)" "W v" "key_ok previous (enc_text k)"
      "ahead s (enc_text k)" "ahead (adv s (length (enc_text k))) (enc v)"
      "scan_map nested n (Some (enc_text k)) (adv s (length (enc_text k @ enc v))) = Inr s'"
    by (auto simp: ahead_append)
  let ?s1 = "adv s (length (enc_text k))"
  have "nested s = Inr ?s1" using acceptsD [OF acc ok] kv(1,4) by fastforce
  moreover have ok1: "scan_ok ?s1" using scan_ok_adv [OF kv(4) ok] by simp
  moreover have "nested ?s1 = Inr (adv s (length (enc_text k @ enc v)))"
    using acceptsD [OF acc ok1] kv(2,5) by fastforce
  moreover have "scan_peek s = Inr (hd (enc_text k))" using scan_peek_ahead [OF ok kv(4)] by simp
  moreover have "byte_major (hd (enc_text k)) = 3" by (simp add: enc_text_def)
  moreover have "subslice (scan_b s) (scan_i s) (scan_i ?s1) = enc_text k"
    using ahead_subslice [OF kv(4)] by simp
  ultimately show ?L using kv(3,6)
    by (auto simp: scan_map.simps [of nested "Suc n"] key_ok_def Let_def split: option.splits)
qed

lemma scan_map_iff:
  assumes acc: "accepts nested W"
  shows "scan_ok s \<Longrightarrow> scan_map nested n previous s = Inr s' \<longleftrightarrow>
    (\<exists>kvs. length kvs = n \<and> (\<forall>(k, v)\<in>set kvs. W (CText k) \<and> W v)
      \<and> sorted_from previous (map (enc_text \<circ> fst) kvs)
      \<and> ahead s (enc_entries kvs) \<and> s' = adv s (length (enc_entries kvs)))"
proof (induction n arbitrary: s previous)
  case 0
  then show ?case by (auto simp: scan_map.simps [of nested 0])
next
  case (Suc n)
  have ok': "scan_ok (adv s (length (enc_text k @ enc v)))" if "ahead s (enc_text k @ enc v)" for k v
    using scan_ok_adv [OF that Suc.prems] .
  have "scan_map nested (Suc n) previous s = Inr s' \<longleftrightarrow>
    (\<exists>k v kvs. W (CText k) \<and> W v \<and> key_ok previous (enc_text k) \<and> ahead s (enc_text k @ enc v)
      \<and> length kvs = n \<and> (\<forall>(k, v)\<in>set kvs. W (CText k) \<and> W v)
      \<and> sorted_from (Some (enc_text k)) (map (enc_text \<circ> fst) kvs)
      \<and> ahead (adv s (length (enc_text k @ enc v))) (enc_entries kvs)
      \<and> s' = adv (adv s (length (enc_text k @ enc v))) (length (enc_entries kvs)))"
    unfolding scan_map_step [OF acc Suc.prems] using Suc.IH [OF ok'] by metis
  also have "\<dots> \<longleftrightarrow> (\<exists>k v kvs. length kvs = n
      \<and> (\<forall>(k, v)\<in>set ((k, v) # kvs). W (CText k) \<and> W v)
      \<and> sorted_from previous (map (enc_text \<circ> fst) ((k, v) # kvs))
      \<and> ahead s (enc_entries ((k, v) # kvs)) \<and> s' = adv s (length (enc_entries ((k, v) # kvs))))"
    by (intro iff_exI) (auto simp: sorted_from_Cons key_ok_def ahead_append add.assoc)
  also have "\<dots> \<longleftrightarrow> (\<exists>kvs. length kvs = Suc n \<and> (\<forall>(k, v)\<in>set kvs. W (CText k) \<and> W v)
      \<and> sorted_from previous (map (enc_text \<circ> fst) kvs)
      \<and> ahead s (enc_entries kvs) \<and> s' = adv s (length (enc_entries kvs)))"
    by (subst ex_length_Suc_pair) simp
  finally show ?case .
qed

lemma head_byte_simple:
  "head_byte 7 20 = 0xf4" "head_byte 7 21 = 0xf5" "head_byte 7 22 = 0xf6"
  by (simp_all add: head_byte_def)

lemma simple_or_float_iff:
  assumes "scan_ok s"
  shows "simple_or_float s = Inr s' \<longleftrightarrow>
    (\<exists>b. ahead s [b] \<and> 20 \<le> byte_ai b \<and> byte_ai b \<le> 22 \<and> s' = adv s 1)"
proof
  assume "simple_or_float s = Inr s'"
  then obtain raw where "length raw = 1" "ahead s raw" "s' = adv s 1"
      "20 \<le> byte_ai (raw ! 0) \<and> byte_ai (raw ! 0) \<le> 22"
    using assms by (auto simp: simple_or_float_def Let_def and_then_eq_Inr scan_take_iff split: if_splits)
  then show "\<exists>b. ahead s [b] \<and> 20 \<le> byte_ai b \<and> byte_ai b \<le> 22 \<and> s' = adv s 1"
    by (cases raw) auto
next
  assume "\<exists>b. ahead s [b] \<and> 20 \<le> byte_ai b \<and> byte_ai b \<le> 22 \<and> s' = adv s 1"
  then obtain b where b: "ahead s [b]" "20 \<le> byte_ai b" "byte_ai b \<le> 22" "s' = adv s 1" by blast
  then have "scan_take 1 s = Inr ([b], adv s 1)" using assms by (simp add: scan_take_iff)
  with b show "simple_or_float s = Inr s'" by (simp add: simple_or_float_def Let_def)
qed

lemma item_body_sound:
  assumes acc: "accepts nested (fits (d + 1))" and d: "d \<le> MAX_DEPTH" and ok: "scan_ok s"
    and run: "item_body nested s = Inr s'"
  shows "\<exists>v. fits d v \<and> ahead s (enc v) \<and> s' = adv s (length (enc v))"
proof -
  from run obtain b where b: "scan_peek s = Inr b" by (auto simp: item_body_def and_then_eq_Inr)
  show ?thesis
  proof (cases "byte_major b = 7")
    case True
    with run b have "simple_or_float s = Inr s'" by (simp add: item_body_def)
    then obtain c where c: "ahead s [c]" "20 \<le> byte_ai c" "byte_ai c \<le> 22" "s' = adv s 1"
      using simple_or_float_iff [OF ok] by blast
    with b have "c = b" using scan_peek_ahead [OF ok c(1)] by simp
    with True have "head_byte 7 (byte_ai c) = c" using head_byte_split [of c] by simp
    moreover have "byte_ai c = 20 \<or> byte_ai c = 21 \<or> byte_ai c = 22" using c by linarith
    ultimately have "[c] = enc (CBool False) \<or> [c] = enc (CBool True) \<or> [c] = enc CNull"
      by (auto simp: head_byte_simple)
    moreover have "fits d (CBool False)" "fits d (CBool True)" "fits d CNull" using d by simp_all
    ultimately show ?thesis using c by (metis One_nat_def length_Cons list.size(3))
  next
    case False
    with run b obtain m a at s1 where h: "scan_head s = Inr ((m, a, at), s1)"
      and rest: "item_content nested m a at s1 = Inr s'"
      by (auto simp: item_body_def and_then_eq_Inr)
    note H = scan_head_Inr [OF ok h]
    have ok1: "scan_ok s1" using H scan_ok_adv ok by blast
    have "m = 0 \<or> m = 1 \<or> m = 2 \<or> m = 3 \<or> m = 4 \<or> m = 5"
      using rest by (auto simp: item_content_def split: if_splits)
    then consider "m = 0" "s' = s1" | "m = 1" "s' = s1"
      | raw where "m = 2" "length raw = a" "ahead s1 raw" "s' = adv s1 a"
      | raw where "m = 3" "length raw = a" "ahead s1 raw" "s' = adv s1 a" "utf8_valid raw"
      | "m = 4" "repeat_items nested a s1 = Inr s'" | "m = 5" "scan_map nested a None s1 = Inr s'"
      using rest ok1
      by (elim disjE) (auto simp: item_content_def and_then_eq_Inr scan_take_iff split: if_splits)
    then show ?thesis
    proof cases
      case 1
      with H d show ?thesis by (intro exI [of _ "CUInt a"]) auto
    next
      case 2
      with H d show ?thesis by (intro exI [of _ "CNInt a"]) auto
    next
      case 3
      with H d show ?thesis by (intro exI [of _ "CBytes raw"]) (auto simp: ahead_append)
    next
      case 4
      with H d show ?thesis by (intro exI [of _ "CText raw"]) (auto simp: ahead_append enc_text_def)
    next
      case 5
      then obtain vs where "length vs = a" "\<forall>v\<in>set vs. fits (d + 1) v" "ahead s1 (concat (map enc vs))"
          "s' = adv s1 (length (concat (map enc vs)))"
        using repeat_items_iff [OF acc ok1] by blast
      with H d 5 show ?thesis by (intro exI [of _ "CArr vs"]) (auto simp: ahead_append)
    next
      case 6
      then obtain kvs where "length kvs = a" "\<forall>(k, v)\<in>set kvs. fits (d + 1) (CText k) \<and> fits (d + 1) v"
          "sorted_from None (map (enc_text \<circ> fst) kvs)" "ahead s1 (enc_entries kvs)"
          "s' = adv s1 (length (enc_entries kvs))"
        using scan_map_iff [OF acc ok1] by blast
      with H d 6 show ?thesis
        by (intro exI [of _ "CMap kvs"]) (simp add: ahead_append sorted_from_def del: fits.simps(4))
    qed
  qed
qed

lemma item_body_complete:
  assumes acc: "accepts nested (fits (d + 1))" and ok: "scan_ok s"
    and v: "fits d v" "ahead s (enc v)"
  shows "item_body nested s = Inr (adv s (length (enc v)))"
proof -
  have pk: "scan_peek s = Inr (hd (enc v))" using scan_peek_ahead [OF ok v(2)] by simp
  have simple: "item_body nested s = Inr (adv s 1)" if "ahead s [b]" "hd (enc v) = b" "major_of v = 7"
      "20 \<le> byte_ai b" "byte_ai b \<le> 22" for b
    using that pk major_hd_enc [of v] simple_or_float_iff [OF ok, THEN iffD2, OF exI, of b]
    by (simp add: item_body_def)
  have headed: "item_body nested s = item_content nested m a (scan_i s) (adv s (length (enc_head m a)))"
    if "enc v = enc_head m a @ t" "major_of v = m" "m < 6" "a < u64_limit" for m a t
  proof -
    have "ahead s (enc_head m a)" using v(2) that(1) by (simp add: ahead_append)
    then have "scan_head s = Inr ((m, a, scan_i s), adv s (length (enc_head m a)))"
      using scan_head_enc [OF ok] that by simp
    with that pk major_hd_enc [of v] show ?thesis by (simp add: item_body_def)
  qed
  have tl: "ahead (adv s (length h)) t \<and> scan_ok (adv s (length h))" if "enc v = h @ t" for h t
    using v(2) that scan_ok_adv ok by (auto simp: ahead_append)
  show ?thesis
  proof (cases v)
    case (CUInt n)
    with headed [of 0 n "[]"] v(1) show ?thesis by (simp add: item_content_def)
  next
    case (CNInt n)
    with headed [of 1 n "[]"] v(1) show ?thesis by (simp add: item_content_def)
  next
    case (CBytes bs)
    with headed [of 2 "length bs" bs] v(1) tl [of "enc_head 2 (length bs)" bs] show ?thesis
      by (simp add: item_content_def)
  next
    case (CText bs)
    with headed [of 3 "length bs" bs] v(1) tl [of "enc_head 3 (length bs)" bs] show ?thesis
      by (simp add: item_content_def enc_text_def)
  next
    case (CArr vs)
    with tl [of "enc_head 4 (length vs)" "concat (map enc vs)"]
      repeat_items_iff [OF acc, of "adv s (length (enc_head 4 (length vs)))"] v(1)
    have "repeat_items nested (length vs) (adv s (length (enc_head 4 (length vs))))
        = Inr (adv s (length (enc v)))" by auto
    with CArr headed [of 4 "length vs" "concat (map enc vs)"] v(1) show ?thesis by (simp add: item_content_def)
  next
    case (CMap kvs)
    with tl [of "enc_head 5 (length kvs)" "enc_entries kvs"]
      scan_map_iff [OF acc, of "adv s (length (enc_head 5 (length kvs)))" "length kvs" None] v(1)
    have "scan_map nested (length kvs) None (adv s (length (enc_head 5 (length kvs))))
        = Inr (adv s (length (enc v)))" by (auto simp: sorted_from_def)
    with CMap headed [of 5 "length kvs" "enc_entries kvs"] v(1) show ?thesis by (simp add: item_content_def)
  next
    case (CBool x)
    with v(2) simple [of "if x then 0xf5 else 0xf4"] show ?thesis
      by (cases x) (simp_all add: byte_ai_mod)
  next
    case CNull
    with v(2) simple [of "0xf6"] show ?thesis by (simp add: byte_ai_mod)
  qed
qed

lemma not_fits_deep: "MAX_DEPTH < d \<Longrightarrow> \<not> fits d v"
  by (cases v) auto

lemma scan_item_accepts: "accepts (scan_item d) (fits d)"
proof (induction d rule: scan_item.induct)
  case (1 d)
  show ?case
  proof (cases "d > MAX_DEPTH")
    case True
    then show ?thesis using not_fits_deep by (simp add: accepts_def scan_item.simps [of d])
  next
    case False
    with 1 have acc: "accepts (scan_item (d + 1)) (fits (d + 1))" by simp
    have eq: "scan_item d = item_body (scan_item (d + 1))"
      using False by (simp add: scan_item.simps [of d])
    show ?thesis unfolding accepts_def eq
      using item_body_sound [OF acc] item_body_complete [OF acc] False
      by (metis not_less)
  qed
qed

lemma scan_strict_iff:
  assumes "length bs < u64_limit"
  shows "scan_strict bs = Inr () \<longleftrightarrow> (\<exists>v. fits 0 v \<and> enc v = bs)"
proof (cases "bs = []")
  case True
  then show ?thesis by (auto simp: scan_strict_def)
next
  case False
  let ?s = "\<lparr>scan_b = bs, scan_i = 0\<rparr>"
  have ok: "scan_ok ?s" using assms by (simp add: scan_ok_def)
  have "scan_strict bs = Inr () \<longleftrightarrow> (\<exists>s'. scan_item 0 ?s = Inr s' \<and> scan_i s' = length bs)"
    using False by (auto simp: scan_strict_def and_then_eq_Inr)
  also have "\<dots> \<longleftrightarrow> (\<exists>v. fits 0 v \<and> ahead ?s (enc v) \<and> length (enc v) = length bs)"
    using acceptsD [OF scan_item_accepts ok] by auto
  also have "\<dots> \<longleftrightarrow> (\<exists>v. fits 0 v \<and> enc v = bs)"
    by (auto simp: ahead_def)
  finally show ?thesis .
qed

section \<open>One encoding, one value\<close>

lemma be_bytes_inject: "a < 256 ^ w \<Longrightarrow> b < 256 ^ w \<Longrightarrow> be_bytes w a = be_bytes w b \<Longrightarrow> a = b"
  by (metis be_nat_be_bytes mod_less)

lemma enc_head_inject:
  assumes "m < 8" "m' < 8" "a < u64_limit" "a' < u64_limit"
    and eq: "enc_head m a @ xs = enc_head m' a' @ ys"
  shows "m = m' \<and> a = a' \<and> xs = ys"
proof -
  have "hd (enc_head m a) = hd (enc_head m' a')"
    using eq by (metis enc_head_nonempty hd_append2)
  then have m: "m = m'" using assms(1,2) hd_enc_head_major by metis
  have hb: "head_byte m' x = head_byte m' y \<longleftrightarrow> x = y" if "x < 32" "y < 32" for x y
    using byte_ai_head [OF assms(2)] that by metis
  have w: "a = a' \<and> xs = ys" if "be_bytes w a @ xs = be_bytes w a' @ ys" "a < 256 ^ w" "a' < 256 ^ w" for w
    using that be_bytes_inject by (metis append_eq_append_conv length_be_bytes)
  consider "a \<le> 23" | "23 < a" "a \<le> 0xff" | "0xff < a" "a \<le> 0xffff"
    | "0xffff < a" "a \<le> 0xffffffff" | "0xffffffff < a" by linarith
  then have "a = a' \<and> xs = ys"
  proof cases
    case 1
    then show ?thesis using eq m by (auto simp: enc_head_def hb split: if_splits)
  next
    case 2
    with eq m have "be_bytes 1 a @ xs = be_bytes 1 a' @ ys \<and> a' \<le> 0xff"
      by (auto simp: enc_head_def hb split: if_splits)
    with 2 show ?thesis using w [of 1] by simp
  next
    case 3
    with eq m have "be_bytes 2 a @ xs = be_bytes 2 a' @ ys \<and> a' \<le> 0xffff"
      by (auto simp: enc_head_def hb split: if_splits)
    with 3 show ?thesis using w [of 2] by simp
  next
    case 4
    with eq m have "be_bytes 4 a @ xs = be_bytes 4 a' @ ys \<and> a' \<le> 0xffffffff"
      by (auto simp: enc_head_def hb split: if_splits)
    with 4 show ?thesis using w [of 4] by simp
  next
    case 5
    with eq m have "be_bytes 8 a @ xs = be_bytes 8 a' @ ys"
      by (auto simp: enc_head_def hb split: if_splits)
    with assms(3,4) show ?thesis using w [of 8] by simp
  qed
  with m show ?thesis by simp
qed

lemma enc_text_inject:
  assumes "length k < u64_limit" "length k' < u64_limit" "enc_text k @ xs = enc_text k' @ ys"
  shows "k = k' \<and> xs = ys"
  using enc_head_inject [of 3 3 "length k" "length k'" "k @ xs" "k' @ ys"] assms
  by (auto simp: enc_text_def)

text \<open>No encoding of a second value starts where an encoding of \<open>v\<close> starts.\<close>

definition unambiguous :: "cbor \<Rightarrow> bool" where
  "unambiguous v \<longleftrightarrow> (\<forall>d e w xs ys. fits d v \<longrightarrow> fits e w \<longrightarrow> enc v @ xs = enc w @ ys \<longrightarrow> v = w \<and> xs = ys)"

lemma unambiguousI:
  "(\<And>d e w xs ys. fits d v \<Longrightarrow> fits e w \<Longrightarrow> enc v @ xs = enc w @ ys \<Longrightarrow> v = w \<and> xs = ys)
    \<Longrightarrow> unambiguous v"
  unfolding unambiguous_def by blast

lemma unambiguousD:
  "unambiguous v \<Longrightarrow> fits d v \<Longrightarrow> fits e w \<Longrightarrow> enc v @ xs = enc w @ ys \<Longrightarrow> v = w \<and> xs = ys"
  unfolding unambiguous_def by blast

lemma enc_list_inject:
  assumes "length vs = length ws" "\<forall>v\<in>set vs. unambiguous v"
    and "\<forall>v\<in>set vs. fits d v" "\<forall>w\<in>set ws. fits e w"
    and "concat (map enc vs) @ xs = concat (map enc ws) @ ys"
  shows "vs = ws \<and> xs = ys"
  using assms
proof (induction vs ws rule: list_induct2)
  case (Cons v vs w ws)
  from Cons.prems(4) have "enc v @ concat (map enc vs) @ xs = enc w @ concat (map enc ws) @ ys" by simp
  with Cons.prems(1-3) have "v = w \<and> concat (map enc vs) @ xs = concat (map enc ws) @ ys"
    by (intro unambiguousD [of v d e w]) auto
  with Cons show ?case by simp
qed simp

lemma enc_entries_inject:
  assumes "length vs = length ws" "\<forall>(k, v)\<in>set vs. unambiguous v"
    and "\<forall>(k, v)\<in>set vs. fits d (CText k) \<and> fits d v" "\<forall>(k, w)\<in>set ws. fits e (CText k) \<and> fits e w"
    and "enc_entries vs @ xs = enc_entries ws @ ys"
  shows "vs = ws \<and> xs = ys"
  using assms
proof (induction vs ws rule: list_induct2)
  case (Cons v vs w ws)
  obtain k x k' x' where vw: "v = (k, x)" "w = (k', x')" by (cases v, cases w)
  from Cons.prems(4) vw
  have "enc_text k @ enc x @ enc_entries vs @ xs = enc_text k' @ enc x' @ enc_entries ws @ ys" by simp
  moreover have "length k < u64_limit" "length k' < u64_limit" using Cons.prems(2,3) vw by auto
  ultimately have k: "k = k'" and r: "enc x @ enc_entries vs @ xs = enc x' @ enc_entries ws @ ys"
    using enc_text_inject by blast+
  have "x = x' \<and> enc_entries vs @ xs = enc_entries ws @ ys"
    by (rule unambiguousD [OF _ _ _ r]) (use Cons.prems(1-3) vw in auto)
  with Cons vw k show ?case by simp
qed simp

lemma major_eq:
  assumes "enc v @ xs = enc w @ ys"
  shows "major_of v = major_of w"
  using assms major_hd_enc by (metis enc_nonempty hd_append2)

lemma all_unambiguous: "unambiguous v"
proof (induction v)
  case (CUInt n)
  show ?case
  proof (rule unambiguousI)
    fix d e w xs ys assume h: "fits d (CUInt n)" "fits e w" "enc (CUInt n) @ xs = enc w @ ys"
    from major_eq [OF h(3)] obtain n' where "w = CUInt n'" by (cases w) auto
    with h show "CUInt n = w \<and> xs = ys" using enc_head_inject [of 0 0 n n' xs ys] by auto
  qed
next
  case (CNInt n)
  show ?case
  proof (rule unambiguousI)
    fix d e w xs ys assume h: "fits d (CNInt n)" "fits e w" "enc (CNInt n) @ xs = enc w @ ys"
    from major_eq [OF h(3)] obtain n' where "w = CNInt n'" by (cases w) auto
    with h show "CNInt n = w \<and> xs = ys" using enc_head_inject [of 1 1 n n' xs ys] by auto
  qed
next
  case (CBytes b)
  show ?case
  proof (rule unambiguousI)
    fix d e w xs ys assume h: "fits d (CBytes b)" "fits e w" "enc (CBytes b) @ xs = enc w @ ys"
    from major_eq [OF h(3)] obtain b' where "w = CBytes b'" by (cases w) auto
    with h show "CBytes b = w \<and> xs = ys"
      using enc_head_inject [of 2 2 "length b" "length b'" "b @ xs" "b' @ ys"] by auto
  qed
next
  case (CText k)
  show ?case
  proof (rule unambiguousI)
    fix d e w xs ys assume h: "fits d (CText k)" "fits e w" "enc (CText k) @ xs = enc w @ ys"
    from major_eq [OF h(3)] obtain k' where "w = CText k'" by (cases w) auto
    with h show "CText k = w \<and> xs = ys" using enc_text_inject [of k k' xs ys] by auto
  qed
next
  case (CArr vs)
  show ?case
  proof (rule unambiguousI)
    fix d e w xs ys assume h: "fits d (CArr vs)" "fits e w" "enc (CArr vs) @ xs = enc w @ ys"
    from major_eq [OF h(3)] obtain ws where w: "w = CArr ws" by (cases w) auto
    with h have "length vs = length ws \<and> concat (map enc vs) @ xs = concat (map enc ws) @ ys"
      using enc_head_inject [of 4 4 "length vs" "length ws"] by auto
    with h w CArr show "CArr vs = w \<and> xs = ys"
      using enc_list_inject [of vs ws "d + 1" "e + 1" xs ys] by simp
  qed
next
  case (CMap vs)
  have u: "\<forall>(k, v)\<in>set vs. unambiguous v" using CMap by (auto intro: snds.intros)
  show ?case
  proof (rule unambiguousI)
    fix d e w xs ys assume h: "fits d (CMap vs)" "fits e w" "enc (CMap vs) @ xs = enc w @ ys"
    from major_eq [OF h(3)] obtain ws where w: "w = CMap ws" by (cases w) auto
    with h have "length vs = length ws \<and> enc_entries vs @ xs = enc_entries ws @ ys"
      using enc_head_inject [of 5 5 "length vs" "length ws"] by auto
    with h w u show "CMap vs = w \<and> xs = ys"
      using enc_entries_inject [of vs ws "d + 1" "e + 1" xs ys] by simp
  qed
next
  case (CBool b)
  show ?case
  proof (rule unambiguousI)
    fix d e w xs ys assume h: "fits d (CBool b)" "fits e w" "enc (CBool b) @ xs = enc w @ ys"
    from major_eq [OF h(3)] have "major_of w = 7" by simp
    with h show "CBool b = w \<and> xs = ys" by (cases w) (auto split: if_splits)
  qed
next
  case CNull
  show ?case
  proof (rule unambiguousI)
    fix d e w xs ys assume h: "fits d CNull" "fits e w" "enc CNull @ xs = enc w @ ys"
    from major_eq [OF h(3)] have "major_of w = 7" by simp
    with h show "CNull = w \<and> xs = ys" by (cases w) (auto split: if_splits)
  qed
qed

lemma enc_inject: "fits d v \<Longrightarrow> fits e w \<Longrightarrow> enc v @ xs = enc w @ ys \<Longrightarrow> v = w \<and> xs = ys"
  using all_unambiguous unambiguousD by blast

section \<open>Spans\<close>

text \<open>Where the value stored at \<open>key\<close> lies, for entries laid out from offset \<open>i\<close>.\<close>

fun entry_span :: "nat \<Rightarrow> bytes \<Rightarrow> (bytes \<times> cbor) list \<Rightarrow> (nat \<times> nat) option" where
  "entry_span i key [] = None"
| "entry_span i key ((k, v) # kvs) =
     (let a = i + length (enc_text k); b = a + length (enc v) in
      if k = key then Some (a, b) else entry_span b key kvs)"

lemma text_content_enc:
  assumes "length k < u64_limit"
  shows "text_content_of (enc_text k) = Some k"
proof -
  consider "length k \<le> 23" | "23 < length k" "length k \<le> 0xff" | "0xff < length k" "length k \<le> 0xffff"
    | "0xffff < length k" "length k \<le> 0xffffffff" | "0xffffffff < length k" by linarith
  then show ?thesis
    by cases (simp_all add: text_content_of_def enc_text_def enc_head_def Let_def drop_Cons' del: be_bytes.simps)
qed

lemma span_loop_scan_map:
  "span_loop nested key n previous found s = Inr (r, s') \<Longrightarrow> scan_map nested n previous s = Inr s'"
proof (induction n arbitrary: previous found s)
  case 0
  then show ?case by (simp add: span_loop.simps [of nested key 0] scan_map.simps [of nested 0])
next
  case (Suc n)
  show ?case using Suc.prems
    by (auto simp: span_loop.simps [of nested key "Suc n"] scan_map.simps [of nested "Suc n"]
        and_then_eq_Inr Let_def split: if_splits dest!: Suc.IH)
qed

lemma span_loop_enc:
  assumes acc: "accepts nested (fits d)"
  shows "scan_ok s \<Longrightarrow> \<forall>(k, v)\<in>set kvs. fits d (CText k) \<and> fits d v \<Longrightarrow>
    sorted_from previous (map (enc_text \<circ> fst) kvs) \<Longrightarrow> ahead s (enc_entries kvs) \<Longrightarrow>
    span_loop nested key (length kvs) previous found s =
      Inr (case found of Some r \<Rightarrow> Some r | None \<Rightarrow> entry_span (scan_i s) key kvs,
           adv s (length (enc_entries kvs)))"
proof (induction kvs arbitrary: s previous found)
  case Nil
  then show ?case by (simp add: span_loop.simps [of nested key 0] split: option.split)
next
  case (Cons kv kvs)
  obtain k v where kv: "kv = (k, v)" by (cases kv)
  have fk: "fits d (CText k)" "fits d v" "length k < u64_limit" using Cons.prems(2) kv by auto
  have ak: "ahead s (enc_text k)" and av: "ahead (adv s (length (enc_text k))) (enc v)"
    and ar: "ahead (adv s (length (enc_text k @ enc v))) (enc_entries kvs)"
    using Cons.prems(4) kv by (auto simp: ahead_append add.assoc)
  let ?s1 = "adv s (length (enc_text k))" and ?s2 = "adv s (length (enc_text k @ enc v))"
  have ok1: "scan_ok ?s1" using scan_ok_adv [OF ak Cons.prems(1)] .
  have ok2: "scan_ok ?s2" using scan_ok_adv [OF av ok1] by simp
  have n1: "nested s = Inr ?s1" using acceptsD [OF acc Cons.prems(1)] fk(1) ak by fastforce
  have n2: "nested ?s1 = Inr ?s2" using acceptsD [OF acc ok1] fk(2) av by fastforce
  have pk: "scan_peek s = Inr (hd (enc_text k))" "byte_major (hd (enc_text k)) = 3"
    using scan_peek_ahead [OF Cons.prems(1) ak] by (simp_all add: enc_text_def)
  have key: "subslice (scan_b s) (scan_i s) (scan_i s + length (enc_text k)) = enc_text k"
    using ahead_subslice [OF ak] by simp
  have so: "sorted_from (Some (enc_text k)) (map (enc_text \<circ> fst) kvs)"
      "\<not> (case previous of None \<Rightarrow> False
          | Some prev \<Rightarrow> subslice (scan_b s) (scan_i s) (scan_i ?s1) \<le> prev)"
    using Cons.prems(3) kv key by (auto simp: sorted_from_Cons comp_def split: option.splits)
  have IH: "\<And>found. span_loop nested key (length kvs) (Some (enc_text k)) found ?s2 =
      Inr (case found of Some r \<Rightarrow> Some r | None \<Rightarrow> entry_span (scan_i ?s2) key kvs,
           adv ?s2 (length (enc_entries kvs)))"
    using Cons.IH [OF ok2 _ so(1) ar] Cons.prems(2) by auto
  show ?case
    by (cases found)
      (simp_all add: kv span_loop.simps [of nested key "Suc _"] pk n1 n2 key so(2)
        IH [simplified] text_content_enc [OF fk(3)] Let_def add.assoc split del: if_split,
       simp_all add: add.assoc)
qed

lemma value_span_enc:
  assumes "fits 0 (CMap kvs)" "length (enc (CMap kvs)) < u64_limit"
  shows "value_span (enc (CMap kvs)) key = Inr (entry_span (length (enc_head 5 (length kvs))) key kvs)"
proof -
  let ?b = "enc (CMap kvs)" and ?h = "enc_head 5 (length kvs)"
  let ?s = "\<lparr>scan_b = ?b, scan_i = 0\<rparr>"
  have ok: "scan_ok ?s" using assms(2) by (simp add: scan_ok_def)
  have ah: "ahead ?s ?h" "ahead (adv ?s (length ?h)) (enc_entries kvs)"
    by (simp_all add: ahead_def)
  have ok1: "scan_ok (adv ?s (length ?h))" using scan_ok_adv [OF ah(1) ok] .
  have "scan_head ?s = Inr ((5, length kvs, 0), adv ?s (length ?h))"
    using scan_head_enc [OF ok _ _ ah(1)] assms(1) by simp
  moreover have "span_loop (scan_item 1) key (length kvs) None None (adv ?s (length ?h)) =
      Inr (entry_span (length ?h) key kvs, adv ?s (length ?b))"
    using span_loop_enc [OF scan_item_accepts ok1 _ _ ah(2), of 1 None key None] assms(1)
    by (simp add: sorted_from_def del: fits.simps(4))
  ultimately show ?thesis by (simp add: value_span_def value_span_of_def del: enc.simps)
qed

lemma value_span_map:
  assumes "length bs < u64_limit" "value_span bs key = Inr r"
  shows "\<exists>kvs. fits 0 (CMap kvs) \<and> bs = enc (CMap kvs)"
proof -
  let ?s = "\<lparr>scan_b = bs, scan_i = 0\<rparr>"
  have ok: "scan_ok ?s" using assms(1) by (simp add: scan_ok_def)
  from assms(2) obtain a at s1 s2 where h: "scan_head ?s = Inr ((5, a, at), s1)"
    and l: "span_loop (scan_item 1) key a None None s1 = Inr (r, s2)" "scan_i s2 = length bs"
    by (auto simp: value_span_def value_span_of_def and_then_eq_Inr split: if_splits)
  note H = scan_head_Inr [OF ok h]
  have ok1: "scan_ok s1" using H scan_ok_adv ok by blast
  obtain kvs where k: "length kvs = a" "\<forall>(k, v)\<in>set kvs. fits 1 (CText k) \<and> fits 1 v"
      "sorted_from None (map (enc_text \<circ> fst) kvs)" "ahead s1 (enc_entries kvs)"
      "s2 = adv s1 (length (enc_entries kvs))"
    using scan_map_iff [OF scan_item_accepts ok1] span_loop_scan_map [OF l(1)] by blast
  have "fits 0 (CMap kvs)" using H k by (simp add: sorted_from_def MAX_DEPTH_def del: fits.simps(4))
  moreover have "ahead ?s (enc (CMap kvs))" "length (enc (CMap kvs)) = length bs"
    using H k l(2) by (auto simp: ahead_append)
  ultimately show ?thesis by (auto simp: ahead_def)
qed

lemma subslice_at: "subslice (xs @ ys @ zs) (length xs) (length xs + length ys) = ys"
  by simp

lemma entry_span_subslice:
  "map_option (\<lambda>(a, b). subslice (pre @ enc_entries kvs) a b) (entry_span (length pre) key kvs)
    = map_option enc (map_of kvs key)"
proof (induction kvs arbitrary: pre)
  case (Cons kv kvs)
  obtain k v where kv: "kv = (k, v)" by (cases kv)
  show ?case
  proof (cases "k = key")
    case True
    have "subslice ((pre @ enc_text k) @ enc v @ enc_entries kvs) (length (pre @ enc_text k))
        (length (pre @ enc_text k) + length (enc v)) = enc v"
      by (rule subslice_at)
    with True kv show ?thesis by (simp add: Let_def)
  next
    case False
    with kv Cons.IH [of "pre @ enc_text k @ enc v"] show ?thesis by (simp add: Let_def add.assoc)
  qed
qed simp

section \<open>Encoding and decoding\<close>

lemma cbor_encode_canonical:
  assumes "cbor_encode to_vec v = Inr bs"
  shows "to_vec v = Inr bs \<and> scan_strict bs = Inr ()"
proof (cases "to_vec v")
  case (Inr cs)
  with assms show ?thesis by (cases "scan_strict cs") (simp_all add: cbor_encode_def)
qed (use assms in \<open>simp add: cbor_encode_def\<close>)

lemma cbor_decode_encode:
  assumes "\<And>w cs. to_vec w = Inr cs \<Longrightarrow> from_slice cs = Inr w" "cbor_encode to_vec v = Inr bs"
  shows "cbor_decode from_slice bs = Inr v"
  using cbor_encode_canonical [OF assms(2)] assms(1) by (simp add: cbor_decode_def)

section \<open>Properties\<close>

text \<open>
  C18. The strict scanner accepts a byte string exactly when it is the canonical encoding of one
  value of the grammar, and of one only: minimal heads, definite lengths, text keys strictly
  increasing in the bytewise order of their encoded form, no tags, no floats, well-formed UTF-8,
  nesting at most \<open>MAX_DEPTH\<close>, nothing after the item.
\<close>

theorem scan_strict_canonical:
  assumes "length bs < u64_limit"
  shows "scan_strict bs = Inr () \<longleftrightarrow> (\<exists>!v. fits 0 v \<and> enc v = bs)"
  using scan_strict_iff [OF assms] enc_inject by (metis append_Nil2)

lemma example_map:
  "enc (CMap [([0x61], CUInt 1)]) = [0xa1, 0x61, 0x61, 0x01]"
  "fits 0 (CMap [([0x61], CUInt 1)])"
  by (simp_all add: enc_text_def enc_head_def head_byte_def MAX_DEPTH_def utf8_valid.simps
      utf8_step_def byte_in_range_def)

theorem scan_strict_canonical_witness:
  "scan_strict [0xa1, 0x61, 0x61, 0x01] = Inr ()"
proof -
  have "fits 0 v \<and> enc v = [0xa1, 0x61, 0x61, 0x01] \<longleftrightarrow> v = CMap [([0x61], CUInt 1)]" for v
    using enc_inject [of 0 v 0 "CMap [([0x61], CUInt 1)]" "[]" "[]"] example_map by auto
  then have "\<exists>!v. fits 0 v \<and> enc v = [0xa1, 0x61, 0x61, 0x01]" by simp
  then show ?thesis using scan_strict_canonical [of "[0xa1, 0x61, 0x61, 0x01]"] by simp
qed

text \<open>
  C19. \<open>value_span\<close> answers exactly on canonical maps, and the span it returns covers the
  encoding of the value stored at the key, or it returns nothing when the map has no such key.
\<close>

theorem value_span_correct:
  assumes "length bs < u64_limit"
  shows "(is_ok (value_span bs key) \<longleftrightarrow> (\<exists>kvs. fits 0 (CMap kvs) \<and> enc (CMap kvs) = bs))
    \<and> (\<forall>r kvs. value_span bs key = Inr r \<longrightarrow> fits 0 (CMap kvs) \<longrightarrow> enc (CMap kvs) = bs \<longrightarrow>
         map_option (\<lambda>(a, b). subslice bs a b) r = map_option enc (map_of kvs key))"
proof (intro conjI allI impI)
  show "is_ok (value_span bs key) \<longleftrightarrow> (\<exists>kvs. fits 0 (CMap kvs) \<and> enc (CMap kvs) = bs)"
    using value_span_map [OF assms] value_span_enc assms unfolding is_ok_iff by metis
  fix r kvs
  assume "value_span bs key = Inr r" "fits 0 (CMap kvs)" "enc (CMap kvs) = bs"
  then show "map_option (\<lambda>(a, b). subslice bs a b) r = map_option enc (map_of kvs key)"
    using value_span_enc [of kvs key] assms entry_span_subslice [of "enc_head 5 (length kvs)" kvs key]
    by (simp del: fits.simps)
qed

theorem value_span_correct_witness:
  "\<exists>a b. value_span [0xa1, 0x61, 0x61, 0x01] [0x61] = Inr (Some (a, b))
     \<and> subslice [0xa1, 0x61, 0x61, 0x01] a b = ([0x01] :: bytes)"
proof -
  let ?bs = "[0xa1, 0x61, 0x61, 0x01] :: bytes"
  have c: "is_ok (value_span ?bs [0x61]) \<longleftrightarrow> (\<exists>kvs. fits 0 (CMap kvs) \<and> enc (CMap kvs) = ?bs)"
    "value_span ?bs [0x61] = Inr r \<Longrightarrow> fits 0 (CMap kvs) \<Longrightarrow> enc (CMap kvs) = ?bs \<Longrightarrow>
       map_option (\<lambda>(a, b). subslice ?bs a b) r = map_option enc (map_of kvs [0x61])" for r kvs
    using value_span_correct [of ?bs "[0x61]"] by (simp_all del: fits.simps enc.simps)
  from c(1) example_map obtain r where r: "value_span ?bs [0x61] = Inr r"
    unfolding is_ok_iff by blast
  from c(2) [OF r example_map(2,1)] have "map_option (\<lambda>(a, b). subslice ?bs a b) r = Some [0x01]"
    by (simp add: enc_head_def head_byte_def)
  with r show ?thesis by auto
qed

end
