(* ===== verification/Text_Codec.thy ===== *)
theory Text_Codec
  imports Prelude
begin

text \<open>
  The two textual spellings of byte strings: the \<open>gx1:\<close> base32 form of a content
  identifier (\<open>Cid::to_text\<close> and \<open>Cid::from_text\<close> in \<open>src/crates/gx-core/src/lib.rs\<close>)
  and the padded base64 of \<open>src/crates/gx-core/src/b64.rs\<close>. Both accumulate bits in a
  32-bit register that is shifted without masking, so it wraps; the lemmas show that the wrap
  never reaches the bits that are read. Text is its UTF-8 bytes.

  Both codecs are shown to be instances of \<open>canonical_codec\<close>: they round-trip, and a
  value has one spelling only.
\<close>

section \<open>Content identifiers\<close>

text \<open>\<open>struct Cid(pub [u8; 32])\<close>.\<close>

typedef cid = "{bs :: bytes. length bs = 32}"
  morphisms cid_bytes Cid
  by (rule exI [of _ "replicate 32 0"]) simp

text \<open>\<open>TransformationId\<close> and \<open>IntentId\<close> are newtypes of \<open>Cid\<close>, \<open>Timestamp\<close> is an \<open>i64\<close>.\<close>

type_synonym transformation_id = cid
type_synonym intent_id = cid
type_synonym timestamp = int

lemma length_cid_bytes [simp]: "length (cid_bytes c) = 32"
  using cid_bytes by simp

lemma cid_bytes_Cid [simp]: "length bs = 32 \<Longrightarrow> cid_bytes (Cid bs) = bs"
  by (simp add: Cid_inverse)

lemma cid_eq_iff: "c = d \<longleftrightarrow> cid_bytes c = cid_bytes d"
  by (simp add: cid_bytes_inject)

text \<open>The derived \<open>Ord\<close>: bytewise, as on the array.\<close>

instantiation cid :: linorder
begin

definition less_eq_cid :: "cid \<Rightarrow> cid \<Rightarrow> bool" where
  "less_eq_cid c d \<longleftrightarrow> cid_bytes c \<le> cid_bytes d"

definition less_cid :: "cid \<Rightarrow> cid \<Rightarrow> bool" where
  "less_cid c d \<longleftrightarrow> cid_bytes c < cid_bytes d"

instance
  by standard (auto simp: less_eq_cid_def less_cid_def cid_eq_iff)

end

section \<open>Base32 text of a content identifier\<close>

definition ascii :: "string \<Rightarrow> bytes" where
  "ascii s = map of_char s"

definition CID_TEXT_PREFIX :: bytes where
  "CID_TEXT_PREFIX = ascii ''gx1:''"

definition CID_ALPHABET :: bytes where
  "CID_ALPHABET = ascii ''abcdefghijklmnopqrstuvwxyz234567''"

definition CID_BODY_LEN :: nat where
  "CID_BODY_LEN = 52"

definition CID_TAIL_BITS :: nat where
  "CID_TAIL_BITS = 4"

text \<open>\<open>ALPHABET.iter().position(|&a| a == ch)\<close>.\<close>

fun position :: "byte \<Rightarrow> bytes \<Rightarrow> nat option" where
  "position c [] = None"
| "position c (a # as) = (if a = c then Some 0 else map_option Suc (position c as))"

text \<open>The inner \<open>while bits >= 5\<close> of \<open>to_text\<close>, then its loop over the bytes.\<close>

fun push_chars :: "32 word \<Rightarrow> nat \<Rightarrow> bytes \<Rightarrow> bytes \<times> nat" where
  "push_chars acc bits out =
     (if bits \<ge> 5
      then push_chars acc (bits - 5)
             (out @ [CID_ALPHABET ! unat (drop_bit (bits - 5) acc AND 0x1f)])
      else (out, bits))"

declare push_chars.simps [simp del]

fun text_loop :: "bytes \<Rightarrow> 32 word \<Rightarrow> nat \<Rightarrow> bytes \<Rightarrow> bytes \<times> 32 word \<times> nat" where
  "text_loop [] acc bits out = (out, acc, bits)"
| "text_loop (byte # bs) acc bits out =
     (let acc = push_bit 8 acc OR ucast byte;
          (out, bits) = push_chars acc (bits + 8) out
      in text_loop bs acc bits out)"

definition to_text :: "cid \<Rightarrow> bytes" where
  "to_text c =
     (let (out, acc, bits) = text_loop (cid_bytes c) 0 0 CID_TEXT_PREFIX in
      if bits > 0 then out @ [CID_ALPHABET ! unat (push_bit (5 - bits) acc AND 0x1f)]
      else out)"

datatype cid_text_error =
    MissingPrefix
  | BodyLength nat
  | BadCidCharacter nat
  | CidTailBits

text \<open>
  The loop of \<open>from_text\<close>. It writes \<open>raw[written]\<close> from left to right, so the array is
  the list of the bytes written so far; \<open>from_text_loop_digits\<close> shows that a body of 52
  characters writes 32 of them, never more.
\<close>

fun from_text_loop ::
  "nat \<Rightarrow> bytes \<Rightarrow> 32 word \<Rightarrow> nat \<Rightarrow> bytes \<Rightarrow> cid_text_error + bytes \<times> 32 word \<times> nat" where
  "from_text_loop pos [] acc bits raw = Inr (raw, acc, bits)"
| "from_text_loop pos (ch # body) acc bits raw =
     (case position ch CID_ALPHABET of
        None \<Rightarrow> Inl (BadCidCharacter pos)
      | Some v \<Rightarrow>
          (let acc = push_bit 5 acc OR of_nat v; bits = bits + 5 in
           if bits \<ge> 8
           then from_text_loop (pos + 1) body acc (bits - 8)
                  (raw @ [ucast (drop_bit (bits - 8) acc AND 0xff)])
           else from_text_loop (pos + 1) body acc bits raw))"

definition strip_prefix :: "bytes \<Rightarrow> bytes \<Rightarrow> bytes option" where
  "strip_prefix p t = (if take (length p) t = p then Some (drop (length p) t) else None)"

definition from_text :: "bytes \<Rightarrow> cid_text_error + cid" where
  "from_text t =
     (case strip_prefix CID_TEXT_PREFIX t of
        None \<Rightarrow> Inl MissingPrefix
      | Some body \<Rightarrow>
          if length body \<noteq> CID_BODY_LEN then Inl (BodyLength (length body))
          else and_then (from_text_loop 0 body 0 0 []) (\<lambda>(raw, acc, bits).
            if bits \<noteq> CID_TAIL_BITS \<or> acc AND (push_bit CID_TAIL_BITS 1 - 1) \<noteq> 0
            then Inl CidTailBits
            else Inr (Cid raw)))"

section \<open>Base64\<close>

definition B64_ALPHABET :: bytes where
  "B64_ALPHABET = ascii ''ABCDEFGHIJKLMNOPQRSTUVWXYZabcdefghijklmnopqrstuvwxyz0123456789+/''"

definition PAD :: byte where
  "PAD = of_char CHR ''=''"

definition b64_char :: "32 word \<Rightarrow> nat \<Rightarrow> byte" where
  "b64_char packed sh = B64_ALPHABET ! unat (drop_bit sh packed AND 0x3f)"

text \<open>One group of \<open>bytes.chunks(3)\<close>; an absent byte counts as 0.\<close>

definition b64_chunk :: "bytes \<Rightarrow> bytes" where
  "b64_chunk chunk =
     (let b0 = ucast (chunk ! 0) :: 32 word;
          b1 = (if length chunk > 1 then ucast (chunk ! 1) else 0);
          b2 = (if length chunk > 2 then ucast (chunk ! 2) else 0);
          packed = push_bit 16 b0 OR push_bit 8 b1 OR b2
      in [b64_char packed 18, b64_char packed 12,
          if length chunk > 1 then b64_char packed 6 else PAD,
          if length chunk > 2 then b64_char packed 0 else PAD])"

function b64_encode :: "bytes \<Rightarrow> bytes" where
  "b64_encode bs = (if bs = [] then [] else b64_chunk (take 3 bs) @ b64_encode (drop 3 bs))"
  by pat_completeness auto
termination
  by (relation "measure length") auto

declare b64_encode.simps [simp del]

datatype b64_error =
    NotMultipleOfFour
  | TooMuchPadding
  | EarlyPadding
  | BadB64Character
  | B64TailBits

fun b64_decode_loop ::
  "bytes \<Rightarrow> 32 word \<Rightarrow> nat \<Rightarrow> bytes \<Rightarrow> b64_error + bytes \<times> 32 word \<times> nat" where
  "b64_decode_loop [] acc bits out = Inr (out, acc, bits)"
| "b64_decode_loop (ch # body) acc bits out =
     (case position ch B64_ALPHABET of
        None \<Rightarrow> Inl BadB64Character
      | Some v \<Rightarrow>
          (let acc = push_bit 6 acc OR of_nat v; bits = bits + 6 in
           if bits \<ge> 8
           then b64_decode_loop body acc (bits - 8)
                  (out @ [ucast (drop_bit (bits - 8) acc AND 0xff)])
           else b64_decode_loop body acc bits out))"

definition b64_decode :: "bytes \<Rightarrow> b64_error + bytes" where
  "b64_decode raw =
     (if length raw mod 4 \<noteq> 0 then Inl NotMultipleOfFour
      else if raw = [] then Inr []
      else
        (let pad = length (takeWhile (\<lambda>c. c = PAD) (rev raw)) in
         if pad > 2 then Inl TooMuchPadding
         else
           (let body = take (length raw - pad) raw in
            if PAD \<in> set body then Inl EarlyPadding
            else and_then (b64_decode_loop body 0 0 []) (\<lambda>(out, acc, bits).
              if bits > 0 \<and> acc AND (push_bit bits 1 - 1) \<noteq> 0 then Inl B64TailBits
              else Inr out))))"

section \<open>Digits\<close>

text \<open>The \<open>n\<close> low digits of \<open>v\<close> in base \<open>b\<close>, most significant first, and back.\<close>

fun digits :: "nat \<Rightarrow> nat \<Rightarrow> nat \<Rightarrow> nat list" where
  "digits b 0 v = []"
| "digits b (Suc n) v = digits b n (v div b) @ [v mod b]"

definition undigits :: "nat \<Rightarrow> nat list \<Rightarrow> nat" where
  "undigits b ds = foldl (\<lambda>acc d. acc * b + d) 0 ds"

lemma length_digits [simp]: "length (digits b n v) = n"
  by (induction n arbitrary: v) auto

lemma undigits_snoc [simp]: "undigits b (ds @ [d]) = undigits b ds * b + d"
  by (simp add: undigits_def)

lemma undigits_Nil [simp]: "undigits b [] = 0"
  by (simp add: undigits_def)

lemma be_bytes_digits: "be_bytes n v = map of_nat (digits 256 n v)"
  by (induction n arbitrary: v) auto

lemma be_nat_undigits: "be_nat bs = undigits 256 (map unat bs)"
  by (induction bs rule: rev_induct) auto

lemma digits_bound: "0 < b \<Longrightarrow> d \<in> set (digits b n v) \<Longrightarrow> d < b"
  by (induction n arbitrary: v) auto

lemma undigits_digits: "undigits b (digits b n v) = v mod b ^ n"
proof (induction n arbitrary: v)
  case (Suc n)
  have "v mod b ^ Suc n = (v div b mod b ^ n) * b + v mod b"
    by (metis mod_mult2_eq power_Suc add.commute mult.commute)
  with Suc show ?case by simp
qed simp

lemma digits_undigits: "(\<forall>d\<in>set ds. d < b) \<Longrightarrow> digits b (length ds) (undigits b ds) = ds"
  by (induction ds rule: rev_induct) auto

lemma undigits_bound:
  assumes "\<forall>d\<in>set ds. d < b"
  shows "undigits b ds < b ^ length ds"
  using assms
proof (induction ds rule: rev_induct)
  case (snoc d ds)
  then have "undigits b ds * b + d < (undigits b ds + 1) * b" by simp
  also have "\<dots> \<le> b ^ length ds * b" using snoc by (intro mult_le_mono1) simp
  finally show ?case by (simp add: mult.commute)
qed simp

lemma undigits_Cons: "undigits b (d # ds) = d * b ^ length ds + undigits b ds"
proof (induction ds rule: rev_induct)
  case Nil
  then show ?case by (simp add: undigits_def)
next
  case (snoc e ds)
  have "undigits b (d # ds @ [e]) = undigits b (d # ds) * b + e"
    using undigits_snoc [of b "d # ds" e] by simp
  with snoc show ?case by (simp add: algebra_simps)
qed

lemma digits_append:
  assumes "0 < b"
  shows "digits b (m + n) v = digits b m (v div b ^ n) @ digits b n v"
proof (induction n arbitrary: v)
  case (Suc n)
  show ?case using Suc [of "v div b"] by (simp add: div_mult2_eq mult.commute)
qed simp


lemma digits_mod: "digits b n (v mod b ^ n) = digits b n v"
proof (induction n arbitrary: v)
  case (Suc n)
  have "v mod b ^ Suc n div b = v div b mod b ^ n"
    by (cases "b = 0") (simp_all add: mod_mult2_eq)
  moreover have "v mod b ^ Suc n mod b = v mod b"
    by (simp add: mod_mult2_eq)
  ultimately show ?case using Suc [of "v div b"] by simp
qed simp

lemma digits_split:
  assumes "0 < b" "y < b ^ n"
  shows "digits b (m + n) (x * b ^ n + y) = digits b m x @ digits b n y"
proof -
  have "(x * b ^ n + y) mod b ^ n = y" "(x * b ^ n + y) div b ^ n = x" using assms by auto
  then show ?thesis using digits_append [OF assms(1)] digits_mod by metis
qed

lemma be_nat_Cons: "be_nat (b # bs) = unat b * 256 ^ length bs + be_nat bs"
proof (induction bs rule: rev_induct)
  case Nil
  then show ?case by (simp add: be_nat_def)
next
  case (snoc c bs)
  have "be_nat (b # bs @ [c]) = be_nat (b # bs) * 256 + unat c"
    using be_nat_snoc [of "b # bs" c] by simp
  with snoc show ?case by simp
qed

lemma be_nat_append: "be_nat (as @ bs) = be_nat as * 256 ^ length bs + be_nat bs"
  by (induction as) (auto simp: be_nat_Cons algebra_simps power_add)

section \<open>The 32-bit register\<close>

lemma reg_push:
  assumes "v < 2 ^ k"
  shows "push_bit k (of_nat a) OR of_nat v = (of_nat (a * 2 ^ k + v) :: 32 word)"
proof -
  have "push_bit k a AND v = 0"
  proof (rule bit_eqI)
    fix n
    have "bit v n \<Longrightarrow> n < k" using assms by (metis bit_take_bit_iff take_bit_nat_eq_self_iff)
    then show "bit (push_bit k a AND v) n = bit 0 n" by (auto simp: bit_simps)
  qed
  then have "a * 2 ^ k + v = push_bit k a OR v"
    by (simp add: disjunctive_add_eq_or [symmetric] push_bit_eq_mult)
  then show ?thesis by (simp add: of_nat_or_eq push_bit_of_nat)
qed

lemma reg_read:
  assumes "s + k \<le> 32"
  shows "unat (drop_bit s (of_nat a :: 32 word) AND mask k) = a div 2 ^ s mod 2 ^ k"
proof -
  have "unat (drop_bit s (of_nat a :: 32 word) AND mask k) = take_bit k (drop_bit s (take_bit 32 a))"
    by (simp add: take_bit_eq_mask [symmetric] unsigned_take_bit_eq unat_drop_bit_eq unsigned_of_nat)
  also have "\<dots> = take_bit k (drop_bit s a)"
    using assms by (cases "k = 0") (auto simp: drop_bit_take_bit min_def)
  finally show ?thesis by (simp add: take_bit_eq_mod drop_bit_eq_div)
qed

lemma reg_high:
  assumes "k \<le> 32"
  shows "unat (push_bit j (of_nat a :: 32 word) AND mask k) = a * 2 ^ j mod 2 ^ k"
  using reg_read [of 0 k "a * 2 ^ j"] assms by (simp add: push_bit_of_nat push_bit_eq_mult)

lemma reg_tail:
  assumes "k \<le> 32"
  shows "(of_nat a :: 32 word) AND (push_bit k 1 - 1) = 0 \<longleftrightarrow> a mod 2 ^ k = 0"
proof -
  have "push_bit k (1 :: 32 word) - 1 = mask k" by (simp add: mask_eq_exp_minus_1 push_bit_eq_mult)
  then show ?thesis using reg_read [of 0 k a] assms by (metis drop_bit_0 id_apply unat_eq_0
      add_0 div_by_1 power_0)
qed

section \<open>The alphabets\<close>

lemma position_Some:
  "distinct as \<Longrightarrow> position c as = Some v \<longleftrightarrow> v < length as \<and> as ! v = c"
proof (induction as arbitrary: v)
  case (Cons a as)
  show ?case
  proof (cases v)
    case 0
    then show ?thesis by auto
  next
    case (Suc w)
    then have "(a = c \<longrightarrow> \<not> (w < length as \<and> as ! w = c))" using Cons.prems nth_mem by force
    with Suc Cons show ?thesis by auto
  qed
qed simp

lemma position_nth: "distinct as \<Longrightarrow> v < length as \<Longrightarrow> position (as ! v) as = Some v"
  by (simp add: position_Some)

lemma alphabet_facts:
  "length CID_ALPHABET = 32" "distinct CID_ALPHABET"
  "length B64_ALPHABET = 64" "distinct B64_ALPHABET" "PAD \<notin> set B64_ALPHABET"
  by (simp_all add: CID_ALPHABET_def B64_ALPHABET_def PAD_def ascii_def of_char_def)

lemma B64_not_PAD: "v < 64 \<Longrightarrow> B64_ALPHABET ! v \<noteq> PAD"
  using alphabet_facts by (metis nth_mem)

section \<open>The encoder of identifiers\<close>

lemma div_shift: "(x :: nat) div 2 ^ a div (2 ^ k) ^ q = x div 2 ^ (a + k * q)"
  by (simp add: power_add div_mult2_eq flip: power_mult)

lemma div_shift_numerals:
  "(x :: nat) div 2 ^ a div 32 ^ q = x div 2 ^ (a + 5 * q)"
  "(x :: nat) div 2 ^ a div 256 ^ q = x div 2 ^ (a + 8 * q)"
  using div_shift [of x a 5 q] div_shift [of x a 8 q] by simp_all

lemma div_shift': "(x :: nat) div (2 ^ k) ^ q div 2 ^ a = x div 2 ^ (k * q + a)"
  by (simp add: power_add div_mult2_eq flip: power_mult)

lemma digits_lead: "0 < b \<Longrightarrow> digits b (Suc q) v = (v div b ^ q mod b) # digits b q v"
  using digits_append [of b 1 q v] by simp

lemma mask_numerals:
  "(0x1f :: 32 word) = mask 5" "(0x3f :: 32 word) = mask 6" "(0xff :: 32 word) = mask 8"
  by (simp_all add: mask_eq_exp_minus_1)

lemma push_chars_digits:
  "bits \<le> 32 \<Longrightarrow> push_chars (of_nat v) bits out =
     (out @ map ((!) CID_ALPHABET) (digits 32 (bits div 5) (v div 2 ^ (bits mod 5))), bits mod 5)"
proof (induction bits arbitrary: out rule: less_induct)
  case (less bits)
  show ?case
  proof (cases "bits \<ge> 5")
    case True
    define q where "q = bits div 5 - 1"
    have q: "bits div 5 = Suc q" "(bits - 5) div 5 = q" "(bits - 5) mod 5 = bits mod 5"
      using True by (auto simp: q_def le_mod_geq le_div_geq)
    have split: "bits - 5 = bits mod 5 + 5 * q" using q by (metis mod_mult_div_eq)
    have "unat (drop_bit (bits - 5) (of_nat v :: 32 word) AND 0x1f) = v div 2 ^ (bits - 5) mod 32"
      using reg_read [of "bits - 5" 5 v] less.prems True by (simp add: mask_numerals)
    also have "\<dots> = v div 2 ^ (bits mod 5) div 32 ^ q mod 32"
      unfolding split by (simp add: power_add power_mult div_mult2_eq)
    finally show ?thesis
      using True less.IH [of "bits - 5"] less.prems
      by (simp add: push_chars.simps [of _ bits] q digits_lead del: digits.simps)
  next
    case False
    then show ?thesis by (simp add: push_chars.simps [of _ bits])
  qed
qed

lemma text_loop_digits:
  "bits < 5 \<Longrightarrow>
   (let v' = v * 256 ^ length bs + be_nat bs; n = bits + 8 * length bs in
    text_loop bs (of_nat v) bits out =
      (out @ map ((!) CID_ALPHABET) (digits 32 (n div 5) (v' div 2 ^ (n mod 5))),
       of_nat v', n mod 5))"
proof (induction bs arbitrary: v bits out)
  case (Cons b bs)
  define r where "r = (bits + 8) mod 5"
  define v1 where "v1 = v * 256 + unat b"
  define v' where "v' = v1 * 256 ^ length bs + be_nat bs"
  define n where "n = r + 8 * length bs"
  have acc: "push_bit 8 (of_nat v) OR ucast b = (of_nat v1 :: 32 word)"
    using reg_push [of "unat b" 8 v] by (simp add: v1_def)
  have step: "push_chars (of_nat v1) (bits + 8) out =
      (out @ map ((!) CID_ALPHABET) (digits 32 ((bits + 8) div 5) (v1 div 2 ^ r)), r)"
    using push_chars_digits [of "bits + 8" v1 out] Cons.prems by (simp add: r_def)
  have IH: "text_loop bs (of_nat v1) r out' =
      (out' @ map ((!) CID_ALPHABET) (digits 32 (n div 5) (v' div 2 ^ (n mod 5))), of_nat v', n mod 5)"
    for out'
    using Cons.IH [of r v1 out'] by (simp add: r_def n_def v'_def Let_def)
  have shift: "bits + 8 * length (b # bs) = 5 * ((bits + 8) div 5) + n"
    unfolding n_def r_def by simp
  have total: "(bits + 8 * length (b # bs)) div 5 = (bits + 8) div 5 + n div 5"
      "(bits + 8 * length (b # bs)) mod 5 = n mod 5"
    unfolding shift by simp_all
  have "v' div 2 ^ (n mod 5) div 32 ^ (n div 5) = v' div 2 ^ n"
    by (simp only: div_shift_numerals mod_mult_div_eq)
  also have "\<dots> = v' div 256 ^ length bs div 2 ^ r"
    using div_shift' [of v' 8 "length bs" r] by (simp add: n_def add.commute)
  also have "v' div 256 ^ length bs = v1"
    using be_nat_bound [of bs] by (simp add: v'_def)
  finally have "digits 32 ((bits + 8) div 5 + n div 5) (v' div 2 ^ (n mod 5)) =
      digits 32 ((bits + 8) div 5) (v1 div 2 ^ r) @ digits 32 (n div 5) (v' div 2 ^ (n mod 5))"
    by (simp add: digits_append)
  moreover have "v * 256 ^ length (b # bs) + be_nat (b # bs) = v'"
    by (simp add: v'_def v1_def be_nat_Cons algebra_simps)
  ultimately show ?case
    unfolding Let_def total by (simp add: acc step IH Let_def)
qed simp

lemma to_text_digits:
  "to_text c = CID_TEXT_PREFIX @ map ((!) CID_ALPHABET) (digits 32 52 (be_nat (cid_bytes c) * 16))"
proof -
  let ?v = "be_nat (cid_bytes c)"
  have loop: "text_loop (cid_bytes c) 0 0 CID_TEXT_PREFIX =
      (CID_TEXT_PREFIX @ map ((!) CID_ALPHABET) (digits 32 51 (?v div 2)), of_nat ?v, 1)"
    using text_loop_digits [of 0 0 "cid_bytes c" CID_TEXT_PREFIX] by (simp add: Let_def)
  have "unat (push_bit 4 (of_nat ?v :: 32 word) AND 0x1f) = ?v * 16 mod 32"
    using reg_high [of 5 4 ?v] by (simp add: mask_numerals)
  moreover have "digits 32 52 (?v * 16) = digits 32 51 (?v * 16 div 32) @ [?v * 16 mod 32]"
    using digits.simps(2) [of 32 51 "?v * 16"] by (simp del: digits.simps)
  moreover have "?v * 16 div 32 = ?v div 2" by simp
  ultimately show ?thesis by (simp add: to_text_def loop del: digits.simps)
qed

section \<open>The decoders\<close>

text \<open>What both decoding loops do to the values of their characters, \<open>k\<close> bits each.\<close>

fun collect :: "nat \<Rightarrow> nat list \<Rightarrow> 32 word \<Rightarrow> nat \<Rightarrow> bytes \<Rightarrow> bytes \<times> 32 word \<times> nat" where
  "collect k [] acc bits out = (out, acc, bits)"
| "collect k (v # vs) acc bits out =
     (let acc = push_bit k acc OR of_nat v; bits = bits + k in
      if bits \<ge> 8 then collect k vs acc (bits - 8) (out @ [ucast (drop_bit (bits - 8) acc AND 0xff)])
      else collect k vs acc bits out)"

lemma ex_map_Cons:
  assumes "f v = ch" "v < N" "\<And>w. w < N \<Longrightarrow> f w = ch \<Longrightarrow> w = v"
  shows "(\<exists>ws. (\<forall>w\<in>set ws. w < N) \<and> ch # body = map f ws \<and> Q ws) \<longleftrightarrow>
    (\<exists>vs. (\<forall>w\<in>set vs. w < N) \<and> body = map f vs \<and> Q (v # vs))" (is "?l = ?r")
proof
  assume ?l
  then obtain z zs where "\<forall>w\<in>set (z # zs). w < N" "ch = f z" "body = map f zs" "Q (z # zs)"
    by (auto simp: Cons_eq_map_conv)
  with assms(3) [of z] show ?r by auto
next
  assume ?r
  then obtain zs where "\<forall>w\<in>set zs. w < N" "body = map f zs" "Q (v # zs)" by blast
  with assms(1,2) show ?l by (intro exI [of _ "v # zs"]) auto
qed

lemma from_text_loop_collect:
  "from_text_loop pos body acc bits raw = Inr r \<longleftrightarrow>
     (\<exists>vs. (\<forall>v\<in>set vs. v < 32) \<and> body = map ((!) CID_ALPHABET) vs \<and> collect 5 vs acc bits raw = r)"
proof (induction body arbitrary: pos acc bits raw)
  case (Cons ch body)
  show ?case
  proof (cases "position ch CID_ALPHABET")
    case None
    then have "\<forall>v<32. ch \<noteq> CID_ALPHABET ! v"
      using position_nth alphabet_facts by (metis option.distinct(1))
    with None show ?thesis by (auto simp: Cons_eq_map_conv)
  next
    case (Some v)
    then have v: "CID_ALPHABET ! v = ch" "v < 32" "\<And>w. w < 32 \<Longrightarrow> CID_ALPHABET ! w = ch \<Longrightarrow> w = v"
      using position_Some alphabet_facts by (auto simp: nth_eq_iff_index_eq)
    show ?thesis
      using Some by (simp add: ex_map_Cons [of "(!) CID_ALPHABET", OF v] Let_def Cons.IH)
  qed
qed simp

lemma b64_decode_loop_collect:
  "b64_decode_loop body acc bits out = Inr r \<longleftrightarrow>
     (\<exists>vs. (\<forall>v\<in>set vs. v < 64) \<and> body = map ((!) B64_ALPHABET) vs \<and> collect 6 vs acc bits out = r)"
proof (induction body arbitrary: acc bits out)
  case (Cons ch body)
  show ?case
  proof (cases "position ch B64_ALPHABET")
    case None
    then have "\<forall>v<64. ch \<noteq> B64_ALPHABET ! v"
      using position_nth alphabet_facts by (metis option.distinct(1))
    with None show ?thesis by (auto simp: Cons_eq_map_conv)
  next
    case (Some v)
    then have v: "B64_ALPHABET ! v = ch" "v < 64" "\<And>w. w < 64 \<Longrightarrow> B64_ALPHABET ! w = ch \<Longrightarrow> w = v"
      using position_Some alphabet_facts by (auto simp: nth_eq_iff_index_eq)
    show ?thesis
      using Some by (simp add: ex_map_Cons [of "(!) B64_ALPHABET", OF v] Let_def Cons.IH)
  qed
qed simp

lemma collect_digits:
  assumes "k \<le> 8"
  shows "bits < 8 \<Longrightarrow> \<forall>v\<in>set vs. v < 2 ^ k \<Longrightarrow>
   (let w' = w * (2 ^ k) ^ length vs + undigits (2 ^ k) vs; n = bits + k * length vs in
    collect k vs (of_nat w) bits out = (out @ be_bytes (n div 8) (w' div 2 ^ (n mod 8)), of_nat w', n mod 8))"
proof (induction vs arbitrary: w bits out)
  case (Cons v vs)
  define w1 where "w1 = w * 2 ^ k + v"
  define w' where "w' = w1 * (2 ^ k) ^ length vs + undigits (2 ^ k) vs"
  have acc: "push_bit k (of_nat w) OR of_nat v = (of_nat w1 :: 32 word)"
    using reg_push [of v k w] Cons.prems(2) by (simp add: w1_def)
  have w': "w * (2 ^ k) ^ length (v # vs) + undigits (2 ^ k) (v # vs) = w'"
    by (simp add: w'_def w1_def undigits_Cons algebra_simps)
  have low: "w' div (2 ^ k) ^ length vs = w1"
    using undigits_bound [of vs "2 ^ k"] Cons.prems(2) by (simp add: w'_def)
  show ?case
  proof (cases "bits + k \<ge> 8")
    case True
    define n where "n = bits + k - 8 + k * length vs"
    have n: "bits + k * length (v # vs) = n + 8" using True by (simp add: n_def algebra_simps)
    have "unat (drop_bit (bits + k - 8) (of_nat w1 :: 32 word) AND 0xff) =
        w1 div 2 ^ (bits + k - 8) mod 256"
      using reg_read [of "bits + k - 8" 8 w1] Cons.prems(1) assms by (simp add: mask_numerals)
    then have out: "ucast (drop_bit (bits + k - 8) (of_nat w1 :: 32 word) AND 0xff) =
        (of_nat (w1 div 2 ^ (bits + k - 8) mod 256) :: byte)"
      by (metis of_nat_unat)
    have IH: "collect k vs (of_nat w1) (bits + k - 8) out' =
        (out' @ be_bytes (n div 8) (w' div 2 ^ (n mod 8)), of_nat w', n mod 8)" for out'
      using Cons.IH [of "bits + k - 8" w1 out'] Cons.prems assms by (simp add: n_def w'_def Let_def)
    have "w' div 2 ^ (n mod 8) div 256 ^ (n div 8) = w' div 2 ^ n"
      by (simp only: div_shift_numerals mod_mult_div_eq)
    also have "\<dots> = w1 div 2 ^ (bits + k - 8)"
      using div_shift' [of w' k "length vs" "bits + k - 8"] by (simp add: n_def low add.commute)
    finally have "digits 256 (Suc (n div 8)) (w' div 2 ^ (n mod 8)) =
        (w1 div 2 ^ (bits + k - 8) mod 256) # digits 256 (n div 8) (w' div 2 ^ (n mod 8))"
      by (simp add: digits_lead del: digits.simps)
    moreover have "(n + 8) div 8 = Suc (n div 8)" by simp
    ultimately show ?thesis unfolding Let_def w' n using True
      by (simp add: acc out IH Let_def be_bytes_digits del: digits.simps be_bytes.simps)
  next
    case False
    have n: "bits + k * length (v # vs) = bits + k + k * length vs" by simp
    show ?thesis unfolding Let_def w' n
      using False Cons.IH [of "bits + k" w1 out] Cons.prems by (simp add: acc w'_def Let_def)
  qed
qed simp

section \<open>Identifiers: one spelling each\<close>

lemma collect_52:
  assumes "length vs = 52" "\<forall>v\<in>set vs. v < 32"
  shows "collect 5 vs 0 0 [] = (be_bytes 32 (undigits 32 vs div 16), of_nat (undigits 32 vs), 4)"
  using collect_digits [of 5 0 vs 0 "[]"] assms by (simp add: Let_def del: be_bytes.simps)

lemma from_text_iff:
  "from_text t = Inr c \<longleftrightarrow>
    (\<exists>vs. length vs = 52 \<and> (\<forall>v\<in>set vs. v < 32) \<and> t = CID_TEXT_PREFIX @ map ((!) CID_ALPHABET) vs
       \<and> undigits 32 vs mod 16 = 0 \<and> c = Cid (be_bytes 32 (undigits 32 vs div 16)))" (is "?l = ?r")
proof
  assume ?l
  then obtain body raw acc bits where b: "strip_prefix CID_TEXT_PREFIX t = Some body" "length body = 52"
      "from_text_loop 0 body 0 0 [] = Inr (raw, acc, bits)"
    and tail: "acc AND (push_bit 4 1 - 1) = 0" "c = Cid raw"
    by (auto simp: from_text_def CID_BODY_LEN_def CID_TAIL_BITS_def and_then_eq_Inr
        split: option.splits if_splits)
  from b(3) [unfolded from_text_loop_collect] obtain vs where
      vs: "\<forall>v\<in>set vs. v < 32" "body = map ((!) CID_ALPHABET) vs" "collect 5 vs 0 0 [] = (raw, acc, bits)"
    by (elim exE conjE)
  have len: "length vs = 52" using vs(2) b(2) by simp
  have "t = CID_TEXT_PREFIX @ body"
    using b(1) by (auto simp: strip_prefix_def split: if_splits) (metis append_take_drop_id)
  moreover have "undigits 32 vs mod 16 = 0"
    using tail(1) vs(3) collect_52 [OF len vs(1)] reg_tail [of 4 "undigits 32 vs"] by simp
  moreover have "raw = be_bytes 32 (undigits 32 vs div 16)"
    using vs(3) collect_52 [OF len vs(1)] by simp
  ultimately show ?r using len vs(1,2) tail(2) by (intro exI [of _ vs] conjI) simp_all
next
  assume ?r
  then obtain vs where vs: "length vs = 52" "\<forall>v\<in>set vs. v < 32"
      "t = CID_TEXT_PREFIX @ map ((!) CID_ALPHABET) vs"
      "undigits 32 vs mod 16 = 0" "c = Cid (be_bytes 32 (undigits 32 vs div 16))"
    by (elim exE conjE)
  have loop: "from_text_loop 0 (map ((!) CID_ALPHABET) vs) 0 0 [] =
      Inr (be_bytes 32 (undigits 32 vs div 16), of_nat (undigits 32 vs), 4)"
    unfolding from_text_loop_collect using vs collect_52 by blast
  have "(of_nat (undigits 32 vs) :: 32 word) AND (push_bit 4 1 - 1) = 0"
    using vs(4) by (subst reg_tail) auto
  then show ?l using vs(1,3,5) loop
    by (simp add: from_text_def strip_prefix_def CID_BODY_LEN_def CID_TAIL_BITS_def
        del: be_bytes.simps push_bit_of_1)
qed

lemma cid_value_bound: "be_nat (cid_bytes c) < 2 ^ 256"
  using be_nat_bound [of "cid_bytes c"] by simp

lemma from_text_to_text: "from_text (to_text c) = Inr c"
proof -
  let ?v = "be_nat (cid_bytes c)" and ?vs = "digits 32 52 (be_nat (cid_bytes c) * 16)"
  have und: "undigits 32 ?vs = ?v * 16"
    using cid_value_bound [of c] by (simp add: undigits_digits del: digits.simps)
  have "be_bytes 32 ?v = cid_bytes c" using be_bytes_be_nat [of "cid_bytes c"] by simp
  then have "c = Cid (be_bytes 32 (undigits 32 ?vs div 16))"
    unfolding und by (simp add: cid_bytes_inverse del: be_bytes.simps)
  then show ?thesis unfolding from_text_iff
    using und digits_bound [of 32 _ 52 "?v * 16"] to_text_digits
    by (intro exI [of _ ?vs]) (simp del: digits.simps be_bytes.simps)
qed

lemma to_text_from_text:
  assumes "from_text t = Inr c"
  shows "to_text c = t"
proof -
  from assms [unfolded from_text_iff] obtain vs where
      vs: "length vs = 52" "\<forall>v\<in>set vs. v < 32" "t = CID_TEXT_PREFIX @ map ((!) CID_ALPHABET) vs"
      "undigits 32 vs mod 16 = 0" "c = Cid (be_bytes 32 (undigits 32 vs div 16))"
    by (elim exE conjE)
  have "undigits 32 vs < 32 ^ 52" using undigits_bound [OF vs(2)] vs(1) by simp
  then have "undigits 32 vs div 16 < 256 ^ 32" by simp
  then have "be_nat (cid_bytes c) * 16 = undigits 32 vs"
    using vs(4,5) div_mult_mod_eq [of "undigits 32 vs" 16]
    by (simp add: be_nat_be_bytes del: be_bytes.simps)
  moreover have "digits 32 52 (undigits 32 vs) = vs" using digits_undigits [OF vs(2)] vs(1) by simp
  ultimately show ?thesis using vs(3) by (simp add: to_text_digits del: digits.simps)
qed

interpretation cid_codec: canonical_codec to_text from_text "\<lambda>_. True"
  by unfold_locales (simp_all add: from_text_to_text to_text_from_text)

section \<open>Base64: one spelling each\<close>

text \<open>The number of characters, and of unused bits in the last of them, for \<open>n\<close> bytes.\<close>

definition b64_len :: "nat \<Rightarrow> nat" where
  "b64_len n = 4 * (n div 3) + (if n mod 3 = 0 then 0 else n mod 3 + 1)"

definition b64_slack :: "nat \<Rightarrow> nat" where
  "b64_slack n = (if n mod 3 = 0 then 0 else if n mod 3 = 1 then 4 else 2)"

definition b64_pad :: "nat \<Rightarrow> nat" where
  "b64_pad n = (if n mod 3 = 0 then 0 else 3 - n mod 3)"

lemma b64_shape:
  obtains q where "n = 3 * q" "b64_len n = 4 * q" "b64_slack n = 0" "b64_pad n = 0"
  | q where "n = 3 * q + 1" "b64_len n = 4 * q + 2" "b64_slack n = 4" "b64_pad n = 2"
  | q where "n = 3 * q + 2" "b64_len n = 4 * q + 3" "b64_slack n = 2" "b64_pad n = 1"
proof -
  have n: "n = 3 * (n div 3) + n mod 3" by simp
  consider "n mod 3 = 0" | "n mod 3 = 1" | "n mod 3 = 2" by linarith
  then show thesis
    by cases (use n that in \<open>auto simp: b64_len_def b64_slack_def b64_pad_def\<close>)
qed

lemma b64_shape_simps:
  "b64_len (3 * q) = 4 * q" "b64_slack (3 * q) = 0" "b64_pad (3 * q) = 0"
  "b64_len (3 * q + 1) = 4 * q + 2" "b64_slack (3 * q + 1) = 4" "b64_pad (3 * q + 1) = 2"
  "b64_len (3 * q + 2) = 4 * q + 3" "b64_slack (3 * q + 2) = 2" "b64_pad (3 * q + 2) = 1"
proof -
  have "(3 * q + 1) mod 3 = 1" "(3 * q + 1) div 3 = q" "(3 * q + 2) mod 3 = 2" "(3 * q + 2) div 3 = q"
    by presburger+
  then show "b64_len (3 * q) = 4 * q" "b64_slack (3 * q) = 0" "b64_pad (3 * q) = 0"
    "b64_len (3 * q + 1) = 4 * q + 2" "b64_slack (3 * q + 1) = 4" "b64_pad (3 * q + 1) = 2"
    "b64_len (3 * q + 2) = 4 * q + 3" "b64_slack (3 * q + 2) = 2" "b64_pad (3 * q + 2) = 1"
    by (simp_all only: b64_len_def b64_slack_def b64_pad_def) simp_all
qed

lemma b64_bits: "6 * b64_len n = 8 * n + b64_slack n"
  by (rule b64_shape [of n]) simp_all

lemma packed_value:
  "push_bit 16 (ucast b0) OR push_bit 8 (ucast b1) OR ucast b2 =
     (of_nat ((unat b0 * 256 + unat b1) * 256 + unat b2) :: 32 word)" for b0 b1 b2 :: byte
proof -
  have "push_bit 8 (of_nat (unat b0)) OR of_nat (unat b1) = (of_nat (unat b0 * 256 + unat b1) :: 32 word)"
    using reg_push [of "unat b1" 8 "unat b0"] by simp
  moreover have "push_bit 16 (ucast b0) OR push_bit 8 (ucast b1) OR ucast b2 =
      push_bit 8 (push_bit 8 (of_nat (unat b0)) OR of_nat (unat b1)) OR (of_nat (unat b2) :: 32 word)"
    by (simp add: push_bit_or or.assoc)
  ultimately show ?thesis using reg_push [of "unat b2" 8 "unat b0 * 256 + unat b1"] by simp
qed

lemma b64_char_value: "sh + 6 \<le> 32 \<Longrightarrow> b64_char (of_nat v) sh = B64_ALPHABET ! (v div 2 ^ sh mod 64)"
  using reg_read [of sh 6 v] by (simp add: b64_char_def mask_numerals)

lemma b64_char_at:
  "b64_char (of_nat v) 18 = B64_ALPHABET ! (v div 262144 mod 64)"
  "b64_char (of_nat v) 12 = B64_ALPHABET ! (v div 4096 mod 64)"
  "b64_char (of_nat v) 6 = B64_ALPHABET ! (v div 64 mod 64)"
  "b64_char (of_nat v) 0 = B64_ALPHABET ! (v mod 64)"
  by (simp_all add: b64_char_value)

lemma digits_2: "digits 64 2 v = [v div 64 mod 64, v mod 64]"
  using digits.simps(2) [of 64 1 v] digits.simps(2) [of 64 0 "v div 64"] 
  by (simp add: numeral_2_eq_2 del: digits.simps(2))

lemma digits_3: "digits 64 3 v = [v div 4096 mod 64, v div 64 mod 64, v mod 64]"
  using digits.simps(2) [of 64 2 v] digits_2 [of "v div 64"]
  by (simp del: digits.simps(2) flip: div_mult2_eq)

lemma digits_4: "digits 64 4 v = [v div 262144 mod 64, v div 4096 mod 64, v div 64 mod 64, v mod 64]"
  using digits.simps(2) [of 64 3 v] digits_3 [of "v div 64"]
  by (simp del: digits.simps(2) flip: div_mult2_eq)

lemma replicate_2: "replicate 2 x = [x, x]"
  by (simp add: numeral_2_eq_2)

lemma b64_chunk_digits:
  assumes "chunk \<noteq> []" "length chunk \<le> 3"
  shows "b64_chunk chunk =
    map ((!) B64_ALPHABET) (digits 64 (b64_len (length chunk)) (be_nat chunk * 2 ^ b64_slack (length chunk)))
      @ replicate (b64_pad (length chunk)) PAD"
proof -
  consider (1) b0 where "chunk = [b0]" | (2) b0 b1 where "chunk = [b0, b1]"
    | (3) b0 b1 b2 where "chunk = [b0, b1, b2]"
  proof -
    obtain b0 r where r: "chunk = b0 # r" "length r \<le> 2" using assms by (cases chunk) auto
    show thesis
    proof (cases r)
      case (Cons b1 s)
      with r that show thesis by (cases s) auto
    qed (use r that in simp)
  qed
  then show ?thesis
  proof cases
    case 1
    have "b64_chunk chunk = [b64_char (of_nat (unat b0 * 65536)) 18, b64_char (of_nat (unat b0 * 65536)) 12, PAD, PAD]"
      using packed_value [of b0 0 0] by (simp add: b64_chunk_def 1 Let_def mult.commute)
    then show ?thesis unfolding b64_char_at
      by (simp add: 1 digits_2 b64_len_def b64_slack_def b64_pad_def be_nat_Cons
          mult.commute replicate_2)
  next
    case 2
    define v where "v = unat b0 * 256 + unat b1"
    have "b64_chunk chunk = [b64_char (of_nat (v * 256)) 18, b64_char (of_nat (v * 256)) 12,
        b64_char (of_nat (v * 256)) 6, PAD]"
      using packed_value [of b0 b1 0] by (simp add: b64_chunk_def 2 Let_def v_def)
    moreover have "be_nat chunk = v" by (simp add: 2 v_def be_nat_Cons)
    ultimately show ?thesis unfolding b64_char_at
      by (simp add: 2 digits_3 b64_len_def b64_slack_def b64_pad_def mult.commute flip: div_mult2_eq)
  next
    case 3
    have "b64_chunk chunk = map (b64_char (of_nat ((unat b0 * 256 + unat b1) * 256 + unat b2))) [18, 12, 6, 0]"
      using packed_value [of b0 b1 b2] by (simp add: b64_chunk_def 3 Let_def)
    then show ?thesis unfolding list.map b64_char_at
      by (simp add: 3 digits_4 b64_len_def b64_slack_def b64_pad_def be_nat_Cons algebra_simps)
  qed
qed

lemma b64_encode_digits:
  "b64_encode bs =
    map ((!) B64_ALPHABET) (digits 64 (b64_len (length bs)) (be_nat bs * 2 ^ b64_slack (length bs)))
      @ replicate (b64_pad (length bs)) PAD"
proof (induction bs rule: b64_encode.induct)
  case (1 bs)
  show ?case
  proof (cases "length bs \<le> 3")
    case True
    then show ?thesis using b64_chunk_digits [of bs]
      by (cases "bs = []") (simp_all add: b64_encode.simps [of bs] b64_encode.simps [of "[]"]
        b64_len_def b64_pad_def)
  next
    case False
    define n where "n = length (drop 3 bs)"
    define s where "s = b64_slack n"
    have n: "length bs = n + 3" and ne: "bs \<noteq> []" using False by (auto simp: n_def)
    have shape: "b64_len (n + 3) = 4 + b64_len n" "b64_slack (n + 3) = s" "b64_pad (n + 3) = b64_pad n"
      using div_add_self2 [of 3 n] by (auto simp: b64_len_def b64_slack_def b64_pad_def s_def)
    have pw: "(256 :: nat) ^ n * 2 ^ s = 64 ^ b64_len n"
      using b64_bits [of n] power_mult [of "2 :: nat" 8 n] power_mult [of "2 :: nat" 6 "b64_len n"]
      by (simp add: s_def power_add)
    have "be_nat bs = be_nat (take 3 bs) * 256 ^ n + be_nat (drop 3 bs)"
      using be_nat_append [of "take 3 bs" "drop 3 bs"] by (simp add: n_def)
    then have v: "be_nat bs * 2 ^ s = be_nat (take 3 bs) * 64 ^ b64_len n + be_nat (drop 3 bs) * 2 ^ s"
      by (simp add: algebra_simps flip: pw)
    have "be_nat (drop 3 bs) * 2 ^ s < 64 ^ b64_len n"
      using be_nat_bound [of "drop 3 bs"] unfolding n_def [symmetric] pw [symmetric] by simp
    then have d: "digits 64 (4 + b64_len n) (be_nat bs * 2 ^ s) =
        digits 64 4 (be_nat (take 3 bs)) @ digits 64 (b64_len n) (be_nat (drop 3 bs) * 2 ^ s)"
      unfolding v by (intro digits_split) auto
    have "b64_chunk (take 3 bs) = map ((!) B64_ALPHABET) (digits 64 4 (be_nat (take 3 bs)))"
      using b64_chunk_digits [of "take 3 bs"] False ne
      by (simp add: b64_len_def b64_slack_def b64_pad_def)
    moreover have "b64_encode (drop 3 bs) =
        map ((!) B64_ALPHABET) (digits 64 (b64_len n) (be_nat (drop 3 bs) * 2 ^ s)) @ replicate (b64_pad n) PAD"
      using "1.IH" [OF ne] unfolding n_def s_def .
    ultimately show ?thesis
      using ne d unfolding n shape by (simp add: b64_encode.simps [of bs] del: digits.simps)
  qed
qed

lemma takeWhile_pad:
  "PAD \<notin> set body \<Longrightarrow> takeWhile (\<lambda>c. c = PAD) (rev (body @ replicate p PAD)) = replicate p PAD"
  by (cases body rule: rev_cases) (auto simp: takeWhile_append)

lemma split_pad: "raw = take (length raw - length (takeWhile (\<lambda>c. c = PAD) (rev raw))) raw
    @ replicate (length (takeWhile (\<lambda>c. c = PAD) (rev raw))) PAD"
proof -
  let ?w = "takeWhile (\<lambda>c. c = PAD) (rev raw)"
  have w: "?w = replicate (length ?w) PAD" 
    by (rule replicate_length_same [symmetric]) (auto dest: set_takeWhileD)
  have "rev raw = ?w @ dropWhile (\<lambda>c. c = PAD) (rev raw)" by simp
  then have raw: "raw = rev (dropWhile (\<lambda>c. c = PAD) (rev raw)) @ rev ?w" by (metis rev_append rev_rev_ident)
  then have "take (length raw - length ?w) raw = rev (dropWhile (\<lambda>c. c = PAD) (rev raw))"
    by (metis add_diff_cancel_right' append_eq_conv_conj length_append length_rev)
  with raw w show ?thesis by (metis rev_replicate)
qed

definition b64_fits :: "nat list \<Rightarrow> nat \<Rightarrow> bool" where
  "b64_fits vs p \<longleftrightarrow> (\<forall>v\<in>set vs. v < 64) \<and> p \<le> 2 \<and> (length vs + p) mod 4 = 0
     \<and> undigits 64 vs mod 2 ^ (6 * length vs mod 8) = 0"

lemma collect_b64:
  assumes "\<forall>v\<in>set vs. v < 64"
  shows "collect 6 vs 0 0 [] = (be_bytes (6 * length vs div 8) (undigits 64 vs div 2 ^ (6 * length vs mod 8)),
    of_nat (undigits 64 vs), 6 * length vs mod 8)"
  using collect_digits [of 6 0 vs 0 "[]"] assms by (simp add: Let_def)

lemma b64_tail:
  "bits < 8 \<Longrightarrow> (bits > 0 \<and> (of_nat w :: 32 word) AND (push_bit bits 1 - 1) \<noteq> 0) \<longleftrightarrow> w mod 2 ^ bits \<noteq> 0"
  using reg_tail [of bits w] by (cases "bits = 0") auto

lemma b64_decode_iff:
  "b64_decode t = Inr out \<longleftrightarrow>
    (\<exists>vs p. b64_fits vs p \<and> t = map ((!) B64_ALPHABET) vs @ replicate p PAD
       \<and> out = be_bytes (6 * length vs div 8) (undigits 64 vs div 2 ^ (6 * length vs mod 8)))" (is "?l = ?r")
proof
  assume l: ?l
  show ?r
  proof (cases "t = []")
    case True
    with l show ?thesis by (intro exI [of _ "[]"] exI [of _ 0]) (simp add: b64_decode_def b64_fits_def)
  next
    case False
    define p where "p = length (takeWhile (\<lambda>c. c = PAD) (rev t))"
    define body where "body = take (length t - p) t"
    from l False have c: "length t mod 4 = 0" "p \<le> 2"
      by (auto simp: b64_decode_def p_def Let_def split: if_splits)
    from l False obtain acc bits where loop: "b64_decode_loop body 0 0 [] = Inr (out, acc, bits)"
      and tail: "\<not> (bits > 0 \<and> acc AND (push_bit bits 1 - 1) \<noteq> 0)"
      by (auto simp: b64_decode_def p_def body_def Let_def and_then_eq_Inr split: if_splits)
    from loop [unfolded b64_decode_loop_collect] obtain vs where
      vs: "\<forall>v\<in>set vs. v < 64" "body = map ((!) B64_ALPHABET) vs" "collect 6 vs 0 0 [] = (out, acc, bits)"
      by (elim exE conjE)
    have r: "out = be_bytes (6 * length vs div 8) (undigits 64 vs div 2 ^ (6 * length vs mod 8))"
        "acc = of_nat (undigits 64 vs)" "bits = 6 * length vs mod 8"
      using vs(3) unfolding collect_b64 [OF vs(1)] by (elim Pair_inject; simp only:)+
    have t: "t = map ((!) B64_ALPHABET) vs @ replicate p PAD"
      using split_pad [of t] vs(2) by (simp add: p_def body_def)
    moreover have "undigits 64 vs mod 2 ^ (6 * length vs mod 8) = 0"
      using tail b64_tail [of bits "undigits 64 vs"] unfolding r(2,3) by auto
    moreover have "(length vs + p) mod 4 = 0" using c(1) t by simp
    ultimately show ?thesis using vs(1) c(2) r(1)
      by (intro exI [of _ vs] exI [of _ p]) (simp add: b64_fits_def)
  qed
next
  assume ?r
  then obtain vs p where f: "b64_fits vs p" and t: "t = map ((!) B64_ALPHABET) vs @ replicate p PAD"
    and out: "out = be_bytes (6 * length vs div 8) (undigits 64 vs div 2 ^ (6 * length vs mod 8))"
    by (elim exE conjE)
  have np: "PAD \<notin> set (map ((!) B64_ALPHABET) vs)"
    using f B64_not_PAD by (auto simp: b64_fits_def) metis
  have pad: "length (takeWhile (\<lambda>c. c = PAD) (rev t)) = p"
    unfolding t takeWhile_pad [OF np] by simp
  have loop: "b64_decode_loop (map ((!) B64_ALPHABET) vs) 0 0 [] =
      Inr (out, of_nat (undigits 64 vs), 6 * length vs mod 8)"
    unfolding b64_decode_loop_collect out using f collect_b64 by (auto simp: b64_fits_def)
  show ?l
  proof (cases "t = []")
    case True
    with t out show ?thesis by (simp add: b64_decode_def)
  next
    case False
    have "take (length t - p) t = map ((!) B64_ALPHABET) vs" by (simp add: t)
    with False pad np loop f b64_tail [of "6 * length vs mod 8" "undigits 64 vs"] show ?thesis
      by (auto simp: b64_decode_def Let_def b64_fits_def t)
  qed
qed

lemma b64_fits_shape:
  assumes "b64_fits vs p"
  shows "length vs = b64_len (6 * length vs div 8)" "p = b64_pad (6 * length vs div 8)"
    "6 * length vs mod 8 = b64_slack (6 * length vs div 8)"
proof -
  define q where "q = (length vs + p) div 4"
  have s: "length vs + p = 4 * q" and p: "p = 0 \<or> p = 1 \<or> p = 2"
    using assms by (auto simp: b64_fits_def q_def)
  have "length vs = b64_len (6 * length vs div 8) \<and> p = b64_pad (6 * length vs div 8)
      \<and> 6 * length vs mod 8 = b64_slack (6 * length vs div 8)"
  proof (cases "p = 0")
    case True
    then have l: "length vs = 4 * q" using s by simp
    have "6 * length vs div 8 = 3 * q" "6 * length vs mod 8 = 0" unfolding l by presburger+
    with l True show ?thesis by (simp only: b64_shape_simps)
  next
    case False
    with s p obtain r where r: "q = Suc r" by (cases q) auto
    have "p = 1 \<and> length vs = 4 * r + 3 \<or> p = 2 \<and> length vs = 4 * r + 2" using s p False r by auto
    then show ?thesis
    proof (elim disjE conjE)
      assume a: "p = 1" and l: "length vs = 4 * r + 3"
      have "6 * length vs div 8 = 3 * r + 2" "6 * length vs mod 8 = 2" unfolding l by presburger+
      with l a show ?thesis by (simp only: b64_shape_simps)
    next
      assume a: "p = 2" and l: "length vs = 4 * r + 2"
      have "6 * length vs div 8 = 3 * r + 1" "6 * length vs mod 8 = 4" unfolding l by presburger+
      with l a show ?thesis by (simp only: b64_shape_simps)
    qed
  qed
  then show "length vs = b64_len (6 * length vs div 8)" "p = b64_pad (6 * length vs div 8)"
    "6 * length vs mod 8 = b64_slack (6 * length vs div 8)" by blast+
qed

lemma b64_decode_encode: "b64_decode (b64_encode bs) = Inr bs"
proof -
  let ?n = "length bs" and ?v = "be_nat bs"
  let ?vs = "digits 64 (b64_len ?n) (?v * 2 ^ b64_slack ?n)"
  have pw: "(256 :: nat) ^ ?n * 2 ^ b64_slack ?n = 64 ^ b64_len ?n"
    using b64_bits [of ?n] power_mult [of "2 :: nat" 8 ?n] power_mult [of "2 :: nat" 6 "b64_len ?n"]
    by (simp add: power_add)
  have und: "undigits 64 ?vs = ?v * 2 ^ b64_slack ?n"
    using be_nat_bound [of bs] unfolding undigits_digits pw [symmetric] by simp
  have sl: "b64_slack ?n < 8" by (simp add: b64_slack_def)
  have bits: "6 * length ?vs div 8 = ?n" "6 * length ?vs mod 8 = b64_slack ?n"
    using b64_bits [of ?n] sl by simp_all
  have "(b64_len ?n + b64_pad ?n) mod 4 = 0 \<and> b64_pad ?n \<le> 2"
    by (rule b64_shape [of ?n]) presburger+
  then have "b64_fits ?vs (b64_pad ?n)"
    unfolding b64_fits_def bits(2) und using digits_bound [of 64] by auto
  moreover have "bs = be_bytes (6 * length ?vs div 8) (undigits 64 ?vs div 2 ^ (6 * length ?vs mod 8))"
    unfolding und bits using be_bytes_be_nat [of bs] by simp
  ultimately show ?thesis unfolding b64_decode_iff using b64_encode_digits [of bs] by blast
qed

lemma b64_encode_decode:
  assumes "b64_decode t = Inr out"
  shows "b64_encode out = t"
proof -
  from assms [unfolded b64_decode_iff] obtain vs p where f: "b64_fits vs p"
    and t: "t = map ((!) B64_ALPHABET) vs @ replicate p PAD"
    and out: "out = be_bytes (6 * length vs div 8) (undigits 64 vs div 2 ^ (6 * length vs mod 8))"
    by (elim exE conjE)
  define n where "n = 6 * length vs div 8"
  have sh: "length vs = b64_len n" "p = b64_pad n" "6 * length vs mod 8 = b64_slack n"
    using b64_fits_shape [OF f] unfolding n_def by blast+
  have v: "\<forall>v\<in>set vs. v < 64" and z: "undigits 64 vs mod 2 ^ b64_slack n = 0"
    using f by (simp_all add: b64_fits_def flip: sh(3))
  have pw: "(256 :: nat) ^ n * 2 ^ b64_slack n = 64 ^ b64_len n"
    using b64_bits [of n] power_mult [of "2 :: nat" 8 n] power_mult [of "2 :: nat" 6 "b64_len n"]
    by (simp add: power_add)
  have o': "out = be_bytes n (undigits 64 vs div 2 ^ b64_slack n)"
    using out unfolding n_def [symmetric] sh(3) .
  have "undigits 64 vs < 256 ^ n * 2 ^ b64_slack n"
    using undigits_bound [OF v] sh(1) pw by simp
  then have "undigits 64 vs div 2 ^ b64_slack n < 256 ^ n" by (simp add: less_mult_imp_div_less)
  then have "be_nat out * 2 ^ b64_slack n = undigits 64 vs"
    using z by (simp add: o' be_nat_be_bytes mod_eq_0_iff_dvd)
  then show ?thesis
    using digits_undigits [OF v] sh t o' by (simp add: b64_encode_digits)
qed

interpretation b64_codec: canonical_codec b64_encode b64_decode "\<lambda>_. True"
  by unfold_locales (simp_all add: b64_decode_encode b64_encode_decode)

section \<open>Properties\<close>

text \<open>
  C20. A text is read as the identifier \<open>c\<close> exactly when it is the spelling \<open>to_text c\<close>: reading
  undoes writing, and upper case, padding, a wrong length or set unused bits are refused, so no
  identifier has two spellings.
\<close>

theorem cid_text_one_spelling: "from_text t = Inr c \<longleftrightarrow> t = to_text c"
  using cid_codec.dec_eq_iff by simp

text \<open>
  The padded base64 of \<open>b64.rs\<close>: \<open>decode\<close> accepts exactly what \<open>encode\<close> writes, and
  gives back the bytes.
\<close>

theorem b64_one_spelling: "b64_decode t = Inr bs \<longleftrightarrow> t = b64_encode bs"
  using b64_codec.dec_eq_iff by simp

end
