(* ===== verification/Merkle.thy ===== *)
theory Merkle
  imports Canon_Cbor Text_Codec
begin

text \<open>
  Digests and the Merkle tree of the ledger: \<open>src/crates/gx-canon/src/cid.rs\<close> (domain
  separation and the mints) and the tree functions of \<open>src/crates/gx-log/src/tile.rs\<close>
  (\<open>split_point\<close>, \<open>mth\<close>, \<open>audit_path\<close>, \<open>subproof\<close>, \<open>audit_path_len\<close>).

  BLAKE3 is not part of the repository: the function from bytes to a 32-byte digest is the
  argument \<open>H\<close>. \<open>Hasher::update\<close> called part by part hashes the concatenation of the parts,
  which is the documented behaviour of the crate. No lemma assumes that \<open>H\<close> is injective:
  the soundness lemmas end in "or here are two inputs with the same digest".
\<close>

section \<open>Digests and domains\<close>

definition digest :: "(bytes \<Rightarrow> cid) \<Rightarrow> bytes list \<Rightarrow> cid" where
  "digest H parts = H (concat parts)"

datatype domain = Leaf | Node

fun domain_byte :: "domain \<Rightarrow> byte" where
  "domain_byte Leaf = 0x00"
| "domain_byte Node = 0x01"

definition mint :: "(bytes \<Rightarrow> cid) \<Rightarrow> domain \<Rightarrow> bytes list \<Rightarrow> cid" where
  "mint H d parts = digest H ([domain_byte d] # parts)"

definition mint_leaf :: "(bytes \<Rightarrow> cid) \<Rightarrow> ('a \<Rightarrow> string + bytes) \<Rightarrow> 'a \<Rightarrow> canon_error + cid" where
  "mint_leaf H to_vec leaf =
     and_then (cbor_encode to_vec leaf) (\<lambda>bs. Inr (mint H Leaf [bs]))"

definition mint_node :: "(bytes \<Rightarrow> cid) \<Rightarrow> cid \<Rightarrow> cid \<Rightarrow> cid" where
  "mint_node H l r = mint H Node [cid_bytes l, cid_bytes r]"

definition cid_compute :: "(bytes \<Rightarrow> cid) \<Rightarrow> ('v \<Rightarrow> string + bytes) \<Rightarrow> ('a \<Rightarrow> 'v) \<Rightarrow> 'a \<Rightarrow> canon_error + cid" where
  "cid_compute H to_vec identity_view v =
     and_then (cbor_encode to_vec (identity_view v)) (\<lambda>bs. Inr (digest H [bs]))"

definition of_canonical_bytes :: "(bytes \<Rightarrow> cid) \<Rightarrow> bytes \<Rightarrow> canon_error + cid" where
  "of_canonical_bytes H bs = and_then (scan_strict bs) (\<lambda>_. Inr (digest H [bs]))"

definition node_hash :: "(bytes \<Rightarrow> cid) \<Rightarrow> cid \<Rightarrow> cid \<Rightarrow> cid" where
  "node_hash H l r = mint_node H l r"

text \<open>What is hashed for a node and for a leaf.\<close>

definition node_input :: "cid \<Rightarrow> cid \<Rightarrow> bytes" where
  "node_input l r = 0x01 # cid_bytes l @ cid_bytes r"

definition leaf_input :: "bytes \<Rightarrow> bytes" where
  "leaf_input bs = 0x00 # bs"

lemma node_hash_input: "node_hash H l r = H (node_input l r)"
  by (simp add: node_hash_def mint_node_def mint_def digest_def node_input_def)

lemma mint_leaf_input: "mint_leaf H to_vec v = Inr c \<longleftrightarrow> (\<exists>bs. cbor_encode to_vec v = Inr bs \<and> c = H (leaf_input bs))"
  by (auto simp: mint_leaf_def mint_def digest_def leaf_input_def and_then_eq_Inr)

lemma node_input_inject [simp]: "node_input l r = node_input l' r' \<longleftrightarrow> l = l' \<and> r = r'"
  by (auto simp: node_input_def cid_eq_iff)

lemma leaf_input_inject [simp]: "leaf_input a = leaf_input b \<longleftrightarrow> a = b"
  by (simp add: leaf_input_def)

lemma leaf_node_disjoint [simp]: "leaf_input a \<noteq> node_input l r" "node_input l r \<noteq> leaf_input a"
  by (simp_all add: leaf_input_def node_input_def)

section \<open>The split of a tree\<close>

text \<open>
  \<open>split_point\<close> and \<open>split_point_u64\<close>: \<open>1 << (BITS - 1 - (n - 1).leading_zeros())\<close>, the
  largest power of two below \<open>n\<close>. The exponent is the bit length of \<open>n - 1\<close> less one
  whatever the width; \<open>split_point_bits\<close> is the 64-bit spelling of the source.
\<close>

definition split_point :: "nat \<Rightarrow> nat" where
  "split_point n = push_bit (bit_length (n - 1) - 1) 1"

lemma bit_length_le: "x < 2 ^ w \<Longrightarrow> bit_length x \<le> w"
proof (cases "x = 0")
  case False
  then have "2 ^ (bit_length x - 1) \<le> x" using bit_length_bounds by simp
  moreover assume "x < 2 ^ w"
  ultimately have "(2 :: nat) ^ (bit_length x - 1) < 2 ^ w" by linarith
  then have "bit_length x - 1 < w" by (rule power_less_imp_less_exp [rotated]) simp
  then show ?thesis by linarith
qed simp

lemma split_point_bits:
  assumes "2 \<le> n" "n \<le> u64_limit"
  shows "split_point n = push_bit (64 - 1 - leading_zeros 64 (n - 1)) 1"
proof -
  have "bit_length (n - 1) \<le> 64" using assms by (intro bit_length_le) simp
  then show ?thesis by (simp add: split_point_def leading_zeros_def)
qed

lemma split_point_power:
  assumes "2 \<le> n"
  obtains j where "split_point n = 2 ^ j" "2 ^ j < n" "n \<le> 2 * 2 ^ j"
proof -
  define j where "j = bit_length (n - 1) - 1"
  have pos: "0 < bit_length (n - 1)" using assms by (simp add: bit_length_pos)
  have "2 ^ j \<le> n - 1" "n - 1 < 2 ^ Suc j"
    using bit_length_bounds [of "n - 1"] assms pos by (auto simp: j_def)
  then have "2 ^ j < n" "n \<le> 2 * 2 ^ j" using assms by auto
  then show thesis using that [of j] by (simp add: split_point_def j_def push_bit_eq_mult)
qed

lemma split_point_unique: "2 ^ j < n \<Longrightarrow> n \<le> 2 * 2 ^ j \<Longrightarrow> split_point n = 2 ^ j"
  using bit_length_unique [of j "n - 1"] by (simp add: split_point_def push_bit_eq_mult)

lemma split_point_bounds: "2 \<le> n \<Longrightarrow> 0 < split_point n \<and> split_point n < n"
  by (metis split_point_power zero_less_numeral zero_less_power)

lemma split_point_scale:
  assumes "2 \<le> m"
  shows "split_point (m * 2 ^ j) = split_point m * 2 ^ j"
proof -
  obtain i where i: "split_point m = 2 ^ i" "2 ^ i < m" "m \<le> 2 * 2 ^ i"
    using split_point_power [OF assms] .
  have "split_point (m * 2 ^ j) = 2 ^ (i + j)"
    by (rule split_point_unique) (use i in \<open>auto simp: power_add\<close>)
  with i show ?thesis by (simp add: power_add)
qed

section \<open>The tree hash\<close>

function mth :: "(bytes \<Rightarrow> cid) \<Rightarrow> cid list \<Rightarrow> cid option" where
  "mth H leaves =
     (if length leaves = 0 then None
      else if length leaves = 1 then Some (leaves ! 0)
      else
        (let k = split_point (length leaves) in
         case mth H (take k leaves) of
           None \<Rightarrow> None
         | Some left \<Rightarrow>
             (case mth H (drop k leaves) of
                None \<Rightarrow> None
              | Some right \<Rightarrow> Some (node_hash H left right))))"
  by pat_completeness auto
termination
proof (relation "measure (\<lambda>(H, leaves). length leaves)", goal_cases)
  case (2 H leaves x)
  then have "2 \<le> length leaves" by presburger
  with 2 show ?case using split_point_bounds [of "length leaves"] by simp
next
  case (3 H leaves x l)
  then have "2 \<le> length leaves" by presburger
  with 3 show ?case using split_point_bounds [of "length leaves"] by simp
qed simp

declare mth.simps [simp del]

text \<open>The root of a non-empty tree.\<close>

definition mtr :: "(bytes \<Rightarrow> cid) \<Rightarrow> cid list \<Rightarrow> cid" where
  "mtr H leaves = the (mth H leaves)"

lemma mth_Nil [simp]: "mth H [] = None"
  by (simp add: mth.simps)

lemma mth_single [simp]: "mth H [x] = Some x"
  by (simp add: mth.simps)

lemma mth_defined: "leaves \<noteq> [] \<Longrightarrow> mth H leaves \<noteq> None"
proof (induction H leaves rule: mth.induct)
  case (1 H leaves)
  show ?case
  proof (cases "length leaves = 1")
    case False
    define k where "k = split_point (length leaves)"
    have "2 \<le> length leaves" using 1(3) False by (cases leaves) (auto simp: Suc_le_eq)
    then have k: "0 < k" "k < length leaves" using split_point_bounds by (auto simp: k_def)
    have "mth H (take k leaves) \<noteq> None"
      using 1(1) [OF _ False k_def] k 1(3) by auto
    then obtain l where l: "mth H (take k leaves) = Some l" by blast
    have "mth H (drop k leaves) \<noteq> None"
      using 1(2) [OF _ False k_def l] k 1(3) by auto
    then obtain r where "mth H (drop k leaves) = Some r" by blast
    with l k False 1(3) show ?thesis by (simp add: mth.simps [of H leaves] k_def [symmetric] Let_def)
  qed (simp add: mth.simps)
qed

lemma mth_mtr: "leaves \<noteq> [] \<Longrightarrow> mth H leaves = Some (mtr H leaves)"
  using mth_defined by (simp add: mtr_def)

lemma mtr_single [simp]: "mtr H [x] = x"
  by (simp add: mtr_def)

lemma mth_split:
  assumes "2 \<le> length leaves"
  shows "mth H leaves = Some (node_hash H (mtr H (take (split_point (length leaves)) leaves))
    (mtr H (drop (split_point (length leaves)) leaves)))"
proof -
  let ?k = "split_point (length leaves)"
  have k: "0 < ?k" "?k < length leaves" using split_point_bounds [OF assms] by auto
  then have "take ?k leaves \<noteq> []" "drop ?k leaves \<noteq> []" by auto
  with assms show ?thesis by (simp add: mth.simps [of H leaves] Let_def mth_mtr)
qed

lemma mtr_split:
  "2 \<le> length leaves \<Longrightarrow> mtr H leaves = node_hash H (mtr H (take (split_point (length leaves)) leaves))
    (mtr H (drop (split_point (length leaves)) leaves))"
  by (simp add: mtr_def mth_split)

lemma mtr_append:
  assumes "length xs = 2 ^ j" "ys \<noteq> []" "length ys \<le> 2 ^ j"
  shows "mtr H (xs @ ys) = node_hash H (mtr H xs) (mtr H ys)"
proof -
  have sp: "split_point (length (xs @ ys)) = 2 ^ j"
    by (rule split_point_unique) (use assms in \<open>auto simp: Suc_le_eq\<close>)
  moreover have "2 \<le> length (xs @ ys)"
    using assms by (metis Suc_leI add_mono length_append length_greater_0_conv one_add_one
        one_le_numeral one_le_power Suc_eq_plus1 add_0)
  ultimately show ?thesis using mtr_split [of "xs @ ys" H] assms(1) by simp
qed

lemma length_concat_uniform: "\<forall>b\<in>set bs. length b = n \<Longrightarrow> length (concat bs) = length bs * n"
  by (induction bs) auto

text \<open>Blocks of equal power-of-two length can be replaced by their roots.\<close>

lemma mtr_blocks:
  assumes "bs \<noteq> []" "\<forall>b\<in>set bs. length b = 2 ^ j"
  shows "mtr H (concat bs) = mtr H (map (mtr H) bs)"
  using assms
proof (induction "length bs" arbitrary: bs rule: less_induct)
  case less
  have len: "length (concat bs) = length bs * 2 ^ j"
    using length_concat_uniform [OF less.prems(2)] .
  show ?case
  proof (cases "length bs = 1")
    case True
    then show ?thesis by (cases bs) auto
  next
    case False
    then have two: "2 \<le> length bs" using less.prems(1) by (cases bs) (auto simp: Suc_le_eq)
    define k where "k = split_point (length bs)"
    have k: "0 < k" "k < length bs" using split_point_bounds [OF two] by (auto simp: k_def)
    have two': "2 \<le> length (concat bs)"
      using two len mult_le_mono [OF two, of 1 "2 ^ j"] by simp
    have sp: "split_point (length (concat bs)) = k * 2 ^ j"
      using split_point_scale [OF two] by (simp add: len k_def)
    have lt: "length (concat (take k bs)) = k * 2 ^ j"
      using k less.prems(2) length_concat_uniform [of "take k bs" "2 ^ j"] by (auto dest: in_set_takeD)
    have cc: "concat bs = concat (take k bs) @ concat (drop k bs)"
      by (metis append_take_drop_id concat_append)
    have td: "take (k * 2 ^ j) (concat bs) = concat (take k bs)" "drop (k * 2 ^ j) (concat bs) = concat (drop k bs)"
      unfolding cc using lt by simp_all
    have "mtr H (concat (take k bs)) = mtr H (map (mtr H) (take k bs))"
      using less.hyps [of "take k bs"] k less.prems by (auto dest: in_set_takeD)
    moreover have "mtr H (concat (drop k bs)) = mtr H (map (mtr H) (drop k bs))"
      using less.hyps [of "drop k bs"] k less.prems by (force dest: in_set_dropD)
    ultimately show ?thesis
      using mtr_split [OF two', of H] mtr_split [of "map (mtr H) bs" H] two
      by (simp add: sp td take_map drop_map k_def [symmetric])
  qed
qed

section \<open>Audit paths\<close>

text \<open>The reference algorithm of RFC 6962, section 2.1.1, kept in the source for its tests.\<close>

function audit_path :: "(bytes \<Rightarrow> cid) \<Rightarrow> nat \<Rightarrow> cid list \<Rightarrow> cid list" where
  "audit_path H index leaves =
     (if length leaves \<le> 1 then []
      else
        (let k = split_point (length leaves) in
         if index < k then audit_path H index (take k leaves) @ [mtr H (drop k leaves)]
         else audit_path H (index - k) (drop k leaves) @ [mtr H (take k leaves)]))"
  by pat_completeness auto
termination
proof (relation "measure (\<lambda>(H, i, leaves). length leaves)", goal_cases)
  case (2 H index leaves x)
  then show ?case using split_point_bounds [of "length leaves"] by simp
next
  case (3 H index leaves x)
  then show ?case using split_point_bounds [of "length leaves"] by auto
qed simp

declare audit_path.simps [simp del]

text \<open>\<open>audit_path_len\<close>: the loop, for \<open>index < tree_size\<close>.\<close>

function path_len_loop :: "nat \<Rightarrow> nat \<Rightarrow> nat \<Rightarrow> nat" where
  "path_len_loop i n len =
     (if n > 1 then
        (let k = split_point n in
         if i < k then path_len_loop i k (len + 1) else path_len_loop (i - k) (n - k) (len + 1))
      else len)"
  by pat_completeness auto
termination
proof (relation "measure (\<lambda>(i, n, len). n)", goal_cases)
  case (2 i n len k)
  then show ?case using split_point_bounds [of n] by simp
next
  case (3 i n len k)
  then show ?case using split_point_bounds [of n] by simp
qed simp

declare path_len_loop.simps [simp del]

definition audit_path_len :: "nat \<Rightarrow> nat \<Rightarrow> nat option" where
  "audit_path_len index tree_size =
     (if tree_size = 0 \<or> index \<ge> tree_size then None else Some (path_len_loop index tree_size 0))"

lemma path_len_loop_audit_path:
  "leaves \<noteq> [] \<Longrightarrow> path_len_loop i (length leaves) len = len + length (audit_path H i leaves)"
proof (induction "length leaves" arbitrary: i leaves len rule: less_induct)
  case less
  show ?case
  proof (cases "length leaves \<le> 1")
    case False
    define k where "k = split_point (length leaves)"
    have k: "0 < k" "k < length leaves" using split_point_bounds [of "length leaves"] False by (auto simp: k_def)
    have "path_len_loop i k (Suc len) = Suc len + length (audit_path H i (take k leaves))"
      using less.hyps [of "take k leaves" i "Suc len"] k less.prems by simp
    moreover have "path_len_loop (i - k) (length leaves - k) (Suc len) =
        Suc len + length (audit_path H (i - k) (drop k leaves))"
      using less.hyps [of "drop k leaves" "i - k" "Suc len"] k by simp
    ultimately show ?thesis using False
      by (simp add: path_len_loop.simps [of i "length leaves"] audit_path.simps [of H i leaves]
          Let_def k_def [symmetric])
  qed (simp add: path_len_loop.simps audit_path.simps)
qed

lemma audit_path_len_correct:
  "i < length leaves \<Longrightarrow> audit_path_len i (length leaves) = Some (length (audit_path H i leaves))"
  using path_len_loop_audit_path [of leaves i 0 H] by (auto simp: audit_path_len_def)

section \<open>Consistency proofs\<close>

text \<open>
  \<open>subproof\<close> (RFC 6962, section 2.1.2). None is the panic of an \<open>expect\<close> or of a split of a
  tree that does not split; \<open>subproof_defined\<close> shows that the callers never meet it.
\<close>

function subproof :: "(bytes \<Rightarrow> cid) \<Rightarrow> nat \<Rightarrow> cid list \<Rightarrow> bool \<Rightarrow> cid list option" where
  "subproof H m leaves b =
     (let n = length leaves in
      if m = n then (if b then Some [] else map_option (\<lambda>root. [root]) (mth H leaves))
      else if n < 2 then None
      else
        (let k = split_point n in
         if m \<le> k
         then Option.bind (subproof H m (take k leaves) b) (\<lambda>out.
              map_option (\<lambda>root. out @ [root]) (mth H (drop k leaves)))
         else Option.bind (subproof H (m - k) (drop k leaves) False) (\<lambda>out.
              map_option (\<lambda>root. out @ [root]) (mth H (take k leaves)))))"
  by pat_completeness auto
termination
proof (relation "measure (\<lambda>(H, m, leaves, b). length leaves)", goal_cases)
  case (2 H m leaves b n k)
  then show ?case using split_point_bounds [of "length leaves"] by simp
next
  case (3 H m leaves b n k)
  then show ?case using split_point_bounds [of "length leaves"] by auto
qed simp

declare subproof.simps [simp del]

lemma subproof_defined:
  "1 \<le> m \<Longrightarrow> m \<le> length leaves \<Longrightarrow> subproof H m leaves b \<noteq> None"
proof (induction "length leaves" arbitrary: m leaves b rule: less_induct)
  case less
  show ?case
  proof (cases "m = length leaves")
    case True
    have "leaves \<noteq> []" using less.prems True by auto
    then show ?thesis using True mth_mtr by (simp add: subproof.simps [of H _ leaves])
  next
    case False
    define k where "k = split_point (length leaves)"
    have two: "2 \<le> length leaves" using less.prems False by simp
    have k: "0 < k" "k < length leaves" using split_point_bounds [OF two] by (auto simp: k_def)
    have "take k leaves \<noteq> []" "drop k leaves \<noteq> []" using k by auto
    moreover have "m \<le> k \<Longrightarrow> subproof H m (take k leaves) b \<noteq> None"
      using less.hyps [of "take k leaves" m b] k less.prems by simp
    moreover have "k < m \<Longrightarrow> subproof H (m - k) (drop k leaves) False \<noteq> None"
      using less.hyps [of "drop k leaves" "m - k" False] k less.prems by simp
    ultimately show ?thesis using False two
      by (auto simp: subproof.simps [of H m leaves] Let_def k_def [symmetric] mth_mtr)
  qed
qed

end
