(* ===== verification/Merkle_Walk.thy ===== *)
theory Merkle_Walk
  imports Merkle
begin

text \<open>
  The two upward walks of \<open>src/crates/gx-log/src/proof.rs\<close>: the loop of
  \<open>reconstruct_root\<close>, which folds an audit path into a root, and the loop of
  \<open>verify_consistency\<close>, which folds one path into an old and a new root. The walks know the
  shape of the tree only through two counters, \<open>node\<close> and \<open>final\<close>, that are halved as the
  walk climbs; the lemmas relate them to the recursive definition of the tree.
\<close>

section \<open>The loops\<close>

text \<open>\<open>while node != 0 && node.is_multiple_of(2) { node /= 2; final /= 2; }\<close>\<close>

function shift_even :: "nat \<Rightarrow> nat \<Rightarrow> nat \<times> nat" where
  "shift_even node final =
     (if node \<noteq> 0 \<and> node mod 2 = 0 then shift_even (node div 2) (final div 2) else (node, final))"
  by pat_completeness auto
termination
  by (relation "measure fst") auto

declare shift_even.simps [simp del]

text \<open>\<open>while node % 2 == 1 { node /= 2; final /= 2; }\<close>\<close>

function strip_ones :: "nat \<Rightarrow> nat \<Rightarrow> nat \<times> nat" where
  "strip_ones node final =
     (if node mod 2 = 1 then strip_ones (node div 2) (final div 2) else (node, final))"
  by pat_completeness auto
termination
  by (relation "measure fst") auto

declare strip_ones.simps [simp del]

fun reconstruct_loop :: "(bytes \<Rightarrow> cid) \<Rightarrow> cid list \<Rightarrow> nat \<Rightarrow> nat \<Rightarrow> cid \<Rightarrow> cid option" where
  "reconstruct_loop H [] node final hash = (if final = 0 then Some hash else None)"
| "reconstruct_loop H (sibling # path) node final hash =
     (if final = 0 then None
      else if node mod 2 = 1 \<or> node = final
      then (let (node, final) = shift_even node final
            in reconstruct_loop H path (node div 2) (final div 2) (node_hash H sibling hash))
      else reconstruct_loop H path (node div 2) (final div 2) (node_hash H hash sibling))"

text \<open>The second loop of \<open>verify_consistency\<close>; None is its \<open>return Ok(false)\<close> and a \<open>final\<close> left over.\<close>

fun consistency_loop ::
  "(bytes \<Rightarrow> cid) \<Rightarrow> cid list \<Rightarrow> nat \<Rightarrow> nat \<Rightarrow> cid \<Rightarrow> cid \<Rightarrow> (cid \<times> cid) option" where
  "consistency_loop H [] node final old new = (if final = 0 then Some (old, new) else None)"
| "consistency_loop H (sibling # path) node final old new =
     (if final = 0 then None
      else if node mod 2 = 1 \<or> node = final
      then (let (node, final) = shift_even node final
            in consistency_loop H path (node div 2) (final div 2)
                 (node_hash H sibling old) (node_hash H sibling new))
      else consistency_loop H path (node div 2) (final div 2) old (node_hash H new sibling))"

lemma reconstruct_loop_consistency:
  "reconstruct_loop H path node final hash = map_option snd (consistency_loop H path node final old hash)"
proof (induction path arbitrary: node final hash old)
  case (Cons s path)
  show ?case by (simp add: Cons.IH [symmetric] split: prod.split)
qed simp

section \<open>The counters\<close>

lemma shift_even_odd [simp]: "node mod 2 = 1 \<Longrightarrow> shift_even node final = (node, final)"
  by (simp add: shift_even.simps)

lemma shift_even_step: "node \<noteq> 0 \<Longrightarrow> node mod 2 = 0 \<Longrightarrow> shift_even node final = shift_even (node div 2) (final div 2)"
  by (simp add: shift_even.simps [of node])

lemma strip_ones_step: "node mod 2 = 1 \<Longrightarrow> strip_ones node final = strip_ones (node div 2) (final div 2)"
  by (simp add: strip_ones.simps [of node])

lemma shift_even_power: "shift_even (2 ^ j) (2 ^ j) = (1, 1)"
proof (induction j)
  case (Suc j)
  then show ?case by (simp add: shift_even.simps [of "2 * 2 ^ j"])
qed (simp add: shift_even.simps)

lemma shift_even_lift:
  "0 < node \<Longrightarrow> node < 2 ^ J \<Longrightarrow> final < 2 ^ J \<Longrightarrow> shift_even node final = (a, b) \<Longrightarrow>
   \<exists>J'. 0 < J' \<and> J' \<le> J \<and> a < 2 ^ J' \<and> b < 2 ^ J' \<and> (node \<le> final \<longrightarrow> a \<le> b)
     \<and> shift_even (node + 2 ^ J) (final + 2 ^ J) = (a + 2 ^ J', b + 2 ^ J')"
proof (induction J arbitrary: node final)
  case (Suc J)
  show ?case
  proof (cases "node mod 2 = 0")
    case True
    have "node div 2 + 2 ^ J = (node + 2 ^ Suc J) div 2" "final div 2 + 2 ^ J = (final + 2 ^ Suc J) div 2"
      by simp_all
    moreover have "shift_even (node div 2) (final div 2) = (a, b)"
      using Suc.prems True by (simp add: shift_even.simps [of node])
    moreover have "0 < node div 2" "node div 2 < 2 ^ J" "final div 2 < 2 ^ J" using Suc.prems True by auto
    ultimately obtain J' where J': "0 < J'" "J' \<le> J" "a < 2 ^ J'" "b < 2 ^ J'" "node div 2 \<le> final div 2 \<longrightarrow> a \<le> b"
      "shift_even ((node + 2 ^ Suc J) div 2) ((final + 2 ^ Suc J) div 2) = (a + 2 ^ J', b + 2 ^ J')"
      using Suc.IH [of "node div 2" "final div 2"] by metis
    moreover have "shift_even (node + 2 ^ Suc J) (final + 2 ^ Suc J) =
        shift_even ((node + 2 ^ Suc J) div 2) ((final + 2 ^ Suc J) div 2)"
      by (rule shift_even_step) (use True Suc.prems(1) in auto)
    ultimately show ?thesis by (metis div_le_mono le_SucI)
  next
    case False
    then have odd: "node mod 2 = 1" "(node + 2 ^ Suc J) mod 2 = 1" by auto
    then show ?thesis using Suc.prems by (intro exI [of _ "Suc J"]) auto
  qed
qed simp

lemma strip_ones_even [simp]: "node mod 2 = 0 \<Longrightarrow> strip_ones node final = (node, final)"
  by (simp add: strip_ones.simps)

lemma strip_ones_full: "even c \<Longrightarrow> strip_ones (c * 2 ^ j + 2 ^ j - 1) final = (c, final div 2 ^ j)"
proof (induction j arbitrary: final)
  case (Suc j)
  define x where "x = c * 2 ^ j + 2 ^ j - 1"
  have eq: "c * 2 ^ Suc j + 2 ^ Suc j - 1 = 2 * x + 1"
  proof -
    have "1 \<le> c * 2 ^ j + (2 :: nat) ^ j" by (simp add: trans_le_add2)
    then show ?thesis unfolding x_def by simp
  qed
  have "strip_ones (2 * x + 1) final = strip_ones x (final div 2)"
    by (simp add: strip_ones.simps [of "Suc (2 * x)"])
  then show ?case using Suc unfolding eq by (simp add: x_def div_mult2_eq mult.commute)
qed (auto elim: evenE)

lemma strip_ones_lift:
  "node < final \<Longrightarrow> final < 2 ^ J \<Longrightarrow> strip_ones node final = (a, b) \<Longrightarrow>
   \<exists>J'. J' \<le> J \<and> a \<le> b \<and> b < 2 ^ J'
     \<and> strip_ones (node + 2 ^ J) (final + 2 ^ J) = (a + 2 ^ J', b + 2 ^ J')"
proof (induction J arbitrary: node final)
  case (Suc J)
  show ?case
  proof (cases "node mod 2 = 1")
    case True
    have half: "(node + 2 ^ Suc J) div 2 = node div 2 + 2 ^ J" "(final + 2 ^ Suc J) div 2 = final div 2 + 2 ^ J"
      by simp_all
    have rec: "strip_ones (node div 2) (final div 2) = (a, b)"
      using Suc.prems True by (simp add: strip_ones.simps [of node])
    have "node div 2 < final div 2" using Suc.prems(1) True by presburger
    moreover have "final div 2 < 2 ^ J" using Suc.prems(2) by simp
    ultimately obtain J' where "J' \<le> J" "a \<le> b" "b < 2 ^ J'"
      "strip_ones (node div 2 + 2 ^ J) (final div 2 + 2 ^ J) = (a + 2 ^ J', b + 2 ^ J')"
      using Suc.IH [OF _ _ rec] by blast
    moreover have "strip_ones (node + 2 ^ Suc J) (final + 2 ^ Suc J) =
        strip_ones (node div 2 + 2 ^ J) (final div 2 + 2 ^ J)"
      using strip_ones_step [of "node + 2 ^ Suc J" "final + 2 ^ Suc J"] True unfolding half by simp
    ultimately show ?thesis by (metis le_SucI)
  next
    case False
    then have "node mod 2 = 0" "(node + 2 ^ Suc J) mod 2 = 0" by auto
    then show ?thesis using Suc.prems by (intro exI [of _ "Suc J"]) auto
  qed
qed simp

section \<open>Climbing out of a right subtree\<close>

text \<open>
  A path accepted for a subtree is accepted, extended by the left sibling of the subtree, for the
  tree in which it is the right part: the counters carry one more bit.
\<close>

lemma consistency_loop_right:
  "consistency_loop H path node final old new = Some (old', new') \<Longrightarrow> node \<le> final \<Longrightarrow> final < 2 ^ J \<Longrightarrow>
   consistency_loop H (path @ [s]) (node + 2 ^ J) (final + 2 ^ J) old new =
     Some (node_hash H s old', node_hash H s new')"
proof (induction path arbitrary: node final old new J)
  case Nil
  then have "node = 0" "final = 0" "old' = old" "new' = new" by (auto split: if_splits)
  moreover have "consistency_loop H [s] (2 ^ J) (2 ^ J) old new =
      (case shift_even (2 ^ J) (2 ^ J) of (node, final) \<Rightarrow> consistency_loop H [] (node div 2) (final div 2)
        (node_hash H s old) (node_hash H s new))"
    by (simp only: consistency_loop.simps Let_def) simp
  ultimately show ?case by (simp add: shift_even_power)
next
  case (Cons q path)
  have l0: "final \<noteq> 0" using Cons.prems(1) by (auto split: if_splits)
  then obtain K where K: "J = Suc K" using Cons.prems(3) by (cases J) auto
  have half: "(node + 2 ^ J) div 2 = node div 2 + 2 ^ K" "(final + 2 ^ J) div 2 = final div 2 + 2 ^ K"
    "(node + 2 ^ J) mod 2 = node mod 2" by (simp_all add: K)
  have le: "node div 2 \<le> final div 2" "final div 2 < 2 ^ K"
    using Cons.prems(2,3) K by (auto simp: div_le_mono)
  show ?case
  proof (cases "node mod 2 = 1 \<or> node = final")
    case True
    show ?thesis
    proof (cases "node mod 2 = 1")
      case odd: True
      then show ?thesis using Cons.prems(1) Cons.IH [OF _ le] l0 by (simp add: half)
    next
      case False
      obtain a b where ab: "shift_even node final = (a, b)" by fastforce
      obtain J' where J': "0 < J'" "J' \<le> J" "a < 2 ^ J'" "b < 2 ^ J'" "a \<le> b"
        "shift_even (node + 2 ^ J) (final + 2 ^ J) = (a + 2 ^ J', b + 2 ^ J')"
        using shift_even_lift [OF _ _ Cons.prems(3) ab] True False l0 Cons.prems(2,3) by auto
      obtain K' where K': "J' = Suc K'" using J'(1) by (cases J') auto
      have "(a + 2 ^ J') div 2 = a div 2 + 2 ^ K'" "(b + 2 ^ J') div 2 = b div 2 + 2 ^ K'" by (simp_all add: K')
      moreover have "a div 2 \<le> b div 2" "b div 2 < 2 ^ K'" using J' K' by (auto simp: div_le_mono)
      ultimately show ?thesis
        using Cons.prems(1) Cons.IH [of "a div 2" "b div 2" _ _ K'] l0 True False ab J'(6) by simp
    qed
  next
    case False
    then show ?thesis using Cons.prems(1) Cons.IH [OF _ le] l0 by (simp add: half)
  qed
qed

lemma reconstruct_loop_right:
  assumes "reconstruct_loop H path node final hash = Some r" "node \<le> final" "final < 2 ^ J"
  shows "reconstruct_loop H (path @ [s]) (node + 2 ^ J) (final + 2 ^ J) hash = Some (node_hash H s r)"
proof -
  from assms(1) obtain old' where "consistency_loop H path node final hash hash = Some (old', r)"
    by (auto simp: reconstruct_loop_consistency [of H path node final hash hash])
  from consistency_loop_right [OF this assms(2,3), of s] show ?thesis
    by (simp add: reconstruct_loop_consistency [of _ _ _ _ _ hash])
qed

section \<open>Climbing out of a complete left subtree\<close>

text \<open>A complete subtree of \<open>2 ^ Suc j\<close> leaves and its halves.\<close>

lemma complete_halves:
  assumes "length xs = 2 ^ Suc j"
  shows "split_point (length xs) = 2 ^ j" "length (take (2 ^ j) xs) = 2 ^ j" "length (drop (2 ^ j) xs) = 2 ^ j"
    "mtr H xs = node_hash H (mtr H (take (2 ^ j) xs)) (mtr H (drop (2 ^ j) xs))"
proof -
  show sp: "split_point (length xs) = 2 ^ j"
    by (rule split_point_unique) (simp_all add: assms)
  show "length (take (2 ^ j) xs) = 2 ^ j" "length (drop (2 ^ j) xs) = 2 ^ j" by (simp_all add: assms)
  show "mtr H xs = node_hash H (mtr H (take (2 ^ j) xs)) (mtr H (drop (2 ^ j) xs))"
    using mtr_split [of xs H] by (simp add: sp) (simp add: assms)
qed

lemma block_before:
  assumes "(c :: nat) < final div 2 ^ Suc j"
  shows "2 * c + 1 < final div 2 ^ j" "final div 2 ^ j div 2 = final div 2 ^ Suc j"
proof -
  show eq: "final div 2 ^ j div 2 = final div 2 ^ Suc j"
    by (simp add: div_mult2_eq [symmetric] mult.commute)
  show "2 * c + 1 < final div 2 ^ j" using assms unfolding eq [symmetric] by linarith
qed

lemma reconstruct_loop_left:
  "length xs = 2 ^ j \<Longrightarrow> i < 2 ^ j \<Longrightarrow> c < final div 2 ^ j \<Longrightarrow>
   reconstruct_loop H (audit_path H i xs @ q) (c * 2 ^ j + i) final (xs ! i) =
     reconstruct_loop H q c (final div 2 ^ j) (mtr H xs)"
proof (induction j arbitrary: xs i c q)
  case 0
  then show ?case by (cases xs) (auto simp: audit_path.simps)
next
  case (Suc j)
  let ?l = "take (2 ^ j) xs" and ?r = "drop (2 ^ j) xs"
  note h = complete_halves [OF Suc.prems(1)]
  note b = block_before [OF Suc.prems(3)]
  have f0: "final div 2 ^ j \<noteq> 0" using b by auto
  have ap: "audit_path H i xs = (if i < 2 ^ j then audit_path H i ?l @ [mtr H ?r]
      else audit_path H (i - 2 ^ j) ?r @ [mtr H ?l])"
  proof -
    have "length xs = 2 * 2 ^ j" "1 \<le> (2 :: nat) ^ j" using Suc.prems(1) by simp_all
    then have "\<not> length xs \<le> 1" by linarith
    then show ?thesis by (simp only: audit_path.simps [of H i xs] Let_def h(1)) simp
  qed
  show ?case
  proof (cases "i < 2 ^ j")
    case True
    have "reconstruct_loop H (audit_path H i ?l @ mtr H ?r # q) ((2 * c) * 2 ^ j + i) final (?l ! i) =
        reconstruct_loop H (mtr H ?r # q) (2 * c) (final div 2 ^ j) (mtr H ?l)"
      by (rule Suc.IH) (use h True b in auto)
    also have "\<dots> = reconstruct_loop H q c (final div 2 ^ Suc j) (mtr H xs)"
      using b f0 by (simp add: h(4))
    finally show ?thesis using True ap by (simp add: algebra_simps)
  next
    case False
    have "reconstruct_loop H (audit_path H (i - 2 ^ j) ?r @ mtr H ?l # q) ((2 * c + 1) * 2 ^ j + (i - 2 ^ j)) final
        (?r ! (i - 2 ^ j)) = reconstruct_loop H (mtr H ?l # q) (2 * c + 1) (final div 2 ^ j) (mtr H ?r)"
      by (rule Suc.IH) (use h False b Suc.prems in auto)
    also have "\<dots> = reconstruct_loop H q c (final div 2 ^ Suc j) (mtr H xs)"
      using b f0 by (simp add: h(4))
    finally show ?thesis using False ap Suc.prems(1) by (simp add: algebra_simps)
  qed
qed

text \<open>The audit path of a leaf leads to the root.\<close>

lemma reconstruct_audit_path:
  "i < length xs \<Longrightarrow>
   reconstruct_loop H (audit_path H i xs) i (length xs - 1) (xs ! i) = Some (mtr H xs)"
proof (induction "length xs" arbitrary: xs i rule: less_induct)
  case less
  show ?case
  proof (cases "length xs \<le> 1")
    case True
    with less.prems show ?thesis by (cases xs) (auto simp: audit_path.simps)
  next
    case False
    then have two: "2 \<le> length xs" by simp
    obtain j where j: "split_point (length xs) = 2 ^ j" "2 ^ j < length xs" "length xs \<le> 2 * 2 ^ j"
      using split_point_power [OF two] .
    let ?l = "take (2 ^ j) xs" and ?r = "drop (2 ^ j) xs"
    have mt: "mtr H xs = node_hash H (mtr H ?l) (mtr H ?r)" using mtr_split [OF two, of H] j(1) by simp
    have one: "(length xs - 1) div 2 ^ j = 1" using j by (intro div_nat_eqI) auto
    show ?thesis
    proof (cases "i < 2 ^ j")
      case True
      have ap: "audit_path H i xs = audit_path H i ?l @ [mtr H ?r]"
        using True two j(1) by (simp add: audit_path.simps [of H i xs] Let_def)
      show ?thesis
        using reconstruct_loop_left [of ?l j i 0 "length xs - 1" H "[mtr H ?r]"] True j one
        by (simp add: ap mt)
    next
      case False
      have ap: "audit_path H i xs = audit_path H (i - 2 ^ j) ?r @ [mtr H ?l]"
        using False two j(1) by (simp add: audit_path.simps [of H i xs] Let_def)
      have "reconstruct_loop H (audit_path H (i - 2 ^ j) ?r) (i - 2 ^ j) (length ?r - 1) (?r ! (i - 2 ^ j)) =
          Some (mtr H ?r)"
        using less.hyps [of ?r "i - 2 ^ j"] False j less.prems by simp
      from reconstruct_loop_right [OF this, of j "mtr H ?l"] show ?thesis
        using False j less.prems by (simp add: ap mt)
    qed
  qed
qed

section \<open>Consistency: the honest proof is accepted\<close>

lemma subproof_split:
  assumes "m \<noteq> length xs" "2 \<le> length xs" "split_point (length xs) = k"
  shows "subproof H m xs b = (if m \<le> k
    then map_option (\<lambda>out. out @ [mtr H (drop k xs)]) (subproof H m (take k xs) b)
    else map_option (\<lambda>out. out @ [mtr H (take k xs)]) (subproof H (m - k) (drop k xs) False))"
proof -
  have k: "0 < k" "k < length xs" using split_point_bounds [OF assms(2)] assms(3) by auto
  then have "mth H (take k xs) = Some (mtr H (take k xs))" "mth H (drop k xs) = Some (mtr H (drop k xs))"
    by (auto intro!: mth_mtr)
  with assms show ?thesis
    by (simp add: subproof.simps [of H m xs] Let_def bind_map_option comp_def map_conv_bind_option)
qed

lemma subproof_same: "xs \<noteq> [] \<Longrightarrow> subproof H (length xs) xs False = Some [mtr H xs]"
  by (simp add: subproof.simps [of H _ xs] mth_mtr)

lemma mtr_take_right:
  assumes "length xs = 2 ^ Suc j" "2 ^ j < m" "m \<le> 2 ^ Suc j"
  shows "mtr H (take m xs) = node_hash H (mtr H (take (2 ^ j) xs)) (mtr H (take (m - 2 ^ j) (drop (2 ^ j) xs)))"
proof -
  have "take m xs = take (2 ^ j) xs @ take (m - 2 ^ j) (drop (2 ^ j) xs)"
    using assms(2) by (metis le_add_diff_inverse less_imp_le take_add)
  then show ?thesis using mtr_append [of "take (2 ^ j) xs" j "take (m - 2 ^ j) (drop (2 ^ j) xs)" H] assms by simp
qed

lemma consistency_loop_left:
  "length xs = 2 ^ j \<Longrightarrow> 1 \<le> m \<Longrightarrow> m \<le> 2 ^ j \<Longrightarrow> m < 2 ^ j \<or> even c \<Longrightarrow> c < final div 2 ^ j \<Longrightarrow>
   \<exists>s rest. subproof H m xs False = Some (s # rest) \<and>
     (case strip_ones (c * 2 ^ j + m - 1) final of (node, fin) \<Rightarrow>
        consistency_loop H (rest @ q) node fin s s = consistency_loop H q c (final div 2 ^ j) (mtr H (take m xs)) (mtr H xs))"
proof (induction j arbitrary: xs m c q)
  case 0
  then have "m = 1" "even c" "xs \<noteq> []" by auto
  with 0 strip_ones_full [of c 0 final] subproof_same [of xs H] show ?case by auto
next
  case (Suc j)
  let ?l = "take (2 ^ j) xs" and ?r = "drop (2 ^ j) xs"
  note h = complete_halves [OF Suc.prems(1)]
  note b = block_before [OF Suc.prems(5)]
  have f0: "final div 2 ^ j \<noteq> 0" using b by auto
  have two: "2 \<le> length xs" using Suc.prems(1) by simp
  consider (eq) "m = 2 ^ Suc j" | (left) "m \<noteq> 2 ^ Suc j" "m \<le> 2 ^ j" | (right) "m \<noteq> 2 ^ Suc j" "2 ^ j < m" by linarith
  then show ?case
  proof cases
    case eq
    then have "even c" using Suc.prems(4) by auto
    moreover have "xs \<noteq> []" using two by auto
    ultimately show ?thesis using eq strip_ones_full [of c "Suc j" final] subproof_same [of xs H] Suc.prems(1) by auto
  next
    case left
    obtain s rest where IH: "subproof H m ?l False = Some (s # rest)"
      "case strip_ones ((2 * c) * 2 ^ j + m - 1) final of (node, fin) \<Rightarrow>
        consistency_loop H (rest @ mtr H ?r # q) node fin s s =
        consistency_loop H (mtr H ?r # q) (2 * c) (final div 2 ^ j) (mtr H (take m ?l)) (mtr H ?l)"
      using Suc.IH [of ?l m "2 * c" "mtr H ?r # q"] h left Suc.prems b by auto
    have "subproof H m xs False = Some (s # rest @ [mtr H ?r])"
      using subproof_split [OF _ two h(1), of m H False] left IH(1) Suc.prems(1) by simp
    moreover have "take m ?l = take m xs" using left by (simp add: min_def)
    ultimately show ?thesis using IH(2) b f0 by (auto simp: h(4) algebra_simps split: prod.splits)
  next
    case right
    have right': "1 \<le> m - 2 ^ j" "m - 2 ^ j \<le> 2 ^ j" "m - 2 ^ j < 2 ^ j"
      using right Suc.prems(3) by auto
    obtain s rest where IH: "subproof H (m - 2 ^ j) ?r False = Some (s # rest)"
      "case strip_ones ((2 * c + 1) * 2 ^ j + (m - 2 ^ j) - 1) final of (node, fin) \<Rightarrow>
        consistency_loop H (rest @ mtr H ?l # q) node fin s s =
        consistency_loop H (mtr H ?l # q) (2 * c + 1) (final div 2 ^ j) (mtr H (take (m - 2 ^ j) ?r)) (mtr H ?r)"
      using Suc.IH [OF h(3) right'(1,2) disjI1 [OF right'(3)] b(1), of "mtr H ?l # q"] by (elim exE conjE)
    have "subproof H m xs False = Some (s # rest @ [mtr H ?l])"
      using subproof_split [OF _ two h(1), of m H False] right IH(1) Suc.prems(1) by simp
    moreover have "(2 * c + 1) * 2 ^ j + (m - 2 ^ j) - 1 = c * 2 ^ Suc j + m - 1"
      using right by (simp add: algebra_simps)
    ultimately show ?thesis
      using IH(2) b f0 mtr_take_right [OF Suc.prems(1) right(2), of H] Suc.prems(3)
      by (auto simp: h(4) split: prod.splits)
  qed
qed

text \<open>Trees of at least as many leaves as a power of two, seen from the inside.\<close>

lemma consistency_subproof:
  "1 \<le> m \<Longrightarrow> m < length xs \<Longrightarrow>
   \<exists>s rest. subproof H m xs False = Some (s # rest) \<and>
     (case strip_ones (m - 1) (length xs - 1) of (node, fin) \<Rightarrow>
        consistency_loop H rest node fin s s = Some (mtr H (take m xs), mtr H xs))"
proof (induction "length xs" arbitrary: xs m rule: less_induct)
  case less
  then have two: "2 \<le> length xs" by simp
  obtain j where j: "split_point (length xs) = 2 ^ j" "2 ^ j < length xs" "length xs \<le> 2 * 2 ^ j"
    using split_point_power [OF two] .
  let ?l = "take (2 ^ j) xs" and ?r = "drop (2 ^ j) xs"
  have mt: "mtr H xs = node_hash H (mtr H ?l) (mtr H ?r)" using mtr_split [OF two, of H] j(1) by simp
  have one: "(length xs - 1) div 2 ^ j = 1" using j by (intro div_nat_eqI) auto
  note sp = subproof_split [OF _ two j(1), of m H False]
  show ?case
  proof (cases "m \<le> 2 ^ j")
    case True
    obtain s rest where L: "subproof H m ?l False = Some (s # rest)"
      "case strip_ones (0 * 2 ^ j + m - 1) (length xs - 1) of (node, fin) \<Rightarrow>
        consistency_loop H (rest @ [mtr H ?r]) node fin s s =
        consistency_loop H [mtr H ?r] 0 ((length xs - 1) div 2 ^ j) (mtr H (take m ?l)) (mtr H ?l)"
      using consistency_loop_left [of ?l j m 0 "length xs - 1" H "[mtr H ?r]"] True j one less.prems by auto
    have "take m ?l = take m xs" using True by (simp add: min_def)
    moreover have "subproof H m xs False = Some (s # rest @ [mtr H ?r])"
      using sp L(1) True less.prems(2) by simp
    ultimately show ?thesis using L(2) one by (auto simp: mt split: prod.splits)
  next
    case False
    obtain s rest where R: "subproof H (m - 2 ^ j) ?r False = Some (s # rest)"
      "case strip_ones (m - 2 ^ j - 1) (length ?r - 1) of (node, fin) \<Rightarrow>
        consistency_loop H rest node fin s s = Some (mtr H (take (m - 2 ^ j) ?r), mtr H ?r)"
    proof -
      have "length ?r < length xs" "1 \<le> m - 2 ^ j" "m - 2 ^ j < length ?r" using False j less.prems by auto
      from less.hyps [OF this] that show thesis by (elim exE conjE)
    qed
    obtain a b where ab: "strip_ones (m - 2 ^ j - 1) (length ?r - 1) = (a, b)" by fastforce
    obtain J where J: "a \<le> b" "b < 2 ^ J"
      "strip_ones (m - 2 ^ j - 1 + 2 ^ j) (length ?r - 1 + 2 ^ j) = (a + 2 ^ J, b + 2 ^ J)"
    proof -
      have "m - 2 ^ j - 1 < length ?r - 1" "length ?r - 1 < 2 ^ j" using False j less.prems by auto
      from strip_ones_lift [OF this ab] that show thesis by blast
    qed
    have "m - 2 ^ j - 1 + 2 ^ j = m - 1" "length ?r - 1 + 2 ^ j = length xs - 1" using False j by auto
    with J(3) have st: "strip_ones (m - 1) (length xs - 1) = (a + 2 ^ J, b + 2 ^ J)" by simp
    have "take m xs = ?l @ take (m - 2 ^ j) ?r"
      using False by (metis le_add_diff_inverse nat_le_linear take_add)
    moreover have "mtr H (?l @ take (m - 2 ^ j) ?r) = node_hash H (mtr H ?l) (mtr H (take (m - 2 ^ j) ?r))"
      by (rule mtr_append) (use False j less.prems in auto)
    ultimately have old: "mtr H (take m xs) = node_hash H (mtr H ?l) (mtr H (take (m - 2 ^ j) ?r))" by simp
    have "consistency_loop H rest a b s s = Some (mtr H (take (m - 2 ^ j) ?r), mtr H ?r)" using R(2) ab by simp
    from consistency_loop_right [OF this J(1,2), of "mtr H ?l"]
    have "consistency_loop H (rest @ [mtr H ?l]) (a + 2 ^ J) (b + 2 ^ J) s s = Some (mtr H (take m xs), mtr H xs)"
      by (simp add: old mt)
    moreover have "subproof H m xs False = Some (s # rest @ [mtr H ?l])"
      using sp R(1) False less.prems(2) by simp
    ultimately show ?thesis using st by simp
  qed
qed

text \<open>
  The proof handed out (\<open>b = true\<close>) leaves out the old root when the old tree is complete,
  and nothing otherwise.
\<close>

lemma subproof_true:
  assumes "1 \<le> m" "m \<le> length xs" "m = length xs \<longrightarrow> (\<exists>j. m = 2 ^ j)" "subproof H m xs False = Some (s # rest)"
  shows "subproof H m xs True = (if \<exists>j. m = 2 ^ j then Some rest else Some (s # rest))
    \<and> ((\<exists>j. m = 2 ^ j) \<longrightarrow> s = mtr H (take m xs))"
  using assms
proof (induction "length xs" arbitrary: xs rest rule: less_induct)
  case less
  show ?case
  proof (cases "m = length xs")
    case True
    then have "xs \<noteq> []" using less.prems(1) by auto
    then have "subproof H (length xs) xs False = Some [mtr H xs]" by (rule subproof_same)
    moreover have "subproof H (length xs) xs True = Some []" by (simp add: subproof.simps [of H _ xs])
    ultimately show ?thesis using True less.prems by auto
  next
    case False
    then have two: "2 \<le> length xs" using less.prems by simp
    obtain j where j: "split_point (length xs) = 2 ^ j" "2 ^ j < length xs" "length xs \<le> 2 * 2 ^ j"
      using split_point_power [OF two] .
    note sp = subproof_split [OF False two j(1), of H]
    show ?thesis
    proof (cases "m \<le> 2 ^ j")
      case True
      obtain out where out: "subproof H m (take (2 ^ j) xs) False = Some out" "s # rest = out @ [mtr H (drop (2 ^ j) xs)]"
        using sp [of False] True less.prems(4) by (cases "subproof H m (take (2 ^ j) xs) False") auto
      obtain rest' where r': "out = s # rest'" "rest = rest' @ [mtr H (drop (2 ^ j) xs)]"
      proof -
        have "out \<noteq> []"
        proof
          assume "out = []"
          have "1 \<le> m \<and> m < length (take (2 ^ j) xs) \<or> m = length (take (2 ^ j) xs)" using True j less.prems by auto
          with consistency_subproof [of m "take (2 ^ j) xs" H] subproof_same [of "take (2 ^ j) xs" H] out(1) \<open>out = []\<close>
          show False using less.prems(1) by (metis list.distinct(1) list.size(3) not_one_le_zero option.inject)
        qed
        with out(2) that show thesis by (cases out) auto
      qed
      have "subproof H m (take (2 ^ j) xs) True = (if \<exists>j. m = 2 ^ j then Some rest' else Some (s # rest'))
          \<and> ((\<exists>j. m = 2 ^ j) \<longrightarrow> s = mtr H (take m (take (2 ^ j) xs)))"
        using less.hyps [of "take (2 ^ j) xs" rest'] j True out(1) r'(1) less.prems(1) by auto
      moreover have "take m (take (2 ^ j) xs) = take m xs" using True by (simp add: min_def)
      ultimately show ?thesis using sp [of True] True r'(2) by auto
    next
      case notle: False
      have "\<not> (\<exists>i. m = 2 ^ i)"
      proof
        assume "\<exists>i. m = 2 ^ i"
        then obtain i where i: "m = 2 ^ i" by blast
        then have "j < i" "i < Suc j"
          using notle False j less.prems(2) power_strict_increasing_iff [of "2 :: nat" j i]
            power_strict_increasing_iff [of "2 :: nat" i "Suc j"] by auto
        then show False by simp
      qed
      then show ?thesis using sp [of True] sp [of False] notle less.prems(4) by simp
    qed
  qed
qed

lemma strip_ones_zero: "fst (strip_ones (m - 1) final) = 0 \<longleftrightarrow> (\<exists>j. m = 2 ^ j)" if "1 \<le> m"
proof
  assume "\<exists>j. m = 2 ^ j"
  then obtain j where "m = 2 ^ j" by blast
  then show "fst (strip_ones (m - 1) final) = 0" using strip_ones_full [of 0 j final] by simp
next
  assume "fst (strip_ones (m - 1) final) = 0"
  then show "\<exists>j. m = 2 ^ j" using that
  proof (induction m arbitrary: final rule: less_induct)
    case (less m)
    show ?case
    proof (cases "(m - 1) mod 2 = 1")
      case True
      then obtain k where k: "m = 2 * k" "1 \<le> k" by (metis add.commute add_diff_inverse_nat diff_is_0_eq dvd_def
          even_plus_one_iff less.prems(2) less_one not_le odd_iff_mod_2_eq_one Suc_leI gr0I mult_0_right)
      have "strip_ones (m - 1) final = strip_ones (k - 1) (final div 2)"
      proof -
        have "(m - 1) div 2 = k - 1" using k by presburger
        then show ?thesis using strip_ones_step [OF True, of final] by simp
      qed
      then have "\<exists>j. k = 2 ^ j" using less.IH [of k "final div 2"] less.prems(1) k by auto
      then show ?thesis using k(1) by (metis power_Suc)
    next
      case False
      then have "m - 1 = 0" using less.prems(1) by simp
      then have "m = 2 ^ 0" using less.prems(2) by simp
      then show ?thesis ..
    qed
  qed
qed

section \<open>Soundness: a root fixes the path\<close>

text \<open>The inputs the walk hashes on its way.\<close>

fun walk_inputs :: "(bytes \<Rightarrow> cid) \<Rightarrow> cid list \<Rightarrow> nat \<Rightarrow> nat \<Rightarrow> cid \<Rightarrow> bytes set" where
  "walk_inputs H [] node final hash = {}"
| "walk_inputs H (sibling # path) node final hash =
     (if node mod 2 = 1 \<or> node = final
      then insert (node_input sibling hash)
        (let (node, final) = shift_even node final
         in walk_inputs H path (node div 2) (final div 2) (node_hash H sibling hash))
      else insert (node_input hash sibling)
        (walk_inputs H path (node div 2) (final div 2) (node_hash H hash sibling)))"

definition collision :: "(bytes \<Rightarrow> cid) \<Rightarrow> bytes set \<Rightarrow> bytes set \<Rightarrow> bool" where
  "collision H A B \<longleftrightarrow> (\<exists>x\<in>A. \<exists>y\<in>B. x \<noteq> y \<and> H x = H y)"

lemma collision_mono: "collision H A B \<Longrightarrow> A \<subseteq> A' \<Longrightarrow> B \<subseteq> B' \<Longrightarrow> collision H A' B'"
  by (auto simp: collision_def)

lemma collision_insert:
  "collision H {x} {y} \<or> collision H A B \<Longrightarrow> collision H (insert x A) (insert y B)"
  by (auto simp: collision_def)

text \<open>
  Two walks from the same counters to the same root started at the same hash and took the same
  path, or two of the inputs they hashed collide.
\<close>

lemma reconstruct_loop_unique:
  "reconstruct_loop H p node final h = Some r \<Longrightarrow> reconstruct_loop H q node final g = Some r \<Longrightarrow>
   p = q \<and> h = g \<or> collision H (walk_inputs H p node final h) (walk_inputs H q node final g)"
proof (induction p arbitrary: q node final h g)
  case Nil
  then show ?case by (cases q) (auto split: if_splits)
next
  case (Cons s p)
  have f0: "final \<noteq> 0" using Cons.prems(1) by (auto split: if_splits)
  obtain t q' where q: "q = t # q'" using Cons.prems(2) f0 by (cases q) auto
  obtain a b where ab: "shift_even node final = (a, b)" by fastforce
  show ?case
  proof (cases "node mod 2 = 1 \<or> node = final")
    case True
    have "p = q' \<and> node_hash H s h = node_hash H t g
        \<or> collision H (walk_inputs H p (a div 2) (b div 2) (node_hash H s h))
            (walk_inputs H q' (a div 2) (b div 2) (node_hash H t g))"
      by (rule Cons.IH) (use Cons.prems True f0 ab q in simp_all)
    moreover have "node_hash H s h = node_hash H t g \<Longrightarrow> s = t \<and> h = g
        \<or> collision H {node_input s h} {node_input t g}"
      by (auto simp: node_hash_input collision_def)
    moreover have "walk_inputs H (u # r) node final e =
        insert (node_input u e) (walk_inputs H r (a div 2) (b div 2) (node_hash H u e))" for u r e
      using True ab by simp
    ultimately show ?thesis unfolding q using collision_insert by metis
  next
    case False
    have "p = q' \<and> node_hash H h s = node_hash H g t
        \<or> collision H (walk_inputs H p (node div 2) (final div 2) (node_hash H h s))
            (walk_inputs H q' (node div 2) (final div 2) (node_hash H g t))"
      by (rule Cons.IH) (use Cons.prems False f0 q in simp_all)
    moreover have "node_hash H h s = node_hash H g t \<Longrightarrow> s = t \<and> h = g
        \<or> collision H {node_input h s} {node_input g t}"
      by (auto simp: node_hash_input collision_def)
    moreover have "walk_inputs H (u # r) node final e =
        insert (node_input e u) (walk_inputs H r (node div 2) (final div 2) (node_hash H e u))" for u r e
      using False by simp
    ultimately show ?thesis unfolding q using collision_insert by metis
  qed
qed

section \<open>A root fixes the leaves\<close>

function tree_inputs :: "(bytes \<Rightarrow> cid) \<Rightarrow> cid list \<Rightarrow> bytes set" where
  "tree_inputs H leaves =
     (if length leaves \<le> 1 then {}
      else
        (let k = split_point (length leaves) in
         insert (node_input (mtr H (take k leaves)) (mtr H (drop k leaves)))
           (tree_inputs H (take k leaves) \<union> tree_inputs H (drop k leaves))))"
  by pat_completeness auto
termination
proof (relation "measure (\<lambda>(H, leaves). length leaves)", goal_cases)
  case (2 H leaves k)
  then show ?case using split_point_bounds [of "length leaves"] by simp
next
  case (3 H leaves k)
  then show ?case using split_point_bounds [of "length leaves"] by auto
qed simp

declare tree_inputs.simps [simp del]

lemma mtr_unique:
  "length xs = length ys \<Longrightarrow> xs \<noteq> [] \<Longrightarrow> mtr H xs = mtr H ys \<Longrightarrow>
   xs = ys \<or> collision H (tree_inputs H xs) (tree_inputs H ys)"
proof (induction "length xs" arbitrary: xs ys rule: less_induct)
  case less
  show ?case
  proof (cases "length xs \<le> 1")
    case True
    then have "length xs = 1" using less.prems(2) by (cases xs) auto
    then obtain x y where "xs = [x]" "ys = [y]" using less.prems(1) by (metis length_0_conv length_Suc_conv One_nat_def)
    then show ?thesis using less.prems(3) by simp
  next
    case False
    define k where "k = split_point (length xs)"
    have k: "0 < k" "k < length xs" using split_point_bounds [of "length xs"] False by (auto simp: k_def)
    have mt: "mtr H zs = node_hash H (mtr H (take k zs)) (mtr H (drop k zs))"
      "tree_inputs H zs = insert (node_input (mtr H (take k zs)) (mtr H (drop k zs)))
         (tree_inputs H (take k zs) \<union> tree_inputs H (drop k zs))" if "length zs = length xs" for zs
      using mtr_split [of zs H] tree_inputs.simps [of H zs] that False by (simp_all add: k_def Let_def)
    note x = mt [of xs, OF refl] and y = mt [of ys, OF less.prems(1) [symmetric]]
    show ?thesis
    proof (cases "mtr H (take k xs) = mtr H (take k ys) \<and> mtr H (drop k xs) = mtr H (drop k ys)")
      case True
      have "take k xs = take k ys \<or> collision H (tree_inputs H (take k xs)) (tree_inputs H (take k ys))"
        by (rule less.hyps) (use True k less.prems in auto)
      moreover have "drop k xs = drop k ys \<or> collision H (tree_inputs H (drop k xs)) (tree_inputs H (drop k ys))"
        by (rule less.hyps) (use True k less.prems in auto)
      ultimately consider "take k xs = take k ys" "drop k xs = drop k ys"
        | "collision H (tree_inputs H (take k xs)) (tree_inputs H (take k ys))"
        | "collision H (tree_inputs H (drop k xs)) (tree_inputs H (drop k ys))" by blast
      then show ?thesis
      proof cases
        case 1
        then show ?thesis by (metis append_take_drop_id)
      next
        case 2
        then have "collision H (tree_inputs H xs) (tree_inputs H ys)"
          by (rule collision_mono) (auto simp: x(2) y(2))
        then show ?thesis ..
      next
        case 3
        then have "collision H (tree_inputs H xs) (tree_inputs H ys)"
          by (rule collision_mono) (auto simp: x(2) y(2))
        then show ?thesis ..
      qed
    next
      case False
      then have "node_input (mtr H (take k xs)) (mtr H (drop k xs)) \<noteq> node_input (mtr H (take k ys)) (mtr H (drop k ys))"
        by auto
      moreover have "H (node_input (mtr H (take k xs)) (mtr H (drop k xs))) =
          H (node_input (mtr H (take k ys)) (mtr H (drop k ys)))"
        using less.prems(3) x(1) y(1) by (simp add: node_hash_input)
      ultimately show ?thesis unfolding x(2) y(2) collision_def by blast
    qed
  qed
qed

end
