(* ===== verification/Tile_Log.thy ===== *)
theory Tile_Log
  imports Merkle
begin

text \<open>
  The in-memory ledger: \<open>TileLog\<close> of \<open>src/crates/gx-log/src/tile.rs\<close>, with its cache of
  the roots of full tiles, and the crate's error type (\<open>src/crates/gx-log/src/lib.rs\<close>).
  \<open>log_ok\<close> is the invariant: dense indices, leaf hashes that are the hashes of the entries, and
  a cache that holds the root of every full tile. The cached computations \<open>mth_range\<close> and
  \<open>walk_to_root\<close> are shown equal to the tree functions of \<open>Merkle\<close>.

  A panic (\<open>expect\<close>, an index out of range) is the error \<open>LogPanic\<close>.
\<close>

section \<open>Data\<close>

record ledger_leaf =
  leaf_index :: nat
  leaf_receipt :: cid
  leaf_transformation :: transformation_id

record ledger_entry =
  appended_at :: timestamp
  entry_index :: nat
  leaf_cid :: cid
  entry_receipt :: cid
  entry_transformation :: transformation_id

record tile =
  tile_hashes :: "cid list"
  tile_index :: nat
  tile_level :: nat
  tile_width :: nat

record tile_log =
  log_entries :: "ledger_entry list"
  log_leaves :: "cid list"
  log_tile_roots :: "cid list"

datatype log_error =
    Canon canon_error
  | OutOfRange nat nat
  | Malformed
  | Io string
  | Conflict transformation_id cid cid
  | LogPanic

definition TILE_WIDTH :: nat where
  "TILE_WIDTH = 256"

section \<open>Operations\<close>

definition entry_leaf :: "ledger_entry \<Rightarrow> ledger_leaf" where
  "entry_leaf e = \<lparr>leaf_index = entry_index e, leaf_receipt = entry_receipt e,
     leaf_transformation = entry_transformation e\<rparr>"

definition leaf_hash :: "(bytes \<Rightarrow> cid) \<Rightarrow> (ledger_leaf \<Rightarrow> string + bytes) \<Rightarrow> ledger_leaf \<Rightarrow> log_error + cid" where
  "leaf_hash H tv leaf = map_err Canon (mint_leaf H tv leaf)"

definition new_log :: tile_log where
  "new_log = \<lparr>log_entries = [], log_leaves = [], log_tile_roots = []\<rparr>"

definition log_len :: "tile_log \<Rightarrow> nat" where
  "log_len log = length (log_entries log)"

definition log_is_empty :: "tile_log \<Rightarrow> bool" where
  "log_is_empty log = (log_entries log = [])"

definition log_entry :: "tile_log \<Rightarrow> nat \<Rightarrow> ledger_entry option" where
  "log_entry log index =
     (if index < length (log_entries log) then Some (log_entries log ! index) else None)"

definition stage ::
  "(bytes \<Rightarrow> cid) \<Rightarrow> (ledger_leaf \<Rightarrow> string + bytes) \<Rightarrow> tile_log \<Rightarrow> transformation_id \<Rightarrow> cid \<Rightarrow> timestamp
    \<Rightarrow> log_error + ledger_entry" where
  "stage H tv log transformation receipt_digest at =
     (let index = log_len log;
          leaf = \<lparr>leaf_index = index, leaf_receipt = receipt_digest, leaf_transformation = transformation\<rparr>
      in and_then (leaf_hash H tv leaf) (\<lambda>c.
         Inr \<lparr>appended_at = at, entry_index = index, leaf_cid = c, entry_receipt = receipt_digest,
              entry_transformation = transformation\<rparr>))"

definition log_commit :: "(bytes \<Rightarrow> cid) \<Rightarrow> ledger_entry \<Rightarrow> tile_log \<Rightarrow> log_error + tile_log" where
  "log_commit H entry log =
     (let leaves = log_leaves log @ [leaf_cid entry];
          entries = log_entries log @ [entry]
      in if length leaves mod TILE_WIDTH = 0
         then and_then (ok_or LogPanic (mth H (drop (length leaves - TILE_WIDTH) leaves))) (\<lambda>root.
           Inr \<lparr>log_entries = entries, log_leaves = leaves, log_tile_roots = log_tile_roots log @ [root]\<rparr>)
         else Inr \<lparr>log_entries = entries, log_leaves = leaves, log_tile_roots = log_tile_roots log\<rparr>)"

definition log_append ::
  "(bytes \<Rightarrow> cid) \<Rightarrow> (ledger_leaf \<Rightarrow> string + bytes) \<Rightarrow> tile_log \<Rightarrow> transformation_id \<Rightarrow> cid \<Rightarrow> timestamp
    \<Rightarrow> log_error + tile_log \<times> ledger_entry" where
  "log_append H tv log transformation receipt_digest at =
     and_then (stage H tv log transformation receipt_digest at) (\<lambda>entry.
     and_then (log_commit H entry log) (\<lambda>log'.
     Inr (log', last (log_entries log'))))"

text \<open>
  \<open>mth_range\<close>: a range of whole tiles is answered from the cache, any other range is split as the
  tree splits it.
\<close>

function mth_range :: "(bytes \<Rightarrow> cid) \<Rightarrow> tile_log \<Rightarrow> nat \<Rightarrow> nat \<Rightarrow> log_error + cid option" where
  "mth_range H log start end =
     (if end < start then Inr None
      else if end - start = 0 then Inr None
      else if end - start = 1
      then (if start < length (log_leaves log) then Inr (Some (log_leaves log ! start)) else Inl LogPanic)
      else if start mod TILE_WIDTH = 0 \<and> (end - start) mod TILE_WIDTH = 0
              \<and> end div TILE_WIDTH \<le> length (log_tile_roots log)
      then Inr (mth H (subslice (log_tile_roots log) (start div TILE_WIDTH) (end div TILE_WIDTH)))
      else
        (let k = split_point (end - start) in
         and_then (mth_range H log start (start + k)) (\<lambda>l.
         case l of None \<Rightarrow> Inr None | Some left \<Rightarrow>
         and_then (mth_range H log (start + k) end) (\<lambda>r.
         case r of None \<Rightarrow> Inr None | Some right \<Rightarrow> Inr (Some (node_hash H left right))))))"
  by pat_completeness auto
termination
proof (relation "measure (\<lambda>(H, log, start, end). end - start)", goal_cases)
  case (2 H log start "end" k)
  from 2(2,3) have "2 \<le> end - start" by presburger
  with 2 show ?case using split_point_bounds [of "end - start"] by simp
next
  case (3 H log start "end" k)
  from 3(2,3) have "2 \<le> end - start" by presburger
  with 3 show ?case using split_point_bounds [of "end - start"] by auto
qed simp

declare mth_range.simps [simp del]

definition log_root :: "(bytes \<Rightarrow> cid) \<Rightarrow> tile_log \<Rightarrow> log_error + cid option" where
  "log_root H log = mth_range H log 0 (length (log_leaves log))"

definition root_at :: "(bytes \<Rightarrow> cid) \<Rightarrow> tile_log \<Rightarrow> nat \<Rightarrow> log_error + cid option" where
  "root_at H log tree_size =
     (if tree_size \<ge> u64_limit then Inr None
      else if tree_size = 0 \<or> tree_size > length (log_leaves log) then Inr None
      else mth_range H log 0 tree_size)"

definition expect_root :: "log_error + cid option \<Rightarrow> log_error + cid" where
  "expect_root r = and_then r (ok_or LogPanic)"

function walk_to_root :: "(bytes \<Rightarrow> cid) \<Rightarrow> tile_log \<Rightarrow> nat \<Rightarrow> nat \<Rightarrow> nat \<Rightarrow> log_error + cid list" where
  "walk_to_root H log index start end =
     (if end < start then Inl LogPanic
      else if end - start \<le> 1 then Inr []
      else
        (let k = split_point (end - start) in
         if index < start + k
         then and_then (walk_to_root H log index start (start + k)) (\<lambda>out.
              and_then (expect_root (mth_range H log (start + k) end)) (\<lambda>root. Inr (out @ [root])))
         else and_then (walk_to_root H log index (start + k) end) (\<lambda>out.
              and_then (expect_root (mth_range H log start (start + k))) (\<lambda>root. Inr (out @ [root])))))"
  by pat_completeness auto
termination
proof (relation "measure (\<lambda>(H, log, index, start, end). end - start)", goal_cases)
  case (2 H log index start "end" k)
  then show ?case using split_point_bounds [of "end - start"] by simp
next
  case (3 H log index start "end" k)
  then show ?case using split_point_bounds [of "end - start"] by auto
qed simp

declare walk_to_root.simps [simp del]

definition audit_path_at :: "(bytes \<Rightarrow> cid) \<Rightarrow> tile_log \<Rightarrow> nat \<Rightarrow> nat \<Rightarrow> log_error + cid list" where
  "audit_path_at H log index tree_size = walk_to_root H log index 0 tree_size"

definition subtree_span :: "nat \<Rightarrow> nat option" where
  "subtree_span height = (if height \<ge> 64 then None else Some (push_bit height 1))"

definition tile_at :: "(bytes \<Rightarrow> cid) \<Rightarrow> tile_log \<Rightarrow> nat \<Rightarrow> nat \<Rightarrow> log_error + tile option" where
  "tile_at H log level index =
     (case subtree_span level of
        None \<Rightarrow> Inr None
      | Some span \<Rightarrow>
          (let complete = length (log_leaves log) div span; start = index * TILE_WIDTH in
           if start \<ge> u64_limit then Inr None
           else if start \<ge> complete then Inr None
           else
             (let end = min complete (start + TILE_WIDTH) in
              and_then (traverse (\<lambda>i. ok_or LogPanic (mth H (subslice (log_leaves log) (i * span) ((i + 1) * span))))
                          [start..<end]) (\<lambda>hashes.
              Inr (Some \<lparr>tile_hashes = hashes, tile_index = index, tile_level = level,
                         tile_width = length hashes\<rparr>)))))"

section \<open>The invariant\<close>

definition block_root :: "(bytes \<Rightarrow> cid) \<Rightarrow> cid list \<Rightarrow> nat \<Rightarrow> cid" where
  "block_root H leaves i = mtr H (subslice leaves (i * TILE_WIDTH) ((i + 1) * TILE_WIDTH))"

definition cache_ok :: "(bytes \<Rightarrow> cid) \<Rightarrow> tile_log \<Rightarrow> bool" where
  "cache_ok H log \<longleftrightarrow>
     log_tile_roots log = map (block_root H (log_leaves log)) [0..<length (log_leaves log) div TILE_WIDTH]"

definition log_ok :: "(bytes \<Rightarrow> cid) \<Rightarrow> (ledger_leaf \<Rightarrow> string + bytes) \<Rightarrow> tile_log \<Rightarrow> bool" where
  "log_ok H tv log \<longleftrightarrow>
     log_leaves log = map leaf_cid (log_entries log)
     \<and> (\<forall>i < length (log_entries log). entry_index (log_entries log ! i) = i
          \<and> leaf_hash H tv (entry_leaf (log_entries log ! i)) = Inr (leaf_cid (log_entries log ! i)))
     \<and> cache_ok H log"


section \<open>The cache\<close>

lemma TILE_WIDTH_power: "TILE_WIDTH = 2 ^ 8"
  by (simp add: TILE_WIDTH_def)

lemma subslice_map: "subslice (map f xs) a b = map f (subslice xs a b)"
  by (simp add: subslice_def take_map drop_map)

lemma subslice_upt: "b \<le> n \<Longrightarrow> subslice [0..<n] a b = [a..<b]"
  by (cases "a \<le> b") (simp_all add: subslice_def take_upt)

text \<open>Whole tiles: the root over the cached roots is the root over the leaves.\<close>

lemma concat_blocks:
  "a \<le> b \<Longrightarrow> b * w \<le> length xs \<Longrightarrow>
   concat (map (\<lambda>i. subslice xs (i * w) ((i + 1) * w)) [a..<b]) = subslice xs (a * w) (b * w)"
proof (induction b)
  case (Suc b)
  show ?case
  proof (cases "a = Suc b")
    case False
    then have "a \<le> b" using Suc.prems(1) by simp
    moreover have "subslice xs (a * w) (Suc b * w) = subslice xs (a * w) (b * w) @ subslice xs (b * w) (Suc b * w)"
      by (rule subslice_split) (use \<open>a \<le> b\<close> in auto)
    ultimately show ?thesis using Suc by simp
  qed simp
qed simp

lemma cached_root:
  assumes "cache_ok H log" "a < b" "b * TILE_WIDTH \<le> length (log_leaves log)"
  shows "mth H (subslice (log_tile_roots log) a b) = Some (mtr H (subslice (log_leaves log) (a * TILE_WIDTH) (b * TILE_WIDTH)))"
proof -
  let ?blocks = "map (\<lambda>i. subslice (log_leaves log) (i * TILE_WIDTH) ((i + 1) * TILE_WIDTH)) [a..<b]"
  have bn: "b \<le> length (log_leaves log) div TILE_WIDTH"
    using assms(3) by (simp add: TILE_WIDTH_def less_eq_div_iff_mult_less_eq)
  then have roots: "subslice (log_tile_roots log) a b = map (mtr H) ?blocks"
    using assms(1) by (simp add: cache_ok_def subslice_map subslice_upt block_root_def [abs_def])
  have "\<forall>x\<in>set ?blocks. length x = 2 ^ 8"
  proof
    fix x assume "x \<in> set ?blocks"
    then obtain i where i: "i < b" "x = subslice (log_leaves log) (i * TILE_WIDTH) ((i + 1) * TILE_WIDTH)" by auto
    have "(i + 1) * TILE_WIDTH \<le> b * TILE_WIDTH" using i(1) by (intro mult_le_mono) auto
    then show "length x = 2 ^ 8" using assms(3) i(2) by (simp add: TILE_WIDTH_def)
  qed
  then have "mtr H (concat ?blocks) = mtr H (map (mtr H) ?blocks)" using assms(2) by (intro mtr_blocks [where j = 8]) simp_all
  then have "mtr H (subslice (log_tile_roots log) a b) = mtr H (subslice (log_leaves log) (a * TILE_WIDTH) (b * TILE_WIDTH))"
    using concat_blocks [of a b TILE_WIDTH "log_leaves log"] assms roots by simp
  moreover have "subslice (log_tile_roots log) a b \<noteq> []" using roots assms(2) by simp
  ultimately show ?thesis by (simp add: mth_mtr)
qed

lemma mth_range_correct:
  assumes "cache_ok H log"
  shows "start < end \<Longrightarrow> end \<le> length (log_leaves log) \<Longrightarrow>
    mth_range H log start end = Inr (Some (mtr H (subslice (log_leaves log) start end)))"
proof (induction "end - start" arbitrary: start "end" rule: less_induct)
  case less
  let ?n = "end - start" and ?ls = "log_leaves log"
  show ?case
  proof (cases "?n = 1")
    case True
    then have "subslice ?ls start end = [?ls ! start]"
      using less.prems by (simp add: subslice_def take_Suc_conv_app_nth hd_drop_conv_nth take_Suc Suc_le_eq)
    with True less.prems show ?thesis by (simp add: mth_range.simps [of H log start "end"])
  next
    case False
    then have two: "2 \<le> ?n" using less.prems by simp
    show ?thesis
    proof (cases "start mod TILE_WIDTH = 0 \<and> ?n mod TILE_WIDTH = 0 \<and> end div TILE_WIDTH \<le> length (log_tile_roots log)")
      case True
      then have "end mod TILE_WIDTH = 0" using less.prems(1)
        by (metis le_add_diff_inverse less_imp_le mod_add_left_eq mod_add_right_eq add_0 mod_0)
      then have e: "end div TILE_WIDTH * TILE_WIDTH = end" "start div TILE_WIDTH * TILE_WIDTH = start"
        using True by auto
      then have "start div TILE_WIDTH < end div TILE_WIDTH" using less.prems(1) by (metis mult_less_cancel2)
      with cached_root [OF assms this] True e less.prems two show ?thesis
        by (simp add: mth_range.simps [of H log start "end"])
    next
      case nocache: False
      define k where "k = split_point ?n"
      have k: "0 < k" "k < ?n" using split_point_bounds [OF two] by (auto simp: k_def)
      have len: "length (subslice ?ls start end) = ?n" using less.prems by simp
      have "take k (subslice ?ls start end) = subslice ?ls start (start + k)"
        "drop k (subslice ?ls start end) = subslice ?ls (start + k) end"
        using k by (auto simp: take_subslice drop_subslice min_def)
      then have "mtr H (subslice ?ls start end) =
          node_hash H (mtr H (subslice ?ls start (start + k))) (mtr H (subslice ?ls (start + k) end))"
        using mtr_split [of "subslice ?ls start end" H] two unfolding len k_def [symmetric] by simp
      moreover have "mth_range H log start (start + k) = Inr (Some (mtr H (subslice ?ls start (start + k))))"
        by (rule less.hyps) (use k less.prems in auto)
      moreover have "mth_range H log (start + k) end = Inr (Some (mtr H (subslice ?ls (start + k) end)))"
        by (rule less.hyps) (use k less.prems in auto)
      ultimately show ?thesis using False nocache less.prems two
        by (auto simp: mth_range.simps [of H log start "end"] k_def [symmetric] Let_def)
    qed
  qed
qed

lemma audit_path_small: "length xs \<le> 1 \<Longrightarrow> audit_path H i xs = []"
  by (simp add: audit_path.simps)

lemma walk_to_root_correct:
  assumes "cache_ok H log"
  shows "start < end \<Longrightarrow> end \<le> length (log_leaves log) \<Longrightarrow> start \<le> index \<Longrightarrow> index < end \<Longrightarrow>
    walk_to_root H log index start end = Inr (audit_path H (index - start) (subslice (log_leaves log) start end))"
proof (induction "end - start" arbitrary: start "end" rule: less_induct)
  case less
  let ?n = "end - start" and ?ls = "log_leaves log"
  have len: "length (subslice ?ls start end) = ?n" using less.prems by simp
  show ?case
  proof (cases "?n \<le> 1")
    case True
    then show ?thesis using less.prems
      by (simp add: walk_to_root.simps [of H log index start "end"] audit_path_small)
  next
    case False
    then have two: "2 \<le> ?n" by simp
    define k where "k = split_point ?n"
    have k: "0 < k" "k < ?n" using split_point_bounds [OF two] by (auto simp: k_def)
    have td: "take k (subslice ?ls start end) = subslice ?ls start (start + k)"
      "drop k (subslice ?ls start end) = subslice ?ls (start + k) end"
      using k by (auto simp: take_subslice drop_subslice min_def)
    have roots: "mth_range H log start (start + k) = Inr (Some (mtr H (subslice ?ls start (start + k))))"
      "mth_range H log (start + k) end = Inr (Some (mtr H (subslice ?ls (start + k) end)))"
      using mth_range_correct [OF assms, of start "start + k"] mth_range_correct [OF assms, of "start + k" "end"]
        k less.prems by auto
    have ap: "audit_path H (index - start) (subslice ?ls start end) =
        (if index - start < k then audit_path H (index - start) (subslice ?ls start (start + k)) @ [mtr H (subslice ?ls (start + k) end)]
         else audit_path H (index - start - k) (subslice ?ls (start + k) end) @ [mtr H (subslice ?ls start (start + k))])"
      using False unfolding audit_path.simps [of H "index - start" "subslice ?ls start end"] len Let_def
        k_def [symmetric] td by simp
    show ?thesis
    proof (cases "index < start + k")
      case True
      have "walk_to_root H log index start (start + k) = Inr (audit_path H (index - start) (subslice ?ls start (start + k)))"
        by (rule less.hyps) (use k less.prems True in auto)
      with True False less.prems show ?thesis
        by (simp add: walk_to_root.simps [of H log index start "end"] k_def [symmetric] Let_def roots ap
            expect_root_def less_diff_conv2)
    next
      case False': False
      have "walk_to_root H log index (start + k) end = Inr (audit_path H (index - (start + k)) (subslice ?ls (start + k) end))"
        by (rule less.hyps) (use k less.prems False' in auto)
      with False' False less.prems show ?thesis
        by (simp add: walk_to_root.simps [of H log index start "end"] k_def [symmetric] Let_def roots ap
            expect_root_def less_diff_conv2)
    qed
  qed
qed

section \<open>Preservation\<close>

lemma log_okD:
  assumes "log_ok H tv log"
  shows "log_leaves log = map leaf_cid (log_entries log)" "length (log_leaves log) = log_len log" "cache_ok H log"
    "i < log_len log \<Longrightarrow> entry_index (log_entries log ! i) = i"
    "i < log_len log \<Longrightarrow> leaf_hash H tv (entry_leaf (log_entries log ! i)) = Inr (log_leaves log ! i)"
  using assms by (auto simp: log_ok_def log_len_def)

lemma new_log_ok [simp]: "log_ok H tv new_log"
  by (simp add: log_ok_def new_log_def cache_ok_def)

lemma stage_Inr:
  assumes "stage H tv log t r at = Inr e"
  shows "entry_index e = log_len log" "entry_receipt e = r" "entry_transformation e = t" "appended_at e = at"
    "leaf_hash H tv (entry_leaf e) = Inr (leaf_cid e)"
  using assms by (auto simp: stage_def Let_def and_then_eq_Inr entry_leaf_def)

lemma block_root_append:
  assumes "(i + 1) * TILE_WIDTH \<le> length xs"
  shows "block_root H (xs @ ys) i = block_root H xs i"
proof -
  have "subslice (xs @ ys) (i * TILE_WIDTH) ((i + 1) * TILE_WIDTH) = subslice xs (i * TILE_WIDTH) ((i + 1) * TILE_WIDTH)"
    using assms by (simp add: subslice_def)
  then show ?thesis by (simp add: block_root_def)
qed

lemma log_commit_total:
  assumes "cache_ok H log"
  obtains log' where "log_commit H e log = Inr log'" "cache_ok H log'"
    "log_entries log' = log_entries log @ [e]" "log_leaves log' = log_leaves log @ [leaf_cid e]"
proof -
  define ls where "ls = log_leaves log @ [leaf_cid e]"
  define n where "n = length (log_leaves log)"
  have ln: "length ls = Suc n" by (simp add: ls_def n_def)
  have keep: "map (block_root H ls) [0..<n div TILE_WIDTH] = log_tile_roots log"
  proof -
    have "(i + 1) * TILE_WIDTH \<le> n" if "i < n div TILE_WIDTH" for i
      using that by (metis Suc_eq_plus1 Suc_leI TILE_WIDTH_def less_eq_div_iff_mult_less_eq zero_less_numeral)
    then show ?thesis using assms by (simp add: cache_ok_def n_def ls_def block_root_append)
  qed
  show thesis
  proof (cases "Suc n mod TILE_WIDTH = 0")
    case True
    have dv: "Suc n div TILE_WIDTH = Suc (n div TILE_WIDTH)" using True by (simp add: TILE_WIDTH_def div_Suc)
    have full: "(n div TILE_WIDTH + 1) * TILE_WIDTH = Suc n"
      using True dv by (metis Suc_eq_plus1 dvd_div_mult_self mod_0_imp_dvd)
    then have st: "Suc n - TILE_WIDTH = n div TILE_WIDTH * TILE_WIDTH" by simp
    have "subslice ls (n div TILE_WIDTH * TILE_WIDTH) (Suc n) = drop (Suc n - TILE_WIDTH) ls"
      unfolding st by (simp add: subslice_def ln)
    then have br: "block_root H ls (n div TILE_WIDTH) = mtr H (drop (Suc n - TILE_WIDTH) ls)"
      by (simp only: block_root_def full)
    have ne: "drop (Suc n - TILE_WIDTH) ls \<noteq> []" by (simp add: ln TILE_WIDTH_def)
    let ?log = "\<lparr>log_entries = log_entries log @ [e], log_leaves = ls,
        log_tile_roots = log_tile_roots log @ [mtr H (drop (Suc n - TILE_WIDTH) ls)]\<rparr>"
    have "log_commit H e log = Inr ?log"
      using True ne by (simp add: log_commit_def Let_def ls_def [symmetric] ln mth_mtr)
    moreover have "cache_ok H ?log" using keep br by (simp add: cache_ok_def ln dv)
    ultimately show thesis using that by (simp add: ls_def)
  next
    case False
    let ?log = "\<lparr>log_entries = log_entries log @ [e], log_leaves = ls, log_tile_roots = log_tile_roots log\<rparr>"
    have "log_commit H e log = Inr ?log"
      using False by (simp add: log_commit_def Let_def ls_def [symmetric] ln)
    moreover have "Suc n div TILE_WIDTH = n div TILE_WIDTH" using False by (simp add: div_Suc)
    then have "cache_ok H ?log" using keep by (simp add: cache_ok_def ln)
    ultimately show thesis using that by (simp add: ls_def)
  qed
qed

lemma log_append_Inr:
  assumes "log_ok H tv log" "log_append H tv log t r at = Inr (log', e)"
  shows "log_ok H tv log'" "log_entries log' = log_entries log @ [e]" "log_leaves log' = log_leaves log @ [leaf_cid e]"
    "stage H tv log t r at = Inr e"
proof -
  from assms(2) obtain e' where st: "stage H tv log t r at = Inr e'"
    and cm: "log_commit H e' log = Inr log'" and l: "e = last (log_entries log')"
    by (auto simp: log_append_def and_then_eq_Inr)
  obtain log'' where c: "log_commit H e' log = Inr log''" "cache_ok H log''"
      "log_entries log'' = log_entries log @ [e']" "log_leaves log'' = log_leaves log @ [leaf_cid e']"
    using log_commit_total [OF log_okD(3) [OF assms(1)]] by blast
  have same: "log'' = log'" "e' = e" using c cm l by auto
  show "log_entries log' = log_entries log @ [e]" "log_leaves log' = log_leaves log @ [leaf_cid e]"
    "stage H tv log t r at = Inr e" using c st same by auto
  show "log_ok H tv log'"
    using assms(1) c stage_Inr [OF st] unfolding same log_ok_def
    by (auto simp: nth_append log_len_def less_Suc_eq)
qed

lemma log_append_total:
  assumes "log_ok H tv log" "stage H tv log t r at = Inr e"
  shows "\<exists>log'. log_append H tv log t r at = Inr (log', e)"
proof -
  obtain log' where c: "log_commit H e log = Inr log'" "log_entries log' = log_entries log @ [e]"
    using log_commit_total [OF log_okD(3) [OF assms(1)]] by blast
  then show ?thesis using assms(2) by (simp add: log_append_def)
qed

section \<open>Roots\<close>

lemma root_at_correct:
  assumes "cache_ok H log" "0 < n" "n \<le> length (log_leaves log)" "n < u64_limit"
  shows "root_at H log n = Inr (Some (mtr H (take n (log_leaves log))))"
  using mth_range_correct [OF assms(1,2,3)] assms by (simp add: root_at_def subslice_def)

lemma log_root_correct:
  assumes "cache_ok H log"
  shows "log_root H log = Inr (mth H (log_leaves log))"
proof (cases "log_leaves log = []")
  case True
  then show ?thesis by (simp add: log_root_def mth_range.simps)
next
  case False
  then show ?thesis using mth_range_correct [OF assms, of 0 "length (log_leaves log)"]
    by (simp add: log_root_def subslice_def mth_mtr)
qed

section \<open>Append-only logs\<close>

text \<open>A sequence of appends, stopping at the first error.\<close>

fun append_all :: "('l \<Rightarrow> 'a \<Rightarrow> 'e + 'l \<times> 'i) \<Rightarrow> 'l \<Rightarrow> 'a list \<Rightarrow> 'e + 'l \<times> 'i list" where
  "append_all app l [] = Inr (l, [])"
| "append_all app l (a # as) =
     and_then (app l a) (\<lambda>(l1, i). and_then (append_all app l1 as) (\<lambda>(l2, is). Inr (l2, i # is)))"

text \<open>
  What the users of a log rely on: an append keeps the invariant and adds one item at the end,
  and the root at a size is a function of the items below it.
\<close>

locale append_log =
  fixes ok :: "'l \<Rightarrow> bool"
    and items :: "'l \<Rightarrow> 'i list"
    and append :: "'l \<Rightarrow> 'a \<Rightarrow> 'e + 'l \<times> 'i"
    and root :: "'l \<Rightarrow> nat \<Rightarrow> 'r"
  assumes append_ok: "ok l \<Longrightarrow> append l a = Inr (l', i) \<Longrightarrow> ok l' \<and> items l' = items l @ [i]"
    and root_prefix: "ok l \<Longrightarrow> ok l' \<Longrightarrow> n \<le> length (items l) \<Longrightarrow> n \<le> length (items l') \<Longrightarrow>
      take n (items l) = take n (items l') \<Longrightarrow> root l n = root l' n"
begin

lemma appends_extend:
  "ok l \<Longrightarrow> append_all append l as = Inr (l', is) \<Longrightarrow> ok l' \<and> items l' = items l @ is"
proof (induction as arbitrary: l "is")
  case (Cons a as)
  from Cons.prems(2) obtain l1 i is' where s: "append l a = Inr (l1, i)"
    "append_all append l1 as = Inr (l', is')" "is = i # is'"
    by (auto simp: and_then_eq_Inr)
  then show ?case using Cons.IH [of l1 is'] append_ok [OF Cons.prems(1) s(1)] by simp
qed simp

lemma appends_root_stable:
  assumes "ok l" "append_all append l as = Inr (l', is)" "n \<le> length (items l)"
  shows "root l' n = root l n"
  using appends_extend [OF assms(1,2)] assms by (intro root_prefix) auto

lemma appends_items_stable:
  assumes "ok l" "append_all append l as = Inr (l', is)" "j < length (items l)"
  shows "items l' ! j = items l ! j"
  using appends_extend [OF assms(1,2)] assms(3) by (simp add: nth_append)

end

definition append_request ::
  "(bytes \<Rightarrow> cid) \<Rightarrow> (ledger_leaf \<Rightarrow> string + bytes) \<Rightarrow> tile_log \<Rightarrow> transformation_id \<times> cid \<times> timestamp
    \<Rightarrow> log_error + tile_log \<times> ledger_entry" where
  "append_request H tv log req = (case req of (t, r, at) \<Rightarrow> log_append H tv log t r at)"

lemma root_at_prefix:
  assumes "log_ok H tv log" "log_ok H tv log'" "n \<le> log_len log" "n \<le> log_len log'"
    "take n (log_entries log) = take n (log_entries log')"
  shows "root_at H log n = root_at H log' n"
proof -
  have "take n (log_leaves log) = take n (log_leaves log')"
    using assms log_okD(1) by (metis take_map)
  then show ?thesis
    using root_at_correct [OF log_okD(3) [OF assms(1)], of n] root_at_correct [OF log_okD(3) [OF assms(2)], of n]
      assms log_okD(2) by (cases "n = 0"; cases "n < u64_limit") (auto simp: root_at_def)
qed

interpretation tile_log: append_log "log_ok H tv" log_entries "append_request H tv" "root_at H" for H tv
proof unfold_locales
  show "log_ok H tv log' \<and> log_entries log' = log_entries log @ [e]"
    if "log_ok H tv log" "append_request H tv log a = Inr (log', e)" for log a log' e
    using that log_append_Inr [OF that(1)] by (auto simp: append_request_def split: prod.splits)
  show "root_at H log n = root_at H log' n"
    if "log_ok H tv log" "log_ok H tv log'" "n \<le> length (log_entries log)" "n \<le> length (log_entries log')"
      "take n (log_entries log) = take n (log_entries log')" for log log' n
    using root_at_prefix [OF that(1,2)] that by (simp add: log_len_def)
qed

section \<open>Tiles\<close>

lemma tile_at_correct:
  assumes "level < 64" "index * TILE_WIDTH < length (log_leaves log) div 2 ^ level" "length (log_leaves log) < u64_limit"
  shows "tile_at H log level index =
    (let n = min (length (log_leaves log) div 2 ^ level) (index * TILE_WIDTH + TILE_WIDTH) in
     Inr (Some \<lparr>tile_hashes = map (\<lambda>i. mtr H (subslice (log_leaves log) (i * 2 ^ level) ((i + 1) * 2 ^ level)))
                   [index * TILE_WIDTH..<n],
                tile_index = index, tile_level = level, tile_width = n - index * TILE_WIDTH\<rparr>))"
proof -
  define complete where "complete = length (log_leaves log) div 2 ^ level"
  define n where "n = min complete (index * TILE_WIDTH + TILE_WIDTH)"
  have "ok_or LogPanic (mth H (subslice (log_leaves log) (i * 2 ^ level) ((i + 1) * 2 ^ level))) =
      Inr (mtr H (subslice (log_leaves log) (i * 2 ^ level) ((i + 1) * 2 ^ level)))" if "i < n" for i
  proof -
    have "i < complete" using that by (simp add: n_def)
    then have "(i + 1) * 2 ^ level \<le> complete * 2 ^ level" by (intro mult_le_mono1) simp
    also have "\<dots> \<le> length (log_leaves log)" by (simp add: complete_def)
    finally have "(i + 1) * 2 ^ level \<le> length (log_leaves log)" .
    then have "length (subslice (log_leaves log) (i * 2 ^ level) ((i + 1) * 2 ^ level)) = 2 ^ level" by simp
    then have "subslice (log_leaves log) (i * 2 ^ level) ((i + 1) * 2 ^ level) \<noteq> []"
      by (metis list.size(3) power_not_zero zero_neq_numeral)
    then show ?thesis by (simp add: mth_mtr)
  qed
  then have tr: "traverse (\<lambda>i. ok_or LogPanic (mth H (subslice (log_leaves log) (i * 2 ^ level) ((i + 1) * 2 ^ level))))
      [index * TILE_WIDTH..<n] =
      Inr (map (\<lambda>i. mtr H (subslice (log_leaves log) (i * 2 ^ level) ((i + 1) * 2 ^ level))) [index * TILE_WIDTH..<n])"
    by (intro traverse_total) simp
  have "complete \<le> length (log_leaves log)" "index * TILE_WIDTH < complete"
    using assms(2) by (simp_all add: complete_def)
  then have "\<not> index * TILE_WIDTH \<ge> u64_limit" "\<not> index * TILE_WIDTH \<ge> complete"
    using assms(3) by linarith+
  then show ?thesis using assms(1) tr
    by (simp add: tile_at_def subtree_span_def push_bit_eq_mult Let_def complete_def [symmetric] n_def [symmetric])
qed

section \<open>A concrete log\<close>

text \<open>A constant digest and a constant one-byte encoding, for concrete runs.\<close>

definition sample_cid :: cid where
  "sample_cid = Cid (replicate 32 0)"

definition sample_log :: tile_log where
  "sample_log = \<lparr>log_entries = [\<lparr>appended_at = 7, entry_index = 0, leaf_cid = sample_cid,
       entry_receipt = sample_cid, entry_transformation = sample_cid\<rparr>],
     log_leaves = [sample_cid], log_tile_roots = []\<rparr>"

lemma scan_strict_zero: "scan_strict [0] = Inr ()"
proof -
  have "fits 0 (CUInt 0)" "enc (CUInt 0) = [0]" by (simp_all add: enc_head_def head_byte_def MAX_DEPTH_def)
  then show ?thesis using scan_strict_iff [of "[0]"] by (simp del: fits.simps enc.simps) blast
qed

lemma sample_append:
  "append_request (\<lambda>_. sample_cid) (\<lambda>_. Inr [0]) new_log (sample_cid, sample_cid, 7) =
     Inr (sample_log, log_entries sample_log ! 0)"
  by (simp add: append_request_def log_append_def stage_def leaf_hash_def mint_leaf_def cbor_encode_def
      scan_strict_zero mint_def digest_def log_commit_def TILE_WIDTH_def new_log_def log_len_def sample_log_def Let_def)

lemma sample_log_ok: "log_ok (\<lambda>_. sample_cid) (\<lambda>_. Inr [0]) sample_log"
  using tile_log.append_ok [OF new_log_ok sample_append] by simp

lemma sample_stage: "\<exists>e. stage (\<lambda>_. sample_cid) (\<lambda>_. Inr [0]) log t r at = Inr e"
  by (simp add: stage_def leaf_hash_def mint_leaf_def cbor_encode_def scan_strict_zero Let_def)

lemma sample_logs: "\<exists>log. log_ok (\<lambda>_. sample_cid) (\<lambda>_. Inr [0]) log \<and> log_len log = n"
proof (induction n)
  case 0
  show ?case by (intro exI [of _ new_log] conjI new_log_ok) (simp add: log_len_def new_log_def)
next
  case (Suc n)
  then obtain log where log: "log_ok (\<lambda>_. sample_cid) (\<lambda>_. Inr [0]) log" "log_len log = n" by blast
  then obtain log' e where "log_append (\<lambda>_. sample_cid) (\<lambda>_. Inr [0]) log sample_cid sample_cid 7 = Inr (log', e)"
    using sample_stage log_append_total by metis
  with log_append_Inr [OF log(1) this] log(2) show ?case by (auto simp: log_len_def)
qed

section \<open>Properties\<close>

text \<open>
  C16. The ledger is append-only: after any sequence of appends the invariant holds, the entries
  appended are those returned, in order, every earlier entry is where it was, and the root at every
  size reached before is what it was.
\<close>

theorem ledger_append_only:
  assumes "log_ok H tv log" "append_all (append_request H tv) log reqs = Inr (log', es)"
  shows "log_ok H tv log' \<and> log_entries log' = log_entries log @ es
    \<and> (\<forall>i < log_len log. log_entry log' i = log_entry log i)
    \<and> (\<forall>n \<le> log_len log. root_at H log' n = root_at H log n)"
proof (intro conjI allI impI)
  note e = tile_log.appends_extend [OF assms]
  show "log_ok H tv log'" "log_entries log' = log_entries log @ es" using e by auto
  show "log_entry log' i = log_entry log i" if "i < log_len log" for i
    using that e tile_log.appends_items_stable [OF assms, of i] by (simp add: log_entry_def log_len_def)
  show "root_at H log' n = root_at H log n" if "n \<le> log_len log" for n
    using tile_log.appends_root_stable [OF assms] that by (simp add: log_len_def)
qed

theorem ledger_append_only_witness:
  "\<exists>log' es. append_all (append_request (\<lambda>_. sample_cid) (\<lambda>_. Inr [0])) new_log [(sample_cid, sample_cid, 7)]
      = Inr (log', es)
    \<and> log_ok (\<lambda>_. sample_cid) (\<lambda>_. Inr [0]) log' \<and> log_entries log' = es \<and> length es = 1"
proof -
  have "append_all (append_request (\<lambda>_. sample_cid) (\<lambda>_. Inr [0])) new_log [(sample_cid, sample_cid, 7)]
      = Inr (sample_log, [log_entries sample_log ! 0])"
    using sample_append by simp
  with ledger_append_only [OF new_log_ok this] show ?thesis
    by (intro exI [of _ sample_log] exI [of _ "[log_entries sample_log ! 0]"]) (simp add: sample_log_def new_log_def)
qed

text \<open>
  C17. The root computed through the tile cache is the tree hash of RFC 6962 over the first \<open>n\<close>
  leaves, and the cached walk returns the audit path of the reference algorithm, for every size up
  to the length of the log; no panic is reached.
\<close>

theorem cached_roots_are_tree_hashes:
  assumes "log_ok H tv log" "n \<le> log_len log" "n < u64_limit"
  shows "root_at H log n = Inr (mth H (take n (log_leaves log)))
    \<and> log_root H log = Inr (mth H (log_leaves log))
    \<and> (\<forall>i < n. audit_path_at H log i n = Inr (audit_path H i (take n (log_leaves log))))"
proof (intro conjI allI impI)
  note ok = log_okD(2,3) [OF assms(1)]
  show "log_root H log = Inr (mth H (log_leaves log))" using log_root_correct [OF ok(2)] .
  show "root_at H log n = Inr (mth H (take n (log_leaves log)))"
  proof (cases "n = 0")
    case False
    then show ?thesis using root_at_correct [OF ok(2), of n] ok(1) assms mth_mtr [of "take n (log_leaves log)" H]
      by (cases "log_leaves log") (auto simp: log_len_def)
  qed (simp add: root_at_def)
  show "audit_path_at H log i n = Inr (audit_path H i (take n (log_leaves log)))" if "i < n" for i
    using walk_to_root_correct [OF ok(2), of 0 n i] that ok(1) assms(2)
    by (simp add: audit_path_at_def subslice_def)
qed

theorem cached_roots_are_tree_hashes_witness:
  "root_at (\<lambda>_. sample_cid) sample_log 1 = Inr (Some sample_cid)"
  using cached_roots_are_tree_hashes [OF sample_log_ok, of 1] by (simp add: log_len_def sample_log_def)

text \<open>
  Tiles: the complete subtree number \<open>i\<close> of height \<open>level\<close> is published in tile
  \<open>i div 256\<close> at position \<open>i mod 256\<close>, as the tree hash of its leaves; the tile states its
  width, which is between 1 and 256.
\<close>

theorem tile_holds_subtree_root:
  assumes "level < 64" "i < length (log_leaves log) div 2 ^ level" "length (log_leaves log) < u64_limit"
  shows "\<exists>t. tile_at H log level (i div TILE_WIDTH) = Inr (Some t)
    \<and> tile_width t = length (tile_hashes t) \<and> 1 \<le> tile_width t \<and> tile_width t \<le> TILE_WIDTH
    \<and> i mod TILE_WIDTH < tile_width t
    \<and> mth H (subslice (log_leaves log) (i * 2 ^ level) ((i + 1) * 2 ^ level)) = Some (tile_hashes t ! (i mod TILE_WIDTH))"
proof -
  define start where "start = i div TILE_WIDTH * TILE_WIDTH"
  define n where "n = min (length (log_leaves log) div 2 ^ level) (start + TILE_WIDTH)"
  have i: "start + i mod TILE_WIDTH = i" by (simp add: start_def)
  have m: "i mod TILE_WIDTH < TILE_WIDTH" by (simp add: TILE_WIDTH_def)
  have lt: "i < n" using assms(2) i m by (auto simp: n_def)
  have "(i + 1) * 2 ^ level \<le> length (log_leaves log)"
  proof -
    have "(i + 1) * 2 ^ level \<le> length (log_leaves log) div 2 ^ level * 2 ^ level"
      using assms(2) by (intro mult_le_mono1) simp
    also have "\<dots> \<le> length (log_leaves log)" by simp
    finally show ?thesis .
  qed
  then have "length (subslice (log_leaves log) (i * 2 ^ level) ((i + 1) * 2 ^ level)) = 2 ^ level" by simp
  then have "mth H (subslice (log_leaves log) (i * 2 ^ level) ((i + 1) * 2 ^ level)) =
      Some (mtr H (subslice (log_leaves log) (i * 2 ^ level) ((i + 1) * 2 ^ level)))"
    by (intro mth_mtr) (metis list.size(3) power_not_zero zero_neq_numeral)
  then show ?thesis
    using tile_at_correct [OF assms(1) _ assms(3), of "i div TILE_WIDTH" H] assms(2) i lt m
    unfolding start_def [symmetric] n_def [symmetric] Let_def by (auto simp: n_def)
qed

theorem tile_holds_subtree_root_witness:
  "\<exists>t. tile_at (\<lambda>_. sample_cid) sample_log 0 0 = Inr (Some t) \<and> tile_width t = 1 \<and> tile_hashes t = [sample_cid]"
proof -
  have "tile_at (\<lambda>_. sample_cid) sample_log 0 0 = Inr (Some \<lparr>tile_hashes = [sample_cid], tile_index = 0,
      tile_level = 0, tile_width = 1\<rparr>)"
    by (simp add: tile_at_def subtree_span_def sample_log_def TILE_WIDTH_def subslice_def)
  with tile_holds_subtree_root [of 0 0 sample_log "\<lambda>_. sample_cid"] show ?thesis
    by (simp add: sample_log_def TILE_WIDTH_def)
qed

end
