(* ===== verification/Log_Proof.thy ===== *)
theory Log_Proof
  imports Merkle_Walk Tile_Log
begin

text \<open>
  Inclusion and consistency proofs: the provers and verifiers of
  \<open>src/crates/gx-log/src/proof.rs\<close>, with \<open>InclusionProof\<close> and \<open>Checkpoint\<close> of
  \<open>src/crates/gx-core/src/ledger.rs\<close>. Honest proofs verify; and a proof that verifies against
  the root of a log says something true of that log, unless two of the byte strings hashed by the
  two computations have the same digest. Those byte strings are named, so the alternative is a
  concrete collision of the hash.
\<close>

section \<open>Data\<close>

record inclusion_proof =
  ip_leaf_index :: nat
  ip_tree_size :: nat
  ip_audit_path :: "cid list"

record consistency_proof =
  cp_new_size :: nat
  cp_old_size :: nat
  cp_path :: "cid list"

record dsse_signature =
  sig_keyid :: string
  sig_bytes :: bytes

record checkpoint =
  ck_origin :: string
  ck_tree_size :: nat
  ck_root_hash :: cid
  ck_timestamp :: timestamp
  ck_signature :: dsse_signature

record checkpoint_core =
  core_origin :: string
  core_root_hash :: cid
  core_tree_size :: nat

section \<open>Inclusion\<close>

definition size_to_usize :: "nat \<Rightarrow> log_error + nat" where
  "size_to_usize n = (if n < u64_limit then Inr n else Inl Malformed)"

definition prove_inclusion_at :: "(bytes \<Rightarrow> cid) \<Rightarrow> tile_log \<Rightarrow> nat \<Rightarrow> nat \<Rightarrow> log_error + inclusion_proof" where
  "prove_inclusion_at H log index tree_size =
     (if tree_size = 0 \<or> tree_size > log_len log \<or> index \<ge> tree_size then Inl (OutOfRange index tree_size)
      else
        and_then (size_to_usize tree_size) (\<lambda>sz.
        and_then (size_to_usize index) (\<lambda>at.
        and_then (audit_path_at H log at sz) (\<lambda>path.
        Inr \<lparr>ip_leaf_index = index, ip_tree_size = tree_size, ip_audit_path = path\<rparr>))))"

definition prove_inclusion :: "(bytes \<Rightarrow> cid) \<Rightarrow> tile_log \<Rightarrow> nat \<Rightarrow> log_error + inclusion_proof" where
  "prove_inclusion H log index = prove_inclusion_at H log index (log_len log)"

definition reconstruct_root :: "(bytes \<Rightarrow> cid) \<Rightarrow> inclusion_proof \<Rightarrow> cid \<Rightarrow> cid option" where
  "reconstruct_root H proof leaf =
     (if ip_tree_size proof = 0 \<or> ip_leaf_index proof \<ge> ip_tree_size proof then None
      else reconstruct_loop H (ip_audit_path proof) (ip_leaf_index proof) (ip_tree_size proof - 1) leaf)"

definition root_of_inclusion ::
  "(bytes \<Rightarrow> cid) \<Rightarrow> (ledger_leaf \<Rightarrow> string + bytes) \<Rightarrow> inclusion_proof \<Rightarrow> ledger_leaf \<Rightarrow> log_error + cid option" where
  "root_of_inclusion H tv proof leaf =
     (if leaf_index leaf \<noteq> ip_leaf_index proof then Inr None
      else if audit_path_len (ip_leaf_index proof) (ip_tree_size proof) \<noteq> Some (length (ip_audit_path proof)) then Inr None
      else and_then (leaf_hash H tv leaf) (\<lambda>hash. Inr (reconstruct_root H proof hash)))"

definition verify_inclusion_of ::
  "(bytes \<Rightarrow> cid) \<Rightarrow> (ledger_leaf \<Rightarrow> string + bytes) \<Rightarrow> inclusion_proof \<Rightarrow> cid \<Rightarrow> ledger_leaf \<Rightarrow> log_error + bool" where
  "verify_inclusion_of H tv proof root leaf =
     and_then (root_of_inclusion H tv proof leaf) (\<lambda>reached. Inr (reached = Some root))"

definition verify_inclusion ::
  "(bytes \<Rightarrow> cid) \<Rightarrow> (ledger_leaf \<Rightarrow> string + bytes) \<Rightarrow> inclusion_proof \<Rightarrow> cid \<Rightarrow> ledger_entry \<Rightarrow> log_error + bool" where
  "verify_inclusion H tv proof root entry = verify_inclusion_of H tv proof root (entry_leaf entry)"

section \<open>Consistency\<close>

definition prove_consistency :: "(bytes \<Rightarrow> cid) \<Rightarrow> tile_log \<Rightarrow> nat \<Rightarrow> nat \<Rightarrow> log_error + consistency_proof" where
  "prove_consistency H log old_size new_size =
     (if old_size = 0 then Inl Malformed
      else if old_size > new_size then Inl Malformed
      else if new_size > log_len log then Inl Malformed
      else
        and_then (size_to_usize new_size) (\<lambda>new.
        and_then (size_to_usize old_size) (\<lambda>old.
        and_then (if old < new then ok_or LogPanic (subproof H old (take new (log_leaves log)) True) else Inr [])
          (\<lambda>path. Inr \<lparr>cp_new_size = new_size, cp_old_size = old_size, cp_path = path\<rparr>))))"

definition consistency_start :: "nat \<Rightarrow> cid list \<Rightarrow> cid \<Rightarrow> (cid \<times> cid list) option" where
  "consistency_start node path old_root =
     (if node = 0 then Some (old_root, path)
      else case path of [] \<Rightarrow> None | first # rest \<Rightarrow> Some (first, rest))"

definition verify_consistency :: "(bytes \<Rightarrow> cid) \<Rightarrow> consistency_proof \<Rightarrow> cid \<Rightarrow> cid \<Rightarrow> log_error + bool" where
  "verify_consistency H proof old_root new_root =
     (if cp_old_size proof = 0 then Inl Malformed
      else if cp_old_size proof > cp_new_size proof then Inl Malformed
      else if cp_old_size proof = cp_new_size proof then Inr (cp_path proof = [] \<and> old_root = new_root)
      else
        (let (node, final) = strip_ones (cp_old_size proof - 1) (cp_new_size proof - 1) in
         case consistency_start node (cp_path proof) old_root of
           None \<Rightarrow> Inr False
         | Some (first, rest) \<Rightarrow>
             (case consistency_loop H rest node final first first of
                None \<Rightarrow> Inr False
              | Some (old_reached, new_reached) \<Rightarrow> Inr (old_reached = old_root \<and> new_reached = new_root))))"

section \<open>Checkpoints\<close>

definition checkpoint_signing_bytes :: "(checkpoint_core \<Rightarrow> string + bytes) \<Rightarrow> checkpoint \<Rightarrow> log_error + bytes" where
  "checkpoint_signing_bytes tv ck =
     map_err Canon (cbor_encode tv \<lparr>core_origin = ck_origin ck, core_root_hash = ck_root_hash ck,
       core_tree_size = ck_tree_size ck\<rparr>)"

definition unsigned_checkpoint :: "(bytes \<Rightarrow> cid) \<Rightarrow> tile_log \<Rightarrow> string \<Rightarrow> timestamp \<Rightarrow> log_error + checkpoint" where
  "unsigned_checkpoint H log origin ts =
     and_then (log_root H log) (\<lambda>root.
     and_then (ok_or Malformed root) (\<lambda>root_hash.
     Inr \<lparr>ck_origin = origin, ck_tree_size = log_len log, ck_root_hash = root_hash, ck_timestamp = ts,
          ck_signature = \<lparr>sig_keyid = [], sig_bytes = []\<rparr>\<rparr>))"

section \<open>What is hashed\<close>

definition leaf_inputs :: "(ledger_leaf \<Rightarrow> string + bytes) \<Rightarrow> ledger_leaf \<Rightarrow> bytes set" where
  "leaf_inputs tv leaf = (case cbor_encode tv leaf of Inl _ \<Rightarrow> {} | Inr bs \<Rightarrow> {leaf_input bs})"

definition inclusion_inputs ::
  "(bytes \<Rightarrow> cid) \<Rightarrow> (ledger_leaf \<Rightarrow> string + bytes) \<Rightarrow> inclusion_proof \<Rightarrow> ledger_leaf \<Rightarrow> bytes set" where
  "inclusion_inputs H tv proof leaf = leaf_inputs tv leaf \<union>
     (case leaf_hash H tv leaf of Inl _ \<Rightarrow> {}
      | Inr h \<Rightarrow> walk_inputs H (ip_audit_path proof) (ip_leaf_index proof) (ip_tree_size proof - 1) h)"

definition consistency_inputs :: "(bytes \<Rightarrow> cid) \<Rightarrow> consistency_proof \<Rightarrow> cid \<Rightarrow> bytes set" where
  "consistency_inputs H proof old_root =
     (let (node, final) = strip_ones (cp_old_size proof - 1) (cp_new_size proof - 1) in
      case consistency_start node (cp_path proof) old_root of
        None \<Rightarrow> {}
      | Some (first, rest) \<Rightarrow> walk_inputs H rest node final first)"

section \<open>Inclusion: honest proofs verify, verified proofs are true\<close>

lemma leaf_hash_Inr: "leaf_hash H tv leaf = Inr c \<longleftrightarrow> (\<exists>bs. cbor_encode tv leaf = Inr bs \<and> c = H (leaf_input bs))"
  by (simp add: leaf_hash_def mint_leaf_input)

lemma prove_inclusion_at_total:
  assumes "log_ok H tv log" "i < n" "n \<le> log_len log" "n < u64_limit"
  shows "prove_inclusion_at H log i n =
    Inr \<lparr>ip_leaf_index = i, ip_tree_size = n, ip_audit_path = audit_path H i (take n (log_leaves log))\<rparr>"
proof -
  have "audit_path_at H log i n = Inr (audit_path H i (take n (log_leaves log)))"
    using walk_to_root_correct [OF log_okD(3) [OF assms(1)], of 0 n i] assms log_okD(2) [OF assms(1)]
    by (simp add: audit_path_at_def subslice_def)
  then show ?thesis using assms by (simp add: prove_inclusion_at_def size_to_usize_def)
qed

lemma honest_walk:
  assumes "log_ok H tv log" "i < n" "n \<le> log_len log"
  shows "reconstruct_loop H (audit_path H i (take n (log_leaves log))) i (n - 1) (log_leaves log ! i) =
      Some (mtr H (take n (log_leaves log)))"
    "audit_path_len i n = Some (length (audit_path H i (take n (log_leaves log))))"
  using reconstruct_audit_path [of i "take n (log_leaves log)" H] audit_path_len_correct [of i "take n (log_leaves log)" H]
    assms log_okD(2) [OF assms(1)] by simp_all

lemma verify_inclusion_of_True:
  "verify_inclusion_of H tv p root leaf = Inr True \<longleftrightarrow>
    leaf_index leaf = ip_leaf_index p \<and> ip_leaf_index p < ip_tree_size p
    \<and> audit_path_len (ip_leaf_index p) (ip_tree_size p) = Some (length (ip_audit_path p))
    \<and> (\<exists>h. leaf_hash H tv leaf = Inr h
        \<and> reconstruct_loop H (ip_audit_path p) (ip_leaf_index p) (ip_tree_size p - 1) h = Some root)"
  by (auto simp: verify_inclusion_of_def root_of_inclusion_def reconstruct_root_def and_then_eq_Inr
      audit_path_len_def split: if_splits)

lemma leaf_hash_same:
  assumes "leaf_hash H tv a = Inr c" "leaf_hash H tv b = Inr c"
  shows "cbor_encode tv a = cbor_encode tv b \<or> collision H (leaf_inputs tv a) (leaf_inputs tv b)"
proof -
  from assms obtain x y where x: "cbor_encode tv a = Inr x" "c = H (leaf_input x)"
    and y: "cbor_encode tv b = Inr y" "c = H (leaf_input y)" by (auto simp: leaf_hash_Inr)
  show ?thesis
  proof (cases "x = y")
    case False
    then show ?thesis using x y by (auto simp: collision_def leaf_inputs_def)
  qed (use x y in simp)
qed

lemma inclusion_sound:
  assumes ok: "log_ok H tv log" and v: "verify_inclusion_of H tv p root leaf = Inr True"
    and n: "ip_tree_size p \<le> log_len log" and root: "root = mtr H (take (ip_tree_size p) (log_leaves log))"
    and hp: "hp = \<lparr>ip_leaf_index = ip_leaf_index p, ip_tree_size = ip_tree_size p,
      ip_audit_path = audit_path H (ip_leaf_index p) (take (ip_tree_size p) (log_leaves log))\<rparr>"
    and e: "e = log_entries log ! ip_leaf_index p"
  shows "(cbor_encode tv leaf = cbor_encode tv (entry_leaf e) \<and> ip_audit_path p = ip_audit_path hp)
    \<or> collision H (inclusion_inputs H tv p leaf) (inclusion_inputs H tv hp (entry_leaf e))"
proof -
  define i where "i = ip_leaf_index p"
  define k where "k = ip_tree_size p"
  from v [unfolded verify_inclusion_of_True] obtain h where i: "i < k"
    and h: "leaf_hash H tv leaf = Inr h" "reconstruct_loop H (ip_audit_path p) i (k - 1) h = Some root"
    unfolding i_def k_def by blast
  have lh: "leaf_hash H tv (entry_leaf e) = Inr (log_leaves log ! i)"
    using log_okD(5) [OF ok, of i] i n e by (simp add: i_def k_def)
  have hon: "reconstruct_loop H (ip_audit_path hp) i (k - 1) (log_leaves log ! i) = Some root"
    using honest_walk(1) [OF ok i] n root hp by (simp add: i_def k_def)
  have sub: "walk_inputs H (ip_audit_path p) i (k - 1) h \<subseteq> inclusion_inputs H tv p leaf"
    "leaf_inputs tv leaf \<subseteq> inclusion_inputs H tv p leaf"
    "walk_inputs H (ip_audit_path hp) i (k - 1) (log_leaves log ! i) \<subseteq> inclusion_inputs H tv hp (entry_leaf e)"
    "leaf_inputs tv (entry_leaf e) \<subseteq> inclusion_inputs H tv hp (entry_leaf e)"
    using h(1) lh by (auto simp: inclusion_inputs_def i_def k_def hp)
  from reconstruct_loop_unique [OF h(2) hon] show ?thesis
  proof (elim disjE conjE)
    assume same: "ip_audit_path p = ip_audit_path hp" "h = log_leaves log ! i"
    then have "leaf_hash H tv leaf = Inr (log_leaves log ! i)" using h(1) by simp
    with lh have "cbor_encode tv leaf = cbor_encode tv (entry_leaf e)
        \<or> collision H (leaf_inputs tv leaf) (leaf_inputs tv (entry_leaf e))"
      by (intro leaf_hash_same)
    with same sub show ?thesis using collision_mono by blast
  qed (use sub collision_mono in blast)
qed

section \<open>Consistency: honest proofs verify, verified proofs are true\<close>

lemma prove_consistency_total:
  assumes "log_ok H tv log" "1 \<le> m" "m \<le> n" "n \<le> log_len log" "n < u64_limit"
  shows "\<exists>path. prove_consistency H log m n = Inr \<lparr>cp_new_size = n, cp_old_size = m, cp_path = path\<rparr>
    \<and> (if m = n then path = []
       else subproof H m (take n (log_leaves log)) True = Some path)"
proof -
  have "m < n \<Longrightarrow> subproof H m (take n (log_leaves log)) True \<noteq> None"
    using subproof_defined [of m "take n (log_leaves log)" H True] assms log_okD(2) [OF assms(1)] by simp
  then show ?thesis using assms by (auto simp: prove_consistency_def size_to_usize_def)
qed

text \<open>The honest proof, as the verifier reads it.\<close>

lemma honest_consistency:
  assumes "log_ok H tv log" "1 \<le> m" "m < n" "n \<le> log_len log"
    and path: "subproof H m (take n (log_leaves log)) True = Some path"
    and st: "strip_ones (m - 1) (n - 1) = (node, final)"
  obtains s rest where "consistency_start node path (mtr H (take m (log_leaves log))) = Some (s, rest)"
    "consistency_loop H rest node final s s = Some (mtr H (take m (log_leaves log)), mtr H (take n (log_leaves log)))"
proof -
  let ?xs = "take n (log_leaves log)"
  have len: "length ?xs = n" using assms log_okD(2) [OF assms(1)] by simp
  have tk: "take m ?xs = take m (log_leaves log)" using assms(3) by (simp add: min_def)
  have mn: "m < length ?xs" "m \<le> length ?xs" "m = length ?xs \<longrightarrow> (\<exists>j. m = 2 ^ j)" using assms(3) len by auto
  from consistency_subproof [OF assms(2) mn(1), of H]
  obtain s rest where sp: "subproof H m ?xs False = Some (s # rest)"
    and loop: "consistency_loop H rest node final s s = Some (mtr H (take m (log_leaves log)), mtr H ?xs)"
    using st unfolding len tk by auto
  have tr: "path = (if \<exists>j. m = 2 ^ j then rest else s # rest)" "(\<exists>j. m = 2 ^ j) \<longrightarrow> s = mtr H (take m (log_leaves log))"
    using subproof_true [OF assms(2) mn(2,3) sp] path unfolding tk by (auto split: if_splits)
  have "node = 0 \<longleftrightarrow> (\<exists>j. m = 2 ^ j)" using strip_ones_zero [OF assms(2), of "n - 1"] st by simp
  with tr have "consistency_start node path (mtr H (take m (log_leaves log))) = Some (s, rest)"
    by (auto simp: consistency_start_def)
  with loop that show thesis by blast
qed

lemma verify_consistency_honest:
  assumes "log_ok H tv log" "1 \<le> m" "m \<le> n" "n \<le> log_len log" "n < u64_limit"
    "prove_consistency H log m n = Inr p"
  shows "verify_consistency H p (mtr H (take m (log_leaves log))) (mtr H (take n (log_leaves log))) = Inr True"
proof -
  obtain path where p: "p = \<lparr>cp_new_size = n, cp_old_size = m, cp_path = path\<rparr>"
    and pth: "if m = n then path = [] else subproof H m (take n (log_leaves log)) True = Some path"
    using prove_consistency_total [OF assms(1-5)] assms(6) by auto
  show ?thesis
  proof (cases "m = n")
    case True
    then show ?thesis using assms(2) pth by (simp add: verify_consistency_def p)
  next
    case False
    obtain node final where st: "strip_ones (m - 1) (n - 1) = (node, final)" by fastforce
    obtain s rest where "consistency_start node path (mtr H (take m (log_leaves log))) = Some (s, rest)"
      "consistency_loop H rest node final s s = Some (mtr H (take m (log_leaves log)), mtr H (take n (log_leaves log)))"
      using honest_consistency [OF assms(1,2) _ assms(4) _ st] assms(3) False pth by auto
    then show ?thesis using False assms(2,3) st by (simp add: verify_consistency_def p)
  qed
qed

lemma consistency_sound:
  assumes ok: "log_ok H tv log" and v: "verify_consistency H p old (mtr H (take (cp_new_size p) (log_leaves log))) = Inr True"
    and n: "cp_new_size p \<le> log_len log" "cp_new_size p < u64_limit"
    and hp: "prove_consistency H log (cp_old_size p) (cp_new_size p) = Inr hp"
    and r: "r = mtr H (take (cp_old_size p) (log_leaves log))"
  shows "old = r \<or> collision H (consistency_inputs H p old) (consistency_inputs H hp r)"
proof -
  define m where "m = cp_old_size p"
  define k where "k = cp_new_size p"
  have mk: "1 \<le> m" "m \<le> k" using v by (auto simp: verify_consistency_def m_def k_def split: if_splits)
  show ?thesis
  proof (cases "m = k")
    case True
    then show ?thesis using v mk r by (simp add: verify_consistency_def m_def k_def split: if_splits)
  next
    case False
    obtain node final where st: "strip_ones (m - 1) (k - 1) = (node, final)" by fastforce
    from v False mk st obtain first rest o' n' where a: "consistency_start node (cp_path p) old = Some (first, rest)"
      "consistency_loop H rest node final first first = Some (old, mtr H (take k (log_leaves log)))"
      unfolding verify_consistency_def m_def k_def by (auto split: if_splits option.splits)
    obtain path where path: "hp = \<lparr>cp_new_size = k, cp_old_size = m, cp_path = path\<rparr>"
      "subproof H m (take k (log_leaves log)) True = Some path"
      using prove_consistency_total [OF ok mk] n hp False by (auto simp: m_def k_def)
    have k: "k \<le> log_len log" "m < k" using n mk False by (auto simp: k_def)
    obtain s rest' where b: "consistency_start node path r = Some (s, rest')"
      "consistency_loop H rest' node final s s = Some (r, mtr H (take k (log_leaves log)))"
      using honest_consistency [OF ok mk(1) k(2,1) path(2) st] r by (auto simp: m_def)
    have "reconstruct_loop H rest node final first = Some (mtr H (take k (log_leaves log)))"
      "reconstruct_loop H rest' node final s = Some (mtr H (take k (log_leaves log)))"
      using a(2) b(2) by (simp_all add: reconstruct_loop_consistency [of H rest _ _ _ first]
          reconstruct_loop_consistency [of H rest' _ _ _ s])
    from reconstruct_loop_unique [OF this] show ?thesis
    proof (elim disjE conjE)
      assume "rest = rest'" "first = s"
      then show ?thesis using a(2) b(2) by simp
    qed (use a(1) b(1) st path(1) in \<open>simp add: consistency_inputs_def m_def k_def\<close>)
  qed
qed

section \<open>Properties\<close>

text \<open>
  C13. Completeness of inclusion proofs: for every leaf \<open>i\<close> below every published size \<open>n\<close>,
  the log produces a proof, and the proof verifies against the root at size \<open>n\<close> and the entry
  stored at \<open>i\<close>.
\<close>

theorem inclusion_proof_verifies:
  assumes "log_ok H tv log" "i < n" "n \<le> log_len log" "n < u64_limit"
  shows "\<exists>p root e. prove_inclusion_at H log i n = Inr p \<and> root_at H log n = Inr (Some root)
    \<and> log_entry log i = Some e \<and> verify_inclusion H tv p root e = Inr True"
proof -
  let ?e = "log_entries log ! i"
  have lh: "leaf_hash H tv (entry_leaf ?e) = Inr (log_leaves log ! i)" "leaf_index (entry_leaf ?e) = i"
    using log_okD(4,5) [OF assms(1), of i] assms by (simp_all add: entry_leaf_def)
  have "root_at H log n = Inr (Some (mtr H (take n (log_leaves log))))"
    using root_at_correct [OF log_okD(3) [OF assms(1)]] log_okD(2) [OF assms(1)] assms by simp
  moreover have "log_entry log i = Some ?e" using assms by (simp add: log_entry_def log_len_def)
  moreover have "verify_inclusion H tv \<lparr>ip_leaf_index = i, ip_tree_size = n,
      ip_audit_path = audit_path H i (take n (log_leaves log))\<rparr> (mtr H (take n (log_leaves log))) ?e = Inr True"
    using lh honest_walk [OF assms(1-3)] assms(2) by (simp add: verify_inclusion_def verify_inclusion_of_True)
  ultimately show ?thesis using prove_inclusion_at_total [OF assms] by blast
qed

theorem inclusion_proof_verifies_witness:
  "\<exists>log p root e. log_len log = 7 \<and> prove_inclusion_at (\<lambda>_. sample_cid) log 4 6 = Inr p
    \<and> verify_inclusion (\<lambda>_. sample_cid) (\<lambda>_. Inr [0]) p root e = Inr True"
proof -
  obtain log where log: "log_ok (\<lambda>_. sample_cid) (\<lambda>_. Inr [0]) log" "log_len log = 7" using sample_logs by blast
  with inclusion_proof_verifies [OF log(1), of 4 6] show ?thesis by auto
qed

lemma inclusion_in_log:
  assumes "log_ok H tv log" "verify_inclusion_of H tv p root leaf = Inr True"
    "root_at H log (ip_tree_size p) = Inr (Some root)"
  shows "\<exists>e hp. log_entry log (ip_leaf_index p) = Some e
    \<and> prove_inclusion_at H log (ip_leaf_index p) (ip_tree_size p) = Inr hp
    \<and> (cbor_encode tv leaf = cbor_encode tv (entry_leaf e) \<and> ip_audit_path p = ip_audit_path hp
       \<or> collision H (inclusion_inputs H tv p leaf) (inclusion_inputs H tv hp (entry_leaf e)))"
proof -
  let ?n = "ip_tree_size p" and ?i = "ip_leaf_index p"
  have n: "0 < ?n" "?n \<le> log_len log" "?n < u64_limit"
    using assms(3) log_okD(2) [OF assms(1)] by (auto simp: root_at_def split: if_splits)
  then have root: "root = mtr H (take ?n (log_leaves log))"
    using root_at_correct [OF log_okD(3) [OF assms(1)]] log_okD(2) [OF assms(1)] assms(3) by simp
  have i: "?i < ?n" using assms(2) by (simp add: verify_inclusion_of_True)
  have "log_entry log ?i = Some (log_entries log ! ?i)" using i n(2) by (simp add: log_entry_def log_len_def)
  then show ?thesis
    using prove_inclusion_at_total [OF assms(1) i n(2,3)] inclusion_sound [OF assms(1,2) n(2) root refl refl]
    by blast
qed

text \<open>
  C12. Soundness of inclusion proofs: a proof that verifies against the root of a log at its size
  is about the entry the log holds at that index, byte for byte of its canonical encoding, and
  carries the audit path the log itself would give; otherwise two of the byte strings hashed by the
  verification and by the log collide.
\<close>

theorem verified_inclusion_is_true:
  assumes "log_ok H tv log" "verify_inclusion_of H tv p root leaf = Inr True"
    "root_at H log (ip_tree_size p) = Inr (Some root)"
  shows "\<exists>e hp. log_entry log (ip_leaf_index p) = Some e
    \<and> prove_inclusion_at H log (ip_leaf_index p) (ip_tree_size p) = Inr hp
    \<and> (cbor_encode tv leaf = cbor_encode tv (entry_leaf e) \<and> ip_audit_path p = ip_audit_path hp
       \<or> collision H (inclusion_inputs H tv p leaf) (inclusion_inputs H tv hp (entry_leaf e)))"
  using assms by (rule inclusion_in_log)

theorem verified_inclusion_is_true_witness:
  "\<exists>e hp. log_entry sample_log 0 = Some e \<and> prove_inclusion_at (\<lambda>_. sample_cid) sample_log 0 1 = Inr hp"
proof -
  let ?p = "\<lparr>ip_leaf_index = 0, ip_tree_size = 1, ip_audit_path = []\<rparr>"
  let ?leaf = "\<lparr>leaf_index = 0, leaf_receipt = sample_cid, leaf_transformation = sample_cid\<rparr>"
  have "verify_inclusion_of (\<lambda>_. sample_cid) (\<lambda>_. Inr [0]) ?p sample_cid ?leaf = Inr True"
    by (simp add: verify_inclusion_of_True audit_path_len_def path_len_loop.simps leaf_hash_def mint_leaf_def
        cbor_encode_def scan_strict_zero mint_def digest_def)
  moreover have "root_at (\<lambda>_. sample_cid) sample_log (ip_tree_size ?p) = Inr (Some sample_cid)"
    by (simp add: root_at_def mth_range.simps sample_log_def)
  ultimately show ?thesis using verified_inclusion_is_true [OF sample_log_ok] by fastforce
qed

text \<open>
  C15. Completeness of consistency proofs: between any two published sizes the log produces a
  proof, and the proof verifies against the two roots.
\<close>

theorem consistency_proof_verifies:
  assumes "log_ok H tv log" "1 \<le> m" "m \<le> n" "n \<le> log_len log" "n < u64_limit"
  shows "\<exists>p old new. prove_consistency H log m n = Inr p
    \<and> root_at H log m = Inr (Some old) \<and> root_at H log n = Inr (Some new)
    \<and> verify_consistency H p old new = Inr True"
proof -
  note ok = log_okD(2,3) [OF assms(1)]
  obtain p where p: "prove_consistency H log m n = Inr p" using prove_consistency_total [OF assms] by blast
  with verify_consistency_honest [OF assms] root_at_correct [OF ok(2), of m] root_at_correct [OF ok(2), of n]
  show ?thesis using assms ok(1) by auto
qed

theorem consistency_proof_verifies_witness:
  "\<exists>log p old new. log_len log = 7 \<and> prove_consistency (\<lambda>_. sample_cid) log 3 7 = Inr p
    \<and> verify_consistency (\<lambda>_. sample_cid) p old new = Inr True"
proof -
  obtain log where log: "log_ok (\<lambda>_. sample_cid) (\<lambda>_. Inr [0]) log" "log_len log = 7" using sample_logs by blast
  with consistency_proof_verifies [OF log(1), of 3 7] show ?thesis by auto
qed

lemma consistency_in_log:
  assumes "log_ok H tv log" "verify_consistency H p old new = Inr True"
    "root_at H log (cp_new_size p) = Inr (Some new)"
  shows "\<exists>r hp. root_at H log (cp_old_size p) = Inr (Some r)
    \<and> prove_consistency H log (cp_old_size p) (cp_new_size p) = Inr hp
    \<and> (old = r \<or> collision H (consistency_inputs H p old) (consistency_inputs H hp r))"
proof -
  let ?m = "cp_old_size p" and ?n = "cp_new_size p"
  note ok = log_okD(2,3) [OF assms(1)]
  have n: "0 < ?n" "?n \<le> log_len log" "?n < u64_limit"
    using assms(3) ok(1) by (auto simp: root_at_def split: if_splits)
  have m: "1 \<le> ?m" "?m \<le> ?n" using assms(2) by (auto simp: verify_consistency_def split: if_splits)
  have new: "new = mtr H (take ?n (log_leaves log))"
    using root_at_correct [OF ok(2), of ?n] n ok(1) assms(3) by simp
  obtain hp where hp: "prove_consistency H log ?m ?n = Inr hp"
    using prove_consistency_total [OF assms(1) m n(2,3)] by blast
  have "root_at H log ?m = Inr (Some (mtr H (take ?m (log_leaves log))))"
    using root_at_correct [OF ok(2), of ?m] m n ok(1) by simp
  then show ?thesis using hp consistency_sound [OF assms(1) assms(2) [unfolded new] n(2,3) hp refl] by blast
qed

text \<open>
  C14. Soundness of consistency proofs: an old root accepted against the root of a log is the root
  the log had at the old size, so the log is an extension of what the old root committed to;
  otherwise two of the byte strings hashed by the verification and by the log collide.
\<close>

theorem verified_consistency_is_true:
  assumes "log_ok H tv log" "verify_consistency H p old new = Inr True"
    "root_at H log (cp_new_size p) = Inr (Some new)"
  shows "\<exists>r hp. root_at H log (cp_old_size p) = Inr (Some r)
    \<and> prove_consistency H log (cp_old_size p) (cp_new_size p) = Inr hp
    \<and> (old = r \<or> collision H (consistency_inputs H p old) (consistency_inputs H hp r))"
  using assms by (rule consistency_in_log)

theorem verified_consistency_is_true_witness:
  "\<exists>log r. log_len log = 7 \<and> root_at (\<lambda>_. sample_cid) log 3 = Inr (Some r)"
proof -
  obtain log where log: "log_ok (\<lambda>_. sample_cid) (\<lambda>_. Inr [0]) log" "log_len log = 7" using sample_logs by blast
  note ok = log_okD(2,3) [OF log(1)]
  obtain p where p: "prove_consistency (\<lambda>_. sample_cid) log 3 7 = Inr p" "cp_old_size p = 3" "cp_new_size p = 7"
    using prove_consistency_total [OF log(1), of 3 7] log(2) by auto
  have "verify_consistency (\<lambda>_. sample_cid) p (mtr (\<lambda>_. sample_cid) (take 3 (log_leaves log)))
      (mtr (\<lambda>_. sample_cid) (take 7 (log_leaves log))) = Inr True"
    using verify_consistency_honest [OF log(1) _ _ _ _ p(1)] log(2) by simp
  moreover have "root_at (\<lambda>_. sample_cid) log (cp_new_size p) =
      Inr (Some (mtr (\<lambda>_. sample_cid) (take 7 (log_leaves log))))"
    using root_at_correct [OF ok(2), of 7] ok(1) log(2) p(3) by simp
  ultimately have "\<exists>r. root_at (\<lambda>_. sample_cid) log (cp_old_size p) = Inr (Some r)"
    using verified_consistency_is_true [OF log(1)] by blast
  with log(2) p(2) show ?thesis by auto
qed

end
