(* ===== verification/Ledger_Store.thy ===== *)
theory Ledger_Store
  imports Tile_Log
begin

text \<open>
  The durable ledger: \<open>LedgerStore\<close> of \<open>src/crates/gx-log/src/store.rs\<close>. The file is a
  sequence of frames, a four-byte big-endian length and the canonical encoding of an entry; opening
  replays it, copies the file aside and cuts a tail that does not replay; appending writes one
  frame, syncs it, and only then changes the tree.

  The directory is explicit state: the bytes of the ledger file, if it is there, and the copies
  made by \<open>quarantine\<close>, by the two byte counts of their name. What the operating system does to
  a write is an argument: it succeeds, it fails (or the process dies) after some prefix of the
  frame, or the sync fails after the whole frame. A copy may fail part way. Failures to open, read,
  truncate or sync a directory end an operation with an error and change nothing modelled here.

  The serde codecs of \<open>LedgerLeaf\<close> and \<open>LedgerEntry\<close> are arguments (\<open>tvl\<close>, \<open>tve\<close>,
  \<open>fse\<close>).
\<close>

section \<open>Data\<close>

definition LENGTH_BYTES :: nat where
  "LENGTH_BYTES = 4"

definition MAX_RECORD_BYTES :: nat where
  "MAX_RECORD_BYTES = push_bit 20 1"

datatype append_outcome = Appended ledger_entry | AlreadyPresent ledger_entry

fun outcome_entry :: "append_outcome \<Rightarrow> ledger_entry" where
  "outcome_entry (Appended e) = e"
| "outcome_entry (AlreadyPresent e) = e"

record recovery =
  rec_records :: nat
  rec_torn_tail_bytes :: nat

text \<open>\<open>TailRecord\<close>: the offset of the last frame, and its bytes.\<close>

type_synonym tail_record = "nat \<times> bytes"

record ledger_store =
  ls_present :: bool
  ls_tree :: tile_log
  ls_by_key :: "transformation_id \<Rightarrow> nat option"
  ls_recovery :: recovery
  ls_read_only :: bool
  ls_quarantined :: "(nat \<times> nat) option"
  ls_bytes :: nat
  ls_tail :: "tail_record option"

record ledger_dir =
  ld_file :: "bytes option"
  ld_torn :: "nat \<times> nat \<Rightarrow> bytes option"

record replayed =
  rp_tree :: tile_log
  rp_by_key :: "transformation_id \<Rightarrow> nat option"
  rp_good :: nat
  rp_tail :: "tail_record option"

datatype write_outcome = WriteOk | WriteFails nat | SyncFails

datatype copy_outcome = CopyOk | CopyFails nat

section \<open>Replay\<close>

definition frame_of :: "bytes \<Rightarrow> bytes" where
  "frame_of payload = be_bytes LENGTH_BYTES (length payload) @ payload"

text \<open>
  The loop of \<open>replay\<close> over the bytes not yet read. Every \<open>break\<close> returns what was replayed so
  far; the key index is updated before the check for a second record under one key.
\<close>

function replay_loop ::
  "(bytes \<Rightarrow> cid) \<Rightarrow> (ledger_leaf \<Rightarrow> string + bytes) \<Rightarrow> (bytes \<Rightarrow> string + ledger_entry) \<Rightarrow> bytes \<Rightarrow> replayed
    \<Rightarrow> log_error + replayed" where
  "replay_loop H tvl fse rest st =
     (if length rest < LENGTH_BYTES then Inr st
      else
        (let len = be_nat (take LENGTH_BYTES rest) in
         if len = 0 \<or> len > MAX_RECORD_BYTES then Inr st
         else if length (drop LENGTH_BYTES rest) < len then Inr st
         else
           (let payload = take len (drop LENGTH_BYTES rest) in
            case cbor_decode fse payload of
              Inl _ \<Rightarrow> Inr st
            | Inr recorded \<Rightarrow>
                if entry_index recorded \<noteq> log_len (rp_tree st) then Inr st
                else
                  and_then (stage H tvl (rp_tree st) (entry_transformation recorded) (entry_receipt recorded)
                     (appended_at recorded)) (\<lambda>staged.
                  if staged \<noteq> recorded then Inr st
                  else
                    (let by_key = (rp_by_key st)(entry_transformation recorded \<mapsto> entry_index recorded) in
                     if rp_by_key st (entry_transformation recorded) \<noteq> None then Inr (st\<lparr>rp_by_key := by_key\<rparr>)
                     else
                       and_then (log_commit H staged (rp_tree st)) (\<lambda>tree.
                       replay_loop H tvl fse (drop (LENGTH_BYTES + len) rest)
                         \<lparr>rp_tree = tree, rp_by_key = by_key, rp_good = rp_good st + (LENGTH_BYTES + len),
                          rp_tail = Some (rp_good st, take LENGTH_BYTES rest @ payload)\<rparr>))))))"
  by pat_completeness auto
termination
  by (relation "measure (\<lambda>(H, tvl, fse, rest, st). length rest)") (auto simp: LENGTH_BYTES_def)

declare replay_loop.simps [simp del]

definition replay_start :: replayed where
  "replay_start = \<lparr>rp_tree = new_log, rp_by_key = (\<lambda>_. None), rp_good = 0, rp_tail = None\<rparr>"

definition replay ::
  "(bytes \<Rightarrow> cid) \<Rightarrow> (ledger_leaf \<Rightarrow> string + bytes) \<Rightarrow> (bytes \<Rightarrow> string + ledger_entry) \<Rightarrow> bytes
    \<Rightarrow> log_error + replayed" where
  "replay H tvl fse file = replay_loop H tvl fse file replay_start"

section \<open>Opening\<close>

definition quarantine ::
  "copy_outcome \<Rightarrow> nat \<Rightarrow> nat \<Rightarrow> bytes \<Rightarrow> ledger_dir \<Rightarrow> (log_error + nat \<times> nat) \<times> ledger_dir" where
  "quarantine copy good torn file dir =
     (let target = (good, good + torn) in
      if ld_torn dir target \<noteq> None then (Inr target, dir)
      else case copy of
          CopyOk \<Rightarrow> (Inr target, dir\<lparr>ld_torn := (ld_torn dir)(target \<mapsto> file)\<rparr>)
        | CopyFails k \<Rightarrow> (Inl (Io ''quarantine''), dir\<lparr>ld_torn := (ld_torn dir)(target \<mapsto> take k file)\<rparr>))"

definition store_of :: "replayed \<Rightarrow> nat \<Rightarrow> bool \<Rightarrow> (nat \<times> nat) option \<Rightarrow> ledger_store" where
  "store_of rp file_len read_only quarantined =
     \<lparr>ls_present = True, ls_tree = rp_tree rp, ls_by_key = rp_by_key rp,
      ls_recovery = \<lparr>rec_records = log_len (rp_tree rp), rec_torn_tail_bytes = file_len - rp_good rp\<rparr>,
      ls_read_only = read_only, ls_quarantined = quarantined, ls_bytes = rp_good rp, ls_tail = rp_tail rp\<rparr>"

definition ledger_open ::
  "(bytes \<Rightarrow> cid) \<Rightarrow> (ledger_leaf \<Rightarrow> string + bytes) \<Rightarrow> (bytes \<Rightarrow> string + ledger_entry) \<Rightarrow> copy_outcome \<Rightarrow> ledger_dir
    \<Rightarrow> (log_error + ledger_store) \<times> ledger_dir" where
  "ledger_open H tvl fse copy dir =
     (let file = (case ld_file dir of None \<Rightarrow> [] | Some f \<Rightarrow> f);
          dir = dir\<lparr>ld_file := Some file\<rparr>
      in case replay H tvl fse file of
           Inl e \<Rightarrow> (Inl e, dir)
         | Inr rp \<Rightarrow>
             (let torn = length file - rp_good rp in
              if torn > 0
              then (case quarantine copy (rp_good rp) torn file dir of
                      (Inl e, dir) \<Rightarrow> (Inl e, dir)
                    | (Inr target, dir) \<Rightarrow>
                        (Inr (store_of rp (length file) False (Some target)),
                         dir\<lparr>ld_file := Some (take (rp_good rp) file)\<rparr>))
              else (Inr (store_of rp (length file) False None), dir)))"

definition open_read_only ::
  "(bytes \<Rightarrow> cid) \<Rightarrow> (ledger_leaf \<Rightarrow> string + bytes) \<Rightarrow> (bytes \<Rightarrow> string + ledger_entry) \<Rightarrow> ledger_dir
    \<Rightarrow> log_error + ledger_store" where
  "open_read_only H tvl fse dir =
     (case ld_file dir of
        None \<Rightarrow> Inl (Io ''open'')
      | Some file \<Rightarrow> and_then (replay H tvl fse file) (\<lambda>rp. Inr (store_of rp (length file) True None)))"

definition open_read_only_or_absent ::
  "(bytes \<Rightarrow> cid) \<Rightarrow> (ledger_leaf \<Rightarrow> string + bytes) \<Rightarrow> (bytes \<Rightarrow> string + ledger_entry) \<Rightarrow> ledger_dir
    \<Rightarrow> log_error + ledger_store" where
  "open_read_only_or_absent H tvl fse dir =
     (if ld_file dir \<noteq> None then open_read_only H tvl fse dir
      else Inr \<lparr>ls_present = False, ls_tree = new_log, ls_by_key = (\<lambda>_. None),
             ls_recovery = \<lparr>rec_records = 0, rec_torn_tail_bytes = 0\<rparr>, ls_read_only = True,
             ls_quarantined = None, ls_bytes = 0, ls_tail = None\<rparr>)"

section \<open>Appending\<close>

definition frame_write_and_sync :: "write_outcome \<Rightarrow> bytes \<Rightarrow> bytes \<Rightarrow> (log_error + unit) \<times> bytes" where
  "frame_write_and_sync outcome file payload =
     (if length payload > MAX_RECORD_BYTES then (Inl Malformed, file)
      else case outcome of
          WriteOk \<Rightarrow> (Inr (), file @ frame_of payload)
        | WriteFails k \<Rightarrow> (Inl (Io ''write''), file @ take k (frame_of payload))
        | SyncFails \<Rightarrow> (Inl (Io ''sync''), file @ frame_of payload))"

definition write_and_sync ::
  "write_outcome \<Rightarrow> bytes \<Rightarrow> ledger_dir \<Rightarrow> ledger_store \<Rightarrow> (log_error + ledger_store) \<times> ledger_dir" where
  "write_and_sync outcome payload dir store =
     (if \<not> ls_present store then (Inl (Io ''absent''), dir)
      else case ld_file dir of
          None \<Rightarrow> (Inl (Io ''absent''), dir)
        | Some file \<Rightarrow>
            (case frame_write_and_sync outcome file payload of
               (Inl e, file) \<Rightarrow> (Inl e, dir\<lparr>ld_file := Some file\<rparr>)
             | (Inr _, file) \<Rightarrow>
                 (Inr (store\<lparr>ls_tail := Some (ls_bytes store, frame_of payload),
                             ls_bytes := ls_bytes store + (LENGTH_BYTES + length payload)\<rparr>),
                  dir\<lparr>ld_file := Some file\<rparr>)))"

definition ledger_append ::
  "(bytes \<Rightarrow> cid) \<Rightarrow> (ledger_leaf \<Rightarrow> string + bytes) \<Rightarrow> (ledger_entry \<Rightarrow> string + bytes) \<Rightarrow> write_outcome
    \<Rightarrow> transformation_id \<Rightarrow> cid \<Rightarrow> timestamp \<Rightarrow> ledger_dir \<Rightarrow> ledger_store
    \<Rightarrow> (log_error + append_outcome) \<times> ledger_dir \<times> ledger_store" where
  "ledger_append H tvl tve outcome t receipt at dir store =
     (if ls_read_only store then (Inl (Io ''read-only''), dir, store)
      else case ls_by_key store t of
          Some index \<Rightarrow>
            (case log_entry (ls_tree store) index of
               None \<Rightarrow> (Inl LogPanic, dir, store)
             | Some recorded \<Rightarrow>
                 if entry_receipt recorded = receipt then (Inr (AlreadyPresent recorded), dir, store)
                 else (Inl (Conflict t (entry_receipt recorded) receipt), dir, store))
        | None \<Rightarrow>
            (case stage H tvl (ls_tree store) t receipt at of
               Inl e \<Rightarrow> (Inl e, dir, store)
             | Inr staged \<Rightarrow>
                 (case map_err Canon (cbor_encode tve staged) of
                    Inl e \<Rightarrow> (Inl e, dir, store)
                  | Inr payload \<Rightarrow>
                      (case write_and_sync outcome payload dir store of
                         (Inl e, dir) \<Rightarrow> (Inl e, dir, store)
                       | (Inr store, dir) \<Rightarrow>
                           (case log_commit H staged (ls_tree store) of
                              Inl e \<Rightarrow> (Inl e, dir, store)
                            | Inr tree \<Rightarrow>
                                (Inr (Appended staged), dir,
                                 store\<lparr>ls_tree := tree,
                                       ls_by_key := (ls_by_key store)(t \<mapsto> entry_index staged)\<rparr>))))))"

text \<open>\<open>tail_unchanged\<close>: whether the file still holds the last frame this store knows.\<close>

definition tail_unchanged :: "ledger_dir \<Rightarrow> ledger_store \<Rightarrow> bool" where
  "tail_unchanged dir store =
     (case ls_tail store of
        None \<Rightarrow> True
      | Some (at, framed) \<Rightarrow>
          (case ld_file dir of
             None \<Rightarrow> False
           | Some file \<Rightarrow> take (length framed) (drop at file) = framed))"

section \<open>Files made of frames\<close>

definition codec_ok :: "(ledger_entry \<Rightarrow> string + bytes) \<Rightarrow> (bytes \<Rightarrow> string + ledger_entry) \<Rightarrow> bool" where
  "codec_ok tve fse \<longleftrightarrow> (\<forall>e bs. tve e = Inr bs \<longrightarrow> fse bs = Inr e)"

definition writable :: "(ledger_entry \<Rightarrow> string + bytes) \<Rightarrow> ledger_entry \<Rightarrow> bool" where
  "writable tve e \<longleftrightarrow> (\<exists>p. cbor_encode tve e = Inr p \<and> length p \<le> MAX_RECORD_BYTES)"

definition entry_frame :: "(ledger_entry \<Rightarrow> string + bytes) \<Rightarrow> ledger_entry \<Rightarrow> bytes" where
  "entry_frame tve e = (case cbor_encode tve e of Inl _ \<Rightarrow> [] | Inr p \<Rightarrow> frame_of p)"

definition frames :: "(ledger_entry \<Rightarrow> string + bytes) \<Rightarrow> ledger_entry list \<Rightarrow> bytes" where
  "frames tve es = concat (map (entry_frame tve) es)"

definition last_frame :: "(ledger_entry \<Rightarrow> string + bytes) \<Rightarrow> ledger_entry list \<Rightarrow> tail_record option" where
  "last_frame tve es =
     (if es = [] then None else Some (length (frames tve (butlast es)), entry_frame tve (last es)))"

definition keys_ok :: "ledger_entry list \<Rightarrow> (transformation_id \<Rightarrow> nat option) \<Rightarrow> bool" where
  "keys_ok es by_key \<longleftrightarrow>
     (\<forall>t i. by_key t = Some i \<longleftrightarrow> i < length es \<and> entry_transformation (es ! i) = t)"

definition store_ok ::
  "(bytes \<Rightarrow> cid) \<Rightarrow> (ledger_leaf \<Rightarrow> string + bytes) \<Rightarrow> (ledger_entry \<Rightarrow> string + bytes) \<Rightarrow> ledger_dir \<Rightarrow> ledger_store \<Rightarrow> bool" where
  "store_ok H tvl tve dir store \<longleftrightarrow>
     ls_present store \<and> \<not> ls_read_only store \<and> log_ok H tvl (ls_tree store)
     \<and> keys_ok (log_entries (ls_tree store)) (ls_by_key store)
     \<and> (\<forall>e\<in>set (log_entries (ls_tree store)). writable tve e)
     \<and> ld_file dir = Some (frames tve (log_entries (ls_tree store)))
     \<and> ls_bytes store = length (frames tve (log_entries (ls_tree store)))
     \<and> ls_tail store = last_frame tve (log_entries (ls_tree store))"

lemma frames_simps [simp]:
  "frames tve [] = []" "frames tve (es @ [e]) = frames tve es @ entry_frame tve e"
  "frames tve (e # es) = entry_frame tve e @ frames tve es"
  by (simp_all add: frames_def)

lemma last_frame_simps [simp]:
  "last_frame tve [] = None" "last_frame tve (es @ [e]) = Some (length (frames tve es), entry_frame tve e)"
  by (simp_all add: last_frame_def)

lemma length_frame_of [simp]: "length (frame_of p) = LENGTH_BYTES + length p"
  by (simp add: frame_of_def)

lemma take_frame [simp]:
  "take LENGTH_BYTES (frame_of p) = be_bytes LENGTH_BYTES (length p)" "drop LENGTH_BYTES (frame_of p) = p"
  by (simp_all add: frame_of_def)

lemma keys_ok_Nil [simp]: "keys_ok [] (\<lambda>_. None)"
  by (simp add: keys_ok_def)

lemma keys_ok_snoc:
  assumes "keys_ok es m" "m (entry_transformation e) = None"
  shows "keys_ok (es @ [e]) (m(entry_transformation e \<mapsto> length es))"
  using assms by (auto simp: keys_ok_def nth_append less_Suc_eq) (metis option.distinct(1))+

lemma keys_ok_fresh: "keys_ok es m \<Longrightarrow> m t = None \<longleftrightarrow> t \<notin> entry_transformation ` set es"
proof -
  assume "keys_ok es m"
  then have "m t \<noteq> None \<longleftrightarrow> (\<exists>i < length es. entry_transformation (es ! i) = t)" by (auto simp: keys_ok_def)
  also have "\<dots> \<longleftrightarrow> t \<in> entry_transformation ` set es" by (force simp: in_set_conv_nth)
  finally show ?thesis by blast
qed

lemma payload_header:
  assumes "length p \<le> MAX_RECORD_BYTES"
  shows "be_nat (be_bytes LENGTH_BYTES (length p)) = length p"
  using assms by (simp add: be_nat_be_bytes LENGTH_BYTES_def MAX_RECORD_BYTES_def push_bit_eq_mult)

lemma encoded_nonempty: "cbor_encode tve e = Inr p \<Longrightarrow> p \<noteq> []"
  using cbor_encode_canonical [of tve e p] by (auto simp: scan_strict_def)

lemma stage_same:
  assumes "entry_index e = log_len log" "leaf_hash H tvl (entry_leaf e) = Inr (leaf_cid e)"
  shows "stage H tvl log (entry_transformation e) (entry_receipt e) (appended_at e) = Inr e"
  using assms by (simp add: stage_def Let_def entry_leaf_def)

lemma log_ok_unique:
  "log_ok H tvl a \<Longrightarrow> log_ok H tvl b \<Longrightarrow> log_entries a = log_entries b \<Longrightarrow> a = b"
  by (simp add: log_ok_def cache_ok_def)

text \<open>One well-formed frame is replayed, and the rest of the file after it.\<close>

lemma replay_loop_frame:
  assumes codec: "codec_ok tve fse" and st: "stage H tvl (rp_tree st) (entry_transformation e) (entry_receipt e) (appended_at e) = Inr e"
    and p: "cbor_encode tve e = Inr p" "length p \<le> MAX_RECORD_BYTES"
    and new: "rp_by_key st (entry_transformation e) = None"
    and c: "log_commit H e (rp_tree st) = Inr tree"
  shows "replay_loop H tvl fse (frame_of p @ rest) st = replay_loop H tvl fse rest
    \<lparr>rp_tree = tree, rp_by_key = (rp_by_key st)(entry_transformation e \<mapsto> entry_index e),
     rp_good = rp_good st + length (frame_of p), rp_tail = Some (rp_good st, frame_of p)\<rparr>"
proof -
  have idx: "entry_index e = log_len (rp_tree st)" using stage_Inr(1) [OF st] .
  have can: "scan_strict p = Inr ()" "tve e = Inr p" using cbor_encode_canonical [OF p(1)] by auto
  then have dec: "cbor_decode fse p = Inr e" using codec by (simp add: cbor_decode_def codec_ok_def)
  have td: "take LENGTH_BYTES (frame_of p @ rest) = be_bytes LENGTH_BYTES (length p)"
    "drop LENGTH_BYTES (frame_of p @ rest) = p @ rest" by (simp_all add: frame_of_def)
  have dr: "drop (LENGTH_BYTES + length p) (frame_of p @ rest) = rest" by simp
  show ?thesis
    using encoded_nonempty [OF p(1)] p(2) st new c idx dec
    by (simp add: replay_loop.simps [of H tvl fse "frame_of p @ rest"] td dr payload_header [OF p(2)] Let_def)
      (simp add: frame_of_def)
qed

text \<open>A frame that is not all there ends the replay.\<close>

lemma replay_loop_torn:
  assumes "cbor_encode tve e = Inr p" "length p \<le> MAX_RECORD_BYTES" "k < length (frame_of p)"
  shows "replay_loop H tvl fse (take k (frame_of p)) st = Inr st"
proof (cases "k < LENGTH_BYTES")
  case True
  then show ?thesis by (simp add: replay_loop.simps [of H tvl fse "take k (frame_of p)"])
next
  case False
  then have td: "take LENGTH_BYTES (take k (frame_of p)) = be_bytes LENGTH_BYTES (length p)"
    by (simp add: min_def)
  have "k - LENGTH_BYTES < length p" using assms(3) False by auto
  then show ?thesis using assms(3) False
    by (simp add: replay_loop.simps [of H tvl fse "take k (frame_of p)"] td payload_header [OF assms(2)] Let_def)
qed

text \<open>Replaying the frames of a log, from any point of it.\<close>

lemma replay_loop_frames:
  assumes codec: "codec_ok tve fse"
  shows "log_ok H tvl (rp_tree st) \<Longrightarrow> log_ok H tvl log \<Longrightarrow> log_entries log = log_entries (rp_tree st) @ es \<Longrightarrow>
    \<forall>e\<in>set es. writable tve e \<Longrightarrow> distinct (map entry_transformation (log_entries log)) \<Longrightarrow>
    keys_ok (log_entries (rp_tree st)) (rp_by_key st) \<Longrightarrow> rp_good st = length (frames tve (log_entries (rp_tree st))) \<Longrightarrow>
    rp_tail st = last_frame tve (log_entries (rp_tree st)) \<Longrightarrow>
    \<exists>by_key. keys_ok (log_entries log) by_key
      \<and> replay_loop H tvl fse (frames tve es @ junk) st = replay_loop H tvl fse junk
         \<lparr>rp_tree = log, rp_by_key = by_key, rp_good = length (frames tve (log_entries log)),
          rp_tail = last_frame tve (log_entries log)\<rparr>"
proof (induction es arbitrary: st)
  case Nil
  have tree: "rp_tree st = log"
    by (rule log_ok_unique [OF Nil.prems(1,2)]) (simp add: Nil.prems(3))
  have "st = \<lparr>rp_tree = log, rp_by_key = rp_by_key st, rp_good = length (frames tve (log_entries log)),
      rp_tail = last_frame tve (log_entries log)\<rparr>"
    using Nil.prems(7,8) tree by (intro replayed.equality) simp_all
  then show ?case using Nil.prems(6) tree by (metis append_Nil frames_simps(1))
next
  case (Cons e es)
  let ?tree = "rp_tree st"
  let ?n = "log_len ?tree"
  have e: "log_entries log ! ?n = e" "?n < log_len log" using Cons.prems(3) by (simp_all add: log_len_def)
  have le: "log_leaves log ! ?n = leaf_cid e"
    using log_okD(1) [OF Cons.prems(2)] e by (simp add: log_len_def)
  have st: "stage H tvl ?tree (entry_transformation e) (entry_receipt e) (appended_at e) = Inr e"
    by (rule stage_same) (use log_okD(4,5) [OF Cons.prems(2) e(2)] e(1) le in auto)
  obtain p where p: "cbor_encode tve e = Inr p" "length p \<le> MAX_RECORD_BYTES"
    using Cons.prems(4) by (auto simp: writable_def)
  have fr: "entry_frame tve e = frame_of p" using p by (simp add: entry_frame_def)
  have new: "rp_by_key st (entry_transformation e) = None"
    using keys_ok_fresh [OF Cons.prems(6)] Cons.prems(3,5) by auto
  obtain tree where c: "log_commit H e ?tree = Inr tree" "log_entries tree = log_entries ?tree @ [e]"
    using log_commit_total [OF log_okD(3) [OF Cons.prems(1)]] by blast
  have "log_append H tvl ?tree (entry_transformation e) (entry_receipt e) (appended_at e) = Inr (tree, e)"
    using st c by (simp add: log_append_def)
  then have tok: "log_ok H tvl tree" using log_append_Inr(1) [OF Cons.prems(1)] by blast
  let ?st = "\<lparr>rp_tree = tree, rp_by_key = (rp_by_key st)(entry_transformation e \<mapsto> entry_index e),
     rp_good = rp_good st + length (frame_of p), rp_tail = Some (rp_good st, frame_of p)\<rparr>"
  have "replay_loop H tvl fse (frames tve (e # es) @ junk) st = replay_loop H tvl fse (frames tve es @ junk) ?st"
    using replay_loop_frame [OF codec st p new c(1), of "frames tve es @ junk"] fr by simp
  moreover have keys: "keys_ok (log_entries (rp_tree ?st)) (rp_by_key ?st)"
    using keys_ok_snoc [OF Cons.prems(6) new] stage_Inr(1) [OF st] by (simp add: c(2) log_len_def)
  have "\<exists>by_key. keys_ok (log_entries log) by_key
      \<and> replay_loop H tvl fse (frames tve es @ junk) ?st = replay_loop H tvl fse junk
         \<lparr>rp_tree = log, rp_by_key = by_key, rp_good = length (frames tve (log_entries log)),
          rp_tail = last_frame tve (log_entries log)\<rparr>"
    by (rule Cons.IH [OF _ Cons.prems(2) _ _ Cons.prems(5) keys]) (use tok Cons.prems c(2) fr in simp_all)
  ultimately show ?case by simp
qed

lemma replay_frames:
  assumes "codec_ok tve fse" "log_ok H tvl log" "\<forall>e\<in>set (log_entries log). writable tve e"
    "distinct (map entry_transformation (log_entries log))"
  shows "\<exists>by_key. keys_ok (log_entries log) by_key
      \<and> replay H tvl fse (frames tve (log_entries log) @ junk) = replay_loop H tvl fse junk
         \<lparr>rp_tree = log, rp_by_key = by_key, rp_good = length (frames tve (log_entries log)),
          rp_tail = last_frame tve (log_entries log)\<rparr>"
  unfolding replay_def using replay_loop_frames [OF assms(1), of H tvl replay_start log "log_entries log" junk] assms
  by (simp add: replay_start_def new_log_def log_ok_def cache_ok_def)

section \<open>What an append does\<close>

lemma store_okD:
  assumes "store_ok H tvl tve dir store"
  shows "ls_present store" "\<not> ls_read_only store" "log_ok H tvl (ls_tree store)"
    "keys_ok (log_entries (ls_tree store)) (ls_by_key store)"
    "\<forall>e\<in>set (log_entries (ls_tree store)). writable tve e"
    "ld_file dir = Some (frames tve (log_entries (ls_tree store)))"
    "ls_bytes store = length (frames tve (log_entries (ls_tree store)))"
    "ls_tail store = last_frame tve (log_entries (ls_tree store))"
  using assms by (simp_all add: store_ok_def)

lemma keys_ok_distinct: "keys_ok es m \<Longrightarrow> distinct (map entry_transformation es)"
  unfolding distinct_conv_nth keys_ok_def by (metis length_map nth_map option.inject)

text \<open>
  Either nothing changes, or a new entry was staged and some prefix of its frame reached the file;
  the answer is \<open>Appended\<close> only when the whole frame did and the tree took the entry.
\<close>

definition wrote ::
  "(ledger_entry \<Rightarrow> string + bytes) \<Rightarrow> ledger_dir \<Rightarrow> ledger_store \<Rightarrow> ledger_entry \<Rightarrow> nat \<Rightarrow> ledger_dir \<Rightarrow> bool" where
  "wrote tve dir store e k dir' \<longleftrightarrow>
     dir' = dir\<lparr>ld_file := Some (frames tve (log_entries (ls_tree store)) @ take k (entry_frame tve e))\<rparr>"

lemma append_effect:
  assumes ok: "store_ok H tvl tve dir store"
    and a: "ledger_append H tvl tve outcome t r at dir store = (res, dir', store')"
  shows "(dir' = dir \<and> store' = store \<and> (\<forall>e. res \<noteq> Inr (Appended e)))
    \<or> (\<exists>e k. ls_by_key store t = None \<and> stage H tvl (ls_tree store) t r at = Inr e \<and> writable tve e
        \<and> wrote tve dir store e k dir'
        \<and> (is_ok res \<longrightarrow> res = Inr (Appended e) \<and> k \<ge> length (entry_frame tve e)
             \<and> store_ok H tvl tve dir' store' \<and> log_entries (ls_tree store') = log_entries (ls_tree store) @ [e])
        \<and> (\<not> is_ok res \<longrightarrow> store' = store))"
proof (cases "ls_by_key store t = None \<and> (\<exists>e. stage H tvl (ls_tree store) t r at = Inr e \<and> writable tve e)")
  case False
  note D = store_okD [OF ok]
  show ?thesis
  proof (cases "ls_by_key store t")
    case (Some i)
    then show ?thesis using a D(2) by (auto simp: ledger_append_def split: option.splits if_splits)
  next
    case None
    show ?thesis
    proof (cases "stage H tvl (ls_tree store) t r at")
      case (Inl e)
      then show ?thesis using a D(2) None by (auto simp: ledger_append_def)
    next
      case (Inr e)
      then have "\<not> writable tve e" using False None by auto
      then show ?thesis using a D(1,2,6) None Inr
        by (cases "cbor_encode tve e")
          (auto simp: ledger_append_def write_and_sync_def frame_write_and_sync_def writable_def
            store_ok_def split: option.splits)
    qed
  qed
next
  case True
  note D = store_okD [OF ok]
  obtain e p where e: "stage H tvl (ls_tree store) t r at = Inr e" "cbor_encode tve e = Inr p"
    "length p \<le> MAX_RECORD_BYTES" and new: "ls_by_key store t = None" using True by (auto simp: writable_def)
  have w: "writable tve e" using e by (auto simp: writable_def)
  have fr: "entry_frame tve e = frame_of p" using e by (simp add: entry_frame_def)
  have te: "entry_transformation e = t" "entry_index e = length (log_entries (ls_tree store))"
    using stage_Inr(1,3) [OF e(1)] by (simp_all add: log_len_def)
  obtain tree where c: "log_commit H e (ls_tree store) = Inr tree"
    "log_entries tree = log_entries (ls_tree store) @ [e]"
    using log_commit_total [OF log_okD(3) [OF D(3)]] by blast
  have "log_append H tvl (ls_tree store) t r at = Inr (tree, e)" using e(1) c by (simp add: log_append_def)
  then have tok: "log_ok H tvl tree" using log_append_Inr(1) [OF D(3)] by blast
  let ?f = "frames tve (log_entries (ls_tree store))"
  let ?dir = "\<lambda>k. dir\<lparr>ld_file := Some (?f @ take k (entry_frame tve e))\<rparr>"
  show ?thesis
  proof (cases outcome)
    case WriteOk
    let ?s = "store\<lparr>ls_tail := Some (ls_bytes store, frame_of p), ls_bytes := ls_bytes store + (LENGTH_BYTES + length p),
        ls_tree := tree, ls_by_key := (ls_by_key store)(t \<mapsto> entry_index e)\<rparr>"
    have r: "res = Inr (Appended e)" "dir' = ?dir (length (entry_frame tve e))" "store' = ?s"
      using a D(1,2,6) e new c fr WriteOk
      by (auto simp: ledger_append_def write_and_sync_def frame_write_and_sync_def)
    have "keys_ok (log_entries tree) ((ls_by_key store)(t \<mapsto> entry_index e))"
      using keys_ok_snoc [OF D(4), of e] new te c(2) by simp
    then have "store_ok H tvl tve dir' store'"
      unfolding store_ok_def r using D tok c(2) w fr by simp
    then show ?thesis using r new e(1) w c
      by (intro disjI2 exI [of _ e] exI [of _ "length (entry_frame tve e)"]) (simp add: wrote_def)
  next
    case (WriteFails k)
    have r: "\<not> is_ok res" "dir' = ?dir k" "store' = store"
      using a D(1,2,6) e new fr WriteFails
      by (auto simp: ledger_append_def write_and_sync_def frame_write_and_sync_def)
    then show ?thesis using new e(1) w by (intro disjI2 exI [of _ e] exI [of _ k]) (simp add: wrote_def)
  next
    case SyncFails
    have r: "\<not> is_ok res" "dir' = ?dir (length (entry_frame tve e))" "store' = store"
      using a D(1,2,6) e new fr SyncFails
      by (auto simp: ledger_append_def write_and_sync_def frame_write_and_sync_def)
    then show ?thesis using new e(1) w
      by (intro disjI2 exI [of _ e] exI [of _ "length (entry_frame tve e)"]) (simp add: wrote_def)
  qed
qed

section \<open>Opening what an append left\<close>

lemma open_frames:
  assumes codec: "codec_ok tve fse" and log: "log_ok H tvl log" "\<forall>e\<in>set (log_entries log). writable tve e"
      "distinct (map entry_transformation (log_entries log))"
    and fl: "ld_file dir = Some (frames tve (log_entries log) @ junk)"
    and junk: "\<And>st. replay_loop H tvl fse junk st = Inr st"
  shows "\<exists>s dir'. ledger_open H tvl fse CopyOk dir = (Inr s, dir') \<and> store_ok H tvl tve dir' s \<and> ls_tree s = log
    \<and> ls_recovery s = \<lparr>rec_records = log_len log, rec_torn_tail_bytes = length junk\<rparr>"
proof -
  obtain by_key where k: "keys_ok (log_entries log) by_key"
    "replay H tvl fse (frames tve (log_entries log) @ junk) = Inr
         \<lparr>rp_tree = log, rp_by_key = by_key, rp_good = length (frames tve (log_entries log)),
          rp_tail = last_frame tve (log_entries log)\<rparr>"
    using replay_frames [OF codec log, of junk] junk by auto
  show ?thesis
  proof (cases "junk = []")
    case True
    then show ?thesis using k fl log by (auto simp: ledger_open_def store_of_def store_ok_def Let_def)
  next
    case False
    then show ?thesis using k fl log
      by (auto simp: ledger_open_def quarantine_def store_of_def store_ok_def Let_def)
  qed
qed

lemma open_after_write:
  assumes codec: "codec_ok tve fse" and ok: "store_ok H tvl tve dir store"
    and e: "stage H tvl (ls_tree store) t r at = Inr e" "writable tve e" "ls_by_key store t = None"
    and w: "wrote tve dir store e k dir'"
  shows "\<exists>s dir''. ledger_open H tvl fse CopyOk dir' = (Inr s, dir'') \<and> store_ok H tvl tve dir'' s
    \<and> log_entries (ls_tree s) = log_entries (ls_tree store) @ (if k < length (entry_frame tve e) then [] else [e])"
proof -
  note D = store_okD [OF ok]
  obtain p where p: "cbor_encode tve e = Inr p" "length p \<le> MAX_RECORD_BYTES" using e(2) by (auto simp: writable_def)
  have fr: "entry_frame tve e = frame_of p" using p by (simp add: entry_frame_def)
  show ?thesis
  proof (cases "k < length (entry_frame tve e)")
    case True
    have F: "ld_file dir' = Some (frames tve (log_entries (ls_tree store)) @ take k (entry_frame tve e))"
      using w by (simp add: wrote_def)
    have J: "\<And>st. replay_loop H tvl fse (take k (entry_frame tve e)) st = Inr st"
      using replay_loop_torn [OF p] True fr by simp
    from open_frames [OF codec D(3,5) keys_ok_distinct [OF D(4)] F J] True show ?thesis by auto
  next
    case False
    obtain tree where t: "log_append H tvl (ls_tree store) t r at = Inr (tree, e)"
      using log_append_total [OF D(3) e(1)] by blast
    note T = log_append_Inr [OF D(3) t]
    have K: "keys_ok (log_entries tree) ((ls_by_key store)(t \<mapsto> entry_index e))"
      using keys_ok_snoc [OF D(4), of e] e(3) stage_Inr [OF e(1)] T(2) by (simp add: log_len_def)
    have F: "ld_file dir' = Some (frames tve (log_entries tree) @ [])"
      using w False T(2) by (simp add: wrote_def)
    have W: "\<forall>e\<in>set (log_entries tree). writable tve e" using D(5) e(2) T(2) by auto
    have J: "\<And>st. replay_loop H tvl fse [] st = Inr st"
      by (simp add: replay_loop.simps [of H tvl fse "[]"] LENGTH_BYTES_def)
    from open_frames [OF codec T(1) W keys_ok_distinct [OF K] F J] False T(2) show ?thesis by auto
  qed
qed

section \<open>A concrete store\<close>

text \<open>A codec for two entries, and an empty directory.\<close>

definition other_cid :: cid where
  "other_cid = Cid (replicate 32 1)"

definition sample_tve :: "ledger_entry \<Rightarrow> string + bytes" where
  "sample_tve e =
     (if e = log_entries sample_log ! 0 then Inr [0]
      else if e = (log_entries sample_log ! 0)\<lparr>entry_transformation := other_cid\<rparr> then Inr [1]
      else if e = (log_entries sample_log ! 0)\<lparr>entry_index := 1\<rparr> then Inr [2]
      else Inl [])"

definition sample_fse :: "bytes \<Rightarrow> string + ledger_entry" where
  "sample_fse bs =
     (if bs = [0] then Inr (log_entries sample_log ! 0)
      else if bs = [1] then Inr ((log_entries sample_log ! 0)\<lparr>entry_transformation := other_cid\<rparr>)
      else if bs = [2] then Inr ((log_entries sample_log ! 0)\<lparr>entry_index := 1\<rparr>)
      else Inl [])"

definition empty_dir :: ledger_dir where
  "empty_dir = \<lparr>ld_file = None, ld_torn = (\<lambda>_. None)\<rparr>"

abbreviation sample_H :: "bytes \<Rightarrow> cid" where
  "sample_H \<equiv> \<lambda>_. sample_cid"

abbreviation sample_tvl :: "ledger_leaf \<Rightarrow> string + bytes" where
  "sample_tvl \<equiv> \<lambda>_. Inr [0]"

lemma sample_codec: "codec_ok sample_tve sample_fse"
  by (auto simp: codec_ok_def sample_tve_def sample_fse_def split: if_splits)

definition fresh_store :: ledger_store where
  "fresh_store = store_of replay_start 0 False None"

lemma empty_store:
  "ledger_open H tvl fse copy empty_dir = (Inr fresh_store, \<lparr>ld_file = Some [], ld_torn = (\<lambda>_. None)\<rparr>)"
  "store_ok H tvl tve \<lparr>ld_file = Some [], ld_torn = (\<lambda>_. None)\<rparr> fresh_store"
  by (simp_all add: ledger_open_def empty_dir_def replay_def replay_loop.simps [of H tvl fse "[]"] LENGTH_BYTES_def
      replay_start_def fresh_store_def store_ok_def store_of_def Let_def new_log_def log_ok_def cache_ok_def)

section \<open>Properties\<close>

text \<open>
  C21. Crash safety of one append to the ledger file. Let the file, the tree and the key index agree, as
  they do after an opening and as long as no append has failed since. Whatever happens to the write
  (it completes, it stops after any number of bytes, the sync fails), the next opening, if it can copy
  a torn tail aside, succeeds, restores that agreement, and finds the entries from before the append or
  those and the staged entry; if the append answered \<open>Appended e\<close>, the entry is there.
\<close>

theorem append_crash_safe:
  assumes "codec_ok tve fse" "store_ok H tvl tve dir store"
    "ledger_append H tvl tve outcome t r at dir store = (res, dir', store')"
  shows "\<exists>s dir''. ledger_open H tvl fse CopyOk dir' = (Inr s, dir'') \<and> store_ok H tvl tve dir'' s
    \<and> (log_entries (ls_tree s) = log_entries (ls_tree store)
       \<or> (\<exists>e. stage H tvl (ls_tree store) t r at = Inr e
            \<and> log_entries (ls_tree s) = log_entries (ls_tree store) @ [e]))
    \<and> (\<forall>e. res = Inr (Appended e) \<longrightarrow> log_entries (ls_tree s) = log_entries (ls_tree store) @ [e])"
  using append_effect [OF assms(2,3)]
proof (elim disjE exE conjE)
  assume same: "dir' = dir" "\<forall>e. res \<noteq> Inr (Appended e)"
  note D = store_okD [OF assms(2)]
  have "\<And>st. replay_loop H tvl fse [] st = Inr st"
    by (simp add: replay_loop.simps [of H tvl fse "[]"] LENGTH_BYTES_def)
  from open_frames [OF assms(1) D(3,5) keys_ok_distinct [OF D(4)] _ this, of dir] D(6) same
  show ?thesis by auto
next
  fix e k
  assume h: "ls_by_key store t = None" "stage H tvl (ls_tree store) t r at = Inr e" "writable tve e"
    "wrote tve dir store e k dir'"
    "is_ok res \<longrightarrow> res = Inr (Appended e) \<and> k \<ge> length (entry_frame tve e)
       \<and> store_ok H tvl tve dir' store' \<and> log_entries (ls_tree store') = log_entries (ls_tree store) @ [e]"
  from open_after_write [OF assms(1,2) h(2,3,1,4)] h(2,5) show ?thesis
    by (cases "k < length (entry_frame tve e)") auto
qed

theorem append_crash_safe_witness:
  "\<exists>res dir' store' s dir''. ledger_append sample_H sample_tvl sample_tve (WriteFails 3) sample_cid sample_cid 7
      \<lparr>ld_file = Some [], ld_torn = (\<lambda>_. None)\<rparr> fresh_store = (res, dir', store')
    \<and> ledger_open sample_H sample_tvl sample_fse CopyOk dir' = (Inr s, dir'')
    \<and> store_ok sample_H sample_tvl sample_tve dir'' s"
proof -
  obtain res dir' store' where a: "ledger_append sample_H sample_tvl sample_tve (WriteFails 3) sample_cid sample_cid 7
      \<lparr>ld_file = Some [], ld_torn = (\<lambda>_. None)\<rparr> fresh_store = (res, dir', store')" by (rule prod_cases3)
  from append_crash_safe [OF sample_codec empty_store(2) a] a show ?thesis by blast
qed

text \<open>
  Appends are idempotent by key: after an entry was appended, offering the same transformation
  with the same receipt digest again answers with the entry in the log, offering it with another
  digest is a conflict that names both digests, and neither touches the file, the tree or the index;
  the appended entry is the last of the log and the store is consistent with the file.
\<close>

theorem append_idempotent:
  assumes "store_ok H tvl tve dir store"
    "ledger_append H tvl tve outcome t r at dir store = (Inr (Appended e), dir', store')"
  shows "store_ok H tvl tve dir' store' \<and> log_entries (ls_tree store') = log_entries (ls_tree store) @ [e]
    \<and> entry_transformation e = t \<and> entry_receipt e = r
    \<and> ledger_append H tvl tve outcome' t r at' dir' store' = (Inr (AlreadyPresent e), dir', store')
    \<and> (r' \<noteq> r \<longrightarrow> ledger_append H tvl tve outcome' t r' at' dir' store' = (Inl (Conflict t r r'), dir', store'))"
proof -
  from append_effect [OF assms] have n: "store_ok H tvl tve dir' store'"
    "log_entries (ls_tree store') = log_entries (ls_tree store) @ [e]"
    "stage H tvl (ls_tree store) t r at = Inr e" by auto
  note D = store_okD [OF n(1)]
  have t: "entry_transformation e = t" "entry_receipt e = r" using stage_Inr [OF n(3)] by auto
  have "ls_by_key store' t = Some (length (log_entries (ls_tree store)))"
    using D(4) n(2) t(1) by (simp add: keys_ok_def)
  moreover have "log_entry (ls_tree store') (length (log_entries (ls_tree store))) = Some e"
    using n(2) by (simp add: log_entry_def)
  ultimately show ?thesis using n t D(2) by (simp add: ledger_append_def)
qed

theorem append_idempotent_witness:
  "\<exists>e dir' store'. ledger_append sample_H sample_tvl sample_tve WriteOk sample_cid sample_cid 7
      \<lparr>ld_file = Some [], ld_torn = (\<lambda>_. None)\<rparr> fresh_store = (Inr (Appended e), dir', store')
    \<and> ledger_append sample_H sample_tvl sample_tve WriteOk sample_cid sample_cid 8 dir' store'
        = (Inr (AlreadyPresent e), dir', store')"
proof -
  have "\<exists>e dir' store'. ledger_append sample_H sample_tvl sample_tve WriteOk sample_cid sample_cid 7
      \<lparr>ld_file = Some [], ld_torn = (\<lambda>_. None)\<rparr> fresh_store = (Inr (Appended e), dir', store')"
    by (simp add: ledger_append_def fresh_store_def store_of_def replay_start_def stage_def leaf_hash_def
        mint_leaf_def cbor_encode_def scan_strict_zero mint_def digest_def new_log_def log_len_def Let_def
        sample_tve_def sample_log_def write_and_sync_def frame_write_and_sync_def MAX_RECORD_BYTES_def
        push_bit_eq_mult log_commit_def TILE_WIDTH_def)
  then obtain e dir' store' where a: "ledger_append sample_H sample_tvl sample_tve WriteOk sample_cid sample_cid 7
      \<lparr>ld_file = Some [], ld_torn = (\<lambda>_. None)\<rparr> fresh_store = (Inr (Appended e), dir', store')" by blast
  from append_idempotent [OF empty_store(2) a] a show ?thesis by blast
qed

text \<open>
  Opening for writing cuts no byte it has not first copied aside: if the opening succeeds, the
  file is what it was, or its replayable prefix, and then a copy of the whole file, under the name
  the store reports, was made unless a copy of that name was already there.
\<close>

theorem open_keeps_evidence:
  assumes "ledger_open H tvl fse copy dir = (Inr s, dir')" "ld_file dir = Some f"
  shows "(ld_file dir' = Some f \<and> ls_quarantined s = None \<and> ld_torn dir' = ld_torn dir)
    \<or> (\<exists>target. ls_quarantined s = Some target \<and> ld_file dir' = Some (take (ls_bytes s) f)
        \<and> snd target = length f
        \<and> (ld_torn dir target = None \<longrightarrow> ld_torn dir' target = Some f)
        \<and> (\<forall>name. ld_torn dir name \<noteq> None \<longrightarrow> ld_torn dir' name = ld_torn dir name))"
  using assms
  by (auto simp: ledger_open_def quarantine_def store_of_def Let_def split: sum.splits if_splits copy_outcome.splits)

theorem open_keeps_evidence_witness:
  "\<exists>s dir'. ledger_open sample_H sample_tvl sample_fse CopyOk \<lparr>ld_file = Some [7], ld_torn = (\<lambda>_. None)\<rparr> = (Inr s, dir')
    \<and> ld_torn dir' (0, 1) = Some [7]"
proof -
  have o: "ledger_open sample_H sample_tvl sample_fse CopyOk \<lparr>ld_file = Some [7], ld_torn = (\<lambda>_. None)\<rparr> =
      (Inr (store_of replay_start 1 False (Some (0, 1))), \<lparr>ld_file = Some [], ld_torn = [(0, 1) \<mapsto> [7]]\<rparr>)"
    by (simp add: ledger_open_def replay_def replay_loop.simps [of _ _ _ "[7]"] LENGTH_BYTES_def replay_start_def
        quarantine_def Let_def fun_upd_def)
  from open_keeps_evidence [OF o] o show ?thesis by simp
qed

section \<open>Defects\<close>

text \<open>
  A file in which a second record carries a key already replayed: \<open>replay\<close> stops before it but
  has already moved the key in the index to the index of the record it refuses. The tree has no
  such leaf, so the next append under that key does not answer \<open>AlreadyPresent\<close>: it panics.
\<close>

theorem duplicate_record_poisons_index:
  assumes "codec_ok tve fse" "log_ok H tvl log" "\<forall>e\<in>set (log_entries log). writable tve e"
    "distinct (map entry_transformation (log_entries log))"
    and e: "stage H tvl log t r at = Inr e" "cbor_encode tve e = Inr p" "length p \<le> MAX_RECORD_BYTES"
    and dup: "t \<in> entry_transformation ` set (log_entries log)"
    and fl: "ld_file dir = Some (frames tve (log_entries log) @ frame_of p)"
  shows "\<exists>s dir'. ledger_open H tvl fse CopyOk dir = (Inr s, dir') \<and> ls_tree s = log
    \<and> ls_by_key s t = Some (log_len log) \<and> log_entry (ls_tree s) (log_len log) = None
    \<and> fst (ledger_append H tvl tve outcome t r' at' dir' s) = Inl LogPanic"
proof -
  let ?fr = "frames tve (log_entries log)"
  obtain by_key where k: "keys_ok (log_entries log) by_key"
    "replay H tvl fse (?fr @ frame_of p) = replay_loop H tvl fse (frame_of p)
         \<lparr>rp_tree = log, rp_by_key = by_key, rp_good = length ?fr, rp_tail = last_frame tve (log_entries log)\<rparr>"
    using replay_frames [OF assms(1-4), of "frame_of p"] by auto
  let ?st = "\<lparr>rp_tree = log, rp_by_key = by_key, rp_good = length ?fr, rp_tail = last_frame tve (log_entries log)\<rparr>"
  have te: "entry_transformation e = t" "entry_index e = log_len log" "entry_receipt e = r" "appended_at e = at"
    using stage_Inr [OF e(1)] by auto
  have "scan_strict p = Inr ()" "tve e = Inr p" using cbor_encode_canonical [OF e(2)] by auto
  then have dec: "cbor_decode fse p = Inr e" using assms(1) by (simp add: cbor_decode_def codec_ok_def)
  obtain i where i: "by_key t = Some i" using keys_ok_fresh [OF k(1), of t] dup by auto
  have "replay_loop H tvl fse (frame_of p) ?st = Inr (?st\<lparr>rp_by_key := by_key(t \<mapsto> log_len log)\<rparr>)"
    using encoded_nonempty [OF e(2)] e dec te i
    by (simp add: replay_loop.simps [of H tvl fse "frame_of p"] payload_header [OF e(3)] Let_def)
  with k(2) fl show ?thesis
    by (auto simp: ledger_open_def quarantine_def store_of_def Let_def log_entry_def log_len_def ledger_append_def)
qed

text \<open>
  A copy that fails part way stops the opening, as it should, but leaves a file of the quarantine's
  name behind; the next opening takes that for the copy, and cuts the tail of which only a part was
  kept.
\<close>

theorem partial_quarantine_is_trusted:
  assumes "ld_file dir = Some f" "replay H tvl fse f = Inr rp" "rp_good rp < length f"
    "ld_torn dir (rp_good rp, length f) = None"
  shows "\<exists>e dir1 s dir2. ledger_open H tvl fse (CopyFails k) dir = (Inl e, dir1)
    \<and> ledger_open H tvl fse CopyOk dir1 = (Inr s, dir2)
    \<and> ld_file dir2 = Some (take (rp_good rp) f) \<and> ld_torn dir2 (rp_good rp, length f) = Some (take k f)"
  using assms by (simp add: ledger_open_def quarantine_def Let_def)

text \<open>
  A store stays usable after a failed write, but the bytes that did reach the file are not removed:
  a later append is written behind them and acknowledged, and the next opening cuts it together
  with them. (The engine reopens the ledger before it writes, which removes the leftover; the store
  itself does not.)
\<close>

lemma scan_strict_one: "scan_strict [1] = Inr ()"
proof -
  have "fits 0 (CUInt 1)" "enc (CUInt 1) = [1]" by (simp_all add: enc_head_def head_byte_def MAX_DEPTH_def)
  then show ?thesis using scan_strict_iff [of "[1]"] by (simp del: fits.simps enc.simps) blast
qed

lemma other_cid_neq: "other_cid \<noteq> sample_cid" "sample_cid \<noteq> other_cid"
  by (auto simp: other_cid_def sample_cid_def cid_eq_iff)

lemma sample_frame: "frame_of [x] = [0, 0, 0, 1, x]"
proof -
  have "LENGTH_BYTES = Suc (Suc (Suc (Suc 0)))" by (simp add: LENGTH_BYTES_def)
  then have "be_bytes LENGTH_BYTES 1 = be_bytes (Suc (Suc (Suc (Suc 0)))) 1" by (rule arg_cong)
  also have "\<dots> = [0, 0, 0, 1]" by simp
  finally show ?thesis by (simp add: frame_of_def)
qed

lemmas sample_run_simps = ledger_append_def fresh_store_def store_of_def replay_start_def stage_def leaf_hash_def
  mint_leaf_def cbor_encode_def scan_strict_zero scan_strict_one mint_def digest_def new_log_def log_len_def Let_def
  sample_tve_def sample_log_def write_and_sync_def frame_write_and_sync_def MAX_RECORD_BYTES_def
  push_bit_eq_mult log_commit_def TILE_WIDTH_def other_cid_neq sample_frame

theorem acknowledged_append_lost:
  "\<exists>err dir1 e dir2 store2 s dir3.
     ledger_append sample_H sample_tvl sample_tve (WriteFails 1) sample_cid sample_cid 7
       \<lparr>ld_file = Some [], ld_torn = (\<lambda>_. None)\<rparr> fresh_store = (Inl err, dir1, fresh_store)
   \<and> ledger_append sample_H sample_tvl sample_tve WriteOk other_cid sample_cid 7 dir1 fresh_store
       = (Inr (Appended e), dir2, store2)
   \<and> ledger_open sample_H sample_tvl sample_fse CopyOk dir2 = (Inr s, dir3)
   \<and> log_entries (ls_tree s) = [] \<and> ld_file dir3 = Some []"
proof -
  let ?d1 = "\<lparr>ld_file = Some [0], ld_torn = (\<lambda>_. None)\<rparr>"
  let ?d2 = "\<lparr>ld_file = Some [0, 0, 0, 0, 1, 1], ld_torn = (\<lambda>_. None)\<rparr>"
  have 1: "ledger_append sample_H sample_tvl sample_tve (WriteFails 1) sample_cid sample_cid 7
       \<lparr>ld_file = Some [], ld_torn = (\<lambda>_. None)\<rparr> fresh_store = (Inl (Io ''write''), ?d1, fresh_store)"
    by (simp add: sample_run_simps)
  have 2: "\<exists>e store2. ledger_append sample_H sample_tvl sample_tve WriteOk other_cid sample_cid 7 ?d1 fresh_store
       = (Inr (Appended e), ?d2, store2)"
    by (simp add: sample_run_simps)
  have r: "replay sample_H sample_tvl sample_fse [0, 0, 0, 0, 1, 1] = Inr replay_start"
    by (simp add: replay_def replay_loop.simps [of _ _ _ "[0, 0, 0, 0, 1, 1]"] LENGTH_BYTES_def be_nat_def)
  have 3: "\<exists>s dir3. ledger_open sample_H sample_tvl sample_fse CopyOk ?d2 = (Inr s, dir3)
      \<and> log_entries (ls_tree s) = [] \<and> ld_file dir3 = Some []"
    by (simp add: ledger_open_def r quarantine_def Let_def store_of_def) (simp add: replay_start_def new_log_def)
  from 1 2 3 show ?thesis by blast
qed

end
