(* ===== verification/Verdict_Log.thy ===== *)
theory Verdict_Log
  imports Log_Proof Ledger_Store
begin

text \<open>
  The verdict chain: \<open>VerdictTally\<close> and \<open>VerdictCheckpoint\<close> of
  \<open>src/crates/gx-core/src/ledger.rs\<close>, their audit in \<open>src/crates/gx-log/src/proof.rs\<close>, and the
  file they are kept in, \<open>VerdictCheckpointStore\<close> of \<open>src/crates/gx-log/src/store.rs\<close>.

  The counters are \<open>u64\<close> and the source adds them with \<open>+\<close>, which wraps in a release
  build; here they are \<open>64 word\<close>. What the audit shows is stated for chains whose sums stay
  below \<open>2 ^ 64\<close>; \<open>wrapped_total_hides_underreporting\<close> shows what happens otherwise.
\<close>

section \<open>Tallies and checkpoints\<close>

datatype verdict_kind = Admit | Deny | Escalate

record verdict_tally =
  vt_deny :: u64
  vt_admit :: u64
  vt_escalate :: u64
  vt_unverdicted :: u64

definition tally_total :: "verdict_tally \<Rightarrow> u64" where
  "tally_total t = vt_deny t + vt_admit t + vt_escalate t + vt_unverdicted t"

definition tally_default :: verdict_tally where
  "tally_default = \<lparr>vt_deny = 0, vt_admit = 0, vt_escalate = 0, vt_unverdicted = 0\<rparr>"

record verdict_checkpoint =
  vc_origin :: string
  vc_tally :: verdict_tally
  vc_window_start :: u64
  vc_window_end :: u64
  vc_ledger_root_hash :: "cid option"
  vc_ledger_tree_size :: u64
  vc_timestamp :: timestamp
  vc_signature :: dsse_signature

record verdict_checkpoint_core =
  vcc_tally :: verdict_tally
  vcc_origin :: string
  vcc_window_end :: u64
  vcc_window_start :: u64
  vcc_ledger_root_hash :: "cid option"
  vcc_ledger_tree_size :: u64

definition verdict_checkpoint_signing_bytes ::
  "(verdict_checkpoint_core \<Rightarrow> string + bytes) \<Rightarrow> verdict_checkpoint \<Rightarrow> log_error + bytes" where
  "verdict_checkpoint_signing_bytes tv ck =
     map_err Canon (cbor_encode tv \<lparr>vcc_tally = vc_tally ck, vcc_origin = vc_origin ck,
       vcc_window_end = vc_window_end ck, vcc_window_start = vc_window_start ck,
       vcc_ledger_root_hash = vc_ledger_root_hash ck, vcc_ledger_tree_size = vc_ledger_tree_size ck\<rparr>)"

definition unsigned_verdict_checkpoint ::
  "(bytes \<Rightarrow> cid) \<Rightarrow> tile_log \<Rightarrow> string \<Rightarrow> u64 \<times> u64 \<Rightarrow> verdict_tally \<Rightarrow> timestamp \<Rightarrow> log_error + verdict_checkpoint" where
  "unsigned_verdict_checkpoint H log origin window tally ts =
     and_then (log_root H log) (\<lambda>root.
     Inr \<lparr>vc_origin = origin, vc_tally = tally, vc_window_start = fst window, vc_window_end = snd window,
          vc_ledger_root_hash = root, vc_ledger_tree_size = of_nat (log_len log), vc_timestamp = ts,
          vc_signature = \<lparr>sig_keyid = [], sig_bytes = []\<rparr>\<rparr>)"

section \<open>The audit\<close>

datatype chain_break =
    Gap u64 u64
  | WindowDoesNotMatchTally u64 u64
  | Underreported verdict_kind u64 u64
  | BehindTheLedger u64 u64
  | LedgerWentBackwards u64 u64

definition saturating_sub :: "u64 \<Rightarrow> u64 \<Rightarrow> u64" where
  "saturating_sub a b = (if a < b then 0 else a - b)"

definition tally_add :: "verdict_tally \<Rightarrow> verdict_tally \<Rightarrow> verdict_tally" where
  "tally_add a b = \<lparr>vt_deny = vt_deny a + vt_deny b, vt_admit = vt_admit a + vt_admit b,
     vt_escalate = vt_escalate a + vt_escalate b, vt_unverdicted = vt_unverdicted a + vt_unverdicted b\<rparr>"

definition checkpoint_breaks :: "u64 option \<Rightarrow> u64 option \<Rightarrow> verdict_checkpoint \<Rightarrow> chain_break list" where
  "checkpoint_breaks previous_end previous_ledger ck =
     (let width = saturating_sub (vc_window_end ck) (vc_window_start ck) in
      (if width \<noteq> tally_total (vc_tally ck) then [WindowDoesNotMatchTally width (tally_total (vc_tally ck))] else [])
      @ (case previous_end of None \<Rightarrow> []
         | Some e \<Rightarrow> if e \<noteq> vc_window_start ck then [Gap e (vc_window_start ck)] else [])
      @ (case previous_ledger of None \<Rightarrow> []
         | Some before \<Rightarrow> if vc_ledger_tree_size ck < before
             then [LedgerWentBackwards before (vc_ledger_tree_size ck)] else []))"

fun audit_loop ::
  "verdict_checkpoint list \<Rightarrow> chain_break list \<Rightarrow> verdict_tally \<Rightarrow> u64 option \<Rightarrow> u64 option
    \<Rightarrow> chain_break list \<times> verdict_tally" where
  "audit_loop [] found folded previous_end previous_ledger = (found, folded)"
| "audit_loop (ck # cks) found folded previous_end previous_ledger =
     audit_loop cks (found @ checkpoint_breaks previous_end previous_ledger ck) (tally_add folded (vc_tally ck))
       (Some (vc_window_end ck)) (Some (vc_ledger_tree_size ck))"

definition audit_verdict_chain :: "verdict_checkpoint list \<Rightarrow> verdict_tally \<Rightarrow> u64 \<Rightarrow> chain_break list" where
  "audit_verdict_chain cks observed ledger_tree_size =
     (let (found, folded) = audit_loop cks [] tally_default None None;
          under = (\<lambda>(kind, claimed, seen). if seen > claimed then [Underreported kind claimed seen] else []);
          admitted = vt_admit folded + vt_unverdicted folded
      in found
         @ concat (map under [(Deny, vt_deny folded, vt_deny observed), (Admit, vt_admit folded, vt_admit observed),
                              (Escalate, vt_escalate folded, vt_escalate observed)])
         @ (if admitted < ledger_tree_size then [BehindTheLedger admitted ledger_tree_size] else []))"

section \<open>The checkpoint file\<close>

record verdict_store =
  vs_present :: bool
  vs_checkpoints :: "verdict_checkpoint list"
  vs_recovery :: recovery
  vs_read_only :: bool
  vs_quarantined :: "(nat \<times> nat) option"

text \<open>The loop of \<open>replay_verdict_checkpoints\<close>: the checkpoints read, and how many bytes they take.\<close>

function replay_verdicts ::
  "(bytes \<Rightarrow> string + verdict_checkpoint) \<Rightarrow> bytes \<Rightarrow> verdict_checkpoint list \<Rightarrow> nat \<Rightarrow> verdict_checkpoint list \<times> nat" where
  "replay_verdicts fsv rest out good =
     (if length rest < LENGTH_BYTES then (out, good)
      else
        (let len = be_nat (take LENGTH_BYTES rest) in
         if len = 0 \<or> len > MAX_RECORD_BYTES then (out, good)
         else if length (drop LENGTH_BYTES rest) < len then (out, good)
         else case cbor_decode fsv (take len (drop LENGTH_BYTES rest)) of
             Inl _ \<Rightarrow> (out, good)
           | Inr ck \<Rightarrow> replay_verdicts fsv (drop (LENGTH_BYTES + len) rest) (out @ [ck]) (good + (LENGTH_BYTES + len))))"
  by pat_completeness auto
termination
  by (relation "measure (\<lambda>(fsv, rest, out, good). length rest)") (auto simp: LENGTH_BYTES_def)

declare replay_verdicts.simps [simp del]

definition verdict_store_of :: "verdict_checkpoint list \<Rightarrow> nat \<Rightarrow> bool \<Rightarrow> (nat \<times> nat) option \<Rightarrow> verdict_store" where
  "verdict_store_of cks torn read_only quarantined =
     \<lparr>vs_present = True, vs_checkpoints = cks,
      vs_recovery = \<lparr>rec_records = length cks, rec_torn_tail_bytes = torn\<rparr>,
      vs_read_only = read_only, vs_quarantined = quarantined\<rparr>"

definition verdict_open ::
  "(bytes \<Rightarrow> string + verdict_checkpoint) \<Rightarrow> copy_outcome \<Rightarrow> ledger_dir \<Rightarrow> (log_error + verdict_store) \<times> ledger_dir" where
  "verdict_open fsv copy dir =
     (let file = (case ld_file dir of None \<Rightarrow> [] | Some f \<Rightarrow> f);
          dir = dir\<lparr>ld_file := Some file\<rparr>;
          (cks, good) = replay_verdicts fsv file [] 0;
          torn = length file - good
      in if torn > 0
         then (case quarantine copy good torn file dir of
                 (Inl e, dir) \<Rightarrow> (Inl e, dir)
               | (Inr target, dir) \<Rightarrow>
                   (Inr (verdict_store_of cks torn False (Some target)), dir\<lparr>ld_file := Some (take good file)\<rparr>))
         else (Inr (verdict_store_of cks torn False None), dir))"

definition verdict_open_read_only ::
  "(bytes \<Rightarrow> string + verdict_checkpoint) \<Rightarrow> ledger_dir \<Rightarrow> log_error + verdict_store" where
  "verdict_open_read_only fsv dir =
     (case ld_file dir of
        None \<Rightarrow> Inl (Io ''open'')
      | Some file \<Rightarrow>
          (let (cks, good) = replay_verdicts fsv file [] 0
           in Inr (verdict_store_of cks (length file - good) True None)))"

definition verdict_open_read_only_or_absent ::
  "(bytes \<Rightarrow> string + verdict_checkpoint) \<Rightarrow> ledger_dir \<Rightarrow> log_error + verdict_store" where
  "verdict_open_read_only_or_absent fsv dir =
     (if ld_file dir = None
      then Inr \<lparr>vs_present = False, vs_checkpoints = [],
             vs_recovery = \<lparr>rec_records = 0, rec_torn_tail_bytes = 0\<rparr>, vs_read_only = True, vs_quarantined = None\<rparr>
      else verdict_open_read_only fsv dir)"

definition verdict_append ::
  "(verdict_checkpoint \<Rightarrow> string + bytes) \<Rightarrow> write_outcome \<Rightarrow> verdict_checkpoint \<Rightarrow> ledger_dir \<Rightarrow> verdict_store
    \<Rightarrow> (log_error + nat) \<times> ledger_dir \<times> verdict_store" where
  "verdict_append tvv outcome ck dir store =
     (if vs_read_only store then (Inl (Io ''read-only''), dir, store)
      else case map_err Canon (cbor_encode tvv ck) of
          Inl e \<Rightarrow> (Inl e, dir, store)
        | Inr payload \<Rightarrow>
            if \<not> vs_present store then (Inl (Io ''absent''), dir, store)
            else case ld_file dir of
                None \<Rightarrow> (Inl (Io ''absent''), dir, store)
              | Some file \<Rightarrow>
                  (case frame_write_and_sync outcome file payload of
                     (Inl e, file) \<Rightarrow> (Inl e, dir\<lparr>ld_file := Some file\<rparr>, store)
                   | (Inr _, file) \<Rightarrow>
                       (let cks = vs_checkpoints store @ [ck]
                        in (Inr (length cks - 1), dir\<lparr>ld_file := Some file\<rparr>, store\<lparr>vs_checkpoints := cks\<rparr>))))"

section \<open>What a clean audit says\<close>

text \<open>Consecutive checkpoints, starting from what is known before the first of them.\<close>

fun windows_chained :: "u64 option \<Rightarrow> u64 option \<Rightarrow> verdict_checkpoint list \<Rightarrow> bool" where
  "windows_chained pe pl [] = True"
| "windows_chained pe pl (ck # cks) \<longleftrightarrow>
     saturating_sub (vc_window_end ck) (vc_window_start ck) = tally_total (vc_tally ck)
     \<and> (\<forall>e. pe = Some e \<longrightarrow> e = vc_window_start ck) \<and> (\<forall>b. pl = Some b \<longrightarrow> b \<le> vc_ledger_tree_size ck)
     \<and> windows_chained (Some (vc_window_end ck)) (Some (vc_ledger_tree_size ck)) cks"

definition tally_sum :: "verdict_checkpoint list \<Rightarrow> verdict_tally \<Rightarrow> verdict_tally" where
  "tally_sum cks t = foldl (\<lambda>acc ck. tally_add acc (vc_tally ck)) t cks"

lemma checkpoint_breaks_Nil:
  "checkpoint_breaks pe pl ck = [] \<longleftrightarrow>
     saturating_sub (vc_window_end ck) (vc_window_start ck) = tally_total (vc_tally ck)
     \<and> (\<forall>e. pe = Some e \<longrightarrow> e = vc_window_start ck) \<and> (\<forall>b. pl = Some b \<longrightarrow> b \<le> vc_ledger_tree_size ck)"
  by (auto simp: checkpoint_breaks_def Let_def not_less split: option.splits if_splits)

lemma audit_loop_result:
  "audit_loop cks found folded pe pl = (found', folded') \<Longrightarrow>
     folded' = tally_sum cks folded \<and> (found' = [] \<longleftrightarrow> found = [] \<and> windows_chained pe pl cks)"
proof (induction cks arbitrary: found folded pe pl)
  case Nil
  then show ?case by (simp add: tally_sum_def)
next
  case (Cons ck cks)
  from Cons.IH [OF Cons.prems [simplified]] show ?case
    by (auto simp: tally_sum_def checkpoint_breaks_Nil)
qed

lemma audit_clean_iff:
  "audit_verdict_chain cks observed n = [] \<longleftrightarrow>
     windows_chained None None cks
     \<and> vt_deny observed \<le> vt_deny (tally_sum cks tally_default)
     \<and> vt_admit observed \<le> vt_admit (tally_sum cks tally_default)
     \<and> vt_escalate observed \<le> vt_escalate (tally_sum cks tally_default)
     \<and> n \<le> vt_admit (tally_sum cks tally_default) + vt_unverdicted (tally_sum cks tally_default)"
proof -
  obtain found folded where l: "audit_loop cks [] tally_default None None = (found, folded)" by fastforce
  from audit_loop_result [OF l] show ?thesis
    by (auto simp: audit_verdict_chain_def l not_less Let_def split: if_splits)
qed

text \<open>The counters as numbers.\<close>

definition count_total :: "verdict_tally \<Rightarrow> nat" where
  "count_total t = unat (vt_deny t) + unat (vt_admit t) + unat (vt_escalate t) + unat (vt_unverdicted t)"

definition chain_total :: "verdict_checkpoint list \<Rightarrow> nat" where
  "chain_total cks = (\<Sum>ck\<leftarrow>cks. count_total (vc_tally ck))"

lemma unat_add_small: "unat a + unat b < u64_limit \<Longrightarrow> unat (a + b :: u64) = unat a + unat b"
  by (simp add: unat_word_ariths)

lemma tally_total_small:
  "count_total t < u64_limit \<Longrightarrow> unat (tally_total t) = count_total t"
  by (simp add: tally_total_def count_total_def unat_add_small)

lemma tally_add_small:
  assumes "count_total a + count_total b < u64_limit"
  shows "unat (vt_deny (tally_add a b)) = unat (vt_deny a) + unat (vt_deny b)"
    "unat (vt_admit (tally_add a b)) = unat (vt_admit a) + unat (vt_admit b)"
    "unat (vt_escalate (tally_add a b)) = unat (vt_escalate a) + unat (vt_escalate b)"
    "unat (vt_unverdicted (tally_add a b)) = unat (vt_unverdicted a) + unat (vt_unverdicted b)"
    "count_total (tally_add a b) = count_total a + count_total b"
proof -
  show e: "unat (vt_deny (tally_add a b)) = unat (vt_deny a) + unat (vt_deny b)"
    "unat (vt_admit (tally_add a b)) = unat (vt_admit a) + unat (vt_admit b)"
    "unat (vt_escalate (tally_add a b)) = unat (vt_escalate a) + unat (vt_escalate b)"
    "unat (vt_unverdicted (tally_add a b)) = unat (vt_unverdicted a) + unat (vt_unverdicted b)"
    using assms by (simp_all add: tally_add_def count_total_def unat_add_small)
  show "count_total (tally_add a b) = count_total a + count_total b"
    by (simp add: count_total_def e)
qed

lemma tally_sum_small:
  "count_total t + chain_total cks < u64_limit \<Longrightarrow>
     unat (vt_deny (tally_sum cks t)) = unat (vt_deny t) + (\<Sum>ck\<leftarrow>cks. unat (vt_deny (vc_tally ck)))
   \<and> unat (vt_admit (tally_sum cks t)) = unat (vt_admit t) + (\<Sum>ck\<leftarrow>cks. unat (vt_admit (vc_tally ck)))
   \<and> unat (vt_escalate (tally_sum cks t)) = unat (vt_escalate t) + (\<Sum>ck\<leftarrow>cks. unat (vt_escalate (vc_tally ck)))
   \<and> unat (vt_unverdicted (tally_sum cks t)) = unat (vt_unverdicted t) + (\<Sum>ck\<leftarrow>cks. unat (vt_unverdicted (vc_tally ck)))
   \<and> count_total (tally_sum cks t) = count_total t + chain_total cks"
proof (induction cks arbitrary: t)
  case Nil
  then show ?case by (simp add: tally_sum_def chain_total_def)
next
  case (Cons ck cks)
  have ct: "chain_total (ck # cks) = count_total (vc_tally ck) + chain_total cks" by (simp add: chain_total_def)
  have small: "count_total t + count_total (vc_tally ck) < u64_limit" using Cons.prems by (simp add: ct)
  note a = tally_add_small [OF small]
  have s: "tally_sum (ck # cks) t = tally_sum cks (tally_add t (vc_tally ck))" by (simp add: tally_sum_def)
  have "count_total (tally_add t (vc_tally ck)) + chain_total cks < u64_limit"
    using Cons.prems by (simp add: a(5) ct)
  from Cons.IH [OF this] show ?case unfolding s ct a by simp
qed

lemma windows_chained_iff:
  "windows_chained pe pl cks \<Longrightarrow> chain_total cks < u64_limit \<Longrightarrow>
   \<forall>ck\<in>set cks. vc_window_start ck \<le> vc_window_end ck \<Longrightarrow> cks \<noteq> [] \<Longrightarrow>
     unat (vc_window_start (hd cks)) + chain_total cks = unat (vc_window_end (last cks))"
proof (induction cks arbitrary: pe pl)
  case (Cons ck cks)
  have ct: "chain_total (ck # cks) = count_total (vc_tally ck) + chain_total cks" by (simp add: chain_total_def)
  have le: "vc_window_start ck \<le> vc_window_end ck" using Cons.prems(3) by simp
  have "unat (tally_total (vc_tally ck)) = count_total (vc_tally ck)"
    using Cons.prems(2) ct by (intro tally_total_small) simp
  moreover have "tally_total (vc_tally ck) = vc_window_end ck - vc_window_start ck"
    using Cons.prems(1) le [folded not_less] by (simp add: saturating_sub_def)
  ultimately have w: "unat (vc_window_start ck) + count_total (vc_tally ck) = unat (vc_window_end ck)"
    using le by (simp add: unat_sub word_le_nat_alt)
  show ?case
  proof (cases "cks = []")
    case True
    then show ?thesis using w ct by (simp add: chain_total_def)
  next
    case False
    have "vc_window_start (hd cks) = vc_window_end ck" using Cons.prems(1) False by (cases cks) auto
    moreover have "unat (vc_window_start (hd cks)) + chain_total cks = unat (vc_window_end (last cks))"
      using Cons.IH [of "Some (vc_window_end ck)" "Some (vc_ledger_tree_size ck)"] Cons.prems ct False by auto
    ultimately show ?thesis using w ct False by simp
  qed
qed simp

text \<open>Every window is as wide as its counters say.\<close>

lemma window_width:
  "windows_chained pe pl cks \<Longrightarrow> chain_total cks < u64_limit \<Longrightarrow> \<forall>ck\<in>set cks. vc_window_start ck \<le> vc_window_end ck \<Longrightarrow>
     ck \<in> set cks \<Longrightarrow> unat (vc_window_start ck) + count_total (vc_tally ck) = unat (vc_window_end ck)"
proof (induction cks arbitrary: pe pl)
  case (Cons x cks)
  have ct: "chain_total (x # cks) = count_total (vc_tally x) + chain_total cks" by (simp add: chain_total_def)
  show ?case
  proof (cases "ck = x")
    case True
    then show ?thesis
      using windows_chained_iff [of pe pl "[x]"] Cons.prems(1-3) ct by (simp add: chain_total_def)
  next
    case False
    then show ?thesis using Cons.IH [of "Some (vc_window_end x)" "Some (vc_ledger_tree_size x)"] Cons.prems ct by simp
  qed
qed simp

text \<open>The windows follow one another, so a position lies in one of them only.\<close>

lemma window_later:
  "windows_chained pe pl cks \<Longrightarrow> \<forall>ck\<in>set cks. vc_window_start ck \<le> vc_window_end ck \<Longrightarrow> ck \<in> set cks \<Longrightarrow>
     vc_window_start (hd cks) \<le> vc_window_start ck"
proof (induction cks arbitrary: pe pl)
  case (Cons x cks)
  show ?case
  proof (cases "ck \<in> set cks")
    case True
    then have "vc_window_start (hd cks) \<le> vc_window_start ck"
      using Cons.IH [of "Some (vc_window_end x)" "Some (vc_ledger_tree_size x)"] Cons.prems by simp
    moreover have "vc_window_start (hd cks) = vc_window_end x" using Cons.prems(1) True by (cases cks) auto
    ultimately show ?thesis using Cons.prems(2) by auto
  qed (use Cons.prems in simp)
qed simp

lemma window_once:
  "windows_chained pe pl cks \<Longrightarrow> \<forall>ck\<in>set cks. vc_window_start ck \<le> vc_window_end ck \<Longrightarrow> cks \<noteq> [] \<Longrightarrow>
     vc_window_start (hd cks) \<le> p \<Longrightarrow> p < vc_window_end (last cks) \<Longrightarrow>
     \<exists>!i. i < length cks \<and> vc_window_start (cks ! i) \<le> p \<and> p < vc_window_end (cks ! i)"
proof (induction cks arbitrary: pe pl)
  case (Cons x cks)
  note rest = Cons.prems(1) [simplified, THEN conjunct2, THEN conjunct2, THEN conjunct2]
  have hd: "vc_window_start (hd cks) = vc_window_end x" if "cks \<noteq> []" using Cons.prems(1) that by (cases cks) auto
  show ?case
  proof (cases "p < vc_window_end x")
    case True
    have "vc_window_end x \<le> vc_window_start (cks ! j)" if "j < length cks" for j
      using window_later [OF rest, of "cks ! j"] Cons.prems(2) that hd by fastforce
    with True have "i = 0" if "i < length (x # cks)" "vc_window_start ((x # cks) ! i) \<le> p" for i
      using that by (cases i) fastforce+
    with True Cons.prems(4) show ?thesis by (intro ex1I [of _ 0]) auto
  next
    case False
    then have ne: "cks \<noteq> []" using Cons.prems(5) by auto
    have "\<forall>ck\<in>set cks. vc_window_start ck \<le> vc_window_end ck" "vc_window_start (hd cks) \<le> p" "p < vc_window_end (last cks)"
      using False Cons.prems(2,5) ne hd [OF ne] by (simp_all add: not_less)
    from Cons.IH [OF rest this(1) ne this(2,3)]
    obtain k where k: "k < length cks" "vc_window_start (cks ! k) \<le> p" "p < vc_window_end (cks ! k)"
      "\<And>j. j < length cks \<Longrightarrow> vc_window_start (cks ! j) \<le> p \<Longrightarrow> p < vc_window_end (cks ! j) \<Longrightarrow> j = k"
      by (elim ex1E) blast
    have "i = Suc k" if "i < length (x # cks)" "vc_window_start ((x # cks) ! i) \<le> p" "p < vc_window_end ((x # cks) ! i)" for i
      using that k(4) False by (cases i) auto
    with k(1-3) show ?thesis by (intro ex1I [of _ "Suc k"]) auto
  qed
qed simp

section \<open>The file\<close>

definition verdict_frame :: "(verdict_checkpoint \<Rightarrow> string + bytes) \<Rightarrow> verdict_checkpoint \<Rightarrow> bytes" where
  "verdict_frame tvv ck = (case cbor_encode tvv ck of Inl _ \<Rightarrow> [] | Inr p \<Rightarrow> frame_of p)"

definition verdict_writable :: "(verdict_checkpoint \<Rightarrow> string + bytes) \<Rightarrow> verdict_checkpoint \<Rightarrow> bool" where
  "verdict_writable tvv ck \<longleftrightarrow> (\<exists>p. cbor_encode tvv ck = Inr p \<and> length p \<le> MAX_RECORD_BYTES)"

definition verdict_codec_ok :: "(verdict_checkpoint \<Rightarrow> string + bytes) \<Rightarrow> (bytes \<Rightarrow> string + verdict_checkpoint) \<Rightarrow> bool" where
  "verdict_codec_ok tvv fsv \<longleftrightarrow> (\<forall>ck bs. tvv ck = Inr bs \<longrightarrow> fsv bs = Inr ck)"

definition verdict_store_ok :: "(verdict_checkpoint \<Rightarrow> string + bytes) \<Rightarrow> ledger_dir \<Rightarrow> verdict_store \<Rightarrow> bool" where
  "verdict_store_ok tvv dir store \<longleftrightarrow> vs_present store \<and> \<not> vs_read_only store
     \<and> (\<forall>ck\<in>set (vs_checkpoints store). verdict_writable tvv ck)
     \<and> ld_file dir = Some (concat (map (verdict_frame tvv) (vs_checkpoints store)))"

lemma replay_verdicts_frame:
  assumes "verdict_codec_ok tvv fsv" "verdict_writable tvv ck"
  shows "replay_verdicts fsv (verdict_frame tvv ck @ rest) out good =
    replay_verdicts fsv rest (out @ [ck]) (good + length (verdict_frame tvv ck))"
proof -
  obtain p where p: "cbor_encode tvv ck = Inr p" "length p \<le> MAX_RECORD_BYTES" using assms(2) by (auto simp: verdict_writable_def)
  have "scan_strict p = Inr ()" "tvv ck = Inr p" using cbor_encode_canonical [OF p(1)] by auto
  then have dec: "cbor_decode fsv p = Inr ck" using assms(1) by (simp add: cbor_decode_def verdict_codec_ok_def)
  have fr: "verdict_frame tvv ck = frame_of p" using p by (simp add: verdict_frame_def)
  have dr: "drop (LENGTH_BYTES + length p) (frame_of p @ rest) = rest" by simp
  show ?thesis unfolding fr
    using encoded_nonempty [OF p(1)] p(2) dec
    by (simp add: replay_verdicts.simps [of fsv "frame_of p @ rest"] dr payload_header [OF p(2)] Let_def)
qed

lemma replay_verdicts_frames:
  assumes "verdict_codec_ok tvv fsv"
  shows "\<forall>ck\<in>set cks. verdict_writable tvv ck \<Longrightarrow>
    replay_verdicts fsv (concat (map (verdict_frame tvv) cks) @ junk) out good =
    replay_verdicts fsv junk (out @ cks) (good + length (concat (map (verdict_frame tvv) cks)))"
proof (induction cks arbitrary: out good)
  case (Cons ck cks)
  then show ?case using replay_verdicts_frame [OF assms, of ck] by (simp add: add.assoc)
qed simp

lemma replay_verdicts_torn:
  assumes "verdict_writable tvv ck" "k < length (verdict_frame tvv ck)"
  shows "replay_verdicts fsv (take k (verdict_frame tvv ck)) out good = (out, good)"
proof -
  obtain p where p: "cbor_encode tvv ck = Inr p" "length p \<le> MAX_RECORD_BYTES" using assms(1) by (auto simp: verdict_writable_def)
  have fr: "verdict_frame tvv ck = frame_of p" using p by (simp add: verdict_frame_def)
  show ?thesis
  proof (cases "k < LENGTH_BYTES")
    case True
    then show ?thesis by (simp add: fr replay_verdicts.simps [of fsv "take k (frame_of p)"])
  next
    case False
    then have td: "take LENGTH_BYTES (take k (frame_of p)) = be_bytes LENGTH_BYTES (length p)" by (simp add: min_def)
    have "k - LENGTH_BYTES < length p" using assms(2) False fr by auto
    then show ?thesis using assms(2) False
      by (simp add: fr replay_verdicts.simps [of fsv "take k (frame_of p)"] td payload_header [OF p(2)] Let_def)
  qed
qed

lemma verdict_open_frames:
  assumes "verdict_codec_ok tvv fsv" "\<forall>ck\<in>set cks. verdict_writable tvv ck"
    "ld_file dir = Some (concat (map (verdict_frame tvv) cks) @ junk)"
    "\<And>out good. replay_verdicts fsv junk out good = (out, good)"
  shows "\<exists>s dir'. verdict_open fsv CopyOk dir = (Inr s, dir') \<and> verdict_store_ok tvv dir' s \<and> vs_checkpoints s = cks"
proof (cases "junk = []")
  case True
  then show ?thesis using replay_verdicts_frames [OF assms(1,2), of junk "[]" 0] assms
    by (auto simp: verdict_open_def Let_def verdict_store_of_def verdict_store_ok_def)
next
  case False
  then show ?thesis using replay_verdicts_frames [OF assms(1,2), of junk "[]" 0] assms
    by (auto simp: verdict_open_def Let_def verdict_store_of_def verdict_store_ok_def quarantine_def)
qed

section \<open>Properties\<close>

text \<open>
  C23. A clean audit of a chain whose counters add up without wrapping and whose windows are not
  inverted (two things that the audit itself does not check) means that the chain accounts for every
  position once: every position from the first window's start to the last window's end lies in
  exactly one window, every window is as wide as its four counters add up to, every verdict that was
  observed is claimed, and the ledger has no more leaves than were admitted or passed without a verdict.
\<close>

theorem clean_audit_accounts_for_all:
  assumes "audit_verdict_chain cks observed n = []" "cks \<noteq> []" "chain_total cks < u64_limit"
    "\<forall>ck\<in>set cks. vc_window_start ck \<le> vc_window_end ck"
  shows "unat (vc_window_start (hd cks)) + chain_total cks = unat (vc_window_end (last cks))
    \<and> (\<forall>p. vc_window_start (hd cks) \<le> p \<and> p < vc_window_end (last cks) \<longrightarrow>
         (\<exists>!i. i < length cks \<and> vc_window_start (cks ! i) \<le> p \<and> p < vc_window_end (cks ! i)))
    \<and> (\<forall>ck\<in>set cks. unat (vc_window_start ck) + count_total (vc_tally ck) = unat (vc_window_end ck))
    \<and> unat (vt_deny observed) \<le> (\<Sum>ck\<leftarrow>cks. unat (vt_deny (vc_tally ck)))
    \<and> unat (vt_admit observed) \<le> (\<Sum>ck\<leftarrow>cks. unat (vt_admit (vc_tally ck)))
    \<and> unat (vt_escalate observed) \<le> (\<Sum>ck\<leftarrow>cks. unat (vt_escalate (vc_tally ck)))
    \<and> unat n \<le> (\<Sum>ck\<leftarrow>cks. unat (vt_admit (vc_tally ck))) + (\<Sum>ck\<leftarrow>cks. unat (vt_unverdicted (vc_tally ck)))"
proof -
  note c = assms(1) [unfolded audit_clean_iff]
  have d: "count_total tally_default + chain_total cks < u64_limit"
    using assms(3) by (simp add: count_total_def tally_default_def)
  note s = tally_sum_small [OF d]
  have z: "unat (vt_deny tally_default) = 0" "unat (vt_admit tally_default) = 0" "unat (vt_escalate tally_default) = 0"
    "unat (vt_unverdicted tally_default) = 0" "count_total tally_default = 0"
    by (simp_all add: tally_default_def count_total_def)
  have "unat (vt_admit (tally_sum cks tally_default) + vt_unverdicted (tally_sum cks tally_default)) =
      unat (vt_admit (tally_sum cks tally_default)) + unat (vt_unverdicted (tally_sum cks tally_default))"
    by (rule unat_add_small) (use s assms(3) z in \<open>simp add: count_total_def\<close>)
  then show ?thesis
    using c s z windows_chained_iff [OF conjunct1 [OF c] assms(3,4,2)] window_once [OF conjunct1 [OF c] assms(4,2)]
      window_width [OF conjunct1 [OF c] assms(3,4)] by (auto simp: word_le_nat_alt)
qed

definition sample_checkpoint :: verdict_checkpoint where
  "sample_checkpoint = \<lparr>vc_origin = ''o'', vc_tally = \<lparr>vt_deny = 1, vt_admit = 2, vt_escalate = 0, vt_unverdicted = 0\<rparr>,
     vc_window_start = 0, vc_window_end = 3, vc_ledger_root_hash = None, vc_ledger_tree_size = 0, vc_timestamp = 0,
     vc_signature = \<lparr>sig_keyid = [], sig_bytes = []\<rparr>\<rparr>"

theorem clean_audit_accounts_for_all_witness:
  "audit_verdict_chain [sample_checkpoint] \<lparr>vt_deny = 1, vt_admit = 1, vt_escalate = 0, vt_unverdicted = 0\<rparr> 2 = []
    \<and> unat (vc_window_start sample_checkpoint) + chain_total [sample_checkpoint] = unat (vc_window_end sample_checkpoint)"
proof -
  have "audit_verdict_chain [sample_checkpoint] \<lparr>vt_deny = 1, vt_admit = 1, vt_escalate = 0, vt_unverdicted = 0\<rparr> 2 = []"
    by (simp add: audit_verdict_chain_def checkpoint_breaks_def sample_checkpoint_def saturating_sub_def
        tally_total_def tally_add_def tally_default_def)
  with clean_audit_accounts_for_all [OF this] show ?thesis
    by (simp add: chain_total_def count_total_def sample_checkpoint_def)
qed

text \<open>
  Crash safety of the verdict log: whatever happens to the write of a checkpoint, the next
  opening succeeds, agrees with its file, and finds the checkpoints from before, followed by the new
  one if its frame was complete; an append that answered is always found, at the index it answered.
\<close>

theorem verdict_append_crash_safe:
  assumes "verdict_codec_ok tvv fsv" "verdict_store_ok tvv dir store"
    "verdict_append tvv outcome ck dir store = (res, dir', store')"
  shows "\<exists>s dir''. verdict_open fsv CopyOk dir' = (Inr s, dir'') \<and> verdict_store_ok tvv dir'' s
    \<and> vs_checkpoints s \<in> {vs_checkpoints store, vs_checkpoints store @ [ck]}
    \<and> (\<forall>i. res = Inr i \<longrightarrow> vs_checkpoints s = vs_checkpoints store @ [ck] \<and> vs_checkpoints s ! i = ck
         \<and> verdict_store_ok tvv dir' store' \<and> vs_checkpoints store' = vs_checkpoints s)"
proof -
  let ?cks = "vs_checkpoints store" and ?f = "concat (map (verdict_frame tvv) (vs_checkpoints store))"
  have D: "vs_present store" "\<not> vs_read_only store" "\<forall>c\<in>set ?cks. verdict_writable tvv c" "ld_file dir = Some ?f"
    using assms(2) by (auto simp: verdict_store_ok_def)
  have empty: "\<And>out good. replay_verdicts fsv [] out good = (out, good)"
    by (simp add: replay_verdicts.simps [of fsv "[]"] LENGTH_BYTES_def)
  show ?thesis
  proof (cases "verdict_writable tvv ck")
    case False
    then have same: "dir' = dir" "\<forall>i. res \<noteq> Inr i"
      using assms(3) D by (cases "cbor_encode tvv ck";
        auto simp: verdict_append_def verdict_writable_def frame_write_and_sync_def verdict_store_ok_def)+
    then show ?thesis using verdict_open_frames [OF assms(1) D(3) _ empty, of dir] D(4) by auto
  next
    case True
    then obtain p where p: "cbor_encode tvv ck = Inr p" "length p \<le> MAX_RECORD_BYTES" by (auto simp: verdict_writable_def)
    have fr: "verdict_frame tvv ck = frame_of p" using p by (simp add: verdict_frame_def)
    have whole: "\<exists>s dir''. verdict_open fsv CopyOk dir' = (Inr s, dir'') \<and> verdict_store_ok tvv dir'' s
        \<and> vs_checkpoints s = ?cks @ [ck]" if "ld_file dir' = Some (?f @ frame_of p)"
      using verdict_open_frames [OF assms(1) _ _ empty, of "?cks @ [ck]" dir'] that D(3) True fr by auto
    show ?thesis
    proof (cases outcome)
      case WriteOk
      then have "res = Inr (length ?cks)" "dir' = dir\<lparr>ld_file := Some (?f @ frame_of p)\<rparr>"
        "store' = store\<lparr>vs_checkpoints := ?cks @ [ck]\<rparr>"
        using assms(3) D p by (auto simp: verdict_append_def frame_write_and_sync_def)
      moreover from this have "verdict_store_ok tvv dir' store'" using D True fr by (simp add: verdict_store_ok_def)
      ultimately show ?thesis using whole by auto
    next
      case SyncFails
      then have "\<forall>i. res \<noteq> Inr i" "dir' = dir\<lparr>ld_file := Some (?f @ frame_of p)\<rparr>"
        using assms(3) D p by (auto simp: verdict_append_def frame_write_and_sync_def)
      then show ?thesis using whole by auto
    next
      case (WriteFails k)
      then have r: "\<forall>i. res \<noteq> Inr i" "dir' = dir\<lparr>ld_file := Some (?f @ take k (frame_of p))\<rparr>"
        using assms(3) D p by (auto simp: verdict_append_def frame_write_and_sync_def)
      show ?thesis
      proof (cases "k < length (frame_of p)")
        case True
        then have "\<And>out good. replay_verdicts fsv (take k (frame_of p)) out good = (out, good)"
          using replay_verdicts_torn [OF \<open>verdict_writable tvv ck\<close>] fr by simp
        from verdict_open_frames [OF assms(1) D(3) _ this, of dir'] r show ?thesis by auto
      qed (use r whole in auto)
    qed
  qed
qed

theorem verdict_append_crash_safe_witness:
  "\<exists>s dir''. verdict_open (\<lambda>_. Inr sample_checkpoint) CopyOk \<lparr>ld_file = Some [0, 0, 0], ld_torn = (\<lambda>_. None)\<rparr> = (Inr s, dir'')
    \<and> vs_checkpoints s = []"
proof -
  let ?tvv = "\<lambda>ck. if ck = sample_checkpoint then Inr [0] else Inl []"
  let ?d = "\<lparr>ld_file = Some [], ld_torn = (\<lambda>_. None)\<rparr>"
  let ?s = "verdict_store_of [] 0 False None"
  have c: "verdict_codec_ok ?tvv (\<lambda>_. Inr sample_checkpoint)" by (simp add: verdict_codec_ok_def)
  have k: "verdict_store_ok ?tvv ?d ?s" by (simp add: verdict_store_ok_def verdict_store_of_def)
  have a: "verdict_append ?tvv (WriteFails 3) sample_checkpoint ?d ?s =
      (Inl (Io ''write''), \<lparr>ld_file = Some [0, 0, 0], ld_torn = (\<lambda>_. None)\<rparr>, ?s)"
    by (simp add: verdict_append_def verdict_store_of_def cbor_encode_def scan_strict_zero frame_write_and_sync_def
        MAX_RECORD_BYTES_def push_bit_eq_mult sample_frame)
  obtain s dir'' where s: "verdict_open (\<lambda>_. Inr sample_checkpoint) CopyOk \<lparr>ld_file = Some [0, 0, 0], ld_torn = (\<lambda>_. None)\<rparr> = (Inr s, dir'')"
    using verdict_append_crash_safe [OF c k a] by blast
  moreover have "vs_checkpoints s = []" using s
    by (simp add: verdict_open_def replay_verdicts.simps [of _ "[0, 0, 0]"] LENGTH_BYTES_def quarantine_def
        verdict_store_of_def Let_def) (metis sum.inject(2) verdict_store.select_convs(2) prod.inject)
  ultimately show ?thesis by blast
qed

section \<open>Defects\<close>

text \<open>
  \<open>VerdictTally::total\<close> wraps: a checkpoint that claims \<open>2 ^ 64 - 1\<close> denials and one
  admission over an empty window has total 0, so the audit is clean, and no number of observed
  denials is ever found to be underreported.
\<close>

theorem wrapped_total_hides_underreporting:
  "audit_verdict_chain [\<lparr>vc_origin = ''o'', vc_tally = \<lparr>vt_deny = - 1, vt_admit = 1, vt_escalate = 0, vt_unverdicted = 0\<rparr>,
     vc_window_start = 5, vc_window_end = 5, vc_ledger_root_hash = None, vc_ledger_tree_size = 0, vc_timestamp = 0,
     vc_signature = \<lparr>sig_keyid = [], sig_bytes = []\<rparr>\<rparr>]
     \<lparr>vt_deny = d, vt_admit = 0, vt_escalate = 0, vt_unverdicted = 0\<rparr> 0 = []"
  by (simp add: audit_verdict_chain_def checkpoint_breaks_def saturating_sub_def tally_total_def tally_add_def
      tally_default_def)

text \<open>
  An inverted window has width 0 by \<open>saturating_sub\<close>, so a checkpoint with an empty tally can move
  the chain backwards: here the positions 3 to 8 are claimed twice, and the audit is clean.
\<close>

theorem inverted_window_is_clean:
  "\<exists>a b c. (vc_window_start a, vc_window_end a) = (0, 10) \<and> (vc_window_start b, vc_window_end b) = (10, 3)
    \<and> (vc_window_start c, vc_window_end c) = (3, 8) \<and> audit_verdict_chain [a, b, c] tally_default 0 = []"
proof -
  let ?ck = "\<lambda>s e n. sample_checkpoint\<lparr>vc_tally := \<lparr>vt_deny = n, vt_admit = 0, vt_escalate = 0, vt_unverdicted = 0\<rparr>,
      vc_window_start := s, vc_window_end := e\<rparr>"
  have "audit_verdict_chain [?ck 0 10 10, ?ck 10 3 0, ?ck 3 8 5] tally_default 0 = []"
    by (simp add: audit_verdict_chain_def checkpoint_breaks_def sample_checkpoint_def saturating_sub_def
        tally_total_def tally_add_def tally_default_def)
  then show ?thesis by (intro exI [of _ "?ck 0 10 10"] exI [of _ "?ck 10 3 0"] exI [of _ "?ck 3 8 5"]) simp
qed

end
