(* ===== verification/Log_Head.thy ===== *)
theory Log_Head
  imports Verdict_Log
begin

text \<open>
  Rollback detection and the audit of published checkpoints: \<open>src/crates/gx-log/src/head.rs\<close>
  (the recorded head, its atomic replacement, the comparison with the project as it is now) and
  \<open>src/crates/gx-log/src/witness_audit.rs\<close> (equivocation and forks). The text of
  \<open>.gx/VERSION\<close> and its normal form are not modelled: the digest of the declaration is a value.
\<close>

section \<open>Hexadecimal\<close>

definition hex_char :: "nat \<Rightarrow> byte" where
  "hex_char v = ascii ''0123456789abcdef'' ! v"

definition to_hex :: "cid \<Rightarrow> bytes" where
  "to_hex c = concat (map (\<lambda>b. [hex_char (unat b div 16), hex_char (unat b mod 16)]) (cid_bytes c))"

text \<open>\<open>char::to_digit(16)\<close> on one byte, and \<open>u8::from_str_radix(_, 16)\<close> on two.\<close>

definition hex_value :: "byte \<Rightarrow> nat option" where
  "hex_value c =
     (let v = unat c in
      if 48 \<le> v \<and> v \<le> 57 then Some (v - 48)
      else if 97 \<le> v \<and> v \<le> 102 then Some (v - 87)
      else if 65 \<le> v \<and> v \<le> 70 then Some (v - 55)
      else None)"

definition radix16_pair :: "byte \<Rightarrow> byte \<Rightarrow> byte option" where
  "radix16_pair a b =
     (if a = of_char CHR ''+'' then map_option of_nat (hex_value b)
      else case (hex_value a, hex_value b) of
          (Some x, Some y) \<Rightarrow> Some (of_nat (16 * x + y))
        | _ \<Rightarrow> None)"

fun hex_pairs :: "bytes \<Rightarrow> bytes option" where
  "hex_pairs [] = Some []"
| "hex_pairs [a] = None"
| "hex_pairs (a # b # rest) =
     (case radix16_pair a b of
        None \<Rightarrow> None
      | Some x \<Rightarrow> map_option (Cons x) (hex_pairs rest))"

definition from_hex :: "bytes \<Rightarrow> cid option" where
  "from_hex t = (if length t \<noteq> 64 then None else map_option Cid (hex_pairs t))"

section \<open>The recorded head\<close>

definition HEAD_VERSION :: nat where
  "HEAD_VERSION = 1"

record head_floor =
  hf_tree_size :: nat
  hf_root_hash :: cid
  hf_journal_len :: nat
  hf_journal_head :: "cid option"
  hf_version_digest :: "bytes option"

record head_witness =
  hw_tree_size :: nat
  hw_root_hash :: bytes
  hw_journal_len :: nat
  hw_journal_head :: "bytes option"
  hw_journal_format :: bytes
  hw_version_digest :: "bytes option"
  hw_ledger_leaf_hash :: "bytes option"

record accepted_rollback =
  ar_was_tree_size :: nat
  ar_was_root_hash :: bytes
  ar_against :: bytes
  ar_at :: int

record persisted_head =
  ph_head_version :: nat
  ph_journal_len :: nat
  ph_journal_head :: "bytes option"
  ph_journal_format :: bytes
  ph_checkpoint :: checkpoint
  ph_version_digest :: "bytes option"
  ph_ledger_leaf_hash :: "bytes option"
  ph_witness_signature :: "dsse_signature option"
  ph_accepted_rollback :: "accepted_rollback option"

datatype rolled_back =
    TreeShorter nat nat
  | TreeDiverged nat cid "cid option"
  | JournalShorter nat nat
  | JournalDiverged nat
  | VersionChanged bytes "bytes option"

definition head_floor_of :: "persisted_head \<Rightarrow> log_error + head_floor" where
  "head_floor_of h =
     and_then
       (case ph_journal_head h of
          None \<Rightarrow> Inr None
        | Some t \<Rightarrow> (case from_hex t of None \<Rightarrow> Inl Malformed | Some c \<Rightarrow> Inr (Some c)))
       (\<lambda>journal_head.
        Inr \<lparr>hf_tree_size = ck_tree_size (ph_checkpoint h), hf_root_hash = ck_root_hash (ph_checkpoint h),
             hf_journal_len = ph_journal_len h, hf_journal_head = journal_head,
             hf_version_digest = ph_version_digest h\<rparr>)"

definition head_stated :: "persisted_head \<Rightarrow> head_witness" where
  "head_stated h =
     \<lparr>hw_tree_size = ck_tree_size (ph_checkpoint h), hw_root_hash = to_text (ck_root_hash (ph_checkpoint h)),
      hw_journal_len = ph_journal_len h, hw_journal_head = ph_journal_head h, hw_journal_format = ph_journal_format h,
      hw_version_digest = ph_version_digest h, hw_ledger_leaf_hash = ph_ledger_leaf_hash h\<rparr>"

definition compare_head ::
  "head_floor \<Rightarrow> nat \<Rightarrow> cid option \<Rightarrow> nat \<Rightarrow> cid option option \<Rightarrow> bytes option \<Rightarrow> rolled_back option" where
  "compare_head floor now_tree_size now_root_at now_journal_len now_journal_head_at now_version_digest =
     (if now_tree_size < hf_tree_size floor then Some (TreeShorter (hf_tree_size floor) now_tree_size)
      else if hf_tree_size floor > 0 \<and> now_root_at \<noteq> Some (hf_root_hash floor)
      then Some (TreeDiverged (hf_tree_size floor) (hf_root_hash floor) now_root_at)
      else if now_journal_len < hf_journal_len floor then Some (JournalShorter (hf_journal_len floor) now_journal_len)
      else if (case (now_journal_head_at, hf_journal_head floor) of
                 (Some found, Some expected) \<Rightarrow> found \<noteq> Some expected | _ \<Rightarrow> False)
      then Some (JournalDiverged (hf_journal_len floor))
      else case hf_version_digest floor of
          None \<Rightarrow> None
        | Some expected \<Rightarrow>
            if now_version_digest \<noteq> Some expected then Some (VersionChanged expected now_version_digest) else None)"

section \<open>The head file\<close>

text \<open>
  The directory of \<open>HeadStore\<close>: the head and its temporary file. \<open>write\<close> fills and syncs
  the temporary file and renames it over the head; an attempt may stop before any of these steps,
  or after a part of the body.
\<close>

record head_dir =
  hd_head :: "bytes option"
  hd_tmp :: "bytes option"

datatype head_write_outcome = HeadWritten | HeadCreateFails | HeadWriteFails nat | HeadSyncFails | HeadRenameFails

definition head_read :: "(bytes \<Rightarrow> string + persisted_head) \<Rightarrow> head_dir \<Rightarrow> log_error + persisted_head option" where
  "head_read fj dir =
     (case hd_head dir of
        None \<Rightarrow> Inr None
      | Some raw \<Rightarrow>
          (case fj raw of
             Inl _ \<Rightarrow> Inl Malformed
           | Inr head \<Rightarrow> if ph_head_version head > HEAD_VERSION then Inl Malformed else Inr (Some head)))"

definition head_write ::
  "(persisted_head \<Rightarrow> string + bytes) \<Rightarrow> head_write_outcome \<Rightarrow> persisted_head \<Rightarrow> head_dir \<Rightarrow> (log_error + unit) \<times> head_dir" where
  "head_write tj outcome head dir =
     (case tj head of
        Inl _ \<Rightarrow> (Inl Malformed, dir)
      | Inr body \<Rightarrow>
          (case outcome of
             HeadCreateFails \<Rightarrow> (Inl (Io ''create''), dir)
           | HeadWriteFails k \<Rightarrow> (Inl (Io ''write''), dir\<lparr>hd_tmp := Some (take k body)\<rparr>)
           | HeadSyncFails \<Rightarrow> (Inl (Io ''sync''), dir\<lparr>hd_tmp := Some body\<rparr>)
           | HeadRenameFails \<Rightarrow> (Inl (Io ''rename''), dir\<lparr>hd_tmp := Some body\<rparr>)
           | HeadWritten \<Rightarrow> (Inr (), dir\<lparr>hd_head := Some body, hd_tmp := None\<rparr>)))"

section \<open>Contradictions between checkpoints\<close>

datatype checkpoint_contradiction =
    Equivocation string nat cid cid
  | Fork string nat nat cid cid

definition equivocation_pair :: "checkpoint \<Rightarrow> checkpoint \<Rightarrow> checkpoint_contradiction list" where
  "equivocation_pair a b =
     (if ck_origin a \<noteq> ck_origin b then []
      else if ck_tree_size a = ck_tree_size b \<and> ck_root_hash a \<noteq> ck_root_hash b
      then [Equivocation (ck_origin a) (ck_tree_size a) (ck_root_hash a) (ck_root_hash b)]
      else [])"

fun detect_equivocation :: "checkpoint list \<Rightarrow> checkpoint_contradiction list" where
  "detect_equivocation [] = []"
| "detect_equivocation (a # rest) = concat (map (equivocation_pair a) rest) @ detect_equivocation rest"

definition classify_extension ::
  "(bytes \<Rightarrow> cid) \<Rightarrow> checkpoint \<Rightarrow> checkpoint \<Rightarrow> consistency_proof \<Rightarrow> log_error + checkpoint_contradiction option" where
  "classify_extension H old new proof =
     (if ck_origin old \<noteq> ck_origin new then Inl Malformed
      else if ck_tree_size old \<ge> ck_tree_size new then Inl Malformed
      else if cp_old_size proof \<noteq> ck_tree_size old \<or> cp_new_size proof \<noteq> ck_tree_size new then Inl Malformed
      else
        and_then (verify_consistency H proof (ck_root_hash old) (ck_root_hash new)) (\<lambda>consistent.
        if consistent then Inr None
        else Inr (Some (Fork (ck_origin old) (ck_tree_size old) (ck_tree_size new) (ck_root_hash old) (ck_root_hash new)))))"

datatype verdict_contradiction =
    VerdictEquivocation string u64 u64 verdict_tally verdict_tally
  | OverlappingWindows string "u64 \<times> u64" "u64 \<times> u64"
  | LedgerHeadEquivocation string u64 cid cid

definition forked_ledger_head :: "verdict_checkpoint \<Rightarrow> verdict_checkpoint \<Rightarrow> verdict_contradiction option" where
  "forked_ledger_head a b =
     (if vc_ledger_tree_size a \<noteq> vc_ledger_tree_size b then None
      else case (vc_ledger_root_hash a, vc_ledger_root_hash b) of
          (Some root_a, Some root_b) \<Rightarrow>
            if root_a = root_b then None
            else Some (LedgerHeadEquivocation (vc_origin a) (vc_ledger_tree_size a) root_a root_b)
        | _ \<Rightarrow> None)"

definition window_conflict :: "verdict_checkpoint \<Rightarrow> verdict_checkpoint \<Rightarrow> verdict_contradiction list" where
  "window_conflict a b =
     (if vc_window_start a = vc_window_start b \<and> vc_window_end a = vc_window_end b
      then (if vc_tally a \<noteq> vc_tally b
            then [VerdictEquivocation (vc_origin a) (vc_window_start a) (vc_window_end a) (vc_tally a) (vc_tally b)]
            else [])
      else if vc_window_start a < vc_window_end b \<and> vc_window_start b < vc_window_end a
      then [OverlappingWindows (vc_origin a) (vc_window_start a, vc_window_end a) (vc_window_start b, vc_window_end b)]
      else [])"

definition verdict_pair :: "verdict_checkpoint \<Rightarrow> verdict_checkpoint \<Rightarrow> verdict_contradiction list" where
  "verdict_pair a b =
     (if vc_origin a \<noteq> vc_origin b then []
      else window_conflict a b @ (case forked_ledger_head a b of None \<Rightarrow> [] | Some c \<Rightarrow> [c]))"

fun detect_verdict_equivocation :: "verdict_checkpoint list \<Rightarrow> verdict_contradiction list" where
  "detect_verdict_equivocation [] = []"
| "detect_verdict_equivocation (a # rest) = concat (map (verdict_pair a) rest) @ detect_verdict_equivocation rest"

section \<open>Scans over pairs\<close>

text \<open>The contract of a detector that compares every checkpoint with every later one.\<close>

locale pairwise_scan =
  fixes pair :: "'a \<Rightarrow> 'a \<Rightarrow> 'b list"
    and scan :: "'a list \<Rightarrow> 'b list"
  assumes scan_Nil: "scan [] = []"
    and scan_Cons: "scan (a # rest) = concat (map (pair a) rest) @ scan rest"
begin

lemma scan_iff:
  "x \<in> set (scan xs) \<longleftrightarrow> (\<exists>i j. i < j \<and> j < length xs \<and> x \<in> set (pair (xs ! i) (xs ! j)))"
proof (induction xs)
  case Nil
  then show ?case by (simp add: scan_Nil)
next
  case (Cons a xs)
  have "(\<exists>i j. i < j \<and> j < length (a # xs) \<and> x \<in> set (pair ((a # xs) ! i) ((a # xs) ! j))) \<longleftrightarrow>
      (\<exists>j < length xs. x \<in> set (pair a (xs ! j))) \<or> (\<exists>i j. i < j \<and> j < length xs \<and> x \<in> set (pair (xs ! i) (xs ! j)))"
    (is "?l \<longleftrightarrow> ?r")
  proof
    assume ?l
    then obtain i j where "i < j" "j < length (a # xs)" "x \<in> set (pair ((a # xs) ! i) ((a # xs) ! j))" by blast
    then show ?r by (cases i; cases j) auto
  next
    assume ?r
    then show ?l
    proof
      assume "\<exists>j < length xs. x \<in> set (pair a (xs ! j))"
      then obtain j where "j < length xs" "x \<in> set (pair a (xs ! j))" by blast
      then show ?l by (intro exI [of _ 0] exI [of _ "Suc j"]) simp
    next
      assume "\<exists>i j. i < j \<and> j < length xs \<and> x \<in> set (pair (xs ! i) (xs ! j))"
      then obtain i j where "i < j" "j < length xs" "x \<in> set (pair (xs ! i) (xs ! j))" by blast
      then show ?l by (intro exI [of _ "Suc i"] exI [of _ "Suc j"]) simp
    qed
  qed
  moreover have "(\<exists>y\<in>set xs. x \<in> set (pair a y)) \<longleftrightarrow> (\<exists>j < length xs. x \<in> set (pair a (xs ! j)))"
    by (metis in_set_conv_nth)
  ultimately show ?case using Cons by (simp add: scan_Cons)
qed

lemma scan_clean: "scan xs = [] \<longleftrightarrow> (\<forall>i j. i < j \<longrightarrow> j < length xs \<longrightarrow> pair (xs ! i) (xs ! j) = [])"
proof -
  have "scan xs = [] \<longleftrightarrow> (\<forall>x. x \<notin> set (scan xs))" by (metis length_greater_0_conv nth_mem all_not_in_conv set_empty)
  also have "\<dots> \<longleftrightarrow> (\<forall>i j. i < j \<longrightarrow> j < length xs \<longrightarrow> pair (xs ! i) (xs ! j) = [])"
    unfolding scan_iff by (metis list.set_intros(1) neq_Nil_conv list.distinct(1) emptyE set_empty)
  finally show ?thesis .
qed

end

interpretation equivocation: pairwise_scan equivocation_pair detect_equivocation
  by unfold_locales simp_all

interpretation verdict_equivocation: pairwise_scan verdict_pair detect_verdict_equivocation
  by unfold_locales simp_all

section \<open>Hexadecimal round trip\<close>

lemma hex_char_facts:
  assumes "v < 16"
  shows "hex_value (hex_char v) = Some v" "hex_char v \<noteq> of_char CHR ''+''"
proof -
  from assms have "v \<in> {0, 1, 2, 3, 4, 5, 6, 7, 8, 9, 10, 11, 12, 13, 14, 15}" by (simp; presburger)
  then have "hex_value (hex_char v) = Some v \<and> hex_char v \<noteq> of_char CHR ''+''"
    by (elim insertE emptyE) (simp_all add: hex_char_def hex_value_def ascii_def of_char_def)
  then show "hex_value (hex_char v) = Some v" "hex_char v \<noteq> of_char CHR ''+''" by blast+
qed

lemma radix16_pair_hex: "radix16_pair (hex_char (unat b div 16)) (hex_char (unat b mod 16)) = Some b"
proof -
  have v: "unat b div 16 < 16" "unat b mod 16 < 16"
    using less_mult_imp_div_less [of "unat b" 16 16] unat_byte_bound [of b] by simp_all
  have "of_nat (16 * (unat b div 16) + unat b mod 16) = b" by simp
  then show ?thesis using hex_char_facts [OF v(1)] hex_char_facts [OF v(2)] by (simp add: radix16_pair_def)
qed

lemma hex_pairs_to_hex:
  "hex_pairs (concat (map (\<lambda>b. [hex_char (unat b div 16), hex_char (unat b mod 16)]) bs)) = Some bs"
  by (induction bs) (simp_all add: radix16_pair_hex)

lemma length_to_hex [simp]: "length (to_hex c) = 64"
proof -
  have "length (concat (map (\<lambda>b. [hex_char (unat b div 16), hex_char (unat b mod 16)]) bs)) = 2 * length bs" for bs :: bytes
    by (induction bs) auto
  then show ?thesis by (simp add: to_hex_def)
qed

lemma from_hex_to_hex: "from_hex (to_hex c) = Some c"
  by (simp add: from_hex_def) (simp add: to_hex_def hex_pairs_to_hex cid_bytes_inverse)

section \<open>Properties\<close>

text \<open>
  Rollback detection has no false alarm: a head recorded for a log at its full length never
  reports a rollback after any sequence of further appends, as long as the journal did not get
  shorter and its recorded position and the declaration still read the same.
\<close>

theorem head_no_false_alarm:
  assumes "log_ok H tv log" "append_all (append_request H tv) log reqs = Inr (log', es)"
    "hf_tree_size fl = log_len log" "root_at H log (log_len log) = Inr root" "log_len log > 0 \<longrightarrow> root = Some (hf_root_hash fl)"
    "hf_journal_len fl \<le> jlen" "hf_journal_head fl = None \<or> jhead = None \<or> jhead = Some (hf_journal_head fl)"
    "hf_version_digest fl = None \<or> ver = hf_version_digest fl"
  shows "\<exists>now_root. root_at H log' (hf_tree_size fl) = Inr now_root
    \<and> compare_head fl (log_len log') now_root jlen jhead ver = None"
proof -
  have "root_at H log' (log_len log) = root_at H log (log_len log)" "log_len log \<le> log_len log'"
    using tile_log.appends_root_stable [OF assms(1,2), of "log_len log"] tile_log.appends_extend [OF assms(1,2)]
    by (simp_all add: log_len_def)
  then show ?thesis using assms(3-)
    by (intro exI [of _ root]) (auto simp: compare_head_def split: option.splits)
qed

theorem head_no_false_alarm_witness:
  "compare_head \<lparr>hf_tree_size = 1, hf_root_hash = sample_cid, hf_journal_len = 10, hf_journal_head = None,
     hf_version_digest = None\<rparr> 1 (Some sample_cid) 12 None None = None"
proof -
  let ?f = "\<lparr>hf_tree_size = 1, hf_root_hash = sample_cid, hf_journal_len = 10, hf_journal_head = None,
     hf_version_digest = None\<rparr>"
  have r: "root_at (\<lambda>_. sample_cid) sample_log (log_len sample_log) = Inr (Some sample_cid)"
    by (simp add: root_at_def mth_range.simps sample_log_def log_len_def)
  have "append_all (append_request (\<lambda>_. sample_cid) (\<lambda>_. Inr [0])) sample_log [] = Inr (sample_log, [])" by simp
  from head_no_false_alarm [OF sample_log_ok this _ r, of ?f 12 None None] r show ?thesis
    by (simp add: log_len_def sample_log_def)
qed

lemma rewrite_detected:
  assumes "log_ok H tv log" "log_ok H tv log'" "hf_tree_size fl > 0"
    "root_at H log (hf_tree_size fl) = Inr (Some (hf_root_hash fl))" "root_at H log' (hf_tree_size fl) = Inr now_root"
    "compare_head fl (log_len log') now_root jlen jhead ver = None"
  shows "hf_tree_size fl \<le> log_len log'
    \<and> (take (hf_tree_size fl) (log_leaves log') = take (hf_tree_size fl) (log_leaves log)
       \<or> collision H (tree_inputs H (take (hf_tree_size fl) (log_leaves log')))
           (tree_inputs H (take (hf_tree_size fl) (log_leaves log))))"
proof -
  let ?n = "hf_tree_size fl"
  have n: "?n \<le> log_len log'" "now_root = Some (hf_root_hash fl)"
    using assms(3,6) by (auto simp: compare_head_def split: if_splits)
  have n': "?n \<le> log_len log" "?n < u64_limit"
    using assms(4) log_okD(2) [OF assms(1)] by (auto simp: root_at_def split: if_splits)
  note ok = log_okD(2,3) [OF assms(1)] and ok' = log_okD(2,3) [OF assms(2)]
  have "mtr H (take ?n (log_leaves log')) = mtr H (take ?n (log_leaves log))"
    using root_at_correct [OF ok(2), of ?n] root_at_correct [OF ok'(2), of ?n] n n' ok(1) ok'(1) assms(3-5) by simp
  moreover have "length (take ?n (log_leaves log')) = length (take ?n (log_leaves log))" "take ?n (log_leaves log') \<noteq> []"
    using n n' ok(1) ok'(1) assms(3) by auto
  ultimately show ?thesis using mtr_unique n(1) by blast
qed

text \<open>
  Rollback detection misses no change of history: if the comparison finds nothing and the head
  was recorded for \<open>log\<close>, then the project's log still has at least as many entries and the leaf
  hashes below the recorded size are those of \<open>log\<close>, or two node inputs of the two trees collide.
\<close>

theorem head_detects_rewrite:
  assumes "log_ok H tv log" "log_ok H tv log'" "hf_tree_size fl > 0"
    "root_at H log (hf_tree_size fl) = Inr (Some (hf_root_hash fl))" "root_at H log' (hf_tree_size fl) = Inr now_root"
    "compare_head fl (log_len log') now_root jlen jhead ver = None"
  shows "hf_tree_size fl \<le> log_len log'
    \<and> (take (hf_tree_size fl) (log_leaves log') = take (hf_tree_size fl) (log_leaves log)
       \<or> collision H (tree_inputs H (take (hf_tree_size fl) (log_leaves log')))
           (tree_inputs H (take (hf_tree_size fl) (log_leaves log))))"
  by (rule rewrite_detected [OF assms])

theorem head_detects_rewrite_witness:
  "(1 :: nat) \<le> log_len sample_log"
  using head_detects_rewrite [OF sample_log_ok sample_log_ok, of "\<lparr>hf_tree_size = 1, hf_root_hash = sample_cid,
      hf_journal_len = 0, hf_journal_head = None, hf_version_digest = None\<rparr>" "Some sample_cid" 0 None None]
  by (simp add: root_at_def mth_range.simps sample_log_def log_len_def compare_head_def)

text \<open>
  C24. Replacing the head is atomic: after an attempt that fails at any step the head reads as it did
  before, and after one that succeeds it reads as the new head; the new document is never seen in
  part.
\<close>

theorem head_write_atomic:
  assumes "\<And>h body. tj h = Inr body \<Longrightarrow> fj body = Inr h" "ph_head_version head \<le> HEAD_VERSION"
    "head_write tj outcome head dir = (res, dir')"
  shows "(is_ok res \<longrightarrow> head_read fj dir' = Inr (Some head)) \<and> (\<not> is_ok res \<longrightarrow> head_read fj dir' = head_read fj dir)"
  using assms
  by (auto simp: head_write_def head_read_def split: sum.splits head_write_outcome.splits)

definition sample_head :: persisted_head where
  "sample_head = \<lparr>ph_head_version = 1, ph_journal_len = 0, ph_journal_head = None, ph_journal_format = [],
     ph_checkpoint = \<lparr>ck_origin = [], ck_tree_size = 0, ck_root_hash = sample_cid, ck_timestamp = 0,
       ck_signature = \<lparr>sig_keyid = [], sig_bytes = []\<rparr>\<rparr>,
     ph_version_digest = None, ph_ledger_leaf_hash = None, ph_witness_signature = None, ph_accepted_rollback = None\<rparr>"

theorem head_write_atomic_witness:
  "head_read (\<lambda>_. Inr sample_head) (snd (head_write (\<lambda>h. if h = sample_head then Inr [1, 2] else Inl []) (HeadWriteFails 1)
     sample_head \<lparr>hd_head = None, hd_tmp = None\<rparr>)) = Inr None"
proof -
  let ?tj = "\<lambda>h. if h = sample_head then Inr [1, 2] else Inl ([] :: string)"
  let ?fj = "\<lambda>_ :: bytes. Inr sample_head :: string + persisted_head"
  have c: "\<And>h body. ?tj h = Inr body \<Longrightarrow> ?fj body = Inr h" by (simp split: if_splits)
  have v: "ph_head_version sample_head \<le> HEAD_VERSION" by (simp add: sample_head_def HEAD_VERSION_def)
  have w: "head_write ?tj (HeadWriteFails 1) sample_head \<lparr>hd_head = None, hd_tmp = None\<rparr> =
      (Inl (Io ''write''), \<lparr>hd_head = None, hd_tmp = Some [1]\<rparr>)" by (simp add: head_write_def)
  from head_write_atomic [OF c v w] show ?thesis unfolding w by (simp add: head_read_def)
qed

text \<open>
  Equivocation is found exactly when it is there: a list of checkpoints is clean if and only if
  no two of them state different roots for one origin and size, and every contradiction reported
  names two checkpoints of the list.
\<close>

theorem equivocation_detected:
  "(detect_equivocation cks = [] \<longleftrightarrow>
      (\<forall>a\<in>set cks. \<forall>b\<in>set cks. ck_origin a = ck_origin b \<longrightarrow> ck_tree_size a = ck_tree_size b \<longrightarrow> ck_root_hash a = ck_root_hash b))
   \<and> (\<forall>x\<in>set (detect_equivocation cks). \<exists>a\<in>set cks. \<exists>b\<in>set cks. ck_origin a = ck_origin b \<and> ck_tree_size a = ck_tree_size b
        \<and> ck_root_hash a \<noteq> ck_root_hash b
        \<and> x = Equivocation (ck_origin a) (ck_tree_size a) (ck_root_hash a) (ck_root_hash b))"
proof
  have pair: "equivocation_pair a b = [] \<longleftrightarrow>
      (ck_origin a = ck_origin b \<longrightarrow> ck_tree_size a = ck_tree_size b \<longrightarrow> ck_root_hash a = ck_root_hash b)" for a b
    by (simp add: equivocation_pair_def)
  show "detect_equivocation cks = [] \<longleftrightarrow>
      (\<forall>a\<in>set cks. \<forall>b\<in>set cks. ck_origin a = ck_origin b \<longrightarrow> ck_tree_size a = ck_tree_size b \<longrightarrow> ck_root_hash a = ck_root_hash b)"
    (is "?l \<longleftrightarrow> ?r")
  proof
    assume ?l
    then have all: "\<forall>i j. i < j \<longrightarrow> j < length cks \<longrightarrow> equivocation_pair (cks ! i) (cks ! j) = []"
      by (simp add: equivocation.scan_clean)
    show ?r
    proof (intro ballI impI)
      fix a b assume "a \<in> set cks" "b \<in> set cks" and s: "ck_origin a = ck_origin b" "ck_tree_size a = ck_tree_size b"
      then obtain i j where ij: "i < length cks" "cks ! i = a" "j < length cks" "cks ! j = b" by (metis in_set_conv_nth)
      have "equivocation_pair a b = [] \<or> a = b \<or> equivocation_pair b a = []"
        using all ij by (metis nat_neq_iff)
      then show "ck_root_hash a = ck_root_hash b" using s unfolding pair by auto
    qed
  next
    assume ?r
    then show ?l by (auto simp: equivocation.scan_clean pair)
  qed
  show "\<forall>x\<in>set (detect_equivocation cks). \<exists>a\<in>set cks. \<exists>b\<in>set cks. ck_origin a = ck_origin b \<and> ck_tree_size a = ck_tree_size b
        \<and> ck_root_hash a \<noteq> ck_root_hash b
        \<and> x = Equivocation (ck_origin a) (ck_tree_size a) (ck_root_hash a) (ck_root_hash b)"
  proof
    fix x assume "x \<in> set (detect_equivocation cks)"
    then obtain i j where "i < j" "j < length cks" "x \<in> set (equivocation_pair (cks ! i) (cks ! j))"
      by (auto simp: equivocation.scan_iff)
    then show "\<exists>a\<in>set cks. \<exists>b\<in>set cks. ck_origin a = ck_origin b \<and> ck_tree_size a = ck_tree_size b
        \<and> ck_root_hash a \<noteq> ck_root_hash b
        \<and> x = Equivocation (ck_origin a) (ck_tree_size a) (ck_root_hash a) (ck_root_hash b)"
      by (intro bexI [of _ "cks ! i"] bexI [of _ "cks ! j"]) (auto simp: equivocation_pair_def split: if_splits)
  qed
qed

theorem equivocation_detected_witness:
  "detect_equivocation [ph_checkpoint sample_head, (ph_checkpoint sample_head)\<lparr>ck_root_hash := other_cid\<rparr>] \<noteq> []"
proof
  assume "detect_equivocation [ph_checkpoint sample_head, (ph_checkpoint sample_head)\<lparr>ck_root_hash := other_cid\<rparr>] = []"
  with equivocation_detected [of "[ph_checkpoint sample_head, (ph_checkpoint sample_head)\<lparr>ck_root_hash := other_cid\<rparr>]"]
  show False using other_cid_neq by (simp add: sample_head_def)
qed

text \<open>
  The classification of an extension is sound and accuses no honest log: two checkpoints of one
  log with the proof the log gives are no contradiction; and when a proof is accepted against a
  checkpoint that is the log's, the older checkpoint states the root the log had at that size, or
  two hashed byte strings collide.
\<close>

theorem extension_classified:
  assumes "log_ok H tv log" "ck_origin old = ck_origin new" "ck_tree_size old < ck_tree_size new"
    "root_at H log (ck_tree_size new) = Inr (Some (ck_root_hash new))" "0 < ck_tree_size old"
  shows "(root_at H log (ck_tree_size old) = Inr (Some (ck_root_hash old)) \<longrightarrow>
       prove_consistency H log (ck_tree_size old) (ck_tree_size new) = Inr hp \<longrightarrow> classify_extension H old new hp = Inr None)
    \<and> (classify_extension H old new p = Inr None \<longrightarrow>
       root_at H log (ck_tree_size old) = Inr (Some (ck_root_hash old))
       \<or> (\<exists>hp r. prove_consistency H log (ck_tree_size old) (ck_tree_size new) = Inr hp
            \<and> collision H (consistency_inputs H p (ck_root_hash old)) (consistency_inputs H hp r)))"
proof (intro conjI impI)
  let ?m = "ck_tree_size old" and ?n = "ck_tree_size new"
  note ok = log_okD(2,3) [OF assms(1)]
  have n: "?n \<le> log_len log" "?n < u64_limit" using assms(4) ok(1) by (auto simp: root_at_def split: if_splits)
  have roots: "root_at H log ?m = Inr (Some (mtr H (take ?m (log_leaves log))))"
    "root_at H log ?n = Inr (Some (mtr H (take ?n (log_leaves log))))"
    using root_at_correct [OF ok(2), of ?m] root_at_correct [OF ok(2), of ?n] n ok(1) assms(3,5) by auto
  have new: "ck_root_hash new = mtr H (take ?n (log_leaves log))" using roots(2) assms(4) by simp
  { assume "root_at H log ?m = Inr (Some (ck_root_hash old))" and hp: "prove_consistency H log ?m ?n = Inr hp"
    then have old: "ck_root_hash old = mtr H (take ?m (log_leaves log))" using roots(1) by simp
    have "verify_consistency H hp (ck_root_hash old) (ck_root_hash new) = Inr True"
      unfolding old new by (rule verify_consistency_honest [OF assms(1) _ _ n hp]) (use assms(3,5) in auto)
    moreover have "cp_old_size hp = ?m" "cp_new_size hp = ?n"
      using prove_consistency_total [OF assms(1) _ _ n, of ?m] hp assms(3,5) by auto
    ultimately show "classify_extension H old new hp = Inr None" using assms(2,3) by (simp add: classify_extension_def) }
  assume "classify_extension H old new p = Inr None"
  then have p: "cp_old_size p = ?m" "cp_new_size p = ?n" "verify_consistency H p (ck_root_hash old) (ck_root_hash new) = Inr True"
    by (auto simp: classify_extension_def and_then_eq_Inr split: if_splits)
  obtain hp where hp: "prove_consistency H log ?m ?n = Inr hp"
    using prove_consistency_total [OF assms(1) _ _ n, of ?m] assms(3,5) by auto
  from consistency_sound [OF assms(1), of p "ck_root_hash old" hp "mtr H (take ?m (log_leaves log))"] p hp n new roots(1)
  show "root_at H log ?m = Inr (Some (ck_root_hash old))
       \<or> (\<exists>hp r. prove_consistency H log ?m ?n = Inr hp
            \<and> collision H (consistency_inputs H p (ck_root_hash old)) (consistency_inputs H hp r))"
    by auto
qed

theorem extension_classified_witness:
  "\<exists>log old new hp. log_len log = 7 \<and> ck_tree_size old = 3 \<and> ck_tree_size new = 7
    \<and> classify_extension (\<lambda>_. sample_cid) old new hp = Inr None"
proof -
  obtain log where log: "log_ok (\<lambda>_. sample_cid) (\<lambda>_. Inr [0]) log" "log_len log = 7" using sample_logs by blast
  note ok = log_okD(2,3) [OF log(1)]
  let ?ck = "\<lambda>n. (ph_checkpoint sample_head)\<lparr>ck_tree_size := n, ck_root_hash := mtr (\<lambda>_. sample_cid) (take n (log_leaves log))\<rparr>"
  obtain hp where hp: "prove_consistency (\<lambda>_. sample_cid) log 3 7 = Inr hp"
    using prove_consistency_total [OF log(1), of 3 7] log(2) by auto
  have r: "root_at (\<lambda>_. sample_cid) log 3 = Inr (Some (ck_root_hash (?ck 3)))"
    "root_at (\<lambda>_. sample_cid) log 7 = Inr (Some (ck_root_hash (?ck 7)))"
    using root_at_correct [OF ok(2), of 3] root_at_correct [OF ok(2), of 7] ok(1) log(2) by simp_all
  have "classify_extension (\<lambda>_. sample_cid) (?ck 3) (?ck 7) hp = Inr None"
    using extension_classified [OF log(1), of "?ck 3" "?ck 7" hp] r hp by simp
  with log(2) show ?thesis by (intro exI [of _ log] exI [of _ "?ck 3"] exI [of _ "?ck 7"] exI [of _ hp]) simp
qed

text \<open>
  Verdict checkpoints are clean if and only if any two of one origin agree on their tally when
  they cover the same window, do not overlap otherwise, and state the same ledger root when they
  state a root for the same ledger size.
\<close>

theorem verdict_equivocation_detected:
  "detect_verdict_equivocation cks = [] \<longleftrightarrow>
     (\<forall>a\<in>set cks. \<forall>b\<in>set cks. vc_origin a = vc_origin b \<longrightarrow>
        (if vc_window_start a = vc_window_start b \<and> vc_window_end a = vc_window_end b
         then vc_tally a = vc_tally b
         else \<not> (vc_window_start a < vc_window_end b \<and> vc_window_start b < vc_window_end a))
        \<and> (vc_ledger_tree_size a = vc_ledger_tree_size b \<longrightarrow>
             vc_ledger_root_hash a = None \<or> vc_ledger_root_hash b = None \<or> vc_ledger_root_hash a = vc_ledger_root_hash b))"
  (is "_ \<longleftrightarrow> (\<forall>a\<in>set cks. \<forall>b\<in>set cks. ?agree a b)")
proof -
  have pair: "verdict_pair a b = [] \<longleftrightarrow> ?agree a b" for a b
    by (auto simp: verdict_pair_def window_conflict_def forked_ledger_head_def split: option.splits)
  have sym: "?agree a b \<longleftrightarrow> ?agree b a" for a b by auto
  have refl: "?agree a a" for a by auto
  show ?thesis
  proof
    assume "detect_verdict_equivocation cks = []"
    then have all: "\<forall>i j. i < j \<longrightarrow> j < length cks \<longrightarrow> verdict_pair (cks ! i) (cks ! j) = []"
      by (simp add: verdict_equivocation.scan_clean)
    show "\<forall>a\<in>set cks. \<forall>b\<in>set cks. ?agree a b"
    proof (intro ballI)
      fix a b assume "a \<in> set cks" "b \<in> set cks"
      then obtain i j where "i < length cks" "cks ! i = a" "j < length cks" "cks ! j = b" by (metis in_set_conv_nth)
      with all have "verdict_pair a b = [] \<or> a = b \<or> verdict_pair b a = []" by (metis nat_neq_iff)
      then consider "?agree a b" | "a = b" | "?agree b a" unfolding pair by blast
      then show "?agree a b"
      proof cases
        case 1 then show ?thesis .
      next
        case 2 show ?thesis unfolding 2 by (rule refl)
      next
        case 3 show ?thesis by (rule iffD1 [OF sym 3])
      qed
    qed
  next
    assume r: "\<forall>a\<in>set cks. \<forall>b\<in>set cks. ?agree a b"
    show "detect_verdict_equivocation cks = []"
      unfolding verdict_equivocation.scan_clean
    proof (intro allI impI)
      fix i j :: nat assume "i < j" "j < length cks"
      then have "cks ! i \<in> set cks" "cks ! j \<in> set cks" by auto
      then show "verdict_pair (cks ! i) (cks ! j) = []" unfolding pair using r by blast
    qed
  qed
qed

theorem verdict_equivocation_detected_witness:
  "detect_verdict_equivocation [sample_checkpoint, sample_checkpoint\<lparr>vc_window_end := 4\<rparr>] \<noteq> []"
proof
  assume "detect_verdict_equivocation [sample_checkpoint, sample_checkpoint\<lparr>vc_window_end := 4\<rparr>] = []"
  with verdict_equivocation_detected [of "[sample_checkpoint, sample_checkpoint\<lparr>vc_window_end := 4\<rparr>]"]
  show False by (simp add: sample_checkpoint_def)
qed

section \<open>Defects\<close>

text \<open>
  \<open>from_hex\<close> reads back what \<open>to_hex\<close> writes, but a digest has other spellings that it accepts:
  \<open>u8::from_str_radix\<close> takes a sign, so \<open>+0\<close> reads as \<open>00\<close>.
\<close>

theorem from_hex_second_spelling:
  "from_hex (to_hex sample_cid) = Some sample_cid
    \<and> from_hex (concat (replicate 32 (ascii ''+0''))) = Some sample_cid
    \<and> concat (replicate 32 (ascii ''+0'')) \<noteq> to_hex sample_cid"
proof (intro conjI)
  show "from_hex (to_hex sample_cid) = Some sample_cid" by (rule from_hex_to_hex)
  have len: "length (concat (replicate n (ascii ''+0''))) = 2 * n" for n
    by (induction n) (simp_all add: ascii_def)
  have "hex_pairs (concat (replicate n (ascii ''+0''))) = Some (replicate n 0)" for n
    by (induction n) (simp_all add: ascii_def radix16_pair_def hex_value_def of_char_def)
  then show "from_hex (concat (replicate 32 (ascii ''+0''))) = Some sample_cid"
    using len [of 32] by (simp only: from_hex_def) (simp add: sample_cid_def)
  have "hd (concat (replicate 32 (ascii ''+0''))) = of_char CHR ''+''"
    using replicate_Suc [of 31 "ascii ''+0''"] by (simp add: ascii_def)
  moreover have "hd (to_hex sample_cid) = hex_char 0"
    using replicate_Suc [of 31 "0 :: byte"] by (simp add: to_hex_def sample_cid_def)
  ultimately show "concat (replicate 32 (ascii ''+0'')) \<noteq> to_hex sample_cid"
    using hex_char_facts(2) [of 0] by auto
qed

end
