(* ===== verification/Core_Model.thy ===== *)
theory Core_Model
  imports Text_Codec "HOL-Library.Product_Lexorder" "HOL-Library.Option_ord" "HOL-Library.Multiset"
begin

text \<open>
  The data model of \<open>src/crates/gx-core/src\<close>: objects, actors, transformations with their
  three constructors (\<open>new\<close>, \<open>compose\<close>, \<open>identity\<close>) and the walk over ancestors
  (\<open>transformation.rs\<close>), fingerprints and their comparison (\<open>fingerprint.rs\<close>), the
  determinism boundary (\<open>boundary.rs\<close>), and the admission of environment fingerprints
  (\<open>observation.rs\<close>). The resolver of subjects and the function that computes an id from a
  transformation belong to the callers and are arguments, as they are in the source.
\<close>

section \<open>Objects, actors, contexts\<close>

datatype substrate_kind = Fs | Git | Mcp | Custom string

datatype repr_kind = Bytes | Json | Tree | External

datatype change_context = Time | Evidence | Policy | Model | Representation | Substrate | CustomContext string

datatype actor = Human string | Agent string string | Process string

fun actor_key :: "actor \<Rightarrow> string" where
  "actor_key (Human key) = key"
| "actor_key (Agent key model) = key"
| "actor_key (Process key) = key"

record object_snapshot =
  obj_id :: cid
  obj_substrate :: substrate_kind
  obj_locator :: string
  obj_digest :: cid
  obj_representation :: repr_kind

record delta_ref =
  delta_substrate :: substrate_kind
  delta_cid :: cid

datatype core_error =
    OrderExceeded byte byte
  | CidText
  | NotComposable
  | SubjectUnresolved
  | TargetMissing
  | CreatedAtNegative timestamp
  | IntentIdUnset
  | CreatedAtBeforeParts timestamp timestamp
  | FingerprintScopeMismatch string string
  | FingerprintSubstrateMismatch substrate_kind substrate_kind
  | ScopeTooLong nat nat

datatype abort_reason =
    PreconditionChanged | ApplyFailed | VerifierUnavailable | Expired | OwnerCancelled | InternalError
  | PostconditionMismatch

datatype reversibility = ReversibleTrue | ReversibleFalse | ReversibleUnknown

datatype enforcement_mode = Enforce | RecordOnly

fun enforced :: "enforcement_mode \<Rightarrow> bool" where
  "enforced Enforce = True"
| "enforced RecordOnly = False"

datatype fail_posture = FailClosed | FailOpen

fun engaged :: "fail_posture \<Rightarrow> bool" where
  "engaged FailClosed = False"
| "engaged FailOpen = True"

section \<open>Transformations\<close>

definition MAX_ORDER :: byte where
  "MAX_ORDER = 2"

datatype subject = Object cid | Transformed transformation_id

record transformation =
  t_id :: transformation_id
  t_intent_id :: intent_id
  t_order :: byte
  t_subject :: subject
  t_target :: "cid option"
  t_delta :: delta_ref
  t_context :: change_context
  t_actor :: actor
  t_parents :: "transformation_id list"
  t_created_at :: timestamp

record composition_metadata =
  m_intent_id :: intent_id
  m_delta :: delta_ref
  m_context :: change_context
  m_actor :: actor
  m_created_at :: timestamp

definition zero_cid :: cid where
  "zero_cid = Cid (replicate 32 0)"

definition PROVISIONAL_ID :: transformation_id where
  "PROVISIONAL_ID = zero_cid"

definition UNSET_INTENT :: intent_id where
  "UNSET_INTENT = zero_cid"

definition in_range :: "composition_metadata \<Rightarrow> core_error + unit" where
  "in_range meta =
     (if m_created_at meta < 0 then Inl (CreatedAtNegative (m_created_at meta))
      else if m_intent_id meta = UNSET_INTENT then Inl IntentIdUnset
      else Inr ())"

definition composability :: "transformation \<Rightarrow> transformation \<Rightarrow> (subject \<Rightarrow> cid option) \<Rightarrow> core_error + unit" where
  "composability f g resolve =
     and_then (ok_or TargetMissing (t_target f)) (\<lambda>dst.
     and_then (ok_or SubjectUnresolved (resolve (t_subject g))) (\<lambda>src.
     if dst = src then Inr () else Inl NotComposable))"

definition composable :: "transformation \<Rightarrow> transformation \<Rightarrow> (subject \<Rightarrow> cid option) \<Rightarrow> bool" where
  "composable f g resolve = is_ok (composability f g resolve)"

definition with_order :: "byte \<Rightarrow> core_error + byte" where
  "with_order n = (if n \<le> MAX_ORDER then Inr n else Inl (OrderExceeded n MAX_ORDER))"

definition set_order :: "byte \<Rightarrow> transformation \<Rightarrow> core_error + transformation" where
  "set_order n t = and_then (with_order n) (\<lambda>n. Inr (t\<lparr>t_order := n\<rparr>))"

definition compose ::
  "transformation \<Rightarrow> transformation \<Rightarrow> (subject \<Rightarrow> cid option) \<Rightarrow> composition_metadata
    \<Rightarrow> (transformation \<Rightarrow> transformation_id) \<Rightarrow> core_error + transformation" where
  "compose f g resolve meta id_of =
     and_then (composability f g resolve) (\<lambda>_.
     and_then (in_range meta) (\<lambda>_.
     (let at_least = max (t_created_at f) (t_created_at g) in
      if m_created_at meta < at_least then Inl (CreatedAtBeforeParts (m_created_at meta) at_least)
      else
        and_then (with_order (max (t_order f) (t_order g))) (\<lambda>order.
        (let provisional = \<lparr>t_id = PROVISIONAL_ID, t_intent_id = m_intent_id meta, t_order = order,
               t_subject = t_subject f, t_target = t_target g, t_delta = m_delta meta, t_context = m_context meta,
               t_actor = m_actor meta, t_parents = [t_id f, t_id g], t_created_at = m_created_at meta\<rparr>
         in Inr (provisional\<lparr>t_id := id_of provisional\<rparr>))))))"

definition identity ::
  "object_snapshot \<Rightarrow> composition_metadata \<Rightarrow> (transformation \<Rightarrow> transformation_id) \<Rightarrow> core_error + transformation" where
  "identity x meta id_of =
     and_then (in_range meta) (\<lambda>_.
     (let provisional = \<lparr>t_id = PROVISIONAL_ID, t_intent_id = m_intent_id meta, t_order = 0,
            t_subject = Object (obj_id x), t_target = Some (obj_digest x), t_delta = m_delta meta,
            t_context = m_context meta, t_actor = m_actor meta, t_parents = [], t_created_at = m_created_at meta\<rparr>
      in Inr (provisional\<lparr>t_id := id_of provisional\<rparr>)))"

definition new_transformation ::
  "transformation_id \<Rightarrow> byte \<Rightarrow> subject \<Rightarrow> cid option \<Rightarrow> transformation_id list \<Rightarrow> composition_metadata
    \<Rightarrow> core_error + transformation" where
  "new_transformation tid order subject target parents meta =
     and_then (in_range meta) (\<lambda>_.
     and_then (with_order order) (\<lambda>order.
     Inr \<lparr>t_id = tid, t_intent_id = m_intent_id meta, t_order = order, t_subject = subject, t_target = target,
          t_delta = m_delta meta, t_context = m_context meta, t_actor = m_actor meta, t_parents = parents,
          t_created_at = m_created_at meta\<rparr>))"

section \<open>Ancestors\<close>

instance cid :: finite
proof
  have "finite {bs :: bytes. set bs \<subseteq> UNIV \<and> length bs = 32}"
    by (rule finite_lists_length_eq) simp
  then have "finite (Cid ` {bs :: bytes. length bs = 32})" by simp
  moreover have "(UNIV :: cid set) \<subseteq> Cid ` {bs. length bs = 32}"
    using cid_bytes cid_bytes_inverse by (metis image_eqI subsetI)
  ultimately show "finite (UNIV :: cid set)" by (rule rev_finite_subset)
qed

text \<open>
  The loop over the queue: \<open>seen\<close> is the visited set and \<open>out\<close> what was pushed so far. It ends
  because a step either takes an id from the queue or marks one of finitely many ids as seen.
\<close>

definition parents_of :: "(transformation_id \<Rightarrow> transformation option) \<Rightarrow> transformation_id \<Rightarrow> transformation_id list" where
  "parents_of resolve x = (case resolve x of None \<Rightarrow> [] | Some t \<Rightarrow> t_parents t)"

function ancestors_loop ::
  "(transformation_id \<Rightarrow> transformation option) \<Rightarrow> transformation_id list \<Rightarrow> transformation_id set
    \<Rightarrow> transformation_id list \<Rightarrow> transformation_id list" where
  "ancestors_loop resolve [] seen out = out"
| "ancestors_loop resolve (x # queue) seen out =
     (if x \<in> seen then ancestors_loop resolve queue seen out
      else ancestors_loop resolve (queue @ parents_of resolve x) (insert x seen) (out @ [x]))"
  by pat_completeness auto
termination
proof (relation "inv_image (less_than <*lex*> less_than) (\<lambda>(resolve, queue, seen, out). (card (UNIV - seen), length queue))",
    goal_cases)
  case 1 then show ?case by auto
next
  case (2 resolve x queue seen out) then show ?case by auto
next
  case (3 resolve x queue seen out)
  then have "card (UNIV - insert x seen) < card (UNIV - seen)" by (intro psubset_card_mono) auto
  then show ?case by simp
qed

declare ancestors_loop.simps [simp del]

definition ancestors :: "transformation_id \<Rightarrow> (transformation_id \<Rightarrow> transformation option) \<Rightarrow> transformation_id list" where
  "ancestors start resolve = ancestors_loop resolve (parents_of resolve start) {} []"

section \<open>Fingerprints\<close>

definition MAX_SCOPE_BYTES :: nat where
  "MAX_SCOPE_BYTES = 1024"

record fingerprint =
  fp_substrate :: substrate_kind
  fp_scope :: string
  fp_digest :: cid

definition new_fingerprint :: "substrate_kind \<Rightarrow> string \<Rightarrow> cid \<Rightarrow> core_error + fingerprint" where
  "new_fingerprint substrate scope digest =
     (if length scope > MAX_SCOPE_BYTES then Inl (ScopeTooLong (length scope) MAX_SCOPE_BYTES)
      else Inr \<lparr>fp_substrate = substrate, fp_scope = scope, fp_digest = digest\<rparr>)"

definition cas_eq :: "fingerprint \<Rightarrow> fingerprint \<Rightarrow> core_error + bool" where
  "cas_eq a b =
     (if fp_substrate a \<noteq> fp_substrate b then Inl (FingerprintSubstrateMismatch (fp_substrate a) (fp_substrate b))
      else if fp_scope a \<noteq> fp_scope b then Inl (FingerprintScopeMismatch (fp_scope a) (fp_scope b))
      else Inr (fp_digest a = fp_digest b))"

section \<open>The determinism boundary\<close>

datatype boundary_stage = DeterministicReplay | LlmOriginated | StageUnknown

datatype determinism_boundary =
    BoundaryDeterministic | BoundaryLlm | Mixed boundary_stage boundary_stage | BoundaryUnknown

fun of_stages :: "boundary_stage \<Rightarrow> boundary_stage \<Rightarrow> determinism_boundary" where
  "of_stages DeterministicReplay DeterministicReplay = BoundaryDeterministic"
| "of_stages LlmOriginated LlmOriginated = BoundaryLlm"
| "of_stages StageUnknown StageUnknown = BoundaryUnknown"
| "of_stages input_generation verdict_derivation = Mixed input_generation verdict_derivation"

fun verdict_derivation :: "determinism_boundary \<Rightarrow> boundary_stage" where
  "verdict_derivation BoundaryDeterministic = DeterministicReplay"
| "verdict_derivation BoundaryLlm = LlmOriginated"
| "verdict_derivation (Mixed input verdict) = verdict"
| "verdict_derivation BoundaryUnknown = StageUnknown"

fun input_generation :: "determinism_boundary \<Rightarrow> boundary_stage" where
  "input_generation BoundaryDeterministic = DeterministicReplay"
| "input_generation BoundaryLlm = LlmOriginated"
| "input_generation (Mixed input verdict) = input"
| "input_generation BoundaryUnknown = StageUnknown"

lemma stages_of_stages [simp]:
  "input_generation (of_stages i v) = i" "verdict_derivation (of_stages i v) = v"
  by (cases i; cases v; simp)+

section \<open>Environment fingerprints\<close>

record envset_entry =
  env_name :: bytes
  env_value_digest :: bytes
  env_scope_tag :: "bytes option"

record envset_scope =
  env_project :: bytes
  env_environment :: bytes

record envset_fingerprint =
  env_scope :: envset_scope
  env_entries :: "envset_entry list"
  env_prev :: "bytes option"

text \<open>The records of the other three classes carry no logic of their own.\<close>

datatype observation_class = Envset | Deploy | Config | LogWindow

datatype observation_substrate_kind = AdapterHeld | Declared

record dsse_envelope_text =
  det_payload_type :: string
  det_payload :: "string option"
  det_signatures :: "(string \<times> string) list"

record deploy_record =
  dp_deploy_id :: string
  dp_commit_sha :: string
  dp_artifact_digests :: "string list"
  dp_target_env :: string
  dp_envset_fingerprint_ref :: "string option"
  dp_platform_metadata_digest :: "string option"
  dp_attestation :: "dsse_envelope_text option"

record config_record =
  cg_document :: string
  cg_substrate :: observation_substrate_kind

record log_window_record =
  lw_stream_id :: string
  lw_window :: "string \<times> string"
  lw_merkle_root :: string
  lw_line_count_census :: u64
  lw_gap :: "bool option"

datatype observation_record =
    EnvsetObserved envset_fingerprint
  | DeployObserved deploy_record
  | ConfigObserved config_record
  | LogWindowObserved log_window_record

fun observation_class_of :: "observation_record \<Rightarrow> observation_class" where
  "observation_class_of (EnvsetObserved _) = Envset"
| "observation_class_of (DeployObserved _) = Deploy"
| "observation_class_of (ConfigObserved _) = Config"
| "observation_class_of (LogWindowObserved _) = LogWindow"

fun as_wire_str :: "observation_class \<Rightarrow> string" where
  "as_wire_str Envset = ''envset''"
| "as_wire_str Deploy = ''deploy''"
| "as_wire_str Config = ''config''"
| "as_wire_str LogWindow = ''log-window''"

definition OBSERVATION_CLASSES :: "observation_class list" where
  "OBSERVATION_CLASSES = [Envset, Deploy, Config, LogWindow]"

definition from_wire_str :: "string \<Rightarrow> observation_class option" where
  "from_wire_str s = find (\<lambda>c. as_wire_str c = s) OBSERVATION_CLASSES"

datatype envset_admission = EnvAllow | EnvDeny bytes | EnvEscalate "bytes option" "bytes option"

definition ENVSET_DIGEST_PREFIX :: bytes where
  "ENVSET_DIGEST_PREFIX = ascii ''blake3:''"

definition ENVSET_DIGEST_HEX_LEN :: nat where
  "ENVSET_DIGEST_HEX_LEN = 64"

definition is_digest_form :: "bytes \<Rightarrow> bool" where
  "is_digest_form value =
     (if take (length ENVSET_DIGEST_PREFIX) value = ENVSET_DIGEST_PREFIX
      then (let hex = drop (length ENVSET_DIGEST_PREFIX) value in
            length hex = ENVSET_DIGEST_HEX_LEN
            \<and> list_all (\<lambda>b. (0x30 \<le> b \<and> b \<le> 0x39) \<or> (0x61 \<le> b \<and> b \<le> 0x66)) hex)
      else False)"

text \<open>The derived order of \<open>EnvsetEntry\<close> compares the fields in the order of their declaration.\<close>

definition envset_key :: "envset_entry \<Rightarrow> bytes \<times> bytes \<times> bytes option" where
  "envset_key e = (env_name e, env_value_digest e, env_scope_tag e)"

definition new_envset :: "envset_scope \<Rightarrow> envset_entry list \<Rightarrow> bytes option \<Rightarrow> envset_fingerprint" where
  "new_envset scope entries prev = \<lparr>env_scope = scope, env_entries = sort_key envset_key entries, env_prev = prev\<rparr>"

definition envset_admit :: "envset_fingerprint \<Rightarrow> bytes option \<Rightarrow> envset_admission" where
  "envset_admit fp last_committed =
     (case find (\<lambda>e. \<not> is_digest_form (env_value_digest e)) (env_entries fp) of
        Some e \<Rightarrow> EnvDeny (env_name e)
      | None \<Rightarrow>
          (case (env_prev fp, last_committed) of
             (None, None) \<Rightarrow> EnvAllow
           | (Some claimed, Some held) \<Rightarrow>
               if claimed = held then EnvAllow else EnvEscalate (env_prev fp) last_committed
           | _ \<Rightarrow> EnvEscalate (env_prev fp) last_committed))"

section \<open>The walk over ancestors is breadth first\<close>

text \<open>
  The edge relation of the walk, and the distance of an id from the start: the least positive
  number of edges that lead there.
\<close>

definition parent_edges :: "(transformation_id \<Rightarrow> transformation option) \<Rightarrow> (transformation_id \<times> transformation_id) set" where
  "parent_edges resolve = {(x, p). p \<in> set (parents_of resolve x)}"

definition generation :: "(transformation_id \<Rightarrow> transformation option) \<Rightarrow> transformation_id \<Rightarrow> transformation_id \<Rightarrow> nat" where
  "generation resolve start x = (LEAST n. 0 < n \<and> (start, x) \<in> parent_edges resolve ^^ n)"

text \<open>
  The loop with every id tagged by the number of edges it was reached by. \<open>walk_inv\<close> is its
  invariant: tags count edges, tags in the output are at most those in the queue, the queue is
  ordered and spans two generations, and every parent of a visited id is visited or queued.
\<close>

definition walk_inv ::
  "(transformation_id \<Rightarrow> transformation option) \<Rightarrow> transformation_id \<Rightarrow> (transformation_id \<times> nat) list
    \<Rightarrow> (transformation_id \<times> nat) list \<Rightarrow> bool" where
  "walk_inv resolve start queue out \<longleftrightarrow>
     (\<forall>(x, n)\<in>set (out @ queue). 0 < n \<and> (start, x) \<in> parent_edges resolve ^^ n)
     \<and> sorted (map snd (out @ queue))
     \<and> (\<forall>(x, n)\<in>set queue. \<forall>(y, m)\<in>set queue. m \<le> Suc n)
     \<and> distinct (map fst out)
     \<and> (\<forall>p\<in>set (parents_of resolve start). \<exists>m. (p, m) \<in> set (out @ queue) \<and> m \<le> 1)
     \<and> (\<forall>(x, n)\<in>set out. \<forall>p\<in>set (parents_of resolve x). \<exists>m. (p, m) \<in> set (out @ queue) \<and> m \<le> Suc n)"

lemma walk_inv_skip:
  assumes inv: "walk_inv resolve start ((x, n) # queue) out" and seen: "x \<in> fst ` set out"
  shows "walk_inv resolve start queue out"
proof -
  obtain k where k: "(x, k) \<in> set out" using seen by auto
  have kn: "k \<le> n" using inv k unfolding walk_inv_def by (auto simp: sorted_append)
  have keep: "\<exists>m. (p, m) \<in> set (out @ queue) \<and> m \<le> b" if "\<exists>m. (p, m) \<in> set (out @ (x, n) # queue) \<and> m \<le> b" for p b
    using that k kn by (auto intro: order_trans)
  show ?thesis
    unfolding walk_inv_def
  proof (intro conjI)
    show "\<forall>p\<in>set (parents_of resolve start). \<exists>m. (p, m) \<in> set (out @ queue) \<and> m \<le> 1"
      using inv unfolding walk_inv_def by (blast intro: keep)
    show "\<forall>(x, n)\<in>set out. \<forall>p\<in>set (parents_of resolve x). \<exists>m. (p, m) \<in> set (out @ queue) \<and> m \<le> Suc n"
      using inv unfolding walk_inv_def by (blast intro: keep)
  qed (use inv in \<open>auto simp: walk_inv_def sorted_append\<close>)
qed

lemma walk_inv_visit:
  assumes inv: "walk_inv resolve start ((x, n) # queue) out" and fresh: "x \<notin> fst ` set out"
  shows "walk_inv resolve start (queue @ map (\<lambda>p. (p, Suc n)) (parents_of resolve x)) (out @ [(x, n)])"
    (is "walk_inv _ _ (queue @ ?new) _")
proof -
  have step: "(start, p) \<in> parent_edges resolve ^^ Suc n" if "p \<in> set (parents_of resolve x)" for p
    using inv that unfolding walk_inv_def by (auto simp: parent_edges_def)
  have span: "m \<le> Suc n" if "(y, m) \<in> set queue" for y m
    using inv that unfolding walk_inv_def by force
  have low: "m \<le> n" if "(y, m) \<in> set out" for y m
    using inv that unfolding walk_inv_def by (force simp: sorted_append)
  have high: "n \<le> m" if "(y, m) \<in> set queue" for y m
    using inv that unfolding walk_inv_def by (force simp: sorted_append)
  show ?thesis
    unfolding walk_inv_def
  proof (intro conjI)
    show "\<forall>(y, m)\<in>set ((out @ [(x, n)]) @ queue @ ?new). 0 < m \<and> (start, y) \<in> parent_edges resolve ^^ m"
      using inv step unfolding walk_inv_def by auto
    show "sorted (map snd ((out @ [(x, n)]) @ queue @ ?new))"
    proof -
      have "sorted (map snd out)" "sorted (map snd queue)"
        using inv unfolding walk_inv_def by (simp_all add: sorted_append)
      moreover have "sorted (map snd ?new)" by (simp add: comp_def sorted_iff_nth_mono)
      ultimately show ?thesis
        by (auto simp: sorted_append dest: span low high intro: order_trans [OF low high] le_SucI)
    qed
    show "\<forall>(y, m)\<in>set (queue @ ?new). \<forall>(z, k)\<in>set (queue @ ?new). k \<le> Suc m"
      using span high by fastforce
    show "distinct (map fst (out @ [(x, n)]))"
      using inv fresh unfolding walk_inv_def by auto
    show "\<forall>p\<in>set (parents_of resolve start). \<exists>m. (p, m) \<in> set ((out @ [(x, n)]) @ queue @ ?new) \<and> m \<le> 1"
      using inv unfolding walk_inv_def by fastforce
    show "\<forall>(y, m)\<in>set (out @ [(x, n)]). \<forall>p\<in>set (parents_of resolve y).
            \<exists>k. (p, k) \<in> set ((out @ [(x, n)]) @ queue @ ?new) \<and> k \<le> Suc m"
      using inv unfolding walk_inv_def by fastforce
  qed
qed

lemma ancestors_loop_walk:
  "walk_inv resolve start queue out \<Longrightarrow>
   \<exists>out'. ancestors_loop resolve (map fst queue) (fst ` set out) (map fst out) = map fst out'
     \<and> walk_inv resolve start [] out'"
proof (induction resolve "map fst queue" "fst ` set out" "map fst out" arbitrary: queue out rule: ancestors_loop.induct)
  case (1 resolve queue out)
  then show ?case by (auto simp: ancestors_loop.simps)
next
  case (2 resolve x rest)
  obtain n queue' where q: "queue = (x, n) # queue'" "rest = map fst queue'"
    using 2(3) by (cases queue) auto
  show ?case
  proof (cases "x \<in> fst ` set out")
    case True
    with 2(1) [of queue' out] 2(4) q show ?thesis
      by (auto simp: ancestors_loop.simps(2) dest: walk_inv_skip)
  next
    case False
    let ?queue = "queue' @ map (\<lambda>p. (p, Suc n)) (parents_of resolve x)" and ?out = "out @ [(x, n)]"
    have fst_new: "map fst ?queue = rest @ parents_of resolve x" by (simp add: q comp_def)
    have seen: "fst ` set ?out = insert x (fst ` set out)" by auto
    have "walk_inv resolve start ?queue ?out" using 2(4) False unfolding q(1) by (rule walk_inv_visit)
    with 2(2) [OF False fst_new [symmetric] seen [symmetric]] False show ?thesis
      by (simp add: q ancestors_loop.simps(2) comp_def insert_commute)
  qed
qed

lemma ancestors_walk:
  obtains out where "ancestors start resolve = map fst out" "walk_inv resolve start [] out"
proof -
  let ?queue = "map (\<lambda>p. (p, 1)) (parents_of resolve start)"
  have "walk_inv resolve start ?queue []"
    unfolding walk_inv_def by (auto simp: parent_edges_def comp_def sorted_iff_nth_mono)
  from ancestors_loop_walk [OF this] that show ?thesis
    by (auto simp: ancestors_def comp_def)
qed

lemma walk_complete:
  assumes inv: "walk_inv resolve start [] out"
  shows "(start, x) \<in> parent_edges resolve ^^ Suc n \<Longrightarrow> \<exists>m. (x, m) \<in> set out \<and> m \<le> Suc n"
proof (induction n arbitrary: x)
  case 0
  then have "x \<in> set (parents_of resolve start)" by (auto simp: parent_edges_def)
  then show ?case using inv unfolding walk_inv_def by auto
next
  case (Suc n)
  then obtain y where y: "(start, y) \<in> parent_edges resolve ^^ Suc n" "x \<in> set (parents_of resolve y)"
    unfolding relpow.simps(2) [of "Suc n"] by (auto simp: parent_edges_def simp del: relpow.simps)
  from Suc.IH [OF y(1)] obtain m where m: "(y, m) \<in> set out" "m \<le> Suc n" by blast
  then obtain k where "(x, k) \<in> set out" "k \<le> Suc m"
    using inv y(2) unfolding walk_inv_def by fastforce
  then show ?case using m(2) by (auto intro: order_trans)
qed

lemma walk_generation:
  assumes inv: "walk_inv resolve start [] out" and mem: "(x, n) \<in> set out"
  shows "n = generation resolve start x"
  unfolding generation_def
proof (rule Least_equality [symmetric])
  show "0 < n \<and> (start, x) \<in> parent_edges resolve ^^ n"
    using inv mem unfolding walk_inv_def by auto
next
  fix m assume m: "0 < m \<and> (start, x) \<in> parent_edges resolve ^^ m"
  then obtain k where k: "(x, k) \<in> set out" "k \<le> m"
    using walk_complete [OF inv, of x "m - 1"] by auto
  have "k = n" using inv k(1) mem unfolding walk_inv_def by (auto simp: eq_key_imp_eq_value)
  with k(2) show "n \<le> m" by simp
qed

text \<open>
  C25. The walk over ancestors returns on every input, cyclic ones included, and lists exactly the
  ids that one or more parent links lead to, each of them once and nearest first: the number of
  links to an id never decreases along the list.
\<close>

theorem ancestors_breadth_first:
  "distinct (ancestors start resolve)
    \<and> set (ancestors start resolve) = {x. (start, x) \<in> (parent_edges resolve)\<^sup>+}
    \<and> sorted (map (generation resolve start) (ancestors start resolve))"
proof -
  obtain out where out: "ancestors start resolve = map fst out" "walk_inv resolve start [] out"
    by (rule ancestors_walk)
  have gen: "map (generation resolve start) (map fst out) = map snd out"
    using walk_generation [OF out(2)] by (auto intro!: map_cong)
  have "set (map fst out) = {x. (start, x) \<in> (parent_edges resolve)\<^sup>+}"
  proof (intro set_eqI iffI)
    fix x assume "x \<in> set (map fst out)"
    then obtain n where "0 < n" "(start, x) \<in> parent_edges resolve ^^ n"
      using out(2) unfolding walk_inv_def by auto
    then show "x \<in> {x. (start, x) \<in> (parent_edges resolve)\<^sup>+}" by (auto simp: trancl_power)
  next
    fix x assume "x \<in> {x. (start, x) \<in> (parent_edges resolve)\<^sup>+}"
    then obtain n where "0 < n" "(start, x) \<in> parent_edges resolve ^^ n" by (auto simp: trancl_power)
    then obtain m where "(x, m) \<in> set out" using walk_complete [OF out(2), of x "n - 1"] by auto
    then show "x \<in> set (map fst out)" by force
  qed
  moreover have "sorted (map (generation resolve start) (map fst out))" "distinct (map fst out)"
    using out(2) unfolding gen walk_inv_def by simp_all
  ultimately show ?thesis unfolding out(1) by blast
qed

section \<open>Constructed transformations\<close>

definition well_ranged :: "transformation \<Rightarrow> bool" where
  "well_ranged t \<longleftrightarrow> t_order t \<le> MAX_ORDER \<and> 0 \<le> t_created_at t \<and> t_intent_id t \<noteq> UNSET_INTENT"

text \<open>What the constructors and the setter of the crate can build, whatever their arguments.\<close>

inductive built :: "transformation \<Rightarrow> bool" where
  built_new: "new_transformation tid order subject target parents meta = Inr t \<Longrightarrow> built t"
| built_identity: "identity x meta id_of = Inr t \<Longrightarrow> built t"
| built_compose: "built f \<Longrightarrow> built g \<Longrightarrow> compose f g resolve meta id_of = Inr t \<Longrightarrow> built t"
| built_set_order: "built t \<Longrightarrow> set_order n t = Inr t' \<Longrightarrow> built t'"

lemma in_range_ok: "in_range meta = Inr u \<longleftrightarrow> 0 \<le> m_created_at meta \<and> m_intent_id meta \<noteq> UNSET_INTENT"
  by (auto simp: in_range_def)

lemma with_order_ok [simp]: "with_order n = Inr m \<longleftrightarrow> m = n \<and> n \<le> MAX_ORDER"
  by (auto simp: with_order_def)

lemma composability_ok:
  "composability f g resolve = Inr u \<longleftrightarrow> t_target f \<noteq> None \<and> resolve (t_subject g) = t_target f"
  by (auto simp: composability_def and_then_eq_Inr ok_or_def split: option.splits if_splits)

lemma compose_ok:
  "compose f g resolve meta id_of = Inr t \<longleftrightarrow>
     composable f g resolve \<and> 0 \<le> m_created_at meta \<and> m_intent_id meta \<noteq> UNSET_INTENT
     \<and> max (t_created_at f) (t_created_at g) \<le> m_created_at meta \<and> max (t_order f) (t_order g) \<le> MAX_ORDER
     \<and> t = (let p = \<lparr>t_id = PROVISIONAL_ID, t_intent_id = m_intent_id meta, t_order = max (t_order f) (t_order g),
               t_subject = t_subject f, t_target = t_target g, t_delta = m_delta meta, t_context = m_context meta,
               t_actor = m_actor meta, t_parents = [t_id f, t_id g], t_created_at = m_created_at meta\<rparr>
            in p\<lparr>t_id := id_of p\<rparr>)"
  by (auto simp: compose_def composable_def is_ok_iff and_then_eq_Inr in_range_ok Let_def)

text \<open>
  Every transformation the crate's constructors can build stays in range: its order is at most
  \<open>MAX_ORDER\<close>, it is not dated before the epoch and it names an intent.
\<close>

theorem built_well_ranged: "built t \<Longrightarrow> well_ranged t"
proof (induction rule: built.induct)
  case (built_new tid order subject target parents meta t)
  then show ?case by (auto simp: new_transformation_def and_then_eq_Inr in_range_ok well_ranged_def)
next
  case (built_identity x meta id_of t)
  then show ?case by (auto simp: identity_def and_then_eq_Inr in_range_ok well_ranged_def Let_def MAX_ORDER_def)
next
  case (built_compose f g resolve meta id_of t)
  then show ?case by (auto simp: compose_ok well_ranged_def Let_def)
next
  case (built_set_order t n t')
  then show ?case by (auto simp: set_order_def and_then_eq_Inr well_ranged_def)
qed

definition sample_object :: object_snapshot where
  "sample_object = \<lparr>obj_id = zero_cid, obj_substrate = Fs, obj_locator = ''a'', obj_digest = zero_cid, obj_representation = Bytes\<rparr>"

definition sample_meta :: composition_metadata where
  "sample_meta = \<lparr>m_intent_id = Cid (replicate 32 1), m_delta = \<lparr>delta_substrate = Fs, delta_cid = zero_cid\<rparr>,
     m_context = Policy, m_actor = Human ''k'', m_created_at = 7\<rparr>"

lemma sample_meta_range: "in_range sample_meta = Inr ()"
  by (simp add: in_range_def sample_meta_def UNSET_INTENT_def zero_cid_def Cid_inject)

theorem built_well_ranged_witness:
  "\<exists>t. identity sample_object sample_meta t_id = Inr t \<and> well_ranged t"
proof -
  obtain t where t: "identity sample_object sample_meta t_id = Inr t"
    by (simp add: identity_def sample_meta_range Let_def)
  have "well_ranged t" by (rule built_well_ranged, rule built_identity, rule t)
  with t show ?thesis by blast
qed

text \<open>An identity arrow before a transformation keeps its target and order.\<close>

lemma compose_identity:
  assumes "identity x m id_of = Inr e" "compose e f resolve m' id_of = Inr t"
  shows "t_target t = t_target f" "t_order t = t_order f" "resolve (t_subject f) = Some (obj_digest x)"
  using assms by (auto simp: identity_def compose_ok and_then_eq_Inr Let_def max_def composable_def
      is_ok_iff composability_ok)

text \<open>
  Composition is associative up to the id and the recorded parents: if \<open>f\<close> and \<open>g\<close> compose and
  \<open>g\<close> and \<open>h\<close> compose, then under metadata that is in range and not dated before the two
  composites both ways of composing the three succeed, and they give the same arrow.
\<close>

theorem compose_associative:
  assumes fg: "compose f g resolve m1 id_of = Inr fg" and gh: "compose g h resolve m2 id_of = Inr gh"
    and m: "in_range m = Inr ()" and dates: "m_created_at m1 \<le> m_created_at m" "m_created_at m2 \<le> m_created_at m"
      "t_created_at f \<le> m_created_at m" "t_created_at h \<le> m_created_at m"
  shows "\<exists>l r. compose fg h resolve m id_of = Inr l \<and> compose f gh resolve m id_of = Inr r
    \<and> l\<lparr>t_id := t_id r, t_parents := t_parents r\<rparr> = r"
proof -
  have "t_target g = t_target fg" "t_subject fg = t_subject f" "t_order fg = max (t_order f) (t_order g)"
      "t_created_at fg = m_created_at m1" "composable f g resolve" "max (t_order f) (t_order g) \<le> MAX_ORDER"
    using fg by (auto simp: compose_ok Let_def)
  moreover have "t_target gh = t_target h" "t_subject gh = t_subject g" "t_order gh = max (t_order g) (t_order h)"
      "t_created_at gh = m_created_at m2" "composable g h resolve" "max (t_order g) (t_order h) \<le> MAX_ORDER"
    using gh by (auto simp: compose_ok Let_def)
  ultimately show ?thesis
    using m dates by (auto simp: compose_ok in_range_ok composable_def is_ok_iff composability_ok Let_def max.assoc)
qed

theorem compose_associative_witness:
  "\<exists>e ee. identity sample_object sample_meta t_id = Inr e
    \<and> compose e e (\<lambda>_. Some zero_cid) sample_meta t_id = Inr ee
    \<and> (\<exists>l r. compose ee e (\<lambda>_. Some zero_cid) sample_meta t_id = Inr l
         \<and> compose e ee (\<lambda>_. Some zero_cid) sample_meta t_id = Inr r
         \<and> l\<lparr>t_id := t_id r, t_parents := t_parents r\<rparr> = r)"
proof -
  obtain e where e: "identity sample_object sample_meta t_id = Inr e"
    by (simp add: identity_def sample_meta_range Let_def)
  then have parts: "t_target e = Some zero_cid" "t_order e = 0" "t_created_at e = m_created_at sample_meta"
    by (auto simp: identity_def sample_meta_range Let_def sample_object_def)
  have "composable e e (\<lambda>_. Some zero_cid)" by (simp add: composable_def composability_def parts)
  then obtain ee where ee: "compose e e (\<lambda>_. Some zero_cid) sample_meta t_id = Inr ee"
    using sample_meta_range by (simp add: compose_ok parts MAX_ORDER_def in_range_ok)
  from compose_associative [OF ee ee sample_meta_range] e ee show ?thesis by (auto simp: parts)
qed

text \<open>The comparison of fingerprints is defined exactly on one substrate and scope, and symmetric there.\<close>

lemma cas_eq_sym: "cas_eq a b = Inr r \<longleftrightarrow> cas_eq b a = Inr r"
  by (auto simp: cas_eq_def)

lemma cas_eq_true_iff: "cas_eq a b = Inr True \<longleftrightarrow> a = b"
  by (auto simp: cas_eq_def intro: fingerprint.equality)

section \<open>Admission of environment fingerprints\<close>

lemma envset_key_inj: "inj envset_key"
  by (auto simp: inj_on_def envset_key_def intro: envset_entry.equality)

text \<open>
  The admission of an environment fingerprint does not depend on the order in which its entries
  arrived; it allows only when every value is a digest and the claimed predecessor is the one last
  committed, escalates exactly when the values are digests and the predecessor differs, and a denial
  names an entry whose value is not a digest.
\<close>

theorem envset_admission:
  "(mset es = mset es' \<longrightarrow> new_envset scope es prev = new_envset scope es' prev)
    \<and> (case envset_admit (new_envset scope es prev) held of
         EnvAllow \<Rightarrow> (\<forall>e\<in>set es. is_digest_form (env_value_digest e)) \<and> prev = held
       | EnvDeny name \<Rightarrow> \<exists>e\<in>set es. env_name e = name \<and> \<not> is_digest_form (env_value_digest e)
       | EnvEscalate p h \<Rightarrow> (\<forall>e\<in>set es. is_digest_form (env_value_digest e)) \<and> p = prev \<and> h = held \<and> prev \<noteq> held)"
proof (rule conjI, rule impI)
  assume "mset es = mset es'"
  then have "sort_key envset_key es = sort_key envset_key es'"
    by (intro sort_key_inj_key_eq) (simp_all add: inj_on_subset [OF envset_key_inj])
  then show "new_envset scope es prev = new_envset scope es' prev" by (simp add: new_envset_def)
next
  show "case envset_admit (new_envset scope es prev) held of
         EnvAllow \<Rightarrow> (\<forall>e\<in>set es. is_digest_form (env_value_digest e)) \<and> prev = held
       | EnvDeny name \<Rightarrow> \<exists>e\<in>set es. env_name e = name \<and> \<not> is_digest_form (env_value_digest e)
       | EnvEscalate p h \<Rightarrow> (\<forall>e\<in>set es. is_digest_form (env_value_digest e)) \<and> p = prev \<and> h = held \<and> prev \<noteq> held"
  proof (cases "find (\<lambda>e. \<not> is_digest_form (env_value_digest e)) (sort_key envset_key es)")
    case None
    then have "\<forall>e\<in>set es. is_digest_form (env_value_digest e)" by (auto simp: find_None_iff)
    with None show ?thesis by (auto simp: envset_admit_def new_envset_def split: option.splits)
  next
    case (Some e)
    then have "e \<in> set (sort_key envset_key es)" "\<not> is_digest_form (env_value_digest e)"
      unfolding find_Some_iff by (metis nth_mem)+
    then have "e \<in> set es" "\<not> is_digest_form (env_value_digest e)" by simp_all
    with Some show ?thesis by (auto simp: envset_admit_def new_envset_def)
  qed
qed

theorem envset_admission_witness:
  "let scope = \<lparr>env_project = [], env_environment = []\<rparr>;
       a = \<lparr>env_name = [1], env_value_digest = [], env_scope_tag = None\<rparr>;
       b = \<lparr>env_name = [2], env_value_digest = [7], env_scope_tag = None\<rparr>
   in new_envset scope [a, b] None = new_envset scope [b, a] None
      \<and> (\<exists>e\<in>{a, b}. envset_admit (new_envset scope [b, a] None) None = EnvDeny (env_name e))"
proof -
  define scope :: envset_scope where "scope = \<lparr>env_project = [], env_environment = []\<rparr>"
  define a :: envset_entry where "a = \<lparr>env_name = [1], env_value_digest = [], env_scope_tag = None\<rparr>"
  define b :: envset_entry where "b = \<lparr>env_name = [2], env_value_digest = [7], env_scope_tag = None\<rparr>"
  have bad: "\<not> is_digest_form (env_value_digest a)"
    by (simp add: a_def is_digest_form_def ENVSET_DIGEST_PREFIX_def ascii_def)
  from envset_admission [of "[a, b]" "[b, a]" scope None None] bad
  have "new_envset scope [a, b] None = new_envset scope [b, a] None
      \<and> (\<exists>e\<in>{a, b}. envset_admit (new_envset scope [b, a] None) None = EnvDeny (env_name e))"
    by (auto split: envset_admission.splits simp: add_mset_commute)
  then show ?thesis by (simp add: Let_def a_def b_def scope_def)
qed

end
