(* ===== verification/Engine_Records.thy ===== *)
theory Engine_Records
  imports Core_Model Verdict_Log
begin

text \<open>
  The vocabulary of the engine and the state it rebuilds from its journal: the records of
  \<open>src/crates/gx-engine/src/store.rs\<close>, the lifecycle of \<open>pipeline.rs\<close>, and \<open>SigmaShadow\<close> with
  \<open>Sigma\<close> of \<open>replay.rs\<close>.

  A \<open>BTreeMap\<close> is a map; what an iteration over it yields is written as the sorted list of its keys.
\<close>

section \<open>Lifecycle and errors\<close>

datatype lifecycle =
    Draft | Candidate | Verifying | Admitted | Denied | Escalated | Canonicalized | Committing | Committed
  | Aborted abort_reason | Superseded

fun is_terminal :: "lifecycle \<Rightarrow> bool" where
  "is_terminal (Aborted _) = True"
| "is_terminal Committed = True"
| "is_terminal Superseded = True"
| "is_terminal _ = False"

datatype engine_error =
    EngineCanon canon_error
  | EngineCore core_error
  | EngineIo string
  | EngineMalformed
  | InconsistentEscrow
  | InconsistentTicket
  | EvidenceUnavailable
  | NotIdempotent transformation_id
  | NotFound string
  | InvalidState transformation_id string string
  | AdapterRefused string
  | LedgerRefused string
  | WitnessRefused string
  | Unrepresentable string
  | Busy
  | WorldMoved transformation_id
  | WitnessMissing transformation_id
  | AppendOnlyClass transformation_id
  | InverseNotExecutableAtSubstrate transformation_id
  | ObservationClassUnknown string
  | PlaintextSecret bytes
  | EnginePanic

section \<open>What a record carries\<close>

record confinement_context =
  kernel_confined :: bool
  ruleset_hash :: "string option"

record environment =
  host_id :: "string option"
  adapter_kind :: substrate_kind
  correlation_id :: "string option"
  engine_version :: string
  adapter_version :: string
  confinement :: "confinement_context option"

record provenance =
  prov_environment :: environment
  prov_input_objects :: "cid list"
  prov_intent_digest :: "cid option"
  prov_transformation :: transformation_id

definition derive_from :: "transformation \<Rightarrow> cid list \<Rightarrow> environment \<Rightarrow> provenance" where
  "derive_from t input_objects env =
     \<lparr>prov_environment = env, prov_input_objects = sort input_objects,
      prov_intent_digest = (if t_parents t = [] then Some (t_intent_id t) else None),
      prov_transformation = t_id t\<rparr>"

record read_entry =
  read_digest :: cid
  read_locator :: string

datatype undo_disposition = Attested | Unobservable string

datatype rollback = NotAttempted | Succeeded | Failed | Diverged

datatype inverse_status =
    Available | Consumed transformation_id | InverseExpired | Unavailable | Pending | BodyMissing | Undetermined

text \<open>\<open>FingerprintRecord\<close> has the fields of a fingerprint; reading it back checks the scope again.\<close>

record fingerprint_record =
  fr_substrate :: substrate_kind
  fr_scope :: string
  fr_digest :: cid

definition record_of_fingerprint :: "fingerprint \<Rightarrow> fingerprint_record" where
  "record_of_fingerprint fp = \<lparr>fr_substrate = fp_substrate fp, fr_scope = fp_scope fp, fr_digest = fp_digest fp\<rparr>"

definition into_fingerprint :: "fingerprint_record \<Rightarrow> core_error + fingerprint" where
  "into_fingerprint r = new_fingerprint (fr_substrate r) (fr_scope r) (fr_digest r)"

lemma into_fingerprint_of: "length (fp_scope fp) \<le> MAX_SCOPE_BYTES \<Longrightarrow> into_fingerprint (record_of_fingerprint fp) = Inr fp"
  by (auto simp: into_fingerprint_def record_of_fingerprint_def new_fingerprint_def intro: fingerprint.equality)

section \<open>Journal records\<close>

datatype journal_record =
    DraftCreatedRec (jr_intent: intent_id) u64 timestamp
  | PlannedRec transformation_id intent_id string cid fingerprint_record "transformation_id list" boundary_stage
      "undo_disposition option" timestamp
  | VerifyStartedRec transformation_id timestamp
  | VerdictRec transformation_id verdict_kind "cid option" bool timestamp
  | HumanDecisionRec transformation_id verdict_kind string actor "cid option" timestamp
  | CanonicalizedRec transformation_id cid "bool option" timestamp
  | CommittingStartedRec transformation_id timestamp
  | ProvenanceDerivedRec transformation_id provenance timestamp
  | InverseEscrowedRec transformation_id "cid option" bool "read_entry list" bool bool timestamp
  | ApplyStartedRec transformation_id cid timestamp
  | ApplyObservedRec transformation_id cid timestamp
  | InverseCompletedRec transformation_id "cid option" timestamp
  | CommittedRec transformation_id nat timestamp
  | AbortedRec transformation_id abort_reason "rollback option" timestamp
  | SupersededRec transformation_id transformation_id timestamp

fun record_at :: "journal_record \<Rightarrow> timestamp" where
  "record_at (DraftCreatedRec _ _ at) = at"
| "record_at (PlannedRec _ _ _ _ _ _ _ _ at) = at"
| "record_at (VerifyStartedRec _ at) = at"
| "record_at (VerdictRec _ _ _ _ at) = at"
| "record_at (HumanDecisionRec _ _ _ _ _ at) = at"
| "record_at (CanonicalizedRec _ _ _ at) = at"
| "record_at (CommittingStartedRec _ at) = at"
| "record_at (ProvenanceDerivedRec _ _ at) = at"
| "record_at (InverseEscrowedRec _ _ _ _ _ _ at) = at"
| "record_at (ApplyStartedRec _ _ at) = at"
| "record_at (ApplyObservedRec _ _ at) = at"
| "record_at (InverseCompletedRec _ _ at) = at"
| "record_at (CommittedRec _ _ at) = at"
| "record_at (AbortedRec _ _ _ at) = at"
| "record_at (SupersededRec _ _ at) = at"

fun record_transformation :: "journal_record \<Rightarrow> transformation_id option" where
  "record_transformation (DraftCreatedRec _ _ _) = None"
| "record_transformation (PlannedRec t _ _ _ _ _ _ _ _) = Some t"
| "record_transformation (VerifyStartedRec t _) = Some t"
| "record_transformation (VerdictRec t _ _ _ _) = Some t"
| "record_transformation (HumanDecisionRec t _ _ _ _ _) = Some t"
| "record_transformation (CanonicalizedRec t _ _ _) = Some t"
| "record_transformation (CommittingStartedRec t _) = Some t"
| "record_transformation (ProvenanceDerivedRec t _ _) = Some t"
| "record_transformation (InverseEscrowedRec t _ _ _ _ _ _) = Some t"
| "record_transformation (ApplyStartedRec t _ _) = Some t"
| "record_transformation (ApplyObservedRec t _ _) = Some t"
| "record_transformation (InverseCompletedRec t _ _) = Some t"
| "record_transformation (CommittedRec t _ _) = Some t"
| "record_transformation (AbortedRec t _ _ _) = Some t"
| "record_transformation (SupersededRec t _ _) = Some t"

section \<open>The state a journal describes\<close>

record draft_row =
  dr_intent_id :: intent_id
  dr_rng_seed :: u64

record state_row =
  sr_transformation :: transformation_id
  sr_intent_id :: "intent_id option"
  sr_delta_cid :: "cid option"
  sr_fp0 :: "fingerprint_record option"
  sr_state :: "lifecycle option"
  sr_verdict :: "verdict_kind option"
  sr_verdict_digest :: "cid option"
  sr_enforced :: bool
  sr_fail_posture_engaged :: bool
  sr_canonical_cid :: "cid option"
  sr_apply_started :: "cid option"
  sr_observation_cid :: "cid option"
  sr_rollback :: "rollback option"
  sr_provenance :: "provenance option"
  sr_superseded_by :: "transformation_id option"

definition row_about :: "transformation_id \<Rightarrow> state_row" where
  "row_about t =
     \<lparr>sr_transformation = t, sr_intent_id = None, sr_delta_cid = None, sr_fp0 = None, sr_state = None,
      sr_verdict = None, sr_verdict_digest = None, sr_enforced = True, sr_fail_posture_engaged = False,
      sr_canonical_cid = None, sr_apply_started = None, sr_observation_cid = None, sr_rollback = None,
      sr_provenance = None, sr_superseded_by = None\<rparr>"

record escrow_row =
  er_transformation :: transformation_id
  er_inverse_cid :: "cid option"
  er_retained_until :: "timestamp option"
  er_status :: inverse_status

record committed_row =
  cr_transformation :: transformation_id
  cr_ledger_seq :: nat

record sigma =
  sg_drafts :: "draft_row list"
  sg_transformations :: "state_row list"
  sg_escrow :: "escrow_row list"
  sg_ledger :: "committed_row list"

definition new_sigma :: "draft_row list \<Rightarrow> state_row list \<Rightarrow> escrow_row list \<Rightarrow> committed_row list \<Rightarrow> sigma" where
  "new_sigma drafts transformations escrow ledger =
     \<lparr>sg_drafts = sort_key dr_intent_id drafts, sg_transformations = sort_key sr_transformation transformations,
      sg_escrow = sort_key er_transformation escrow,
      sg_ledger = sort_key (\<lambda>c. (cr_ledger_seq c, cr_transformation c)) ledger\<rparr>"

definition sigma_state_of :: "sigma \<Rightarrow> transformation_id \<Rightarrow> state_row option" where
  "sigma_state_of s t = find (\<lambda>r. sr_transformation r = t) (sg_transformations s)"

record sigma_shadow =
  sh_drafts :: "intent_id \<Rightarrow> u64 option"
  sh_rows :: "transformation_id \<Rightarrow> state_row option"
  sh_escrow :: "transformation_id \<Rightarrow> escrow_row option"
  sh_ledger :: "transformation_id \<Rightarrow> nat option"
  sh_since :: "transformation_id \<Rightarrow> timestamp option"

definition empty_shadow :: sigma_shadow where
  "empty_shadow = \<lparr>sh_drafts = (\<lambda>_. None), sh_rows = (\<lambda>_. None), sh_escrow = (\<lambda>_. None), sh_ledger = (\<lambda>_. None),
     sh_since = (\<lambda>_. None)\<rparr>"

definition btree_items :: "('k :: linorder \<Rightarrow> 'v option) \<Rightarrow> ('k \<times> 'v) list" where
  "btree_items m = map (\<lambda>k. (k, the (m k))) (sorted_list_of_set (dom m))"

definition shadow_sigma :: "sigma_shadow \<Rightarrow> sigma" where
  "shadow_sigma sh =
     new_sigma (map (\<lambda>(i, seed). \<lparr>dr_intent_id = i, dr_rng_seed = seed\<rparr>) (btree_items (sh_drafts sh)))
       (map snd (btree_items (sh_rows sh))) (map snd (btree_items (sh_escrow sh)))
       (map (\<lambda>(t, seq). \<lparr>cr_transformation = t, cr_ledger_seq = seq\<rparr>) (btree_items (sh_ledger sh)))"

fun state_of_verdict :: "verdict_kind \<Rightarrow> lifecycle" where
  "state_of_verdict Admit = Admitted"
| "state_of_verdict Deny = Denied"
| "state_of_verdict Escalate = Escalated"

section \<open>Folding a record\<close>

definition on_row :: "transformation_id \<Rightarrow> (state_row \<Rightarrow> state_row) \<Rightarrow> sigma_shadow \<Rightarrow> sigma_shadow" where
  "on_row t f sh = sh\<lparr>sh_rows := (sh_rows sh)(t := map_option f (sh_rows sh t))\<rparr>"

definition escrow_status :: "cid option \<Rightarrow> bool \<Rightarrow> bool \<Rightarrow> inverse_status" where
  "escrow_status inverse_cid pending undetermined =
     (case inverse_cid of
        Some _ \<Rightarrow> if pending then Pending else Available
      | None \<Rightarrow> if undetermined then Undetermined else Unavailable)"

text \<open>The match of \<open>fold\<close>; the row of the named transformation exists by then.\<close>

fun fold_arm :: "journal_record \<Rightarrow> sigma_shadow \<Rightarrow> sigma_shadow" where
  "fold_arm (DraftCreatedRec i seed _) sh = sh\<lparr>sh_drafts := (sh_drafts sh)(i \<mapsto> seed)\<rparr>"
| "fold_arm (PlannedRec t i _ d fp _ _ _ _) sh =
     on_row t (\<lambda>r. r\<lparr>sr_intent_id := Some i, sr_delta_cid := Some d, sr_fp0 := Some fp, sr_state := Some Candidate\<rparr>) sh"
| "fold_arm (VerifyStartedRec t _) sh = on_row t (\<lambda>r. r\<lparr>sr_state := Some Verifying\<rparr>) sh"
| "fold_arm (VerdictRec t kind vd fpe _) sh =
     on_row t (\<lambda>r.
       let r = r\<lparr>sr_fail_posture_engaged := fpe, sr_verdict_digest := vd\<rparr> in
       if fpe then r\<lparr>sr_verdict := None, sr_enforced := False, sr_state := Some Admitted\<rparr>
       else r\<lparr>sr_verdict := Some kind, sr_state := Some (state_of_verdict kind)\<rparr>) sh"
| "fold_arm (HumanDecisionRec t kind _ _ vd _) sh =
     on_row t (\<lambda>r.
       let r = r\<lparr>sr_verdict := Some kind\<rparr>;
           r = (case vd of Some d \<Rightarrow> r\<lparr>sr_verdict_digest := Some d\<rparr> | None \<Rightarrow> r)
       in r\<lparr>sr_state := Some (state_of_verdict kind)\<rparr>) sh"
| "fold_arm (CanonicalizedRec t c enf _) sh =
     on_row t (\<lambda>r.
       let r = r\<lparr>sr_canonical_cid := Some c\<rparr>;
           r = (if enf = Some False then r\<lparr>sr_enforced := False\<rparr> else r)
       in r\<lparr>sr_state := Some Canonicalized\<rparr>) sh"
| "fold_arm (CommittingStartedRec t _) sh = on_row t (\<lambda>r. r\<lparr>sr_state := Some Committing\<rparr>) sh"
| "fold_arm (ProvenanceDerivedRec t p _) sh = on_row t (\<lambda>r. r\<lparr>sr_provenance := Some p\<rparr>) sh"
| "fold_arm (InverseEscrowedRec t inv_cid pending _ _ undetermined _) sh =
     sh\<lparr>sh_escrow := (sh_escrow sh)(t \<mapsto> \<lparr>er_transformation = t, er_inverse_cid = inv_cid, er_retained_until = None,
          er_status = escrow_status inv_cid pending undetermined\<rparr>)\<rparr>"
| "fold_arm (ApplyStartedRec t d _) sh = on_row t (\<lambda>r. r\<lparr>sr_apply_started := Some d\<rparr>) sh"
| "fold_arm (ApplyObservedRec t c _) sh = on_row t (\<lambda>r. r\<lparr>sr_observation_cid := Some c\<rparr>) sh"
| "fold_arm (InverseCompletedRec t inv_cid _) sh =
     sh\<lparr>sh_escrow := (sh_escrow sh)(t \<mapsto> \<lparr>er_transformation = t, er_inverse_cid = inv_cid, er_retained_until = None,
          er_status = (case inv_cid of Some _ \<Rightarrow> Available | None \<Rightarrow> Unavailable)\<rparr>)\<rparr>"
| "fold_arm (CommittedRec t seq _) sh =
     (on_row t (\<lambda>r. r\<lparr>sr_state := Some Committed\<rparr>) sh)\<lparr>sh_ledger := (sh_ledger sh)(t \<mapsto> seq)\<rparr>"
| "fold_arm (AbortedRec t reason rb _) sh =
     on_row t (\<lambda>r. r\<lparr>sr_state := Some (Aborted reason), sr_rollback := rb\<rparr>) sh"
| "fold_arm (SupersededRec t by _) sh =
     (on_row t (\<lambda>r. r\<lparr>sr_state := Some Superseded, sr_superseded_by := Some by\<rparr>) sh)
       \<lparr>sh_escrow := (sh_escrow sh)(t := map_option (\<lambda>e. e\<lparr>er_status := Consumed by\<rparr>) (sh_escrow sh t))\<rparr>"

definition shadow_state :: "sigma_shadow \<Rightarrow> transformation_id \<Rightarrow> lifecycle option" where
  "shadow_state sh t = Option.bind (sh_rows sh t) sr_state"

definition ensure_row :: "transformation_id \<Rightarrow> sigma_shadow \<Rightarrow> sigma_shadow" where
  "ensure_row t sh =
     (case sh_rows sh t of Some _ \<Rightarrow> sh | None \<Rightarrow> sh\<lparr>sh_rows := (sh_rows sh)(t \<mapsto> row_about t)\<rparr>)"

definition shadow_fold :: "journal_record \<Rightarrow> sigma_shadow \<Rightarrow> sigma_shadow" where
  "shadow_fold r sh =
     (case record_transformation r of
        None \<Rightarrow> fold_arm r sh
      | Some t \<Rightarrow>
          (let state_before = shadow_state sh t;
               sh' = fold_arm r (ensure_row t sh)
           in if shadow_state sh' t \<noteq> state_before then sh'\<lparr>sh_since := (sh_since sh')(t \<mapsto> record_at r)\<rparr> else sh'))"

definition reconstruct_shadow :: "journal_record list \<Rightarrow> sigma_shadow" where
  "reconstruct_shadow records = fold shadow_fold records empty_shadow"

definition reconstruct :: "journal_record list \<Rightarrow> sigma" where
  "reconstruct records = shadow_sigma (reconstruct_shadow records)"

section \<open>The index of superseded transformations\<close>

text \<open>\<open>SupersedeIndex::record\<close> keeps the first entry and reports whether it made one.\<close>

definition supersede_record ::
  "transformation_id \<Rightarrow> transformation_id \<Rightarrow> (transformation_id \<Rightarrow> transformation_id option)
    \<Rightarrow> bool \<times> (transformation_id \<Rightarrow> transformation_id option)" where
  "supersede_record original by index =
     (if index original \<noteq> None then (False, index) else (True, index(original \<mapsto> by)))"

section \<open>Records about different transformations do not interfere\<close>

definition names :: "transformation_id \<Rightarrow> journal_record \<Rightarrow> bool" where
  "names t r \<longleftrightarrow> record_transformation r = Some t"

text \<open>What a shadow holds about one transformation.\<close>

definition view_of :: "sigma_shadow \<Rightarrow> transformation_id \<Rightarrow> state_row option \<times> escrow_row option \<times> nat option \<times> timestamp option" where
  "view_of sh t = (sh_rows sh t, sh_escrow sh t, sh_ledger sh t, sh_since sh t)"

lemmas shadow_simps = shadow_fold_def ensure_row_def on_row_def shadow_state_def Let_def

lemma view_of_other:
  assumes "\<not> names t r" shows "view_of (shadow_fold r sh) t = view_of sh t"
  using assms unfolding names_def view_of_def
  by (cases r) (auto simp: shadow_simps split: option.splits)

lemma view_of_cong:
  assumes "view_of a t = view_of b t" "names t r"
  shows "view_of (shadow_fold r a) t = view_of (shadow_fold r b) t"
  using assms unfolding names_def view_of_def
  by (cases r) (auto simp: shadow_simps split: option.splits)

text \<open>
  C26. What the engine knows about a transformation after a replay depends only on the records that
  name it: in any interleaving with records of other transformations its row, escrow, ledger
  position and the time of its state are those of its own records alone.
\<close>

theorem reconstruct_projects:
  "view_of (reconstruct_shadow records) t = view_of (reconstruct_shadow (filter (names t) records)) t"
proof -
  have "view_of (fold shadow_fold records a) t = view_of (fold shadow_fold (filter (names t) records) b) t"
    if "view_of a t = view_of b t" for a b
    using that
  proof (induction records arbitrary: a b)
    case (Cons r records)
    show ?case
    proof (cases "names t r")
      case True
      with Cons.prems have "view_of (shadow_fold r a) t = view_of (shadow_fold r b) t" by (rule view_of_cong)
      from Cons.IH [OF this] True show ?thesis by simp
    next
      case False
      with Cons.prems have "view_of (shadow_fold r a) t = view_of b t" by (simp add: view_of_other)
      from Cons.IH [OF this] False show ?thesis by simp
    qed
  qed simp
  then show ?thesis by (simp add: reconstruct_shadow_def)
qed

section \<open>Since when a state holds\<close>

lemma state_other: "\<not> names t r \<Longrightarrow> shadow_state (shadow_fold r sh) t = shadow_state sh t"
  using view_of_other [of t r sh] by (simp add: view_of_def shadow_state_def)

lemma since_step:
  "sh_since (shadow_fold r sh) t =
     (if shadow_state (shadow_fold r sh) t \<noteq> shadow_state sh t then Some (record_at r) else sh_since sh t)"
proof (cases "names t r")
  case False
  then show ?thesis using view_of_other [OF False, of sh] state_other [OF False, of sh] by (simp add: view_of_def)
next
  case True
  have keep: "sh_since (fold_arm r s) = sh_since s" "sh_since (ensure_row t s) = sh_since s" for s t
    by (cases r; simp add: on_row_def) (simp add: ensure_row_def split: option.splits)
  have upd: "shadow_state (s\<lparr>sh_since := m\<rparr>) t = shadow_state s t" for s m by (simp add: shadow_state_def)
  from True show ?thesis by (auto simp: names_def shadow_fold_def Let_def keep upd)
qed

definition state_after :: "journal_record list \<Rightarrow> transformation_id \<Rightarrow> lifecycle option" where
  "state_after records t = shadow_state (reconstruct_shadow records) t"

lemma reconstruct_shadow_snoc: "reconstruct_shadow (rs @ [r]) = shadow_fold r (reconstruct_shadow rs)"
  by (simp add: reconstruct_shadow_def)

definition changes_state :: "journal_record list \<Rightarrow> transformation_id \<Rightarrow> nat \<Rightarrow> bool" where
  "changes_state records t k \<longleftrightarrow> state_after (take (Suc k) records) t \<noteq> state_after (take k records) t"

lemma changes_state_snoc:
  "k < length rs \<Longrightarrow> changes_state (rs @ [r]) t k = changes_state rs t k"
  "changes_state (rs @ [r]) t (length rs) \<longleftrightarrow> shadow_state (shadow_fold r (reconstruct_shadow rs)) t \<noteq> shadow_state (reconstruct_shadow rs) t"
  by (simp_all add: changes_state_def state_after_def reconstruct_shadow_snoc)

text \<open>
  The time recorded for a transformation's state is the time of the record that last changed it:
  the record at some position has that time and changed the state, and no record after it did.
\<close>

theorem since_is_last_change:
  "sh_since (reconstruct_shadow records) t = Some at \<longleftrightarrow>
     (\<exists>k < length records. record_at (records ! k) = at \<and> changes_state records t k
        \<and> (\<forall>j < length records. k < j \<longrightarrow> \<not> changes_state records t j))"
proof (induction records rule: rev_induct)
  case Nil
  then show ?case by (simp add: reconstruct_shadow_def empty_shadow_def)
next
  case (snoc r rs)
  show ?case
  proof (cases "changes_state (rs @ [r]) t (length rs)")
    case True
    then have "sh_since (reconstruct_shadow (rs @ [r])) t = Some (record_at r)"
      by (simp add: changes_state_snoc reconstruct_shadow_snoc since_step)
    moreover have "(\<exists>k < length (rs @ [r]). record_at ((rs @ [r]) ! k) = at \<and> changes_state (rs @ [r]) t k
        \<and> (\<forall>j < length (rs @ [r]). k < j \<longrightarrow> \<not> changes_state (rs @ [r]) t j)) \<longleftrightarrow> record_at r = at" (is "(\<exists>k < _. ?last k) \<longleftrightarrow> _")
    proof
      assume "\<exists>k < length (rs @ [r]). ?last k"
      then obtain k where k: "k < Suc (length rs)" "?last k" by auto
      with True have "\<not> k < length rs" by auto
      with k have "k = length rs" by simp
      with k show "record_at r = at" by simp
    next
      assume "record_at r = at"
      with True have "?last (length rs)" by simp
      then show "\<exists>k < length (rs @ [r]). ?last k" by (intro exI [of _ "length rs"]) simp
    qed
    ultimately show ?thesis by simp
  next
    case False
    then have "sh_since (reconstruct_shadow (rs @ [r])) t = sh_since (reconstruct_shadow rs) t"
      by (simp add: changes_state_snoc reconstruct_shadow_snoc since_step)
    then show ?thesis
      using False snoc.IH by (simp add: Ex_less_Suc All_less_Suc nth_append changes_state_snoc cong: conj_cong)
  qed
qed

definition verify_records :: "journal_record list" where
  "verify_records = [VerifyStartedRec zero_cid 5, CanonicalizedRec zero_cid zero_cid None 8,
     ApplyStartedRec zero_cid zero_cid 9]"

lemmas sample_replay_simps = reconstruct_shadow_def verify_records_def shadow_simps empty_shadow_def row_about_def

theorem since_is_last_change_witness:
  "sh_since (reconstruct_shadow verify_records) zero_cid = Some 8
    \<and> changes_state verify_records zero_cid 1 \<and> \<not> changes_state verify_records zero_cid 2"
proof -
  have len: "length verify_records = 3" by (simp add: verify_records_def)
  have since: "sh_since (reconstruct_shadow verify_records) zero_cid = Some 8" by (simp add: sample_replay_simps)
  then obtain k where k: "k < 3" "record_at (verify_records ! k) = 8" "changes_state verify_records zero_cid k"
      "\<forall>j < 3. k < j \<longrightarrow> \<not> changes_state verify_records zero_cid j"
    using since_is_last_change [of verify_records zero_cid 8] len by metis
  then have "k = 1" by (auto simp: verify_records_def numeral_eq_Suc less_Suc_eq)
  with k since show ?thesis by simp
qed

section \<open>The rebuilt state as a table\<close>

lemma map_fst_btree_items: "map fst (btree_items m) = sorted_list_of_set (dom m)"
  by (simp add: btree_items_def comp_def)

lemma set_btree_items: "finite (dom m) \<Longrightarrow> set (btree_items m) = {(k, v). m k = Some v}"
  by (auto simp: btree_items_def image_iff)

definition shadow_keyed :: "sigma_shadow \<Rightarrow> bool" where
  "shadow_keyed sh \<longleftrightarrow>
     (\<forall>t r. sh_rows sh t = Some r \<longrightarrow> sr_transformation r = t)
     \<and> (\<forall>t e. sh_escrow sh t = Some e \<longrightarrow> er_transformation e = t)"

lemma shadow_keyed_fold: "shadow_keyed sh \<Longrightarrow> shadow_keyed (shadow_fold r sh)"
  unfolding shadow_keyed_def by (cases r) (auto simp: shadow_simps row_about_def split: option.splits if_splits)

lemma shadow_keyed_reconstruct: "shadow_keyed (reconstruct_shadow rs)"
  by (induction rs rule: rev_induct)
    (simp_all add: reconstruct_shadow_snoc shadow_keyed_fold, simp add: reconstruct_shadow_def empty_shadow_def shadow_keyed_def)

lemma sort_btree_rows:
  fixes key :: "'v \<Rightarrow> 'k :: linorder"
  assumes "\<And>k v. m k = Some v \<Longrightarrow> key v = k"
  shows "map key (sort_key key (map snd (btree_items m))) = sorted_list_of_set (dom m)"
proof (cases "finite (dom m)")
  case True
  have keys: "map key (map snd (btree_items m)) = sorted_list_of_set (dom m)"
    using assms True by (auto simp: btree_items_def intro!: map_idI)
  then have "sort_key key (map snd (btree_items m)) = map snd (btree_items m)"
    by (intro sort_key_id_if_sorted) simp
  with keys show ?thesis by simp
qed (simp add: btree_items_def)

lemma dom_rows_fold: "dom (sh_rows (shadow_fold r sh)) = dom (sh_rows sh) \<union> {t. names t r}"
proof -
  have arm: "dom (sh_rows (fold_arm r s)) = dom (sh_rows s)" for s
    by (cases r) (auto simp: on_row_def dom_def)
  have ens: "dom (sh_rows (ensure_row t s)) = insert t (dom (sh_rows s))" for t s
    by (auto simp: ensure_row_def split: option.splits)
  show ?thesis by (auto simp: shadow_fold_def Let_def arm ens names_def split: option.splits)
qed

lemma dom_rows: "dom (sh_rows (reconstruct_shadow rs)) = {t. \<exists>r\<in>set rs. names t r}"
  by (induction rs rule: rev_induct)
    (auto simp: reconstruct_shadow_snoc dom_rows_fold, simp add: reconstruct_shadow_def empty_shadow_def)

lemma finite_rows [simp]: "finite (dom (sh_rows (reconstruct_shadow rs)))"
  by (rule finite)

lemma rows_member:
  "r \<in> set (sg_transformations (reconstruct rs)) \<longleftrightarrow> (\<exists>t. sh_rows (reconstruct_shadow rs) t = Some r)"
  by (force simp: reconstruct_def shadow_sigma_def new_sigma_def set_btree_items [OF finite_rows])

lemma rows_listed:
  "map sr_transformation (sg_transformations (reconstruct records)) = sorted_list_of_set (dom (sh_rows (reconstruct_shadow records)))"
  unfolding reconstruct_def shadow_sigma_def new_sigma_def
  using shadow_keyed_reconstruct [of records] by (simp add: sort_btree_rows shadow_keyed_def)

lemma sigma_state_of_reconstruct: "sigma_state_of (reconstruct records) t = sh_rows (reconstruct_shadow records) t"
proof (cases "sh_rows (reconstruct_shadow records) t")
  case None
  then have "t \<notin> set (map sr_transformation (sg_transformations (reconstruct records)))"
    unfolding rows_listed by (simp add: finite_rows domIff)
  then show ?thesis using None by (auto simp: sigma_state_of_def find_None_iff)
next
  case (Some row)
  have "find (\<lambda>r. sr_transformation r = t) (sg_transformations (reconstruct records)) \<noteq> None"
    using Some shadow_keyed_reconstruct [of records] by (auto simp: find_None_iff rows_member shadow_keyed_def)
  then obtain row' where row': "find (\<lambda>r. sr_transformation r = t) (sg_transformations (reconstruct records)) = Some row'" by blast
  then have "row' \<in> set (sg_transformations (reconstruct records))" "sr_transformation row' = t"
    unfolding find_Some_iff by (metis nth_mem)+
  then have "sh_rows (reconstruct_shadow records) t = Some row'" using shadow_keyed_reconstruct [of records] by (auto simp: rows_member shadow_keyed_def)
  with row' show ?thesis by (simp add: sigma_state_of_def)
qed

text \<open>
  C27. The rebuilt state is a table: one row per transformation named in the journal and one escrow
  row per escrowed inverse, in strictly increasing order of the ids, and looking a transformation up
  in the table gives the row the replay built for it.
\<close>

theorem reconstruct_table:
  "map sr_transformation (sg_transformations (reconstruct records))
      = sorted_list_of_set {t. \<exists>r \<in> set records. names t r}
    \<and> map er_transformation (sg_escrow (reconstruct records)) = sorted_list_of_set (dom (sh_escrow (reconstruct_shadow records)))
    \<and> sigma_state_of (reconstruct records) t = sh_rows (reconstruct_shadow records) t"
proof -
  let ?sh = "reconstruct_shadow records"
  have keyed: "shadow_keyed ?sh" by (rule shadow_keyed_reconstruct)
  have rows: "map sr_transformation (sg_transformations (reconstruct records)) = sorted_list_of_set (dom (sh_rows ?sh))"
    by (rule rows_listed)
  have "map er_transformation (sg_escrow (reconstruct records)) = sorted_list_of_set (dom (sh_escrow ?sh))"
    unfolding reconstruct_def shadow_sigma_def new_sigma_def
    using keyed by (simp add: sort_btree_rows shadow_keyed_def)
  moreover have "sigma_state_of (reconstruct records) t = sh_rows ?sh t" by (rule sigma_state_of_reconstruct)
  ultimately show ?thesis using rows by (simp add: dom_rows)
qed

end
