(* ===== verification/Engine_Journal.thy ===== *)
theory Engine_Journal
  imports Engine_Records Ledger_Store
begin

text \<open>
  The journal file of the engine: framing, hash chain and replay of
  \<open>src/crates/gx-engine/src/replay.rs\<close>, and \<open>EngineJournal\<close> of \<open>store.rs\<close> (open, append, catch
  up, integrity checks). As for the ledger file, the answers of the file system are arguments.

  A record is framed as a 4-byte length, the canonical bytes and, in the linked formats, a 32-byte
  link: the hash of the previous link and these bytes. A 32-byte array is a \<open>cid\<close>.
\<close>

section \<open>Formats and links\<close>

definition JOURNAL_MAX_RECORD_BYTES :: nat where
  "JOURNAL_MAX_RECORD_BYTES = push_bit 20 1"

definition JOURNAL_MAGIC :: bytes where
  "JOURNAL_MAGIC = ascii ''GXJRNL01''"

definition JOURNAL_MAGIC_V2 :: bytes where
  "JOURNAL_MAGIC_V2 = ascii ''GXJRNL02''"

definition JOURNAL_MAGIC_PREFIX :: bytes where
  "JOURNAL_MAGIC_PREFIX = ascii ''GXJRNL''"

definition CHAIN_BYTES :: nat where
  "CHAIN_BYTES = 32"

definition CHAIN_TAG :: bytes where
  "CHAIN_TAG = ascii ''gx.journal.chain.v1''"

datatype journal_creation = Permitted | Refused

datatype journal_format = Legacy | Chained | ChainedV2

fun format_marker :: "journal_format \<Rightarrow> bytes option" where
  "format_marker Legacy = None"
| "format_marker Chained = Some JOURNAL_MAGIC"
| "format_marker ChainedV2 = Some JOURNAL_MAGIC_V2"

fun is_chained :: "journal_format \<Rightarrow> bool" where
  "is_chained Legacy = False"
| "is_chained Chained = True"
| "is_chained ChainedV2 = True"

fun vocabulary_rank :: "journal_format \<Rightarrow> nat" where
  "vocabulary_rank Legacy = 1"
| "vocabulary_rank Chained = 1"
| "vocabulary_rank ChainedV2 = 2"

fun minimum_format :: "journal_record \<Rightarrow> journal_format" where
  "minimum_format (AbortedRec _ _ (Some Diverged) _) = ChainedV2"
| "minimum_format _ = Legacy"

definition genesis_link :: "(bytes \<Rightarrow> cid) \<Rightarrow> cid" where
  "genesis_link H = mint H Leaf [CHAIN_TAG, JOURNAL_MAGIC]"

definition genesis_link_v2 :: "(bytes \<Rightarrow> cid) \<Rightarrow> cid" where
  "genesis_link_v2 H = mint H Leaf [CHAIN_TAG, JOURNAL_MAGIC_V2]"

fun genesis_link_of :: "(bytes \<Rightarrow> cid) \<Rightarrow> journal_format \<Rightarrow> cid option" where
  "genesis_link_of H Legacy = None"
| "genesis_link_of H Chained = Some (genesis_link H)"
| "genesis_link_of H ChainedV2 = Some (genesis_link_v2 H)"

definition chain_link :: "(bytes \<Rightarrow> cid) \<Rightarrow> cid \<Rightarrow> bytes \<Rightarrow> cid" where
  "chain_link H previous payload = mint H Leaf [CHAIN_TAG, cid_bytes previous, payload]"

definition starts_with :: "bytes \<Rightarrow> bytes \<Rightarrow> bool" where
  "starts_with p bs \<longleftrightarrow> take (length p) bs = p"

definition framing_unknown :: "bytes \<Rightarrow> bool" where
  "framing_unknown bs \<longleftrightarrow>
     length JOURNAL_MAGIC \<le> length bs \<and> starts_with JOURNAL_MAGIC_PREFIX bs
     \<and> \<not> starts_with JOURNAL_MAGIC bs \<and> \<not> starts_with JOURNAL_MAGIC_V2 bs"

section \<open>Replay\<close>

record chain_break_at =
  cb_at :: nat
  cb_found :: cid
  cb_expected :: cid

record walk_state =
  ws_records :: "journal_record list"
  ws_at :: nat
  ws_tail :: "(nat \<times> nat) option"
  ws_chain :: "cid option"
  ws_break :: "chain_break_at option"

definition link_bytes :: "bool \<Rightarrow> nat" where
  "link_bytes linked = (if linked then CHAIN_BYTES else 0)"

text \<open>
  The loop of \<open>walk\<close> over the bytes not yet read. \<open>good\<close> and \<open>at\<close> of the source are always equal
  and are one field; the two \<open>checked_add\<close> fail only where the comparison with the length fails too.
\<close>

function walk_loop ::
  "(bytes \<Rightarrow> cid) \<Rightarrow> (bytes \<Rightarrow> string + journal_record) \<Rightarrow> bool \<Rightarrow> bytes \<Rightarrow> walk_state \<Rightarrow> walk_state" where
  "walk_loop H fj linked rest st =
     (if length rest < LENGTH_BYTES then st
      else
        (let len = be_nat (take LENGTH_BYTES rest) in
         if len = 0 \<or> len > JOURNAL_MAX_RECORD_BYTES then st
         else if LENGTH_BYTES + len + link_bytes linked > length rest then st
         else
           (let payload = take len (drop LENGTH_BYTES rest);
                found = Cid (take CHAIN_BYTES (drop (LENGTH_BYTES + len) rest));
                size = LENGTH_BYTES + len + link_bytes linked;
                next = (\<lambda>chain. case cbor_decode fj payload of
                    Inl _ \<Rightarrow> st
                  | Inr r \<Rightarrow> walk_loop H fj linked (drop size rest)
                      (st\<lparr>ws_records := ws_records st @ [r], ws_at := ws_at st + size,
                          ws_tail := Some (ws_at st, size), ws_chain := chain\<rparr>))
            in if linked
               then (case ws_chain st of
                       None \<Rightarrow> st\<lparr>ws_break := Some \<lparr>cb_at = ws_at st, cb_found = zero_cid, cb_expected = zero_cid\<rparr>\<rparr>
                     | Some previous \<Rightarrow>
                         (let expected = chain_link H previous payload in
                          if found \<noteq> expected
                          then st\<lparr>ws_break := Some \<lparr>cb_at = ws_at st, cb_found = found, cb_expected = expected\<rparr>\<rparr>
                          else next (Some expected)))
               else next (ws_chain st))))"
  by pat_completeness auto
termination
  by (relation "measure (\<lambda>(H, fj, linked, rest, st). length rest)") (auto simp: LENGTH_BYTES_def)

declare walk_loop.simps [simp del]

record journal_replayed =
  rr_records :: "journal_record list"
  rr_torn :: nat
  rr_good :: nat
  rr_tail :: "(nat \<times> nat) option"
  rr_format :: journal_format
  rr_chain :: "cid option"
  rr_break :: "chain_break_at option"

definition walk ::
  "(bytes \<Rightarrow> cid) \<Rightarrow> (bytes \<Rightarrow> string + journal_record) \<Rightarrow> bytes \<Rightarrow> nat \<Rightarrow> journal_format \<Rightarrow> cid option \<Rightarrow> journal_replayed" where
  "walk H fj bs from format chain =
     (let linked = is_chained format;
          st = walk_loop H fj linked (drop from bs)
            \<lparr>ws_records = [], ws_at = from, ws_tail = None, ws_chain = chain, ws_break = None\<rparr>
      in \<lparr>rr_records = ws_records st, rr_torn = length bs - ws_at st, rr_good = ws_at st, rr_tail = ws_tail st,
          rr_format = format, rr_chain = (if linked then ws_chain st else None), rr_break = ws_break st\<rparr>)"

definition sniff_format :: "bytes \<Rightarrow> journal_format \<times> nat" where
  "sniff_format bs =
     (if starts_with JOURNAL_MAGIC_V2 bs then (ChainedV2, length JOURNAL_MAGIC_V2)
      else if starts_with JOURNAL_MAGIC bs then (Chained, length JOURNAL_MAGIC)
      else (Legacy, 0))"

definition journal_replay :: "(bytes \<Rightarrow> cid) \<Rightarrow> (bytes \<Rightarrow> string + journal_record) \<Rightarrow> bytes \<Rightarrow> journal_replayed" where
  "journal_replay H fj bs =
     (let (format, from) = sniff_format bs in walk H fj bs from format (genesis_link_of H format))"

definition replay_onward ::
  "(bytes \<Rightarrow> cid) \<Rightarrow> (bytes \<Rightarrow> string + journal_record) \<Rightarrow> bytes \<Rightarrow> journal_format \<Rightarrow> cid option \<Rightarrow> journal_replayed" where
  "replay_onward H fj bs format chain = walk H fj bs 0 format chain"

section \<open>Walking the links only\<close>

record chain_walk =
  cw_head :: "cid option"
  cw_records :: nat
  cw_good :: nat
  cw_break_at :: "nat option"

function links_loop :: "(bytes \<Rightarrow> cid) \<Rightarrow> bytes \<Rightarrow> nat \<Rightarrow> cid \<Rightarrow> nat \<Rightarrow> chain_walk" where
  "links_loop H rest at chain records =
     (if length rest < LENGTH_BYTES
      then \<lparr>cw_head = Some chain, cw_records = records, cw_good = at, cw_break_at = None\<rparr>
      else
        (let len = be_nat (take LENGTH_BYTES rest) in
         if len = 0 \<or> len > JOURNAL_MAX_RECORD_BYTES \<or> LENGTH_BYTES + len + CHAIN_BYTES > length rest
         then \<lparr>cw_head = Some chain, cw_records = records, cw_good = at, cw_break_at = None\<rparr>
         else
           (let expected = chain_link H chain (take len (drop LENGTH_BYTES rest)) in
            if take CHAIN_BYTES (drop (LENGTH_BYTES + len) rest) \<noteq> cid_bytes expected
            then \<lparr>cw_head = Some chain, cw_records = records, cw_good = at, cw_break_at = Some at\<rparr>
            else links_loop H (drop (LENGTH_BYTES + len + CHAIN_BYTES) rest) (at + (LENGTH_BYTES + len + CHAIN_BYTES))
                   expected (records + 1))))"
  by pat_completeness auto
termination
  by (relation "measure (\<lambda>(H, rest, at, chain, records). length rest)") (auto simp: LENGTH_BYTES_def)

declare links_loop.simps [simp del]

definition walk_links :: "(bytes \<Rightarrow> cid) \<Rightarrow> bytes \<Rightarrow> chain_walk" where
  "walk_links H bs =
     (case fst (sniff_format bs) of
        Legacy \<Rightarrow> \<lparr>cw_head = None, cw_records = 0, cw_good = 0, cw_break_at = None\<rparr>
      | Chained \<Rightarrow> links_loop H (drop (length JOURNAL_MAGIC) bs) (length JOURNAL_MAGIC) (genesis_link H) 0
      | ChainedV2 \<Rightarrow> links_loop H (drop (length JOURNAL_MAGIC) bs) (length JOURNAL_MAGIC) (genesis_link_v2 H) 0)"

section \<open>The journal\<close>

record engine_journal =
  ej_records :: "journal_record list"
  ej_recovery :: recovery
  ej_consumed :: nat
  ej_read_only :: bool
  ej_quarantined :: "(nat \<times> nat) option"
  ej_tail :: "tail_record option"
  ej_format :: journal_format
  ej_chain :: "cid option"
  ej_break :: "nat option"
  ej_downgraded :: bool
  ej_newer :: bool

definition tail_record_of :: "bytes \<Rightarrow> nat \<Rightarrow> (nat \<times> nat) option \<Rightarrow> tail_record option" where
  "tail_record_of bs base span =
     (case span of
        None \<Rightarrow> None
      | Some (at, len) \<Rightarrow> if at + len \<le> length bs then Some (base + at, subslice bs at (at + len)) else None)"

definition is_downgraded :: "journal_format option \<Rightarrow> journal_format \<Rightarrow> bool" where
  "is_downgraded declared format =
     (case declared of
        None \<Rightarrow> False
      | Some d \<Rightarrow> (is_chained d \<and> vocabulary_rank d > vocabulary_rank format) \<or> (is_chained d \<and> format = Legacy))"

definition journal_of ::
  "(bytes \<Rightarrow> cid) \<Rightarrow> bytes \<Rightarrow> journal_replayed \<Rightarrow> bool \<Rightarrow> (nat \<times> nat) option \<Rightarrow> journal_format option \<Rightarrow> engine_journal" where
  "journal_of H bs rp read_only quarantined declared =
     \<lparr>ej_records = rr_records rp,
      ej_recovery = \<lparr>rec_records = length (rr_records rp), rec_torn_tail_bytes = rr_torn rp\<rparr>,
      ej_consumed = rr_good rp, ej_read_only = read_only, ej_quarantined = quarantined,
      ej_tail = tail_record_of bs 0 (rr_tail rp), ej_format = rr_format rp, ej_chain = rr_chain rp,
      ej_break = map_option cb_at (rr_break rp), ej_downgraded = is_downgraded declared (rr_format rp),
      ej_newer = framing_unknown bs\<rparr>"

text \<open>The first write of an empty journal: the marker of the declared format.\<close>

definition write_marker ::
  "write_outcome \<Rightarrow> journal_format option \<Rightarrow> ledger_dir \<Rightarrow> (engine_error + bytes) \<times> ledger_dir" where
  "write_marker outcome declared dir =
     (let m = (case Option.bind declared format_marker of Some m \<Rightarrow> m | None \<Rightarrow> JOURNAL_MAGIC_V2) in
      case outcome of
        WriteOk \<Rightarrow> (Inr m, dir\<lparr>ld_file := Some m\<rparr>)
      | WriteFails k \<Rightarrow> (Inl (EngineIo ''marker''), dir\<lparr>ld_file := Some (take k m)\<rparr>)
      | SyncFails \<Rightarrow> (Inl (EngineIo ''marker''), dir\<lparr>ld_file := Some m\<rparr>))"

definition quarantine_torn_tail ::
  "copy_outcome \<Rightarrow> nat \<Rightarrow> nat \<Rightarrow> bytes \<Rightarrow> ledger_dir \<Rightarrow> (engine_error + nat \<times> nat) \<times> ledger_dir" where
  "quarantine_torn_tail copy good torn bs dir =
     (let target = (good, good + torn) in
      if ld_torn dir target \<noteq> None then (Inr target, dir)
      else case copy of
          CopyOk \<Rightarrow> (Inr target, dir\<lparr>ld_torn := (ld_torn dir)(target \<mapsto> bs)\<rparr>)
        | CopyFails k \<Rightarrow> (Inl (EngineIo ''quarantine''), dir\<lparr>ld_torn := (ld_torn dir)(target \<mapsto> take k bs)\<rparr>))"

datatype truncate_outcome = TruncateOk | TruncateFails | TruncateSyncFails

definition cut_torn_tail ::
  "copy_outcome \<Rightarrow> truncate_outcome \<Rightarrow> nat \<Rightarrow> nat \<Rightarrow> bytes \<Rightarrow> ledger_dir \<Rightarrow> (engine_error + nat \<times> nat) \<times> ledger_dir" where
  "cut_torn_tail copy trunc good torn bs dir =
     (case quarantine_torn_tail copy good torn bs dir of
        (Inl e, dir) \<Rightarrow> (Inl e, dir)
      | (Inr target, dir) \<Rightarrow>
          (case trunc of
             TruncateFails \<Rightarrow> (Inl (EngineIo ''truncate''), dir)
           | TruncateSyncFails \<Rightarrow> (Inl (EngineIo ''sync''), dir\<lparr>ld_file := Some (take good bs)\<rparr>)
           | TruncateOk \<Rightarrow> (Inr target, dir\<lparr>ld_file := Some (take good bs)\<rparr>)))"

definition open_bytes ::
  "write_outcome \<Rightarrow> journal_format option \<Rightarrow> ledger_dir \<Rightarrow> (engine_error + bytes) \<times> ledger_dir" where
  "open_bytes marker declared dir =
     (case ld_file dir of
        Some (b # bs) \<Rightarrow> (Inr (b # bs), dir)
      | _ \<Rightarrow> write_marker marker declared (dir\<lparr>ld_file := Some []\<rparr>))"

definition open_declared_creating ::
  "(bytes \<Rightarrow> cid) \<Rightarrow> (bytes \<Rightarrow> string + journal_record) \<Rightarrow> write_outcome \<Rightarrow> copy_outcome \<Rightarrow> truncate_outcome \<Rightarrow> bool
    \<Rightarrow> journal_format option \<Rightarrow> journal_creation \<Rightarrow> ledger_dir \<Rightarrow> (engine_error + engine_journal) \<times> ledger_dir" where
  "open_declared_creating H fj marker copy trunc parent_synced declared creation dir =
     (if ld_file dir = None \<and> creation = Refused then (Inl (EngineIo ''open''), dir)
      else
        (let existed = (ld_file dir \<noteq> None) in
         case open_bytes marker declared dir of
           (Inl e, dir) \<Rightarrow> (Inl e, dir)
         | (Inr bs, dir) \<Rightarrow>
             (let rp = journal_replay H fj bs;
                  cut = (rr_torn rp > 0 \<and> \<not> is_downgraded declared (rr_format rp) \<and> \<not> framing_unknown bs
                    \<and> rr_break rp = None)
              in case (if cut then (case cut_torn_tail copy trunc (rr_good rp) (rr_torn rp) bs dir of
                                      (Inl e, dir) \<Rightarrow> (Inl e, dir)
                                    | (Inr target, dir) \<Rightarrow> (Inr (Some target), dir))
                       else (Inr None, dir)) of
                   (Inl e, dir) \<Rightarrow> (Inl e, dir)
                 | (Inr quarantined, dir) \<Rightarrow>
                     if \<not> existed \<and> \<not> parent_synced then (Inl (EngineIo ''directory''), dir)
                     else (Inr (journal_of H bs rp False quarantined declared), dir))))"

definition open_read_only_declared ::
  "(bytes \<Rightarrow> cid) \<Rightarrow> (bytes \<Rightarrow> string + journal_record) \<Rightarrow> journal_format option \<Rightarrow> ledger_dir
    \<Rightarrow> engine_error + engine_journal" where
  "open_read_only_declared H fj declared dir =
     (case ld_file dir of
        None \<Rightarrow> Inl (EngineIo ''open'')
      | Some bs \<Rightarrow> Inr (journal_of H bs (journal_replay H fj bs) True None declared))"

section \<open>Appending and catching up\<close>

definition journal_frame :: "bytes \<Rightarrow> cid option \<Rightarrow> bytes" where
  "journal_frame payload sealed =
     be_bytes LENGTH_BYTES (length payload) @ payload @ (case sealed of None \<Rightarrow> [] | Some l \<Rightarrow> cid_bytes l)"

definition journal_write_and_sync ::
  "write_outcome \<Rightarrow> bytes \<Rightarrow> cid option \<Rightarrow> ledger_dir \<Rightarrow> (engine_error + unit) \<times> ledger_dir" where
  "journal_write_and_sync outcome payload sealed dir =
     (if length payload > JOURNAL_MAX_RECORD_BYTES then (Inl EngineMalformed, dir)
      else case ld_file dir of
          None \<Rightarrow> (Inl (EngineIo ''write''), dir)
        | Some bs \<Rightarrow>
            (case outcome of
               WriteOk \<Rightarrow> (Inr (), dir\<lparr>ld_file := Some (bs @ journal_frame payload sealed)\<rparr>)
             | WriteFails k \<Rightarrow> (Inl (EngineIo ''write''), dir\<lparr>ld_file := Some (bs @ take k (journal_frame payload sealed))\<rparr>)
             | SyncFails \<Rightarrow> (Inl (EngineIo ''sync''), dir\<lparr>ld_file := Some (bs @ journal_frame payload sealed)\<rparr>)))"

definition seal ::
  "(bytes \<Rightarrow> cid) \<Rightarrow> journal_format \<Rightarrow> cid option \<Rightarrow> bytes \<Rightarrow> engine_error + cid option" where
  "seal H format chain payload =
     (if is_chained format
      then (case chain of Some previous \<Rightarrow> Inr (Some (chain_link H previous payload)) | None \<Rightarrow> Inl EngineMalformed)
      else Inr None)"

definition journal_append ::
  "(bytes \<Rightarrow> cid) \<Rightarrow> (journal_record \<Rightarrow> string + bytes) \<Rightarrow> write_outcome \<Rightarrow> journal_record \<Rightarrow> ledger_dir \<Rightarrow> engine_journal
    \<Rightarrow> (engine_error + nat) \<times> ledger_dir \<times> engine_journal" where
  "journal_append H tj outcome r dir j =
     (if ej_read_only j then (Inl (EngineIo ''read-only''), dir, j)
      else if ej_downgraded j then (Inl EngineMalformed, dir, j)
      else if ej_newer j then (Inl EngineMalformed, dir, j)
      else if vocabulary_rank (minimum_format r) > vocabulary_rank (ej_format j) then (Inl EngineMalformed, dir, j)
      else if ej_break j \<noteq> None then (Inl EngineMalformed, dir, j)
      else case map_err EngineCanon (cbor_encode tj r) of
          Inl e \<Rightarrow> (Inl e, dir, j)
        | Inr payload \<Rightarrow>
            (case seal H (ej_format j) (ej_chain j) payload of
               Inl e \<Rightarrow> (Inl e, dir, j)
             | Inr sealed \<Rightarrow>
                 (case journal_write_and_sync outcome payload sealed dir of
                    (Inl e, dir) \<Rightarrow> (Inl e, dir, j)
                  | (Inr _, dir) \<Rightarrow>
                      (Inr (length (ej_records j)), dir,
                       j\<lparr>ej_records := ej_records j @ [r],
                         ej_tail := Some (ej_consumed j, journal_frame payload sealed),
                         ej_consumed := ej_consumed j + length (journal_frame payload sealed),
                         ej_chain := (case sealed of Some l \<Rightarrow> Some l | None \<Rightarrow> ej_chain j)\<rparr>))))"

text \<open>\<open>catch_up\<close> (under the writer's lock) and \<open>catch_up_unlocked\<close>.\<close>

definition read_to_the_end ::
  "(bytes \<Rightarrow> cid) \<Rightarrow> (bytes \<Rightarrow> string + journal_record) \<Rightarrow> bool \<Rightarrow> ledger_dir \<Rightarrow> engine_journal
    \<Rightarrow> (engine_error + journal_record list) \<times> engine_journal" where
  "read_to_the_end H fj under_lock dir j =
     (if ej_downgraded j then (Inr [], j)
      else case ld_file dir of
          None \<Rightarrow> (Inl (EngineIo ''measure''), j)
        | Some bs \<Rightarrow>
            if length bs < ej_consumed j then (if under_lock then (Inl EngineMalformed, j) else (Inr [], j))
            else if length bs = ej_consumed j then (Inr [], j)
            else
              (let more = drop (ej_consumed j) bs;
                   rp = replay_onward H fj more (ej_format j) (ej_chain j);
                   j1 = (case rr_break rp of Some b \<Rightarrow> j\<lparr>ej_break := Some (ej_consumed j + cb_at b)\<rparr> | None \<Rightarrow> j)
               in if rr_torn rp > 0 \<and> under_lock \<and> rr_break rp = None then (Inl EngineMalformed, j1)
                  else
                    (Inr (rr_records rp),
                     j1\<lparr>ej_tail := (case tail_record_of more (ej_consumed j) (rr_tail rp) of
                            Some t \<Rightarrow> Some t | None \<Rightarrow> ej_tail j),
                        ej_chain := (if rr_chain rp \<noteq> None then rr_chain rp else ej_chain j),
                        ej_consumed := ej_consumed j + rr_good rp,
                        ej_records := ej_records j @ rr_records rp\<rparr>)))"

section \<open>Integrity checks\<close>

definition chain_head_through :: "(bytes \<Rightarrow> cid) \<Rightarrow> ledger_dir \<Rightarrow> nat \<Rightarrow> engine_journal \<Rightarrow> cid option option" where
  "chain_head_through H dir len j =
     (if ej_format j = Legacy then Some None
      else case ld_file dir of
          None \<Rightarrow> None
        | Some bs \<Rightarrow>
            if length bs < len then None
            else (let w = walk_links H (take len bs) in
                  if cw_break_at w \<noteq> None \<or> cw_good w \<noteq> len then None else Some (cw_head w)))"

definition journal_tail_unchanged :: "ledger_dir \<Rightarrow> engine_journal \<Rightarrow> bool" where
  "journal_tail_unchanged dir j =
     (case ej_tail j of
        None \<Rightarrow> True
      | Some (at, framed) \<Rightarrow>
          (case ld_file dir of None \<Rightarrow> False | Some bs \<Rightarrow> take (length framed) (drop at bs) = framed))"

definition prefix_intact ::
  "(bytes \<Rightarrow> cid) \<Rightarrow> (bytes \<Rightarrow> string + journal_record) \<Rightarrow> ledger_dir \<Rightarrow> engine_journal \<Rightarrow> bool" where
  "prefix_intact H fj dir j =
     (if ej_consumed j = 0 then True
      else case ld_file dir of
          None \<Rightarrow> False
        | Some bs \<Rightarrow>
            if length bs < ej_consumed j then False
            else if is_chained (ej_format j)
            then (let w = walk_links H (take (ej_consumed j) bs) in
                  cw_break_at w = None \<and> cw_good w = ej_consumed j \<and> cw_records w = length (ej_records j)
                  \<and> cw_head w = ej_chain j)
            else (let rp = journal_replay H fj (take (ej_consumed j) bs) in
                  rr_good rp = ej_consumed j \<and> length (rr_records rp) = length (ej_records j)))"

section \<open>Files made of sealed frames\<close>

text \<open>
  The frames of a list of payloads, each sealed with the link that follows from the one before it,
  and the link the list ends with.
\<close>

definition seal_of :: "(bytes \<Rightarrow> cid) \<Rightarrow> bool \<Rightarrow> cid option \<Rightarrow> bytes \<Rightarrow> cid option" where
  "seal_of H linked chain p = (if linked then map_option (\<lambda>previous. chain_link H previous p) chain else None)"

definition next_link :: "(bytes \<Rightarrow> cid) \<Rightarrow> bool \<Rightarrow> cid option \<Rightarrow> bytes \<Rightarrow> cid option" where
  "next_link H linked chain p = (if linked then seal_of H linked chain p else chain)"

fun sealed_frames :: "(bytes \<Rightarrow> cid) \<Rightarrow> bool \<Rightarrow> cid option \<Rightarrow> bytes list \<Rightarrow> bytes" where
  "sealed_frames H linked chain [] = []"
| "sealed_frames H linked chain (p # ps) =
     journal_frame p (seal_of H linked chain p) @ sealed_frames H linked (next_link H linked chain p) ps"

fun chain_after :: "(bytes \<Rightarrow> cid) \<Rightarrow> bool \<Rightarrow> cid option \<Rightarrow> bytes list \<Rightarrow> cid option" where
  "chain_after H linked chain [] = chain"
| "chain_after H linked chain (p # ps) = chain_after H linked (next_link H linked chain p) ps"

definition payload_ok :: "bytes \<Rightarrow> bool" where
  "payload_ok p \<longleftrightarrow> p \<noteq> [] \<and> length p \<le> JOURNAL_MAX_RECORD_BYTES"

lemma sealed_frames_append:
  "sealed_frames H linked chain (ps @ qs) =
     sealed_frames H linked chain ps @ sealed_frames H linked (chain_after H linked chain ps) qs"
  by (induction ps arbitrary: chain) simp_all

lemma chain_after_append: "chain_after H linked chain (ps @ qs) = chain_after H linked (chain_after H linked chain ps) qs"
  by (induction ps arbitrary: chain) simp_all

lemma chain_after_Some: "linked \<Longrightarrow> \<exists>c'. chain_after H linked (Some c) ps = Some c'"
  by (induction ps arbitrary: c) (simp_all add: next_link_def seal_of_def)

lemma chain_after_unlinked [simp]: "chain_after H False chain ps = chain"
  by (induction ps) (simp_all add: next_link_def)

lemma length_journal_frame:
  "length (journal_frame p s) = LENGTH_BYTES + length p + (case s of None \<Rightarrow> 0 | Some _ \<Rightarrow> CHAIN_BYTES)"
  by (simp add: journal_frame_def CHAIN_BYTES_def split: option.splits)

lemma length_sealed_frame:
  "(linked \<Longrightarrow> chain \<noteq> None) \<Longrightarrow> length (journal_frame p (seal_of H linked chain p)) = LENGTH_BYTES + length p + link_bytes linked"
  by (auto simp: length_journal_frame seal_of_def link_bytes_def)

lemma journal_header: "payload_ok p \<Longrightarrow> be_nat (be_bytes LENGTH_BYTES (length p)) = length p"
  using payload_header [of p] by (simp add: payload_ok_def JOURNAL_MAX_RECORD_BYTES_def MAX_RECORD_BYTES_def)

text \<open>One whole frame, whatever its payload decodes to.\<close>

lemma walk_loop_frame:
  assumes p: "payload_ok p" and linked: "linked \<Longrightarrow> ws_chain st \<noteq> None"
  shows "walk_loop H fj linked (journal_frame p (seal_of H linked (ws_chain st) p) @ rest) st =
    (case cbor_decode fj p of
       Inl _ \<Rightarrow> st
     | Inr r \<Rightarrow> walk_loop H fj linked rest
         (st\<lparr>ws_records := ws_records st @ [r],
             ws_at := ws_at st + length (journal_frame p (seal_of H linked (ws_chain st) p)),
             ws_tail := Some (ws_at st, length (journal_frame p (seal_of H linked (ws_chain st) p))),
             ws_chain := next_link H linked (ws_chain st) p\<rparr>))"
proof -
  define s where "s = seal_of H linked (ws_chain st) p"
  define b where "b = journal_frame p s @ rest"
  have len: "length (journal_frame p s) = LENGTH_BYTES + length p + link_bytes linked"
    unfolding s_def using linked by (rule length_sealed_frame)
  have b: "be_nat (take LENGTH_BYTES b) = length p" "take (length p) (drop LENGTH_BYTES b) = p"
    by (simp_all add: b_def journal_frame_def journal_header [OF p])
  have lb: "length b = LENGTH_BYTES + length p + link_bytes linked + length rest" by (simp add: b_def len)
  have dr: "drop (LENGTH_BYTES + length p + link_bytes linked) b = rest" by (simp add: b_def flip: len)
  have fd: "Cid (take CHAIN_BYTES (drop (LENGTH_BYTES + length p) b)) = l" if "s = Some l" for l
    using that by (simp add: b_def journal_frame_def CHAIN_BYTES_def cid_bytes_inverse)
  have "walk_loop H fj linked b st = (case cbor_decode fj p of
       Inl _ \<Rightarrow> st
     | Inr r \<Rightarrow> walk_loop H fj linked rest
         (st\<lparr>ws_records := ws_records st @ [r], ws_at := ws_at st + (LENGTH_BYTES + length p + link_bytes linked),
             ws_tail := Some (ws_at st, LENGTH_BYTES + length p + link_bytes linked),
             ws_chain := next_link H linked (ws_chain st) p\<rparr>))"
  proof (cases linked)
    case True
    then obtain c where c: "ws_chain st = Some c" using linked by auto
    have "s = Some (chain_link H c p)" using True c by (simp add: s_def seal_of_def)
    from fd [OF this] show ?thesis
      using p True lb [unfolded True] dr [unfolded True]
      by (cases "cbor_decode fj p")
        (simp_all add: walk_loop.simps [of H fj True b] b c Let_def payload_ok_def next_link_def seal_of_def)
  next
    case False
    then show ?thesis
      using p lb dr
      by (cases "cbor_decode fj p")
        (simp_all add: walk_loop.simps [of H fj False b] b Let_def payload_ok_def next_link_def)
  qed
  then show ?thesis unfolding b_def s_def [symmetric] len .
qed

lemma walk_loop_short:
  assumes p: "payload_ok p" and linked: "linked \<Longrightarrow> ws_chain st \<noteq> None"
    and k: "k < length (journal_frame p (seal_of H linked (ws_chain st) p))"
  shows "walk_loop H fj linked (take k (journal_frame p (seal_of H linked (ws_chain st) p))) st = st"
proof (cases "k < LENGTH_BYTES")
  case True
  then show ?thesis by (subst walk_loop.simps) simp
next
  case False
  let ?b = "take k (journal_frame p (seal_of H linked (ws_chain st) p))"
  have len: "length (journal_frame p (seal_of H linked (ws_chain st) p)) = LENGTH_BYTES + length p + link_bytes linked"
    using linked by (rule length_sealed_frame)
  have td: "take LENGTH_BYTES ?b = be_bytes LENGTH_BYTES (length p)"
    using False by (simp add: journal_frame_def min_def)
  show ?thesis
    using k False unfolding walk_loop.simps [of H fj linked ?b] td journal_header [OF p] Let_def
    by (simp add: len)
qed

text \<open>What a walk has read is a list of sealed frames, and what it has not read it does not know.\<close>

lemma frame_of_parts:
  assumes "LENGTH_BYTES \<le> length rest" "0 < be_nat (take LENGTH_BYTES rest)"
    "LENGTH_BYTES + be_nat (take LENGTH_BYTES rest) + link_bytes linked \<le> length rest"
    and seal: "linked \<Longrightarrow> cid_bytes l = take CHAIN_BYTES (drop (LENGTH_BYTES + be_nat (take LENGTH_BYTES rest)) rest)"
  shows "rest = journal_frame (take (be_nat (take LENGTH_BYTES rest)) (drop LENGTH_BYTES rest)) (if linked then Some l else None)
    @ drop (LENGTH_BYTES + be_nat (take LENGTH_BYTES rest) + link_bytes linked) rest"
proof -
  let ?n = "be_nat (take LENGTH_BYTES rest)"
  have h: "be_bytes LENGTH_BYTES (length (take ?n (drop LENGTH_BYTES rest))) = take LENGTH_BYTES rest"
  proof -
    have "length (take LENGTH_BYTES rest) = LENGTH_BYTES" "length (take ?n (drop LENGTH_BYTES rest)) = ?n"
      using assms(1,3) by simp_all
    then show ?thesis using be_bytes_be_nat [of "take LENGTH_BYTES rest"] by (simp del: length_take)
  qed
  have "rest = take LENGTH_BYTES rest @ take ?n (drop LENGTH_BYTES rest) @ drop (LENGTH_BYTES + ?n) rest"
    by (metis append_assoc append_take_drop_id drop_drop add.commute)
  moreover have "drop (LENGTH_BYTES + ?n) rest =
      (if linked then cid_bytes l else []) @ drop (LENGTH_BYTES + ?n + link_bytes linked) rest"
    using seal by (auto simp: link_bytes_def) (metis append_take_drop_id drop_drop add.commute)
  ultimately show ?thesis by (cases linked) (simp_all add: journal_frame_def h del: length_take)
qed

lemma stopped [intro!]: "\<exists>b. st = st\<lparr>ws_break := b\<rparr>" "\<exists>b. st\<lparr>ws_break := x\<rparr> = st\<lparr>ws_break := b\<rparr>"
  by (rule exI [of _ "ws_break st"], simp) blast

lemma walk_loop_cases:
  assumes linked: "linked \<Longrightarrow> ws_chain st \<noteq> None"
  obtains (stuck) b where "walk_loop H fj linked rest st = st\<lparr>ws_break := b\<rparr>"
  | (frame) p r rest' where "payload_ok p" "rest = journal_frame p (seal_of H linked (ws_chain st) p) @ rest'"
      "cbor_decode fj p = Inr r"
proof (cases "length rest < LENGTH_BYTES")
  case True
  then show thesis by (intro stuck [of "ws_break st"]) (simp add: walk_loop.simps [of H fj linked rest])
next
  case False
  define n where "n = be_nat (take LENGTH_BYTES rest)"
  define p where "p = take n (drop LENGTH_BYTES rest)"
  define found where "found = Cid (take CHAIN_BYTES (drop (LENGTH_BYTES + n) rest))"
  define l where "l = chain_link H (the (ws_chain st)) p"
  let ?fits = "n \<noteq> 0 \<and> n \<le> JOURNAL_MAX_RECORD_BYTES \<and> LENGTH_BYTES + n + link_bytes linked \<le> length rest"
  show thesis
  proof (cases "?fits \<and> (linked \<longrightarrow> found = l) \<and> (\<exists>r. cbor_decode fj p = Inr r)")
    case True
    then obtain r where r: "cbor_decode fj p = Inr r" by blast
    have lp: "length p = n" using True by (auto simp: p_def min_def)
    have "cid_bytes l = take CHAIN_BYTES (drop (LENGTH_BYTES + n) rest)" if linked
    proof -
      have "length (take CHAIN_BYTES (drop (LENGTH_BYTES + n) rest)) = 32"
        using True that by (auto simp: link_bytes_def CHAIN_BYTES_def)
      then show ?thesis using True that unfolding found_def by (metis cid_bytes_Cid)
    qed
    then have "rest = journal_frame p (if linked then Some l else None) @ drop (LENGTH_BYTES + n + link_bytes linked) rest"
      unfolding n_def p_def using False True by (intro frame_of_parts) (auto simp: n_def)
    moreover have "(if linked then Some l else None) = seal_of H linked (ws_chain st) p"
      using linked by (auto simp: seal_of_def l_def)
    moreover have "payload_ok p" using True lp by (auto simp: payload_ok_def)
    ultimately show thesis using frame r by metis
  next
    case nope: False
    have "\<exists>b. walk_loop H fj linked rest st = st\<lparr>ws_break := b\<rparr>"
    proof (cases ?fits)
      case False
      then show ?thesis using \<open>\<not> length rest < LENGTH_BYTES\<close>
        by (intro exI [of _ "ws_break st"]) (auto simp: walk_loop.simps [of H fj linked rest] Let_def simp flip: n_def)
    next
      case True
      then show ?thesis using \<open>\<not> length rest < LENGTH_BYTES\<close> nope linked
        by (cases linked; cases "cbor_decode fj p")
          (auto simp: walk_loop.simps [of H fj _ rest] Let_def l_def simp flip: n_def p_def found_def)
    qed
    then show thesis using stuck by blast
  qed
qed

text \<open>The state of a walk after it has read the frames of some payloads.\<close>

definition walk_to ::
  "(bytes \<Rightarrow> cid) \<Rightarrow> bool \<Rightarrow> bytes list \<Rightarrow> journal_record list \<Rightarrow> walk_state \<Rightarrow> walk_state" where
  "walk_to H linked ps rs st =
     st\<lparr>ws_records := ws_records st @ rs,
        ws_at := ws_at st + length (sealed_frames H linked (ws_chain st) ps),
        ws_tail := (if ps = [] then ws_tail st
          else Some (ws_at st + length (sealed_frames H linked (ws_chain st) (butlast ps)),
                     length (sealed_frames H linked (ws_chain st) ps) - length (sealed_frames H linked (ws_chain st) (butlast ps)))),
        ws_chain := chain_after H linked (ws_chain st) ps\<rparr>"

definition decodes :: "(bytes \<Rightarrow> string + journal_record) \<Rightarrow> bytes list \<Rightarrow> journal_record list \<Rightarrow> bool" where
  "decodes fj ps rs \<longleftrightarrow> list_all2 (\<lambda>p r. payload_ok p \<and> cbor_decode fj p = Inr r) ps rs"

lemma walk_to_Nil [simp]: "walk_to H linked [] [] st = st"
  by (simp add: walk_to_def)

lemma walk_to_Cons:
  "walk_to H linked ps rs
     (st\<lparr>ws_records := ws_records st @ [r],
         ws_at := ws_at st + length (journal_frame p (seal_of H linked (ws_chain st) p)),
         ws_tail := Some (ws_at st, length (journal_frame p (seal_of H linked (ws_chain st) p))),
         ws_chain := next_link H linked (ws_chain st) p\<rparr>)
   = walk_to H linked (p # ps) (r # rs) st"
  by (simp add: walk_to_def)

lemma next_link_Some: "(linked \<Longrightarrow> chain \<noteq> None) \<Longrightarrow> linked \<Longrightarrow> next_link H linked chain p \<noteq> None"
  by (auto simp: next_link_def seal_of_def)

lemma walk_loop_sealed:
  "decodes fj ps rs \<Longrightarrow> (linked \<Longrightarrow> ws_chain st \<noteq> None) \<Longrightarrow>
   walk_loop H fj linked (sealed_frames H linked (ws_chain st) ps @ rest) st = walk_loop H fj linked rest (walk_to H linked ps rs st)"
proof (induction ps arbitrary: rs st)
  case Nil
  then show ?case by (simp add: decodes_def)
next
  case (Cons p ps)
  then obtain r rs' where rs: "rs = r # rs'" "payload_ok p" "cbor_decode fj p = Inr r" "decodes fj ps rs'"
    by (auto simp: decodes_def list_all2_Cons1)
  let ?st = "st\<lparr>ws_records := ws_records st @ [r],
         ws_at := ws_at st + length (journal_frame p (seal_of H linked (ws_chain st) p)),
         ws_tail := Some (ws_at st, length (journal_frame p (seal_of H linked (ws_chain st) p))),
         ws_chain := next_link H linked (ws_chain st) p\<rparr>"
  have "walk_loop H fj linked (sealed_frames H linked (ws_chain ?st) ps @ rest) ?st
      = walk_loop H fj linked rest (walk_to H linked ps rs' ?st)"
    by (rule Cons.IH [OF rs(4)]) (use Cons.prems(2) next_link_Some in auto)
  then show ?case
    using walk_loop_frame [OF rs(2), of linked st H fj "sealed_frames H linked (next_link H linked (ws_chain st) p) ps @ rest"]
      Cons.prems(2) rs by (simp add: walk_to_Cons)
qed

lemma walk_loop_reads:
  "(linked \<Longrightarrow> ws_chain st \<noteq> None) \<Longrightarrow>
   \<exists>ps rs rem b. decodes fj ps rs \<and> rest = sealed_frames H linked (ws_chain st) ps @ rem
     \<and> walk_loop H fj linked rem (walk_to H linked ps rs st) = (walk_to H linked ps rs st)\<lparr>ws_break := b\<rparr>"
proof (induction "length rest" arbitrary: rest st rule: less_induct)
  case less
  consider (stuck) b where "walk_loop H fj linked rest st = st\<lparr>ws_break := b\<rparr>"
    | (frame) p r rest' where "payload_ok p" "rest = journal_frame p (seal_of H linked (ws_chain st) p) @ rest'"
        "cbor_decode fj p = Inr r"
    using walk_loop_cases [OF less.prems] by metis
  then show ?case
  proof cases
    case (stuck b)
    have "decodes fj [] []" by (simp add: decodes_def)
    with stuck show ?thesis by (intro exI [of _ "[]"] exI [of _ rest] exI [of _ b]) simp
  next
    case (frame p r rest')
    let ?st = "st\<lparr>ws_records := ws_records st @ [r],
         ws_at := ws_at st + length (journal_frame p (seal_of H linked (ws_chain st) p)),
         ws_tail := Some (ws_at st, length (journal_frame p (seal_of H linked (ws_chain st) p))),
         ws_chain := next_link H linked (ws_chain st) p\<rparr>"
    have "length rest' < length rest" using frame(2) by (simp add: journal_frame_def LENGTH_BYTES_def)
    moreover have "linked \<Longrightarrow> ws_chain ?st \<noteq> None" using less.prems next_link_Some by simp
    ultimately obtain ps rs rem b where *: "decodes fj ps rs" "rest' = sealed_frames H linked (ws_chain ?st) ps @ rem"
        "walk_loop H fj linked rem (walk_to H linked ps rs ?st) = (walk_to H linked ps rs ?st)\<lparr>ws_break := b\<rparr>"
      using less.hyps [of rest' ?st] by blast
    have "decodes fj (p # ps) (r # rs)" using frame *(1) by (simp add: decodes_def)
    moreover have "rest = sealed_frames H linked (ws_chain st) (p # ps) @ rem" using frame(2) *(2) by simp
    ultimately show ?thesis using *(3) unfolding walk_to_Cons by blast
  qed
qed

text \<open>A walk does not depend on where it starts to count.\<close>

definition shift_walk :: "nat \<Rightarrow> journal_record list \<Rightarrow> (nat \<times> nat) option \<Rightarrow> walk_state \<Rightarrow> walk_state" where
  "shift_walk n rs t st =
     st\<lparr>ws_records := rs @ ws_records st, ws_at := n + ws_at st,
        ws_tail := (case ws_tail st of None \<Rightarrow> t | Some (a, l) \<Rightarrow> Some (n + a, l)),
        ws_break := map_option (\<lambda>b. b\<lparr>cb_at := n + cb_at b\<rparr>) (ws_break st)\<rparr>"

lemma walk_loop_shift: "walk_loop H fj linked rest (shift_walk n rs t st) = shift_walk n rs t (walk_loop H fj linked rest st)"
proof (induction "length rest" arbitrary: rest st rule: less_induct)
  case less
  define m where "m = be_nat (take LENGTH_BYTES rest)"
  define p where "p = take m (drop LENGTH_BYTES rest)"
  have step: "walk_loop H fj l (drop (LENGTH_BYTES + m + link_bytes l) rest) (shift_walk n rs t st')
      = shift_walk n rs t (walk_loop H fj l (drop (LENGTH_BYTES + m + link_bytes l) rest) st')"
    if "l = linked" "\<not> length rest < LENGTH_BYTES" for st' l
    unfolding that(1) using that(2) by (intro less) (simp add: LENGTH_BYTES_def)
  have grow: "(shift_walk n rs t st)\<lparr>ws_records := rs @ ws_records st @ [r], ws_at := n + ws_at st + k,
      ws_tail := Some (n + ws_at st, k), ws_chain := c\<rparr> =
    shift_walk n rs t (st\<lparr>ws_records := ws_records st @ [r], ws_at := ws_at st + k, ws_tail := Some (ws_at st, k), ws_chain := c\<rparr>)"
    for r k c by (simp add: shift_walk_def)
  have brk: "(shift_walk n rs t st)\<lparr>ws_break := Some \<lparr>cb_at = n + ws_at st, cb_found = f, cb_expected = e\<rparr>\<rparr>
    = shift_walk n rs t (st\<lparr>ws_break := Some \<lparr>cb_at = ws_at st, cb_found = f, cb_expected = e\<rparr>\<rparr>)" for f e
    by (simp add: shift_walk_def)
  have sel: "ws_chain (shift_walk n rs t st) = ws_chain st" "ws_at (shift_walk n rs t st) = n + ws_at st"
      "ws_records (shift_walk n rs t st) = rs @ ws_records st"
    by (simp_all add: shift_walk_def)
  show ?case
    unfolding walk_loop.simps [of H fj linked rest "shift_walk n rs t st"] walk_loop.simps [of H fj linked rest st]
    by (cases linked) (auto simp: sel Let_def brk grow step simp flip: m_def p_def split: option.splits sum.splits)
qed

section \<open>What a journal has read\<close>

text \<open>
  The invariant of an open journal against the bytes of its file: it has consumed the marker of its
  format and the sealed frames of some payloads, which decode to its records, and its chain head
  and tail are those of the last frame.
\<close>

definition marker_of :: "journal_format \<Rightarrow> bytes" where
  "marker_of format = (case format_marker format of None \<Rightarrow> [] | Some m \<Rightarrow> m)"

definition journal_body :: "(bytes \<Rightarrow> cid) \<Rightarrow> journal_format \<Rightarrow> bytes list \<Rightarrow> bytes" where
  "journal_body H format ps = marker_of format @ sealed_frames H (is_chained format) (genesis_link_of H format) ps"

definition journal_chain :: "(bytes \<Rightarrow> cid) \<Rightarrow> journal_format \<Rightarrow> bytes list \<Rightarrow> cid option" where
  "journal_chain H format ps = chain_after H (is_chained format) (genesis_link_of H format) ps"

definition journal_tail :: "(bytes \<Rightarrow> cid) \<Rightarrow> journal_format \<Rightarrow> bytes list \<Rightarrow> tail_record option" where
  "journal_tail H format ps =
     (if ps = [] then None
      else Some (length (journal_body H format (butlast ps)),
                 drop (length (journal_body H format (butlast ps))) (journal_body H format ps)))"

definition journal_reads ::
  "(bytes \<Rightarrow> cid) \<Rightarrow> (bytes \<Rightarrow> string + journal_record) \<Rightarrow> bytes list \<Rightarrow> bytes \<Rightarrow> engine_journal \<Rightarrow> bool" where
  "journal_reads H fj ps bs j \<longleftrightarrow>
     sniff_format bs = (ej_format j, length (marker_of (ej_format j)))
     \<and> decodes fj ps (ej_records j)
     \<and> take (ej_consumed j) bs = journal_body H (ej_format j) ps
     \<and> ej_consumed j = length (journal_body H (ej_format j) ps)
     \<and> ej_chain j = journal_chain H (ej_format j) ps
     \<and> ej_tail j = journal_tail H (ej_format j) ps"

lemma genesis_chain: "is_chained format \<Longrightarrow> genesis_link_of H format \<noteq> None"
  by (cases format) simp_all

lemma genesis_unchained: "\<not> is_chained format \<Longrightarrow> genesis_link_of H format = None"
  by (cases format) simp_all

lemma journal_chain_unchained: "\<not> is_chained format \<Longrightarrow> journal_chain H format ps = None"
  by (simp add: journal_chain_def genesis_unchained)

lemma sniff_marker: "sniff_format bs = (format, n) \<Longrightarrow> n = length (marker_of format) \<and> take n bs = marker_of format"
  by (auto simp: sniff_format_def marker_of_def starts_with_def split: if_splits)

definition walk_start :: "(bytes \<Rightarrow> cid) \<Rightarrow> journal_format \<Rightarrow> walk_state" where
  "walk_start H format =
     \<lparr>ws_records = [], ws_at = length (marker_of format), ws_tail = None, ws_chain = genesis_link_of H format, ws_break = None\<rparr>"

lemma walk_to_start:
  "walk_to H (is_chained format) ps rs (walk_start H format) =
     \<lparr>ws_records = rs, ws_at = length (journal_body H format ps),
      ws_tail = (if ps = [] then None else Some (length (journal_body H format (butlast ps)),
        length (journal_body H format ps) - length (journal_body H format (butlast ps)))),
      ws_chain = journal_chain H format ps, ws_break = None\<rparr>"
  by (simp add: walk_to_def walk_start_def journal_body_def journal_chain_def)

lemma journal_replay_walk:
  assumes "sniff_format bs = (format, length (marker_of format))"
  shows "journal_replay H fj bs =
    (let st = walk_loop H fj (is_chained format) (drop (length (marker_of format)) bs) (walk_start H format)
     in \<lparr>rr_records = ws_records st, rr_torn = length bs - ws_at st, rr_good = ws_at st, rr_tail = ws_tail st,
         rr_format = format, rr_chain = (if is_chained format then ws_chain st else None), rr_break = ws_break st\<rparr>)"
  using assms by (simp add: journal_replay_def walk_def walk_start_def Let_def)

lemma length_butlast_body: "length (journal_body H format (butlast ps)) \<le> length (journal_body H format ps)"
  by (cases ps rule: rev_cases) (simp_all add: journal_body_def sealed_frames_append)

lemma tail_of_body:
  assumes "take (length (journal_body H format ps)) bs = journal_body H format ps" "ps \<noteq> []"
  shows "tail_record_of bs 0 (Some (length (journal_body H format (butlast ps)),
        length (journal_body H format ps) - length (journal_body H format (butlast ps)))) = journal_tail H format ps"
proof -
  have "length (journal_body H format ps) \<le> length bs" using assms(1) by (metis length_take min.cobounded2 min_def nat_le_linear)
  then show ?thesis using assms length_butlast_body [of H format ps]
    by (simp add: tail_record_of_def journal_tail_def subslice_def drop_take [symmetric])
qed

text \<open>Opening a file, for writing or for reading, establishes the invariant.\<close>

lemma journal_of_reads:
  assumes j: "j = journal_of H bs (journal_replay H fj bs) ro q declared"
  obtains ps rem b where "journal_reads H fj ps bs j" "bs = journal_body H (ej_format j) ps @ rem"
    "walk_loop H fj (is_chained (ej_format j)) rem (walk_to H (is_chained (ej_format j)) ps (ej_records j) (walk_start H (ej_format j)))
       = (walk_to H (is_chained (ej_format j)) ps (ej_records j) (walk_start H (ej_format j)))\<lparr>ws_break := b\<rparr>"
    "ej_break j = map_option cb_at b"
proof -
  obtain format n where sn: "sniff_format bs = (format, n)" by fastforce
  note m = sniff_marker [OF sn]
  have sn': "sniff_format bs = (format, length (marker_of format))" using sn m by simp
  have fmt: "ej_format j = format" by (simp add: j journal_of_def journal_replay_walk [OF sn'] Let_def)
  let ?st = "walk_start H format" and ?rest = "drop (length (marker_of format)) bs"
  have chain: "is_chained format \<Longrightarrow> ws_chain ?st \<noteq> None" by (simp add: walk_start_def genesis_chain)
  obtain ps rs rem b where w: "decodes fj ps rs" "?rest = sealed_frames H (is_chained format) (ws_chain ?st) ps @ rem"
      "walk_loop H fj (is_chained format) rem (walk_to H (is_chained format) ps rs ?st) = (walk_to H (is_chained format) ps rs ?st)\<lparr>ws_break := b\<rparr>"
    using walk_loop_reads [OF chain] by metis
  have whole: "walk_loop H fj (is_chained format) ?rest ?st = (walk_to H (is_chained format) ps rs ?st)\<lparr>ws_break := b\<rparr>"
    using walk_loop_sealed [OF w(1) chain, where H = H and rest = rem] w(2,3) by simp
  have bs: "bs = journal_body H format ps @ rem"
    using w(2) m by (metis append_assoc append_take_drop_id journal_body_def walk_start_def walk_state.select_convs(4))
  have tk: "take (length (journal_body H format ps)) bs = journal_body H format ps" by (simp add: bs)
  have "journal_reads H fj ps bs j"
    unfolding journal_reads_def fmt
    using sn' w(1) tk tail_of_body [OF tk]
    by (auto simp: j journal_of_def journal_replay_walk [OF sn'] whole walk_to_start Let_def journal_chain_unchained
        journal_tail_def tail_record_of_def)
  moreover have "ej_records j = rs" "ej_break j = map_option cb_at b"
    by (simp_all add: j journal_of_def journal_replay_walk [OF sn'] whole walk_to_start Let_def)
  ultimately show thesis using that [of ps rem b] bs w(3) unfolding fmt by simp
qed

section \<open>Catching up\<close>

definition fresh_walk :: "cid option \<Rightarrow> walk_state" where
  "fresh_walk chain = \<lparr>ws_records = [], ws_at = 0, ws_tail = None, ws_chain = chain, ws_break = None\<rparr>"

lemma replay_onward_walk:
  "replay_onward H fj bs format chain =
    (let st = walk_loop H fj (is_chained format) bs (fresh_walk chain)
     in \<lparr>rr_records = ws_records st, rr_torn = length bs - ws_at st, rr_good = ws_at st, rr_tail = ws_tail st,
         rr_format = format, rr_chain = (if is_chained format then ws_chain st else None), rr_break = ws_break st\<rparr>)"
  by (simp add: replay_onward_def walk_def fresh_walk_def Let_def)

lemma walk_to_consumed:
  assumes "journal_reads H fj ps bs j"
  shows "walk_to H (is_chained (ej_format j)) ps (ej_records j) (walk_start H (ej_format j))
    = shift_walk (ej_consumed j) (ej_records j) (map_option (\<lambda>(a, f). (a, length f)) (ej_tail j)) (fresh_walk (ej_chain j))"
  using assms length_butlast_body [of H "ej_format j" ps]
  by (simp add: journal_reads_def walk_to_start shift_walk_def fresh_walk_def journal_tail_def)

text \<open>Replaying the whole file is replaying what was consumed and then walking on from there.\<close>

lemma replay_from_consumed:
  assumes r: "journal_reads H fj ps bs j"
  defines "st \<equiv> walk_loop H fj (is_chained (ej_format j)) (drop (ej_consumed j) bs) (fresh_walk (ej_chain j))"
  shows "journal_replay H fj bs =
    \<lparr>rr_records = ej_records j @ ws_records st, rr_torn = length bs - (ej_consumed j + ws_at st),
     rr_good = ej_consumed j + ws_at st,
     rr_tail = (case ws_tail st of
        None \<Rightarrow> map_option (\<lambda>(a, f). (a, length f)) (ej_tail j) | Some (a, l) \<Rightarrow> Some (ej_consumed j + a, l)),
     rr_format = ej_format j, rr_chain = (if is_chained (ej_format j) then ws_chain st else None),
     rr_break = map_option (\<lambda>b. b\<lparr>cb_at := ej_consumed j + cb_at b\<rparr>) (ws_break st)\<rparr>"
proof -
  let ?f = "ej_format j"
  have sn: "sniff_format bs = (?f, length (marker_of ?f))" and dec: "decodes fj ps (ej_records j)"
    and tk: "take (ej_consumed j) bs = journal_body H ?f ps" and con: "ej_consumed j = length (journal_body H ?f ps)"
    and ch: "ej_chain j = journal_chain H ?f ps" and tl: "ej_tail j = journal_tail H ?f ps"
    using r unfolding journal_reads_def by blast+
  have bs: "bs = journal_body H ?f ps @ drop (ej_consumed j) bs" using tk by (metis append_take_drop_id)
  have rest: "drop (length (marker_of ?f)) bs = sealed_frames H (is_chained ?f) (ws_chain (walk_start H ?f)) ps @ drop (ej_consumed j) bs"
    by (subst bs) (simp add: journal_body_def walk_start_def)
  have chain: "is_chained ?f \<Longrightarrow> ws_chain (walk_start H ?f) \<noteq> None" by (simp add: walk_start_def genesis_chain)
  let ?tail = "map_option (\<lambda>(a, f). (a, length f)) (ej_tail j)"
  note start = walk_to_consumed [OF r]
  have "walk_loop H fj (is_chained ?f) (drop (length (marker_of ?f)) bs) (walk_start H ?f) = shift_walk (ej_consumed j) (ej_records j) ?tail st"
    unfolding rest st_def walk_loop_shift [symmetric] start [symmetric] using dec chain by (rule walk_loop_sealed)
  then show ?thesis
    by (simp add: journal_replay_walk [OF sn] Let_def shift_walk_def split: option.splits)
qed

lemma walk_loop_records:
  assumes chain: "linked \<Longrightarrow> ws_chain st \<noteq> None"
  shows "\<exists>rs. ws_records (walk_loop H fj linked rest st) = ws_records st @ rs"
proof -
  obtain ps rs rem b where w: "decodes fj ps rs" "rest = sealed_frames H linked (ws_chain st) ps @ rem"
      "walk_loop H fj linked rem (walk_to H linked ps rs st) = (walk_to H linked ps rs st)\<lparr>ws_break := b\<rparr>"
    using walk_loop_reads [OF chain] by metis
  then show ?thesis using walk_loop_sealed [OF w(1) chain, where H = H and rest = rem] by (simp add: walk_to_def)
qed

lemma walk_loop_progress:
  assumes "ws_records st' = ws_records st @ [r]" "linked \<Longrightarrow> ws_chain st' \<noteq> None"
  shows "walk_loop H fj linked rest st' \<noteq> st\<lparr>ws_break := x\<rparr>"
proof
  assume *: "walk_loop H fj linked rest st' = st\<lparr>ws_break := x\<rparr>"
  obtain rs where "ws_records (walk_loop H fj linked rest st') = ws_records st' @ rs"
    using walk_loop_records [OF assms(2)] by metis
  then show False using assms(1) unfolding * by simp
qed

lemma walk_loop_chain:
  assumes chain: "linked \<Longrightarrow> ws_chain st \<noteq> None"
  shows "linked \<Longrightarrow> ws_chain (walk_loop H fj linked rest st) \<noteq> None"
proof -
  assume linked
  obtain ps rs rem b where w: "decodes fj ps rs" "rest = sealed_frames H linked (ws_chain st) ps @ rem"
      "walk_loop H fj linked rem (walk_to H linked ps rs st) = (walk_to H linked ps rs st)\<lparr>ws_break := b\<rparr>"
    using walk_loop_reads [OF chain] by metis
  then have "ws_chain (walk_loop H fj linked rest st) = chain_after H linked (ws_chain st) ps"
    using walk_loop_sealed [OF w(1) chain, where H = H and rest = rem] by (simp add: walk_to_def)
  then show "ws_chain (walk_loop H fj linked rest st) \<noteq> None"
    using chain chain_after_Some [OF \<open>linked\<close>] \<open>linked\<close> by (metis not_None_eq)
qed

lemma walk_loop_tail:
  assumes chain: "linked \<Longrightarrow> c \<noteq> None" and tail: "ws_tail (walk_loop H fj linked rest (fresh_walk c)) = Some (a, l)"
  shows "a + l \<le> length rest"
proof -
  have chain': "linked \<Longrightarrow> ws_chain (fresh_walk c) \<noteq> None" using chain by (simp add: fresh_walk_def)
  obtain ps rs rem b where w: "decodes fj ps rs" "rest = sealed_frames H linked (ws_chain (fresh_walk c)) ps @ rem"
      "walk_loop H fj linked rem (walk_to H linked ps rs (fresh_walk c)) = (walk_to H linked ps rs (fresh_walk c))\<lparr>ws_break := b\<rparr>"
    using walk_loop_reads [OF chain'] by metis
  then have "ws_tail (walk_to H linked ps rs (fresh_walk c)) = Some (a, l)"
    using tail walk_loop_sealed [OF w(1) chain', where H = H and rest = rem] by simp
  moreover have "length (sealed_frames H linked c (butlast ps)) \<le> length (sealed_frames H linked c ps)"
    by (cases ps rule: rev_cases) (simp_all add: sealed_frames_append)
  ultimately show ?thesis by (auto simp: walk_to_def fresh_walk_def w(2) split: if_splits)
qed

text \<open>A break stays a break when the file grows.\<close>

lemma walk_loop_break_stable:
  assumes st: "ws_break st = None" "linked \<Longrightarrow> ws_chain st \<noteq> None"
    and stop: "walk_loop H fj linked rem st = st\<lparr>ws_break := Some b\<rparr>"
  shows "walk_loop H fj linked (rem @ ext) st = st\<lparr>ws_break := Some b\<rparr>"
proof -
  define n where "n = be_nat (take LENGTH_BYTES rem)"
  define p where "p = take n (drop LENGTH_BYTES rem)"
  define found where "found = Cid (take CHAIN_BYTES (drop (LENGTH_BYTES + n) rem))"
  have neq: "st \<noteq> st\<lparr>ws_break := Some b\<rparr>"
  proof
    assume "st = st\<lparr>ws_break := Some b\<rparr>"
    then have "ws_break st = ws_break (st\<lparr>ws_break := Some b\<rparr>)" by (rule arg_cong)
    then show False using st(1) by simp
  qed
  have long: "\<not> length rem < LENGTH_BYTES"
    using stop neq by (auto simp: walk_loop.simps [of H fj linked rem])
  have fits: "n \<noteq> 0" "n \<le> JOURNAL_MAX_RECORD_BYTES" "LENGTH_BYTES + n + link_bytes linked \<le> length rem"
    using stop neq long by (auto simp: walk_loop.simps [of H fj linked rem] Let_def simp flip: n_def split: if_splits)
  have grows: "walk_loop H fj l rest' (st\<lparr>ws_records := ws_records st @ [r], ws_at := a, ws_tail := t, ws_chain := ch\<rparr>) \<noteq> st\<lparr>ws_break := Some b\<rparr>"
    if "l \<Longrightarrow> ch \<noteq> None" for l rest' r a t ch
    by (rule walk_loop_progress) (use that in auto)
  have linked: linked
  proof (rule ccontr)
    assume "\<not> linked"
    then show False using stop neq long fits grows [of False "ws_chain st"]
      by (cases "cbor_decode fj p") (auto simp: walk_loop.simps [of H fj False rem] Let_def simp flip: n_def p_def)
  qed
  then obtain c where c: "ws_chain st = Some c" using st(2) by auto
  have bad: "found \<noteq> chain_link H c p"
  proof
    assume "found = chain_link H c p"
    then show False using stop neq long fits linked c grows [of True "Some (chain_link H c p)"]
      by (cases "cbor_decode fj p") (auto simp: walk_loop.simps [of H fj True rem] Let_def simp flip: n_def p_def found_def)
  qed
  define e where "e = rem @ ext"
  have e: "be_nat (take LENGTH_BYTES e) = n" "take n (drop LENGTH_BYTES e) = p"
    "Cid (take CHAIN_BYTES (drop (LENGTH_BYTES + n) e)) = found" "length rem \<le> length e"
    using long fits(3) linked by (simp_all add: e_def n_def p_def found_def link_bytes_def)
  have "walk_loop H fj linked e st = walk_loop H fj linked rem st"
    using long fits linked c bad e(4)
    by (auto simp: walk_loop.simps [of H fj _ e] walk_loop.simps [of H fj _ rem] Let_def e(1-3) simp flip: n_def p_def found_def)
  with stop show ?thesis by (simp add: e_def)
qed

text \<open>
  C28. Reading what was appended gives what reading everything gives: if a journal was opened for reading
  and was not downgraded, and the file has grown since and still begins with the same format marker,
  then catching up leaves the journal with the records, position, chain head, last frame and chain
  break of a journal opened from the whole file, and returns the records it did not have. Under the
  lock this holds of a file that does not end in a torn frame; one that does is refused.
\<close>

theorem catch_up_is_reopen:
  assumes j: "open_read_only_declared H fj declared dir = Inr j" "ld_file dir = Some bs"
    and grown: "ld_file dir' = Some (bs @ ext)" "sniff_format (bs @ ext) = sniff_format bs"
    and ok: "\<not> ej_downgraded j"
    and k: "open_read_only_declared H fj declared dir' = Inr k"
    and whole: "under_lock \<Longrightarrow> rr_torn (journal_replay H fj (bs @ ext)) = 0"
  shows "\<exists>new j'. read_to_the_end H fj under_lock dir' j = (Inr new, j')
    \<and> ej_records k = ej_records j @ new \<and> ej_records j' = ej_records k \<and> ej_consumed j' = ej_consumed k
    \<and> ej_chain j' = ej_chain k \<and> ej_tail j' = ej_tail k \<and> ej_break j' = ej_break k"
proof -
  have jo: "j = journal_of H bs (journal_replay H fj bs) True None declared"
    using j by (simp add: open_read_only_declared_def)
  obtain ps rem b where r: "journal_reads H fj ps bs j" "bs = journal_body H (ej_format j) ps @ rem"
    and stop: "walk_loop H fj (is_chained (ej_format j)) rem (walk_to H (is_chained (ej_format j)) ps (ej_records j) (walk_start H (ej_format j)))
       = (walk_to H (is_chained (ej_format j)) ps (ej_records j) (walk_start H (ej_format j)))\<lparr>ws_break := b\<rparr>"
    and brk: "ej_break j = map_option cb_at b"
    using journal_of_reads [OF jo] by metis
  have r': "journal_reads H fj ps (bs @ ext) j"
    using r(1) grown(2) unfolding journal_reads_def r(2) by simp
  let ?f = "ej_format j"
  have rem: "drop (ej_consumed j) (bs @ ext) = rem @ ext"
    using r unfolding journal_reads_def by simp
  define st where "st = walk_loop H fj (is_chained ?f) (rem @ ext) (fresh_walk (ej_chain j))"
  have rp: "journal_replay H fj (bs @ ext) = \<lparr>rr_records = ej_records j @ ws_records st,
     rr_torn = length (bs @ ext) - (ej_consumed j + ws_at st), rr_good = ej_consumed j + ws_at st,
     rr_tail = (case ws_tail st of
        None \<Rightarrow> map_option (\<lambda>(a, f). (a, length f)) (ej_tail j) | Some (a, l) \<Rightarrow> Some (ej_consumed j + a, l)),
     rr_format = ?f, rr_chain = (if is_chained ?f then ws_chain st else None),
     rr_break = map_option (\<lambda>b. b\<lparr>cb_at := ej_consumed j + cb_at b\<rparr>) (ws_break st)\<rparr>"
    using replay_from_consumed [OF r'] unfolding rem st_def .
  have chain: "is_chained ?f \<Longrightarrow> ej_chain j \<noteq> None" "\<not> is_chained ?f \<Longrightarrow> ej_chain j = None"
    using r(1) chain_after_Some [of "is_chained ?f" H] genesis_chain [of ?f H]
    by (auto simp: journal_reads_def journal_chain_def genesis_unchained)
  have st_chain: "is_chained ?f \<Longrightarrow> ws_chain st \<noteq> None"
    unfolding st_def by (rule walk_loop_chain) (use chain in \<open>auto simp: fresh_walk_def\<close>)
  have st_break: "ws_break st \<noteq> None" if "b = Some b0" for b0
  proof -
    let ?w = "walk_to H (is_chained ?f) ps (ej_records j) (walk_start H ?f)"
    have "walk_loop H fj (is_chained ?f) (rem @ ext) ?w = ?w\<lparr>ws_break := Some b0\<rparr>"
    proof (rule walk_loop_break_stable)
      show "ws_break ?w = None" by (simp add: walk_to_consumed [OF r(1)] shift_walk_def fresh_walk_def)
      show "is_chained ?f \<Longrightarrow> ws_chain ?w \<noteq> None" using chain(1) unfolding walk_to_consumed [OF r(1)] by (simp add: shift_walk_def fresh_walk_def)
    qed (use stop that in simp)
    then have "ws_break (walk_loop H fj (is_chained ?f) (rem @ ext) ?w) = Some b0" by simp
    then show ?thesis unfolding walk_to_consumed [OF r(1)] walk_loop_shift by (auto simp: st_def shift_walk_def)
  qed
  have kk: "k = journal_of H (bs @ ext) (journal_replay H fj (bs @ ext)) True None declared"
    using k grown by (simp add: open_read_only_declared_def)
  have con: "ej_consumed j \<le> length (bs @ ext)" using r' unfolding journal_reads_def by (metis length_take min.cobounded2 min_def nat_le_linear)
  have tail: "tail_record_of (bs @ ext) 0 (case ws_tail st of
        None \<Rightarrow> map_option (\<lambda>(a, f). (a, length f)) (ej_tail j) | Some (a, l) \<Rightarrow> Some (ej_consumed j + a, l))
      = (case tail_record_of (rem @ ext) (ej_consumed j) (ws_tail st) of Some t \<Rightarrow> Some t | None \<Rightarrow> ej_tail j)"
  proof (cases "ws_tail st")
    case None
    have "take (length (journal_body H ?f ps)) (bs @ ext) = journal_body H ?f ps" by (simp add: r(2))
    from None tail_of_body [OF this] r(1) length_butlast_body [of H ?f ps] show ?thesis
      by (simp add: journal_reads_def journal_tail_def tail_record_of_def)
  next
    case (Some span)
    obtain a l where al: "span = (a, l)" by fastforce
    have "a + l \<le> length (rem @ ext)"
      by (rule walk_loop_tail [of "is_chained ?f" "ej_chain j" H fj]) (use chain Some al in \<open>auto simp: st_def\<close>)
    moreover from this have "ej_consumed j + a + l \<le> length (bs @ ext)" using con rem by (metis add.assoc add_le_cancel_left le_add_diff_inverse length_drop)
    moreover have "drop (ej_consumed j + a) (bs @ ext) = drop a (rem @ ext)" unfolding rem [symmetric] drop_drop by (simp only: add.commute)
    ultimately show ?thesis by (simp add: Some al tail_record_of_def subslice_def del: drop_append length_append)
  qed
  show ?thesis
  proof (cases "length (bs @ ext) = ej_consumed j")
    case True
    then have "rem @ ext = []" using rem by (metis drop_all order_refl)
    then have "st = fresh_walk (ej_chain j)" by (simp add: st_def walk_loop.simps [of H fj _ "[]"] LENGTH_BYTES_def)
    with True st_break brk tail chain show ?thesis
      by (cases b) (auto simp: read_to_the_end_def grown ok kk journal_of_def rp fresh_walk_def tail_record_of_def)
  next
    case False
    define j1 where "j1 = (case ws_break st of Some b \<Rightarrow> j\<lparr>ej_break := Some (ej_consumed j + cb_at b)\<rparr> | None \<Rightarrow> j)"
    have onward: "replay_onward H fj (rem @ ext) ?f (ej_chain j) = \<lparr>rr_records = ws_records st, rr_torn = length (rem @ ext) - ws_at st,
        rr_good = ws_at st, rr_tail = ws_tail st, rr_format = ?f, rr_chain = (if is_chained ?f then ws_chain st else None),
        rr_break = ws_break st\<rparr>"
      by (simp add: replay_onward_walk st_def Let_def)
    have "length (rem @ ext) = length (bs @ ext) - ej_consumed j" by (simp only: rem [symmetric] length_drop)
    with whole have "\<not> (under_lock \<and> 0 < length (rem @ ext) - ws_at st)" by (simp only: rp journal_replayed.simps diff_diff_left) auto
    then have "read_to_the_end H fj under_lock dir' j = (Inr (ws_records st),
        j1\<lparr>ej_tail := (case tail_record_of (rem @ ext) (ej_consumed j) (ws_tail st) of Some t \<Rightarrow> Some t | None \<Rightarrow> ej_tail j),
           ej_chain := (if (if is_chained ?f then ws_chain st else None) \<noteq> None then (if is_chained ?f then ws_chain st else None) else ej_chain j),
           ej_consumed := ej_consumed j + ws_at st, ej_records := ej_records j @ ws_records st\<rparr>)"
      using False con ok unfolding read_to_the_end_def grown(1) by (auto simp add: rem onward j1_def Let_def simp del: length_append drop_append)
    moreover have "ej_break j1 = map_option (\<lambda>b. ej_consumed j + cb_at b) (ws_break st)"
      using st_break brk by (cases b) (auto simp: j1_def split: option.splits)
    ultimately show ?thesis
      using tail chain st_chain by (auto simp: kk journal_of_def rp option.map_comp comp_def)
  qed
qed

section \<open>The chain fixes the history\<close>

definition genesis_input :: "journal_format \<Rightarrow> bytes" where
  "genesis_input format = 0 # CHAIN_TAG @ marker_of format"

definition link_input :: "cid \<Rightarrow> bytes \<Rightarrow> bytes" where
  "link_input c p = 0 # CHAIN_TAG @ cid_bytes c @ p"

fun link_inputs :: "(bytes \<Rightarrow> cid) \<Rightarrow> cid \<Rightarrow> bytes list \<Rightarrow> bytes set" where
  "link_inputs H c [] = {}"
| "link_inputs H c (p # ps) = insert (link_input c p) (link_inputs H (chain_link H c p) ps)"

text \<open>Everything that was hashed to build the chain of a journal with these payloads.\<close>

definition chain_inputs :: "(bytes \<Rightarrow> cid) \<Rightarrow> journal_format \<Rightarrow> bytes list \<Rightarrow> bytes set" where
  "chain_inputs H format ps = insert (genesis_input format) (link_inputs H (the (genesis_link_of H format)) ps)"

lemma chain_link_input: "chain_link H c p = H (link_input c p)"
  by (simp add: chain_link_def mint_def digest_def link_input_def)

lemma genesis_link_input: "is_chained format \<Longrightarrow> genesis_link_of H format = Some (H (genesis_input format))"
  by (cases format) (simp_all add: genesis_link_def genesis_link_v2_def mint_def digest_def genesis_input_def marker_of_def)

lemma link_input_inject [simp]: "link_input c p = link_input d q \<longleftrightarrow> c = d \<and> p = q"
  by (auto simp: link_input_def cid_eq_iff)

lemma length_marker: "is_chained format \<Longrightarrow> length (marker_of format) = 8"
  by (cases format) (simp_all add: marker_of_def JOURNAL_MAGIC_def JOURNAL_MAGIC_V2_def ascii_def)

lemma genesis_input_link [simp]: "is_chained format \<Longrightarrow> genesis_input format \<noteq> link_input c p"
proof
  assume "is_chained format" "genesis_input format = link_input c p"
  then have "length (marker_of format) = length (cid_bytes c @ p)" by (simp add: genesis_input_def link_input_def)
  then show False using length_marker [OF \<open>is_chained format\<close>] by simp
qed

lemma genesis_input_inject: "is_chained f \<Longrightarrow> is_chained g \<Longrightarrow> genesis_input f = genesis_input g \<Longrightarrow> f = g"
  by (cases f; cases g) (simp_all add: genesis_input_def marker_of_def JOURNAL_MAGIC_def JOURNAL_MAGIC_V2_def ascii_def)

lemma link_inputs_snoc:
  "chain_after H True (Some c) ps = Some d \<Longrightarrow> link_inputs H c (ps @ [p]) = insert (link_input d p) (link_inputs H c ps)"
  by (induction ps arbitrary: c) (auto simp: next_link_def seal_of_def)

lemma chain_after_snoc:
  "chain_after H True (Some c) (ps @ [p]) = map_option (\<lambda>d. H (link_input d p)) (chain_after H True (Some c) ps)"
  by (simp add: chain_after_append next_link_def seal_of_def chain_link_input)

lemma chain_fixes_payloads:
  assumes "is_chained f" "is_chained g"
  shows "chain_after H True (Some (H (genesis_input f))) ps = chain_after H True (Some (H (genesis_input g))) qs \<Longrightarrow>
    (f = g \<and> ps = qs) \<or> collision H (insert (genesis_input f) (link_inputs H (H (genesis_input f)) ps))
      (insert (genesis_input g) (link_inputs H (H (genesis_input g)) qs))"
proof (induction ps arbitrary: qs rule: rev_induct)
  case empty: Nil
  show ?case
  proof (cases qs rule: rev_cases)
    case Nil
    with empty have "H (genesis_input f) = H (genesis_input g)" by simp
    then have "genesis_input f = genesis_input g \<or> collision H (insert (genesis_input f) A) (insert (genesis_input g) B)" for A B
      unfolding collision_def by blast
    then show ?thesis using Nil genesis_input_inject [OF assms] by metis
  next
    case (snoc qs' q)
    obtain d where d: "chain_after H True (Some (H (genesis_input g))) qs' = Some d" using chain_after_Some [OF TrueI] by metis
    with snoc empty have "H (genesis_input f) = H (link_input d q)" by (simp add: chain_after_snoc)
    then show ?thesis
      using genesis_input_link [OF assms(1), of d q] unfolding snoc link_inputs_snoc [OF d] collision_def by blast
  qed
next
  case (snoc p ps)
  obtain c where c: "chain_after H True (Some (H (genesis_input f))) ps = Some c" using chain_after_Some [OF TrueI] by metis
  show ?case
  proof (cases qs rule: rev_cases)
    case Nil
    with snoc.prems c have "H (link_input c p) = H (genesis_input g)" by (simp add: chain_after_snoc)
    moreover have "link_input c p \<noteq> genesis_input g" using genesis_input_link [OF assms(2), of c p] by metis
    ultimately show ?thesis
      using Nil link_inputs_snoc [OF c] unfolding collision_def by blast
  next
    case q: (snoc qs' q)
    obtain d where d: "chain_after H True (Some (H (genesis_input g))) qs' = Some d" using chain_after_Some [OF TrueI] by metis
    have eq: "H (link_input c p) = H (link_input d q)" using snoc.prems c d q by (simp add: chain_after_snoc)
    show ?thesis
    proof (cases "link_input c p = link_input d q")
      case True
      then have "chain_after H True (Some (H (genesis_input f))) ps = chain_after H True (Some (H (genesis_input g))) qs'"
        using c d by simp
      from snoc.IH [OF this] True show ?thesis
        using q link_inputs_snoc [OF c] link_inputs_snoc [OF d] by (auto intro: collision_mono)
    next
      case False
      then show ?thesis using eq q link_inputs_snoc [OF c] link_inputs_snoc [OF d] unfolding collision_def by blast
    qed
  qed
qed

text \<open>A walk over the links that reads everything has read the sealed frames of some payloads.\<close>

lemma links_loop_reads:
  "cw_break_at (links_loop H rest at c n) = None \<Longrightarrow> cw_good (links_loop H rest at c n) = at + length rest \<Longrightarrow>
   \<exists>ps. rest = sealed_frames H True (Some c) ps \<and> cw_head (links_loop H rest at c n) = chain_after H True (Some c) ps"
proof (induction "length rest" arbitrary: rest at c n rule: less_induct)
  case less
  define m where "m = be_nat (take LENGTH_BYTES rest)"
  define p where "p = take m (drop LENGTH_BYTES rest)"
  show ?case
  proof (cases "length rest < LENGTH_BYTES \<or> m = 0 \<or> m > JOURNAL_MAX_RECORD_BYTES \<or> LENGTH_BYTES + m + CHAIN_BYTES > length rest")
    case True
    then have w: "links_loop H rest at c n = \<lparr>cw_head = Some c, cw_records = n, cw_good = at, cw_break_at = None\<rparr>"
      by (auto simp: links_loop.simps [of H rest] Let_def simp flip: m_def)
    with less.prems(2) have "rest = []" by simp
    then show ?thesis using w by (intro exI [of _ "[]"]) simp
  next
    case fits: False
    let ?l = "chain_link H c p" and ?rest = "drop (LENGTH_BYTES + m + CHAIN_BYTES) rest"
      and ?at = "at + (LENGTH_BYTES + m + CHAIN_BYTES)"
    have seal: "take CHAIN_BYTES (drop (LENGTH_BYTES + m) rest) = cid_bytes ?l"
      using less.prems fits by (auto simp: links_loop.simps [of H rest] Let_def simp flip: m_def p_def split: if_splits)
    have w: "links_loop H rest at c n = links_loop H ?rest ?at ?l (n + 1)"
      using fits seal by (auto simp: links_loop.simps [of H rest] Let_def simp flip: m_def p_def)
    have "length ?rest < length rest" using fits by (auto simp: LENGTH_BYTES_def)
    moreover have "?at + length ?rest = at + length rest" using fits by auto
    ultimately obtain ps where ps: "?rest = sealed_frames H True (Some ?l) ps"
        "cw_head (links_loop H ?rest ?at ?l (n + 1)) = chain_after H True (Some ?l) ps"
      using less.hyps [of ?rest ?at ?l "n + 1"] less.prems unfolding w by auto
    have "rest = journal_frame p (Some ?l) @ ?rest"
      unfolding m_def p_def using frame_of_parts [of rest True ?l] fits seal
      by (simp add: m_def p_def link_bytes_def)
    then have "rest = sealed_frames H True (Some c) (p # ps)" by (simp add: ps(1) [symmetric] seal_of_def next_link_def)
    moreover have "cw_head (links_loop H rest at c n) = chain_after H True (Some c) (p # ps)"
      unfolding w ps(2) by (simp add: seal_of_def next_link_def)
    ultimately show ?thesis by blast
  qed
qed

lemma walk_links_reads:
  assumes "cw_break_at (walk_links H bs) = None" "cw_good (walk_links H bs) = length bs" "bs \<noteq> []"
  obtains format ps where "is_chained format" "bs = journal_body H format ps" "cw_head (walk_links H bs) = journal_chain H format ps"
proof -
  obtain format n where sn: "sniff_format bs = (format, n)" by fastforce
  note m = sniff_marker [OF sn]
  have ch: "is_chained format" using assms sn by (cases format) (auto simp: walk_links_def)
  have len: "length JOURNAL_MAGIC = 8" by (simp add: JOURNAL_MAGIC_def ascii_def)
  have n: "n = 8" using m length_marker [OF ch] by simp
  have le: "8 \<le> length bs" using m n length_marker [OF ch] by (metis length_take min.cobounded2 min_def nat_le_linear)
  let ?c = "the (genesis_link_of H format)"
  have w: "walk_links H bs = links_loop H (drop 8 bs) 8 ?c 0"
    using sn ch len by (cases format) (simp_all add: walk_links_def)
  from links_loop_reads [of H "drop 8 bs" 8 ?c 0] assms le obtain ps where
    "drop 8 bs = sealed_frames H True (Some ?c) ps" "cw_head (walk_links H bs) = chain_after H True (Some ?c) ps"
    unfolding w by auto
  moreover have "Some ?c = genesis_link_of H format" using genesis_chain [OF ch, of H] by simp
  ultimately show thesis
    using that [OF ch, of ps] m n ch by (metis append_take_drop_id journal_body_def journal_chain_def)
qed

text \<open>
  C29. A rewrite of a chained journal is noticed: if a journal in one of the chained formats finds its
  prefix intact, the bytes it has consumed are still the bytes in the file, or two different byte
  strings that went into the two chains have the same hash. Of a legacy journal, which has no chain,
  only the shape of the frames is checked, and nothing is claimed.
\<close>

theorem prefix_intact_detects_rewrite:
  assumes r: "journal_reads H fj ps bs j" and ch: "is_chained (ej_format j)"
    and intact: "prefix_intact H fj dir j" and now: "ld_file dir = Some now"
  shows "take (ej_consumed j) now = take (ej_consumed j) bs
    \<or> (\<exists>format qs. take (ej_consumed j) now = journal_body H format qs
        \<and> collision H (chain_inputs H (ej_format j) ps) (chain_inputs H format qs))"
proof -
  let ?now = "take (ej_consumed j) now"
  have con: "ej_consumed j = length (journal_body H (ej_format j) ps)" "ej_chain j = journal_chain H (ej_format j) ps"
      "take (ej_consumed j) bs = journal_body H (ej_format j) ps"
    using r unfolding journal_reads_def by blast+
  have "length (journal_body H (ej_format j) ps) \<noteq> 0" using length_marker [OF ch] by (simp add: journal_body_def)
  then have pos: "ej_consumed j \<noteq> 0" using con(1) by simp
  have i: "\<not> length now < ej_consumed j" "cw_break_at (walk_links H ?now) = None" "cw_good (walk_links H ?now) = ej_consumed j"
      "cw_head (walk_links H ?now) = ej_chain j"
    using intact pos ch by (auto simp: prefix_intact_def now Let_def split: if_splits)
  then have len: "length ?now = ej_consumed j" by simp
  obtain format qs where q: "is_chained format" "?now = journal_body H format qs" "cw_head (walk_links H ?now) = journal_chain H format qs"
  proof (rule walk_links_reads)
    show "cw_break_at (walk_links H ?now) = None" by (rule i)
    show "cw_good (walk_links H ?now) = length ?now" unfolding len by (rule i)
    show "?now \<noteq> []" using len pos by auto
  qed (rule that)
  have "journal_chain H (ej_format j) ps = journal_chain H format qs" using q(3) i(4) con(2) by simp
  then have "(ej_format j = format \<and> ps = qs) \<or> collision H (chain_inputs H (ej_format j) ps) (chain_inputs H format qs)"
    using chain_fixes_payloads [OF ch q(1), of H ps qs] ch q(1)
    by (simp add: journal_chain_def chain_inputs_def genesis_link_input)
  then show ?thesis using q(2) con(3) by auto
qed

section \<open>Crash safety\<close>

definition journal_codec_ok :: "(journal_record \<Rightarrow> string + bytes) \<Rightarrow> (bytes \<Rightarrow> string + journal_record) \<Rightarrow> bool" where
  "journal_codec_ok tj fj \<longleftrightarrow> (\<forall>r bs. tj r = Inr bs \<longrightarrow> fj bs = Inr r)"

text \<open>A journal that may be appended to, together with its file: everything in the file was consumed.\<close>

definition journal_ready ::
  "(bytes \<Rightarrow> cid) \<Rightarrow> (bytes \<Rightarrow> string + journal_record) \<Rightarrow> ledger_dir \<Rightarrow> engine_journal \<Rightarrow> bool" where
  "journal_ready H fj dir j \<longleftrightarrow>
     \<not> ej_read_only j \<and> \<not> ej_downgraded j \<and> \<not> ej_newer j \<and> ej_break j = None
     \<and> (\<exists>ps. ld_file dir = Some (journal_body H (ej_format j) ps)
          \<and> journal_reads H fj ps (journal_body H (ej_format j) ps) j
          \<and> (is_chained (ej_format j) \<or> ps \<noteq> []))"

lemma journal_header_zero: "payload_ok p \<Longrightarrow> hd (journal_frame p s) = 0 \<and> journal_frame p s \<noteq> []"
proof -
  assume p: "payload_ok p"
  have "length p < 2 ^ 24" using p by (simp add: payload_ok_def JOURNAL_MAX_RECORD_BYTES_def push_bit_eq_mult)
  then have "length p div 256 div 256 div 256 = 0" by (simp add: div_mult2_eq [symmetric])
  moreover have L: "LENGTH_BYTES = Suc (Suc (Suc (Suc 0)))" by (simp add: LENGTH_BYTES_def)
  ultimately show ?thesis unfolding journal_frame_def L by simp
qed

lemma magic_first: "hd JOURNAL_MAGIC = 0x47" "hd JOURNAL_MAGIC_V2 = 0x47" "hd JOURNAL_MAGIC_PREFIX = 0x47"
  "JOURNAL_MAGIC \<noteq> []" "JOURNAL_MAGIC_V2 \<noteq> []" "JOURNAL_MAGIC_PREFIX \<noteq> []"
  by (simp_all add: JOURNAL_MAGIC_def JOURNAL_MAGIC_V2_def JOURNAL_MAGIC_PREFIX_def ascii_def)

lemma starts_with_append: "starts_with p (p @ q)"
  by (simp add: starts_with_def)

lemma starts_with_hd: "starts_with p bs \<Longrightarrow> p \<noteq> [] \<Longrightarrow> bs \<noteq> [] \<and> hd bs = hd p"
  by (cases p; cases bs) (auto simp: starts_with_def)

text \<open>The format of a file is read back from its first bytes, whatever follows.\<close>

lemma sniff_body:
  assumes "decodes fj ps rs" "is_chained format \<or> ps \<noteq> []"
  shows "sniff_format (journal_body H format ps @ ext) = (format, length (marker_of format))"
    "\<not> framing_unknown (journal_body H format ps @ ext)"
proof -
  have leg: "hd (journal_body H Legacy ps @ ext) = 0" if fm: "format = Legacy"
  proof -
    obtain p qs where ps: "ps = p # qs" using assms(2) fm by (cases ps) auto
    then have "payload_ok p" using assms(1) by (auto simp: decodes_def list_all2_Cons1)
    from journal_header_zero [OF this] show ?thesis by (simp add: journal_body_def marker_of_def ps)
  qed
  have no: "\<not> starts_with JOURNAL_MAGIC_V2 (JOURNAL_MAGIC @ x)" for x
    by (simp add: starts_with_def JOURNAL_MAGIC_def JOURNAL_MAGIC_V2_def ascii_def)
  have "\<not> starts_with m (journal_body H Legacy ps @ ext)" if "format = Legacy" "m \<noteq> []" "hd m = 0x47" for m
    using starts_with_hd [of m] leg [OF that(1)] that by fastforce
  then show "sniff_format (journal_body H format ps @ ext) = (format, length (marker_of format))"
    "\<not> framing_unknown (journal_body H format ps @ ext)"
    using no magic_first
    by (cases format; simp add: sniff_format_def framing_unknown_def journal_body_def marker_of_def starts_with_append)+
qed

lemma body_snoc:
  "journal_body H format (ps @ [p]) = journal_body H format ps
     @ journal_frame p (seal_of H (is_chained format) (journal_chain H format ps) p)"
  by (simp add: journal_body_def journal_chain_def sealed_frames_append)

lemma chain_snoc: "journal_chain H format (ps @ [p]) = next_link H (is_chained format) (journal_chain H format ps) p"
  by (simp add: journal_chain_def chain_after_append)

lemma journal_chain_Some: "is_chained format \<Longrightarrow> journal_chain H format ps \<noteq> None"
  using chain_after_Some [of True H] genesis_chain [of format H] by (auto simp: journal_chain_def)

lemma seal_ok: "seal H format (journal_chain H format ps) p = Inr (seal_of H (is_chained format) (journal_chain H format ps) p)"
  using journal_chain_Some [of format H ps] by (auto simp: seal_def seal_of_def split: option.splits)

text \<open>What opening does to a file of whole frames followed by a frame that is not all there.\<close>

lemma open_bytes_file: "ld_file dir = Some bs \<Longrightarrow> bs \<noteq> [] \<Longrightarrow> open_bytes m declared dir = (Inr bs, dir)"
  by (cases bs) (simp_all add: open_bytes_def)

lemma replay_body:
  assumes dec: "decodes fj ps rs" and fmt: "is_chained format \<or> ps \<noteq> []"
    and stop: "walk_loop H fj (is_chained format) junk (walk_to H (is_chained format) ps rs (walk_start H format))
      = walk_to H (is_chained format) ps rs (walk_start H format)"
  shows "journal_replay H fj (journal_body H format ps @ junk) =
    \<lparr>rr_records = rs, rr_torn = length junk, rr_good = length (journal_body H format ps),
     rr_tail = (if ps = [] then None else Some (length (journal_body H format (butlast ps)),
        length (journal_body H format ps) - length (journal_body H format (butlast ps)))),
     rr_format = format, rr_chain = journal_chain H format ps, rr_break = None\<rparr>"
proof -
  have rest: "drop (length (marker_of format)) (journal_body H format ps @ junk)
      = sealed_frames H (is_chained format) (ws_chain (walk_start H format)) ps @ junk"
    by (simp add: journal_body_def walk_start_def)
  have "is_chained format \<Longrightarrow> ws_chain (walk_start H format) \<noteq> None" by (simp add: walk_start_def genesis_chain)
  from walk_loop_sealed [OF dec this, where H = H and rest = junk] stop
  have "walk_loop H fj (is_chained format) (drop (length (marker_of format)) (journal_body H format ps @ junk)) (walk_start H format)
      = walk_to H (is_chained format) ps rs (walk_start H format)"
    unfolding rest by simp
  then show ?thesis
    unfolding journal_replay_walk [OF sniff_body(1) [OF dec fmt]]
    by (simp add: Let_def walk_to_start journal_chain_unchained)
qed

lemma open_body:
  assumes dec: "decodes fj ps rs" and fmt: "is_chained format \<or> ps \<noteq> []" and nd: "\<not> is_downgraded declared format"
    and stop: "walk_loop H fj (is_chained format) junk (walk_to H (is_chained format) ps rs (walk_start H format))
      = walk_to H (is_chained format) ps rs (walk_start H format)"
    and f: "ld_file dir = Some (journal_body H format ps @ junk)" "journal_body H format ps \<noteq> []"
  obtains j dir' where "open_declared_creating H fj m CopyOk TruncateOk s declared creation dir = (Inr j, dir')"
    "ej_records j = rs" "journal_ready H fj dir' j" "ej_format j = format"
proof -
  define bs where "bs = journal_body H format ps @ junk"
  have ob: "open_bytes m declared dir = (Inr bs, dir)" using f by (intro open_bytes_file) (simp_all add: bs_def)
  note rp = replay_body [OF dec fmt stop, folded bs_def]
  note sn = sniff_body [OF dec fmt, of H junk, folded bs_def] and sn0 = sniff_body(1) [OF dec fmt, of H "[]"]
  have tk: "take (length (journal_body H format ps)) bs = journal_body H format ps" by (simp add: bs_def)
  define q where "q = (if junk = [] then None else Some (length (journal_body H format ps), length (journal_body H format ps) + length junk))"
  define j where "j = journal_of H bs (journal_replay H fj bs) False q declared"
  have j: "ej_records j = rs" "ej_format j = format" "\<not> ej_read_only j" "\<not> ej_downgraded j" "\<not> ej_newer j" "ej_break j = None"
      "ej_consumed j = length (journal_body H format ps)" "ej_chain j = journal_chain H format ps" "ej_tail j = journal_tail H format ps"
    using nd sn(2) tail_of_body [OF tk] by (simp_all add: j_def journal_of_def rp journal_tail_def tail_record_of_def)
  have "journal_reads H fj ps (journal_body H format ps) j" using sn0 dec j unfolding journal_reads_def by simp
  then have ready: "journal_ready H fj dir' j" if "ld_file dir' = Some (journal_body H format ps)" for dir'
    using that fmt j unfolding journal_ready_def by auto
  show thesis
  proof (cases "junk = []")
    case True
    then have "open_declared_creating H fj m CopyOk TruncateOk s declared creation dir = (Inr j, dir)"
      using f(1) ob unfolding open_declared_creating_def by (simp add: rp j_def q_def Let_def)
    then show thesis using that j(1,2) ready [of dir] f(1) True by simp
  next
    case False
    let ?dir = "snd (quarantine_torn_tail CopyOk (length (journal_body H format ps)) (length junk) bs dir)"
    have "open_declared_creating H fj m CopyOk TruncateOk s declared creation dir
        = (Inr j, ?dir\<lparr>ld_file := Some (journal_body H format ps)\<rparr>)"
      using f(1) ob False nd sn(2) tk unfolding open_declared_creating_def
      by (simp add: rp j_def q_def Let_def cut_torn_tail_def quarantine_torn_tail_def)
    then show thesis using that j(1,2) ready by simp
  qed
qed

lemma walk_loop_Nil [simp]: "walk_loop H fj linked [] st = st"
  by (simp add: walk_loop.simps [of H fj linked "[]"] LENGTH_BYTES_def)

lemma body_nonempty: "is_chained format \<or> ps \<noteq> [] \<Longrightarrow> decodes fj ps rs \<Longrightarrow> journal_body H format ps \<noteq> []"
  using length_marker [of format] journal_header_zero
  by (cases "is_chained format"; cases ps) (auto simp: journal_body_def decodes_def list_all2_Cons1)

lemma decode_encoded: "journal_codec_ok tj fj \<Longrightarrow> cbor_encode tj r = Inr p \<Longrightarrow> cbor_decode fj p = Inr r"
  using cbor_encode_canonical [of tj r p] by (auto simp: cbor_decode_def journal_codec_ok_def)

definition appended :: "engine_journal \<Rightarrow> journal_record \<Rightarrow> bytes \<Rightarrow> cid option \<Rightarrow> engine_journal" where
  "appended j r p s =
     j\<lparr>ej_records := ej_records j @ [r], ej_tail := Some (ej_consumed j, journal_frame p s),
       ej_consumed := ej_consumed j + length (journal_frame p s),
       ej_chain := (case s of Some l \<Rightarrow> Some l | None \<Rightarrow> ej_chain j)\<rparr>"

lemma appended_sel [simp]:
  "ej_format (appended j r p s) = ej_format j" "ej_read_only (appended j r p s) = ej_read_only j"
  "ej_downgraded (appended j r p s) = ej_downgraded j" "ej_newer (appended j r p s) = ej_newer j"
  "ej_break (appended j r p s) = ej_break j" "ej_records (appended j r p s) = ej_records j @ [r]"
  by (simp_all add: appended_def)

text \<open>An acknowledged append keeps the invariant.\<close>

lemma appended_reads:
  assumes r: "journal_reads H fj ps (journal_body H (ej_format j) ps) j" and fmt: "is_chained (ej_format j) \<or> ps \<noteq> []"
    and dec': "decodes fj (ps @ [p]) (ej_records j @ [r])"
  shows "journal_reads H fj (ps @ [p]) (journal_body H (ej_format j) (ps @ [p]))
    (appended j r p (seal_of H (is_chained (ej_format j)) (journal_chain H (ej_format j) ps) p))"
  using r sniff_body(1) [OF dec', of "ej_format j" H "[]"] fmt dec' journal_chain_Some [of "ej_format j" H ps]
  by (auto simp: journal_reads_def appended_def body_snoc chain_snoc journal_tail_def next_link_def seal_of_def
      journal_chain_unchained split: option.splits)

text \<open>
  C30. Crash safety of the journal: whatever happens to the write of an append (it completes, stops
  after any number of bytes, or its fsync fails), the next opening succeeds, finds the old records
  alone or the old records and the new one, and can be appended to; a record whose append was
  acknowledged is there, and the journal in memory agrees with the file.
\<close>

theorem journal_append_crash_safe:
  assumes codec: "journal_codec_ok tj fj" and ready: "journal_ready H fj dir j"
    and nd: "\<not> is_downgraded declared (ej_format j)"
    and app: "journal_append H tj outcome r dir j = (res, dir', j')"
  shows "\<exists>k dir''. open_declared_creating H fj m CopyOk TruncateOk s declared creation dir' = (Inr k, dir'')
    \<and> journal_ready H fj dir'' k \<and> ej_format k = ej_format j
    \<and> (ej_records k = ej_records j \<or> ej_records k = ej_records j @ [r])
    \<and> (is_ok res \<longrightarrow> res = Inr (length (ej_records j)) \<and> ej_records k = ej_records j @ [r] \<and> ej_records j' = ej_records k
         \<and> journal_ready H fj dir' j')"
proof -
  let ?f = "ej_format j"
  obtain ps where f: "ld_file dir = Some (journal_body H ?f ps)" and r: "journal_reads H fj ps (journal_body H ?f ps) j"
    and fmt: "is_chained ?f \<or> ps \<noteq> []"
    using ready unfolding journal_ready_def by blast
  have dec: "decodes fj ps (ej_records j)" and ch: "ej_chain j = journal_chain H ?f ps"
    and con: "ej_consumed j = length (journal_body H ?f ps)"
    using r unfolding journal_reads_def by blast+
  have ne: "journal_body H ?f ps \<noteq> []" using fmt dec by (rule body_nonempty)
  have same: ?thesis if "dir' = dir" "j' = j" "\<not> is_ok res"
  proof -
    obtain k dir'' where "open_declared_creating H fj m CopyOk TruncateOk s declared creation dir = (Inr k, dir'')"
        "ej_records k = ej_records j" "journal_ready H fj dir'' k" "ej_format k = ?f"
      by (rule open_body [OF dec fmt nd, of H "[]" dir]) (use f ne in \<open>simp_all add: walk_loop_Nil\<close>)
    then show ?thesis using that by blast
  qed
  show ?thesis
  proof (cases "cbor_encode tj r")
    case (Inl e)
    with app ready show ?thesis by (intro same) (auto simp: journal_append_def journal_ready_def split: if_splits)
  next
    case (Inr p)
    let ?s = "seal_of H (is_chained ?f) (journal_chain H ?f ps) p"
    have go: "vocabulary_rank (minimum_format r) \<le> vocabulary_rank ?f \<Longrightarrow> journal_append H tj outcome r dir j =
        (case journal_write_and_sync outcome p ?s dir of
           (Inl e, dir) \<Rightarrow> (Inl e, dir, j)
         | (Inr _, dir) \<Rightarrow> (Inr (length (ej_records j)), dir, appended j r p ?s))"
      using ready Inr unfolding journal_append_def journal_ready_def appended_def
      by (auto simp: ch seal_ok split: prod.splits sum.splits)
    show ?thesis
    proof (cases "vocabulary_rank (minimum_format r) \<le> vocabulary_rank ?f \<and> length p \<le> JOURNAL_MAX_RECORD_BYTES")
      case False
      with app ready go show ?thesis
        by (intro same) (auto simp: journal_append_def journal_ready_def journal_write_and_sync_def not_le split: if_splits)
    next
      case True
      have p: "payload_ok p" using True encoded_nonempty [OF Inr] by (simp add: payload_ok_def)
      have dec': "decodes fj (ps @ [p]) (ej_records j @ [r])"
        using dec p decode_encoded [OF codec Inr] by (simp add: decodes_def list_all2_appendI)
      have body': "journal_body H ?f (ps @ [p]) = journal_body H ?f ps @ journal_frame p ?s" by (rule body_snoc)
      have whole: "\<exists>k dir''. open_declared_creating H fj m CopyOk TruncateOk s declared creation d = (Inr k, dir'')
          \<and> ej_records k = ej_records j @ [r] \<and> journal_ready H fj dir'' k \<and> ej_format k = ?f"
        if file_d: "ld_file d = Some (journal_body H ?f ps @ journal_frame p ?s)" for d
      proof -
        obtain k dir'' where "open_declared_creating H fj m CopyOk TruncateOk s declared creation d = (Inr k, dir'')"
            "ej_records k = ej_records j @ [r]" "journal_ready H fj dir'' k" "ej_format k = ?f"
          by (rule open_body [OF dec' _ nd, of H "[]" d]) (use file_d ne body' in \<open>simp_all add: walk_loop_Nil\<close>)
        then show ?thesis by blast
      qed
      have part: "\<exists>k dir''. open_declared_creating H fj m CopyOk TruncateOk s declared creation d = (Inr k, dir'')
          \<and> ej_records k = ej_records j \<and> journal_ready H fj dir'' k \<and> ej_format k = ?f"
        if file_d: "ld_file d = Some (journal_body H ?f ps @ take n (journal_frame p ?s))" "n < length (journal_frame p ?s)" for d n
      proof -
        let ?w = "walk_to H (is_chained ?f) ps (ej_records j) (walk_start H ?f)"
        have w: "ws_chain ?w = journal_chain H ?f ps" by (simp add: walk_to_start)
        have stop: "walk_loop H fj (is_chained ?f) (take n (journal_frame p ?s)) ?w = ?w"
          using walk_loop_short [OF p, of "is_chained ?f" ?w n H fj] file_d(2) journal_chain_Some [of ?f H ps] unfolding w by blast
        obtain k dir'' where "open_declared_creating H fj m CopyOk TruncateOk s declared creation d = (Inr k, dir'')"
            "ej_records k = ej_records j" "journal_ready H fj dir'' k" "ej_format k = ?f"
          by (rule open_body [OF dec fmt nd stop file_d(1) ne])
        then show ?thesis by blast
      qed
      have ready': "journal_ready H fj d (appended j r p ?s)" if "ld_file d = Some (journal_body H ?f ps @ journal_frame p ?s)" for d
      proof -
        have "journal_reads H fj (ps @ [p]) (journal_body H (ej_format (appended j r p ?s)) (ps @ [p])) (appended j r p ?s)"
          using appended_reads [OF r fmt dec'] by simp
        moreover have "ld_file d = Some (journal_body H (ej_format (appended j r p ?s)) (ps @ [p]))" using that body' by simp
        ultimately show ?thesis using ready unfolding journal_ready_def by auto
      qed
      have wr: "journal_write_and_sync outcome p ?s dir = (case outcome of
          WriteOk \<Rightarrow> (Inr (), dir\<lparr>ld_file := Some (journal_body H ?f ps @ journal_frame p ?s)\<rparr>)
        | WriteFails k \<Rightarrow> (Inl (EngineIo ''write''), dir\<lparr>ld_file := Some (journal_body H ?f ps @ take k (journal_frame p ?s))\<rparr>)
        | SyncFails \<Rightarrow> (Inl (EngineIo ''sync''), dir\<lparr>ld_file := Some (journal_body H ?f ps @ journal_frame p ?s)\<rparr>))"
        using True f by (simp add: journal_write_and_sync_def not_less)
      have res: "journal_append H tj outcome r dir j = (case outcome of
          WriteOk \<Rightarrow> (Inr (length (ej_records j)), dir\<lparr>ld_file := Some (journal_body H ?f ps @ journal_frame p ?s)\<rparr>, appended j r p ?s)
        | WriteFails k \<Rightarrow> (Inl (EngineIo ''write''), dir\<lparr>ld_file := Some (journal_body H ?f ps @ take k (journal_frame p ?s))\<rparr>, j)
        | SyncFails \<Rightarrow> (Inl (EngineIo ''sync''), dir\<lparr>ld_file := Some (journal_body H ?f ps @ journal_frame p ?s)\<rparr>, j))"
        using go True wr by (cases outcome) simp_all
      show ?thesis
      proof (cases outcome)
        case WriteOk
        then show ?thesis using app whole [of dir'] ready' [of dir'] unfolding res by (auto simp: appended_def)
      next
        case (WriteFails k)
        then have d: "ld_file dir' = Some (journal_body H ?f ps @ take k (journal_frame p ?s))" "\<not> is_ok res"
          using app unfolding res by auto
        show ?thesis
        proof (cases "k < length (journal_frame p ?s)")
          case True
          then show ?thesis using part [OF d(1)] d(2) by blast
        next
          case False
          then show ?thesis using whole [of dir'] d by auto
        qed
      next
        case SyncFails
        then show ?thesis using app whole [of dir'] unfolding res by auto
      qed
    qed
  qed
qed

section \<open>Sample journals\<close>

definition sample_hash :: "bytes \<Rightarrow> cid" where
  "sample_hash = (\<lambda>_. zero_cid)"

definition sample_record :: journal_record where
  "sample_record = VerifyStartedRec zero_cid 5"

definition sample_tj :: "journal_record \<Rightarrow> string + bytes" where
  "sample_tj r = (if r = sample_record then Inr [0] else Inl ''other'')"

definition sample_fj :: "bytes \<Rightarrow> string + journal_record" where
  "sample_fj bs = (if bs = [0] then Inr sample_record else Inl ''other'')"

definition marked_dir :: ledger_dir where
  "marked_dir = \<lparr>ld_file = Some JOURNAL_MAGIC_V2, ld_torn = (\<lambda>_. None)\<rparr>"

lemma sample_journal_codec: "journal_codec_ok sample_tj sample_fj"
  by (simp add: journal_codec_ok_def sample_tj_def sample_fj_def)

lemma marked_body: "journal_body H ChainedV2 [] = JOURNAL_MAGIC_V2"
  by (simp add: journal_body_def marker_of_def)

definition marked_journal :: "bool \<Rightarrow> engine_journal" where
  "marked_journal read_only = journal_of sample_hash JOURNAL_MAGIC_V2 (journal_replay sample_hash sample_fj JOURNAL_MAGIC_V2) read_only None None"

lemma sample_decodes_Nil: "decodes fj [] []"
  by (simp add: decodes_def)

lemma marked_replay:
  "journal_replay sample_hash sample_fj JOURNAL_MAGIC_V2 =
    \<lparr>rr_records = [], rr_torn = 0, rr_good = 8, rr_tail = None, rr_format = ChainedV2, rr_chain = Some zero_cid, rr_break = None\<rparr>"
  using replay_body [OF sample_decodes_Nil, of ChainedV2 sample_hash sample_fj "[]"]
  by (simp add: marked_body journal_chain_def genesis_link_v2_def mint_def digest_def sample_hash_def)
    (simp add: JOURNAL_MAGIC_V2_def ascii_def)

lemma marked_journal_fields:
  "ej_records (marked_journal ro) = []" "ej_consumed (marked_journal ro) = 8" "ej_read_only (marked_journal ro) = ro"
  "ej_tail (marked_journal ro) = None" "ej_format (marked_journal ro) = ChainedV2" "ej_chain (marked_journal ro) = Some zero_cid"
  "ej_break (marked_journal ro) = None" "\<not> ej_downgraded (marked_journal ro)" "\<not> ej_newer (marked_journal ro)"
  using sniff_body(2) [OF sample_decodes_Nil, of ChainedV2 sample_hash "[]"]
  by (simp_all add: marked_journal_def journal_of_def marked_replay tail_record_of_def is_downgraded_def marked_body)

lemma marked_journal_reads: "journal_reads sample_hash sample_fj [] JOURNAL_MAGIC_V2 (marked_journal ro)"
  using sniff_body(1) [OF sample_decodes_Nil, of ChainedV2 sample_hash "[]"]
  by (simp add: journal_reads_def marked_journal_fields marked_body sample_decodes_Nil journal_tail_def journal_chain_def
      genesis_link_v2_def mint_def digest_def sample_hash_def)
    (simp add: JOURNAL_MAGIC_V2_def ascii_def)

lemma marked_journal_ready: "journal_ready sample_hash sample_fj marked_dir (marked_journal False)"
  using marked_journal_reads [of False]
  by (auto simp: journal_ready_def marked_journal_fields marked_dir_def marked_body intro!: exI [of _ "[]"])

theorem journal_append_crash_safe_witness:
  "\<exists>dir' j' k dir''. journal_append sample_hash sample_tj SyncFails sample_record marked_dir (marked_journal False)
      = (Inl (EngineIo ''sync''), dir', j')
    \<and> open_declared_creating sample_hash sample_fj WriteOk CopyOk TruncateOk True None Permitted dir' = (Inr k, dir'')
    \<and> journal_ready sample_hash sample_fj dir'' k"
proof -
  have enc: "cbor_encode sample_tj sample_record = Inr [0]"
    by (simp add: cbor_encode_def sample_tj_def scan_strict_zero)
  obtain dir' j' where app: "journal_append sample_hash sample_tj SyncFails sample_record marked_dir (marked_journal False)
      = (Inl (EngineIo ''sync''), dir', j')"
    using enc by (simp add: journal_append_def marked_journal_fields seal_def sample_record_def journal_write_and_sync_def
        JOURNAL_MAX_RECORD_BYTES_def push_bit_eq_mult marked_dir_def)
  have nd: "\<not> is_downgraded None (ej_format (marked_journal False))" by (simp add: is_downgraded_def)
  from journal_append_crash_safe [OF sample_journal_codec marked_journal_ready nd app, of WriteOk True Permitted] app
  show ?thesis by blast
qed

theorem catch_up_is_reopen_witness:
  "\<exists>j'. read_to_the_end sample_hash sample_fj False (marked_dir\<lparr>ld_file := Some (JOURNAL_MAGIC_V2 @ [7])\<rparr>) (marked_journal True)
    = (Inr [], j') \<and> ej_consumed j' = 8"
proof -
  let ?dir = "marked_dir\<lparr>ld_file := Some (JOURNAL_MAGIC_V2 @ [7])\<rparr>"
  have j: "open_read_only_declared sample_hash sample_fj None marked_dir = Inr (marked_journal True)"
    by (simp add: open_read_only_declared_def marked_dir_def marked_journal_def)
  have sn: "sniff_format (JOURNAL_MAGIC_V2 @ [7]) = sniff_format JOURNAL_MAGIC_V2"
    using sniff_body(1) [OF sample_decodes_Nil, of ChainedV2 sample_hash] marked_body by (metis append_Nil2 is_chained.simps(3))
  obtain k where k: "open_read_only_declared sample_hash sample_fj None ?dir = Inr k"
    by (simp add: open_read_only_declared_def)
  have rp: "journal_replay sample_hash sample_fj (JOURNAL_MAGIC_V2 @ [7]) =
    \<lparr>rr_records = [], rr_torn = 1, rr_good = 8, rr_tail = None, rr_format = ChainedV2, rr_chain = Some zero_cid, rr_break = None\<rparr>"
    using replay_body [OF sample_decodes_Nil, of ChainedV2 sample_hash sample_fj "[7]"]
    by (simp add: marked_body journal_chain_def genesis_link_v2_def mint_def digest_def sample_hash_def
        walk_loop.simps [of _ _ _ "[7]"] LENGTH_BYTES_def)
      (simp add: JOURNAL_MAGIC_V2_def ascii_def)
  have "ej_records k = []" "ej_consumed k = 8" using k by (auto simp: open_read_only_declared_def journal_of_def rp)
  with catch_up_is_reopen [OF j _ _ sn _ k, of False] show ?thesis
    by (simp add: marked_dir_def marked_journal_fields) metis
qed

theorem prefix_intact_detects_rewrite_witness:
  "prefix_intact sample_hash sample_fj marked_dir (marked_journal True)
    \<and> (take 8 JOURNAL_MAGIC_V2 = take 8 JOURNAL_MAGIC_V2
       \<or> (\<exists>format qs. take 8 JOURNAL_MAGIC_V2 = journal_body sample_hash format qs
            \<and> collision sample_hash (chain_inputs sample_hash ChainedV2 []) (chain_inputs sample_hash format qs)))"
proof -
  have "walk_links sample_hash JOURNAL_MAGIC_V2 = \<lparr>cw_head = Some zero_cid, cw_records = 0, cw_good = 8, cw_break_at = None\<rparr>"
    using sniff_body(1) [OF sample_decodes_Nil, of ChainedV2 sample_hash "[]"]
    by (simp add: walk_links_def marked_body genesis_link_v2_def mint_def digest_def sample_hash_def)
      (simp add: JOURNAL_MAGIC_V2_def JOURNAL_MAGIC_def ascii_def links_loop.simps [of _ "[]"] LENGTH_BYTES_def)
  moreover have "length JOURNAL_MAGIC_V2 = 8" by (simp add: JOURNAL_MAGIC_V2_def ascii_def)
  ultimately have i: "prefix_intact sample_hash sample_fj marked_dir (marked_journal True)"
    by (simp add: prefix_intact_def marked_journal_fields marked_dir_def)
  from prefix_intact_detects_rewrite [OF marked_journal_reads _ i, of JOURNAL_MAGIC_V2] i show ?thesis
    by (simp add: marked_journal_fields marked_dir_def)
qed

section \<open>What opening leaves alone\<close>

text \<open>
  Opening for writing loses nothing: the file keeps all its bytes, or loses only the bytes after
  the last whole record, and then a copy of the file lies beside it, unless there was already a file
  of that name, which is then kept. A file that a newer version
  wrote, that lost its declared chain or whose chain is broken is not touched at all, and no record
  can be appended to the journal opened from it.
\<close>

theorem open_keeps_the_journal:
  assumes f: "ld_file dir = Some bs" "bs \<noteq> []"
    and op: "open_declared_creating H fj m copy trunc s declared creation dir = (res, dir')"
  shows "(ld_file dir' = Some bs
      \<or> ld_file dir' = Some (take (rr_good (journal_replay H fj bs)) bs)
        \<and> (let name = (rr_good (journal_replay H fj bs), rr_good (journal_replay H fj bs) + rr_torn (journal_replay H fj bs))
           in ld_torn dir' name = (case ld_torn dir name of None \<Rightarrow> Some bs | Some old \<Rightarrow> Some old)))
    \<and> (is_downgraded declared (rr_format (journal_replay H fj bs)) \<or> framing_unknown bs \<or> rr_break (journal_replay H fj bs) \<noteq> None \<longrightarrow>
        dir' = dir \<and> (\<forall>j tj out r. res = Inr j \<longrightarrow> (\<exists>e. journal_append H tj out r dir' j = (Inl e, dir', j))))"
  using f(1) op open_bytes_file [OF f, of m declared]
  unfolding open_declared_creating_def
  by (auto simp: Let_def cut_torn_tail_def quarantine_torn_tail_def journal_append_def journal_of_def
      split: prod.splits sum.splits if_splits copy_outcome.splits truncate_outcome.splits)

theorem open_keeps_the_journal_witness:
  "\<exists>res dir'. open_declared_creating sample_hash sample_fj WriteOk CopyOk TruncateOk True (Some ChainedV2) Permitted
      (marked_dir\<lparr>ld_file := Some JOURNAL_MAGIC\<rparr>) = (res, dir') \<and> dir' = marked_dir\<lparr>ld_file := Some JOURNAL_MAGIC\<rparr>"
proof -
  let ?dir = "marked_dir\<lparr>ld_file := Some JOURNAL_MAGIC\<rparr>"
  obtain res dir' where op: "open_declared_creating sample_hash sample_fj WriteOk CopyOk TruncateOk True (Some ChainedV2) Permitted ?dir = (res, dir')"
    by fastforce
  have body: "JOURNAL_MAGIC = journal_body sample_hash Chained []" by (simp add: journal_body_def marker_of_def)
  have "rr_format (journal_replay sample_hash sample_fj JOURNAL_MAGIC) = Chained"
    using replay_body [OF sample_decodes_Nil, of Chained sample_hash sample_fj "[]"] by (simp flip: body)
  then have "is_downgraded (Some ChainedV2) (rr_format (journal_replay sample_hash sample_fj JOURNAL_MAGIC))"
    by (simp add: is_downgraded_def)
  with open_keeps_the_journal [OF _ magic_first(4) op] op show ?thesis by simp
qed

section \<open>A defect\<close>

text \<open>
  If the write of the format marker stops half way, the next opening takes the four bytes for the torn
  tail of an unmarked journal: it cuts them and goes on without a chain, although a new journal is
  to be chained. If the project declares a chained journal, the file counts as downgraded instead,
  and no record can ever be appended to it.
\<close>

theorem torn_marker_loses_the_chain:
  assumes crash: "open_declared_creating H fj (WriteFails 4) CopyOk TruncateOk True declared Permitted \<lparr>ld_file = None, ld_torn = (\<lambda>_. None)\<rparr>
      = (res, dir)" and declared: "declared = None \<or> declared = Some ChainedV2"
  shows "\<not> is_ok res
    \<and> (\<exists>j dir'. open_declared_creating H fj WriteOk CopyOk TruncateOk True declared Permitted dir = (Inr j, dir')
        \<and> ej_format j = Legacy \<and> ej_downgraded j = (declared \<noteq> None) \<and> (declared = None \<longrightarrow> ld_file dir' = Some []))"
proof -
  define b where "b = take 4 JOURNAL_MAGIC_V2"
  have m: "b = [0x47, 0x58, 0x4A, 0x52]" by (simp add: b_def JOURNAL_MAGIC_V2_def ascii_def)
  then have four: "length b = 4" by simp
  have dir: "dir = \<lparr>ld_file = Some b, ld_torn = (\<lambda>_. None)\<rparr>" and res: "\<not> is_ok res"
    using crash declared by (auto simp: open_declared_creating_def open_bytes_def write_marker_def b_def)
  have sn: "sniff_format b = (Legacy, 0)" "\<not> framing_unknown b"
    by (simp_all add: m sniff_format_def framing_unknown_def starts_with_def JOURNAL_MAGIC_def JOURNAL_MAGIC_V2_def ascii_def)
  have big: "be_nat (take LENGTH_BYTES b) > JOURNAL_MAX_RECORD_BYTES"
    by (simp add: m LENGTH_BYTES_def JOURNAL_MAX_RECORD_BYTES_def push_bit_eq_mult be_nat_def)
  have "walk_loop H fj False b st = st" for st
    using big by (simp add: walk_loop.simps [of H fj False b] Let_def)
  then have rp: "journal_replay H fj b = \<lparr>rr_records = [], rr_torn = 4, rr_good = 0, rr_tail = None, rr_format = Legacy,
      rr_chain = None, rr_break = None\<rparr>"
    using sn by (simp add: journal_replay_def walk_def Let_def four)
  have "open_bytes WriteOk declared dir = (Inr b, dir)" by (rule open_bytes_file) (simp_all add: dir m)
  then show ?thesis
    using res declared sn(2) unfolding open_declared_creating_def
    by (auto simp: dir rp Let_def is_downgraded_def cut_torn_tail_def quarantine_torn_tail_def journal_of_def)
qed

end
