(* ===== verification/Blob_Store.thy ===== *)
theory Blob_Store
  imports Engine_Journal Log_Head
begin

text \<open>
  The content addressed stores of the engine: \<open>BlobStore\<close> and \<open>ObservationStore\<close> of
  \<open>src/crates/gx-engine/src/store.rs\<close> with \<open>write_atomically\<close>, the deltas of
  \<open>src/crates/gx-substrate/src/delta.rs\<close> they keep, and the escrowed inverses rebuilt from a row of
  the journal and a body of the store. A directory maps file names to contents. What the operating
  system answers (a write that stops after some bytes, a failing sync, rename or removal) is an
  argument of each operation; a crash is an operation that stops there and removes nothing.
\<close>

section \<open>Deltas\<close>

datatype substrate_error =
    SubstrateCore core_error
  | Unreadable string
  | NotPlannable
  | ApplyFailed
  | ForeignDelta substrate_kind substrate_kind
  | LocatorMismatch string string
  | NotAPosition string string
  | PayloadUnreadable
  | NotDigestible
  | Unimplemented string

record planned_delta =
  pd_substrate :: substrate_kind
  pd_payload :: bytes
  pd_reference :: delta_ref
  pd_promised_target :: "cid option"

record planned_delta_view =
  pv_substrate :: substrate_kind
  pv_payload :: bytes

definition delta_identity_view :: "planned_delta \<Rightarrow> planned_delta_view" where
  "delta_identity_view d = \<lparr>pv_substrate = pd_substrate d, pv_payload = pd_payload d\<rparr>"

definition new_planned_delta ::
  "(bytes \<Rightarrow> cid) \<Rightarrow> (planned_delta_view \<Rightarrow> string + bytes) \<Rightarrow> substrate_kind \<Rightarrow> bytes \<Rightarrow> substrate_error + planned_delta" where
  "new_planned_delta H tv substrate payload =
     (let delta = \<lparr>pd_substrate = substrate, pd_payload = payload,
            pd_reference = \<lparr>delta_substrate = substrate, delta_cid = zero_cid\<rparr>, pd_promised_target = None\<rparr>
      in and_then (map_err (\<lambda>_. NotDigestible) (cid_compute H tv delta_identity_view delta))
           (\<lambda>c. Inr (delta\<lparr>pd_reference := \<lparr>delta_substrate = substrate, delta_cid = c\<rparr>\<rparr>)))"

definition with_promised_target :: "cid \<Rightarrow> planned_delta \<Rightarrow> planned_delta" where
  "with_promised_target target d = d\<lparr>pd_promised_target := Some target\<rparr>"

section \<open>Replacing a file\<close>

type_synonym file_name = bytes
type_synonym file_dir = "file_name \<Rightarrow> bytes option"

datatype atomic_outcome =
    AtomicDone
  | AtomicCreateFails
  | AtomicWriteFails nat
  | AtomicSyncFails
  | AtomicRenameFails
  | AtomicDirSyncFails

text \<open>What the system answers during a \<open>put\<close>: whether a file that is there can be read, how the
  replacement goes, whether the temporary file can be removed after a failure, and the process id.\<close>

record put_env =
  pe_pid :: bytes
  pe_readable :: bool
  pe_outcome :: atomic_outcome
  pe_removed :: bool

definition temp_name :: "bytes \<Rightarrow> file_name \<Rightarrow> file_name" where
  "temp_name pid path = path @ ascii ''.tmp.'' @ pid"

definition write_atomically :: "put_env \<Rightarrow> file_name \<Rightarrow> bytes \<Rightarrow> file_dir \<Rightarrow> (engine_error + unit) \<times> file_dir" where
  "write_atomically env path bs dir =
     (let temp = temp_name (pe_pid env) path;
          clean = (\<lambda>d. if pe_removed env then d(temp := None) else d)
      in case pe_outcome env of
           AtomicCreateFails \<Rightarrow> (Inl (EngineIo ''write''), clean dir)
         | AtomicWriteFails k \<Rightarrow> (Inl (EngineIo ''write''), clean (dir(temp \<mapsto> take k bs)))
         | AtomicSyncFails \<Rightarrow> (Inl (EngineIo ''write''), clean (dir(temp \<mapsto> bs)))
         | AtomicRenameFails \<Rightarrow> (Inl (EngineIo ''write''), clean (dir(temp \<mapsto> bs)))
         | AtomicDirSyncFails \<Rightarrow> (Inl (EngineIo ''directory''), dir(temp := None, path \<mapsto> bs))
         | AtomicDone \<Rightarrow> (Inr (), dir(temp := None, path \<mapsto> bs)))"

datatype put_outcome = Stored | AlreadyPresent

datatype read_outcome = ReadOk | StatFails | ReadFails

section \<open>Blobs\<close>

definition MAX_BLOB_BYTES :: nat where
  "MAX_BLOB_BYTES = push_bit 20 1"

record blob_record =
  br_payload :: bytes
  br_substrate :: substrate_kind

definition blob_path :: "cid \<Rightarrow> file_name" where
  "blob_path c = to_hex c @ ascii ''.blob''"

definition blob_put ::
  "(planned_delta_view \<Rightarrow> string + bytes) \<Rightarrow> put_env \<Rightarrow> planned_delta \<Rightarrow> file_dir \<Rightarrow> (engine_error + cid \<times> put_outcome) \<times> file_dir" where
  "blob_put tv env delta dir =
     (let c = delta_cid (pd_reference delta); path = blob_path c in
      case cbor_encode tv (delta_identity_view delta) of
        Inl e \<Rightarrow> (Inl (EngineCanon e), dir)
      | Inr bs \<Rightarrow>
          if length bs > MAX_BLOB_BYTES then (Inl EngineMalformed, dir)
          else if pe_readable env \<and> dir path = Some bs then (Inr (c, AlreadyPresent), dir)
          else (case write_atomically env path bs dir of
                  (Inl e, dir) \<Rightarrow> (Inl e, dir)
                | (Inr _, dir) \<Rightarrow> (Inr (c, Stored), dir)))"

definition blob_get ::
  "(bytes \<Rightarrow> cid) \<Rightarrow> (planned_delta_view \<Rightarrow> string + bytes) \<Rightarrow> (bytes \<Rightarrow> string + blob_record) \<Rightarrow> read_outcome
    \<Rightarrow> file_dir \<Rightarrow> cid \<Rightarrow> engine_error + planned_delta" where
  "blob_get H tv fv outcome dir c =
     (case dir (blob_path c) of
        None \<Rightarrow> Inl (NotFound ''blob'')
      | Some bs \<Rightarrow>
          if outcome = StatFails then Inl (EngineIo ''stat'')
          else if length bs > MAX_BLOB_BYTES then Inl EngineMalformed
          else if outcome = ReadFails then Inl (EngineIo ''read'')
          else and_then (map_err EngineCanon (cbor_decode fv bs)) (\<lambda>r.
               and_then (map_err (\<lambda>_. EngineMalformed) (new_planned_delta H tv (br_substrate r) (br_payload r))) (\<lambda>delta.
               if delta_cid (pd_reference delta) \<noteq> c then Inl EngineMalformed else Inr delta)))"

definition blob_contains :: "file_dir \<Rightarrow> cid \<Rightarrow> bool" where
  "blob_contains dir c \<longleftrightarrow> dir (blob_path c) \<noteq> None"

definition holds_body ::
  "(bytes \<Rightarrow> cid) \<Rightarrow> (planned_delta_view \<Rightarrow> string + bytes) \<Rightarrow> (bytes \<Rightarrow> string + blob_record) \<Rightarrow> file_dir \<Rightarrow> cid \<Rightarrow> bool" where
  "holds_body H tv fv dir c \<longleftrightarrow> is_ok (blob_get H tv fv ReadOk dir c)"

text \<open>
  \<open>Path::extension\<close> and \<open>Path::file_stem\<close>: the name is cut at its last dot, unless nothing stands
  before it. A directory listing, in the order the system gives it, is an argument.
\<close>

definition split_extension :: "file_name \<Rightarrow> bytes \<times> bytes option" where
  "split_extension name =
     (let dot = of_char CHR ''.'';
          ext = takeWhile (\<lambda>b. b \<noteq> dot) (rev name);
          before = drop (Suc (length ext)) (rev name)
      in if dot \<notin> set name \<or> before = [] \<or> name = [dot, dot] then (name, None) else (rev before, Some (rev ext)))"

definition is_blob_name :: "file_name \<Rightarrow> bool" where
  "is_blob_name name \<longleftrightarrow> snd (split_extension name) = Some (ascii ''blob'')"

definition unreadable_bodies ::
  "(bytes \<Rightarrow> cid) \<Rightarrow> (planned_delta_view \<Rightarrow> string + bytes) \<Rightarrow> (bytes \<Rightarrow> string + blob_record)
    \<Rightarrow> file_name list option \<Rightarrow> file_dir \<Rightarrow> bytes list" where
  "unreadable_bodies H tv fv listing dir =
     (case listing of
        None \<Rightarrow> []
      | Some entries \<Rightarrow>
          sort (filter (\<lambda>stem. case from_hex stem of Some c \<Rightarrow> \<not> holds_body H tv fv dir c | None \<Rightarrow> True)
             (filter utf8_valid (map (fst \<circ> split_extension) (filter is_blob_name entries)))))"

definition is_staging_name :: "file_name \<Rightarrow> bool" where
  "is_staging_name name \<longleftrightarrow> (\<exists>k \<le> length name. starts_with (ascii ''.blob.tmp.'') (drop k name))"

definition staging_residue :: "file_name list option \<Rightarrow> file_name list" where
  "staging_residue listing = (case listing of None \<Rightarrow> [] | Some entries \<Rightarrow> sort (filter is_staging_name (filter utf8_valid entries)))"

definition sweep_staging :: "(file_name \<Rightarrow> bool) \<Rightarrow> file_name list option \<Rightarrow> file_dir \<Rightarrow> file_name list \<times> file_dir" where
  "sweep_staging removable listing dir =
     (let swept = filter removable (staging_residue listing)
      in (swept, \<lambda>name. if name \<in> set swept then None else dir name))"

section \<open>Observations\<close>

definition MAX_OBSERVATION_BYTES :: nat where
  "MAX_OBSERVATION_BYTES = push_bit 20 1"

definition observation_path :: "cid \<Rightarrow> file_name" where
  "observation_path c = to_hex c @ ascii ''.obs''"

definition observation_address :: "(bytes \<Rightarrow> cid) \<Rightarrow> bytes \<Rightarrow> cid" where
  "observation_address H bs = mint H Leaf [bs]"

definition observation_put ::
  "(bytes \<Rightarrow> cid) \<Rightarrow> put_env \<Rightarrow> bytes \<Rightarrow> file_dir \<Rightarrow> (engine_error + cid \<times> put_outcome) \<times> file_dir" where
  "observation_put H env bs dir =
     (if length bs > MAX_OBSERVATION_BYTES then (Inl EngineMalformed, dir)
      else
        (let c = observation_address H bs; path = observation_path c in
         if pe_readable env \<and> dir path = Some bs then (Inr (c, AlreadyPresent), dir)
         else (case write_atomically env path bs dir of
                 (Inl e, dir) \<Rightarrow> (Inl e, dir)
               | (Inr _, dir) \<Rightarrow> (Inr (c, Stored), dir))))"

definition observation_get :: "(bytes \<Rightarrow> cid) \<Rightarrow> read_outcome \<Rightarrow> file_dir \<Rightarrow> cid \<Rightarrow> engine_error + bytes" where
  "observation_get H outcome dir c =
     (case dir (observation_path c) of
        None \<Rightarrow> Inl (NotFound ''observation'')
      | Some bs \<Rightarrow>
          if outcome = StatFails then Inl (EngineIo ''stat'')
          else if length bs > MAX_OBSERVATION_BYTES then Inl EngineMalformed
          else if outcome = ReadFails then Inl (EngineIo ''read'')
          else if observation_address H bs \<noteq> c then Inl EngineMalformed
          else Inr bs)"

section \<open>Escrowed inverses\<close>

record escrowed_inverse =
  ei_transformation :: transformation_id
  ei_inverse_delta :: "planned_delta option"
  ei_retained_until :: "timestamp option"
  ei_status :: inverse_status

definition escrow_held :: "transformation_id \<Rightarrow> planned_delta \<Rightarrow> timestamp option \<Rightarrow> escrowed_inverse" where
  "escrow_held t delta retained =
     \<lparr>ei_transformation = t, ei_inverse_delta = Some delta, ei_retained_until = retained, ei_status = Available\<rparr>"

definition escrow_unavailable :: "transformation_id \<Rightarrow> escrowed_inverse" where
  "escrow_unavailable t = \<lparr>ei_transformation = t, ei_inverse_delta = None, ei_retained_until = None, ei_status = Unavailable\<rparr>"

definition escrow_restore ::
  "transformation_id \<Rightarrow> planned_delta option \<Rightarrow> timestamp option \<Rightarrow> inverse_status \<Rightarrow> engine_error + escrowed_inverse" where
  "escrow_restore t delta retained status =
     (if (status = Unavailable) \<noteq> (delta = None) then Inl InconsistentEscrow
      else Inr \<lparr>ei_transformation = t, ei_inverse_delta = delta, ei_retained_until = retained, ei_status = status\<rparr>)"

definition escrowed ::
  "(bytes \<Rightarrow> cid) \<Rightarrow> (planned_delta_view \<Rightarrow> string + bytes) \<Rightarrow> (bytes \<Rightarrow> string + blob_record) \<Rightarrow> read_outcome
    \<Rightarrow> file_dir \<Rightarrow> escrow_row \<Rightarrow> engine_error + escrowed_inverse" where
  "escrowed H tv fv outcome dir row =
     and_then (case er_inverse_cid row of
                 Some c \<Rightarrow> and_then (blob_get H tv fv outcome dir c) (\<lambda>d. Inr (Some d))
               | None \<Rightarrow> Inr None)
       (\<lambda>body. escrow_restore (er_transformation row) body (er_retained_until row) (er_status row))"

section \<open>Content addressed stores\<close>

text \<open>
  What the two stores have in common. \<open>spell\<close> gives the contents of the file of a value (none when
  the store refuses it), \<open>preimage\<close> the bytes its address is the hash of, and \<open>norm\<close> forgets what is
  not written down. The laws say how a \<open>put\<close> goes through the replacement of a file, that \<open>get\<close> looks
  at one file only and finds a value that is spelled there, and that the values \<open>get\<close> returns have
  the address asked for.
\<close>

definition attempts :: "(put_env \<Rightarrow> 'v \<Rightarrow> file_dir \<Rightarrow> 'r \<times> file_dir) \<Rightarrow> (put_env \<times> 'v) list \<Rightarrow> file_dir \<Rightarrow> file_dir" where
  "attempts put ps dir = fold (\<lambda>(env, v) dir. snd (put env v dir)) ps dir"

locale content_store =
  fixes H :: "bytes \<Rightarrow> cid"
    and valid :: "'v \<Rightarrow> bool"
    and spell :: "'v \<Rightarrow> bytes option"
    and preimage :: "'v \<Rightarrow> bytes"
    and norm :: "'v \<Rightarrow> 'v"
    and path :: "cid \<Rightarrow> file_name"
    and put :: "put_env \<Rightarrow> 'v \<Rightarrow> file_dir \<Rightarrow> (engine_error + cid \<times> put_outcome) \<times> file_dir"
    and get :: "read_outcome \<Rightarrow> file_dir \<Rightarrow> cid \<Rightarrow> engine_error + 'v"
  assumes path_eq: "path c = path c' \<longleftrightarrow> c = c'"
    and path_length: "length (path c) = length (path c')"
    and preimage_norm: "valid v \<Longrightarrow> valid w \<Longrightarrow> preimage v = preimage w \<Longrightarrow> norm v = norm w"
    and spell_norm: "norm v = norm w \<Longrightarrow> spell v = spell w"
    and put_refused: "valid v \<Longrightarrow> spell v = None \<Longrightarrow> put env v dir = (Inl EngineMalformed, dir)"
    and put_spelled: "valid v \<Longrightarrow> spell v = Some bs \<Longrightarrow> put env v dir =
      (if pe_readable env \<and> dir (path (H (preimage v))) = Some bs then (Inr (H (preimage v), AlreadyPresent), dir)
       else case write_atomically env (path (H (preimage v))) bs dir of
           (Inl e, dir) \<Rightarrow> (Inl e, dir)
         | (Inr _, dir) \<Rightarrow> (Inr (H (preimage v), Stored), dir))"
    and get_local: "dir (path c) = dir' (path c) \<Longrightarrow> get ro dir c = get ro dir' c"
    and get_spelled: "valid v \<Longrightarrow> spell v = Some bs \<Longrightarrow> dir (path (H (preimage v))) = Some bs \<Longrightarrow>
      get ReadOk dir (H (preimage v)) = Inr (norm v)"
    and get_sound: "get ro dir c = Inr v \<Longrightarrow> H (preimage v) = c"
begin

lemma path_not_temp: "path c \<noteq> temp_name pid (path c')"
proof
  assume "path c = temp_name pid (path c')"
  then have "length (path c) = length (path c') + length (ascii ''.tmp.'' @ pid)" by (simp add: temp_name_def)
  with path_length [of c c'] show False by (simp add: ascii_def)
qed

text \<open>Whatever happens during a \<open>put\<close>, the file of any address is as before, or it is the file of
  the value put and spells it.\<close>

lemma put_file:
  assumes "valid v" "put env v dir = (res, dir')"
  shows "dir' (path c) = dir (path c) \<or> c = H (preimage v) \<and> spell v \<noteq> None \<and> dir' (path c) = spell v"
proof (cases "spell v")
  case None
  with assms show ?thesis by (simp add: put_refused)
next
  case (Some bs)
  from assms(2) show ?thesis
    unfolding put_spelled [OF assms(1) Some]
    by (auto simp: Some write_atomically_def Let_def path_eq path_not_temp split: if_splits atomic_outcome.splits)
qed

lemma put_acknowledged:
  assumes "valid v" "put env v dir = (Inr (c, o'), dir')"
  shows "c = H (preimage v) \<and> spell v \<noteq> None \<and> dir' (path c) = spell v"
proof (cases "spell v")
  case None
  with assms show ?thesis by (simp add: put_refused)
next
  case (Some bs)
  from assms(2) show ?thesis
    unfolding put_spelled [OF assms(1) Some]
    by (auto simp: Some write_atomically_def Let_def path_eq path_not_temp split: if_splits atomic_outcome.splits)
qed

lemma get_put: "valid v \<Longrightarrow> put env v dir = (Inr (c, o'), dir') \<Longrightarrow> get ReadOk dir' c = Inr (norm v)"
  using put_acknowledged get_spelled by (metis not_None_eq)

text \<open>A body that is there stays there: no attempt to put another one, successful or not, takes it
  away, unless the two have one address and different preimages.\<close>

lemma spelled_persists:
  assumes "valid v" "spell v = Some bs" "dir (path (H (preimage v))) = Some bs" "\<forall>(env, w) \<in> set ps. valid w"
  shows "attempts put ps dir (path (H (preimage v))) = Some bs
    \<or> (\<exists>(env, w) \<in> set ps. preimage w \<noteq> preimage v \<and> H (preimage w) = H (preimage v))"
  using assms(3,4)
proof (induction ps arbitrary: dir)
  case (Cons p ps)
  obtain env w where p: "p = (env, w)" by (cases p)
  with Cons.prems have w: "valid w" by simp
  obtain res dir' where put: "put env w dir = (res, dir')" by (cases "put env w dir")
  from put_file [OF w put, of "H (preimage v)"] Cons.prems(1)
  have "dir' (path (H (preimage v))) = Some bs \<or> preimage w \<noteq> preimage v \<and> H (preimage w) = H (preimage v)"
    using preimage_norm [OF assms(1) w] spell_norm [of v w] assms(2) by metis
  then show ?case
  proof
    assume "dir' (path (H (preimage v))) = Some bs"
    from Cons.IH [of dir', OF this] Cons.prems(2) show ?thesis by (auto simp: attempts_def p put)
  qed (auto simp: p)
qed (simp add: attempts_def)

lemma acknowledged_persists:
  assumes "valid v" "put env v dir = (Inr (c, o'), dir')" "\<forall>(env, w) \<in> set ps. valid w"
  shows "get ReadOk (attempts put ps dir') c = Inr (norm v)
    \<or> (\<exists>(env, w) \<in> set ps. preimage w \<noteq> preimage v \<and> H (preimage w) = H (preimage v))"
proof -
  from put_acknowledged [OF assms(1,2)] obtain bs where
    c: "c = H (preimage v)" and bs: "spell v = Some bs" and at: "dir' (path (H (preimage v))) = Some bs" by auto
  from spelled_persists [OF assms(1) bs, of dir', OF at assms(3)] get_spelled [OF assms(1) bs] c
  show ?thesis by blast
qed

end

text \<open>
  Deltas as the stores meet them: built by \<open>new_planned_delta\<close>, possibly with a promised target added
  later, and with an encoding the decoder reads back.
\<close>

definition delta_readable ::
  "(bytes \<Rightarrow> cid) \<Rightarrow> (planned_delta_view \<Rightarrow> string + bytes) \<Rightarrow> (bytes \<Rightarrow> string + blob_record) \<Rightarrow> planned_delta \<Rightarrow> bool" where
  "delta_readable H tv fv d \<longleftrightarrow>
     new_planned_delta H tv (pd_substrate d) (pd_payload d) = Inr (d\<lparr>pd_promised_target := None\<rparr>)
     \<and> (\<forall>bs. tv (delta_identity_view d) = Inr bs \<longrightarrow> fv bs = Inr \<lparr>br_payload = pd_payload d, br_substrate = pd_substrate d\<rparr>)"

definition delta_bytes :: "(planned_delta_view \<Rightarrow> string + bytes) \<Rightarrow> planned_delta \<Rightarrow> bytes" where
  "delta_bytes tv d = (case cbor_encode tv (delta_identity_view d) of Inr bs \<Rightarrow> bs | Inl _ \<Rightarrow> [])"

definition delta_spell :: "(planned_delta_view \<Rightarrow> string + bytes) \<Rightarrow> planned_delta \<Rightarrow> bytes option" where
  "delta_spell tv d = (if length (delta_bytes tv d) \<le> MAX_BLOB_BYTES then Some (delta_bytes tv d) else None)"

lemma new_planned_delta_ok:
  "new_planned_delta H tv s p = Inr d \<longleftrightarrow>
     (\<exists>bs. cbor_encode tv \<lparr>pv_substrate = s, pv_payload = p\<rparr> = Inr bs
        \<and> d = \<lparr>pd_substrate = s, pd_payload = p, pd_reference = \<lparr>delta_substrate = s, delta_cid = H bs\<rparr>, pd_promised_target = None\<rparr>)"
  by (auto simp: new_planned_delta_def Let_def and_then_eq_Inr cid_compute_def delta_identity_view_def digest_def)

lemma new_delta_readable:
  assumes "new_planned_delta H tv s p = Inr d"
    "\<And>bs. tv \<lparr>pv_substrate = s, pv_payload = p\<rparr> = Inr bs \<Longrightarrow> fv bs = Inr \<lparr>br_payload = p, br_substrate = s\<rparr>"
  shows "delta_readable H tv fv d" "delta_readable H tv fv (with_promised_target c d)"
  using assms by (auto simp: delta_readable_def new_planned_delta_ok delta_identity_view_def with_promised_target_def)

lemma delta_readable_bytes:
  assumes "delta_readable H tv fv d"
  shows "cbor_encode tv (delta_identity_view d) = Inr (delta_bytes tv d)"
    "delta_cid (pd_reference d) = H (delta_bytes tv d)"
    "cbor_decode fv (delta_bytes tv d) = Inr \<lparr>br_payload = pd_payload d, br_substrate = pd_substrate d\<rparr>"
proof -
  obtain bs where bs: "cbor_encode tv (delta_identity_view d) = Inr bs" and r: "delta_cid (pd_reference d) = H bs"
    using assms by (auto simp: delta_readable_def new_planned_delta_ok delta_identity_view_def
        dest: arg_cong [where f = pd_reference])
  moreover have "cbor_decode fv bs = Inr \<lparr>br_payload = pd_payload d, br_substrate = pd_substrate d\<rparr>"
    using assms bs by (intro cbor_decode_encoded [OF bs]) (auto simp: delta_readable_def cbor_encode_ok)
  ultimately show "cbor_encode tv (delta_identity_view d) = Inr (delta_bytes tv d)"
    "delta_cid (pd_reference d) = H (delta_bytes tv d)"
    "cbor_decode fv (delta_bytes tv d) = Inr \<lparr>br_payload = pd_payload d, br_substrate = pd_substrate d\<rparr>"
    by (simp_all add: delta_bytes_def)
qed

lemma to_hex_inject: "to_hex c = to_hex c' \<longleftrightarrow> c = c'"
  by (metis from_hex_to_hex option.inject)

lemma delta_bytes_norm:
  assumes "d\<lparr>pd_promised_target := None\<rparr> = e\<lparr>pd_promised_target := None\<rparr>"
  shows "delta_bytes tv d = delta_bytes tv e"
proof -
  have "pd_substrate d = pd_substrate e" "pd_payload d = pd_payload e"
    using arg_cong [OF assms, of pd_substrate] arg_cong [OF assms, of pd_payload] by simp_all
  then show ?thesis by (simp add: delta_bytes_def delta_identity_view_def)
qed

interpretation blobs: content_store H "delta_readable H tv fv" "delta_spell tv" "delta_bytes tv"
    "\<lambda>d. d\<lparr>pd_promised_target := None\<rparr>" blob_path "blob_put tv" "blob_get H tv fv"
  for H tv fv
proof
  fix v w assume v: "delta_readable H tv fv v" and w: "delta_readable H tv fv w" and e: "delta_bytes tv v = delta_bytes tv w"
  with delta_readable_bytes(3) [OF v] delta_readable_bytes(3) [OF w]
  have "pd_payload v = pd_payload w" "pd_substrate v = pd_substrate w" by simp_all
  then show "v\<lparr>pd_promised_target := None\<rparr> = w\<lparr>pd_promised_target := None\<rparr>"
    using v w by (simp add: delta_readable_def)
next
  fix v dir bs ro and env assume v: "delta_readable H tv fv v"
  note b = delta_readable_bytes [OF v]
  show "delta_spell tv v = None \<Longrightarrow> blob_put tv env v dir = (Inl EngineMalformed, dir)"
    by (simp add: blob_put_def b Let_def delta_spell_def split: if_splits)
  assume s: "delta_spell tv v = Some bs"
  then have len: "bs = delta_bytes tv v" "length (delta_bytes tv v) \<le> MAX_BLOB_BYTES"
    by (auto simp: delta_spell_def split: if_splits)
  then show "blob_put tv env v dir =
      (if pe_readable env \<and> dir (blob_path (H (delta_bytes tv v))) = Some bs then (Inr (H (delta_bytes tv v), AlreadyPresent), dir)
       else case write_atomically env (blob_path (H (delta_bytes tv v))) bs dir of
           (Inl e, dir) \<Rightarrow> (Inl e, dir)
         | (Inr _, dir) \<Rightarrow> (Inr (H (delta_bytes tv v), Stored), dir))"
    by (simp add: blob_put_def b Let_def)
  assume "dir (blob_path (H (delta_bytes tv v))) = Some bs"
  moreover have "new_planned_delta H tv (pd_substrate v) (pd_payload v) = Inr (v\<lparr>pd_promised_target := None\<rparr>)"
    using v by (simp add: delta_readable_def)
  ultimately show "blob_get H tv fv ReadOk dir (H (delta_bytes tv v)) = Inr (v\<lparr>pd_promised_target := None\<rparr>)"
    using len b by (simp add: blob_get_def)
next
  fix ro dir c v assume "blob_get H tv fv ro dir c = Inr v"
  then obtain r :: blob_record where "new_planned_delta H tv (br_substrate r) (br_payload r) = Inr v" "delta_cid (pd_reference v) = c"
    by (auto simp: blob_get_def and_then_eq_Inr split: option.splits if_splits)
  then show "H (delta_bytes tv v) = c"
    by (auto simp: new_planned_delta_ok delta_bytes_def delta_identity_view_def)
next
  fix v w :: planned_delta assume "v\<lparr>pd_promised_target := None\<rparr> = w\<lparr>pd_promised_target := None\<rparr>"
  then have "delta_bytes tv v = delta_bytes tv w" by (rule delta_bytes_norm)
  then show "delta_spell tv v = delta_spell tv w" by (simp add: delta_spell_def)
qed (simp_all add: blob_path_def to_hex_inject blob_get_def)

interpretation observations: content_store H "\<lambda>_. True" "\<lambda>bs. if length bs \<le> MAX_OBSERVATION_BYTES then Some bs else None"
    "\<lambda>bs. domain_byte Leaf # bs" "\<lambda>bs. bs" observation_path "observation_put H" "observation_get H"
  for H
  by unfold_locales
    (auto simp: observation_path_def to_hex_inject observation_put_def observation_get_def observation_address_def
      mint_def digest_def Let_def split: if_splits option.splits prod.splits sum.splits)

section \<open>What the stores promise\<close>

text \<open>
  C32. A delta whose storing was acknowledged can be read back, whatever is attempted afterwards. For deltas
  that the codec can write and read back, and for a disk that answers the final read: after
  any sequence of further attempts to store deltas, each of which may fail or be cut off at any step,
  reading the acknowledged address gives the delta (without its promised target, which is not
  written), unless one of them has different bytes with the same hash.
\<close>

theorem blob_put_durable:
  assumes "delta_readable H tv fv d" and "blob_put tv env d dir = (Inr (c, outcome), dir')"
    and "\<forall>(env, e) \<in> set later. delta_readable H tv fv e"
  shows "blob_get H tv fv ReadOk (attempts (blob_put tv) later dir') c = Inr (d\<lparr>pd_promised_target := None\<rparr>)
    \<or> (\<exists>(env, e) \<in> set later. delta_bytes tv e \<noteq> delta_bytes tv d \<and> H (delta_bytes tv e) = H (delta_bytes tv d))"
  by (rule blobs.acknowledged_persists [OF assms])

text \<open>The same for observations, where the domain byte of a leaf is hashed too.\<close>

lemma observation_put_durable:
  assumes "observation_put H env bs dir = (Inr (c, outcome), dir')"
  shows "observation_get H ReadOk (attempts (observation_put H) later dir') c = Inr bs
    \<or> (\<exists>(env, e) \<in> set later. e \<noteq> bs \<and> H (domain_byte Leaf # e) = H (domain_byte Leaf # bs))"
  using observations.acknowledged_persists [OF TrueI assms, of later] by auto

definition sample_tv :: "planned_delta_view \<Rightarrow> string + bytes" where
  "sample_tv v = (if v = \<lparr>pv_substrate = Fs, pv_payload = []\<rparr> then Inr [0xa1, 0x61, 0x61, 0x01] else Inl [])"

definition sample_fv :: "bytes \<Rightarrow> string + blob_record" where
  "sample_fv bs = (if bs = [0xa1, 0x61, 0x61, 0x01] then Inr \<lparr>br_payload = [], br_substrate = Fs\<rparr> else Inl [])"

definition sample_delta :: planned_delta where
  "sample_delta = \<lparr>pd_substrate = Fs, pd_payload = [], pd_reference = \<lparr>delta_substrate = Fs, delta_cid = zero_cid\<rparr>,
     pd_promised_target = None\<rparr>"

definition sample_env :: put_env where
  "sample_env = \<lparr>pe_pid = [], pe_readable = True, pe_outcome = AtomicDone, pe_removed = True\<rparr>"

lemma sample_encodes: "cbor_encode sample_tv \<lparr>pv_substrate = Fs, pv_payload = []\<rparr> = Inr [0xa1, 0x61, 0x61, 0x01]"
proof -
  have "scan_strict [0xa1, 0x61, 0x61, 0x01] = Inr ()"
    using scan_strict_iff [of "[0xa1, 0x61, 0x61, 0x01]", THEN iffD2, OF _ exI, OF _ conjI, OF _ example_map(2,1)] by simp
  then show ?thesis by (simp add: cbor_encode_ok sample_tv_def)
qed

lemma sample_delta_readable: "delta_readable sample_hash sample_tv sample_fv sample_delta"
  by (simp add: delta_readable_def new_planned_delta_ok sample_encodes sample_delta_def sample_hash_def)
    (simp add: sample_tv_def sample_fv_def delta_identity_view_def)

theorem blob_put_durable_witness:
  "\<exists>dir'. blob_put sample_tv sample_env sample_delta (\<lambda>_. None) = (Inr (zero_cid, Stored), dir')
     \<and> blob_get sample_hash sample_tv sample_fv ReadOk
         (attempts (blob_put sample_tv) [(sample_env\<lparr>pe_outcome := AtomicWriteFails 2\<rparr>, sample_delta)] dir') zero_cid
       = Inr sample_delta"
proof -
  have "blob_put sample_tv sample_env sample_delta (\<lambda>_. None)
      = (Inr (zero_cid, Stored), (\<lambda>_. None)(temp_name [] (blob_path zero_cid) := None, blob_path zero_cid \<mapsto> [0xa1, 0x61, 0x61, 0x01]))"
    by (simp add: blob_put_def sample_delta_def delta_identity_view_def sample_encodes MAX_BLOB_BYTES_def
        push_bit_eq_mult write_atomically_def sample_env_def)
  from this blob_put_durable [OF sample_delta_readable this, of "[(sample_env\<lparr>pe_outcome := AtomicWriteFails 2\<rparr>, sample_delta)]"]
  show ?thesis using sample_delta_readable by (auto simp: sample_delta_def)
qed

section \<open>Housekeeping\<close>

lemma hex_char_not_dot: "v < 16 \<Longrightarrow> hex_char v \<noteq> of_char CHR ''.''"
proof -
  have "\<forall>v \<in> set [0..<16]. hex_char v \<noteq> of_char CHR ''.''" by (simp add: hex_char_def ascii_def upt_rec)
  then show "v < 16 \<Longrightarrow> hex_char v \<noteq> of_char CHR ''.''" by simp
qed

lemma to_hex_no_dot: "of_char CHR ''.'' \<notin> set (to_hex c)"
proof -
  have "unat b div 16 < 16" for b :: byte using unat_byte_bound [of b] by linarith
  then have "hex_char (unat b div 16) \<noteq> of_char CHR ''.''" "hex_char (unat b mod 16) \<noteq> of_char CHR ''.''" for b :: byte
    by (intro hex_char_not_dot; simp)+
  then show ?thesis by (auto simp: to_hex_def)
qed

lemma count_dots_blob_path: "count_list (blob_path c) (of_char CHR ''.'') = 1"
  using to_hex_no_dot [of c] by (simp add: blob_path_def ascii_def count_list_0_iff)

lemma blob_path_not_staging: "\<not> is_staging_name (blob_path c)"
proof
  assume "is_staging_name (blob_path c)"
  then obtain k where k: "take (length (ascii ''.blob.tmp.'')) (drop k (blob_path c)) = ascii ''.blob.tmp.''"
    by (auto simp: is_staging_name_def starts_with_def)
  let ?n = "length (ascii ''.blob.tmp.'')"
  define b where "b = blob_path c"
  have "b = take k b @ take ?n (drop k b) @ drop ?n (drop k b)" by (simp only: append_take_drop_id)
  then have "count_list b d = count_list (take k b) d + (count_list (take ?n (drop k b)) d + count_list (drop ?n (drop k b)) d)" for d
    by (metis count_list_append)
  then have "count_list (ascii ''.blob.tmp.'') (of_char CHR ''.'') \<le> count_list (blob_path c) (of_char CHR ''.'')"
    using k by (simp add: b_def)
  then show False unfolding count_dots_blob_path by (simp add: ascii_def)
qed

text \<open>Sweeping what crashes left behind takes no body away.\<close>

lemma sweep_keeps_bodies:
  "blob_get H tv fv ro (snd (sweep_staging removable listing dir)) c = blob_get H tv fv ro dir c"
proof -
  have "blob_path c \<notin> set (filter removable (staging_residue listing))"
    using blob_path_not_staging [of c] by (auto simp: staging_residue_def split: option.splits)
  then have "snd (sweep_staging removable listing dir) (blob_path c) = dir (blob_path c)"
    by (auto simp: sweep_staging_def Let_def)
  then show ?thesis by (rule blobs.get_local)
qed

text \<open>The report of unreadable bodies names every file of a body that cannot be read, and no other
  file that the store itself has written.\<close>

lemma split_blob_path: "split_extension (blob_path c) = (to_hex c, Some (ascii ''blob''))"
proof -
  have "to_hex c \<noteq> []" by (metis length_to_hex list.size(3) zero_neq_numeral)
  moreover have "takeWhile (\<lambda>b. b \<noteq> of_char CHR ''.'') (rev (blob_path c)) = rev (ascii ''blob'')"
    by (simp add: blob_path_def ascii_def)
  ultimately show ?thesis by (auto simp: split_extension_def Let_def blob_path_def ascii_def)
qed

lemma utf8_valid_to_hex: "utf8_valid (to_hex c)"
proof (rule utf8_valid_ascii)
  have "\<forall>v \<in> set [0..<16]. hex_char v < 0x80" by (simp add: hex_char_def ascii_def upt_rec)
  then have "v < 16 \<Longrightarrow> hex_char v < 0x80" for v by simp
  moreover have "unat b div 16 < 16" for b :: byte using unat_byte_bound [of b] by linarith
  ultimately have "hex_char (unat b div 16) < 0x80" "hex_char (unat b mod 16) < 0x80" for b :: byte by simp_all
  then show "\<forall>b \<in> set (to_hex c). b < 0x80" by (auto simp: to_hex_def)
qed

lemma unreadable_reported:
  assumes "blob_path c \<in> set entries"
  shows "to_hex c \<in> set (unreadable_bodies H tv fv (Some entries) dir) \<longleftrightarrow> \<not> holds_body H tv fv dir c"
proof -
  have "to_hex c \<in> (fst \<circ> split_extension) ` {n \<in> set entries. is_blob_name n}"
    using assms split_blob_path [of c] by (auto simp: is_blob_name_def intro!: image_eqI [of _ _ "blob_path c"])
  then show ?thesis by (simp add: unreadable_bodies_def from_hex_to_hex utf8_valid_to_hex)
qed

section \<open>Escrow rows from the journal\<close>

text \<open>The rows a replay builds name a body unless they say otherwise.\<close>

definition escrow_row_ok :: "escrow_row \<Rightarrow> bool" where
  "escrow_row_ok row \<longleftrightarrow> er_retained_until row = None
     \<and> (case er_inverse_cid row of
        Some _ \<Rightarrow> er_status row \<in> {Available, Pending} \<or> (\<exists>by. er_status row = Consumed by)
      | None \<Rightarrow> er_status row \<in> {Unavailable, Undetermined} \<or> (\<exists>by. er_status row = Consumed by))"

lemma escrow_row_ok_intros:
  "escrow_row_ok row \<Longrightarrow> escrow_row_ok (row\<lparr>er_status := Consumed by\<rparr>)"
  "escrow_row_ok \<lparr>er_transformation = t, er_inverse_cid = c, er_retained_until = None, er_status = escrow_status c pending undetermined\<rparr>"
  "escrow_row_ok \<lparr>er_transformation = t, er_inverse_cid = c, er_retained_until = None,
     er_status = (case c of Some _ \<Rightarrow> Available | None \<Rightarrow> Unavailable)\<rparr>"
  by (auto simp: escrow_row_ok_def escrow_status_def split: option.splits)

lemma escrow_row_ok_fold:
  assumes "\<forall>t row. sh_escrow sh t = Some row \<longrightarrow> escrow_row_ok row"
  shows "\<forall>t row. sh_escrow (shadow_fold r sh) t = Some row \<longrightarrow> escrow_row_ok row"
proof -
  have "sh_escrow (ensure_row t sh) = sh_escrow sh" for t by (simp add: ensure_row_def split: option.split)
  then have "\<forall>t' row. sh_escrow (fold_arm r (ensure_row t sh)) t' = Some row \<longrightarrow> escrow_row_ok row" for t
    using assms
    by (cases r) (auto simp: on_row_def escrow_row_ok_intros split: if_splits)
  moreover have "\<forall>t' row. sh_escrow (fold_arm r sh) t' = Some row \<longrightarrow> escrow_row_ok row" if "record_transformation r = None"
    using that assms by (cases r) auto
  ultimately show ?thesis by (auto simp: shadow_fold_def Let_def split: option.splits if_splits)
qed

lemma reconstructed_escrow_row_ok: "sh_escrow (reconstruct_shadow records) t = Some row \<Longrightarrow> escrow_row_ok row"
proof -
  have "\<forall>t row. sh_escrow (reconstruct_shadow records) t = Some row \<longrightarrow> escrow_row_ok row"
    by (induction records rule: rev_induct)
      (simp_all add: reconstruct_shadow_def empty_shadow_def escrow_row_ok_fold)
  then show "sh_escrow (reconstruct_shadow records) t = Some row \<Longrightarrow> escrow_row_ok row" by blast
qed

text \<open>
  Rebuilding an escrowed inverse from the row a replay of the journal gives fails in two cases only:
  the body cannot be read, or the row is one of the two kinds without a body that the journal can
  write and the constructor does not take, an undetermined inverse and an inverse that was never
  there and whose transformation was superseded. In all other cases the row comes back with the
  body its address names.
\<close>

theorem escrowed_from_journal:
  assumes "sh_escrow (reconstruct_shadow records) t = Some row"
  shows "escrowed H tv fv outcome dir row =
     (case er_inverse_cid row of
        Some c \<Rightarrow> and_then (blob_get H tv fv outcome dir c) (\<lambda>d.
          Inr \<lparr>ei_transformation = t, ei_inverse_delta = Some d, ei_retained_until = None, ei_status = er_status row\<rparr>)
      | None \<Rightarrow> if er_status row = Unavailable then Inr (escrow_unavailable t) else Inl InconsistentEscrow)
    \<and> (er_inverse_cid row = None \<longrightarrow> er_status row \<in> {Unavailable, Undetermined} \<union> range Consumed)"
proof -
  have ok: "escrow_row_ok row" using assms by (rule reconstructed_escrow_row_ok)
  have key: "er_transformation row = t"
    using shadow_keyed_reconstruct [of records] assms by (auto simp: shadow_keyed_def)
  show ?thesis
    using ok by (auto simp: escrowed_def escrow_restore_def escrow_unavailable_def escrow_row_ok_def key and_then_def
        split: option.splits sum.splits)
qed

theorem escrowed_from_journal_witness:
  "let records = [InverseEscrowedRec zero_cid None False [] False True 5];
       row = \<lparr>er_transformation = zero_cid, er_inverse_cid = None, er_retained_until = None, er_status = Undetermined\<rparr>
   in sh_escrow (reconstruct_shadow records) zero_cid = Some row
      \<and> escrowed sample_hash sample_tv sample_fv ReadOk (\<lambda>_. None) row = Inl InconsistentEscrow"
proof -
  let ?row = "\<lparr>er_transformation = zero_cid, er_inverse_cid = None, er_retained_until = None, er_status = Undetermined\<rparr>"
  have "sh_escrow (reconstruct_shadow [InverseEscrowedRec zero_cid None False [] False True 5]) zero_cid = Some ?row"
    by (simp add: reconstruct_shadow_def shadow_fold_def escrow_status_def Let_def)
  from this escrowed_from_journal [OF this] show ?thesis by (simp add: Let_def)
qed

end
