(* ===== verification/Gate.thy ===== *)
theory Gate
  imports Engine_Records "HOL-Library.Char_ord"
begin

text \<open>
  The gate: \<open>src/crates/gx-gate/src\<close> (\<open>verdict.rs\<close>, \<open>policy.rs\<close>, \<open>invariant.rs\<close>, \<open>lib.rs\<close> and the
  conformance check of \<open>packs.rs\<close>). A policy engine is the function from the request view to the answer
  of the Cedar library: Cedar, its parser and the conversion of the view into a Cedar request are
  not part of the repository's own logic and enter as that argument. Invariant checks are values
  with an id and a function, as the trait objects are. The hash and the codecs of the digested views
  are arguments. A text is a byte string, written as \<open>string\<close>, whose characters are bytes.
\<close>

section \<open>Verdicts\<close>

datatype gate_error =
    Unevaluable transformation_id
  | PolicySetUnreadable
  | RegistryUnusable
  | EmptyDeny
  | UnknownReasonCode string
  | GateNotDigestible
  | ChainGap "string option" "string option"

datatype policy_decision = PolicyAllow | PolicyDeny

datatype reason_source =
    FromPolicy string
  | FromInvariant string
  | FromPrecondition
  | FromAdapter string
  | NoPolicyApplied

record reason =
  rs_code :: string
  rs_message :: string
  rs_source :: reason_source

record policy_decision_record =
  pdr_policy_id :: string
  pdr_decision :: policy_decision
  pdr_diagnostics_digest :: "cid option"

record invariant_result =
  ir_invariant_id :: string
  ir_holds :: bool
  ir_detail :: "string option"

datatype theorem_id = T1 | T2 | T3 | T4 | T5

record proof_ref =
  lean_spec_version :: string
  theorem_ids :: "theorem_id list"

record admit_proof =
  ap_policy_decisions :: "policy_decision_record list"
  ap_invariant_results :: "invariant_result list"
  ap_evidence_digests :: "cid list"
  ap_composed_from :: "transformation_id list"
  ap_proof_ref :: "proof_ref option"

record approval_requirement =
  min_approvers :: nat
  eligible_actors :: "string list"

record escalation_ticket =
  tk_id :: cid
  tk_transformation :: transformation_id
  tk_reasons :: "reason list"
  tk_required_approval :: approval_requirement
  tk_created_at :: timestamp

record escalation_ticket_view =
  tv_transformation :: transformation_id
  tv_reasons :: "reason list"
  tv_required_approval :: approval_requirement

datatype verdict =
    AdmitVerdict admit_proof
  | DenyVerdict "reason list"
  | EscalateVerdict escalation_ticket

fun kind_of_verdict :: "verdict \<Rightarrow> verdict_kind" where
  "kind_of_verdict (AdmitVerdict _) = Admit"
| "kind_of_verdict (DenyVerdict _) = Deny"
| "kind_of_verdict (EscalateVerdict _) = Escalate"

text \<open>The hash, and the encoders of the four kinds of value the gate digests.\<close>

record gate_codec =
  gc_hash :: "bytes \<Rightarrow> cid"
  gc_text :: "string \<Rightarrow> string + bytes"
  gc_reasons :: "reason list \<Rightarrow> string + bytes"
  gc_proof :: "admit_proof \<Rightarrow> string + bytes"
  gc_ticket :: "escalation_ticket_view \<Rightarrow> string + bytes"

definition digest_of :: "gate_codec \<Rightarrow> (gate_codec \<Rightarrow> 'v \<Rightarrow> string + bytes) \<Rightarrow> ('a \<Rightarrow> 'v) \<Rightarrow> 'a \<Rightarrow> gate_error + cid" where
  "digest_of gc field view x = map_err (\<lambda>_. GateNotDigestible) (cid_compute (gc_hash gc) (field gc) view x)"

definition ticket_view :: "escalation_ticket \<Rightarrow> escalation_ticket_view" where
  "ticket_view t =
     \<lparr>tv_transformation = tk_transformation t, tv_reasons = tk_reasons t, tv_required_approval = tk_required_approval t\<rparr>"

fun proof_digest :: "gate_codec \<Rightarrow> verdict \<Rightarrow> gate_error + cid" where
  "proof_digest gc (AdmitVerdict p) = digest_of gc gc_proof (\<lambda>p. p) p"
| "proof_digest gc (DenyVerdict rs) = digest_of gc gc_reasons (\<lambda>rs. rs) rs"
| "proof_digest gc (EscalateVerdict t) = digest_of gc gc_ticket ticket_view t"

section \<open>Reasons\<close>

definition POLICY_DENIED :: string where
  "POLICY_DENIED = ''POLICY_DENIED''"

definition INVARIANT_VIOLATED :: string where
  "INVARIANT_VIOLATED = ''INVARIANT_VIOLATED''"

definition INVERSE_UNAVAILABLE :: string where
  "INVERSE_UNAVAILABLE = ''INVERSE_UNAVAILABLE''"

definition REASON_CODES :: "string list" where
  "REASON_CODES = [INVARIANT_VIOLATED, INVERSE_UNAVAILABLE, POLICY_DENIED]"

definition MAX_MESSAGE_BYTES :: nat where
  "MAX_MESSAGE_BYTES = 1024"

definition elide :: "gate_codec \<Rightarrow> string \<Rightarrow> gate_error + string" where
  "elide gc text =
     (if length text \<le> MAX_MESSAGE_BYTES then Inr text
      else and_then (digest_of gc gc_text (\<lambda>t. t) text) (\<lambda>c.
        Inr (''<elided: '' @ decimal (length text) @ '' bytes over the '' @ decimal MAX_MESSAGE_BYTES
           @ ''-byte bound of ASM-60-4, '' @ map (char_of \<circ> unat) (to_text c) @ ''>'')))"

definition new_reason :: "gate_codec \<Rightarrow> string \<Rightarrow> string \<Rightarrow> reason_source \<Rightarrow> gate_error + reason" where
  "new_reason gc code message source =
     (if code \<notin> set REASON_CODES then Inl (UnknownReasonCode code)
      else and_then (elide gc message) (\<lambda>m. Inr \<lparr>rs_code = code, rs_message = m, rs_source = source\<rparr>))"

definition new_invariant_result :: "gate_codec \<Rightarrow> string \<Rightarrow> bool \<Rightarrow> string option \<Rightarrow> gate_error + invariant_result" where
  "new_invariant_result gc i holds detail =
     (case detail of
        None \<Rightarrow> Inr \<lparr>ir_invariant_id = i, ir_holds = holds, ir_detail = None\<rparr>
      | Some d \<Rightarrow> and_then (elide gc d) (\<lambda>d. Inr \<lparr>ir_invariant_id = i, ir_holds = holds, ir_detail = Some d\<rparr>))"

fun source_rank :: "reason_source \<Rightarrow> nat" where
  "source_rank (FromPolicy _) = 0"
| "source_rank (FromInvariant _) = 1"
| "source_rank FromPrecondition = 2"
| "source_rank (FromAdapter _) = 3"
| "source_rank NoPolicyApplied = 4"

fun source_id :: "reason_source \<Rightarrow> string" where
  "source_id (FromPolicy p) = p"
| "source_id (FromInvariant i) = i"
| "source_id (FromAdapter d) = d"
| "source_id FromPrecondition = ''''"
| "source_id NoPolicyApplied = ''''"

definition canonical_key :: "reason \<Rightarrow> nat \<times> string \<times> string \<times> string" where
  "canonical_key r = (source_rank (rs_source r), source_id (rs_source r), rs_code r, rs_message r)"

definition deny :: "reason list \<Rightarrow> gate_error + verdict" where
  "deny reasons = (if reasons = [] then Inl EmptyDeny else Inr (DenyVerdict (sort_key canonical_key reasons)))"

definition new_admit_proof ::
  "policy_decision_record list \<Rightarrow> invariant_result list \<Rightarrow> cid list \<Rightarrow> transformation_id list \<Rightarrow> proof_ref option \<Rightarrow> admit_proof" where
  "new_admit_proof ds rs es cs p =
     \<lparr>ap_policy_decisions = sort_key pdr_policy_id ds, ap_invariant_results = sort_key ir_invariant_id rs,
      ap_evidence_digests = sort es, ap_composed_from = cs, ap_proof_ref = p\<rparr>"

section \<open>What the gate is asked\<close>

datatype test_outcome = TestPass | TestFail | TestSkip | TestError

record in_toto_statement_ref =
  its_uri :: "string option"
  its_digest :: cid
  its_inline :: "string option"

datatype evidence =
    TestResult string string test_outcome "cid option" u64
  | Measurement subject string cid
  | ExternalAttestation string in_toto_statement_ref string
  | PolicyEvaluation policy_decision string "cid option"

record gate_input =
  gi_t :: transformation
  gi_pre :: object_snapshot
  gi_planned :: bytes
  gi_evidence :: "evidence list"
  gi_invert_available :: bool
  gi_decided_at :: timestamp

datatype context_value = CtxStr string | CtxLong int | CtxBool bool | CtxSet "string set"

record request_view =
  rv_principal_id :: string
  rv_action_id :: string
  rv_resource_id :: string
  rv_resource_attrs :: "string \<Rightarrow> string option"
  rv_context :: "string \<Rightarrow> context_value option"

fun substrate_tag :: "substrate_kind \<Rightarrow> string" where
  "substrate_tag Fs = ''fs''"
| "substrate_tag Git = ''git''"
| "substrate_tag Mcp = ''mcp''"
| "substrate_tag (Custom name) = ''custom:'' @ name"

fun action_id :: "change_context \<Rightarrow> string" where
  "action_id Time = ''Time''"
| "action_id Evidence = ''Evidence''"
| "action_id Policy = ''Policy''"
| "action_id Model = ''Model''"
| "action_id Representation = ''Representation''"
| "action_id Substrate = ''Substrate''"
| "action_id (CustomContext name) = ''Custom:'' @ name"

fun evidence_kind :: "evidence \<Rightarrow> string" where
  "evidence_kind (TestResult _ _ _ _ _) = ''TestResult''"
| "evidence_kind (Measurement _ _ _) = ''Measurement''"
| "evidence_kind (ExternalAttestation _ _ _) = ''ExternalAttestation''"
| "evidence_kind (PolicyEvaluation _ _ _) = ''PolicyEvaluation''"

definition request_view_of :: "gate_input \<Rightarrow> request_view" where
  "request_view_of input =
     (let locator = obj_locator (gi_pre input); substrate = substrate_tag (obj_substrate (gi_pre input)) in
      \<lparr>rv_principal_id = actor_key (t_actor (gi_t input)), rv_action_id = action_id (t_context (gi_t input)),
       rv_resource_id = substrate @ '':'' @ locator,
       rv_resource_attrs = [''locator'' \<mapsto> locator, ''substrate'' \<mapsto> substrate],
       rv_context = [''order'' \<mapsto> CtxLong (uint (t_order (gi_t input))),
         ''invert_available'' \<mapsto> CtxBool (gi_invert_available input),
         ''evidence_count'' \<mapsto> CtxLong (min (int (length (gi_evidence input))) (2 ^ 63 - 1)),
         ''evidence_kinds'' \<mapsto> CtxSet (evidence_kind ` set (gi_evidence input))]\<rparr>)"

section \<open>Policies\<close>

text \<open>What Cedar answers: its decision, the errors it met and the policies that decided.\<close>

record cedar_response =
  rsp_decision :: policy_decision
  rsp_errors :: "string list"
  rsp_reason :: "string list"

type_synonym policy_engine = "request_view \<Rightarrow> string + cedar_response"

record policy_outcome =
  po_decision :: policy_decision
  po_determining :: "policy_decision_record list"

definition evaluate :: "policy_engine \<Rightarrow> gate_input \<Rightarrow> gate_error + policy_outcome" where
  "evaluate engine input =
     and_then (map_err (\<lambda>_. Unevaluable (t_id (gi_t input))) (engine (request_view_of input))) (\<lambda>rsp.
       if rsp_errors rsp \<noteq> [] then Inl (Unevaluable (t_id (gi_t input)))
       else Inr \<lparr>po_decision = rsp_decision rsp,
              po_determining = map (\<lambda>p. \<lparr>pdr_policy_id = p, pdr_decision = rsp_decision rsp, pdr_diagnostics_digest = None\<rparr>)
                (sort (rsp_reason rsp))\<rparr>)"

definition deny_reasons :: "gate_codec \<Rightarrow> policy_outcome \<Rightarrow> gate_error + reason list" where
  "deny_reasons gc po =
     (if po_decision po = PolicyAllow then Inr []
      else if po_determining po = [] then
        and_then (new_reason gc POLICY_DENIED ''no policy in the set permitted this transformation'' NoPolicyApplied) (\<lambda>r. Inr [r])
      else traverse (\<lambda>d. new_reason gc POLICY_DENIED (''policy '' @ pdr_policy_id d @ '' forbids this transformation'')
             (FromPolicy (pdr_policy_id d))) (po_determining po))"

section \<open>Invariants\<close>

record invariant_check =
  ic_id :: string
  ic_check :: "gate_input \<Rightarrow> gate_error + invariant_result"

type_synonym invariant_registry = "invariant_check list"

definition register_check :: "invariant_check \<Rightarrow> invariant_registry \<Rightarrow> gate_error + invariant_registry" where
  "register_check c checks =
     (if ic_id c = [] then Inl RegistryUnusable
      else if list_ex (\<lambda>held. ic_id held = ic_id c) checks then Inl RegistryUnusable
      else Inr (checks @ [c]))"

text \<open>The loop of \<open>run_all\<close> collects the answers and notes whether a check failed to give one.\<close>

fun run_checks :: "gate_input \<Rightarrow> invariant_registry \<Rightarrow> invariant_result list \<times> bool" where
  "run_checks input [] = ([], False)"
| "run_checks input (c # cs) =
     (let (results, failed) = run_checks input cs in
      case ic_check c input of
        Inr r \<Rightarrow> if ir_invariant_id r = ic_id c then (r # results, failed) else (results, True)
      | Inl _ \<Rightarrow> (results, True))"

definition run_all :: "invariant_registry \<Rightarrow> gate_input \<Rightarrow> gate_error + invariant_result list" where
  "run_all checks input =
     (let (results, failed) = run_checks input checks in
      if failed then Inl (Unevaluable (t_id (gi_t input))) else Inr (sort_key ir_invariant_id results))"

definition violations :: "gate_codec \<Rightarrow> invariant_result list \<Rightarrow> gate_error + reason list" where
  "violations gc results =
     traverse (\<lambda>r. new_reason gc INVARIANT_VIOLATED
         (case ir_detail r of
            Some d \<Rightarrow> ''invariant '' @ ir_invariant_id r @ '' does not hold: '' @ d
          | None \<Rightarrow> ''invariant '' @ ir_invariant_id r @ '' does not hold'')
         (FromInvariant (ir_invariant_id r)))
       (filter (\<lambda>r. \<not> ir_holds r) results)"

section \<open>The gate\<close>

record gate =
  gate_policies :: "policy_engine option"
  gate_invariants :: invariant_registry

definition unconfigured :: gate where
  "unconfigured = \<lparr>gate_policies = None, gate_invariants = []\<rparr>"

definition with_policies :: "policy_engine \<Rightarrow> gate" where
  "with_policies engine = \<lparr>gate_policies = Some engine, gate_invariants = []\<rparr>"

definition with_invariants :: "invariant_registry \<Rightarrow> gate \<Rightarrow> gate" where
  "with_invariants checks g = g\<lparr>gate_invariants := checks\<rparr>"

definition default_approval :: approval_requirement where
  "default_approval = \<lparr>min_approvers = 1, eligible_actors = []\<rparr>"

definition new_escalation_ticket :: "gate_codec \<Rightarrow> transformation_id \<Rightarrow> gate_error + escalation_ticket" where
  "new_escalation_ticket gc t =
     and_then (new_reason gc INVERSE_UNAVAILABLE
         ''no inverse delta could be built for this change, so it cannot be undone once applied''
         (FromAdapter ''invert returned None (FR-043)'')) (\<lambda>r.
     let ticket = \<lparr>tk_id = zero_cid, tk_transformation = t, tk_reasons = [r], tk_required_approval = default_approval,
           tk_created_at = 0\<rparr>
     in and_then (digest_of gc gc_ticket ticket_view ticket) (\<lambda>c. Inr (ticket\<lparr>tk_id := c\<rparr>)))"

definition gate_verify :: "gate_codec \<Rightarrow> gate \<Rightarrow> gate_input \<Rightarrow> gate_error + verdict" where
  "gate_verify gc g input =
     (case gate_policies g of
        None \<Rightarrow> Inl (Unevaluable (t_id (gi_t input)))
      | Some engine \<Rightarrow>
          and_then (evaluate engine input) (\<lambda>outcome.
          and_then (run_all (gate_invariants g) input) (\<lambda>results.
          and_then (violations gc results) (\<lambda>violated.
            if po_decision outcome = PolicyAllow \<and> violated = [] then
              (if gi_invert_available input
               then Inr (AdmitVerdict (new_admit_proof (po_determining outcome) results [] [] None))
               else and_then (new_escalation_ticket gc (t_id (gi_t input))) (\<lambda>t. Inr (EscalateVerdict t)))
            else and_then (deny_reasons gc outcome) (\<lambda>reasons. deny (reasons @ violated))))))"

section \<open>What refuses and what decides\<close>

text \<open>
  The specification side: which policies and invariants refuse a change, and when everybody that has
  to be asked has answered.
\<close>

definition answered :: "gate_input \<Rightarrow> invariant_check \<Rightarrow> bool" where
  "answered input c \<longleftrightarrow> (\<exists>r. ic_check c input = Inr r \<and> ir_invariant_id r = ic_id c)"

definition answer :: "gate_input \<Rightarrow> invariant_check \<Rightarrow> invariant_result" where
  "answer input c = projr (ic_check c input)"

definition policy_refusals :: "cedar_response \<Rightarrow> reason_source set" where
  "policy_refusals rsp =
     (if rsp_decision rsp = PolicyAllow then {}
      else if rsp_reason rsp = [] then {NoPolicyApplied}
      else FromPolicy ` set (rsp_reason rsp))"

definition invariant_refusals :: "gate_input \<Rightarrow> invariant_registry \<Rightarrow> reason_source set" where
  "invariant_refusals input checks = FromInvariant ` ic_id ` {c \<in> set checks. \<not> ir_holds (answer input c)}"

definition decided :: "gate \<Rightarrow> gate_input \<Rightarrow> cedar_response option" where
  "decided g input =
     (case gate_policies g of
        None \<Rightarrow> None
      | Some engine \<Rightarrow>
          (case engine (request_view_of input) of
             Inl _ \<Rightarrow> None
           | Inr rsp \<Rightarrow> if rsp_errors rsp = [] \<and> list_all (answered input) (gate_invariants g) then Some rsp else None))"

lemma run_checks_answered: "list_all (answered input) cs \<Longrightarrow> run_checks input cs = (map (answer input) cs, False)"
  by (induction cs) (auto simp: answered_def answer_def)

lemma run_checks_failed: "\<not> list_all (answered input) cs \<Longrightarrow> snd (run_checks input cs)"
  by (induction cs) (auto simp: answered_def Let_def split: prod.splits sum.splits)

lemma run_all_eq:
  "run_all cs input = (if list_all (answered input) cs then Inr (sort_key ir_invariant_id (map (answer input) cs))
     else Inl (Unevaluable (t_id (gi_t input))))"
  by (cases "list_all (answered input) cs")
    (auto simp: run_all_def run_checks_answered dest: run_checks_failed split: prod.splits)

lemma reason_codes [simp]:
  "POLICY_DENIED \<in> set REASON_CODES" "INVARIANT_VIOLATED \<in> set REASON_CODES" "INVERSE_UNAVAILABLE \<in> set REASON_CODES"
  by (simp_all add: REASON_CODES_def)

lemma elide_error: "elide gc m = Inl e \<Longrightarrow> e = GateNotDigestible"
  by (auto simp: elide_def digest_of_def and_then_def map_err_def split: if_splits sum.splits)

lemma new_reason_cases:
  assumes "code \<in> set REASON_CODES"
  obtains (ok) r where "new_reason gc code m s = Inr r" "rs_source r = s" "rs_code r = code"
    | (undigestible) "new_reason gc code m s = Inl GateNotDigestible"
  using assms by (cases "elide gc m") (auto simp: new_reason_def dest: elide_error)

lemma traverse_reasons:
  assumes "\<And>x. x \<in> set xs \<Longrightarrow> \<exists>m. f x = new_reason gc code m (s x)" "code \<in> set REASON_CODES"
  shows "(\<exists>rs. traverse f xs = Inr rs \<and> rs_source ` set rs = s ` set xs) \<or> traverse f xs = Inl GateNotDigestible"
  using assms(1)
proof (induction xs)
  case (Cons x xs)
  then have IH: "(\<exists>rs. traverse f xs = Inr rs \<and> rs_source ` set rs = s ` set xs) \<or> traverse f xs = Inl GateNotDigestible"
    by simp
  from Cons.prems obtain m where m: "f x = new_reason gc code m (s x)" by auto
  show ?case by (rule new_reason_cases [OF assms(2), of gc m "s x"]) (use IH m in auto)
qed simp

lemma violations_cases:
  "(\<exists>rs. violations gc results = Inr rs \<and> rs_source ` set rs = FromInvariant ` ir_invariant_id ` {r \<in> set results. \<not> ir_holds r})
    \<or> violations gc results = Inl GateNotDigestible"
proof -
  have "FromInvariant ` ir_invariant_id ` {r \<in> set results. \<not> ir_holds r}
      = (\<lambda>r. FromInvariant (ir_invariant_id r)) ` set (filter (\<lambda>r. \<not> ir_holds r) results)" by (auto simp: image_image)
  then show ?thesis unfolding violations_def by (simp only:) (intro traverse_reasons [where code = INVARIANT_VIOLATED]; auto)
qed

lemma deny_reasons_cases:
  "(\<exists>rs. deny_reasons gc \<lparr>po_decision = rsp_decision rsp,
        po_determining = map (\<lambda>p. \<lparr>pdr_policy_id = p, pdr_decision = d, pdr_diagnostics_digest = c\<rparr>) (sort (rsp_reason rsp))\<rparr>
      = Inr rs \<and> rs_source ` set rs = policy_refusals rsp)
    \<or> deny_reasons gc \<lparr>po_decision = rsp_decision rsp,
        po_determining = map (\<lambda>p. \<lparr>pdr_policy_id = p, pdr_decision = d, pdr_diagnostics_digest = c\<rparr>) (sort (rsp_reason rsp))\<rparr>
      = Inl GateNotDigestible"
proof (cases "rsp_decision rsp = PolicyAllow \<or> rsp_reason rsp = []")
  case True
  then show ?thesis
    by (auto simp: deny_reasons_def policy_refusals_def
        intro: new_reason_cases [of POLICY_DENIED gc "''no policy in the set permitted this transformation''" NoPolicyApplied])
next
  case False
  let ?ds = "map (\<lambda>p. \<lparr>pdr_policy_id = p, pdr_decision = d, pdr_diagnostics_digest = c\<rparr>) (sort (rsp_reason rsp))"
  have "policy_refusals rsp = (\<lambda>d. FromPolicy (pdr_policy_id d)) ` set ?ds"
    using False by (auto simp: policy_refusals_def image_image)
  moreover have "sort (rsp_reason rsp) \<noteq> []" using False by (metis sort_key_simps(1) set_empty set_sort)
  ultimately show ?thesis
    using False unfolding deny_reasons_def by (simp del: set_map) (intro traverse_reasons [where code = POLICY_DENIED]; auto)
qed

lemma new_escalation_ticket_error: "new_escalation_ticket gc t = Inl e \<Longrightarrow> e = GateNotDigestible"
  by (rule new_reason_cases [of INVERSE_UNAVAILABLE gc
        "''no inverse delta could be built for this change, so it cannot be undone once applied''"
        "FromAdapter ''invert returned None (FR-043)''"])
    (auto simp: new_escalation_ticket_def digest_of_def Let_def and_then_def map_err_def split: sum.splits)

text \<open>
  C34. The verdict is the fold the gate documents. A verdict is given exactly when the policy engine
  and every registered invariant have answered; it is a denial as soon as one of them refuses,
  whether or not the change can be undone, and the reasons then name the refusing policies and
  invariants and nothing else; otherwise it admits when an inverse is available and escalates when
  it is not. What is not a verdict is an evaluation that could not be made, or a text or ticket that
  has no digest; in particular a denial without a reason cannot arise.
\<close>

theorem gate_fold:
  "case gate_verify gc g input of
     Inl e \<Rightarrow> (decided g input = None \<and> e = Unevaluable (t_id (gi_t input))) \<or> (decided g input \<noteq> None \<and> e = GateNotDigestible)
   | Inr v \<Rightarrow> \<exists>rsp. decided g input = Some rsp
       \<and> (let refusals = policy_refusals rsp \<union> invariant_refusals input (gate_invariants g) in
          kind_of_verdict v = (if refusals \<noteq> {} then Deny else if gi_invert_available input then Admit else Escalate)
          \<and> (case v of DenyVerdict rs \<Rightarrow> rs_source ` set rs = refusals | _ \<Rightarrow> True))"
proof (cases "decided g input")
  case None
  then have "gate_verify gc g input = Inl (Unevaluable (t_id (gi_t input)))"
    by (auto simp: decided_def gate_verify_def evaluate_def run_all_eq split: option.splits sum.splits if_splits)
  with None show ?thesis by simp
next
  case (Some rsp)
  let ?cs = "gate_invariants g"
  obtain engine where g: "gate_policies g = Some engine" "engine (request_view_of input) = Inr rsp" "rsp_errors rsp = []"
    and ans: "list_all (answered input) ?cs"
    using Some by (auto simp: decided_def split: option.splits sum.splits if_splits)
  let ?res = "sort_key ir_invariant_id (map (answer input) ?cs)"
  let ?po = "\<lparr>po_decision = rsp_decision rsp, po_determining = map (\<lambda>p. \<lparr>pdr_policy_id = p, pdr_decision = rsp_decision rsp,
     pdr_diagnostics_digest = None\<rparr>) (sort (rsp_reason rsp))\<rparr>"
  have ids: "FromInvariant ` ir_invariant_id ` {r \<in> set ?res. \<not> ir_holds r} = invariant_refusals input ?cs"
  proof -
    have id: "ir_invariant_id (answer input c) = ic_id c" if "c \<in> set ?cs" for c
      using ans that by (auto simp: list_all_iff answered_def answer_def)
    have "{r \<in> set ?res. \<not> ir_holds r} = answer input ` {c \<in> set ?cs. \<not> ir_holds (answer input c)}" by auto
    then show ?thesis unfolding invariant_refusals_def using id by (simp add: image_image cong: image_cong_simp)
  qed
  have v: "gate_verify gc g input = and_then (violations gc ?res) (\<lambda>violated.
      if rsp_decision rsp = PolicyAllow \<and> violated = [] then
        (if gi_invert_available input
         then Inr (AdmitVerdict (new_admit_proof (po_determining ?po) ?res [] [] None))
         else and_then (new_escalation_ticket gc (t_id (gi_t input))) (\<lambda>t. Inr (EscalateVerdict t)))
      else and_then (deny_reasons gc ?po) (\<lambda>reasons. deny (reasons @ violated)))"
    by (simp add: gate_verify_def g evaluate_def run_all_eq ans)
  from violations_cases [of gc ?res] show ?thesis
  proof
    assume "\<exists>rs. violations gc ?res = Inr rs \<and> rs_source ` set rs = FromInvariant ` ir_invariant_id ` {r \<in> set ?res. \<not> ir_holds r}"
    then obtain violated where vio: "violations gc ?res = Inr violated" "rs_source ` set violated = invariant_refusals input ?cs"
      unfolding ids by blast
    show ?thesis
    proof (cases "rsp_decision rsp = PolicyAllow \<and> violated = []")
      case True
      then have "policy_refusals rsp \<union> invariant_refusals input ?cs = {}" using vio by (auto simp: policy_refusals_def)
      with True Some show ?thesis
        by (auto simp: v vio and_then_def dest: new_escalation_ticket_error split: sum.split)
    next
      case False
      then have "policy_refusals rsp \<union> invariant_refusals input ?cs \<noteq> {}" using vio by (auto simp: policy_refusals_def)
      with deny_reasons_cases [of gc rsp "rsp_decision rsp" None] False vio Some show ?thesis
        by (auto simp: v deny_def image_Un Let_def)
    qed
  qed (simp add: v Some)
qed

section \<open>The order of policies and invariants\<close>

definition registry_ok :: "invariant_registry \<Rightarrow> bool" where
  "registry_ok checks \<longleftrightarrow> distinct (map ic_id checks) \<and> [] \<notin> set (map ic_id checks)"

lemma registry_ok_Nil: "registry_ok []"
  by (simp add: registry_ok_def)

lemma register_check_ok: "registry_ok checks \<Longrightarrow> register_check c checks = Inr checks' \<Longrightarrow> registry_ok checks'"
  by (force simp: register_check_def registry_ok_def list_ex_iff split: if_splits)

lemma run_all_permute:
  assumes "registry_ok cs" "mset cs = mset cs'"
  shows "run_all cs input = run_all cs' input"
proof (cases "list_all (answered input) cs")
  case True
  have "inj_on ir_invariant_id (set (map (answer input) cs))"
  proof (rule inj_onI)
    fix r s assume r: "r \<in> set (map (answer input) cs)" and s: "s \<in> set (map (answer input) cs)"
      and eq: "ir_invariant_id r = ir_invariant_id s"
    obtain c d where c: "c \<in> set cs" "r = answer input c" and d: "d \<in> set cs" "s = answer input d" using r s by auto
    have "ir_invariant_id (answer input c) = ic_id c" if "c \<in> set cs" for c
      using True that by (auto simp: list_all_iff answered_def answer_def)
    with c d eq have "ic_id c = ic_id d" by metis
    with assms(1) c d show "r = s" by (auto simp: registry_ok_def distinct_map dest: inj_onD)
  qed
  moreover have "mset (map (answer input) cs) = mset (map (answer input) cs')" using assms(2) by simp
  ultimately have "sort_key ir_invariant_id (map (answer input) cs) = sort_key ir_invariant_id (map (answer input) cs')"
    by (intro sort_key_inj_key_eq) simp_all
  with True show ?thesis using mset_eq_setD [OF assms(2)] by (simp add: run_all_eq list_all_iff)
next
  case False
  then show ?thesis using mset_eq_setD [OF assms(2)] by (auto simp: run_all_eq list_all_iff)
qed

text \<open>
  A verdict does not depend on the order in which things happened to be listed: two gates with the
  same invariants registered in different orders, over policy engines that give the same decision and
  list the deciding policies in different orders, give the same verdict with the same contents, and
  so the same digest.
\<close>

theorem gate_order_independent:
  assumes reg: "registry_ok (gate_invariants g)" "mset (gate_invariants g) = mset (gate_invariants g')"
    and eng: "gate_policies g = Some e" "gate_policies g' = Some e'"
      "e (request_view_of input) = Inr rsp" "e' (request_view_of input) = Inr rsp'"
    and rsp: "rsp_decision rsp = rsp_decision rsp'" "mset (rsp_reason rsp) = mset (rsp_reason rsp')"
      "mset (rsp_errors rsp) = mset (rsp_errors rsp')"
  shows "gate_verify gc g input = gate_verify gc g' input"
proof -
  have "sort (rsp_reason rsp) = sort (rsp_reason rsp')"
    by (rule sort_key_inj_key_eq) (simp_all add: rsp)
  moreover have "rsp_errors rsp = [] \<longleftrightarrow> rsp_errors rsp' = []" using rsp(3) by (metis mset_zero_iff)
  ultimately have "evaluate e input = evaluate e' input" by (simp add: evaluate_def eng rsp)
  then show ?thesis by (simp add: gate_verify_def eng run_all_permute [OF reg])
qed

definition sample_transformation :: transformation where
  "sample_transformation = \<lparr>t_id = zero_cid, t_intent_id = zero_cid, t_order = 0, t_subject = Object zero_cid, t_target = None,
     t_delta = \<lparr>delta_substrate = Fs, delta_cid = zero_cid\<rparr>, t_context = Substrate, t_actor = Human ''k'', t_parents = [], t_created_at = 0\<rparr>"

definition sample_gate_input :: gate_input where
  "sample_gate_input = \<lparr>gi_t = sample_transformation, gi_pre = sample_object, gi_planned = [], gi_evidence = [],
     gi_invert_available = False, gi_decided_at = 0\<rparr>"

definition sample_check :: "string \<Rightarrow> bool \<Rightarrow> invariant_check" where
  "sample_check i h = \<lparr>ic_id = i, ic_check = (\<lambda>_. Inr \<lparr>ir_invariant_id = i, ir_holds = h, ir_detail = None\<rparr>)\<rparr>"

definition sample_engine :: policy_engine where
  "sample_engine = (\<lambda>_. Inr \<lparr>rsp_decision = PolicyAllow, rsp_errors = [], rsp_reason = [''p'', ''q'']\<rparr>)"

theorem gate_order_independent_witness:
  "let g = with_invariants [sample_check ''a'' True, sample_check ''b'' False] (with_policies sample_engine);
       g' = with_invariants [sample_check ''b'' False, sample_check ''a'' True]
         (with_policies (\<lambda>_. Inr \<lparr>rsp_decision = PolicyAllow, rsp_errors = [], rsp_reason = [''q'', ''p'']\<rparr>));
       gc = \<lparr>gc_hash = (\<lambda>_. zero_cid), gc_text = (\<lambda>_. Inl []), gc_reasons = (\<lambda>_. Inl []), gc_proof = (\<lambda>_. Inl []), gc_ticket = (\<lambda>_. Inl [])\<rparr>
   in gate_verify gc g sample_gate_input = gate_verify gc g' sample_gate_input
      \<and> map_sum (\<lambda>_. ()) kind_of_verdict (gate_verify gc g sample_gate_input) = Inr Deny"
proof -
  define gc :: gate_codec where "gc = \<lparr>gc_hash = (\<lambda>_. zero_cid), gc_text = (\<lambda>_. Inl []), gc_reasons = (\<lambda>_. Inl []),
     gc_proof = (\<lambda>_. Inl []), gc_ticket = (\<lambda>_. Inl [])\<rparr>"
  define g where "g = with_invariants [sample_check ''a'' True, sample_check ''b'' False] (with_policies sample_engine)"
  define g' where "g' = with_invariants [sample_check ''b'' False, sample_check ''a'' True]
         (with_policies (\<lambda>_. Inr \<lparr>rsp_decision = PolicyAllow, rsp_errors = [], rsp_reason = [''q'', ''p'']\<rparr>))"
  have "gate_verify gc g sample_gate_input = gate_verify gc g' sample_gate_input"
    by (rule gate_order_independent [where e = sample_engine and rsp = "\<lparr>rsp_decision = PolicyAllow, rsp_errors = [], rsp_reason = [''p'', ''q'']\<rparr>"
          and e' = "\<lambda>_. Inr \<lparr>rsp_decision = PolicyAllow, rsp_errors = [], rsp_reason = [''q'', ''p'']\<rparr>"
          and rsp' = "\<lparr>rsp_decision = PolicyAllow, rsp_errors = [], rsp_reason = [''q'', ''p'']\<rparr>"])
      (simp_all add: g_def g'_def with_invariants_def with_policies_def registry_ok_def sample_check_def sample_engine_def)
  moreover have "map_sum (\<lambda>_. ()) kind_of_verdict (gate_verify gc g sample_gate_input) = Inr Deny"
    by (simp add: gate_verify_def g_def with_invariants_def with_policies_def evaluate_def sample_engine_def run_all_def
        sample_check_def violations_def new_reason_def elide_def MAX_MESSAGE_BYTES_def deny_reasons_def deny_def)
  ultimately show ?thesis by (simp add: Let_def g_def g'_def gc_def)
qed

section \<open>Texts are bounded\<close>

lemma elide_bounded:
  assumes "elide gc text = Inr short" "length text < u64_limit"
  shows "length short \<le> MAX_MESSAGE_BYTES"
proof (cases "length text \<le> MAX_MESSAGE_BYTES")
  case True
  with assms show ?thesis by (simp add: elide_def)
next
  case False
  have "length text < 10 ^ Suc 19" using assms(2) by simp
  then have "length (decimal (length text)) \<le> 20" using length_decimal [of _ 19] by simp
  moreover have "length (decimal MAX_MESSAGE_BYTES) \<le> 4" using length_decimal [of _ 3] by (simp add: MAX_MESSAGE_BYTES_def)
  moreover have "length (to_text c) = 56" for c by (simp add: to_text_digits CID_TEXT_PREFIX_def ascii_def)
  ultimately show ?thesis using assms(1) False
    by (auto simp: elide_def and_then_eq_Inr MAX_MESSAGE_BYTES_def)
qed

lemma new_reason_bounded:
  assumes "new_reason gc code message source = Inr r" "length message < u64_limit"
  shows "length (rs_message r) \<le> MAX_MESSAGE_BYTES \<and> rs_code r \<in> set REASON_CODES"
  using assms elide_bounded [of gc message] by (auto simp: new_reason_def and_then_eq_Inr split: if_splits)

lemma traverse_bounded:
  assumes "traverse (\<lambda>x. new_reason gc code (m x) (s x)) xs = Inr rs" "\<And>x. x \<in> set xs \<Longrightarrow> length (m x) < u64_limit"
    and "r \<in> set rs"
  shows "length (rs_message r) \<le> MAX_MESSAGE_BYTES \<and> rs_code r \<in> set REASON_CODES"
proof -
  from assms(1) have step: "list_all2 (\<lambda>x y. new_reason gc code (m x) (s x) = Inr y) xs rs" by (simp add: traverse_eq_Inr)
  from assms(3) obtain i where i: "i < length rs" "r = rs ! i" by (auto simp: in_set_conv_nth)
  with step have "new_reason gc code (m (xs ! i)) (s (xs ! i)) = Inr r" "xs ! i \<in> set xs"
    by (auto simp: list_all2_conv_all_nth)
  then show ?thesis by (rule new_reason_bounded [OF _ assms(2)])
qed

text \<open>Texts of policies and checks of at most \<open>2\<^sup>6\<^sup>2\<close> bytes: more than a machine can hold.\<close>

definition text_fits :: "string \<Rightarrow> bool" where
  "text_fits m \<longleftrightarrow> length m < 2 ^ 62"

definition texts_fit :: "gate \<Rightarrow> gate_input \<Rightarrow> bool" where
  "texts_fit g input \<longleftrightarrow>
     (case decided g input of Some rsp \<Rightarrow> list_all text_fits (rsp_reason rsp) | None \<Rightarrow> True)
     \<and> list_all (\<lambda>c. text_fits (ic_id c) \<and> (case ir_detail (answer input c) of Some d \<Rightarrow> text_fits d | None \<Rightarrow> True)) (gate_invariants g)"

lemma violations_bounded:
  assumes "violations gc results = Inr rs" "r \<in> set rs"
    and "\<And>x. x \<in> set results \<Longrightarrow> text_fits (ir_invariant_id x) \<and> (case ir_detail x of Some d \<Rightarrow> text_fits d | None \<Rightarrow> True)"
  shows "length (rs_message r) \<le> MAX_MESSAGE_BYTES \<and> rs_code r \<in> set REASON_CODES"
  by (rule traverse_bounded [OF assms(1) [unfolded violations_def] _ assms(2)])
    (use assms(3) in \<open>fastforce simp: text_fits_def split: option.splits\<close>)

lemma deny_reasons_bounded:
  assumes "deny_reasons gc po = Inr rs" "r \<in> set rs" "\<And>d. d \<in> set (po_determining po) \<Longrightarrow> text_fits (pdr_policy_id d)"
  shows "length (rs_message r) \<le> MAX_MESSAGE_BYTES \<and> rs_code r \<in> set REASON_CODES"
proof (cases "po_decision po = PolicyAllow \<or> po_determining po = []")
  case True
  with assms(1,2) show ?thesis
    by (auto simp: deny_reasons_def and_then_eq_Inr split: if_splits dest!: new_reason_bounded)
next
  case False
  with assms(1) have "traverse (\<lambda>d. new_reason gc POLICY_DENIED (''policy '' @ pdr_policy_id d @ '' forbids this transformation'')
      (FromPolicy (pdr_policy_id d))) (po_determining po) = Inr rs" by (simp add: deny_reasons_def)
  then show ?thesis by (rule traverse_bounded) (use assms(2,3) in \<open>fastforce simp: text_fits_def\<close>)+
qed

text \<open>
  C35. A denial is fit to be recorded: it has at least one reason, the reasons stand in the canonical
  order, every code is one of the published codes and every message is within the bound of
  \<open>MAX_MESSAGE_BYTES\<close>, however long the texts are that policies and checks give.
\<close>

theorem gate_reasons_bounded:
  assumes "gate_verify gc g input = Inr (DenyVerdict rs)" "texts_fit g input"
  shows "rs \<noteq> [] \<and> sorted (map canonical_key rs)
    \<and> (\<forall>r \<in> set rs. length (rs_message r) \<le> MAX_MESSAGE_BYTES \<and> rs_code r \<in> set REASON_CODES)"
proof -
  from assms(1) obtain engine outcome results violated reasons where
    engine: "gate_policies g = Some engine" and outcome: "evaluate engine input = Inr outcome"
    and results: "run_all (gate_invariants g) input = Inr results" and violated: "violations gc results = Inr violated"
    and reasons: "deny_reasons gc outcome = Inr reasons" "deny (reasons @ violated) = Inr (DenyVerdict rs)"
    by (auto simp: gate_verify_def and_then_eq_Inr split: option.splits if_splits)
  from outcome obtain rsp where rsp: "engine (request_view_of input) = Inr rsp" "rsp_errors rsp = []"
    "pdr_policy_id ` set (po_determining outcome) = set (rsp_reason rsp)"
    by (auto simp: evaluate_def and_then_eq_Inr map_err_def image_image split: if_splits sum.splits)
  from results have all: "list_all (answered input) (gate_invariants g)"
    and set: "set results = answer input ` set (gate_invariants g)"
    by (auto simp: run_all_eq split: if_splits)
  from engine rsp all have "decided g input = Some rsp" by (simp add: decided_def)
  with assms(2) have fits: "list_all text_fits (rsp_reason rsp)"
    "list_all (\<lambda>c. text_fits (ic_id c) \<and> (case ir_detail (answer input c) of Some d \<Rightarrow> text_fits d | None \<Rightarrow> True)) (gate_invariants g)"
    by (simp_all add: texts_fit_def)
  have "length (rs_message r) \<le> MAX_MESSAGE_BYTES \<and> rs_code r \<in> set REASON_CODES" if "r \<in> set reasons" for r
    by (rule deny_reasons_bounded [OF reasons(1) that]) (use fits(1) rsp(3) in \<open>auto simp: list_all_iff\<close>)
  moreover have "length (rs_message r) \<le> MAX_MESSAGE_BYTES \<and> rs_code r \<in> set REASON_CODES" if "r \<in> set violated" for r
    by (rule violations_bounded [OF violated that])
      (use fits(2) all set in \<open>auto simp: list_all_iff answered_def answer_def\<close>)
  moreover from reasons(2) have some: "reasons @ violated \<noteq> []" and rs: "rs = sort_key canonical_key (reasons @ violated)"
    by (auto simp: deny_def split: if_splits)
  from rs have "set rs = set reasons \<union> set violated" "sorted (map canonical_key rs)" by simp_all
  moreover from some rs have "length rs \<noteq> 0" by (simp only: length_sort) simp
  then have "rs \<noteq> []" by simp
  ultimately show ?thesis by blast
qed

theorem gate_reasons_bounded_witness:
  "let g = with_invariants [sample_check ''b'' False] (with_policies sample_engine);
       gc = \<lparr>gc_hash = (\<lambda>_. zero_cid), gc_text = (\<lambda>_. Inl []), gc_reasons = (\<lambda>_. Inl []), gc_proof = (\<lambda>_. Inl []), gc_ticket = (\<lambda>_. Inl [])\<rparr>
   in \<exists>rs. gate_verify gc g sample_gate_input = Inr (DenyVerdict rs) \<and> rs \<noteq> []
     \<and> (\<forall>r \<in> set rs. length (rs_message r) \<le> MAX_MESSAGE_BYTES \<and> rs_code r \<in> set REASON_CODES)"
proof -
  define gc :: gate_codec where "gc = \<lparr>gc_hash = (\<lambda>_. zero_cid), gc_text = (\<lambda>_. Inl []), gc_reasons = (\<lambda>_. Inl []),
     gc_proof = (\<lambda>_. Inl []), gc_ticket = (\<lambda>_. Inl [])\<rparr>"
  define g where "g = with_invariants [sample_check ''b'' False] (with_policies sample_engine)"
  obtain rs where rs: "gate_verify gc g sample_gate_input = Inr (DenyVerdict rs)"
    by (simp add: gate_verify_def g_def with_invariants_def with_policies_def evaluate_def sample_engine_def run_all_def
        sample_check_def violations_def new_reason_def elide_def MAX_MESSAGE_BYTES_def deny_reasons_def deny_def)
  moreover have "texts_fit g sample_gate_input"
    by (simp add: texts_fit_def decided_def g_def with_invariants_def with_policies_def sample_engine_def sample_check_def
        answered_def answer_def text_fits_def)
  ultimately show ?thesis using gate_reasons_bounded [of gc g sample_gate_input rs] by (simp add: Let_def g_def gc_def)
qed

end
