(* ===== verification/Receipt.thy ===== *)
theory Receipt
  imports Engine_Records "HOL-Library.Char_ord"
begin

text \<open>
  Receipts and their verification without the engine: \<open>src/crates/gx-witness/src\<close>, the files
  \<open>receipt.rs\<close> (payload, schema, issue, read sets, offline verification), \<open>dsse.rs\<close> (the
  pre-authentication encoding and envelopes) and the revocations of \<open>keys.rs\<close>. Signing and checking
  a signature are functions of the caller's key; the hash and the codecs are arguments. Texts are
  byte strings, written as \<open>string\<close>.
\<close>

section \<open>Envelopes\<close>

datatype witness_error =
    SignatureInvalid string
  | Schema
  | WitnessCanon canon_error
  | WitnessLog log_error
  | WitnessPanic

definition RECEIPT_PAYLOAD_TYPE :: string where
  "RECEIPT_PAYLOAD_TYPE = ''application/vnd.glovrex.receipt+dagcbor''"

definition CHECKPOINT_PAYLOAD_TYPE :: string where
  "CHECKPOINT_PAYLOAD_TYPE = ''application/vnd.glovrex.checkpoint+dagcbor''"

definition REVOCATION_PAYLOAD_TYPE :: string where
  "REVOCATION_PAYLOAD_TYPE = ''application/vnd.glovrex.revocation+dagcbor''"

definition VERDICT_CHECKPOINT_PAYLOAD_TYPE :: string where
  "VERDICT_CHECKPOINT_PAYLOAD_TYPE = ''application/vnd.glovrex.verdict-checkpoint+dagcbor''"

definition pae :: "string \<Rightarrow> bytes \<Rightarrow> bytes" where
  "pae payload_type payload =
     ascii ''DSSEv1'' @ ascii '' '' @ ascii (decimal (length payload_type)) @ ascii '' '' @ ascii payload_type
       @ ascii '' '' @ ascii (decimal (length payload)) @ ascii '' '' @ payload"

record dsse_envelope =
  env_payload_type :: string
  env_payload :: bytes
  env_signatures :: "dsse_signature list"

text \<open>A key pair by what it does: its id and its signature of a message; a verifying key likewise.\<close>

record key_pair =
  kp_key_id :: string
  kp_sign :: "bytes \<Rightarrow> bytes"

record verifying_key =
  vk_key_id :: string
  vk_check :: "bytes \<Rightarrow> bytes \<Rightarrow> bool"

definition signing_bytes :: "dsse_envelope \<Rightarrow> bytes" where
  "signing_bytes e = pae (env_payload_type e) (env_payload e)"

definition signature_for :: "dsse_envelope \<Rightarrow> string \<Rightarrow> dsse_signature option" where
  "signature_for e key_id = find (\<lambda>s. sig_keyid s = key_id) (env_signatures e)"

definition envelope_sign :: "key_pair \<Rightarrow> dsse_envelope \<Rightarrow> dsse_envelope" where
  "envelope_sign k e =
     e\<lparr>env_signatures := env_signatures e @ [\<lparr>sig_keyid = kp_key_id k, sig_bytes = kp_sign k (signing_bytes e)\<rparr>]\<rparr>"

definition verify_raw :: "verifying_key \<Rightarrow> bytes \<Rightarrow> dsse_signature \<Rightarrow> witness_error + unit" where
  "verify_raw k message offered =
     (if vk_check k message (sig_bytes offered) then Inr () else Inl (SignatureInvalid (vk_key_id k)))"

definition envelope_verify :: "verifying_key \<Rightarrow> dsse_envelope \<Rightarrow> witness_error + unit" where
  "envelope_verify k e =
     and_then (ok_or (SignatureInvalid (vk_key_id k)) (signature_for e (vk_key_id k))) (\<lambda>offered.
       verify_raw k (signing_bytes e) offered)"

definition checkpoint_signing_message :: "(checkpoint_core \<Rightarrow> string + bytes) \<Rightarrow> checkpoint \<Rightarrow> witness_error + bytes" where
  "checkpoint_signing_message tc ck =
     and_then (map_err WitnessLog (checkpoint_signing_bytes tc ck)) (\<lambda>core. Inr (pae CHECKPOINT_PAYLOAD_TYPE core))"

definition sign_checkpoint ::
  "(checkpoint_core \<Rightarrow> string + bytes) \<Rightarrow> checkpoint \<Rightarrow> key_pair \<Rightarrow> witness_error + checkpoint" where
  "sign_checkpoint tc ck k =
     and_then (checkpoint_signing_message tc ck) (\<lambda>message.
       Inr (ck\<lparr>ck_signature := \<lparr>sig_keyid = kp_key_id k, sig_bytes = kp_sign k message\<rparr>\<rparr>))"

definition verify_checkpoint ::
  "(checkpoint_core \<Rightarrow> string + bytes) \<Rightarrow> checkpoint \<Rightarrow> verifying_key \<Rightarrow> witness_error + unit" where
  "verify_checkpoint tc ck k =
     (if sig_keyid (ck_signature ck) \<noteq> vk_key_id k then Inl (SignatureInvalid (vk_key_id k))
      else and_then (checkpoint_signing_message tc ck) (\<lambda>message. verify_raw k message (ck_signature ck)))"

section \<open>Read sets\<close>

datatype read_set =
    PerRead "read_entry list"
  | PerEffectRoot cid nat
  | NothingRead
  | NoEscrowRecord
  | ReadsNotJournalled

definition READ_SET_SPILL_THRESHOLD :: nat where
  "READ_SET_SPILL_THRESHOLD = 5"

function read_split_loop :: "nat \<Rightarrow> nat \<Rightarrow> nat" where
  "read_split_loop n k = (if 0 < k \<and> k * 2 < n then read_split_loop n (k * 2) else k)"
  by pat_completeness auto
termination
  by (relation "measure (\<lambda>(n, k). n - k)") auto

declare read_split_loop.simps [simp del]

definition read_split_point :: "nat \<Rightarrow> nat" where
  "read_split_point n = read_split_loop n 1"

lemma read_split_loop_power:
  assumes "2 ^ j < n"
  shows "read_split_loop n (2 ^ j) = split_point n"
  using assms
proof (induction n "2 ^ j :: nat" arbitrary: j rule: read_split_loop.induct)
  case (1 n)
  show ?case
  proof (cases "2 ^ j * 2 < n")
    case True
    then have "2 ^ Suc j < n" by (simp add: mult.commute)
    with "1.hyps" [of "Suc j"] True show ?thesis
      by (subst read_split_loop.simps) (simp add: mult.commute)
  next
    case False
    then have "n \<le> 2 * 2 ^ j" by simp
    from split_point_unique [OF "1.prems" this] False show ?thesis by (subst read_split_loop.simps) simp
  qed
qed

lemma read_split_point: "2 \<le> n \<Longrightarrow> read_split_point n = split_point n"
  using read_split_loop_power [of 0 n] by (simp add: read_split_point_def)

text \<open>The root over no leaves is the assertion of the source, here None.\<close>

function read_set_root :: "(bytes \<Rightarrow> cid) \<Rightarrow> cid list \<Rightarrow> cid option" where
  "read_set_root H leaves =
     (if leaves = [] then None
      else if length leaves = 1 then Some (leaves ! 0)
      else
        (let k = read_split_point (length leaves) in
         case read_set_root H (take k leaves) of
           None \<Rightarrow> None
         | Some l \<Rightarrow> (case read_set_root H (drop k leaves) of None \<Rightarrow> None | Some r \<Rightarrow> Some (mint_node H l r))))"
  by pat_completeness auto
termination
proof (relation "measure (\<lambda>(H, leaves). length leaves)", goal_cases)
  case (2 H leaves k)
  then have "2 \<le> length leaves" by (cases leaves) (auto simp: Suc_le_eq)
  with 2 show ?case using split_point_bounds [of "length leaves"] by (simp add: read_split_point)
next
  case (3 H leaves k l)
  then have "2 \<le> length leaves" by (cases leaves) (auto simp: Suc_le_eq)
  with 3 show ?case using split_point_bounds [of "length leaves"] by (simp add: read_split_point)
qed simp

declare read_set_root.simps [simp del]

function read_set_path :: "(bytes \<Rightarrow> cid) \<Rightarrow> nat \<Rightarrow> cid list \<Rightarrow> cid option list" where
  "read_set_path H index leaves =
     (if length leaves \<le> 1 then []
      else
        (let k = read_split_point (length leaves) in
         if index < k then read_set_path H index (take k leaves) @ [read_set_root H (drop k leaves)]
         else read_set_path H (index - k) (drop k leaves) @ [read_set_root H (take k leaves)]))"
  by pat_completeness auto
termination
proof (relation "measure (\<lambda>(H, i, leaves). length leaves)", goal_cases)
  case (2 H index leaves k)
  then show ?case using split_point_bounds [of "length leaves"] by (simp add: read_split_point)
next
  case (3 H index leaves k)
  then show ?case using split_point_bounds [of "length leaves"] by (auto simp: read_split_point)
qed simp

declare read_set_path.simps [simp del]

fun read_fold_loop :: "(bytes \<Rightarrow> cid) \<Rightarrow> cid list \<Rightarrow> nat \<Rightarrow> nat \<Rightarrow> cid \<Rightarrow> cid option" where
  "read_fold_loop H [] node final acc = (if final = 0 then Some acc else None)"
| "read_fold_loop H (sibling # siblings) node final acc =
     (if final = 0 then None
      else if node mod 2 = 1 \<or> node = final
      then (let (node, final) = shift_even node final
            in read_fold_loop H siblings (node div 2) (final div 2) (mint_node H sibling acc))
      else read_fold_loop H siblings (node div 2) (final div 2) (mint_node H acc sibling))"

definition read_set_fold :: "(bytes \<Rightarrow> cid) \<Rightarrow> nat \<Rightarrow> cid \<Rightarrow> cid list \<Rightarrow> nat \<Rightarrow> cid option" where
  "read_set_fold H index leaf siblings leaf_count =
     (if leaf_count = 0 \<or> index \<ge> leaf_count then None else read_fold_loop H siblings index (leaf_count - 1) leaf)"

definition read_set_leaves ::
  "(bytes \<Rightarrow> cid) \<Rightarrow> (read_entry \<Rightarrow> string + bytes) \<Rightarrow> read_entry list \<Rightarrow> witness_error + cid list" where
  "read_set_leaves H te entries = traverse (\<lambda>e. map_err WitnessCanon (mint_leaf H te e)) entries"

definition read_key :: "read_entry \<Rightarrow> cid \<times> string" where
  "read_key e = (read_digest e, read_locator e)"

definition from_reads :: "(bytes \<Rightarrow> cid) \<Rightarrow> (read_entry \<Rightarrow> string + bytes) \<Rightarrow> read_entry list \<Rightarrow> witness_error + read_set" where
  "from_reads H te reads =
     (let entries = remdups_adj (sort_key read_key reads) in
      if entries = [] then Inr NothingRead
      else if length entries \<le> READ_SET_SPILL_THRESHOLD then Inr (PerRead entries)
      else and_then (read_set_leaves H te entries) (\<lambda>leaves.
             and_then (ok_or WitnessPanic (read_set_root H leaves)) (\<lambda>root. Inr (PerEffectRoot root (length leaves)))))"

fun read_set_names :: "read_set \<Rightarrow> string \<Rightarrow> bool option" where
  "read_set_names (PerRead entries) locator = Some (list_ex (\<lambda>e. read_locator e = locator) entries)"
| "read_set_names (PerEffectRoot _ _) locator = None"
| "read_set_names NothingRead locator = Some False"
| "read_set_names NoEscrowRecord locator = None"
| "read_set_names ReadsNotJournalled locator = None"

fun distinct_objects :: "read_set \<Rightarrow> nat" where
  "distinct_objects (PerRead entries) = length entries"
| "distinct_objects (PerEffectRoot _ leaf_count) = leaf_count"
| "distinct_objects _ = 0"

section \<open>Receipts\<close>

datatype receipt_kind = VerdictReceipt | CommitReceipt

record verdict_summary =
  vs_kind :: verdict_kind
  vs_proof_digest :: cid

record undo_attestation =
  ua_undoes :: transformation_id
  ua_witness :: undo_disposition

record receipt_payload =
  rp_key_id :: string
  rp_verdict :: "verdict_summary option"
  rp_enforced :: bool
  rp_confinement :: "confinement_context option"
  rp_catalogue_hash :: "string option"
  rp_read_set :: "read_set option"
  rp_reversibility :: "reversibility option"
  rp_undo :: "undo_attestation option"
  rp_determinism_boundary :: determinism_boundary
  rp_receipt_kind :: receipt_kind
  rp_canonical_cid :: cid
  rp_inverse_delta :: "cid option"
  rp_transformation :: transformation_id
  rp_inclusion_proof :: "inclusion_proof option"
  rp_fingerprint_scope :: string
  rp_fail_posture_engaged :: bool
  rp_precondition_fingerprint :: cid
  rp_postcondition_fingerprint :: "cid option"
  rp_payload_version :: "nat option"
  rp_engine_version :: "string option"

record receipt =
  rc_envelope :: dsse_envelope
  rc_issued_at :: timestamp

definition check_schema :: "receipt_payload \<Rightarrow> witness_error + unit" where
  "check_schema p =
     (if rp_verdict p = None \<and> \<not> rp_fail_posture_engaged p then Inl Schema
      else if (case rp_determinism_boundary p of Mixed i v \<Rightarrow> i = v | _ \<Rightarrow> False) then Inl Schema
      else if verdict_derivation (rp_determinism_boundary p) = LlmOriginated then Inl Schema
      else if rp_verdict p = None \<and> verdict_derivation (rp_determinism_boundary p) = DeterministicReplay then Inl Schema
      else if (case rp_confinement p of
                 None \<Rightarrow> False
               | Some c \<Rightarrow> kernel_confined c \<and> ruleset_hash c = None \<or> \<not> kernel_confined c \<and> ruleset_hash c \<noteq> None) then Inl Schema
      else case rp_receipt_kind p of
          VerdictReceipt \<Rightarrow>
            (if rp_inclusion_proof p \<noteq> None \<or> rp_postcondition_fingerprint p \<noteq> None \<or> rp_inverse_delta p \<noteq> None
                \<or> rp_read_set p \<noteq> None \<or> rp_reversibility p \<noteq> None \<or> rp_undo p \<noteq> None then Inl Schema
             else Inr ())
        | CommitReceipt \<Rightarrow> (if rp_inclusion_proof p = None then Inl Schema else Inr ()))"

definition receipt_issue ::
  "(receipt_payload \<Rightarrow> string + bytes) \<Rightarrow> receipt_payload \<Rightarrow> timestamp \<Rightarrow> key_pair \<Rightarrow> witness_error + receipt" where
  "receipt_issue tp p issued_at k =
     and_then (check_schema p) (\<lambda>_.
     and_then (map_err WitnessCanon (cbor_encode tp p)) (\<lambda>bs.
       Inr \<lparr>rc_envelope = envelope_sign k \<lparr>env_payload_type = RECEIPT_PAYLOAD_TYPE, env_payload = bs, env_signatures = []\<rparr>,
            rc_issued_at = issued_at\<rparr>))"

definition receipt_payload_of :: "(bytes \<Rightarrow> string + receipt_payload) \<Rightarrow> receipt \<Rightarrow> witness_error + receipt_payload" where
  "receipt_payload_of fp r = map_err WitnessCanon (cbor_decode fp (env_payload (rc_envelope r)))"

definition ledger_digest :: "(bytes \<Rightarrow> cid) \<Rightarrow> (receipt_payload \<Rightarrow> string + bytes) \<Rightarrow> receipt_payload \<Rightarrow> witness_error + cid" where
  "ledger_digest H tp p = map_err WitnessCanon (cid_compute H tp (\<lambda>p. p) (p\<lparr>rp_inclusion_proof := None\<rparr>))"

definition INCLUSION_PROOF_KEY :: bytes where
  "INCLUSION_PROOF_KEY = ascii ''inclusion_proof''"

definition CBOR_NULL :: byte where
  "CBOR_NULL = 0xf6"

definition ledger_digest_of_signed_payload :: "(bytes \<Rightarrow> cid) \<Rightarrow> bytes \<Rightarrow> witness_error + cid" where
  "ledger_digest_of_signed_payload H bs =
     and_then (map_err WitnessCanon (value_span bs INCLUSION_PROOF_KEY)) (\<lambda>span.
       case span of
         None \<Rightarrow> map_err WitnessCanon (of_canonical_bytes H bs)
       | Some (s, e) \<Rightarrow> map_err WitnessCanon (of_canonical_bytes H (take s bs @ [CBOR_NULL] @ drop e bs)))"

section \<open>Revocations\<close>

record revocation_entry =
  re_key_id :: string
  re_reason :: string
  re_revoked_at :: timestamp
  re_superseded_by :: "string option"

datatype retroaction = FromRevocation | RetroactAll

definition revocation_signed_by :: "(revocation_entry \<Rightarrow> string + bytes) \<Rightarrow> revocation_entry \<Rightarrow> key_pair \<Rightarrow> witness_error + dsse_envelope" where
  "revocation_signed_by tr e k =
     (if re_key_id e \<noteq> kp_key_id k then Inl Schema
      else and_then (map_err WitnessCanon (cbor_encode tr e)) (\<lambda>bs.
        Inr (envelope_sign k \<lparr>env_payload_type = REVOCATION_PAYLOAD_TYPE, env_payload = bs, env_signatures = []\<rparr>)))"

definition revocation_from_signed ::
  "(bytes \<Rightarrow> string + revocation_entry) \<Rightarrow> dsse_envelope \<Rightarrow> verifying_key \<Rightarrow> witness_error + revocation_entry" where
  "revocation_from_signed fr e k =
     (if env_payload_type e \<noteq> REVOCATION_PAYLOAD_TYPE then Inl Schema
      else and_then (map_err WitnessCanon (cbor_decode fr (env_payload e))) (\<lambda>entry.
        if re_key_id entry \<noteq> vk_key_id k then Inl Schema
        else and_then (envelope_verify k e) (\<lambda>_. Inr entry)))"

fun ledger_from_signed ::
  "(bytes \<Rightarrow> string + revocation_entry) \<Rightarrow> dsse_envelope list \<Rightarrow> verifying_key \<Rightarrow> witness_error + revocation_entry list \<times> nat" where
  "ledger_from_signed fr [] k = Inr ([], 0)"
| "ledger_from_signed fr (e # es) k =
     (let rest = (\<lambda>f. and_then (ledger_from_signed fr es k) (\<lambda>x. Inr (f x))) in
      case cbor_decode fr (env_payload e) of
        Inl _ \<Rightarrow> rest (\<lambda>(entries, ignored). (entries, ignored + 1))
      | Inr named \<Rightarrow>
          if re_key_id named \<noteq> vk_key_id k then rest (\<lambda>(entries, ignored). (entries, ignored + 1))
          else and_then (revocation_from_signed fr e k) (\<lambda>entry. rest (\<lambda>(entries, ignored). (entry # entries, ignored))))"

text \<open>\<open>min_by_key\<close> keeps the first of the least.\<close>

fun min_by_key :: "('a \<Rightarrow> 'k :: linorder) \<Rightarrow> 'a list \<Rightarrow> 'a option" where
  "min_by_key f [] = None"
| "min_by_key f (x # xs) = (case min_by_key f xs of None \<Rightarrow> Some x | Some y \<Rightarrow> if f y < f x then Some y else Some x)"

definition revocation_of :: "revocation_entry list \<Rightarrow> string \<Rightarrow> revocation_entry option" where
  "revocation_of entries key_id = min_by_key re_revoked_at (filter (\<lambda>e. re_key_id e = key_id) entries)"

datatype revocation_check = NotConsulted | NotRevoked | NotYetInForce | ValidAtIssue | Revoked

record revocation_policy =
  rpol_ledger :: "revocation_entry list"
  rpol_retroaction :: retroaction
  rpol_verified_at :: timestamp

definition revocation_status :: "revocation_entry option \<Rightarrow> timestamp \<Rightarrow> retroaction \<Rightarrow> timestamp \<Rightarrow> revocation_check" where
  "revocation_status entry issued_at retro verified_at =
     (case entry of
        None \<Rightarrow> NotRevoked
      | Some e \<Rightarrow>
          if re_revoked_at e > verified_at then NotYetInForce
          else case retro of
              RetroactAll \<Rightarrow> Revoked
            | FromRevocation \<Rightarrow> if issued_at < re_revoked_at e then ValidAtIssue else Revoked)"

section \<open>Offline verification\<close>

datatype inclusion_check = NotApplicable | Verified | Refuted | Unanchored | Unbridged

record checks =
  chk_canonical_cid :: bool
  chk_inclusion :: inclusion_check
  chk_revocation :: revocation_check
  chk_key_id :: string

definition checks_verified :: "checks \<Rightarrow> bool" where
  "checks_verified c \<longleftrightarrow> chk_canonical_cid c \<and> chk_inclusion c \<in> {NotApplicable, Verified} \<and> chk_revocation c \<noteq> Revoked"

record anchorage =
  anc_checkpoint :: checkpoint
  anc_bridge :: "consistency_proof option"

definition verify_inclusion_from ::
  "(bytes \<Rightarrow> cid) \<Rightarrow> (ledger_leaf \<Rightarrow> string + bytes) \<Rightarrow> receipt_payload \<Rightarrow> bytes \<Rightarrow> inclusion_proof \<Rightarrow> anchorage
    \<Rightarrow> witness_error + inclusion_check" where
  "verify_inclusion_from H lv payload raw proof anch =
     (let anchor = anc_checkpoint anch in
      and_then (ledger_digest_of_signed_payload H raw) (\<lambda>d.
      let leaf = \<lparr>leaf_index = ip_leaf_index proof, leaf_receipt = d, leaf_transformation = rp_transformation payload\<rparr> in
      if ck_tree_size anchor = ip_tree_size proof then
        and_then (map_err WitnessLog (verify_inclusion_of H lv proof (ck_root_hash anchor) leaf)) (\<lambda>ok.
          Inr (if ok then Verified else Refuted))
      else if ck_tree_size anchor < ip_tree_size proof then Inr Unbridged
      else
        and_then (map_err WitnessLog (root_of_inclusion H lv proof leaf)) (\<lambda>reached.
          case reached of
            None \<Rightarrow> Inr Refuted
          | Some root \<Rightarrow>
              (case anc_bridge anch of
                 None \<Rightarrow> Inr Unbridged
               | Some bridge \<Rightarrow>
                   if cp_old_size bridge \<noteq> ip_tree_size proof \<or> cp_new_size bridge \<noteq> ck_tree_size anchor then Inr Unbridged
                   else and_then (map_err WitnessLog (verify_consistency H bridge root (ck_root_hash anchor))) (\<lambda>ok.
                     Inr (if ok then Verified else Refuted))))))"

definition checks_of ::
  "(bytes \<Rightarrow> cid) \<Rightarrow> (ledger_leaf \<Rightarrow> string + bytes) \<Rightarrow> (bytes \<Rightarrow> string + receipt_payload) \<Rightarrow> receipt \<Rightarrow> verifying_key
    \<Rightarrow> anchorage option \<Rightarrow> revocation_policy option \<Rightarrow> witness_error + checks" where
  "checks_of H lv fp r key anchor revocation =
     and_then (envelope_verify key (rc_envelope r)) (\<lambda>_.
     and_then (receipt_payload_of fp r) (\<lambda>payload.
     and_then (check_schema payload) (\<lambda>_.
     if rp_key_id payload \<noteq> vk_key_id key then Inl Schema
     else
       and_then (case (rp_receipt_kind payload, rp_inclusion_proof payload, anchor) of
                   (VerdictReceipt, _, _) \<Rightarrow> Inr NotApplicable
                 | (CommitReceipt, Some proof, Some anch) \<Rightarrow>
                     verify_inclusion_from H lv payload (env_payload (rc_envelope r)) proof anch
                 | (CommitReceipt, _, None) \<Rightarrow> Inr Unanchored
                 | (CommitReceipt, None, Some _) \<Rightarrow> Inl Schema) (\<lambda>inclusion.
       Inr \<lparr>chk_canonical_cid = (rp_canonical_cid payload = rp_transformation payload), chk_inclusion = inclusion,
            chk_revocation = (case revocation of
                None \<Rightarrow> NotConsulted
              | Some pol \<Rightarrow> revocation_status (revocation_of (rpol_ledger pol) (vk_key_id key)) (rc_issued_at r)
                  (rpol_retroaction pol) (rpol_verified_at pol)),
            chk_key_id = vk_key_id key\<rparr>))))"

section \<open>Read sets are trees of the ledger's kind\<close>

lemma read_set_root_mth: "read_set_root H leaves = mth H leaves"
proof (induction leaves rule: length_induct)
  case (1 leaves)
  show ?case
  proof (cases "2 \<le> length leaves")
    case True
    then have b: "0 < split_point (length leaves)" "split_point (length leaves) < length leaves"
      using split_point_bounds by simp_all
    then have "read_set_root H (take (split_point (length leaves)) leaves) = mth H (take (split_point (length leaves)) leaves)"
      "read_set_root H (drop (split_point (length leaves)) leaves) = mth H (drop (split_point (length leaves)) leaves)"
      using "1.IH" by simp_all
    with True show ?thesis
      by (subst read_set_root.simps, subst mth.simps)
        (auto simp: read_split_point Let_def node_hash_def split: option.split)
  next
    case False
    then show ?thesis
      by (subst read_set_root.simps, subst mth.simps) (cases leaves; auto simp: Suc_le_eq)
  qed
qed

lemma read_set_path_audit: "read_set_path H i leaves = map Some (audit_path H i leaves)"
proof (induction H i leaves rule: audit_path.induct)
  case (1 H i leaves)
  show ?case
  proof (cases "length leaves \<le> 1")
    case True
    then show ?thesis by (subst read_set_path.simps, subst audit_path.simps) simp
  next
    case False
    define k where "k = split_point (length leaves)"
    have k: "read_split_point (length leaves) = k" "0 < k" "k < length leaves"
      using False split_point_bounds [of "length leaves"] by (simp_all add: read_split_point k_def)
    then have roots: "mth H (take k leaves) = Some (mtr H (take k leaves))" "mth H (drop k leaves) = Some (mtr H (drop k leaves))"
      by (intro mth_mtr; auto)+
    show ?thesis
      using False "1.IH" [OF False k_def]
      by (subst read_set_path.simps, subst audit_path.simps)
        (simp add: Let_def k(1) k_def [symmetric] read_set_root_mth roots)
  qed
qed

lemma read_fold_loop_reconstruct: "read_fold_loop H siblings node final acc = reconstruct_loop H siblings node final acc"
  by (induction siblings arbitrary: node final acc) (auto simp: node_hash_def Let_def split: prod.splits)

text \<open>
  The path of a read, folded from its leaf, reaches the root the receipt carries; any other leaf or
  path that reaches it hashes a different byte string to the same value.
\<close>

lemma read_set_fold_path:
  assumes "i < length leaves"
  shows "read_set_fold H i (leaves ! i) (audit_path H i leaves) (length leaves) = read_set_root H leaves"
  using assms reconstruct_audit_path [OF assms, of H]
  by (simp add: read_set_fold_def read_fold_loop_reconstruct read_set_root_mth mth_mtr)

lemma read_set_fold_sound:
  assumes "read_set_fold H i leaf siblings (length leaves) = read_set_root H leaves" "leaves \<noteq> []"
  shows "leaf = leaves ! i \<and> siblings = audit_path H i leaves
    \<or> collision H (walk_inputs H siblings i (length leaves - 1) leaf)
        (walk_inputs H (audit_path H i leaves) i (length leaves - 1) (leaves ! i))"
proof -
  have root: "read_set_root H leaves = Some (mtr H leaves)" using assms(2) by (simp add: read_set_root_mth mth_mtr)
  then have i: "i < length leaves" using assms(1) by (auto simp: read_set_fold_def split: if_splits)
  then have "reconstruct_loop H siblings i (length leaves - 1) leaf = Some (mtr H leaves)"
    using assms(1) root by (simp add: read_set_fold_def read_fold_loop_reconstruct split: if_splits)
  from reconstruct_loop_unique [OF this reconstruct_audit_path [OF i]] show ?thesis by auto
qed

section \<open>The pre-authentication encoding is unambiguous\<close>

lemma unat_of_char: "unat (of_char c :: byte) = of_char c"
proof -
  have "(of_char c :: byte) = of_nat (of_char c)" by (simp only: of_nat_of_char)
  then have "unat (of_char c :: byte) = of_char c mod 256" by (simp add: unat_of_nat)
  then show ?thesis by simp
qed

lemma ascii_inject: "ascii s = ascii t \<longleftrightarrow> s = t"
proof -
  have "inj (of_char :: char \<Rightarrow> byte)" by (metis injI of_char_eq_iff unat_of_char)
  then show ?thesis by (simp add: ascii_def inj_map_eq_map)
qed

lemma sized_inject:
  assumes "ascii (decimal m) @ ascii '' '' @ xs = ascii (decimal n) @ ascii '' '' @ ys"
  shows "m = n \<and> xs = ys"
proof -
  have space: "ascii '' '' = [32]" by (simp add: ascii_def)
  have digits: "takeWhile (\<lambda>b. b \<noteq> 32) (ascii (decimal k) @ ascii '' '' @ zs) = ascii (decimal k)" for k zs
  proof -
    have "b \<noteq> 32" if b: "b \<in> set (ascii (decimal k))" for b
    proof
      assume "b = 32"
      with b obtain c where "c \<in> set (decimal k)" "of_char c = (32 :: byte)" by (auto simp: ascii_def)
      then have "(of_char c :: nat) = 32" using unat_of_char [of c] by simp
      with decimal_digits [OF \<open>c \<in> set (decimal k)\<close>] show False by simp
    qed
    then show ?thesis by (simp add: space takeWhile_append2)
  qed
  have "ascii (decimal m) = ascii (decimal n)" using arg_cong [OF assms, of "takeWhile (\<lambda>b. b \<noteq> 32)"] unfolding digits .
  then show ?thesis using assms by (simp add: ascii_inject decimal_inject)
qed

lemma pae_inject: "pae t p = pae t' p' \<longleftrightarrow> t = t' \<and> p = p'"
proof
  assume "pae t p = pae t' p'"
  then have "ascii (decimal (length t)) @ ascii '' '' @ (ascii t @ ascii '' '' @ ascii (decimal (length p)) @ ascii '' '' @ p)
      = ascii (decimal (length t')) @ ascii '' '' @ (ascii t' @ ascii '' '' @ ascii (decimal (length p')) @ ascii '' '' @ p')"
    by (simp add: pae_def)
  from sized_inject [OF this] have len: "length t = length t'"
    and rest: "ascii t @ (ascii '' '' @ ascii (decimal (length p)) @ ascii '' '' @ p)
      = ascii t' @ (ascii '' '' @ ascii (decimal (length p')) @ ascii '' '' @ p')" by simp_all
  have "length (ascii t) = length (ascii t')" using len by (simp add: ascii_def)
  from append_eq_append_conv [THEN iffD1, OF disjI1 [OF this] rest]
  have eq: "ascii t = ascii t'" "ascii (decimal (length p)) @ ascii '' '' @ p = ascii (decimal (length p')) @ ascii '' '' @ p'"
    by (metis same_append_eq)+
  from eq(1) sized_inject [OF eq(2)] show "t = t' \<and> p = p'" by (simp add: ascii_inject)
qed simp

section \<open>The digest a receipt is filed under\<close>

text \<open>Replacing the value of one key in a canonical map by null gives the canonical map with null there.\<close>

definition null_at :: "bytes \<Rightarrow> (bytes \<times> cbor) list \<Rightarrow> (bytes \<times> cbor) list" where
  "null_at key kvs = map (\<lambda>(k, v). (k, if k = key then CNull else v)) kvs"

lemma null_at_absent: "key \<notin> fst ` set kvs \<Longrightarrow> null_at key kvs = kvs"
  unfolding null_at_def by (rule map_idI) force

lemma entry_span_null:
  assumes "distinct (map fst kvs)" "entry_span (length pre) key kvs = Some (a, b)"
  shows "take a (pre @ enc_entries kvs) @ [CBOR_NULL] @ drop b (pre @ enc_entries kvs) = pre @ enc_entries (null_at key kvs)"
  using assms
proof (induction kvs arbitrary: pre)
  case (Cons kv kvs)
  obtain k v where kv: "kv = (k, v)" by (cases kv)
  show ?case
  proof (cases "k = key")
    case True
    with Cons.prems kv have ab: "a = length (pre @ enc_text k)" "b = length (pre @ enc_text k @ enc v)" by (auto simp: Let_def)
    have "null_at key kvs = kvs" using Cons.prems(1) True kv by (intro null_at_absent) auto
    moreover have "null_at key (kv # kvs) = (k, CNull) # null_at key kvs" using True kv by (simp add: null_at_def)
    moreover have "drop b ((pre @ enc_text k @ enc v) @ enc_entries kvs) = enc_entries kvs" unfolding ab(2) by simp
    moreover have "take a ((pre @ enc_text k) @ enc v @ enc_entries kvs) = pre @ enc_text k" unfolding ab(1) by simp
    ultimately show ?thesis by (simp add: kv CBOR_NULL_def)
  next
    case False
    with Cons.prems kv have "entry_span (length (pre @ enc_text k @ enc v)) key kvs = Some (a, b)" "distinct (map fst kvs)"
      by (auto simp: Let_def add.assoc)
    from Cons.IH [OF this(2,1)] False kv show ?thesis by (simp add: null_at_def)
  qed
qed simp

lemma null_at_simps:
  "length (null_at key kvs) = length kvs" "map fst (null_at key kvs) = map fst kvs"
  "length (enc_entries (null_at key kvs)) \<le> length (enc_entries kvs)"
proof -
  have "length (enc (if k = key then CNull else v)) \<le> length (enc v)" for k v
    using enc_nonempty [of v] by (simp add: Suc_le_eq)
  then show "length (enc_entries (null_at key kvs)) \<le> length (enc_entries kvs)"
    by (induction kvs) (auto simp: null_at_def add_mono)
qed (auto simp: null_at_def)

lemma null_at_fits: "fits 0 (CMap kvs) \<Longrightarrow> fits 0 (CMap (null_at key kvs))"
proof -
  assume f: "fits 0 (CMap kvs)"
  have "map (enc_text \<circ> fst) (null_at key kvs) = map (enc_text \<circ> fst) kvs"
    unfolding map_map [symmetric] null_at_simps(2) ..
  moreover have "\<forall>(k, v) \<in> set (null_at key kvs). fits 1 (CText k) \<and> fits 1 v"
    using f by (auto simp: null_at_def MAX_DEPTH_def split: if_splits)
  ultimately show "fits 0 (CMap (null_at key kvs))" using f by (simp add: null_at_simps)
qed

lemma fits_distinct: "fits 0 (CMap kvs) \<Longrightarrow> distinct (map fst kvs)"
  by (metis distinct_map fits.simps(6) map_map strict_sorted_iff)

lemma entry_span_present: "key \<in> fst ` set kvs \<Longrightarrow> \<exists>a b. entry_span i key kvs = Some (a, b)"
  by (induction kvs arbitrary: i) (force simp: Let_def)+

text \<open>
  What is relied on of the codec: a payload is written as a map with one entry per field, so that
  taking the inclusion proof out changes the value at its key to null and nothing else.
\<close>

definition payload_codec :: "(receipt_payload \<Rightarrow> string + bytes) \<Rightarrow> bool" where
  "payload_codec tp \<longleftrightarrow>
     (\<forall>p bs. tp p = Inr bs \<longrightarrow>
        (\<exists>kvs. fits 0 (CMap kvs) \<and> bs = enc (CMap kvs) \<and> INCLUSION_PROOF_KEY \<in> fst ` set kvs
           \<and> tp (p\<lparr>rp_inclusion_proof := None\<rparr>) = Inr (enc (CMap (null_at INCLUSION_PROOF_KEY kvs)))))"

text \<open>The digest of the bytes before the inclusion proof is there, and of the signed bytes with it cut out.\<close>

lemma filed_digest:
  assumes "payload_codec tp" "receipt_issue tp p issued_at k = Inr r" "length (env_payload (rc_envelope r)) < u64_limit"
  shows "ledger_digest_of_signed_payload H (env_payload (rc_envelope r)) = ledger_digest H tp p
    \<and> is_ok (ledger_digest H tp p)"
proof -
  define bs where "bs = env_payload (rc_envelope r)"
  have tp: "tp p = Inr bs"
    using assms(2) cbor_encode_canonical [of tp p] by (auto simp: receipt_issue_def and_then_eq_Inr envelope_sign_def bs_def)
  obtain kvs where f: "fits 0 (CMap kvs)" and bs: "bs = enc (CMap kvs)" and key: "INCLUSION_PROOF_KEY \<in> fst ` set kvs"
    and none: "tp (p\<lparr>rp_inclusion_proof := None\<rparr>) = Inr (enc (CMap (null_at INCLUSION_PROOF_KEY kvs)))"
    using assms(1) tp unfolding payload_codec_def by blast
  let ?h = "enc_head 5 (length kvs)" and ?null = "enc (CMap (null_at INCLUSION_PROOF_KEY kvs))"
  have len: "length (enc (CMap kvs)) < u64_limit" using assms(3) by (simp only: bs bs_def [symmetric])
  obtain a b where span: "entry_span (length ?h) INCLUSION_PROOF_KEY kvs = Some (a, b)"
    using entry_span_present [OF key] by blast
  have "take a bs @ [CBOR_NULL] @ drop b bs = ?null"
    using entry_span_null [OF fits_distinct [OF f] span] by (simp add: bs null_at_simps)
  moreover have "length ?null < u64_limit"
    using len null_at_simps(3) [of INCLUSION_PROOF_KEY kvs] by (simp add: null_at_simps(1))
  then have scan: "scan_strict ?null = Inr ()" using scan_strict_iff null_at_fits [OF f] by blast
  moreover have "cbor_encode tp (p\<lparr>rp_inclusion_proof := None\<rparr>) = Inr ?null"
    by (simp only: cbor_encode_def none and_then_simps map_err_simps scan sum.case)
  moreover have "value_span bs INCLUSION_PROOF_KEY = Inr (Some (a, b))"
    using value_span_enc [OF f len] span by (simp only: bs)
  ultimately show ?thesis unfolding bs_def [symmetric]
    by (simp add: ledger_digest_of_signed_payload_def ledger_digest_def cid_compute_def of_canonical_bytes_def del: enc.simps)
qed

text \<open>
  C33. The digest under which a receipt is filed in the ledger, taken before its inclusion proof exists,
  is the digest a verifier computes from the signed bytes alone, by cutting the inclusion proof out
  of them: the two roads agree on every receipt that is issued, and both succeed, for a codec that writes
  a payload as a canonical map with an entry for each field, and signed bytes shorter than \<open>2\<^sup>6\<^sup>4\<close>.
\<close>

theorem filed_digest_is_signed_digest:
  assumes "payload_codec tp" "receipt_issue tp p issued_at k = Inr r" "length (env_payload (rc_envelope r)) < u64_limit"
  shows "ledger_digest_of_signed_payload H (env_payload (rc_envelope r)) = ledger_digest H tp p
    \<and> is_ok (ledger_digest H tp p)"
  by (rule filed_digest [OF assms])

definition sample_payload :: receipt_payload where
  "sample_payload = \<lparr>rp_key_id = ''k'', rp_verdict = Some \<lparr>vs_kind = Admit, vs_proof_digest = sample_cid\<rparr>, rp_enforced = True,
     rp_confinement = None, rp_catalogue_hash = None, rp_read_set = Some NothingRead, rp_reversibility = Some ReversibleTrue,
     rp_undo = None, rp_determinism_boundary = BoundaryDeterministic, rp_receipt_kind = CommitReceipt,
     rp_canonical_cid = sample_cid, rp_inverse_delta = None, rp_transformation = sample_cid,
     rp_inclusion_proof = Some \<lparr>ip_leaf_index = 0, ip_tree_size = 1, ip_audit_path = []\<rparr>, rp_fingerprint_scope = [],
     rp_fail_posture_engaged = False, rp_precondition_fingerprint = sample_cid, rp_postcondition_fingerprint = Some sample_cid,
     rp_payload_version = Some 1, rp_engine_version = None\<rparr>"

definition sample_tp :: "receipt_payload \<Rightarrow> string + bytes" where
  "sample_tp p = Inr (enc (CMap [(INCLUSION_PROOF_KEY, if rp_inclusion_proof p = None then CNull else CBool True)]))"

definition sample_key :: key_pair where
  "sample_key = \<lparr>kp_key_id = ''k'', kp_sign = (\<lambda>m. m)\<rparr>"

lemma sample_map_fits: "fits 0 (CMap [(INCLUSION_PROOF_KEY, if b then CNull else CBool True)])"
proof -
  have "utf8_valid INCLUSION_PROOF_KEY" by (rule utf8_valid_ascii) (simp add: INCLUSION_PROOF_KEY_def ascii_def)
  then show ?thesis by (simp add: MAX_DEPTH_def) (simp add: INCLUSION_PROOF_KEY_def ascii_def)
qed

lemma sample_map_length: "length (enc (CMap [(INCLUSION_PROOF_KEY, if b then CNull else CBool True)])) < u64_limit"
  by (simp add: enc_text_def enc_head_def INCLUSION_PROOF_KEY_def ascii_def)

lemma sample_payload_codec: "payload_codec sample_tp"
  unfolding payload_codec_def
proof (intro allI impI)
  fix p bs assume "sample_tp p = Inr bs"
  then show "\<exists>kvs. fits 0 (CMap kvs) \<and> bs = enc (CMap kvs) \<and> INCLUSION_PROOF_KEY \<in> fst ` set kvs
     \<and> sample_tp (p\<lparr>rp_inclusion_proof := None\<rparr>) = Inr (enc (CMap (null_at INCLUSION_PROOF_KEY kvs)))"
    using sample_map_fits [of "rp_inclusion_proof p = None"]
    by (intro exI [of _ "[(INCLUSION_PROOF_KEY, if rp_inclusion_proof p = None then CNull else CBool True)]"])
      (auto simp: sample_tp_def null_at_def simp del: fits.simps enc.simps)
qed

theorem filed_digest_is_signed_digest_witness:
  "\<exists>r. receipt_issue sample_tp sample_payload 5 sample_key = Inr r
     \<and> ledger_digest_of_signed_payload (\<lambda>_. sample_cid) (env_payload (rc_envelope r)) = ledger_digest (\<lambda>_. sample_cid) sample_tp sample_payload"
proof -
  have "check_schema sample_payload = Inr ()" by (simp add: check_schema_def sample_payload_def)
  moreover have "scan_strict (enc (CMap [(INCLUSION_PROOF_KEY, CBool True)])) = Inr ()"
    using scan_strict_iff [OF sample_map_length [of False]] sample_map_fits [of False] unfolding if_False by blast
  moreover have "sample_tp sample_payload = Inr (enc (CMap [(INCLUSION_PROOF_KEY, CBool True)]))"
    by (simp add: sample_tp_def sample_payload_def del: enc.simps)
  ultimately obtain r where r: "receipt_issue sample_tp sample_payload 5 sample_key = Inr r"
    "env_payload (rc_envelope r) = enc (CMap [(INCLUSION_PROOF_KEY, CBool True)])"
    by (auto simp: receipt_issue_def cbor_encode_def envelope_sign_def simp del: enc.simps)
  moreover have "length (env_payload (rc_envelope r)) < u64_limit" unfolding r(2) using sample_map_length [of False] by (simp only: if_False)
  ultimately show ?thesis using filed_digest_is_signed_digest [OF sample_payload_codec r(1)] by blast
qed

section \<open>What a verified receipt says\<close>

text \<open>The byte strings hashed by the verification, and by the log when it makes the same proofs.\<close>

definition receipt_inputs ::
  "(bytes \<Rightarrow> cid) \<Rightarrow> (ledger_leaf \<Rightarrow> string + bytes) \<Rightarrow> inclusion_proof \<Rightarrow> ledger_leaf \<Rightarrow> anchorage \<Rightarrow> bytes set" where
  "receipt_inputs H lv proof leaf anch = inclusion_inputs H lv proof leaf \<union>
     (case (anc_bridge anch, root_of_inclusion H lv proof leaf) of
        (Some bridge, Inr (Some root)) \<Rightarrow> consistency_inputs H bridge root
      | _ \<Rightarrow> {})"

definition log_inputs ::
  "(bytes \<Rightarrow> cid) \<Rightarrow> (ledger_leaf \<Rightarrow> string + bytes) \<Rightarrow> tile_log \<Rightarrow> inclusion_proof \<Rightarrow> ledger_leaf \<Rightarrow> anchorage \<Rightarrow> bytes set" where
  "log_inputs H lv log proof leaf anch =
     (case prove_inclusion_at H log (ip_leaf_index proof) (ip_tree_size proof) of
        Inr honest \<Rightarrow> inclusion_inputs H lv honest leaf
      | Inl _ \<Rightarrow> {})
     \<union> (case anc_bridge anch of
          None \<Rightarrow> {}
        | Some bridge \<Rightarrow>
            (case (prove_consistency H log (cp_old_size bridge) (cp_new_size bridge), root_at H log (cp_old_size bridge)) of
               (Inr honest, Inr (Some root)) \<Rightarrow> consistency_inputs H honest root
             | _ \<Rightarrow> {}))"

lemma verify_inclusion_of_root: "root_of_inclusion H lv proof leaf = Inr (Some root) \<Longrightarrow> verify_inclusion_of H lv proof root leaf = Inr True"
  by (simp add: verify_inclusion_of_def)

lemma inclusion_from_log:
  assumes ok: "log_ok H lv log" and anchor: "root_at H log (ck_tree_size (anc_checkpoint anch)) = Inr (Some (ck_root_hash (anc_checkpoint anch)))"
    and v: "verify_inclusion_from H lv payload raw proof anch = Inr Verified"
    and d: "ledger_digest_of_signed_payload H raw = Inr d"
    and leaf: "leaf = \<lparr>leaf_index = ip_leaf_index proof, leaf_receipt = d, leaf_transformation = rp_transformation payload\<rparr>"
  shows "\<exists>e. log_entry log (ip_leaf_index proof) = Some e
    \<and> (cbor_encode lv leaf = cbor_encode lv (entry_leaf e)
       \<or> collision H (receipt_inputs H lv proof leaf anch) (log_inputs H lv log proof (entry_leaf e) anch))"
proof -
  let ?n = "ip_tree_size proof" and ?i = "ip_leaf_index proof"
  have incl: ?thesis if vi: "verify_inclusion_of H lv proof root leaf = Inr True" and at: "root_at H log ?n = Inr (Some root)" for root
  proof -
    from inclusion_in_log [OF ok vi at] obtain e hp where e: "log_entry log ?i = Some e" "prove_inclusion_at H log ?i ?n = Inr hp"
      and c: "cbor_encode lv leaf = cbor_encode lv (entry_leaf e) \<or> collision H (inclusion_inputs H lv proof leaf) (inclusion_inputs H lv hp (entry_leaf e))"
      by blast
    have "inclusion_inputs H lv proof leaf \<subseteq> receipt_inputs H lv proof leaf anch"
      "inclusion_inputs H lv hp (entry_leaf e) \<subseteq> log_inputs H lv log proof (entry_leaf e) anch"
      by (auto simp: receipt_inputs_def log_inputs_def e)
    with e c collision_mono show ?thesis by blast
  qed
  show ?thesis
  proof (cases "ck_tree_size (anc_checkpoint anch) = ?n")
    case True
    with v d have "verify_inclusion_of H lv proof (ck_root_hash (anc_checkpoint anch)) leaf = Inr True"
      by (auto simp: verify_inclusion_from_def Let_def leaf [symmetric] and_then_eq_Inr split: if_splits)
    with incl True anchor show ?thesis by simp
  next
    case False
    with v d obtain root bridge where root: "root_of_inclusion H lv proof leaf = Inr (Some root)" and b: "anc_bridge anch = Some bridge"
      "cp_old_size bridge = ?n" "cp_new_size bridge = ck_tree_size (anc_checkpoint anch)"
      "verify_consistency H bridge root (ck_root_hash (anc_checkpoint anch)) = Inr True"
      by (auto simp: verify_inclusion_from_def Let_def leaf [symmetric] and_then_eq_Inr split: if_splits option.splits)
    from consistency_in_log [OF ok b(4)] anchor obtain r hb where r: "root_at H log ?n = Inr (Some r)"
      and hb: "prove_consistency H log ?n (cp_new_size bridge) = Inr hb"
      and c: "root = r \<or> collision H (consistency_inputs H bridge root) (consistency_inputs H hb r)"
      unfolding b(2,3) by auto
    note vi = verify_inclusion_of_root [OF root]
    show ?thesis
    proof (cases "root = r")
      case True
      with incl vi r show ?thesis by blast
    next
      case False
      have "?i < ?n" using vi by (simp add: verify_inclusion_of_True)
      moreover have "?n \<le> log_len log" using r log_okD(2) [OF ok] by (auto simp: root_at_def split: if_splits)
      ultimately have e: "log_entry log ?i = Some (log_entries log ! ?i)" by (simp add: log_entry_def log_len_def)
      have "consistency_inputs H bridge root \<subseteq> receipt_inputs H lv proof leaf anch"
        "consistency_inputs H hb r \<subseteq> log_inputs H lv log proof (entry_leaf (log_entries log ! ?i)) anch"
        using r hb by (auto simp: receipt_inputs_def log_inputs_def b(1,2) root)
      with c False e collision_mono show ?thesis by blast
    qed
  qed
qed

text \<open>
  C40. What an auditor learns from a receipt. If a commit receipt verifies against a checkpoint of a log,
  directly or over a consistency proof to a larger checkpoint, then the log holds at the stated
  position an entry for exactly this transformation and exactly the digest of the signed payload;
  otherwise two of the byte strings hashed by the verification and by the log collide.
\<close>

theorem verified_receipt_is_logged:
  assumes ok: "log_ok H lv log" and codec: "\<And>a b bs. lv a = Inr bs \<Longrightarrow> lv b = Inr bs \<Longrightarrow> a = b"
    and anchor: "root_at H log (ck_tree_size (anc_checkpoint anch)) = Inr (Some (ck_root_hash (anc_checkpoint anch)))"
    and chk: "checks_of H lv fp r key (Some anch) policy = Inr c" "chk_inclusion c = Verified"
  shows "\<exists>payload proof d e. receipt_payload_of fp r = Inr payload \<and> rp_inclusion_proof payload = Some proof
    \<and> ledger_digest_of_signed_payload H (env_payload (rc_envelope r)) = Inr d \<and> log_entry log (ip_leaf_index proof) = Some e
    \<and> (entry_leaf e = \<lparr>leaf_index = ip_leaf_index proof, leaf_receipt = d, leaf_transformation = rp_transformation payload\<rparr>
       \<or> collision H (receipt_inputs H lv proof \<lparr>leaf_index = ip_leaf_index proof, leaf_receipt = d,
             leaf_transformation = rp_transformation payload\<rparr> anch) (log_inputs H lv log proof (entry_leaf e) anch))"
proof -
  obtain payload where p: "receipt_payload_of fp r = Inr payload"
    and vi: "(case (rp_receipt_kind payload, rp_inclusion_proof payload, Some anch) of
                   (VerdictReceipt, _, _) \<Rightarrow> Inr NotApplicable
                 | (CommitReceipt, Some ipf, Some anch) \<Rightarrow>
                     verify_inclusion_from H lv payload (env_payload (rc_envelope r)) ipf anch
                 | (CommitReceipt, _, None) \<Rightarrow> Inr Unanchored
                 | (CommitReceipt, None, Some _) \<Rightarrow> Inl Schema) = Inr Verified"
    using chk by (fastforce simp: checks_of_def and_then_eq_Inr split: if_splits)
  from vi obtain ipf where pr: "rp_inclusion_proof payload = Some ipf"
    and v: "verify_inclusion_from H lv payload (env_payload (rc_envelope r)) ipf anch = Inr Verified"
    by (auto split: receipt_kind.splits option.splits)
  from v obtain d where d: "ledger_digest_of_signed_payload H (env_payload (rc_envelope r)) = Inr d"
    by (auto simp: verify_inclusion_from_def Let_def and_then_eq_Inr)
  define leaf where "leaf = \<lparr>leaf_index = ip_leaf_index ipf, leaf_receipt = d, leaf_transformation = rp_transformation payload\<rparr>"
  from inclusion_from_log [OF ok anchor v d leaf_def] obtain e where e: "log_entry log (ip_leaf_index ipf) = Some e"
    and c: "cbor_encode lv leaf = cbor_encode lv (entry_leaf e)
       \<or> collision H (receipt_inputs H lv ipf leaf anch) (log_inputs H lv log ipf (entry_leaf e) anch)" by blast
  have "entry_leaf e = leaf" if "cbor_encode lv leaf = cbor_encode lv (entry_leaf e)"
  proof -
    have "is_ok (cbor_encode lv (entry_leaf e))"
      using e log_okD(5) [OF ok, of "ip_leaf_index ipf"] by (auto simp: log_entry_def log_len_def leaf_hash_Inr is_ok_iff split: if_splits)
    then obtain bs where "cbor_encode lv (entry_leaf e) = Inr bs" by (auto simp: is_ok_iff)
    with that cbor_encode_canonical show ?thesis by (metis codec)
  qed
  with p pr d e c show ?thesis unfolding leaf_def by blast
qed

definition sample_lv :: "ledger_leaf \<Rightarrow> string + bytes" where
  "sample_lv l = (if l = \<lparr>leaf_index = 0, leaf_receipt = sample_cid, leaf_transformation = sample_cid\<rparr> then Inr [0] else Inl [])"

definition sample_receipt :: receipt where
  "sample_receipt = \<lparr>rc_envelope = \<lparr>env_payload_type = RECEIPT_PAYLOAD_TYPE, env_payload = [0xa1, 0x61, 0x61, 0x01],
     env_signatures = [\<lparr>sig_keyid = ''k'', sig_bytes = []\<rparr>]\<rparr>, rc_issued_at = 5\<rparr>"

definition sample_anchorage :: anchorage where
  "sample_anchorage = \<lparr>anc_checkpoint = \<lparr>ck_origin = [], ck_tree_size = 1, ck_root_hash = sample_cid, ck_timestamp = 0,
     ck_signature = \<lparr>sig_keyid = [], sig_bytes = []\<rparr>\<rparr>, anc_bridge = None\<rparr>"

lemma sample_log_ok_lv: "log_ok (\<lambda>_. sample_cid) sample_lv sample_log"
proof -
  have "append_request (\<lambda>_. sample_cid) sample_lv new_log (sample_cid, sample_cid, 7) = Inr (sample_log, log_entries sample_log ! 0)"
    by (simp add: append_request_def log_append_def stage_def leaf_hash_def mint_leaf_def cbor_encode_def sample_lv_def
        scan_strict_zero mint_def digest_def log_commit_def TILE_WIDTH_def new_log_def log_len_def sample_log_def Let_def)
  from tile_log.append_ok [OF new_log_ok this] show ?thesis by simp
qed

lemma sample_signed_digest:
  "scan_strict (env_payload (rc_envelope sample_receipt)) = Inr ()"
  "ledger_digest_of_signed_payload (\<lambda>_. sample_cid) (env_payload (rc_envelope sample_receipt)) = Inr sample_cid"
proof -
  define b where "b = enc (CMap [([0x61], CUInt 1)])"
  have b: "env_payload (rc_envelope sample_receipt) = b" "length b < u64_limit"
    by (simp_all only: b_def example_map(1) sample_receipt_def) simp_all
  have "scan_strict b = Inr ()" using scan_strict_iff [OF b(2)] example_map(2) b_def by blast
  moreover have "value_span b INCLUSION_PROOF_KEY = Inr None"
    using value_span_enc [OF example_map(2), of INCLUSION_PROOF_KEY, folded b_def] b(2)
    by (simp add: INCLUSION_PROOF_KEY_def ascii_def)
  ultimately show "scan_strict (env_payload (rc_envelope sample_receipt)) = Inr ()"
    "ledger_digest_of_signed_payload (\<lambda>_. sample_cid) (env_payload (rc_envelope sample_receipt)) = Inr sample_cid"
    unfolding b(1) by (simp_all add: ledger_digest_of_signed_payload_def of_canonical_bytes_def digest_def)
qed

theorem verified_receipt_is_logged_witness:
  "\<exists>c payload proof d e. checks_of (\<lambda>_. sample_cid) sample_lv (\<lambda>_. Inr sample_payload) sample_receipt
       \<lparr>vk_key_id = ''k'', vk_check = (\<lambda>_ _. True)\<rparr> (Some sample_anchorage) None = Inr c \<and> chk_inclusion c = Verified
     \<and> receipt_payload_of (\<lambda>_. Inr sample_payload) sample_receipt = Inr payload \<and> rp_inclusion_proof payload = Some proof
     \<and> ledger_digest_of_signed_payload (\<lambda>_. sample_cid) (env_payload (rc_envelope sample_receipt)) = Inr d
     \<and> log_entry sample_log (ip_leaf_index proof) = Some e"
proof -
  let ?k = "\<lparr>vk_key_id = ''k'', vk_check = (\<lambda>_ _. True)\<rparr>" and ?p = "\<lparr>ip_leaf_index = 0, ip_tree_size = 1, ip_audit_path = []\<rparr>"
  have env: "envelope_verify ?k (rc_envelope sample_receipt) = Inr ()"
    by (simp add: envelope_verify_def sample_receipt_def signature_for_def verify_raw_def)
  have pay: "receipt_payload_of (\<lambda>_. Inr sample_payload) sample_receipt = Inr sample_payload"
    by (simp add: receipt_payload_of_def cbor_decode_def sample_signed_digest)
  have schema: "check_schema sample_payload = Inr ()" by (simp add: check_schema_def sample_payload_def)
  have incl: "verify_inclusion_from (\<lambda>_. sample_cid) sample_lv sample_payload (env_payload (rc_envelope sample_receipt)) ?p sample_anchorage
      = Inr Verified"
  proof -
    have "verify_inclusion_of (\<lambda>_. sample_cid) sample_lv ?p sample_cid
        \<lparr>leaf_index = 0, leaf_receipt = sample_cid, leaf_transformation = sample_cid\<rparr> = Inr True"
      by (simp add: verify_inclusion_of_True audit_path_len_def path_len_loop.simps leaf_hash_def mint_leaf_def
          cbor_encode_def scan_strict_zero mint_def digest_def sample_lv_def)
    then show ?thesis
      by (simp add: verify_inclusion_from_def sample_signed_digest sample_anchorage_def sample_payload_def)
  qed
  obtain c where c: "checks_of (\<lambda>_. sample_cid) sample_lv (\<lambda>_. Inr sample_payload) sample_receipt ?k (Some sample_anchorage) None = Inr c"
    "chk_inclusion c = Verified"
    using incl env pay schema by (simp add: checks_of_def) (simp add: sample_payload_def)
  have codec: "a = b" if "sample_lv a = Inr bs" "sample_lv b = Inr bs" for a b bs
    using that by (simp add: sample_lv_def split: if_splits)
  have "root_at (\<lambda>_. sample_cid) sample_log (ck_tree_size (anc_checkpoint sample_anchorage)) = Inr (Some (ck_root_hash (anc_checkpoint sample_anchorage)))"
    by (simp add: root_at_def mth_range.simps sample_log_def log_len_def sample_anchorage_def)
  from verified_receipt_is_logged [OF sample_log_ok_lv _ this c] codec c show ?thesis by blast
qed

section \<open>Issued receipts\<close>

text \<open>A receipt issued over the leaf that carries its digest passes every check against the log's own checkpoint.\<close>

lemma issued_receipt_checks:
  assumes codec: "payload_codec tp" "\<And>p bs. tp p = Inr bs \<Longrightarrow> fp bs = Inr p"
    and key: "vk_key_id vk = kp_key_id key" "\<And>m. vk_check vk m (kp_sign key m)" "rp_key_id p = kp_key_id key"
    and d: "ledger_digest H tp p = Inr d" and kind: "rp_receipt_kind p = CommitReceipt"
    and log: "log_ok H lv log" "i < log_len log" "log_len log < u64_limit"
      "entry_leaf (log_entries log ! i) = \<lparr>leaf_index = i, leaf_receipt = d, leaf_transformation = rp_transformation p\<rparr>"
    and ipf: "prove_inclusion H log i = Inr ipf"
    and r: "receipt_issue tp (p\<lparr>rp_inclusion_proof := Some ipf\<rparr>) at key = Inr r" "length (env_payload (rc_envelope r)) < u64_limit"
    and anchor: "ck_tree_size (anc_checkpoint anch) = log_len log" "log_root H log = Inr (Some (ck_root_hash (anc_checkpoint anch)))"
  shows "\<exists>c. checks_of H lv fp r vk (Some anch) policy = Inr c \<and> chk_inclusion c = Verified
    \<and> chk_canonical_cid c = (rp_canonical_cid p = rp_transformation p)"
proof -
  let ?q = "p\<lparr>rp_inclusion_proof := Some ipf\<rparr>"
  obtain bs where bs: "check_schema ?q = Inr ()" "cbor_encode tp ?q = Inr bs" "env_payload (rc_envelope r) = bs"
    and rc: "rc_envelope r = envelope_sign key \<lparr>env_payload_type = RECEIPT_PAYLOAD_TYPE, env_payload = bs, env_signatures = []\<rparr>"
    using r(1) by (auto simp: receipt_issue_def and_then_eq_Inr envelope_sign_def)
  have "envelope_verify vk (rc_envelope r) = Inr ()"
    by (simp add: rc envelope_verify_def envelope_sign_def signature_for_def verify_raw_def signing_bytes_def key)
  moreover have "receipt_payload_of fp r = Inr ?q"
    using bs(2) codec(2) by (auto simp: receipt_payload_of_def cbor_decode_def bs(3) cbor_encode_ok is_ok_iff)
  moreover have "verify_inclusion_from H lv ?q (env_payload (rc_envelope r)) ipf anch = Inr Verified"
  proof -
    have "ledger_digest H tp ?q = Inr d" using d by (simp add: ledger_digest_def)
    with filed_digest [OF codec(1) r] have dg: "ledger_digest_of_signed_payload H (env_payload (rc_envelope r)) = Inr d" by simp
    have ip: "ipf = \<lparr>ip_leaf_index = i, ip_tree_size = log_len log, ip_audit_path = audit_path H i (take (log_len log) (log_leaves log))\<rparr>"
      using ipf prove_inclusion_at_total [OF log(1,2) order_refl log(3)] by (simp add: prove_inclusion_def)
    have "leaf_hash H lv (entry_leaf (log_entries log ! i)) = Inr (log_leaves log ! i)"
      using log_okD(4,5) [OF log(1), of i] log(2) by (simp add: entry_leaf_def)
    moreover have "log_leaves log \<noteq> []" using log(2) log_okD(2) [OF log(1)] by auto
    then have "log_root H log = Inr (Some (mtr H (take (log_len log) (log_leaves log))))"
      using log_root_correct [OF log_okD(3) [OF log(1)]] mth_mtr [of "log_leaves log" H] log(2) log_okD(2) [OF log(1)] by auto
    ultimately have "verify_inclusion_of H lv ipf (ck_root_hash (anc_checkpoint anch))
        \<lparr>leaf_index = i, leaf_receipt = d, leaf_transformation = rp_transformation p\<rparr> = Inr True"
      using honest_walk [OF log(1,2) order_refl] log anchor(2) by (simp add: verify_inclusion_of_True ip)
    then show ?thesis by (simp add: verify_inclusion_from_def dg anchor(1) ip)
  qed
  ultimately show ?thesis using bs(1) key kind by (simp add: checks_of_def)
qed

end
