(* ===== verification/Engine_State.thy ===== *)
theory Engine_State
  imports Blob_Store Gate Receipt
begin

text \<open>
  The state of the engine, \<open>Engine\<close> of \<open>src/crates/gx-engine/src/pipeline.rs\<close>, and the steps its
  operations are made of. An operation maps a state to a result and a new state; what was done
  before an error stays done, as in the code. The fields that are set when an engine is built are a
  record of their own, \<open>engine_config\<close>; the fields that change are \<open>engine\<close>.

  Code outside the engine is an argument: the adapters (records of functions over a world of type
  \<open>'w\<close>), the evidence source, the canonicalizer, the sink of receipts, the codecs, and the answers of
  the operating system, numbered by a counter so that every call may get a different one. \<open>cf_drift\<close>
  is what everybody else does to the world between two calls of the engine.
\<close>

section \<open>Operations\<close>

type_synonym ('s, 'a) action = "'s \<Rightarrow> (engine_error + 'a) \<times> 's"

definition ret :: "'a \<Rightarrow> ('s, 'a) action" where
  "ret a s = (Inr a, s)"

definition fail :: "engine_error \<Rightarrow> ('s, 'a) action" where
  "fail e s = (Inl e, s)"

definition lift :: "engine_error + 'a \<Rightarrow> ('s, 'a) action" where
  "lift r s = (r, s)"

definition get :: "('s \<Rightarrow> 'a) \<Rightarrow> ('s, 'a) action" where
  "get f s = (Inr (f s), s)"

definition modify :: "('s \<Rightarrow> 's) \<Rightarrow> ('s, unit) action" where
  "modify f s = (Inr (), f s)"

definition then_do :: "('s, 'a) action \<Rightarrow> ('a \<Rightarrow> ('s, 'b) action) \<Rightarrow> ('s, 'b) action" where
  "then_do m f s = (case m s of (Inl e, s') \<Rightarrow> (Inl e, s') | (Inr a, s') \<Rightarrow> f a s')"

text \<open>What holds after an operation, with one condition for each of its two exits.\<close>

definition wp :: "('s, 'a) action \<Rightarrow> ('a \<Rightarrow> 's \<Rightarrow> bool) \<Rightarrow> (engine_error \<Rightarrow> 's \<Rightarrow> bool) \<Rightarrow> 's \<Rightarrow> bool" where
  "wp m Q E s = (case m s of (Inl e, s') \<Rightarrow> E e s' | (Inr a, s') \<Rightarrow> Q a s')"

named_theorems wp_simps

lemma wp_ret [wp_simps]: "wp (ret a) Q E s = Q a s"
  by (simp add: wp_def ret_def)

lemma wp_fail [wp_simps]: "wp (fail e) Q E s = E e s"
  by (simp add: wp_def fail_def)

lemma wp_lift [wp_simps]: "wp (lift r) Q E s = (case r of Inl e \<Rightarrow> E e s | Inr a \<Rightarrow> Q a s)"
  by (simp add: wp_def lift_def)

lemma wp_get [wp_simps]: "wp (get f) Q E s = Q (f s) s"
  by (simp add: wp_def get_def)

lemma wp_modify [wp_simps]: "wp (modify f) Q E s = Q () (f s)"
  by (simp add: wp_def modify_def)

lemma wp_then [wp_simps]: "wp (then_do m f) Q E s = wp m (\<lambda>a. wp (f a) Q E) E s"
  by (auto simp: wp_def then_do_def split: prod.splits sum.splits)

lemma wp_if [wp_simps]: "wp (if b then m else m') Q E s = (if b then wp m Q E s else wp m' Q E s)"
  by simp

lemma wp_option [wp_simps]:
  "wp (case x of None \<Rightarrow> m | Some a \<Rightarrow> f a) Q E s = (case x of None \<Rightarrow> wp m Q E s | Some a \<Rightarrow> wp (f a) Q E s)"
  by (cases x) simp_all

lemma wp_sum [wp_simps]:
  "wp (case x of Inl e \<Rightarrow> g e | Inr a \<Rightarrow> f a) Q E s = (case x of Inl e \<Rightarrow> wp (g e) Q E s | Inr a \<Rightarrow> wp (f a) Q E s)"
  by (cases x) simp_all

lemma wp_mono:
  assumes "wp m Q E s" "\<And>a s'. Q a s' \<Longrightarrow> Q' a s'" "\<And>e s'. E e s' \<Longrightarrow> E' e s'"
  shows "wp m Q' E' s"
  using assms by (auto simp: wp_def split: prod.splits sum.splits)

lemma wp_conj: "wp m Q E s \<Longrightarrow> wp m Q' E' s \<Longrightarrow> wp m (\<lambda>a s. Q a s \<and> Q' a s) (\<lambda>e s. E e s \<and> E' e s) s"
  by (auto simp: wp_def split: prod.splits sum.splits)

lemma wp_result: "wp m Q E s \<Longrightarrow> m s = (Inr a, s') \<Longrightarrow> Q a s'"
  by (simp add: wp_def)

lemma wp_error: "wp m Q E s \<Longrightarrow> m s = (Inl e, s') \<Longrightarrow> E e s'"
  by (simp add: wp_def)

lemma wp_run: "wp m (\<lambda>_. P) (\<lambda>_. P) s \<longleftrightarrow> P (snd (m s))"
  by (auto simp: wp_def split: prod.splits sum.splits)

text \<open>The loop \<open>for x in xs\<close> over an operation.\<close>

fun for_each :: "('a \<Rightarrow> ('s, 'b) action) \<Rightarrow> 'a list \<Rightarrow> ('s, 'b list) action" where
  "for_each f [] = ret []"
| "for_each f (x # xs) = then_do (f x) (\<lambda>y. then_do (for_each f xs) (\<lambda>ys. ret (y # ys)))"

section \<open>Intents, identity views, adapters\<close>

record intent =
  in_substrate :: substrate_kind
  in_locator :: string
  in_goal :: bytes
  in_context :: change_context
  in_actor :: actor

record transformation_view =
  tvw_order :: byte
  tvw_intent_id :: intent_id
  tvw_subject :: subject
  tvw_target :: "cid option"
  tvw_delta :: delta_ref
  tvw_context :: change_context
  tvw_actor :: actor
  tvw_parents :: "transformation_id list"

definition transformation_identity :: "transformation \<Rightarrow> transformation_view" where
  "transformation_identity t =
     \<lparr>tvw_order = t_order t, tvw_intent_id = t_intent_id t, tvw_subject = t_subject t, tvw_target = t_target t,
      tvw_delta = t_delta t, tvw_context = t_context t, tvw_actor = t_actor t, tvw_parents = t_parents t\<rparr>"

record human_ruling =
  hr_decision :: verdict_kind
  hr_reason :: string
  hr_actor :: actor

text \<open>\<open>InvertOutcome\<close> has private fields and three constructors; an inverse is there exactly with the
  answer that the change can be undone.\<close>

record invert_outcome =
  io_inverse :: "planned_delta option"
  io_verdict :: reversibility
  io_reads :: "read_entry list"

definition inverted :: "planned_delta \<Rightarrow> read_entry list \<Rightarrow> invert_outcome" where
  "inverted d reads = \<lparr>io_inverse = Some d, io_verdict = ReversibleTrue, io_reads = reads\<rparr>"

definition invert_none :: "read_entry list \<Rightarrow> invert_outcome" where
  "invert_none reads = \<lparr>io_inverse = None, io_verdict = ReversibleFalse, io_reads = reads\<rparr>"

definition undetermined :: "read_entry list \<Rightarrow> invert_outcome" where
  "undetermined reads = \<lparr>io_inverse = None, io_verdict = ReversibleUnknown, io_reads = reads\<rparr>"

record applied_delta =
  ap_delta :: delta_ref
  ap_postcondition :: fingerprint
  ap_resulting_digest :: cid
  ap_applied_at :: timestamp
  ap_observation :: "bytes option"

definition new_applied_delta :: "delta_ref \<Rightarrow> fingerprint \<Rightarrow> cid \<Rightarrow> timestamp \<Rightarrow> applied_delta" where
  "new_applied_delta d post result at =
     \<lparr>ap_delta = d, ap_postcondition = post, ap_resulting_digest = result, ap_applied_at = at, ap_observation = None\<rparr>"

datatype commutation = Commutes | Conflicts delta_ref

text \<open>The trait \<open>SubstrateAdapter\<close>. Only \<open>apply\<close> acts on the world; the other methods read it.\<close>

record 'w adapter =
  ad_snapshot :: "string \<Rightarrow> 'w \<Rightarrow> substrate_error + object_snapshot"
  ad_plan :: "intent \<Rightarrow> object_snapshot \<Rightarrow> 'w \<Rightarrow> substrate_error + planned_delta"
  ad_precondition :: "object_snapshot \<Rightarrow> 'w \<Rightarrow> substrate_error + fingerprint"
  ad_apply :: "planned_delta \<Rightarrow> 'w \<Rightarrow> (substrate_error + applied_delta) \<times> 'w"
  ad_invert :: "planned_delta \<Rightarrow> object_snapshot \<Rightarrow> 'w \<Rightarrow> substrate_error + invert_outcome"
  ad_commutation :: "planned_delta \<Rightarrow> planned_delta \<Rightarrow> 'w \<Rightarrow> substrate_error + commutation"

record inverse_completion =
  ic_needs_completion :: "planned_delta \<Rightarrow> substrate_error + bool"
  ic_complete_inverse :: "planned_delta \<Rightarrow> bytes \<Rightarrow> substrate_error + planned_delta option"

section \<open>The engine\<close>

record entry =
  e_intent_id :: intent_id
  e_transformation :: transformation
  e_state :: lifecycle
  e_since :: timestamp
  e_blocked_by :: "transformation_id option"
  e_delta :: planned_delta
  e_fp0 :: fingerprint
  e_pre :: object_snapshot
  e_verdict :: "verdict_kind option"
  e_verdict_digest :: "cid option"
  e_enforced :: bool
  e_fail_posture_engaged :: bool
  e_canonical_cid :: "cid option"
  e_ticket :: "escalation_ticket option"
  e_admit_proof :: "admit_proof option"
  e_deny_reasons :: "reason list option"
  e_verdict_receipts :: "receipt list"
  e_superseded_by :: "transformation_id option"
  e_apply_started :: "cid option"
  e_observation_cid :: "cid option"
  e_rollback :: "rollback option"
  e_provenance :: "provenance option"
  e_inverse_cid :: "cid option"
  e_applied_at :: "timestamp option"
  e_receipt :: "receipt option"

record plan_shape =
  ps_id :: transformation_id
  ps_transformation :: transformation
  ps_delta :: planned_delta
  ps_fp0 :: fingerprint
  ps_pre :: object_snapshot

datatype not_attempted_because =
    EscrowStillPartial | NoInverseWasEscrowed | RecoveredWithoutRebuilding | WorldNeverMoved | WorldMovedBeneath
  | WorldCouldNotBeRead | PromisedPostStateWasWrong

record prediction_outcome =
  po_predicted :: cid
  po_observed :: cid
  po_observed_at :: timestamp

text \<open>\<open>ObservationDelta\<close>: what an attached source reports, with the chain reference it claims to follow.\<close>

record observation_delta =
  od_class :: observation_class
  od_source :: string
  od_observation_id :: string
  od_scope :: string
  od_prev_claimed :: "string option"
  od_held_at_plan :: "string option"
  od_record :: observation_record

text \<open>The codecs (serde, BLAKE3) and the answers of the operating system.\<close>

record engine_codec =
  ec_hash :: "bytes \<Rightarrow> cid"
  ec_intent :: "intent \<Rightarrow> string + bytes"
  ec_transformation :: "transformation_view \<Rightarrow> string + bytes"
  ec_journal :: "journal_record \<Rightarrow> string + bytes"
  ec_delta :: "planned_delta_view \<Rightarrow> string + bytes"
  ec_blob :: "bytes \<Rightarrow> string + blob_record"
  ec_ruling :: "human_ruling \<Rightarrow> string + bytes"
  ec_gate :: gate_codec
  ec_payload :: "receipt_payload \<Rightarrow> string + bytes"
  ec_read :: "read_entry \<Rightarrow> string + bytes"
  ec_leaf :: "ledger_leaf \<Rightarrow> string + bytes"
  ec_entry :: "ledger_entry \<Rightarrow> string + bytes"
  ec_checkpoint :: "checkpoint_core \<Rightarrow> string + bytes"
  ec_witness :: "head_witness \<Rightarrow> string + bytes"
  ec_head :: "persisted_head \<Rightarrow> string + bytes"
  ec_value_from :: "bytes \<Rightarrow> string + cbor"
  ec_value_to :: "cbor \<Rightarrow> string + bytes"
  ec_payload_from :: "bytes \<Rightarrow> string + receipt_payload"
  ec_observation :: "observation_delta \<Rightarrow> string + bytes"
  ec_observation_from :: "bytes \<Rightarrow> string + observation_delta"
  ec_verdict_core :: "verdict_checkpoint_core \<Rightarrow> string + bytes"
  ec_verdict_record :: "verdict_checkpoint \<Rightarrow> string + bytes"

record answers =
  sys_journal :: "nat \<Rightarrow> write_outcome"
  sys_ledger :: "nat \<Rightarrow> write_outcome"
  sys_put :: "nat \<Rightarrow> put_env"
  sys_head :: "nat \<Rightarrow> head_write_outcome"
  sys_sink :: "nat \<Rightarrow> transformation_id \<Rightarrow> receipt \<Rightarrow> string + unit"
  sys_filed_receipt :: "nat \<Rightarrow> transformation_id \<Rightarrow> receipt option"
  sys_filed_key_id :: "nat \<Rightarrow> transformation_id \<Rightarrow> string option"
  sys_read :: "nat \<Rightarrow> read_outcome"
  sys_verdicts :: "nat \<Rightarrow> write_outcome"

record 'w engine_config =
  cf_codec :: engine_codec
  cf_system :: answers
  cf_drift :: "nat \<Rightarrow> 'w \<Rightarrow> 'w"
  cf_adapters :: "substrate_kind \<Rightarrow> ('w adapter \<times> string) option"
  cf_completions :: "substrate_kind \<Rightarrow> inverse_completion option"
  cf_input_stages :: "substrate_kind \<Rightarrow> boundary_stage option"
  cf_files_receipts :: bool
  cf_gate :: gate
  cf_evidence :: "transformation \<Rightarrow> object_snapshot \<Rightarrow> 'w \<Rightarrow> engine_error + evidence list"
  cf_canon :: "transformation \<Rightarrow> engine_error + bytes"
  cf_mode :: enforcement_mode
  cf_posture :: fail_posture
  cf_confinement :: confinement_context
  cf_verify_ttl :: int
  cf_escalation_ttl :: int
  cf_head_origin :: "string option"
  cf_version_digest :: "bytes option"
  cf_version :: string

text \<open>What the engine knows of the recorded head (\<open>head_floor\<close>, \<open>rolled_back\<close>, \<open>head_invalid\<close>,
  \<open>resumed_rows\<close>, \<open>accepted_rollback\<close>, \<open>pending_rollback\<close>, \<open>head_authenticity\<close>, \<open>head_key_id\<close>,
  \<open>declaration_changed\<close>).\<close>

datatype head_authenticity = HeadAbsent | HeadUnverified | HeadVerified | HeadRefuted

record head_state =
  hs_floor :: "head_floor option"
  hs_rolled_back :: "string option"
  hs_invalid :: "string option"
  hs_resumed_rows :: nat
  hs_accepted :: "accepted_rollback option"
  hs_pending :: "accepted_rollback option"
  hs_authenticity :: head_authenticity
  hs_key_id :: "string option"
  hs_declaration_changed :: bool

text \<open>In which way the journal on disk is not the one that was read, the first that applies.\<close>

datatype journal_departure =
    FromANewerGx | Downgraded | ChainBroken | Shortened | TailRewritten | PrefixRewritten | TornTail

record journal_terms =
  jt_not_from_a_newer_gx :: bool
  jt_not_downgraded :: bool
  jt_chain_intact :: bool
  jt_not_shorter_than_read :: bool
  jt_tail_unchanged :: bool
  jt_prefix_intact :: bool
  jt_no_unrepaired_torn_tail :: bool

definition departure :: "journal_terms \<Rightarrow> journal_departure option" where
  "departure jt =
     (if \<not> jt_not_from_a_newer_gx jt then Some FromANewerGx
      else if \<not> jt_not_downgraded jt then Some Downgraded
      else if \<not> jt_chain_intact jt then Some ChainBroken
      else if \<not> jt_not_shorter_than_read jt then Some Shortened
      else if \<not> jt_tail_unchanged jt then Some TailRewritten
      else if \<not> jt_prefix_intact jt then Some PrefixRewritten
      else if \<not> jt_no_unrepaired_torn_tail jt then Some TornTail
      else None)"

text \<open>What a recovery reports of each transformation, and what is left of one that ended in an error.\<close>

datatype recovery_path =
    Terminal | LedgerHeldTheCommit | ApplyWasAnnounced | NothingWasApplied | ClosedFromFiledReceipt | ClosedFromLedgerLeaf
  | NotResumed

datatype not_resumed =
    JournalMoved | JournalShorter | JournalDowngraded | JournalFromANewerGx | JournalTornTail | LedgerMovedOn | HeadInvalid
  | DeclarationChanged | RecoveryKeyMismatch | RecoveryRebuildDisagrees | HeadRolledBack

record recovered =
  rv_transformation :: transformation_id
  rv_path :: recovery_path
  rv_state :: lifecycle
  rv_ledger_seq :: "nat option"
  rv_appended :: "string option"
  rv_payload_matched :: "bool option"
  rv_receipt :: "receipt option"
  rv_refusal :: "not_resumed option"

record recover_partial =
  rpt_finished :: "recovered list"
  rpt_applied_unrecorded :: "transformation_id list"
  rpt_recorded_without_head :: "transformation_id list"

definition no_partial :: recover_partial where
  "no_partial = \<lparr>rpt_finished = [], rpt_applied_unrecorded = [], rpt_recorded_without_head = []\<rparr>"

record 'w engine =
  en_world :: 'w
  en_tick :: nat
  en_journal :: engine_journal
  en_journal_dir :: ledger_dir
  en_blobs :: file_dir
  en_observations :: file_dir
  en_ledger :: ledger_store
  en_ledger_dir :: ledger_dir
  en_head_dir :: head_dir
  en_head :: head_state
  en_verdicts :: verdict_tally
  en_drafted :: "intent_id \<Rightarrow> u64 option"
  en_table :: "transformation_id \<Rightarrow> entry option"
  en_not_attempted :: "transformation_id \<Rightarrow> not_attempted_because option"
  en_prediction :: "transformation_id \<Rightarrow> prediction_outcome option"
  en_resolved :: "intent_id \<Rightarrow> transformation_id list option"
  en_by_subject :: "subject \<Rightarrow> transformation_id set option"
  en_escrow :: "transformation_id \<Rightarrow> escrow_row option"
  en_supersedes :: "transformation_id \<Rightarrow> transformation_id option"
  en_committed :: "transformation_id \<Rightarrow> nat option"
  en_shadow :: sigma_shadow
  en_departure :: "journal_departure option"
  en_partial :: recover_partial
  en_verdict_log :: verdict_store
  en_verdict_dir :: ledger_dir
  en_published :: verdict_tally

abbreviation en_records :: "'w engine \<Rightarrow> journal_record list" where
  "en_records e \<equiv> ej_records (en_journal e)"

section \<open>Steps\<close>

definition tick :: "('w engine, nat) action" where
  "tick e = (Inr (en_tick e), e\<lparr>en_tick := Suc (en_tick e)\<rparr>)"

text \<open>A look at the world finds it as the others have left it by then.\<close>

definition look :: "'w engine_config \<Rightarrow> ('w \<Rightarrow> 'a) \<Rightarrow> ('w engine, 'a) action" where
  "look cf f e =
     (let w = cf_drift cf (en_tick e) (en_world e) in (Inr (f w), e\<lparr>en_world := w, en_tick := Suc (en_tick e)\<rparr>))"

definition ask :: "'w engine_config \<Rightarrow> string \<Rightarrow> ('w \<Rightarrow> substrate_error + 'a) \<Rightarrow> ('w engine, 'a) action" where
  "ask cf act f = then_do (look cf f) (\<lambda>r. lift (map_err (\<lambda>_. AdapterRefused act) r))"

definition adapter_of :: "'w engine_config \<Rightarrow> substrate_kind \<Rightarrow> ('w engine, 'w adapter) action" where
  "adapter_of cf k = lift (map_sum id fst (ok_or (NotFound ''adapter'') (cf_adapters cf k)))"

definition entry_of :: "transformation_id \<Rightarrow> ('w engine, entry) action" where
  "entry_of t e = (ok_or (NotFound ''transformation'') (en_table e t), e)"

text \<open>\<open>self.table[id]\<close>, which panics when there is no entry.\<close>

definition entry_at :: "transformation_id \<Rightarrow> ('w engine, entry) action" where
  "entry_at t e = (ok_or EnginePanic (en_table e t), e)"

definition on_entry :: "transformation_id \<Rightarrow> (entry \<Rightarrow> entry) \<Rightarrow> ('w engine, unit) action" where
  "on_entry t f = modify (\<lambda>e. e\<lparr>en_table := (en_table e)(t := map_option f (en_table e t))\<rparr>)"

text \<open>\<open>self.journal.append\<close>, and the \<open>journal_append\<close> of the engine that also folds the record into
  the shadow.\<close>

definition journal_append_direct :: "'w engine_config \<Rightarrow> journal_record \<Rightarrow> ('w engine, nat) action" where
  "journal_append_direct cf r e =
     (case journal_append (ec_hash (cf_codec cf)) (ec_journal (cf_codec cf)) (sys_journal (cf_system cf) (en_tick e)) r
             (en_journal_dir e) (en_journal e) of
        (res, dir, j) \<Rightarrow> (res, e\<lparr>en_tick := Suc (en_tick e), en_journal := j, en_journal_dir := dir\<rparr>))"

definition engine_journal_append :: "'w engine_config \<Rightarrow> journal_record \<Rightarrow> ('w engine, nat) action" where
  "engine_journal_append cf r =
     then_do (journal_append_direct cf r) (\<lambda>seq.
     then_do (modify (\<lambda>e. if en_records e = [] then e
                else e\<lparr>en_shadow := shadow_fold (List.last (en_records e)) (en_shadow e)\<rparr>)) (\<lambda>_.
     ret seq))"

definition fetch_blob :: "'w engine_config \<Rightarrow> cid \<Rightarrow> ('w engine, planned_delta) action" where
  "fetch_blob cf c e =
     (blob_get (ec_hash (cf_codec cf)) (ec_delta (cf_codec cf)) (ec_blob (cf_codec cf)) (sys_read (cf_system cf) (en_tick e)) (en_blobs e) c,
      e\<lparr>en_tick := Suc (en_tick e)\<rparr>)"

definition fetch_observation :: "'w engine_config \<Rightarrow> cid \<Rightarrow> ('w engine, bytes) action" where
  "fetch_observation cf c e =
     (observation_get (ec_hash (cf_codec cf)) (sys_read (cf_system cf) (en_tick e)) (en_observations e) c,
      e\<lparr>en_tick := Suc (en_tick e)\<rparr>)"

definition put_blob :: "'w engine_config \<Rightarrow> planned_delta \<Rightarrow> ('w engine, unit) action" where
  "put_blob cf d e =
     (case blob_put (ec_delta (cf_codec cf)) (sys_put (cf_system cf) (en_tick e)) d (en_blobs e) of
        (res, dir) \<Rightarrow> (map_sum id (\<lambda>_. ()) res, e\<lparr>en_tick := Suc (en_tick e), en_blobs := dir\<rparr>))"

definition put_observation :: "'w engine_config \<Rightarrow> bytes \<Rightarrow> ('w engine, unit) action" where
  "put_observation cf bs e =
     (case observation_put (ec_hash (cf_codec cf)) (sys_put (cf_system cf) (en_tick e)) bs (en_observations e) of
        (res, dir) \<Rightarrow> (map_sum id (\<lambda>_. ()) res, e\<lparr>en_tick := Suc (en_tick e), en_observations := dir\<rparr>))"

definition set_state :: "transformation_id \<Rightarrow> lifecycle \<Rightarrow> timestamp \<Rightarrow> ('w engine, lifecycle) action" where
  "set_state t to at =
     then_do (on_entry t (\<lambda>en. en\<lparr>e_state := to, e_since := at, e_ticket := if to \<noteq> Escalated then None else e_ticket en\<rparr>))
       (\<lambda>_. ret to)"

definition abort_entry ::
  "'w engine_config \<Rightarrow> transformation_id \<Rightarrow> abort_reason \<Rightarrow> rollback option \<Rightarrow> timestamp \<Rightarrow> ('w engine, lifecycle) action" where
  "abort_entry cf t reason rb at =
     then_do (engine_journal_append cf (AbortedRec t reason rb at)) (\<lambda>_.
     then_do (on_entry t (\<lambda>en. en\<lparr>e_rollback := rb\<rparr>)) (\<lambda>_.
     set_state t (Aborted reason) at))"

definition seat :: "transformation_id \<Rightarrow> entry \<Rightarrow> ('w engine, unit) action" where
  "seat t en = modify (\<lambda>e.
     let subj = t_subject (e_transformation en);
         index = (case en_table e t of
             None \<Rightarrow> en_by_subject e
           | Some old \<Rightarrow>
               (let prev = t_subject (e_transformation old) in
                if prev = subj then en_by_subject e
                else case en_by_subject e prev of
                    None \<Rightarrow> en_by_subject e
                  | Some bucket \<Rightarrow>
                      (en_by_subject e)(prev := if bucket - {t} = {} then None else Some (bucket - {t}))));
         held = (case index subj of None \<Rightarrow> {} | Some bucket \<Rightarrow> bucket)
     in e\<lparr>en_by_subject := index(subj \<mapsto> insert t held), en_table := (en_table e)(t \<mapsto> en)\<rparr>)"

definition remember_resolution :: "intent_id \<Rightarrow> transformation_id \<Rightarrow> ('w engine, unit) action" where
  "remember_resolution i t = modify (\<lambda>e.
     let seen = (case en_resolved e i of None \<Rightarrow> [] | Some ts \<Rightarrow> ts)
     in e\<lparr>en_resolved := (en_resolved e)(i \<mapsto> if t \<in> set seen then seen else seen @ [t])\<rparr>)"

section \<open>Deadlines\<close>

definition saturating_add :: "int \<Rightarrow> int \<Rightarrow> int" where
  "saturating_add a b = max (- (2 ^ 63)) (min (2 ^ 63 - 1) (a + b))"

definition DEFAULT_VERIFY_TTL_NANOS :: int where
  "DEFAULT_VERIFY_TTL_NANOS = 24 * 60 * 60 * 1000000000"

definition DEFAULT_ESCALATION_TTL_NANOS :: int where
  "DEFAULT_ESCALATION_TTL_NANOS = 72 * 60 * 60 * 1000000000"

fun deadline_from :: "'w engine_config \<Rightarrow> lifecycle \<Rightarrow> timestamp \<Rightarrow> timestamp option" where
  "deadline_from cf Candidate since = Some (saturating_add since (cf_verify_ttl cf))"
| "deadline_from cf Verifying since = Some (saturating_add since (cf_verify_ttl cf))"
| "deadline_from cf Escalated since = Some (saturating_add since (cf_escalation_ttl cf))"
| "deadline_from cf _ since = None"

definition deadline_of :: "'w engine_config \<Rightarrow> entry \<Rightarrow> timestamp option" where
  "deadline_of cf en = deadline_from cf (e_state en) (e_since en)"

definition shadow_deadline :: "'w engine_config \<Rightarrow> 'w engine \<Rightarrow> transformation_id \<Rightarrow> timestamp option" where
  "shadow_deadline cf e t =
     Option.bind (Option.bind (sh_rows (en_shadow e) t) sr_state) (\<lambda>state.
     Option.bind (sh_since (en_shadow e) t) (\<lambda>since. deadline_from cf state since))"

definition deadline :: "'w engine_config \<Rightarrow> 'w engine \<Rightarrow> transformation_id \<Rightarrow> timestamp option" where
  "deadline cf e t =
     (case Option.bind (en_table e t) (deadline_of cf) of Some d \<Rightarrow> Some d | None \<Rightarrow> shadow_deadline cf e t)"

definition expire_if_due :: "'w engine_config \<Rightarrow> transformation_id \<Rightarrow> timestamp \<Rightarrow> ('w engine, bool) action" where
  "expire_if_due cf t now =
     then_do (get (\<lambda>e. deadline cf e t)) (\<lambda>d.
     case d of
       None \<Rightarrow> ret False
     | Some d \<Rightarrow> if now \<ge> d then then_do (abort_entry cf t Expired None now) (\<lambda>_. ret True) else ret False)"

definition reap_candidates :: "'w engine \<Rightarrow> transformation_id list" where
  "reap_candidates e =
     sorted_list_of_set (dom (en_table e))
       @ filter (\<lambda>t. en_table e t = None) (sorted_list_of_set (dom (sh_rows (en_shadow e))))"

definition reap :: "'w engine_config \<Rightarrow> timestamp \<Rightarrow> ('w engine, transformation_id list) action" where
  "reap cf now =
     then_do (get reap_candidates) (\<lambda>candidates.
     then_do (for_each (\<lambda>t. then_do (expire_if_due cf t now) (\<lambda>b. ret (t, b))) candidates) (\<lambda>rs.
     ret (sort (map fst (filter snd rs)))))"

section \<open>What an engine can be asked\<close>

text \<open>\<open>sigma\<close>: the state tables as the live engine holds them.\<close>

definition entry_row :: "transformation_id \<Rightarrow> entry \<Rightarrow> state_row" where
  "entry_row t en =
     \<lparr>sr_transformation = t, sr_intent_id = Some (e_intent_id en), sr_delta_cid = Some (delta_cid (pd_reference (e_delta en))),
      sr_fp0 = Some (record_of_fingerprint (e_fp0 en)), sr_state = Some (e_state en), sr_verdict = e_verdict en,
      sr_verdict_digest = e_verdict_digest en, sr_enforced = e_enforced en,
      sr_fail_posture_engaged = e_fail_posture_engaged en, sr_canonical_cid = e_canonical_cid en,
      sr_apply_started = e_apply_started en, sr_observation_cid = e_observation_cid en, sr_rollback = e_rollback en,
      sr_provenance = e_provenance en, sr_superseded_by = e_superseded_by en\<rparr>"

definition escrow_view :: "'w engine \<Rightarrow> escrow_row list" where
  "escrow_view e =
     (let merged = fold (\<lambda>(_, row) m. m(er_transformation row \<mapsto> row)) (btree_items (sh_escrow (en_shadow e))) (\<lambda>_. None)
      in map snd (btree_items (fold (\<lambda>(t, row) m. m(t \<mapsto> row)) (btree_items (en_escrow e)) merged)))"

definition engine_sigma :: "'w engine \<Rightarrow> sigma" where
  "engine_sigma e =
     new_sigma (map (\<lambda>(i, seed). \<lparr>dr_intent_id = i, dr_rng_seed = seed\<rparr>) (btree_items (en_drafted e)))
       (map (\<lambda>(t, en). entry_row t en) (btree_items (en_table e))) (escrow_view e)
       (map (\<lambda>(t, seq). \<lparr>cr_transformation = t, cr_ledger_seq = seq\<rparr>) (btree_items (en_committed e)))"

definition engine_state_of :: "'w engine \<Rightarrow> transformation_id \<Rightarrow> lifecycle option" where
  "engine_state_of e t =
     (case en_table e t of
        Some en \<Rightarrow> Some (e_state en)
      | None \<Rightarrow> Option.bind (sh_rows (en_shadow e) t) sr_state)"

end
