(* ===== verification/Pipeline.thy ===== *)
theory Pipeline
  imports Engine_State
begin

text \<open>
  The operations of the engine up to the commit, from \<open>src/crates/gx-engine/src/pipeline.rs\<close>:
  \<open>submit\<close>, \<open>plan\<close>, \<open>verify\<close> with the receipts of verdicts, \<open>escalation\<close>, \<open>cancel\<close> and
  \<open>canonicalize\<close>.
\<close>

section \<open>Reading the journal\<close>

definition attested_boundary :: "boundary_stage \<Rightarrow> bool \<Rightarrow> determinism_boundary" where
  "attested_boundary input has_verdict = of_stages input (if has_verdict then DeterministicReplay else StageUnknown)"

definition bump :: "verdict_kind option \<Rightarrow> verdict_tally \<Rightarrow> verdict_tally" where
  "bump kind t =
     (case kind of
        Some Admit \<Rightarrow> t\<lparr>vt_admit := vt_admit t + 1\<rparr>
      | Some Deny \<Rightarrow> t\<lparr>vt_deny := vt_deny t + 1\<rparr>
      | Some Escalate \<Rightarrow> t\<lparr>vt_escalate := vt_escalate t + 1\<rparr>
      | None \<Rightarrow> t\<lparr>vt_unverdicted := vt_unverdicted t + 1\<rparr>)"

fun tally_record :: "journal_record \<Rightarrow> verdict_tally \<Rightarrow> verdict_tally" where
  "tally_record (VerdictRec _ kind (Some _) _ _) t = bump (Some kind) t"
| "tally_record (HumanDecisionRec _ kind _ _ _ _) t = bump (Some kind) t"
| "tally_record (VerdictRec _ _ None _ _) t = bump None t"
| "tally_record _ t = t"

definition tally_from_the_journal :: "journal_record list \<Rightarrow> verdict_tally" where
  "tally_from_the_journal records = fold tally_record records tally_default"

text \<open>The last plan of a transformation on record: its locator, parents, input stage, undo witness, time.\<close>

fun planned_fields ::
  "transformation_id \<Rightarrow> journal_record \<Rightarrow>
    (string \<times> transformation_id list \<times> boundary_stage \<times> undo_disposition option \<times> timestamp) option" where
  "planned_fields t (PlannedRec t' _ locator _ _ parents inp witness at) =
     (if t' = t then Some (locator, parents, inp, witness, at) else None)"
| "planned_fields t _ = None"

definition last_planned ::
  "transformation_id \<Rightarrow> journal_record list \<Rightarrow>
    (string \<times> transformation_id list \<times> boundary_stage \<times> undo_disposition option \<times> timestamp) option" where
  "last_planned t records = fold (\<lambda>r found. case planned_fields t r of Some x \<Rightarrow> Some x | None \<Rightarrow> found) records None"

definition joined_input_generation :: "'w engine_config \<Rightarrow> substrate_kind \<Rightarrow> actor \<Rightarrow> boundary_stage" where
  "joined_input_generation cf k who =
     (case who of
        Agent _ _ \<Rightarrow> LlmOriginated
      | _ \<Rightarrow> (case cf_input_stages cf k of None \<Rightarrow> StageUnknown | Some declared \<Rightarrow> declared))"

definition journalled_input_generation :: "'w engine \<Rightarrow> transformation_id \<Rightarrow> boundary_stage" where
  "journalled_input_generation e t =
     (case last_planned t (en_records e) of None \<Rightarrow> StageUnknown | Some (_, _, inp, _, _) \<Rightarrow> inp)"

definition journalled_undo :: "'w engine \<Rightarrow> transformation_id \<Rightarrow> undo_attestation option" where
  "journalled_undo e t =
     (case last_planned t (en_records e) of
        Some (_, p # _, _, Some w, _) \<Rightarrow> Some \<lparr>ua_undoes = p, ua_witness = w\<rparr>
      | _ \<Rightarrow> None)"

fun verdict_time :: "transformation_id \<Rightarrow> journal_record \<Rightarrow> timestamp option" where
  "verdict_time t (VerdictRec t' _ _ _ at) = (if t' = t then Some at else None)"
| "verdict_time t _ = None"

section \<open>Submitting and planning\<close>

definition submit :: "'w engine_config \<Rightarrow> intent \<Rightarrow> u64 \<Rightarrow> timestamp \<Rightarrow> ('w engine, intent_id) action" where
  "submit cf i seed at =
     then_do (lift (map_err EngineCanon (cid_compute (ec_hash (cf_codec cf)) (ec_intent (cf_codec cf)) (\<lambda>i. i) i))) (\<lambda>iid.
     then_do (get (\<lambda>e. en_drafted e iid)) (\<lambda>known.
     if known \<noteq> None then ret iid
     else
       then_do (engine_journal_append cf (DraftCreatedRec iid seed at)) (\<lambda>_.
       then_do (modify (\<lambda>e. e\<lparr>en_drafted := (en_drafted e)(iid \<mapsto> seed)\<rparr>)) (\<lambda>_.
       ret iid))))"

definition plan_shape_of :: "'w engine_config \<Rightarrow> intent \<Rightarrow> timestamp \<Rightarrow> ('w engine, plan_shape) action" where
  "plan_shape_of cf i at =
     then_do (lift (map_err EngineCanon (cid_compute (ec_hash (cf_codec cf)) (ec_intent (cf_codec cf)) (\<lambda>i. i) i))) (\<lambda>iid.
     then_do (adapter_of cf (in_substrate i)) (\<lambda>ad.
     then_do (ask cf ''snapshot'' (ad_snapshot ad (in_locator i))) (\<lambda>pre.
     then_do (ask cf ''plan'' (ad_plan ad i pre)) (\<lambda>delta.
     then_do (ask cf ''precondition'' (ad_precondition ad pre)) (\<lambda>fp0.
     then_do (lift (map_err EngineCore (new_transformation zero_cid 0 (Object (obj_id pre)) (pd_promised_target delta) []
         \<lparr>m_intent_id = iid, m_delta = pd_reference delta, m_context = in_context i, m_actor = in_actor i,
          m_created_at = at\<rparr>))) (\<lambda>t.
     then_do (lift (map_err EngineCanon (cid_compute (ec_hash (cf_codec cf)) (ec_transformation (cf_codec cf))
         transformation_identity t))) (\<lambda>tid.
     ret \<lparr>ps_id = tid, ps_transformation = t\<lparr>t_id := tid\<rparr>, ps_delta = delta, ps_fp0 = fp0, ps_pre = pre\<rparr>)))))))"

definition planned_id :: "'w engine_config \<Rightarrow> intent \<Rightarrow> timestamp \<Rightarrow> ('w engine, transformation_id) action" where
  "planned_id cf i at = then_do (plan_shape_of cf i at) (\<lambda>s. ret (ps_id s))"

text \<open>\<open>checked_ticket\<close>: the id of a ticket must be the digest of its contents; the time is set here.\<close>

definition checked_ticket :: "'w engine_config \<Rightarrow> escalation_ticket \<Rightarrow> timestamp \<Rightarrow> engine_error + escalation_ticket" where
  "checked_ticket cf ticket at =
     and_then (map_err EngineCanon (cid_compute (gc_hash (ec_gate (cf_codec cf))) (gc_ticket (ec_gate (cf_codec cf))) ticket_view ticket))
       (\<lambda>minted. if minted \<noteq> tk_id ticket then Inl InconsistentTicket else Inr (ticket\<lparr>tk_created_at := at\<rparr>))"

definition journalled_verdict_at :: "'w engine \<Rightarrow> transformation_id \<Rightarrow> timestamp option" where
  "journalled_verdict_at e t =
     fold (\<lambda>r found. case verdict_time t r of Some at \<Rightarrow> Some at | None \<Rightarrow> found) (en_records e) None"

definition rebuilt_ticket :: "'w engine_config \<Rightarrow> 'w engine \<Rightarrow> transformation_id \<Rightarrow> engine_error + escalation_ticket option" where
  "rebuilt_ticket cf e t =
     and_then (map_err (\<lambda>_. EngineMalformed) (new_escalation_ticket (ec_gate (cf_codec cf)) t)) (\<lambda>ticket.
     and_then (checked_ticket cf ticket (case journalled_verdict_at e t of Some at \<Rightarrow> at | None \<Rightarrow> 0)) (\<lambda>ticket.
     Inr (Some ticket)))"

fun lifecycle_name :: "lifecycle \<Rightarrow> string" where
  "lifecycle_name Draft = ''Draft''"
| "lifecycle_name Candidate = ''Candidate''"
| "lifecycle_name Verifying = ''Verifying''"
| "lifecycle_name Admitted = ''Admitted''"
| "lifecycle_name Denied = ''Denied''"
| "lifecycle_name Escalated = ''Escalated''"
| "lifecycle_name Canonicalized = ''Canonicalized''"
| "lifecycle_name Committing = ''Committing''"
| "lifecycle_name Committed = ''Committed''"
| "lifecycle_name (Aborted _) = ''Aborted''"
| "lifecycle_name Superseded = ''Superseded''"

definition invalid :: "transformation_id \<Rightarrow> lifecycle \<Rightarrow> string \<Rightarrow> engine_error" where
  "invalid t state attempted = InvalidState t (lifecycle_name state) attempted"

text \<open>The two entries \<open>plan\<close> seats: one rebuilt from the journal after a restart, and a new one.\<close>

definition rehydrated_entry ::
  "intent_id \<Rightarrow> plan_shape \<Rightarrow> state_row option \<Rightarrow> timestamp \<Rightarrow> escalation_ticket option \<Rightarrow> entry" where
  "rehydrated_entry iid s row since ticket =
     \<lparr>e_intent_id = iid, e_transformation = ps_transformation s,
      e_state = (case Option.bind row sr_state of Some st \<Rightarrow> st | None \<Rightarrow> Candidate), e_since = since,
      e_blocked_by = None, e_delta = ps_delta s, e_fp0 = ps_fp0 s, e_pre = ps_pre s,
      e_verdict = Option.bind row sr_verdict, e_verdict_digest = Option.bind row sr_verdict_digest,
      e_enforced = (case row of None \<Rightarrow> True | Some r \<Rightarrow> sr_enforced r),
      e_fail_posture_engaged = (case row of None \<Rightarrow> False | Some r \<Rightarrow> sr_fail_posture_engaged r),
      e_canonical_cid = Option.bind row sr_canonical_cid, e_ticket = ticket, e_admit_proof = None,
      e_deny_reasons = None, e_verdict_receipts = [], e_superseded_by = Option.bind row sr_superseded_by,
      e_apply_started = Option.bind row sr_apply_started, e_observation_cid = Option.bind row sr_observation_cid,
      e_rollback = Option.bind row sr_rollback, e_provenance = Option.bind row sr_provenance,
      e_inverse_cid = None, e_applied_at = None, e_receipt = None\<rparr>"

definition candidate_entry :: "intent_id \<Rightarrow> plan_shape \<Rightarrow> timestamp \<Rightarrow> entry" where
  "candidate_entry iid s at =
     \<lparr>e_intent_id = iid, e_transformation = ps_transformation s, e_state = Candidate, e_since = at, e_blocked_by = None,
      e_delta = ps_delta s, e_fp0 = ps_fp0 s, e_pre = ps_pre s, e_verdict = None, e_verdict_digest = None,
      e_enforced = True, e_fail_posture_engaged = False, e_canonical_cid = None, e_ticket = None, e_admit_proof = None,
      e_deny_reasons = None, e_verdict_receipts = [], e_superseded_by = None, e_apply_started = None,
      e_observation_cid = None, e_rollback = None, e_provenance = None, e_inverse_cid = None, e_applied_at = None,
      e_receipt = None\<rparr>"

definition last_resolved :: "'w engine \<Rightarrow> intent_id \<Rightarrow> transformation_id option" where
  "last_resolved e iid =
     (case en_resolved e iid of None \<Rightarrow> None | Some ts \<Rightarrow> if ts = [] then None else Some (List.last ts))"

text \<open>Whether the journal forbids a new plan because the last resolution has left \<open>Candidate\<close>.\<close>

definition replan_refused :: "'w engine \<Rightarrow> transformation_id option \<Rightarrow> transformation_id \<Rightarrow> engine_error option" where
  "replan_refused e recorded tid =
     (case recorded of
        None \<Rightarrow> None
      | Some r \<Rightarrow>
          if \<not> (recorded = Some tid \<and> en_table e tid = None) \<and> en_table e r = None then
            (case Option.bind (sigma_state_of (reconstruct (en_records e)) r) sr_state of
               Some st \<Rightarrow> if st \<noteq> Candidate then Some (invalid r st ''plan'') else None
             | None \<Rightarrow> None)
          else None)"

definition plan_rehydrate :: "'w engine_config \<Rightarrow> intent_id \<Rightarrow> plan_shape \<Rightarrow> timestamp \<Rightarrow> ('w engine, transformation_id) action" where
  "plan_rehydrate cf iid s at =
     then_do (put_blob cf (ps_delta s)) (\<lambda>_.
     then_do (get (\<lambda>e. (sigma_state_of (reconstruct (en_records e)) (ps_id s), sh_since (en_shadow e) (ps_id s)))) (\<lambda>(row, since).
     then_do (if Option.bind row sr_verdict = Some Escalate \<and> Option.bind row sr_state = Some Escalated
              then then_do (get (\<lambda>e. rebuilt_ticket cf e (ps_id s))) lift else ret None) (\<lambda>ticket.
     then_do (seat (ps_id s) (rehydrated_entry iid s row (case since of Some x \<Rightarrow> x | None \<Rightarrow> at) ticket)) (\<lambda>_.
     ret (ps_id s)))))"

definition plan :: "'w engine_config \<Rightarrow> intent \<Rightarrow> timestamp \<Rightarrow> ('w engine, transformation_id) action" where
  "plan cf i at =
     then_do (lift (map_err EngineCanon (cid_compute (ec_hash (cf_codec cf)) (ec_intent (cf_codec cf)) (\<lambda>i. i) i))) (\<lambda>iid.
     then_do (get (\<lambda>e. en_drafted e iid)) (\<lambda>drafted.
     if drafted = None then fail (NotFound ''draft'')
     else
       then_do (get (\<lambda>e. find (\<lambda>(_, en). e_intent_id en = iid \<and> e_state en \<noteq> Candidate) (btree_items (en_table e)))) (\<lambda>existing.
       case existing of
         Some (_, en) \<Rightarrow> fail (invalid (t_id (e_transformation en)) (e_state en) ''plan'')
       | None \<Rightarrow>
           then_do (plan_shape_of cf i at) (\<lambda>s.
           then_do (get (\<lambda>e. (last_resolved e iid, en_table e (ps_id s) = None))) (\<lambda>(recorded, absent).
           then_do (get (\<lambda>e. replan_refused e recorded (ps_id s))) (\<lambda>refused.
           case refused of
             Some err \<Rightarrow> fail err
           | None \<Rightarrow>
               if recorded = Some (ps_id s) \<and> absent then plan_rehydrate cf iid s at
               else
                 then_do (engine_journal_append cf (PlannedRec (ps_id s) iid (in_locator i) (delta_cid (pd_reference (ps_delta s)))
                     (record_of_fingerprint (ps_fp0 s)) (t_parents (ps_transformation s))
                     (joined_input_generation cf (in_substrate i) (in_actor i)) None at)) (\<lambda>_.
                 then_do (remember_resolution iid (ps_id s)) (\<lambda>_.
                 then_do (put_blob cf (ps_delta s)) (\<lambda>_.
                 then_do (seat (ps_id s) (candidate_entry iid s at)) (\<lambda>_.
                 ret (ps_id s))))))))))) "

section \<open>Receipts of verdicts\<close>

definition CURRENT_PAYLOAD_VERSION :: nat where
  "CURRENT_PAYLOAD_VERSION = 1"

definition verdict_payload :: "'w engine_config \<Rightarrow> 'w engine \<Rightarrow> transformation_id \<Rightarrow> entry \<Rightarrow> verdict_summary option \<Rightarrow> key_pair \<Rightarrow> receipt_payload" where
  "verdict_payload cf e t en v key =
     \<lparr>rp_key_id = kp_key_id key, rp_verdict = v, rp_enforced = e_enforced en, rp_confinement = Some (cf_confinement cf),
      rp_catalogue_hash = None, rp_read_set = None, rp_reversibility = None, rp_undo = None,
      rp_determinism_boundary = attested_boundary (journalled_input_generation e t) (v \<noteq> None),
      rp_receipt_kind = VerdictReceipt, rp_canonical_cid = t, rp_inverse_delta = None, rp_transformation = t,
      rp_inclusion_proof = None, rp_fingerprint_scope = fp_scope (e_fp0 en),
      rp_fail_posture_engaged = e_fail_posture_engaged en, rp_precondition_fingerprint = fp_digest (e_fp0 en),
      rp_postcondition_fingerprint = None, rp_payload_version = Some CURRENT_PAYLOAD_VERSION,
      rp_engine_version = Some (cf_version cf)\<rparr>"

definition issue_verdict_receipt ::
  "'w engine_config \<Rightarrow> transformation_id \<Rightarrow> verdict_summary option \<Rightarrow> timestamp \<Rightarrow> key_pair \<Rightarrow> ('w engine, unit) action" where
  "issue_verdict_receipt cf t v at key =
     then_do (get (\<lambda>e. (e, en_table e t))) (\<lambda>(e, found).
     case found of
       None \<Rightarrow> ret ()
     | Some en \<Rightarrow>
         then_do (lift (map_err (\<lambda>_. WitnessRefused ''issue the verdict receipt'')
             (receipt_issue (ec_payload (cf_codec cf)) (verdict_payload cf e t en v key) at key))) (\<lambda>r.
         then_do (on_entry t (\<lambda>en. en\<lparr>e_verdict_receipts := e_verdict_receipts en @ [r]\<rparr>)) (\<lambda>_.
         modify (\<lambda>e. e\<lparr>en_verdicts := bump (map_option vs_kind v) (en_verdicts e)\<rparr>))))"

section \<open>Verifying\<close>

definition unreachable_collector :: "'w engine_config \<Rightarrow> transformation_id \<Rightarrow> timestamp \<Rightarrow> key_pair \<Rightarrow> ('w engine, lifecycle) action" where
  "unreachable_collector cf t at key =
     (case cf_posture cf of
        FailClosed \<Rightarrow>
          then_do (engine_journal_append cf (AbortedRec t VerifierUnavailable None at)) (\<lambda>_.
          set_state t (Aborted VerifierUnavailable) at)
      | FailOpen \<Rightarrow>
          then_do (engine_journal_append cf (VerdictRec t Admit None True at)) (\<lambda>_.
          then_do (on_entry t (\<lambda>en. en\<lparr>e_verdict := None, e_verdict_digest := None, e_enforced := False,
                     e_fail_posture_engaged := True\<rparr>)) (\<lambda>_.
          then_do (set_state t Admitted at) (\<lambda>state.
          then_do (issue_verdict_receipt cf t None at key) (\<lambda>_.
          ret state)))))"

text \<open>Whether an entry on the same object stands in the way: what is decided but not yet finished.\<close>

definition in_flight :: "enforcement_mode \<Rightarrow> lifecycle \<Rightarrow> bool" where
  "in_flight mode st =
     (case st of
        Draft \<Rightarrow> False
      | Candidate \<Rightarrow> False
      | Denied \<Rightarrow> mode = RecordOnly
      | _ \<Rightarrow> \<not> is_terminal st)"

fun first_conflict ::
  "'w engine_config \<Rightarrow> 'w adapter \<Rightarrow> enforcement_mode \<Rightarrow> transformation_id \<Rightarrow> planned_delta \<Rightarrow> transformation_id list
    \<Rightarrow> ('w engine, transformation_id option) action" where
  "first_conflict cf ad mode t d [] = ret None"
| "first_conflict cf ad mode t d (x # xs) =
     then_do (get (\<lambda>e. en_table e x)) (\<lambda>other.
     case other of
       None \<Rightarrow> first_conflict cf ad mode t d xs
     | Some en \<Rightarrow>
         if x = t \<or> \<not> in_flight mode (e_state en) then first_conflict cf ad mode t d xs
         else then_do (ask cf ''commutation'' (ad_commutation ad (e_delta en) d)) (\<lambda>ans.
              case ans of Conflicts _ \<Rightarrow> ret (Some x) | Commutes \<Rightarrow> first_conflict cf ad mode t d xs))"

definition conflicting_predecessor ::
  "'w engine_config \<Rightarrow> transformation_id \<Rightarrow> enforcement_mode \<Rightarrow> ('w engine, transformation_id option) action" where
  "conflicting_predecessor cf t mode =
     then_do (get (\<lambda>e. en_table e t)) (\<lambda>found.
     case found of
       None \<Rightarrow> ret None
     | Some this \<Rightarrow>
         then_do (adapter_of cf (pd_substrate (e_delta this))) (\<lambda>ad.
         then_do (get (\<lambda>e. case en_by_subject e (t_subject (e_transformation this)) of
                     None \<Rightarrow> [] | Some ts \<Rightarrow> sorted_list_of_set ts)) (\<lambda>siblings.
         first_conflict cf ad mode t (e_delta this) siblings)))"

definition take_verdict ::
  "'w engine_config \<Rightarrow> transformation_id \<Rightarrow> verdict \<Rightarrow> timestamp \<Rightarrow> key_pair \<Rightarrow> ('w engine, lifecycle) action" where
  "take_verdict cf t v at key =
     then_do (lift (map_err (\<lambda>_. EngineMalformed) (proof_digest (ec_gate (cf_codec cf)) v))) (\<lambda>d.
     then_do (engine_journal_append cf (VerdictRec t (kind_of_verdict v) (Some d) False at)) (\<lambda>_.
     then_do (lift (case v of
         EscalateVerdict ticket \<Rightarrow> and_then (checked_ticket cf ticket at) (\<lambda>ticket. Inr (Some ticket, None, None))
       | AdmitVerdict p \<Rightarrow> Inr (None, Some p, None)
       | DenyVerdict rs \<Rightarrow> Inr (None, None, Some rs))) (\<lambda>(ticket, admitted, reasons).
     then_do (on_entry t (\<lambda>en. en\<lparr>e_verdict := Some (kind_of_verdict v), e_verdict_digest := Some d, e_ticket := ticket,
                e_admit_proof := admitted, e_deny_reasons := reasons\<rparr>)) (\<lambda>_.
     then_do (set_state t (state_of_verdict (kind_of_verdict v)) at) (\<lambda>state.
     then_do (issue_verdict_receipt cf t (Some \<lparr>vs_kind = kind_of_verdict v, vs_proof_digest = d\<rparr>) at key) (\<lambda>_.
     ret state))))))"

definition ask_the_gate :: "'w engine_config \<Rightarrow> transformation_id \<Rightarrow> timestamp \<Rightarrow> key_pair \<Rightarrow> ('w engine, lifecycle) action" where
  "ask_the_gate cf t at key =
     then_do (entry_at t) (\<lambda>en.
     then_do (look cf (cf_evidence cf (e_transformation en) (e_pre en))) (\<lambda>collected.
     case collected of
       Inl _ \<Rightarrow> unreachable_collector cf t at key
     | Inr ev \<Rightarrow>
         then_do (adapter_of cf (pd_substrate (e_delta en))) (\<lambda>ad.
         then_do (ask cf ''invert'' (ad_invert ad (e_delta en) (e_pre en))) (\<lambda>inv.
         case gate_verify (ec_gate (cf_codec cf)) (cf_gate cf)
                \<lparr>gi_t = e_transformation en, gi_pre = e_pre en, gi_planned = pd_payload (e_delta en), gi_evidence = ev,
                 gi_invert_available = (io_inverse inv \<noteq> None), gi_decided_at = at\<rparr> of
           Inl _ \<Rightarrow>
             then_do (engine_journal_append cf (AbortedRec t InternalError None at)) (\<lambda>_.
             set_state t (Aborted InternalError) at)
         | Inr v \<Rightarrow> take_verdict cf t v at key))))"

definition verify ::
  "'w engine_config \<Rightarrow> transformation_id \<Rightarrow> timestamp \<Rightarrow> key_pair \<Rightarrow> enforcement_mode option \<Rightarrow> ('w engine, lifecycle) action" where
  "verify cf t at key mode =
     (let mode = (case mode of None \<Rightarrow> cf_mode cf | Some m \<Rightarrow> m) in
      then_do (expire_if_due cf t at) (\<lambda>_.
      then_do (entry_of t) (\<lambda>en.
      if e_state en \<noteq> Candidate then fail (invalid t (e_state en) ''verify'')
      else
        then_do (case e_blocked_by en of
            None \<Rightarrow> ret ()
          | Some blocker \<Rightarrow>
              then_do (get (\<lambda>e. map_option e_state (en_table e blocker))) (\<lambda>st.
              if st = Some Committed
              then fail (InvalidState t ''Candidate (blocked)'' ''verify after a conflicting commit'')
              else on_entry t (\<lambda>en. en\<lparr>e_blocked_by := None\<rparr>))) (\<lambda>_.
        then_do (conflicting_predecessor cf t mode) (\<lambda>blocker.
        case blocker of
          Some b \<Rightarrow> then_do (on_entry t (\<lambda>en. en\<lparr>e_blocked_by := Some b\<rparr>)) (\<lambda>_. ret Candidate)
        | None \<Rightarrow>
            then_do (engine_journal_append cf (VerifyStartedRec t at)) (\<lambda>_.
            then_do (set_state t Verifying at) (\<lambda>_.
            ask_the_gate cf t at key)))))))"

section \<open>Human rulings and cancellation\<close>

text \<open>\<open>str::trim\<close> removes the characters of the Unicode property White\_Space; here they are read off
  the UTF-8 bytes of the text.\<close>

definition white_len :: "nat list \<Rightarrow> nat" where
  "white_len bs =
     (case bs of
        [] \<Rightarrow> 0
      | b # bs \<Rightarrow>
          if 9 \<le> b \<and> b \<le> 13 \<or> b = 32 then 1
          else (case bs of
              [] \<Rightarrow> 0
            | c # bs \<Rightarrow>
                if b = 0xc2 \<and> (c = 0x85 \<or> c = 0xa0) then 2
                else (case bs of
                    [] \<Rightarrow> 0
                  | d # _ \<Rightarrow>
                      if b = 0xe1 \<and> c = 0x9a \<and> d = 0x80
                         \<or> b = 0xe2 \<and> c = 0x80 \<and> (0x80 \<le> d \<and> d \<le> 0x8a \<or> d = 0xa8 \<or> d = 0xa9 \<or> d = 0xaf)
                         \<or> b = 0xe2 \<and> c = 0x81 \<and> d = 0x9f
                         \<or> b = 0xe3 \<and> c = 0x80 \<and> d = 0x80
                      then 3 else 0)))"

function all_white :: "nat list \<Rightarrow> bool" where
  "all_white bs =
     (if bs = [] then True else if white_len bs = 0 then False else all_white (drop (white_len bs) bs))"
  by pat_completeness auto
termination by (relation "measure length") auto

declare all_white.simps [simp del]

definition trims_to_nothing :: "string \<Rightarrow> bool" where
  "trims_to_nothing text = all_white (map of_char text)"

definition escalation ::
  "'w engine_config \<Rightarrow> transformation_id \<Rightarrow> human_ruling \<Rightarrow> timestamp \<Rightarrow> key_pair \<Rightarrow> ('w engine, lifecycle) action" where
  "escalation cf t ruling at key =
     then_do (expire_if_due cf t at) (\<lambda>_.
     then_do (entry_of t) (\<lambda>en.
     if e_state en \<noteq> Escalated then fail (invalid t (e_state en) ''escalation'')
     else if hr_decision ruling = Escalate then fail (InvalidState t ''Escalated'' ''escalation(Escalate)'')
     else if trims_to_nothing (hr_reason ruling) then fail EngineMalformed
     else
       then_do (lift (map_err EngineCanon (cid_compute (ec_hash (cf_codec cf)) (ec_ruling (cf_codec cf)) (\<lambda>r. r) ruling))) (\<lambda>d.
       then_do (engine_journal_append cf (HumanDecisionRec t (hr_decision ruling) (hr_reason ruling) (hr_actor ruling) (Some d) at)) (\<lambda>_.
       then_do (on_entry t (\<lambda>en. en\<lparr>e_verdict := Some (hr_decision ruling), e_verdict_digest := Some d\<rparr>)) (\<lambda>_.
       then_do (set_state t (state_of_verdict (hr_decision ruling)) at) (\<lambda>state.
       then_do (issue_verdict_receipt cf t (Some \<lparr>vs_kind = hr_decision ruling, vs_proof_digest = d\<rparr>) at key) (\<lambda>_.
       ret state)))))))"

definition cancel :: "'w engine_config \<Rightarrow> transformation_id \<Rightarrow> timestamp \<Rightarrow> ('w engine, lifecycle) action" where
  "cancel cf t at =
     then_do (expire_if_due cf t at) (\<lambda>_.
     then_do (entry_of t) (\<lambda>en.
     case e_state en of
       Aborted reason \<Rightarrow> ret (Aborted reason)
     | Candidate \<Rightarrow> abort_entry cf t OwnerCancelled None at
     | Verifying \<Rightarrow> abort_entry cf t OwnerCancelled None at
     | Admitted \<Rightarrow> abort_entry cf t OwnerCancelled None at
     | Canonicalized \<Rightarrow> abort_entry cf t OwnerCancelled None at
     | Escalated \<Rightarrow> abort_entry cf t OwnerCancelled None at
     | st \<Rightarrow> fail (invalid t st ''cancel'')))"

section \<open>Canonicalizing\<close>

definition canonicalize ::
  "'w engine_config \<Rightarrow> transformation_id \<Rightarrow> timestamp \<Rightarrow> enforcement_mode option \<Rightarrow> ('w engine, lifecycle) action" where
  "canonicalize cf t at mode =
     (let record_only = ((case mode of None \<Rightarrow> cf_mode cf | Some m \<Rightarrow> m) = RecordOnly) in
      then_do (expire_if_due cf t at) (\<lambda>_.
      then_do (entry_of t) (\<lambda>en.
      if e_state en = Canonicalized then ret Canonicalized
      else if \<not> (e_state en = Admitted \<or> e_state en = Denied \<and> record_only) then fail (invalid t (e_state en) ''canonicalize'')
      else
        then_do (lift (cf_canon cf (e_transformation en))) (\<lambda>bs.
        if \<not> is_canonical (ec_value_from (cf_codec cf)) (ec_value_to (cf_codec cf)) bs then fail (NotIdempotent t)
        else
          then_do (lift (map_err EngineCanon (cid_compute (ec_hash (cf_codec cf)) (ec_transformation (cf_codec cf))
              transformation_identity (e_transformation en)))) (\<lambda>c.
          let enf = (if e_state en = Denied then Some False else if e_enforced en then None else Some False) in
          then_do (engine_journal_append cf (CanonicalizedRec t c enf at)) (\<lambda>_.
          then_do (on_entry t (\<lambda>en. en\<lparr>e_canonical_cid := Some c, e_enforced := (if enf = Some False then False else e_enforced en)\<rparr>)) (\<lambda>_.
          set_state t Canonicalized at)))))))"

end
