(* ===== verification/Commit.thy ===== *)
theory Commit
  imports Pipeline
begin

text \<open>
  The commit, from \<open>src/crates/gx-engine/src/pipeline.rs\<close>: the two comparisons of fingerprints around
  the escrow of the inverse, the application of the delta, the compensation of a failed one, the
  receipt with its place in the ledger, the recorded head and the supersession of what was undone.
\<close>

section \<open>Reading the world around an application\<close>

datatype compensation_verdict = NothingToTakeBack | TakeBackFrom fingerprint | CompUnreadable

definition apply_once :: "'w engine_config \<Rightarrow> 'w adapter \<Rightarrow> planned_delta \<Rightarrow> ('w engine, substrate_error + applied_delta) action" where
  "apply_once cf ad d e =
     (case ad_apply ad d (cf_drift cf (en_tick e) (en_world e)) of
        (r, w) \<Rightarrow> (Inr r, e\<lparr>en_world := w, en_tick := Suc (en_tick e)\<rparr>))"

definition read_world :: "'w engine_config \<Rightarrow> 'w adapter \<Rightarrow> string \<Rightarrow> ('w engine, fingerprint option) action" where
  "read_world cf ad locator =
     then_do (look cf (ad_snapshot ad locator)) (\<lambda>snap.
     case snap of
       Inl _ \<Rightarrow> ret None
     | Inr guard \<Rightarrow>
         then_do (look cf (ad_precondition ad guard)) (\<lambda>fp. ret (case fp of Inl _ \<Rightarrow> None | Inr fp \<Rightarrow> Some fp)))"

definition world_the_failed_apply_left ::
  "'w engine_config \<Rightarrow> 'w adapter \<Rightarrow> string \<Rightarrow> fingerprint \<Rightarrow> ('w engine, compensation_verdict) action" where
  "world_the_failed_apply_left cf ad locator fp0 =
     then_do (read_world cf ad locator) (\<lambda>fp.
     ret (case fp of
            None \<Rightarrow> CompUnreadable
          | Some fp \<Rightarrow>
              (case cas_eq fp0 fp of
                 Inr True \<Rightarrow> NothingToTakeBack
               | Inr False \<Rightarrow> TakeBackFrom fp
               | Inl _ \<Rightarrow> CompUnreadable)))"

definition world_is_still_at ::
  "'w engine_config \<Rightarrow> 'w adapter \<Rightarrow> string \<Rightarrow> fingerprint \<Rightarrow> ('w engine, bool option) action" where
  "world_is_still_at cf ad locator expected =
     then_do (read_world cf ad locator) (\<lambda>fp.
     ret (case fp of
            None \<Rightarrow> None
          | Some fp \<Rightarrow> (case cas_eq expected fp of Inr b \<Rightarrow> Some b | Inl _ \<Rightarrow> None)))"

definition rollback_landed :: "'w engine_config \<Rightarrow> 'w adapter \<Rightarrow> string \<Rightarrow> fingerprint \<Rightarrow> ('w engine, rollback) action" where
  "rollback_landed cf ad locator fp0 =
     then_do (read_world cf ad locator) (\<lambda>fp.
     ret (case fp of
            None \<Rightarrow> Failed
          | Some fp2 \<Rightarrow>
              (case cas_eq fp0 fp2 of
                 Inr True \<Rightarrow> Succeeded
               | Inr False \<Rightarrow> Diverged
               | Inl _ \<Rightarrow> Failed)))"

text \<open>The comparison of the fingerprint taken at planning with one taken now; \<open>commit\<close> makes it twice.\<close>

definition observed_postcondition :: "'w engine_config \<Rightarrow> 'w adapter \<Rightarrow> string \<Rightarrow> ('w engine, fingerprint) action" where
  "observed_postcondition cf ad locator =
     then_do (ask cf ''snapshot'' (ad_snapshot ad locator)) (\<lambda>snap.
     ask cf ''precondition'' (ad_precondition ad snap))"

section \<open>Escrow\<close>

definition escrow_insert :: "transformation_id \<Rightarrow> cid option \<Rightarrow> inverse_status \<Rightarrow> ('w engine, unit) action" where
  "escrow_insert t c st = modify (\<lambda>e.
     e\<lparr>en_escrow := (en_escrow e)(t \<mapsto> \<lparr>er_transformation = t, er_inverse_cid = c, er_retained_until = None, er_status = st\<rparr>)\<rparr>)"

definition needs_completion :: "'w engine_config \<Rightarrow> substrate_kind \<Rightarrow> planned_delta \<Rightarrow> engine_error + bool" where
  "needs_completion cf k back =
     (case cf_completions cf k of
        Some c \<Rightarrow> map_err (\<lambda>_. AdapterRefused ''needs_completion'') (ic_needs_completion c back)
      | None \<Rightarrow> Inr False)"

definition escrow_inverse ::
  "'w engine_config \<Rightarrow> transformation_id \<Rightarrow> planned_delta \<Rightarrow> invert_outcome \<Rightarrow> timestamp
    \<Rightarrow> ('w engine, (cid \<times> planned_delta \<times> bool) option) action" where
  "escrow_inverse cf t delta out at =
     (case io_inverse out of
        Some back \<Rightarrow>
          (let c = delta_cid (pd_reference back) in
           then_do (lift (needs_completion cf (pd_substrate delta) back)) (\<lambda>pending.
           then_do (engine_journal_append cf (InverseEscrowedRec t (Some c) pending (io_reads out) True False at)) (\<lambda>_.
           then_do (put_blob cf back) (\<lambda>_.
           then_do (escrow_insert t (Some c) (if pending then Pending else Available)) (\<lambda>_.
           then_do (on_entry t (\<lambda>en. en\<lparr>e_inverse_cid := Some c\<rparr>)) (\<lambda>_.
           ret (Some (c, back, pending))))))))
      | None \<Rightarrow>
          then_do (engine_journal_append cf
              (InverseEscrowedRec t None False (io_reads out) True (io_verdict out = ReversibleUnknown) at)) (\<lambda>_.
          then_do (escrow_insert t None (if io_verdict out = ReversibleUnknown then Undetermined else Unavailable)) (\<lambda>_.
          ret None)))"

definition record_observation :: "'w engine_config \<Rightarrow> transformation_id \<Rightarrow> bytes \<Rightarrow> timestamp \<Rightarrow> ('w engine, unit) action" where
  "record_observation cf t bs at =
     (let c = observation_address (ec_hash (cf_codec cf)) bs in
      then_do (engine_journal_append cf (ApplyObservedRec t c at)) (\<lambda>_.
      then_do (put_observation cf bs) (\<lambda>_.
      on_entry t (\<lambda>en. en\<lparr>e_observation_cid := Some c\<rparr>))))"

definition settle_pending_escrow ::
  "'w engine_config \<Rightarrow> transformation_id \<Rightarrow> planned_delta option \<Rightarrow> bytes option \<Rightarrow> timestamp \<Rightarrow> ('w engine, cid option) action" where
  "settle_pending_escrow cf t partial observation at =
     (let completed = (case (partial, observation) of
          (Some p, Some bs) \<Rightarrow>
            (case cf_completions cf (pd_substrate p) of
               Some c \<Rightarrow> (case ic_complete_inverse c p bs of Inr r \<Rightarrow> r | Inl _ \<Rightarrow> None)
             | None \<Rightarrow> None)
        | _ \<Rightarrow> None)
      in case completed of
          Some full \<Rightarrow>
            (let c = delta_cid (pd_reference full) in
             then_do (engine_journal_append cf (InverseCompletedRec t (Some c) at)) (\<lambda>_.
             then_do (put_blob cf full) (\<lambda>_.
             then_do (escrow_insert t (Some c) Available) (\<lambda>_.
             then_do (on_entry t (\<lambda>en. en\<lparr>e_inverse_cid := Some c\<rparr>)) (\<lambda>_.
             ret (Some c))))))
        | None \<Rightarrow>
            then_do (engine_journal_append cf (InverseCompletedRec t None at)) (\<lambda>_.
            then_do (escrow_insert t None Unavailable) (\<lambda>_.
            then_do (on_entry t (\<lambda>en. en\<lparr>e_inverse_cid := None\<rparr>)) (\<lambda>_.
            ret None))))"

section \<open>Compensating a failed application\<close>

definition not_attempted :: "transformation_id \<Rightarrow> not_attempted_because \<Rightarrow> ('w engine, rollback) action" where
  "not_attempted t why =
     then_do (modify (\<lambda>e. e\<lparr>en_not_attempted := (en_not_attempted e)(t \<mapsto> why)\<rparr>)) (\<lambda>_. ret NotAttempted)"

definition start_apply :: "'w engine_config \<Rightarrow> transformation_id \<Rightarrow> cid \<Rightarrow> timestamp \<Rightarrow> ('w engine, unit) action" where
  "start_apply cf t c at =
     then_do (engine_journal_append cf (ApplyStartedRec t c at)) (\<lambda>_.
     on_entry t (\<lambda>en. en\<lparr>e_apply_started := Some c\<rparr>))"

definition compensate ::
  "'w engine_config \<Rightarrow> 'w adapter \<Rightarrow> transformation_id \<Rightarrow> string \<Rightarrow> fingerprint \<Rightarrow> (cid \<times> planned_delta \<times> bool) option \<Rightarrow> timestamp
    \<Rightarrow> ('w engine, rollback) action" where
  "compensate cf ad t locator fp0 held at =
     (case held of
        None \<Rightarrow> not_attempted t NoInverseWasEscrowed
      | Some (c, back, pending) \<Rightarrow>
          if pending then not_attempted t EscrowStillPartial
          else
            then_do (world_the_failed_apply_left cf ad locator fp0) (\<lambda>left.
            case left of
              CompUnreadable \<Rightarrow> not_attempted t WorldCouldNotBeRead
            | NothingToTakeBack \<Rightarrow> not_attempted t WorldNeverMoved
            | TakeBackFrom left_at \<Rightarrow>
                then_do (world_is_still_at cf ad locator left_at) (\<lambda>still.
                case still of
                  None \<Rightarrow> not_attempted t WorldCouldNotBeRead
                | Some still \<Rightarrow>
                    if \<not> still then not_attempted t WorldMovedBeneath
                    else
                      then_do (start_apply cf t c at) (\<lambda>_.
                      then_do (apply_once cf ad back) (\<lambda>r.
                      case r of
                        Inr _ \<Rightarrow> rollback_landed cf ad locator fp0
                      | Inl _ \<Rightarrow> ret Failed)))))"

section \<open>Filing\<close>

definition file_receipt :: "'w engine_config \<Rightarrow> transformation_id \<Rightarrow> receipt \<Rightarrow> ('w engine, unit) action" where
  "file_receipt cf t r =
     (if cf_files_receipts cf
      then then_do tick (\<lambda>n. lift (map_err (\<lambda>_. WitnessRefused ''file the commit receipt'') (sys_sink (cf_system cf) n t r)))
      else ret ())"

fun journal_format_kind :: "journal_format \<Rightarrow> bytes" where
  "journal_format_kind Legacy = ascii ''legacy''"
| "journal_format_kind Chained = ascii ''chained''"
| "journal_format_kind ChainedV2 = ascii ''chained-v2''"

definition HEAD_WITNESS_PAYLOAD_TYPE :: string where
  "HEAD_WITNESS_PAYLOAD_TYPE = ''application/vnd.glovrex.head-witness+json''"

definition write_head :: "'w engine_config \<Rightarrow> persisted_head \<Rightarrow> ('w engine, unit) action" where
  "write_head cf head e =
     (case head_write (ec_head (cf_codec cf)) (sys_head (cf_system cf) (en_tick e)) head (en_head_dir e) of
        (res, dir) \<Rightarrow> (map_err (\<lambda>_. LedgerRefused ''record the head'') res, e\<lparr>en_tick := Suc (en_tick e), en_head_dir := dir\<rparr>))"

definition head_to_record ::
  "'w engine_config \<Rightarrow> 'w engine \<Rightarrow> string \<Rightarrow> timestamp \<Rightarrow> key_pair \<Rightarrow> engine_error + persisted_head" where
  "head_to_record cf e origin at key =
     (let H = ec_hash (cf_codec cf); log = ls_tree (en_ledger e);
          journal_len = (case ld_file (en_journal_dir e) of Some bs \<Rightarrow> length bs | None \<Rightarrow> 0) in
      and_then (map_err (\<lambda>_. LedgerRefused ''build the head'') (unsigned_checkpoint H log origin at)) (\<lambda>unsigned.
      and_then (map_err (\<lambda>_. WitnessRefused ''sign the head'') (sign_checkpoint (ec_checkpoint (cf_codec cf)) unsigned key)) (\<lambda>ck.
      let head = \<lparr>ph_head_version = HEAD_VERSION, ph_journal_len = journal_len,
            ph_journal_head = map_option to_hex (Option.bind (chain_head_through H (en_journal_dir e) journal_len (en_journal e)) id),
            ph_journal_format = journal_format_kind (ej_format (en_journal e)), ph_checkpoint = ck,
            ph_version_digest = cf_version_digest cf,
            ph_ledger_leaf_hash = (if log_leaves log = [] then None else Some (to_text (List.last (log_leaves log)))),
            ph_witness_signature = None, ph_accepted_rollback = hs_accepted (en_head e)\<rparr> in
      and_then (map_err (\<lambda>_. LedgerRefused ''build the head witness'') (ec_witness (cf_codec cf) (head_stated head))) (\<lambda>payload.
      let env = envelope_sign key \<lparr>env_payload_type = HEAD_WITNESS_PAYLOAD_TYPE, env_payload = payload, env_signatures = []\<rparr> in
      Inr (head\<lparr>ph_witness_signature := (case env_signatures env of [] \<Rightarrow> None | s # _ \<Rightarrow> Some s)\<rparr>)))))"

definition record_head :: "'w engine_config \<Rightarrow> timestamp \<Rightarrow> key_pair \<Rightarrow> ('w engine, unit) action" where
  "record_head cf at key =
     (case cf_head_origin cf of
        None \<Rightarrow> ret ()
      | Some origin \<Rightarrow>
          then_do (get id) (\<lambda>e.
          let h = en_head e; log = ls_tree (en_ledger e); tree_size = log_len log in
          if hs_rolled_back h \<noteq> None \<or> hs_invalid h \<noteq> None then ret ()
          else if hs_floor h = None \<and> hs_resumed_rows h > 0 \<and> hs_accepted h = None then ret ()
          else if tree_size = 0 then ret ()
          else
            then_do (lift (map_err (\<lambda>_. EnginePanic) (log_root (ec_hash (cf_codec cf)) log))) (\<lambda>root.
            if (case hs_floor h of None \<Rightarrow> False | Some fl \<Rightarrow>
                  tree_size < hf_tree_size fl \<or> tree_size = hf_tree_size fl \<and> root = Some (hf_root_hash fl)) then ret ()
            else if (case hs_floor h of None \<Rightarrow> False | Some fl \<Rightarrow> tree_size = hf_tree_size fl) then fail (LedgerRefused ''record the head'')
            else
              then_do (lift (head_to_record cf e origin at key)) (\<lambda>head.
              then_do (write_head cf head) (\<lambda>_.
              then_do (lift (map_err (\<lambda>_. LedgerRefused ''record the head'') (head_floor_of head))) (\<lambda>fl.
              modify (\<lambda>e. e\<lparr>en_head := (en_head e)\<lparr>hs_floor := Some fl, hs_authenticity := HeadVerified\<rparr>\<rparr>)))))))"

definition accept_rollback :: "'w engine_config \<Rightarrow> bytes \<Rightarrow> timestamp \<Rightarrow> key_pair \<Rightarrow> ('w engine, unit) action" where
  "accept_rollback cf against at key =
     then_do (get (\<lambda>e. hs_pending (en_head e))) (\<lambda>pending.
     case pending of
       None \<Rightarrow> fail (LedgerRefused ''accept the rollback'')
     | Some acc \<Rightarrow>
         then_do (modify (\<lambda>e. e\<lparr>en_head := (en_head e)\<lparr>hs_accepted := Some (acc\<lparr>ar_against := against, ar_at := at\<rparr>),
                    hs_floor := None, hs_rolled_back := None\<rparr>\<rparr>)) (\<lambda>_.
         record_head cf at key))"

section \<open>Supersession\<close>

text \<open>Whether a parent is the one an undo takes back: its escrowed inverse is the delta just committed.\<close>

definition undone_by :: "'w engine \<Rightarrow> cid \<Rightarrow> subject \<Rightarrow> transformation_id \<Rightarrow> bool" where
  "undone_by e c subj parent =
     (case en_escrow e parent of
        None \<Rightarrow> False
      | Some row \<Rightarrow>
          er_inverse_cid row = Some c \<and> er_status row = Available
          \<and> (case en_table e parent of
               None \<Rightarrow> False
             | Some original \<Rightarrow>
                 e_state original = Committed \<and> t_subject (e_transformation original) = subj \<and> en_supersedes e parent = None))"

definition supersede_after_commit ::
  "'w engine_config \<Rightarrow> transformation_id \<Rightarrow> timestamp \<Rightarrow> ('w engine, transformation_id option) action" where
  "supersede_after_commit cf t_u at =
     then_do (get (\<lambda>e. case en_table e t_u of
         None \<Rightarrow> None
       | Some en \<Rightarrow> find (undone_by e (delta_cid (pd_reference (e_delta en))) (t_subject (e_transformation en)))
                     (t_parents (e_transformation en)))) (\<lambda>found.
     case found of
       None \<Rightarrow> ret None
     | Some t_o \<Rightarrow>
         then_do (engine_journal_append cf (SupersededRec t_o t_u at)) (\<lambda>_.
         then_do (modify (\<lambda>e. e\<lparr>en_supersedes := snd (supersede_record t_o t_u (en_supersedes e)),
             en_escrow := (en_escrow e)(t_o := map_option (\<lambda>row. row\<lparr>er_status := Consumed t_u\<rparr>) (en_escrow e t_o))\<rparr>)) (\<lambda>_.
         then_do (on_entry t_o (\<lambda>en. en\<lparr>e_superseded_by := Some t_u\<rparr>)) (\<lambda>_.
         then_do (set_state t_o Superseded at) (\<lambda>_.
         ret (Some t_o))))))"

section \<open>The commit\<close>

definition derive_provenance :: "'w engine_config \<Rightarrow> entry \<Rightarrow> object_snapshot \<Rightarrow> provenance" where
  "derive_provenance cf en pre =
     derive_from (e_transformation en) [obj_id pre]
       \<lparr>host_id = None, adapter_kind = pd_substrate (e_delta en), correlation_id = None, engine_version = cf_version cf,
        adapter_version = (case cf_adapters cf (pd_substrate (e_delta en)) of None \<Rightarrow> [] | Some (_, v) \<Rightarrow> v),
        confinement = Some (cf_confinement cf)\<rparr>"

definition commit_verdict :: "entry \<Rightarrow> engine_error + verdict_summary option" where
  "commit_verdict en =
     (case (e_verdict en, e_verdict_digest en) of
        (Some kind, Some d) \<Rightarrow> Inr (Some \<lparr>vs_kind = kind, vs_proof_digest = d\<rparr>)
      | (None, None) \<Rightarrow>
          if e_fail_posture_engaged en then Inr None
          else Inl (Unrepresentable ''a CommitReceipt with no verdict and no engaged fail-open posture'')
      | _ \<Rightarrow> Inl (Unrepresentable ''a CommitReceipt with no verdict and no engaged fail-open posture''))"

definition commit_payload ::
  "'w engine_config \<Rightarrow> 'w engine \<Rightarrow> transformation_id \<Rightarrow> entry \<Rightarrow> verdict_summary option \<Rightarrow> cid \<Rightarrow> cid option \<Rightarrow> read_set
    \<Rightarrow> reversibility \<Rightarrow> fingerprint \<Rightarrow> key_pair \<Rightarrow> receipt_payload" where
  "commit_payload cf e t en v canonical final_back rs rev_verdict post key =
     \<lparr>rp_key_id = kp_key_id key, rp_verdict = v, rp_enforced = e_enforced en, rp_confinement = Some (cf_confinement cf),
      rp_catalogue_hash = None, rp_read_set = Some rs, rp_reversibility = Some rev_verdict, rp_undo = journalled_undo e t,
      rp_determinism_boundary = attested_boundary (journalled_input_generation e t) (v \<noteq> None),
      rp_receipt_kind = CommitReceipt, rp_canonical_cid = canonical, rp_inverse_delta = final_back, rp_transformation = t,
      rp_inclusion_proof = None, rp_fingerprint_scope = fp_scope (e_fp0 en),
      rp_fail_posture_engaged = e_fail_posture_engaged en, rp_precondition_fingerprint = fp_digest (e_fp0 en),
      rp_postcondition_fingerprint = Some (fp_digest post), rp_payload_version = Some CURRENT_PAYLOAD_VERSION,
      rp_engine_version = Some (cf_version cf)\<rparr>"

definition append_entry :: "'w engine_config \<Rightarrow> transformation_id \<Rightarrow> cid \<Rightarrow> timestamp \<Rightarrow> ('w engine, append_outcome) action" where
  "append_entry cf t d at e =
     (case ledger_append (ec_hash (cf_codec cf)) (ec_leaf (cf_codec cf)) (ec_entry (cf_codec cf))
             (sys_ledger (cf_system cf) (en_tick e)) t d at (en_ledger_dir e) (en_ledger e) of
        (res, dir, store) \<Rightarrow>
          (map_err (\<lambda>_. LedgerRefused ''append'') res,
           e\<lparr>en_tick := Suc (en_tick e), en_ledger := store, en_ledger_dir := dir\<rparr>))"

definition append_leaf :: "'w engine_config \<Rightarrow> transformation_id \<Rightarrow> cid \<Rightarrow> timestamp \<Rightarrow> ('w engine, nat) action" where
  "append_leaf cf t d at = then_do (append_entry cf t d at) (\<lambda>out. ret (entry_index (outcome_entry out)))"

text \<open>From the receipt's digest to the signed receipt: the leaf, its inclusion proof, the signature.\<close>

definition receipt_into_ledger ::
  "'w engine_config \<Rightarrow> transformation_id \<Rightarrow> receipt_payload \<Rightarrow> timestamp \<Rightarrow> key_pair \<Rightarrow> ('w engine, nat \<times> receipt) action" where
  "receipt_into_ledger cf t payload at key =
     then_do (lift (map_err (\<lambda>_. WitnessRefused ''digest the receipt payload'')
         (ledger_digest (ec_hash (cf_codec cf)) (ec_payload (cf_codec cf)) payload))) (\<lambda>d.
     then_do (append_leaf cf t d at) (\<lambda>leaf.
     then_do (get (\<lambda>e. prove_inclusion (ec_hash (cf_codec cf)) (ls_tree (en_ledger e)) leaf)) (\<lambda>made.
     then_do (lift (map_err (\<lambda>_. LedgerRefused ''prove inclusion'') made)) (\<lambda>ipf.
     then_do (lift (map_err (\<lambda>_. WitnessRefused ''issue the receipt'')
         (receipt_issue (ec_payload (cf_codec cf)) (payload\<lparr>rp_inclusion_proof := Some ipf\<rparr>) at key))) (\<lambda>r.
     ret (leaf, r))))))"

definition finish_commit ::
  "'w engine_config \<Rightarrow> transformation_id \<Rightarrow> verdict_summary option \<Rightarrow> cid \<Rightarrow> invert_outcome \<Rightarrow> cid option \<Rightarrow> applied_delta
    \<Rightarrow> timestamp \<Rightarrow> key_pair \<Rightarrow> ('w engine, lifecycle) action" where
  "finish_commit cf t v canonical out final_back applied at key =
     then_do (entry_at t) (\<lambda>en.
     then_do (lift (map_err (\<lambda>_. WitnessRefused ''build the read-set'')
         (from_reads (ec_hash (cf_codec cf)) (ec_read (cf_codec cf)) (io_reads out)))) (\<lambda>rs.
     then_do (get (\<lambda>e. commit_payload cf e t en v canonical final_back rs (io_verdict out) (ap_postcondition applied) key)) (\<lambda>payload.
     then_do (receipt_into_ledger cf t payload at key) (\<lambda>(leaf, r).
     then_do (file_receipt cf t r) (\<lambda>_.
     then_do (engine_journal_append cf (CommittedRec t leaf at)) (\<lambda>_.
     then_do (modify (\<lambda>e. e\<lparr>en_committed := (en_committed e)(t \<mapsto> leaf)\<rparr>)) (\<lambda>_.
     then_do (record_head cf at key) (\<lambda>_.
     then_do (on_entry t (\<lambda>en. en\<lparr>e_applied_at := Some (ap_applied_at applied), e_receipt := Some r\<rparr>)) (\<lambda>_.
     then_do (set_state t Committed at) (\<lambda>state.
     then_do (supersede_after_commit cf t at) (\<lambda>_.
     ret state)))))))))))"

definition check_promise ::
  "'w engine_config \<Rightarrow> transformation_id \<Rightarrow> applied_delta \<Rightarrow> timestamp \<Rightarrow> ('w engine, lifecycle) action \<Rightarrow> ('w engine, lifecycle) action" where
  "check_promise cf t applied at go_on =
     then_do (entry_at t) (\<lambda>en.
     case t_target (e_transformation en) of
       None \<Rightarrow> go_on
     | Some promised \<Rightarrow>
         (let observed = ap_resulting_digest applied in
          then_do (modify (\<lambda>e. e\<lparr>en_prediction := (en_prediction e)(t \<mapsto>
              \<lparr>po_predicted = promised, po_observed = observed, po_observed_at = at\<rparr>)\<rparr>)) (\<lambda>_.
          if promised \<noteq> observed
          then then_do (not_attempted t PromisedPostStateWasWrong) (\<lambda>_.
               abort_entry cf t PostconditionMismatch (Some NotAttempted) at)
          else go_on)))"

definition apply_and_finish ::
  "'w engine_config \<Rightarrow> 'w adapter \<Rightarrow> transformation_id \<Rightarrow> entry \<Rightarrow> verdict_summary option \<Rightarrow> cid \<Rightarrow> invert_outcome
    \<Rightarrow> (cid \<times> planned_delta \<times> bool) option \<Rightarrow> timestamp \<Rightarrow> key_pair \<Rightarrow> ('w engine, lifecycle) action" where
  "apply_and_finish cf ad t en v canonical out held at key =
     then_do (start_apply cf t (delta_cid (pd_reference (e_delta en))) at) (\<lambda>_.
     then_do (apply_once cf ad (e_delta en)) (\<lambda>r.
     case r of
       Inl _ \<Rightarrow>
         then_do (compensate cf ad t (obj_locator (e_pre en)) (e_fp0 en) held at) (\<lambda>rb.
         abort_entry cf t abort_reason.ApplyFailed (Some rb) at)
     | Inr result \<Rightarrow>
         (let applied = new_applied_delta (ap_delta result) (ap_postcondition result) (ap_resulting_digest result) at in
          then_do (case held of
              Some (c, partial, True) \<Rightarrow>
                (case ap_observation result of
                   Some bs \<Rightarrow>
                     if length bs \<le> MAX_OBSERVATION_BYTES
                     then then_do (record_observation cf t bs at) (\<lambda>_. settle_pending_escrow cf t (Some partial) (Some bs) at)
                     else settle_pending_escrow cf t (Some partial) None at
                 | None \<Rightarrow> settle_pending_escrow cf t (Some partial) None at)
            | Some (c, _, False) \<Rightarrow> ret (Some c)
            | None \<Rightarrow> ret None) (\<lambda>final_back.
          check_promise cf t applied at (finish_commit cf t v canonical out final_back applied at key)))))"

definition guarded ::
  "'w engine_config \<Rightarrow> 'w adapter \<Rightarrow> transformation_id \<Rightarrow> entry \<Rightarrow> timestamp \<Rightarrow> ('w engine, lifecycle) action \<Rightarrow> ('w engine, lifecycle) action" where
  "guarded cf ad t en at go_on =
     then_do (observed_postcondition cf ad (obj_locator (e_pre en))) (\<lambda>fp1.
     case cas_eq (e_fp0 en) fp1 of
       Inr False \<Rightarrow> abort_entry cf t PreconditionChanged None at
     | Inl _ \<Rightarrow> abort_entry cf t InternalError None at
     | Inr True \<Rightarrow> go_on)"

definition body_readable :: "'w engine_config \<Rightarrow> 'w engine \<Rightarrow> (cid \<times> planned_delta \<times> bool) option \<Rightarrow> bool" where
  "body_readable cf e held =
     (case held of
        None \<Rightarrow> True
      | Some (c, _, _) \<Rightarrow> holds_body (ec_hash (cf_codec cf)) (ec_delta (cf_codec cf)) (ec_blob (cf_codec cf)) (en_blobs e) c)"

definition commit_canonicalized ::
  "'w engine_config \<Rightarrow> transformation_id \<Rightarrow> entry \<Rightarrow> cid \<Rightarrow> verdict_summary option \<Rightarrow> 'w adapter \<Rightarrow> timestamp \<Rightarrow> key_pair
    \<Rightarrow> ('w engine, lifecycle) action" where
  "commit_canonicalized cf t en canonical v ad at key =
     then_do (journal_append_direct cf (CommittingStartedRec t at)) (\<lambda>_.
     then_do (set_state t Committing at) (\<lambda>_.
     then_do (journal_append_direct cf (ProvenanceDerivedRec t (derive_provenance cf en (e_pre en)) at)) (\<lambda>_.
     then_do (on_entry t (\<lambda>x. x\<lparr>e_provenance := Some (derive_provenance cf en (e_pre en))\<rparr>)) (\<lambda>_.
     guarded cf ad t en at (
       then_do (ask cf ''invert'' (ad_invert ad (e_delta en) (e_pre en))) (\<lambda>out.
       then_do (escrow_inverse cf t (e_delta en) out at) (\<lambda>held.
       then_do (get (\<lambda>e. body_readable cf e held)) (\<lambda>readable.
       if \<not> readable then fail EngineMalformed
       else guarded cf ad t en at (apply_and_finish cf ad t en v canonical out held at key)))))))))"

definition commit :: "'w engine_config \<Rightarrow> transformation_id \<Rightarrow> timestamp \<Rightarrow> key_pair \<Rightarrow> ('w engine, lifecycle) action" where
  "commit cf t at key =
     then_do (expire_if_due cf t at) (\<lambda>_.
     then_do (entry_of t) (\<lambda>en.
     if e_state en = Committed then ret Committed
     else if e_state en = Committing then ret Committing
     else if e_state en \<noteq> Canonicalized then fail (invalid t (e_state en) ''commit'')
     else
       then_do (lift (ok_or (invalid t (e_state en) ''commit'') (e_canonical_cid en))) (\<lambda>canonical.
       then_do (lift (commit_verdict en)) (\<lambda>v.
       then_do (adapter_of cf (pd_substrate (e_delta en))) (\<lambda>ad.
       commit_canonicalized cf t en canonical v ad at key)))))"

section \<open>Opening\<close>

text \<open>
  What \<open>open_through\<close> builds from a journal and stores that have been opened: the drafts, the
  resolutions of intents, the shadow, the committed leaves and the tally come from the records; the
  table is empty; the tallies of the published checkpoints add up to what is published. The door is
  that of a writer.
\<close>

fun draft_of :: "journal_record \<Rightarrow> (intent_id \<Rightarrow> u64 option) \<Rightarrow> intent_id \<Rightarrow> u64 option" where
  "draft_of (DraftCreatedRec i seed _) m = m(i \<mapsto> seed)"
| "draft_of _ m = m"

fun resolution_of :: "journal_record \<Rightarrow> (intent_id \<Rightarrow> transformation_id list option) \<Rightarrow> intent_id \<Rightarrow> transformation_id list option" where
  "resolution_of (PlannedRec t i _ _ _ _ _ _ _) m =
     (let seen = (case m i of None \<Rightarrow> [] | Some ts \<Rightarrow> ts) in m(i \<mapsto> if t \<in> set seen then seen else seen @ [t]))"
| "resolution_of _ m = m"

definition engine_at_open ::
  "'w \<Rightarrow> nat \<Rightarrow> engine_journal \<Rightarrow> ledger_dir \<Rightarrow> file_dir \<Rightarrow> file_dir \<Rightarrow> ledger_store \<Rightarrow> ledger_dir \<Rightarrow> head_dir \<Rightarrow> head_state
    \<Rightarrow> verdict_store \<Rightarrow> ledger_dir \<Rightarrow> 'w engine" where
  "engine_at_open w n j jdir blobs obs ledger ldir hdir h vs vdir =
     (let records = ej_records j; shadow = fold shadow_fold records empty_shadow in
      \<lparr>en_world = w, en_tick = n, en_journal = j, en_journal_dir = jdir, en_blobs = blobs, en_observations = obs,
       en_ledger = ledger, en_ledger_dir = ldir, en_head_dir = hdir, en_head = h,
       en_verdicts = tally_from_the_journal records, en_drafted = fold draft_of records (\<lambda>_. None), en_table = (\<lambda>_. None),
       en_not_attempted = (\<lambda>_. None), en_prediction = (\<lambda>_. None), en_resolved = fold resolution_of records (\<lambda>_. None),
       en_by_subject = (\<lambda>_. None), en_escrow = (\<lambda>_. None), en_supersedes = (\<lambda>_. None), en_committed = sh_ledger shadow,
       en_shadow = shadow,
       en_departure = departure \<lparr>jt_not_from_a_newer_gx = True, jt_not_downgraded = \<not> ej_downgraded j, jt_chain_intact = (ej_break j = None),
         jt_not_shorter_than_read = True, jt_tail_unchanged = True, jt_prefix_intact = True, jt_no_unrepaired_torn_tail = True\<rparr>,
       en_partial = no_partial, en_verdict_log = vs, en_verdict_dir = vdir,
       en_published = fold (\<lambda>ck acc. tally_add acc (vc_tally ck)) (vs_checkpoints vs) tally_default\<rparr>)"

end
