(* ===== verification/Undo.thy ===== *)
theory Undo
  imports Commit
begin

text \<open>
  Undoing a commit, from \<open>src/crates/gx-engine/src/pipeline.rs\<close>: \<open>undo_intent\<close>, \<open>undo\<close> with its refusals,
  and \<open>rehydrate_committed\<close>, which seats a committed transformation again after a restart. An undo is a
  new transformation whose delta is the escrowed inverse and whose parent is the one it takes back; it
  goes through the gate and the commit like any other. The texts of refusals are shortened.
\<close>

section \<open>Witnesses and refusals\<close>

datatype witness_missing =
    MissingReceipt | MissingUnreadable | MissingStoreUnreadable | MissingUnsigned | MissingUnknownKey | MissingWrongSubject
  | MissingArchive

datatype unobservable =
    UnobservedNoReceipt | UnobservedNoPostcondition | UnobservedReceiptUnreadable | UnobservedLaunchAlreadyDecided
  | UnobservedNoArchive | UnobservedWorldUnreadable

fun unobservable_reason :: "unobservable \<Rightarrow> string" where
  "unobservable_reason UnobservedNoReceipt = ''no archived commit receipt for the original''"
| "unobservable_reason UnobservedNoPostcondition = ''the commit receipt carries no postcondition''"
| "unobservable_reason UnobservedReceiptUnreadable = ''the archived commit receipt would not decode''"
| "unobservable_reason UnobservedLaunchAlreadyDecided = ''the launch is already answered by another row''"
| "unobservable_reason UnobservedNoArchive = ''this deployment keeps no receipt archive''"
| "unobservable_reason UnobservedWorldUnreadable = ''the world could not be read when the undo probed it''"

text \<open>What the caller of an undo knows of the state the commit left: its signed fingerprint, or why not.\<close>

datatype undo_witness =
    WitnessAttested cid
  | WitnessIsMissing witness_missing
  | WitnessUnobservable unobservable

fun disposition :: "undo_witness \<Rightarrow> undo_disposition option" where
  "disposition (WitnessAttested _) = Some Attested"
| "disposition (WitnessUnobservable why) = Some (Unobservable (unobservable_reason why))"
| "disposition (WitnessIsMissing _) = None"

datatype undo_refusal =
    NotOurs
  | NoBody string
  | NotCommitted string
  | NoEscrow
  | InverseUnavailable
  | InversePending
  | AlreadyUndone
  | NoAdapter
  | UndoWorldMoved
  | AlreadyPlanned string
  | UndoWitnessMissing
  | WitnessDiffers

fun into_error :: "transformation_id \<Rightarrow> undo_refusal \<Rightarrow> engine_error" where
  "into_error t NotOurs = NotFound ''transformation''"
| "into_error t (NoBody state) = InvalidState t state ''undo without a body''"
| "into_error t (NotCommitted state) = InvalidState t state ''undo''"
| "into_error t NoEscrow = NotFound ''escrowed inverse''"
| "into_error t InverseUnavailable = NotFound ''escrowed inverse''"
| "into_error t InversePending = InvalidState t ''Committed'' ''undo a pending inverse''"
| "into_error t AlreadyUndone = InvalidState t ''Superseded'' ''undo a consumed inverse''"
| "into_error t NoAdapter = NotFound ''adapter''"
| "into_error t UndoWorldMoved = WorldMoved t"
| "into_error t (AlreadyPlanned state) = InvalidState t state ''undo again''"
| "into_error t UndoWitnessMissing = WitnessMissing t"
| "into_error t WitnessDiffers = InvalidState t ''Candidate'' ''undo with another witness''"

definition OBSERVATION_SUBSTRATE :: string where
  "OBSERVATION_SUBSTRATE = ''observation''"

definition is_observation_substrate :: "substrate_kind \<Rightarrow> bool" where
  "is_observation_substrate k \<longleftrightarrow> k = Custom OBSERVATION_SUBSTRATE"

text \<open>\<open>attested_postcondition\<close>: the witness the receipt in the table gives.\<close>

definition attested_postcondition :: "'w engine_config \<Rightarrow> 'w engine \<Rightarrow> transformation_id \<Rightarrow> undo_witness" where
  "attested_postcondition cf e t =
     (case Option.bind (en_table e t) e_receipt of
        None \<Rightarrow> WitnessIsMissing MissingReceipt
      | Some r \<Rightarrow>
          (case receipt_payload_of (ec_payload_from (cf_codec cf)) r of
             Inl _ \<Rightarrow> WitnessIsMissing MissingUnreadable
           | Inr p \<Rightarrow>
               (case rp_postcondition_fingerprint p of
                  Some d \<Rightarrow> WitnessAttested d
                | None \<Rightarrow> WitnessUnobservable UnobservedNoPostcondition)))"

section \<open>Undo\<close>

definition undo_intent :: "'w engine_config \<Rightarrow> transformation_id \<Rightarrow> ('w engine, intent option) action" where
  "undo_intent cf original =
     then_do (get (\<lambda>e. (en_table e original, Option.bind (en_escrow e original) er_inverse_cid))) (\<lambda>(found, held).
     case found of
       None \<Rightarrow> ret None
     | Some en \<Rightarrow>
         (case held of
            None \<Rightarrow> ret None
          | Some c \<Rightarrow>
              then_do (fetch_blob cf c) (\<lambda>back.
              ret (Some \<lparr>in_substrate = pd_substrate (e_delta en), in_locator = obj_locator (e_pre en), in_goal = pd_payload back,
                in_context = t_context (e_transformation en), in_actor = t_actor (e_transformation en)\<rparr>))))"

text \<open>The escrow row must hold an inverse that is neither spent nor unfinished.\<close>

definition undoable_row :: "transformation_id \<Rightarrow> escrow_row option \<Rightarrow> engine_error + cid" where
  "undoable_row original found =
     (case found of
        None \<Rightarrow> Inl (into_error original NoEscrow)
      | Some row \<Rightarrow>
          (case er_status row of
             Consumed _ \<Rightarrow> Inl (into_error original AlreadyUndone)
           | Pending \<Rightarrow> Inl (into_error original InversePending)
           | _ \<Rightarrow> ok_or (into_error original InverseUnavailable) (er_inverse_cid row)))"

definition observation_refusal :: "'w engine_config \<Rightarrow> transformation_id \<Rightarrow> bytes \<Rightarrow> engine_error" where
  "observation_refusal cf original payload =
     (case cbor_decode (ec_observation_from (cf_codec cf)) payload of
        Inr d \<Rightarrow> if od_class d = LogWindow then AppendOnlyClass original else InverseNotExecutableAtSubstrate original
      | Inl _ \<Rightarrow> InverseNotExecutableAtSubstrate original)"

definition check_witness :: "transformation_id \<Rightarrow> undo_witness \<Rightarrow> fingerprint \<Rightarrow> engine_error + unit" where
  "check_witness original witness fp0 =
     (case witness of
        WitnessAttested expected \<Rightarrow> if fp_digest fp0 \<noteq> expected then Inl (into_error original UndoWorldMoved) else Inr ()
      | WitnessIsMissing _ \<Rightarrow> Inl (into_error original UndoWitnessMissing)
      | WitnessUnobservable _ \<Rightarrow> Inr ())"

definition draft_intent :: "'w engine_config \<Rightarrow> intent_id \<Rightarrow> u64 \<Rightarrow> timestamp \<Rightarrow> ('w engine, unit) action" where
  "draft_intent cf iid seed at =
     then_do (get (\<lambda>e. en_drafted e iid)) (\<lambda>known.
     if known \<noteq> None then ret ()
     else
       then_do (engine_journal_append cf (DraftCreatedRec iid seed at)) (\<lambda>_.
       modify (\<lambda>e. e\<lparr>en_drafted := (en_drafted e)(iid \<mapsto> seed)\<rparr>)))"

text \<open>The state the undo already has, from the table or, when the intent is known to resolve to it, the journal.\<close>

definition undo_state :: "'w engine \<Rightarrow> intent_id \<Rightarrow> transformation_id \<Rightarrow> lifecycle option" where
  "undo_state e iid tid =
     (case en_table e tid of
        Some en \<Rightarrow> Some (e_state en)
      | None \<Rightarrow>
          if (case en_resolved e iid of None \<Rightarrow> False | Some ts \<Rightarrow> tid \<in> set ts)
          then Option.bind (sigma_state_of (reconstruct (en_records e)) tid) sr_state else None)"

definition witness_differs :: "'w engine \<Rightarrow> transformation_id \<Rightarrow> undo_witness \<Rightarrow> bool" where
  "witness_differs e tid witness =
     (case last_planned tid (en_records e) of
        Some (_, _, _, Some w, _) \<Rightarrow> disposition witness \<noteq> Some w
      | _ \<Rightarrow> False)"

definition plan_undo ::
  "'w engine_config \<Rightarrow> intent_id \<Rightarrow> plan_shape \<Rightarrow> cid \<Rightarrow> boundary_stage \<Rightarrow> undo_disposition option \<Rightarrow> timestamp
    \<Rightarrow> ('w engine, intent_id \<times> transformation_id) action" where
  "plan_undo cf iid s c inp witness at =
     then_do (engine_journal_append cf (PlannedRec (ps_id s) iid (obj_locator (ps_pre s)) c (record_of_fingerprint (ps_fp0 s))
         (t_parents (ps_transformation s)) inp witness at)) (\<lambda>_.
     then_do (remember_resolution iid (ps_id s)) (\<lambda>_.
     then_do (put_blob cf (ps_delta s)) (\<lambda>_.
     then_do (seat (ps_id s) (candidate_entry iid s at)) (\<lambda>_.
     ret (iid, ps_id s)))))"

definition undo_shape ::
  "'w engine_config \<Rightarrow> transformation_id \<Rightarrow> entry \<Rightarrow> intent_id \<Rightarrow> planned_delta \<Rightarrow> object_snapshot \<Rightarrow> fingerprint \<Rightarrow> timestamp
    \<Rightarrow> engine_error + plan_shape" where
  "undo_shape cf original en iid back pre fp0 at =
     and_then (map_err EngineCore (new_transformation zero_cid 0 (t_subject (e_transformation en)) None [original]
         \<lparr>m_intent_id = iid, m_delta = pd_reference back, m_context = t_context (e_transformation en),
          m_actor = t_actor (e_transformation en), m_created_at = at\<rparr>)) (\<lambda>t.
     and_then (map_err EngineCanon (cid_compute (ec_hash (cf_codec cf)) (ec_transformation (cf_codec cf))
         transformation_identity t)) (\<lambda>tid.
     Inr \<lparr>ps_id = tid, ps_transformation = t\<lparr>t_id := tid\<rparr>, ps_delta = back, ps_fp0 = fp0, ps_pre = pre\<rparr>))"

definition undo_go_on ::
  "'w engine_config \<Rightarrow> transformation_id \<Rightarrow> intent_id \<Rightarrow> plan_shape \<Rightarrow> cid \<Rightarrow> boundary_stage \<Rightarrow> undo_witness \<Rightarrow> timestamp
    \<Rightarrow> ('w engine, intent_id \<times> transformation_id) action" where
  "undo_go_on cf original iid s c inp witness at =
     then_do (get (\<lambda>e. (en_table e (ps_id s) \<noteq> None, undo_state e iid (ps_id s), witness_differs e (ps_id s) witness)))
       (\<lambda>(in_table, state, differs).
     case state of
       None \<Rightarrow> plan_undo cf iid s c inp (disposition witness) at
     | Some Candidate \<Rightarrow>
         if in_table
         then (if differs then fail (into_error original WitnessDiffers) else ret (iid, ps_id s))
         else plan_undo cf iid s c inp (disposition witness) at
     | Some (Aborted _) \<Rightarrow> plan_undo cf iid s c inp (disposition witness) at
     | Some st \<Rightarrow> fail (into_error (ps_id s) (AlreadyPlanned (lifecycle_name st))))"

definition undo_committed ::
  "'w engine_config \<Rightarrow> transformation_id \<Rightarrow> entry \<Rightarrow> undo_witness \<Rightarrow> u64 \<Rightarrow> timestamp
    \<Rightarrow> ('w engine, intent_id \<times> transformation_id) action" where
  "undo_committed cf original en witness seed at =
     then_do (get (\<lambda>e. en_escrow e original)) (\<lambda>found.
     then_do (lift (undoable_row original found)) (\<lambda>c.
     then_do (fetch_blob cf c) (\<lambda>back.
     then_do (lift (map_sum id fst (ok_or (into_error original NoAdapter) (cf_adapters cf (pd_substrate (e_delta en)))))) (\<lambda>ad.
     then_do (ask cf ''snapshot'' (ad_snapshot ad (obj_locator (e_pre en)))) (\<lambda>pre.
     then_do (ask cf ''precondition'' (ad_precondition ad pre)) (\<lambda>fp0.
     then_do (lift (check_witness original witness fp0)) (\<lambda>_.
     then_do (undo_intent cf original) (\<lambda>made.
     then_do (lift (ok_or (NotFound ''the escrowed inverse'') made)) (\<lambda>i.
     then_do (lift (map_err EngineCanon (cid_compute (ec_hash (cf_codec cf)) (ec_intent (cf_codec cf)) (\<lambda>i. i) i))) (\<lambda>iid.
     then_do (draft_intent cf iid seed at) (\<lambda>_.
     then_do (lift (undo_shape cf original en iid back pre fp0 at)) (\<lambda>s.
     undo_go_on cf original iid s c
       (joined_input_generation cf (pd_substrate (e_delta en)) (t_actor (e_transformation en))) witness at))))))))))))"

definition undo ::
  "'w engine_config \<Rightarrow> transformation_id \<Rightarrow> undo_witness \<Rightarrow> u64 \<Rightarrow> timestamp \<Rightarrow> ('w engine, intent_id \<times> transformation_id) action" where
  "undo cf original witness seed at =
     then_do (get (\<lambda>e. (en_table e original, Option.bind (sh_rows (en_shadow e) original) sr_state))) (\<lambda>(found, known).
     case found of
       None \<Rightarrow> fail (into_error original (case known of Some st \<Rightarrow> NoBody (lifecycle_name st) | None \<Rightarrow> NotOurs))
     | Some en \<Rightarrow>
         if e_state en \<noteq> Committed then fail (into_error original (NotCommitted (lifecycle_name (e_state en))))
         else if is_observation_substrate (pd_substrate (e_delta en))
         then fail (observation_refusal cf original (pd_payload (e_delta en)))
         else undo_committed cf original en witness seed at)"

section \<open>Seating a committed transformation again\<close>

text \<open>The object an undo chain started from: up the first parents to a plan without any.\<close>

fun subject_walk :: "nat \<Rightarrow> journal_record list \<Rightarrow> transformation_id \<Rightarrow> cid option" where
  "subject_walk 0 records t = None"
| "subject_walk (Suc k) records t =
     (case last_planned t records of
        Some (_, p # _, _) \<Rightarrow> subject_walk k records p
      | _ \<Rightarrow>
          Option.bind (Option.bind (sigma_state_of (reconstruct records) t) sr_provenance) (\<lambda>p.
          case prov_input_objects p of [] \<Rightarrow> None | obj # _ \<Rightarrow> Some obj))"

definition rebuilt_subject :: "'w engine \<Rightarrow> transformation_id \<Rightarrow> cid option" where
  "rebuilt_subject e t =
     subject_walk (Suc (length (sg_transformations (reconstruct (en_records e))))) (en_records e) t"

definition rehydrated_committed ::
  "intent_id \<Rightarrow> transformation \<Rightarrow> planned_delta \<Rightarrow> fingerprint \<Rightarrow> object_snapshot \<Rightarrow> provenance \<Rightarrow> state_row \<Rightarrow> entry" where
  "rehydrated_committed iid t delta fp0 pre prov row =
     \<lparr>e_intent_id = iid, e_transformation = t, e_state = (case sr_state row of Some st \<Rightarrow> st | None \<Rightarrow> Committed),
      e_since = t_created_at t, e_blocked_by = None, e_delta = delta, e_fp0 = fp0, e_pre = pre,
      e_verdict = sr_verdict row, e_verdict_digest = sr_verdict_digest row, e_enforced = sr_enforced row,
      e_fail_posture_engaged = sr_fail_posture_engaged row, e_canonical_cid = sr_canonical_cid row, e_ticket = None,
      e_admit_proof = None, e_deny_reasons = None, e_verdict_receipts = [], e_superseded_by = sr_superseded_by row,
      e_apply_started = sr_apply_started row, e_observation_cid = sr_observation_cid row, e_rollback = sr_rollback row,
      e_provenance = Some prov, e_inverse_cid = None, e_applied_at = None, e_receipt = None\<rparr>"

definition rehydrate_row ::
  "'w engine_config \<Rightarrow> transformation_id \<Rightarrow> intent \<Rightarrow> state_row \<Rightarrow> ('w engine, bool) action" where
  "rehydrate_row cf t i row =
     then_do (lift (ok_or (NotFound ''provenance'') (sr_provenance row))) (\<lambda>prov.
     then_do (lift (ok_or (NotFound ''intent id'') (sr_intent_id row))) (\<lambda>iid.
     then_do (lift (ok_or (NotFound ''planned delta reference'') (sr_delta_cid row))) (\<lambda>c.
     then_do (fetch_blob cf c) (\<lambda>delta.
     then_do (lift (and_then (ok_or (NotFound ''precondition fingerprint'') (sr_fp0 row)) (\<lambda>r. map_err EngineCore (into_fingerprint r)))) (\<lambda>fp0.
     then_do (get (\<lambda>e. last_planned t (en_records e))) (\<lambda>planned.
     then_do (lift (ok_or (NotFound ''the Planned record'') planned)) (\<lambda>(locator, parents, _, _, created_at).
     then_do (get (\<lambda>e. rebuilt_subject e t)) (\<lambda>subj.
     then_do (lift (ok_or (NotFound ''the subject snapshot'') subj)) (\<lambda>subj.
     then_do (adapter_of cf (pd_substrate delta)) (\<lambda>ad.
     then_do (ask cf ''snapshot'' (ad_snapshot ad locator)) (\<lambda>pre.
     then_do (if parents = [] then then_do (ask cf ''plan'' (ad_plan ad i pre)) (\<lambda>d. ret (pd_promised_target d)) else ret None) (\<lambda>target.
     then_do (lift (map_err EngineCore (new_transformation zero_cid 0 (Object subj) target parents
         \<lparr>m_intent_id = iid, m_delta = pd_reference delta, m_context = in_context i, m_actor = in_actor i,
          m_created_at = created_at\<rparr>))) (\<lambda>tr.
     then_do (lift (map_err EngineCanon (cid_compute (ec_hash (cf_codec cf)) (ec_transformation (cf_codec cf))
         transformation_identity tr))) (\<lambda>rebuilt.
     if rebuilt \<noteq> t then fail (InvalidState t ''Committed'' ''rehydrate'')
     else
       then_do (seat t (rehydrated_committed iid (tr\<lparr>t_id := t\<rparr>) delta fp0 pre prov row)) (\<lambda>_.
       then_do (modify (\<lambda>e. case find (\<lambda>r. er_transformation r = t) (sg_escrow (reconstruct (en_records e))) of
                  None \<Rightarrow> e | Some r \<Rightarrow> e\<lparr>en_escrow := (en_escrow e)(t \<mapsto> r)\<rparr>)) (\<lambda>_.
       then_do (modify (\<lambda>e. case sr_superseded_by row of
                  None \<Rightarrow> e | Some by \<Rightarrow> e\<lparr>en_supersedes := snd (supersede_record t by (en_supersedes e))\<rparr>)) (\<lambda>_.
       ret True)))))))))))))))))"

definition rehydrate_committed :: "'w engine_config \<Rightarrow> transformation_id \<Rightarrow> intent \<Rightarrow> ('w engine, bool) action" where
  "rehydrate_committed cf t i =
     then_do (get (\<lambda>e. (en_table e t \<noteq> None, sigma_state_of (reconstruct (en_records e)) t))) (\<lambda>(present, found).
     if present then ret True
     else case found of
         None \<Rightarrow> ret False
       | Some row \<Rightarrow>
           if sr_state row \<noteq> Some Committed \<and> sr_state row \<noteq> Some Superseded then ret False
           else rehydrate_row cf t i row)"

end
