(* ===== verification/Recovery.thy ===== *)
theory Recovery
  imports Commit
begin

text \<open>
  Recovery after a crash, from \<open>src/crates/gx-engine/src/pipeline.rs\<close>: \<open>recover\<close> with \<open>resume\<close>, which closes
  what a process left at \<open>Committing\<close>, and \<open>reissue_receipt\<close>, which signs the receipt of a committed
  transformation again. The receipt is rebuilt from the journal and checked against the digest the
  ledger holds. What the archive of receipts has filed is an argument, like the other answers of the
  system.
\<close>

section \<open>Errors that are looked at\<close>

definition try_do :: "('s, 'a) action \<Rightarrow> ('a \<Rightarrow> ('s, 'b) action) \<Rightarrow> (engine_error \<Rightarrow> ('s, 'b) action) \<Rightarrow> ('s, 'b) action" where
  "try_do m f g s = (case m s of (Inl e, s') \<Rightarrow> g e s' | (Inr a, s') \<Rightarrow> f a s')"

lemma wp_try [wp_simps]: "wp (try_do m f g) Q E s = wp m (\<lambda>a. wp (f a) Q E) (\<lambda>e. wp (g e) Q E) s"
  by (auto simp: wp_def try_do_def split: prod.splits sum.splits)

text \<open>\<open>.ok()\<close> of a fallible read.\<close>

definition if_ok :: "('s, 'a) action \<Rightarrow> ('s, 'a option) action" where
  "if_ok m = try_do m (\<lambda>a. ret (Some a)) (\<lambda>_. ret None)"

section \<open>What is rebuilt from the journal\<close>

fun escrow_reads :: "transformation_id \<Rightarrow> journal_record \<Rightarrow> (read_entry list \<times> bool) option" where
  "escrow_reads t (InverseEscrowedRec t' _ _ reads attested _ _) = (if t' = t then Some (reads, attested) else None)"
| "escrow_reads t _ = None"

fun first_escrow_reads :: "transformation_id \<Rightarrow> journal_record list \<Rightarrow> (read_entry list \<times> bool) option" where
  "first_escrow_reads t [] = None"
| "first_escrow_reads t (r # rs) = (case escrow_reads t r of Some x \<Rightarrow> Some x | None \<Rightarrow> first_escrow_reads t rs)"

text \<open>No journal record makes a row expired, and the code panics if it meets one.\<close>

fun rebuilt_reversibility :: "inverse_status \<Rightarrow> engine_error + reversibility" where
  "rebuilt_reversibility Unavailable = Inr ReversibleFalse"
| "rebuilt_reversibility Undetermined = Inr ReversibleUnknown"
| "rebuilt_reversibility InverseExpired = Inl EnginePanic"
| "rebuilt_reversibility Available = Inr ReversibleTrue"
| "rebuilt_reversibility (Consumed _) = Inr ReversibleTrue"
| "rebuilt_reversibility Pending = Inr ReversibleTrue"
| "rebuilt_reversibility BodyMissing = Inr ReversibleTrue"

definition rebuilt_attest ::
  "'w engine_config \<Rightarrow> 'w engine \<Rightarrow> transformation_id \<Rightarrow> inverse_status option \<Rightarrow> engine_error + read_set option \<times> reversibility option" where
  "rebuilt_attest cf e t status =
     and_then (case status of None \<Rightarrow> Inr None | Some st \<Rightarrow> map_sum id Some (rebuilt_reversibility st)) (\<lambda>v.
     and_then (case first_escrow_reads t (en_records e) of
         Some (reads, attested) \<Rightarrow>
           if attested \<or> reads \<noteq> []
           then map_err (\<lambda>_. WitnessRefused ''rebuild the read-set'') (from_reads (ec_hash (cf_codec cf)) (ec_read (cf_codec cf)) reads)
           else Inr ReadsNotJournalled
       | None \<Rightarrow> Inr NoEscrowRecord) (\<lambda>rs.
     Inr (Some rs, v)))"

text \<open>The verdict of a row, as \<open>commit_verdict\<close> reads it off an entry.\<close>

definition row_verdict :: "state_row \<Rightarrow> verdict_summary option option" where
  "row_verdict row =
     (case (sr_verdict row, sr_verdict_digest row) of
        (Some kind, Some d) \<Rightarrow> Some (Some \<lparr>vs_kind = kind, vs_proof_digest = d\<rparr>)
      | (None, None) \<Rightarrow> if sr_fail_posture_engaged row then Some None else None
      | _ \<Rightarrow> None)"

definition rebuilt_payload ::
  "'w engine \<Rightarrow> transformation_id \<Rightarrow> state_row \<Rightarrow> string \<Rightarrow> verdict_summary option \<Rightarrow> cid \<Rightarrow> fingerprint_record \<Rightarrow> cid option
    \<Rightarrow> read_set option \<Rightarrow> reversibility option \<Rightarrow> fingerprint \<Rightarrow> receipt_payload" where
  "rebuilt_payload e t row key_id v canonical fp0 back rs rv post =
     \<lparr>rp_key_id = key_id, rp_verdict = v, rp_enforced = sr_enforced row,
      rp_confinement = Option.bind (sr_provenance row) (\<lambda>p. confinement (prov_environment p)),
      rp_catalogue_hash = None, rp_read_set = rs, rp_reversibility = rv, rp_undo = journalled_undo e t,
      rp_determinism_boundary = attested_boundary (journalled_input_generation e t) (v \<noteq> None),
      rp_receipt_kind = CommitReceipt, rp_canonical_cid = canonical, rp_inverse_delta = back, rp_transformation = t,
      rp_inclusion_proof = None, rp_fingerprint_scope = fr_scope fp0,
      rp_fail_posture_engaged = sr_fail_posture_engaged row, rp_precondition_fingerprint = fr_digest fp0,
      rp_postcondition_fingerprint = Some (fp_digest post), rp_payload_version = Some CURRENT_PAYLOAD_VERSION,
      rp_engine_version = map_option (\<lambda>p. engine_version (prov_environment p)) (sr_provenance row)\<rparr>"

definition held_entry :: "'w engine \<Rightarrow> transformation_id \<Rightarrow> ledger_entry option" where
  "held_entry e t = find (\<lambda>x. entry_transformation x = t) (log_entries (ls_tree (en_ledger e)))"

section \<open>Closing a row\<close>

definition report :: "transformation_id \<Rightarrow> recovery_path \<Rightarrow> lifecycle \<Rightarrow> recovered" where
  "report t path st =
     \<lparr>rv_transformation = t, rv_path = path, rv_state = st, rv_ledger_seq = None, rv_appended = None, rv_payload_matched = None,
      rv_receipt = None, rv_refusal = None\<rparr>"

definition refuse_row :: "'w engine_config \<Rightarrow> transformation_id \<Rightarrow> timestamp \<Rightarrow> ('w engine, recovered) action" where
  "refuse_row cf t at =
     then_do (abort_entry cf t InternalError None at) (\<lambda>state. ret (report t NothingWasApplied state))"

text \<open>The record of the commit, the count of resumed rows, the head.\<close>

definition close_row :: "'w engine_config \<Rightarrow> transformation_id \<Rightarrow> nat \<Rightarrow> bool \<Rightarrow> timestamp \<Rightarrow> key_pair \<Rightarrow> ('w engine, unit) action" where
  "close_row cf t leaf rebuilt at key =
     then_do (engine_journal_append cf (CommittedRec t leaf at)) (\<lambda>_.
     then_do (modify (\<lambda>e. e\<lparr>en_committed := (en_committed e)(t \<mapsto> leaf),
         en_head := (en_head e)\<lparr>hs_resumed_rows := Suc (hs_resumed_rows (en_head e))\<rparr>,
         en_partial := (en_partial e)\<lparr>rpt_applied_unrecorded :=
             (if rebuilt then filter (\<lambda>x. x \<noteq> t) (rpt_applied_unrecorded (en_partial e)) else rpt_applied_unrecorded (en_partial e)),
           rpt_recorded_without_head := rpt_recorded_without_head (en_partial e) @ [t]\<rparr>\<rparr>)) (\<lambda>_.
     then_do (record_head cf at key) (\<lambda>_.
     modify (\<lambda>e. e\<lparr>en_partial := (en_partial e)\<lparr>rpt_recorded_without_head :=
       filter (\<lambda>x. x \<noteq> t) (rpt_recorded_without_head (en_partial e))\<rparr>\<rparr>))))"

text \<open>The two ways in which a leaf in the ledger is enough: the archive has the receipt, or the world cannot be read.\<close>

definition close_held ::
  "'w engine_config \<Rightarrow> transformation_id \<Rightarrow> ledger_entry \<Rightarrow> recovery_path \<Rightarrow> bool option \<Rightarrow> timestamp \<Rightarrow> key_pair \<Rightarrow> ('w engine, recovered) action" where
  "close_held cf t x path matched at key =
     then_do (close_row cf t (entry_index x) False at key) (\<lambda>_.
     then_do (set_state t Committed at) (\<lambda>state.
     ret ((report t path state)\<lparr>rv_ledger_seq := Some (entry_index x), rv_payload_matched := matched\<rparr>)))"

definition filed_receipt :: "'w engine_config \<Rightarrow> transformation_id \<Rightarrow> ('w engine, receipt option) action" where
  "filed_receipt cf t =
     (if cf_files_receipts cf then then_do tick (\<lambda>n. ret (sys_filed_receipt (cf_system cf) n t)) else ret None)"

definition filed_key_id :: "'w engine_config \<Rightarrow> transformation_id \<Rightarrow> ('w engine, string option) action" where
  "filed_key_id cf t =
     (if cf_files_receipts cf then then_do tick (\<lambda>n. ret (sys_filed_key_id (cf_system cf) n t)) else ret None)"

definition filed_agrees :: "'w engine_config \<Rightarrow> transformation_id \<Rightarrow> ledger_entry \<Rightarrow> receipt \<Rightarrow> bool" where
  "filed_agrees cf t x r \<longleftrightarrow>
     (case receipt_payload_of (ec_payload_from (cf_codec cf)) r of
        Inl _ \<Rightarrow> False
      | Inr p \<Rightarrow> rp_transformation p = t
          \<and> ledger_digest_of_signed_payload (ec_hash (cf_codec cf)) (env_payload (rc_envelope r)) = Inr (entry_receipt x))"

definition settle_for_resume ::
  "'w engine_config \<Rightarrow> transformation_id \<Rightarrow> state_row \<Rightarrow> escrow_row option \<Rightarrow> timestamp \<Rightarrow> ('w engine, cid option) action" where
  "settle_for_resume cf t row escrow at =
     (case escrow of
        None \<Rightarrow> ret None
      | Some er \<Rightarrow>
          if er_status er = Pending then
            then_do (case er_inverse_cid er of None \<Rightarrow> ret None | Some c \<Rightarrow> if_ok (fetch_blob cf c)) (\<lambda>partial.
            then_do (case sr_observation_cid row of None \<Rightarrow> ret None | Some c \<Rightarrow> if_ok (fetch_observation cf c)) (\<lambda>observed.
            settle_pending_escrow cf t partial observed at))
          else ret (er_inverse_cid er))"

section \<open>Resuming\<close>

text \<open>From the postcondition to the end: the receipt, its place in the ledger, the record.\<close>

definition resume_leaf ::
  "'w engine_config \<Rightarrow> transformation_id \<Rightarrow> ledger_entry option \<Rightarrow> string option \<Rightarrow> cid \<Rightarrow> timestamp \<Rightarrow> key_pair
    \<Rightarrow> ('w engine, recovered + nat \<times> string option \<times> bool option \<times> recovery_path) action" where
  "resume_leaf cf t held filed_key d at key =
     (case held of
        Some x \<Rightarrow>
          then_do (get (\<lambda>e. hs_key_id (en_head e))) (\<lambda>recorded.
          ret (if entry_receipt x = d then Inr (entry_index x, None, Some True, LedgerHeldTheCommit)
               else Inl ((report t NotResumed Committing)\<lparr>rv_ledger_seq := Some (entry_index x), rv_payload_matched := Some False,
                 rv_refusal := Some (if filed_key = None \<and> (case recorded of None \<Rightarrow> False | Some k \<Rightarrow> k \<noteq> kp_key_id key)
                   then RecoveryKeyMismatch else RecoveryRebuildDisagrees)\<rparr>)))
      | None \<Rightarrow>
          then_do (append_entry cf t d at) (\<lambda>out.
          ret (Inr (entry_index (outcome_entry out),
            Some (case out of append_outcome.Appended _ \<Rightarrow> ''Appended'' | append_outcome.AlreadyPresent _ \<Rightarrow> ''AlreadyPresent''), None, ApplyWasAnnounced))))"

definition resume_receipt ::
  "'w engine_config \<Rightarrow> transformation_id \<Rightarrow> string option \<Rightarrow> receipt_payload \<Rightarrow> timestamp \<Rightarrow> key_pair \<Rightarrow> ('w engine, receipt option) action" where
  "resume_receipt cf t filed_key payload at key =
     (case filed_key of
        Some _ \<Rightarrow> ret None
      | None \<Rightarrow>
          then_do (lift (map_err (\<lambda>_. WitnessRefused ''re-issue the receipt'')
              (receipt_issue (ec_payload (cf_codec cf)) payload at key))) (\<lambda>r.
          then_do (file_receipt cf t r) (\<lambda>_.
          ret (Some r))))"

definition resume_finish ::
  "'w engine_config \<Rightarrow> transformation_id \<Rightarrow> state_row \<Rightarrow> escrow_row option \<Rightarrow> ledger_entry option \<Rightarrow> string option
    \<Rightarrow> verdict_summary option \<Rightarrow> cid \<Rightarrow> fingerprint_record \<Rightarrow> cid option \<Rightarrow> fingerprint \<Rightarrow> timestamp \<Rightarrow> key_pair \<Rightarrow> ('w engine, recovered) action" where
  "resume_finish cf t row escrow held filed_key v canonical fp0 back post at key =
     then_do (get (\<lambda>e. rebuilt_attest cf e t (map_option er_status escrow))) (\<lambda>attest.
     then_do (lift attest) (\<lambda>(rs, rv).
     then_do (get (\<lambda>e. rebuilt_payload e t row (case filed_key of Some k \<Rightarrow> k | None \<Rightarrow> kp_key_id key) v canonical fp0 back rs rv post))
       (\<lambda>payload.
     then_do (lift (map_err (\<lambda>_. WitnessRefused ''digest the rebuilt receipt payload'')
         (ledger_digest (ec_hash (cf_codec cf)) (ec_payload (cf_codec cf)) payload))) (\<lambda>d.
     then_do (resume_leaf cf t held filed_key d at key) (\<lambda>placed.
     case placed of
       Inl refused \<Rightarrow> ret refused
     | Inr (leaf, how, matched, path) \<Rightarrow>
         then_do (get (\<lambda>e. prove_inclusion (ec_hash (cf_codec cf)) (ls_tree (en_ledger e)) leaf)) (\<lambda>made.
         then_do (lift (map_err (\<lambda>_. LedgerRefused ''prove inclusion'') made)) (\<lambda>ipf.
         then_do (resume_receipt cf t filed_key (payload\<lparr>rp_inclusion_proof := Some ipf\<rparr>) at key) (\<lambda>r.
         then_do (close_row cf t leaf True at key) (\<lambda>_.
         ret ((report t path Committed)\<lparr>rv_ledger_seq := Some leaf, rv_appended := how, rv_payload_matched := matched,
           rv_receipt := r\<rparr>)))))))))) "

text \<open>The postcondition: read off the world when the ledger holds the commit, else the delta is applied again.\<close>

definition reapply ::
  "'w engine_config \<Rightarrow> 'w adapter \<Rightarrow> transformation_id \<Rightarrow> planned_delta \<Rightarrow> cid \<Rightarrow> timestamp
    \<Rightarrow> (fingerprint \<Rightarrow> ('w engine, recovered) action) \<Rightarrow> ('w engine, recovered) action" where
  "reapply cf ad t delta c at go_on =
     then_do (engine_journal_append cf (ApplyStartedRec t c at)) (\<lambda>_.
     then_do (apply_once cf ad delta) (\<lambda>r.
     case r of
       Inr applied \<Rightarrow>
         then_do (modify (\<lambda>e. e\<lparr>en_partial := (en_partial e)\<lparr>rpt_applied_unrecorded :=
             rpt_applied_unrecorded (en_partial e) @ [t]\<rparr>\<rparr>)) (\<lambda>_.
         go_on (ap_postcondition applied))
     | Inl _ \<Rightarrow>
         then_do (not_attempted t RecoveredWithoutRebuilding) (\<lambda>rb.
         then_do (abort_entry cf t abort_reason.ApplyFailed (Some rb) at) (\<lambda>state.
         ret (report t ApplyWasAnnounced state)))))"

definition resume_world ::
  "'w engine_config \<Rightarrow> 'w adapter \<Rightarrow> transformation_id \<Rightarrow> ledger_entry option \<Rightarrow> planned_delta \<Rightarrow> cid \<Rightarrow> timestamp \<Rightarrow> key_pair
    \<Rightarrow> (fingerprint \<Rightarrow> ('w engine, recovered) action) \<Rightarrow> ('w engine, recovered) action" where
  "resume_world cf ad t held delta c at key go_on =
     (case held of
        Some x \<Rightarrow>
          then_do (get (\<lambda>e. last_planned t (en_records e))) (\<lambda>planned.
          case planned of
            None \<Rightarrow> refuse_row cf t at
          | Some (locator, _, _, _, _) \<Rightarrow>
              try_do (observed_postcondition cf ad locator) go_on (\<lambda>_. close_held cf t x ClosedFromLedgerLeaf None at key))
      | None \<Rightarrow> reapply cf ad t delta c at go_on)"

definition resume_rebuild ::
  "'w engine_config \<Rightarrow> transformation_id \<Rightarrow> state_row \<Rightarrow> escrow_row option \<Rightarrow> ledger_entry option \<Rightarrow> timestamp \<Rightarrow> key_pair
    \<Rightarrow> ('w engine, recovered) action" where
  "resume_rebuild cf t row escrow held at key =
     (case (sr_delta_cid row, sr_canonical_cid row, sr_fp0 row) of
        (Some c, Some canonical, Some fp0) \<Rightarrow>
          then_do (lift (ok_or (Unrepresentable ''a CommitReceipt rebuilt with no verdict and no engaged fail-open posture'')
              (row_verdict row))) (\<lambda>v.
          then_do (fetch_blob cf c) (\<lambda>delta.
          then_do (adapter_of cf (pd_substrate delta)) (\<lambda>ad.
          then_do (settle_for_resume cf t row escrow at) (\<lambda>back.
          then_do (filed_key_id cf t) (\<lambda>filed_key.
          resume_world cf ad t held delta c at key (\<lambda>post.
            resume_finish cf t row escrow held filed_key v canonical fp0 back post at key))))))
      | _ \<Rightarrow> refuse_row cf t at)"

definition resume ::
  "'w engine_config \<Rightarrow> state_row \<Rightarrow> escrow_row option \<Rightarrow> timestamp \<Rightarrow> key_pair \<Rightarrow> ('w engine, recovered) action" where
  "resume cf row escrow at key =
     (let t = sr_transformation row in
      then_do (get (\<lambda>e. (held_entry e t, log_len (ls_tree (en_ledger e))))) (\<lambda>(held, size).
      case held of
        None \<Rightarrow> if sr_apply_started row = None then refuse_row cf t at else resume_rebuild cf t row escrow None at key
      | Some x \<Rightarrow>
          if entry_index x + 1 < size
          then ret ((report t NotResumed (case sr_state row of Some st \<Rightarrow> st | None \<Rightarrow> Committing))
                 \<lparr>rv_ledger_seq := Some (entry_index x), rv_refusal := Some LedgerMovedOn\<rparr>)
          else
            then_do (filed_receipt cf t) (\<lambda>found.
            if (case found of None \<Rightarrow> False | Some r \<Rightarrow> filed_agrees cf t x r)
            then close_held cf t x ClosedFromFiledReceipt (Some True) at key
            else resume_rebuild cf t row escrow (Some x) at key)))"

section \<open>Recovering\<close>

fun journal_departed :: "journal_departure \<Rightarrow> not_resumed" where
  "journal_departed FromANewerGx = JournalFromANewerGx"
| "journal_departed Downgraded = JournalDowngraded"
| "journal_departed Shortened = JournalShorter"
| "journal_departed TornTail = JournalTornTail"
| "journal_departed ChainBroken = JournalMoved"
| "journal_departed TailRewritten = JournalMoved"
| "journal_departed PrefixRewritten = JournalMoved"

text \<open>Why a recovery touches nothing: the journal, the ledger or the head are not what was published.\<close>

definition standing_refusal :: "'w engine \<Rightarrow> not_resumed option" where
  "standing_refusal e =
     (case en_departure e of
        Some d \<Rightarrow> Some (journal_departed d)
      | None \<Rightarrow>
          if hs_rolled_back (en_head e) \<noteq> None
          then Some (if hs_declaration_changed (en_head e) then DeclarationChanged else HeadRolledBack)
          else if hs_invalid (en_head e) \<noteq> None then Some HeadInvalid else None)"

definition not_resumed_row :: "not_resumed \<Rightarrow> state_row \<Rightarrow> recovered" where
  "not_resumed_row why row =
     (report (sr_transformation row) NotResumed (case sr_state row of Some st \<Rightarrow> st | None \<Rightarrow> Committing))\<lparr>rv_refusal := Some why\<rparr>"

fun recover_rows ::
  "'w engine_config \<Rightarrow> sigma_shadow \<Rightarrow> timestamp \<Rightarrow> key_pair \<Rightarrow> recovered list \<Rightarrow> state_row list \<Rightarrow> ('w engine, recovered list) action" where
  "recover_rows cf sh at key out [] = ret out"
| "recover_rows cf sh at key out (row # rows) =
     (if sr_state row = Some Committed then
        (let t = sr_transformation row; seq = sh_ledger sh t in
         then_do (modify (\<lambda>e. case seq of None \<Rightarrow> e | Some n \<Rightarrow> e\<lparr>en_committed := (en_committed e)(t \<mapsto> n)\<rparr>)) (\<lambda>_.
         recover_rows cf sh at key (out @ [(report t Terminal Committed)\<lparr>rv_ledger_seq := seq\<rparr>]) rows))
      else if sr_state row = Some Committing then
        try_do (resume cf row (sh_escrow sh (sr_transformation row)) at key)
          (\<lambda>r. recover_rows cf sh at key (out @ [r]) rows)
          (\<lambda>why. then_do (modify (\<lambda>e. e\<lparr>en_partial := (en_partial e)\<lparr>rpt_finished := out\<rparr>\<rparr>)) (\<lambda>_. fail why))
      else recover_rows cf sh at key out rows)"

definition recover :: "'w engine_config \<Rightarrow> timestamp \<Rightarrow> key_pair \<Rightarrow> ('w engine, recovered list) action" where
  "recover cf at key =
     then_do (modify (\<lambda>e. e\<lparr>en_partial := no_partial\<rparr>)) (\<lambda>_.
     then_do (get (\<lambda>e. (standing_refusal e, reconstruct_shadow (en_records e)))) (\<lambda>(refusal, sh).
     let rows = sg_transformations (shadow_sigma sh) in
     case refusal of
       Some why \<Rightarrow> ret (map (not_resumed_row why) (filter (\<lambda>row. sr_state row = Some Committed \<or> sr_state row = Some Committing) rows))
     | None \<Rightarrow> recover_rows cf sh at key [] rows))"

section \<open>Signing the receipt of a commit again\<close>

datatype reissued = ReissueFiled receipt | ReissueWorldMoved | ReissueNotCommitted | ReissueNoLeaf | ReissueNoMaterial | ReissueKeyMismatch

definition reissue_payload ::
  "'w engine_config \<Rightarrow> transformation_id \<Rightarrow> state_row \<Rightarrow> verdict_summary option \<Rightarrow> cid \<Rightarrow> fingerprint_record \<Rightarrow> fingerprint \<Rightarrow> key_pair
    \<Rightarrow> ('w engine, receipt_payload) action" where
  "reissue_payload cf t row v canonical fp0 observed key =
     then_do (get (\<lambda>e. find (\<lambda>r. er_transformation r = t) (sg_escrow (reconstruct (en_records e))))) (\<lambda>escrow.
     then_do (get (\<lambda>e. rebuilt_attest cf e t (map_option er_status escrow))) (\<lambda>attest.
     then_do (lift attest) (\<lambda>(rs, rv).
     get (\<lambda>e. rebuilt_payload e t row (kp_key_id key) v canonical fp0 (Option.bind escrow er_inverse_cid) rs rv observed))))"

definition reissue_row ::
  "'w engine_config \<Rightarrow> transformation_id \<Rightarrow> state_row \<Rightarrow> ledger_entry \<Rightarrow> timestamp \<Rightarrow> key_pair \<Rightarrow> ('w engine, reissued) action" where
  "reissue_row cf t row x at key =
     then_do (get (\<lambda>e. last_planned t (en_records e))) (\<lambda>planned.
     case (sr_canonical_cid row, sr_fp0 row, sr_delta_cid row, planned, row_verdict row) of
       (Some canonical, Some fp0, Some c, Some (locator, _, _, _, _), Some v) \<Rightarrow>
         then_do (fetch_blob cf c) (\<lambda>delta.
         then_do (adapter_of cf (pd_substrate delta)) (\<lambda>ad.
         then_do (ask cf ''snapshot'' (ad_snapshot ad locator)) (\<lambda>snap.
         then_do (ask cf ''precondition'' (ad_precondition ad snap)) (\<lambda>observed.
         then_do (reissue_payload cf t row v canonical fp0 observed key) (\<lambda>payload.
         then_do (lift (map_err (\<lambda>_. WitnessRefused ''digest the re-issued receipt payload'')
             (ledger_digest (ec_hash (cf_codec cf)) (ec_payload (cf_codec cf)) payload))) (\<lambda>d.
         then_do (get (\<lambda>e. hs_key_id (en_head e))) (\<lambda>recorded.
         if d \<noteq> entry_receipt x
         then ret (if (case recorded of None \<Rightarrow> False | Some k \<Rightarrow> k \<noteq> kp_key_id key) then ReissueKeyMismatch else ReissueWorldMoved)
         else
           then_do (get (\<lambda>e. prove_inclusion (ec_hash (cf_codec cf)) (ls_tree (en_ledger e)) (entry_index x))) (\<lambda>made.
           then_do (lift (map_err (\<lambda>_. LedgerRefused ''prove inclusion'') made)) (\<lambda>ipf.
           then_do (lift (map_err (\<lambda>_. WitnessRefused ''re-issue the receipt of a terminal commit'')
               (receipt_issue (ec_payload (cf_codec cf)) (payload\<lparr>rp_inclusion_proof := Some ipf\<rparr>) at key))) (\<lambda>r.
           then_do (file_receipt cf t r) (\<lambda>_.
           then_do (on_entry t (\<lambda>en. en\<lparr>e_receipt := Some r\<rparr>)) (\<lambda>_.
           ret (ReissueFiled r)))))))))))))
     | _ \<Rightarrow> ret ReissueNoMaterial)"

definition reissue_receipt ::
  "'w engine_config \<Rightarrow> transformation_id \<Rightarrow> timestamp \<Rightarrow> key_pair \<Rightarrow> ('w engine, reissued) action" where
  "reissue_receipt cf t at key =
     then_do (get (\<lambda>e. (sigma_state_of (reconstruct (en_records e)) t, held_entry e t))) (\<lambda>(found, held).
     case found of
       None \<Rightarrow> ret ReissueNotCommitted
     | Some row \<Rightarrow>
         if sr_state row \<noteq> Some Committed \<and> sr_state row \<noteq> Some Superseded then ret ReissueNotCommitted
         else case held of
             None \<Rightarrow> ret ReissueNoLeaf
           | Some x \<Rightarrow> reissue_row cf t row x at key)"

end
