(* ===== verification/Engine_Agreement.thy ===== *)
theory Engine_Agreement
  imports Undo Recovery
begin

text \<open>
  The table of the engine, the journal, and the shadow the engine keeps of the journal. What they must
  agree on (\<open>agree\<close>), and that each kind of record, written together with the change of the entry
  that belongs to it, keeps them in agreement. The conditions \<open>wp\<close> of the steps of the engine come
  first.
\<close>

section \<open>Steps of the engine as conditions\<close>

lemma journal_append_records:
  "journal_append H tj outcome r dir j = (res, dir', j') \<Longrightarrow>
     (case res of Inl _ \<Rightarrow> j' = j | Inr _ \<Rightarrow> ej_records j' = ej_records j @ [r])"
  by (auto simp: journal_append_def split: if_splits sum.splits prod.splits)

lemma wp_direct:
  assumes "\<And>seq n j dir. ej_records j = en_records e @ [r] \<Longrightarrow> Q seq (e\<lparr>en_tick := n, en_journal := j, en_journal_dir := dir\<rparr>)"
    and "\<And>err n dir. E err (e\<lparr>en_tick := n, en_journal_dir := dir\<rparr>)"
  shows "wp (journal_append_direct cf r) Q E e"
proof -
  obtain res dir j where a: "journal_append (ec_hash (cf_codec cf)) (ec_journal (cf_codec cf))
      (sys_journal (cf_system cf) (en_tick e)) r (en_journal_dir e) (en_journal e) = (res, dir, j)"
    by (metis prod_cases3)
  show ?thesis
  proof (cases res)
    case (Inl err)
    have "e\<lparr>en_tick := n, en_journal := en_journal e, en_journal_dir := dir\<rparr> = e\<lparr>en_tick := n, en_journal_dir := dir\<rparr>" for n
      by simp
    with journal_append_records [OF a] Inl a assms(2) show ?thesis by (simp add: wp_def journal_append_direct_def)
  next
    case (Inr seq)
    with journal_append_records [OF a] a assms(1) show ?thesis by (simp add: wp_def journal_append_direct_def)
  qed
qed

lemma wp_append:
  assumes "\<And>seq n j dir. ej_records j = en_records e @ [r] \<Longrightarrow>
       Q seq (e\<lparr>en_tick := n, en_journal := j, en_journal_dir := dir, en_shadow := shadow_fold r (en_shadow e)\<rparr>)"
    and "\<And>err n dir. E err (e\<lparr>en_tick := n, en_journal_dir := dir\<rparr>)"
  shows "wp (engine_journal_append cf r) Q E e"
  unfolding engine_journal_append_def wp_simps
  by (rule wp_direct) (use assms in auto)

lemma append_leaf_run:
  "append_leaf cf t d at e =
     (case ledger_append (ec_hash (cf_codec cf)) (ec_leaf (cf_codec cf)) (ec_entry (cf_codec cf))
             (sys_ledger (cf_system cf) (en_tick e)) t d at (en_ledger_dir e) (en_ledger e) of
        (res, dir, store) \<Rightarrow>
          (map_sum (\<lambda>_. LedgerRefused ''append'') (\<lambda>out. entry_index (outcome_entry out)) res,
           e\<lparr>en_tick := Suc (en_tick e), en_ledger := store, en_ledger_dir := dir\<rparr>))"
  by (auto simp: append_leaf_def append_entry_def then_do_def ret_def map_err_def split: prod.splits sum.splits)

text \<open>An operation that only looks: it moves the clock and finds the world as it is.\<close>

definition quiet :: "('w engine, 'a) action \<Rightarrow> bool" where
  "quiet m \<longleftrightarrow> (\<forall>e. \<exists>n w. snd (m e) = e\<lparr>en_tick := n, en_world := w\<rparr>)"

lemma wp_quiet:
  assumes "quiet m" "\<And>a n w. Q a (e\<lparr>en_tick := n, en_world := w\<rparr>)" "\<And>err n w. E err (e\<lparr>en_tick := n, en_world := w\<rparr>)"
  shows "wp m Q E e"
proof -
  obtain n w where "snd (m e) = e\<lparr>en_tick := n, en_world := w\<rparr>" using assms(1) unfolding quiet_def by blast
  with assms(2,3) show ?thesis unfolding wp_def by (auto split: prod.splits sum.splits)
qed

named_theorems quiet_intros

lemma quiet_pure: "(\<And>e. snd (m e) = e) \<Longrightarrow> quiet m"
  unfolding quiet_def
proof
  fix e assume "\<And>e. snd (m e) = e"
  then have "snd (m e) = e\<lparr>en_tick := en_tick e, en_world := en_world e\<rparr>" by simp
  then show "\<exists>n w. snd (m e) = e\<lparr>en_tick := n, en_world := w\<rparr>" by blast
qed

lemma quiet_basic [quiet_intros]:
  "quiet (ret a)" "quiet (fail x)" "quiet (lift r)" "quiet (get f)" "quiet (adapter_of cf k)" "quiet (entry_of t)" "quiet (entry_at t)"
  by (rule quiet_pure, simp add: ret_def fail_def lift_def get_def adapter_of_def entry_of_def entry_at_def)+

lemma quiet_then [quiet_intros]: "quiet m \<Longrightarrow> (\<And>a. quiet (f a)) \<Longrightarrow> quiet (then_do m f)"
  unfolding quiet_def
proof
  fix e assume m: "\<forall>e. \<exists>n w. snd (m e) = e\<lparr>en_tick := n, en_world := w\<rparr>"
    and f: "\<And>a. \<forall>e. \<exists>n w. snd (f a e) = e\<lparr>en_tick := n, en_world := w\<rparr>"
  show "\<exists>n w. snd (then_do m f e) = e\<lparr>en_tick := n, en_world := w\<rparr>"
  proof (cases "m e")
    case (Pair r e')
    with m obtain n w where e': "e' = e\<lparr>en_tick := n, en_world := w\<rparr>" by (metis snd_conv)
    show ?thesis
    proof (cases r)
      case (Inl x)
      with Pair e' show ?thesis by (auto simp: then_do_def)
    next
      case (Inr a)
      obtain n' w' where "snd (f a e') = e'\<lparr>en_tick := n', en_world := w'\<rparr>" using f by blast
      with Inr Pair e' show ?thesis by (auto simp: then_do_def)
    qed
  qed
qed

lemma quiet_if [quiet_intros]: "(b \<Longrightarrow> quiet m) \<Longrightarrow> (\<not> b \<Longrightarrow> quiet m') \<Longrightarrow> quiet (if b then m else m')"
  by simp

lemma quiet_option [quiet_intros]: "quiet m \<Longrightarrow> (\<And>a. quiet (f a)) \<Longrightarrow> quiet (case x of None \<Rightarrow> m | Some a \<Rightarrow> f a)"
  by (cases x) simp_all

lemma quiet_sum [quiet_intros]: "(\<And>x. quiet (g x)) \<Longrightarrow> (\<And>a. quiet (f a)) \<Longrightarrow> quiet (case x of Inl x \<Rightarrow> g x | Inr a \<Rightarrow> f a)"
  by (cases x) simp_all

lemma quiet_look [quiet_intros]: "quiet (look cf f)"
  unfolding quiet_def look_def Let_def
proof
  fix e :: "'a engine"
  have "e\<lparr>en_world := w, en_tick := n\<rparr> = e\<lparr>en_tick := n, en_world := w\<rparr>" for n w by simp
  then show "\<exists>n w. snd (Inr (f (cf_drift cf (en_tick e) (en_world e))),
      e\<lparr>en_world := cf_drift cf (en_tick e) (en_world e), en_tick := Suc (en_tick e)\<rparr>) = e\<lparr>en_tick := n, en_world := w\<rparr>"
    by (metis snd_conv)
qed

lemma quiet_ask [quiet_intros]: "quiet (ask cf act f)"
  unfolding ask_def by (intro quiet_intros)

lemma quiet_first_conflict [quiet_intros]: "quiet (first_conflict cf ad mode t d xs)"
  by (induction cf ad mode t d xs rule: first_conflict.induct) (auto intro!: quiet_intros split: commutation.split)

lemma quiet_conflicting [quiet_intros]: "quiet (conflicting_predecessor cf t mode)"
  unfolding conflicting_predecessor_def by (intro quiet_intros)

lemma quiet_plan_shape [quiet_intros]: "quiet (plan_shape_of cf i at)"
  unfolding plan_shape_of_def by (intro quiet_intros)

lemma quiet_apply [quiet_intros]: "quiet (apply_once cf ad d)"
  unfolding quiet_def apply_once_def
proof
  fix e :: "'a engine"
  obtain r w where a: "ad_apply ad d (cf_drift cf (en_tick e) (en_world e)) = (r, w)" by (cases "ad_apply ad d (cf_drift cf (en_tick e) (en_world e))")
  have "e\<lparr>en_world := w, en_tick := Suc (en_tick e)\<rparr> = e\<lparr>en_tick := Suc (en_tick e), en_world := w\<rparr>" by simp
  then show "\<exists>n w. snd (case ad_apply ad d (cf_drift cf (en_tick e) (en_world e)) of
      (r, w) \<Rightarrow> (Inr r, e\<lparr>en_world := w, en_tick := Suc (en_tick e)\<rparr>)) = e\<lparr>en_tick := n, en_world := w\<rparr>"
    unfolding a prod.case snd_conv by blast
qed

lemma quiet_read_world [quiet_intros]: "quiet (read_world cf ad locator)"
  unfolding read_world_def by (intro quiet_intros)

lemma quiet_reads [quiet_intros]:
  "quiet (world_the_failed_apply_left cf ad locator fp0)" "quiet (world_is_still_at cf ad locator fp0)"
  "quiet (rollback_landed cf ad locator fp0)" "quiet (observed_postcondition cf ad locator)"
  unfolding world_the_failed_apply_left_def world_is_still_at_def rollback_landed_def observed_postcondition_def
  by (intro quiet_intros)+

section \<open>What a record does to one row\<close>

definition row_arm :: "transformation_id \<Rightarrow> journal_record \<Rightarrow> state_row \<Rightarrow> state_row" where
  "row_arm t r row = the (sh_rows (fold_arm r (empty_shadow\<lparr>sh_rows := [t \<mapsto> row]\<rparr>)) t)"

definition row_or_new :: "transformation_id \<Rightarrow> state_row option \<Rightarrow> state_row" where
  "row_or_new t found = (case found of None \<Rightarrow> row_about t | Some row \<Rightarrow> row)"

lemma fold_row:
  assumes "record_transformation r = Some t"
  shows "sh_rows (shadow_fold r sh) t = Some (row_arm t r (row_or_new t (sh_rows sh t)))"
    "sh_since (shadow_fold r sh) t =
       (if sr_state (row_arm t r (row_or_new t (sh_rows sh t))) = Option.bind (sh_rows sh t) sr_state then sh_since sh t
        else Some (record_at r))"
  using assms
  by (cases r; cases "sh_rows sh t"; auto simp: shadow_simps row_arm_def row_or_new_def split: option.splits)+

lemma row_arm_simps [simp]:
  "row_arm t (PlannedRec t i l d fp ps st w at) row =
     row\<lparr>sr_intent_id := Some i, sr_delta_cid := Some d, sr_fp0 := Some fp, sr_state := Some Candidate\<rparr>"
  "row_arm t (VerifyStartedRec t at) row = row\<lparr>sr_state := Some Verifying\<rparr>"
  "row_arm t (VerdictRec t kind vd False at) row =
     row\<lparr>sr_fail_posture_engaged := False, sr_verdict_digest := vd, sr_verdict := Some kind, sr_state := Some (state_of_verdict kind)\<rparr>"
  "row_arm t (VerdictRec t kind vd True at) row =
     row\<lparr>sr_fail_posture_engaged := True, sr_verdict_digest := vd, sr_verdict := None, sr_enforced := False, sr_state := Some Admitted\<rparr>"
  "row_arm t (HumanDecisionRec t kind reason who (Some d) at) row =
     row\<lparr>sr_verdict := Some kind, sr_verdict_digest := Some d, sr_state := Some (state_of_verdict kind)\<rparr>"
  "row_arm t (CanonicalizedRec t c enf at) row =
     row\<lparr>sr_canonical_cid := Some c, sr_enforced := (sr_enforced row \<and> enf \<noteq> Some False), sr_state := Some Canonicalized\<rparr>"
  "row_arm t (CommittingStartedRec t at) row = row\<lparr>sr_state := Some Committing\<rparr>"
  "row_arm t (ProvenanceDerivedRec t p at) row = row\<lparr>sr_provenance := Some p\<rparr>"
  "row_arm t (InverseEscrowedRec t ic pending reads att und at) row = row"
  "row_arm t (ApplyStartedRec t d at) row = row\<lparr>sr_apply_started := Some d\<rparr>"
  "row_arm t (ApplyObservedRec t c at) row = row\<lparr>sr_observation_cid := Some c\<rparr>"
  "row_arm t (InverseCompletedRec t ic at) row = row"
  "row_arm t (CommittedRec t seq at) row = row\<lparr>sr_state := Some Committed\<rparr>"
  "row_arm t (AbortedRec t why rb at) row = row\<lparr>sr_state := Some (Aborted why), sr_rollback := rb\<rparr>"
  "row_arm t (SupersededRec t u at) row = row\<lparr>sr_state := Some Superseded, sr_superseded_by := Some u\<rparr>"
  by (auto simp: row_arm_def on_row_def Let_def)

lemma row_arm_shape:
  assumes "record_transformation r = Some t" "row' = row\<lparr>sr_state := sr_state row', sr_provenance := sr_provenance row'\<rparr>"
  shows "row_arm t r row' = (row_arm t r row)\<lparr>sr_state := sr_state (row_arm t r row'), sr_provenance := sr_provenance (row_arm t r row')\<rparr>"
proof -
  obtain s p where row': "row' = row\<lparr>sr_state := s, sr_provenance := p\<rparr>" using assms(2) by blast
  show ?thesis
    using assms(1) unfolding row'
    by (cases r) (auto simp: row_arm_def on_row_def Let_def split: option.splits)
qed

lemma fold_row_other:
  assumes "record_transformation r \<noteq> Some t"
  shows "sh_rows (shadow_fold r sh) t = sh_rows sh t" "sh_since (shadow_fold r sh) t = sh_since sh t"
  using view_of_other [of t r sh] assms by (simp_all add: names_def view_of_def)

lemma reconstruct_snoc: "reconstruct_shadow (rs @ [r]) = shadow_fold r (reconstruct_shadow rs)"
  by (simp add: reconstruct_shadow_def)

section \<open>The invariant\<close>

text \<open>
  What clears a transformation for the states after the gate: an admission with its digest; the
  engaged fail-open posture, which leaves no verdict and counts as not enforced; or, from
  \<open>Canonicalized\<close> on, a denial that is only recorded, again not enforced.
\<close>

definition passed :: "lifecycle \<Rightarrow> bool" where
  "passed st \<longleftrightarrow> st \<in> {Admitted, Canonicalized, Committing, Committed, Superseded}"

definition cleared :: "lifecycle \<Rightarrow> verdict_kind option \<Rightarrow> cid option \<Rightarrow> bool \<Rightarrow> bool \<Rightarrow> bool" where
  "cleared st v d enf fpe \<longleftrightarrow>
     (passed st \<longrightarrow> v = Some Admit \<and> d \<noteq> None \<or> v = None \<and> d = None \<and> fpe \<and> \<not> enf
        \<or> st \<noteq> Admitted \<and> v = Some Deny \<and> d \<noteq> None \<and> \<not> enf)
     \<and> (st = Denied \<longrightarrow> v = Some Deny \<and> d \<noteq> None)"

definition entry_cleared :: "entry \<Rightarrow> bool" where
  "entry_cleared en = cleared (e_state en) (e_verdict en) (e_verdict_digest en) (e_enforced en) (e_fail_posture_engaged en)"

definition row_cleared :: "state_row \<Rightarrow> bool" where
  "row_cleared row =
     (case sr_state row of
        None \<Rightarrow> True
      | Some st \<Rightarrow> cleared st (sr_verdict row) (sr_verdict_digest row) (sr_enforced row) (sr_fail_posture_engaged row))"

text \<open>
  The shadow follows the journal, except that \<open>commit\<close> writes two records past it: until the next
  record of the transformation the shadow may still say \<open>Canonicalized\<close>, and it lacks the provenance.
\<close>

definition follows :: "state_row \<Rightarrow> timestamp option \<Rightarrow> state_row \<Rightarrow> timestamp option \<Rightarrow> bool" where
  "follows row js row' ss \<longleftrightarrow>
     row' = row\<lparr>sr_state := sr_state row', sr_provenance := sr_provenance row'\<rparr>
     \<and> (sr_state row' = sr_state row \<and> ss = js \<or> sr_state row = Some Committing \<and> sr_state row' = Some Canonicalized)"

text \<open>
  The state of an entry is the state of its row in the journal, with two exceptions: an error after
  the record of a commit leaves the entry at \<open>Committing\<close>, and an error after an undo has recorded the
  new plan of an aborted transformation leaves the entry aborted.
\<close>

definition is_aborted :: "lifecycle \<Rightarrow> bool" where
  "is_aborted st \<longleftrightarrow> (\<exists>why. st = Aborted why)"

lemma is_aborted_simps [simp]:
  "is_aborted (Aborted why)" "\<not> is_aborted Draft" "\<not> is_aborted Candidate" "\<not> is_aborted Verifying" "\<not> is_aborted Admitted"
  "\<not> is_aborted Denied" "\<not> is_aborted Escalated" "\<not> is_aborted Canonicalized" "\<not> is_aborted Committing" "\<not> is_aborted Committed"
  "\<not> is_aborted Superseded"
  by (simp_all add: is_aborted_def)

definition said_by :: "lifecycle \<Rightarrow> lifecycle option \<Rightarrow> bool" where
  "said_by st js \<longleftrightarrow> js = Some st \<or> st = Committing \<and> js = Some Committed \<or> is_aborted st \<and> js = Some Candidate"

definition local_ok :: "entry option \<Rightarrow> state_row option \<Rightarrow> timestamp option \<Rightarrow> state_row option \<Rightarrow> timestamp option \<Rightarrow> bool" where
  "local_ok found jr js sr ss \<longleftrightarrow>
     (\<forall>en. found = Some en \<longrightarrow> entry_cleared en \<and> (\<exists>row. jr = Some row \<and> said_by (e_state en) (sr_state row)))
     \<and> (case jr of
          None \<Rightarrow> sr = None \<and> ss = js
        | Some row \<Rightarrow> row_cleared row \<and> (\<exists>row'. sr = Some row' \<and> follows row js row' ss))"

definition agree :: "journal_record list \<Rightarrow> sigma_shadow \<Rightarrow> (transformation_id \<Rightarrow> entry option) \<Rightarrow> bool" where
  "agree records sh tbl \<longleftrightarrow>
     (\<forall>t. local_ok (tbl t) (sh_rows (reconstruct_shadow records) t) (sh_since (reconstruct_shadow records) t)
            (sh_rows sh t) (sh_since sh t))"

lemma agreeD:
  assumes "agree records sh tbl"
  shows "tbl t = Some en \<Longrightarrow> entry_cleared en"
    "tbl t = Some en \<Longrightarrow> \<exists>row. sh_rows (reconstruct_shadow records) t = Some row \<and> said_by (e_state en) (sr_state row) \<and> row_cleared row"
    "sh_rows (reconstruct_shadow records) t = Some row \<Longrightarrow> row_cleared row"
  using assms unfolding agree_def local_ok_def by (force split: option.splits)+

text \<open>A record about \<open>t\<close>, appended and folded: only what is known of \<open>t\<close> has to be looked at.\<close>

lemma agree_record:
  assumes ok: "agree records sh tbl" and r: "record_transformation r = Some t" and off: "\<And>x. x \<noteq> t \<Longrightarrow> tbl' x = tbl x"
    and clear: "\<And>row. sh_rows (reconstruct_shadow records) t = Some row \<and> row_cleared row
        \<or> sh_rows (reconstruct_shadow records) t = None \<and> row = row_about t \<Longrightarrow> row_cleared (row_arm t r row)"
    and entry: "\<And>en row. tbl' t = Some en \<Longrightarrow> row = row_or_new t (sh_rows (reconstruct_shadow records) t) \<Longrightarrow>
        entry_cleared en \<and> said_by (e_state en) (sr_state (row_arm t r row))"
    and state: "(\<exists>st. (\<forall>row. sr_state (row_arm t r row) = Some st) \<and> (st \<notin> {Committing, Canonicalized}
          \<or> (\<exists>row. sh_rows (reconstruct_shadow records) t = Some row \<and> sr_state row \<noteq> Some Committing)))
        \<or> (\<forall>row. sr_state (row_arm t r row) = sr_state row)"
  shows "agree (records @ [r]) (shadow_fold r sh) tbl'"
  unfolding agree_def
proof
  fix x
  let ?J = "reconstruct_shadow records"
  have here: "local_ok (tbl x) (sh_rows ?J x) (sh_since ?J x) (sh_rows sh x) (sh_since sh x)" using ok unfolding agree_def by blast
  show "local_ok (tbl' x) (sh_rows (reconstruct_shadow (records @ [r])) x) (sh_since (reconstruct_shadow (records @ [r])) x)
      (sh_rows (shadow_fold r sh) x) (sh_since (shadow_fold r sh) x)"
  proof (cases "x = t")
    case False
    with r have "record_transformation r \<noteq> Some x" by simp
    with here False off show ?thesis by (simp add: reconstruct_snoc fold_row_other)
  next
    case True
    let ?row = "row_or_new t (sh_rows ?J t)" and ?row' = "row_or_new t (sh_rows sh t)"
    have clear': "row_cleared (row_arm t r ?row)"
      using clear agreeD(3) [OF ok] by (cases "sh_rows ?J t") (auto simp: row_or_new_def)
    have f: "follows (row_arm t r ?row) (sh_since (shadow_fold r ?J) t) (row_arm t r ?row') (sh_since (shadow_fold r sh) t)"
    proof (cases "sh_rows ?J t")
      case None
      with here True have "sh_rows sh t = None" "sh_since sh t = sh_since ?J t" by (simp_all add: local_ok_def)
      with None row_arm_shape [OF r, of "?row" "?row"] show ?thesis by (simp add: follows_def fold_row [OF r] row_or_new_def)
    next
      case (Some row)
      with here True obtain row' where row': "sh_rows sh t = Some row'" and fo: "follows row (sh_since ?J t) row' (sh_since sh t)"
        by (auto simp: local_ok_def)
      have s: "row_arm t r row' = (row_arm t r row)\<lparr>sr_state := sr_state (row_arm t r row'), sr_provenance := sr_provenance (row_arm t r row')\<rparr>"
        using fo by (intro row_arm_shape [OF r]) (simp add: follows_def)
      from state show ?thesis
        using Some row' fo s by (auto simp: follows_def fold_row [OF r] row_or_new_def)
    qed
    from True entry clear' f show ?thesis
      by (simp add: local_ok_def reconstruct_snoc fold_row [OF r])
  qed
qed

text \<open>A change of entries that leaves their states and what clears them alone.\<close>

definition same_standing :: "entry \<Rightarrow> entry \<Rightarrow> bool" where
  "same_standing en en' \<longleftrightarrow> e_state en' = e_state en \<and> e_verdict en' = e_verdict en \<and> e_verdict_digest en' = e_verdict_digest en
     \<and> e_enforced en' = e_enforced en \<and> e_fail_posture_engaged en' = e_fail_posture_engaged en"

lemma agree_table:
  assumes "agree records sh tbl" "\<And>x en'. tbl' x = Some en' \<Longrightarrow> \<exists>en. tbl x = Some en \<and> same_standing en en'"
  shows "agree records sh tbl'"
  unfolding agree_def
proof
  fix x
  let ?ok = "\<lambda>found. local_ok found (sh_rows (reconstruct_shadow records) x) (sh_since (reconstruct_shadow records) x)
     (sh_rows sh x) (sh_since sh x)"
  have here: "?ok (tbl x)" using assms(1) unfolding agree_def by blast
  show "?ok (tbl' x)"
  proof (cases "tbl' x")
    case None
    with here show ?thesis by (simp add: local_ok_def)
  next
    case (Some en')
    then obtain en where "tbl x = Some en" "same_standing en en'" using assms(2) by blast
    with here Some show ?thesis by (simp add: local_ok_def same_standing_def entry_cleared_def)
  qed
qed

lemma agree_entry:
  assumes "agree records sh tbl" "\<And>en. tbl t = Some en \<Longrightarrow> same_standing en (f en)"
  shows "agree records sh (tbl(t := map_option f (tbl t)))"
  by (rule agree_table [OF assms(1)]) (use assms(2) in \<open>auto simp: same_standing_def split: if_splits\<close>)

text \<open>The records by what they do to the row, with the entry that goes with them.\<close>

lemmas cleared_simps = row_cleared_def entry_cleared_def cleared_def passed_def

lemma agree_neutral:
  assumes "agree records sh tbl"
    "r \<in> {InverseEscrowedRec t ic pending reads att und at, ApplyStartedRec t c at, ApplyObservedRec t c at, InverseCompletedRec t ic at}"
  shows "agree (records @ [r]) (shadow_fold r sh) tbl"
proof (rule agree_record [OF assms(1), of _ t])
  show "record_transformation r = Some t" using assms(2) by auto
  show "\<And>row. sh_rows (reconstruct_shadow records) t = Some row \<and> row_cleared row
      \<or> sh_rows (reconstruct_shadow records) t = None \<and> row = row_about t \<Longrightarrow> row_cleared (row_arm t r row)"
    using assms(2) by (auto simp: row_cleared_def row_about_def split: option.splits)
  show "\<And>en row. tbl t = Some en \<Longrightarrow> row = row_or_new t (sh_rows (reconstruct_shadow records) t) \<Longrightarrow>
      entry_cleared en \<and> said_by (e_state en) (sr_state (row_arm t r row))"
    using assms(2) agreeD(1,2) [OF assms(1)] by (fastforce simp: row_or_new_def)
  show "(\<exists>st. (\<forall>row. sr_state (row_arm t r row) = Some st) \<and> (st \<notin> {Committing, Canonicalized}
          \<or> (\<exists>row. sh_rows (reconstruct_shadow records) t = Some row \<and> sr_state row \<noteq> Some Committing)))
        \<or> (\<forall>row. sr_state (row_arm t r row) = sr_state row)"
    using assms(2) by auto
qed simp

lemma agree_draft: "agree records sh tbl \<Longrightarrow> agree (records @ [DraftCreatedRec i seed at]) (shadow_fold (DraftCreatedRec i seed at) sh) tbl"
  unfolding agree_def reconstruct_snoc by (simp add: fold_row_other)

text \<open>A record that sets the state to \<open>st\<close>, with an entry that says so too.\<close>

lemma agree_to:
  assumes ok: "agree records sh tbl" and r: "record_transformation r = Some t"
    and st: "\<And>row. sr_state (row_arm t r row) = Some st"
    and no_lag: "st \<notin> {Committing, Canonicalized} \<or> (\<exists>en. tbl t = Some en \<and> e_state en \<noteq> Committing)"
    and clear: "\<And>row. sh_rows (reconstruct_shadow records) t = Some row \<and> row_cleared row
        \<or> sh_rows (reconstruct_shadow records) t = None \<and> row = row_about t \<Longrightarrow> row_cleared (row_arm t r row)"
    and tbl': "\<And>x. x \<noteq> t \<Longrightarrow> tbl' x = tbl x" "\<And>en. tbl' t = Some en \<Longrightarrow> e_state en = st \<and> entry_cleared en"
  shows "agree (records @ [r]) (shadow_fold r sh) tbl'"
proof (rule agree_record [OF ok r tbl'(1)])
  show "(\<exists>st. (\<forall>row. sr_state (row_arm t r row) = Some st) \<and> (st \<notin> {Committing, Canonicalized}
          \<or> (\<exists>row. sh_rows (reconstruct_shadow records) t = Some row \<and> sr_state row \<noteq> Some Committing)))
        \<or> (\<forall>row. sr_state (row_arm t r row) = sr_state row)"
    using no_lag st agreeD(2) [OF ok] unfolding said_by_def by fastforce
qed (use st clear tbl'(2) in \<open>auto simp: said_by_def\<close>)

section \<open>The records keep it\<close>

text \<open>One lemma per record that moves a transformation, in the form in which the operations write it.\<close>

lemma agree_abort:
  assumes "agree records sh tbl" "\<And>x. x \<noteq> t \<Longrightarrow> tbl' x = tbl x" "\<And>en. tbl' t = Some en \<Longrightarrow> e_state en = Aborted why"
  shows "agree (records @ [AbortedRec t why rb at]) (shadow_fold (AbortedRec t why rb at) sh) tbl'"
  by (rule agree_to [OF assms(1), where t = t and st = "Aborted why"]) (use assms(2,3) in \<open>auto simp: cleared_simps\<close>)

lemma agree_planned:
  assumes "agree records sh tbl" "\<And>x. x \<noteq> t \<Longrightarrow> tbl' x = tbl x" "\<And>en. tbl' t = Some en \<Longrightarrow> e_state en = Candidate"
  shows "agree (records @ [PlannedRec t i l d fp ps inp w at]) (shadow_fold (PlannedRec t i l d fp ps inp w at) sh) tbl'"
  by (rule agree_to [OF assms(1), where t = t and st = Candidate]) (use assms(2,3) in \<open>auto simp: cleared_simps\<close>)

lemma agree_verifying:
  assumes "agree records sh tbl" "\<And>x. x \<noteq> t \<Longrightarrow> tbl' x = tbl x" "\<And>en. tbl' t = Some en \<Longrightarrow> e_state en = Verifying"
  shows "agree (records @ [VerifyStartedRec t at]) (shadow_fold (VerifyStartedRec t at) sh) tbl'"
  by (rule agree_to [OF assms(1), where t = t and st = Verifying]) (use assms(2,3) in \<open>auto simp: cleared_simps\<close>)

lemma agree_verdict:
  assumes "agree records sh tbl" "\<And>x. x \<noteq> t \<Longrightarrow> tbl' x = tbl x"
    "\<And>en. tbl' t = Some en \<Longrightarrow> e_state en = state_of_verdict kind \<and> e_verdict en = Some kind \<and> e_verdict_digest en = Some d"
  shows "agree (records @ [VerdictRec t kind (Some d) False at]) (shadow_fold (VerdictRec t kind (Some d) False at) sh) tbl'"
  by (rule agree_to [OF assms(1), where t = t and st = "state_of_verdict kind"])
    (use assms(2,3) in \<open>cases kind; auto simp: cleared_simps\<close>)+

lemma agree_ruling:
  assumes "agree records sh tbl" "\<And>x. x \<noteq> t \<Longrightarrow> tbl' x = tbl x"
    "\<And>en. tbl' t = Some en \<Longrightarrow> e_state en = state_of_verdict kind \<and> e_verdict en = Some kind \<and> e_verdict_digest en = Some d"
  shows "agree (records @ [HumanDecisionRec t kind why who (Some d) at]) (shadow_fold (HumanDecisionRec t kind why who (Some d) at) sh) tbl'"
  by (rule agree_to [OF assms(1), where t = t and st = "state_of_verdict kind"])
    (use assms(2,3) in \<open>cases kind; auto simp: cleared_simps\<close>)+

lemma agree_fail_open:
  assumes "agree records sh tbl" "\<And>x. x \<noteq> t \<Longrightarrow> tbl' x = tbl x"
    "\<And>en. tbl' t = Some en \<Longrightarrow> e_state en = Admitted \<and> e_verdict en = None \<and> e_verdict_digest en = None
       \<and> \<not> e_enforced en \<and> e_fail_posture_engaged en"
  shows "agree (records @ [VerdictRec t Admit None True at]) (shadow_fold (VerdictRec t Admit None True at) sh) tbl'"
  by (rule agree_to [OF assms(1), where t = t and st = Admitted]) (use assms(2,3) in \<open>auto simp: cleared_simps\<close>)

text \<open>From here on the row must have been cleared before; the entry says that it was.\<close>

lemma agree_canonicalized:
  assumes ok: "agree records sh tbl" and en: "tbl t = Some en" "e_state en = Admitted \<or> e_state en = Denied \<and> enf = Some False"
    and tbl': "\<And>x. x \<noteq> t \<Longrightarrow> tbl' x = tbl x" "tbl' t = Some (en')"
    "e_state en' = Canonicalized" "e_verdict en' = e_verdict en" "e_verdict_digest en' = e_verdict_digest en"
    "e_enforced en' = (e_enforced en \<and> enf \<noteq> Some False)" "e_fail_posture_engaged en' = e_fail_posture_engaged en"
  shows "agree (records @ [CanonicalizedRec t c enf at]) (shadow_fold (CanonicalizedRec t c enf at) sh) tbl'"
proof (rule agree_to [OF ok, where t = t and st = Canonicalized])
  obtain row where row: "sh_rows (reconstruct_shadow records) t = Some row" "said_by (e_state en) (sr_state row)" "row_cleared row"
    using agreeD(2) [OF ok en(1)] by blast
  show "\<And>row. sh_rows (reconstruct_shadow records) t = Some row \<and> row_cleared row
      \<or> sh_rows (reconstruct_shadow records) t = None \<and> row = row_about t \<Longrightarrow> row_cleared (row_arm t (CanonicalizedRec t c enf at) row)"
    using row en(2) by (auto simp: cleared_simps said_by_def)
  show "\<And>x. tbl' t = Some x \<Longrightarrow> e_state x = Canonicalized \<and> entry_cleared x"
    using tbl' en(2) agreeD(1) [OF ok en(1)] by (auto simp: cleared_simps)
qed (use en tbl'(1) in auto)

lemma agree_onward:
  assumes ok: "agree records sh tbl" and en: "tbl t = Some en" "passed (e_state en)" "e_state en \<noteq> Admitted"
    and r: "r = CommittedRec t seq at \<and> st = Committed \<or> r = SupersededRec t u at \<and> st = Superseded"
    and tbl': "\<And>x. x \<noteq> t \<Longrightarrow> tbl' x = tbl x" "\<And>en'. tbl' t = Some en' \<Longrightarrow> same_standing (en\<lparr>e_state := st\<rparr>) en'"
  shows "agree (records @ [r]) (shadow_fold r sh) tbl'"
proof (rule agree_to [OF ok, where t = t and st = st])
  obtain row where row: "sh_rows (reconstruct_shadow records) t = Some row" "said_by (e_state en) (sr_state row)" "row_cleared row"
    using agreeD(2) [OF ok en(1)] by blast
  show "\<And>row. sh_rows (reconstruct_shadow records) t = Some row \<and> row_cleared row
      \<or> sh_rows (reconstruct_shadow records) t = None \<and> row = row_about t \<Longrightarrow> row_cleared (row_arm t r row)"
    using row en r by (auto simp: cleared_simps said_by_def)
  show "\<And>x. tbl' t = Some x \<Longrightarrow> e_state x = st \<and> entry_cleared x"
    using tbl'(2) en r agreeD(1) [OF ok en(1)] by (auto simp: cleared_simps same_standing_def)
qed (use en r tbl'(1) in auto)

text \<open>The two records \<open>commit\<close> writes past the shadow.\<close>

lemma agree_committing:
  assumes ok: "agree records sh tbl" and en: "tbl t = Some en" "e_state en = Canonicalized"
    and tbl': "\<And>x. x \<noteq> t \<Longrightarrow> tbl' x = tbl x" "tbl' t = Some en'" "same_standing (en\<lparr>e_state := Committing\<rparr>) en'"
  shows "agree (records @ [CommittingStartedRec t at]) sh tbl'"
  unfolding agree_def
proof
  fix x
  let ?r = "CommittingStartedRec t at" and ?J = "reconstruct_shadow records"
  have here: "local_ok (tbl x) (sh_rows ?J x) (sh_since ?J x) (sh_rows sh x) (sh_since sh x)" using ok unfolding agree_def by blast
  show "local_ok (tbl' x) (sh_rows (reconstruct_shadow (records @ [?r])) x) (sh_since (reconstruct_shadow (records @ [?r])) x)
      (sh_rows sh x) (sh_since sh x)"
  proof (cases "x = t")
    case False
    with here tbl'(1) show ?thesis by (simp add: reconstruct_snoc fold_row_other)
  next
    case True
    have r: "record_transformation ?r = Some t" by simp
    from here True en obtain row row' where "sh_rows ?J t = Some row" "sr_state row = Some Canonicalized" "row_cleared row"
      "sh_rows sh t = Some row'" "follows row (sh_since ?J t) row' (sh_since sh t)" "entry_cleared en"
      by (auto simp: local_ok_def said_by_def)
    with True tbl' en show ?thesis
      by (auto simp: local_ok_def said_by_def reconstruct_snoc fold_row [OF r] row_or_new_def follows_def same_standing_def cleared_simps)
  qed
qed

lemma agree_provenance:
  assumes ok: "agree records sh tbl" and en: "tbl t = Some en"
  shows "agree (records @ [ProvenanceDerivedRec t p at]) sh tbl"
  unfolding agree_def
proof
  fix x
  let ?r = "ProvenanceDerivedRec t p at" and ?J = "reconstruct_shadow records"
  have here: "local_ok (tbl x) (sh_rows ?J x) (sh_since ?J x) (sh_rows sh x) (sh_since sh x)" using ok unfolding agree_def by blast
  show "local_ok (tbl x) (sh_rows (reconstruct_shadow (records @ [?r])) x) (sh_since (reconstruct_shadow (records @ [?r])) x)
      (sh_rows sh x) (sh_since sh x)"
  proof (cases "x = t")
    case False
    with here show ?thesis by (simp add: reconstruct_snoc fold_row_other)
  next
    case True
    have r: "record_transformation ?r = Some t" by simp
    from here True en obtain row row' where "sh_rows ?J t = Some row" "said_by (e_state en) (sr_state row)" "row_cleared row"
      "sh_rows sh t = Some row'" "follows row (sh_since ?J t) row' (sh_since sh t)" "entry_cleared en"
      by (auto simp: local_ok_def)
    with True en show ?thesis
      by (auto simp: local_ok_def reconstruct_snoc fold_row [OF r] row_or_new_def follows_def row_cleared_def split: option.splits)
  qed
qed

end
