(* ===== verification/Engine_Safety.thy ===== *)
theory Engine_Safety
  imports Engine_Agreement
begin

text \<open>
  What holds in every state the engine can reach. The table of the engine, the journal and the shadow
  the engine keeps of the journal agree on the state of every transformation; nothing passes the
  gate without a verdict that clears it.
\<close>

lemma agree_put: "agree records sh tbl \<Longrightarrow> tbl t = Some en \<Longrightarrow> same_standing en en' \<Longrightarrow> agree records sh (tbl(t \<mapsto> en'))"
  by (rule agree_table) (auto simp: same_standing_def split: if_splits)

section \<open>The invariant of the engine\<close>

text \<open>Besides the agreement: what an intent is recorded to resolve to has been planned.\<close>

definition planned_in :: "journal_record list \<Rightarrow> transformation_id \<Rightarrow> bool" where
  "planned_in records t \<longleftrightarrow> (\<exists>row. sh_rows (reconstruct_shadow records) t = Some row \<and> sr_state row \<noteq> None)"

definition resolved_ok :: "journal_record list \<Rightarrow> (intent_id \<Rightarrow> transformation_id list option) \<Rightarrow> bool" where
  "resolved_ok records res \<longleftrightarrow> (\<forall>i ts t. res i = Some ts \<longrightarrow> t \<in> set ts \<longrightarrow> planned_in records t)"

definition engine_ok :: "'w engine \<Rightarrow> bool" where
  "engine_ok e \<longleftrightarrow> agree (en_records e) (en_shadow e) (en_table e) \<and> resolved_ok (en_records e) (en_resolved e)"

lemma planned_in_snoc: "planned_in records t \<Longrightarrow> planned_in (records @ [r]) t"
proof -
  assume "planned_in records t"
  then obtain row where row: "sh_rows (reconstruct_shadow records) t = Some row" "sr_state row \<noteq> None" by (auto simp: planned_in_def)
  show ?thesis
  proof (cases "record_transformation r = Some t")
    case True
    have "sr_state (row_arm t r row) \<noteq> None"
      using True row(2) by (cases r) (auto simp: row_arm_def on_row_def Let_def split: option.splits)
    with row show ?thesis by (simp add: planned_in_def reconstruct_snoc fold_row [OF True] row_or_new_def)
  next
    case False
    with row show ?thesis by (simp add: planned_in_def reconstruct_snoc fold_row_other)
  qed
qed

lemma resolved_ok_snoc [simp, intro]: "resolved_ok records res \<Longrightarrow> resolved_ok (records @ [r]) res"
  by (auto simp: resolved_ok_def intro: planned_in_snoc)

lemma resolved_ok_remember:
  assumes "resolved_ok records m" "planned_in records t" "seen = (case m i of None \<Rightarrow> [] | Some ts \<Rightarrow> ts)"
  shows "resolved_ok records (m(i \<mapsto> if t \<in> set seen then seen else seen @ [t]))"
proof -
  have "planned_in records x" if "x \<in> set seen" for x
    using assms that by (cases "m i") (auto simp: resolved_ok_def)
  with assms show ?thesis by (auto simp: resolved_ok_def split: if_splits)
qed

section \<open>Every operation keeps the invariant\<close>

abbreviation keeps :: "('w engine, 'a) action \<Rightarrow> 'w engine \<Rightarrow> bool" where
  "keeps m e \<equiv> wp m (\<lambda>_. engine_ok) (\<lambda>_. engine_ok) e"

lemma wp_on_entry [wp_simps]:
  "wp (on_entry t f) Q E e = Q () (e\<lparr>en_table := (en_table e)(t := map_option f (en_table e t))\<rparr>)"
  by (simp add: on_entry_def wp_modify)

lemma wp_entry_of [wp_simps]:
  "wp (entry_of t) Q E e = (case en_table e t of None \<Rightarrow> E (NotFound ''transformation'') e | Some en \<Rightarrow> Q en e)"
  by (simp add: wp_def entry_of_def ok_or_def split: option.split)

lemma wp_entry_at [wp_simps]:
  "wp (entry_at t) Q E e = (case en_table e t of None \<Rightarrow> E EnginePanic e | Some en \<Rightarrow> Q en e)"
  by (simp add: wp_def entry_at_def ok_or_def split: option.split)

lemma wp_put_blob:
  assumes "\<And>n dir. Q () (e\<lparr>en_tick := n, en_blobs := dir\<rparr>)" "\<And>err n dir. E err (e\<lparr>en_tick := n, en_blobs := dir\<rparr>)"
  shows "wp (put_blob cf d) Q E e"
  using assms unfolding wp_def put_blob_def by (auto split: prod.splits sum.splits)

lemma wp_put_observation:
  assumes "\<And>n dir. Q () (e\<lparr>en_tick := n, en_observations := dir\<rparr>)" "\<And>err n dir. E err (e\<lparr>en_tick := n, en_observations := dir\<rparr>)"
  shows "wp (put_observation cf d) Q E e"
  using assms unfolding wp_def put_observation_def by (auto split: prod.splits sum.splits)

text \<open>The invariant looks at the journal, the shadow and the table only.\<close>

lemma engine_ok_frame0 [simp]:
  "engine_ok (e\<lparr>en_tick := x0\<rparr>) = engine_ok e"
  "engine_ok (e\<lparr>en_world := x1\<rparr>) = engine_ok e"
  "engine_ok (e\<lparr>en_journal_dir := x2\<rparr>) = engine_ok e"
  "engine_ok (e\<lparr>en_blobs := x3\<rparr>) = engine_ok e"
  "engine_ok (e\<lparr>en_observations := x4\<rparr>) = engine_ok e"
  "engine_ok (e\<lparr>en_ledger := x5\<rparr>) = engine_ok e"
  by (simp_all add: engine_ok_def)

lemma engine_ok_frame1 [simp]:
  "engine_ok (e\<lparr>en_ledger_dir := x0\<rparr>) = engine_ok e"
  "engine_ok (e\<lparr>en_head_dir := x1\<rparr>) = engine_ok e"
  "engine_ok (e\<lparr>en_head := x2\<rparr>) = engine_ok e"
  "engine_ok (e\<lparr>en_verdicts := x3\<rparr>) = engine_ok e"
  "engine_ok (e\<lparr>en_drafted := x4\<rparr>) = engine_ok e"
  "engine_ok (e\<lparr>en_not_attempted := x5\<rparr>) = engine_ok e"
  by (simp_all add: engine_ok_def)

lemma engine_ok_frame2 [simp]:
  "engine_ok (e\<lparr>en_prediction := x0\<rparr>) = engine_ok e"
  "engine_ok (e\<lparr>en_by_subject := x2\<rparr>) = engine_ok e"
  "engine_ok (e\<lparr>en_escrow := x3\<rparr>) = engine_ok e"
  "engine_ok (e\<lparr>en_supersedes := x4\<rparr>) = engine_ok e"
  "engine_ok (e\<lparr>en_committed := x5\<rparr>) = engine_ok e"
  by (simp_all add: engine_ok_def)

lemma keeps_quiet: "quiet m \<Longrightarrow> engine_ok e \<Longrightarrow> keeps m e"
  by (rule wp_quiet) simp_all

lemma keeps_abort: "engine_ok e \<Longrightarrow> keeps (abort_entry cf t why rb at) e"
  unfolding abort_entry_def set_state_def wp_simps
  by (rule wp_append) (auto simp: engine_ok_def intro!: agree_abort split: if_splits)

lemma keeps_expire: "engine_ok e \<Longrightarrow> keeps (expire_if_due cf t now) e"
  unfolding expire_if_due_def wp_simps by (auto simp: wp_simps keeps_abort split: option.split)

lemma keeps_for_each:
  assumes "\<And>x e. engine_ok e \<Longrightarrow> keeps (f x) e" "engine_ok e" shows "keeps (for_each f xs) e"
  using assms(2)
proof (induction xs arbitrary: e)
  case (Cons x xs)
  then show ?case unfolding for_each.simps wp_simps by (intro wp_mono [OF assms(1)]) auto
qed (simp add: wp_simps)

lemma keeps_reap: "engine_ok e \<Longrightarrow> keeps (reap cf now) e"
  unfolding reap_def wp_simps
  by (intro keeps_for_each) (auto simp: wp_simps intro: wp_mono [OF keeps_expire])

lemma keeps_submit: "engine_ok e \<Longrightarrow> keeps (submit cf i seed at) e"
  unfolding submit_def wp_simps
  by (auto simp: wp_simps engine_ok_def intro!: wp_append agree_draft split: sum.split)

lemma keeps_issue: "engine_ok e \<Longrightarrow> keeps (issue_verdict_receipt cf t v at key) e"
  unfolding issue_verdict_receipt_def wp_simps
  by (auto simp: wp_simps engine_ok_def same_standing_def intro: agree_put split: option.split sum.split)

lemma keeps_unreachable: "engine_ok e \<Longrightarrow> keeps (unreachable_collector cf t at key) e"
proof (cases "cf_posture cf")
  case FailClosed
  assume "engine_ok e"
  then show ?thesis
    unfolding unreachable_collector_def FailClosed fail_posture.case set_state_def wp_simps
    by (intro wp_append) (auto simp: engine_ok_def intro!: agree_abort)
next
  case FailOpen
  assume "engine_ok e"
  then show ?thesis
    unfolding unreachable_collector_def FailOpen fail_posture.case set_state_def wp_simps
    by (intro wp_append wp_mono [OF keeps_issue]) (auto simp: wp_simps engine_ok_def intro!: agree_fail_open)
qed

text \<open>The id of a ticket the gate made is the digest of its contents, so the check of it never fails.\<close>

lemma gate_ticket:
  assumes "gate_verify (ec_gate (cf_codec cf)) g input = Inr (EscalateVerdict ticket)"
  shows "checked_ticket cf ticket at = Inr (ticket\<lparr>tk_created_at := at\<rparr>)"
proof -
  have "new_escalation_ticket (ec_gate (cf_codec cf)) (t_id (gi_t input)) = Inr ticket"
    using assms by (auto simp: gate_verify_def deny_def and_then_eq_Inr split: option.splits if_splits)
  then show ?thesis
    by (auto simp: new_escalation_ticket_def checked_ticket_def digest_of_def ticket_view_def Let_def and_then_eq_Inr
        cid_compute_def map_err_def and_then_def split: sum.splits)
qed

lemma keeps_take_verdict:
  assumes "engine_ok e" "gate_verify (ec_gate (cf_codec cf)) g input = Inr v"
  shows "keeps (take_verdict cf t v at key) e"
proof -
  obtain x where x: "(case v of
         EscalateVerdict ticket \<Rightarrow> and_then (checked_ticket cf ticket at) (\<lambda>ticket. Inr (Some ticket, None, None))
       | AdmitVerdict p \<Rightarrow> Inr (None, Some p, None)
       | DenyVerdict rs \<Rightarrow> Inr (None, None, Some rs)) = Inr x"
    using assms(2) gate_ticket [of cf g input] by (cases v) auto
  obtain ticket admitted reasons where xs: "x = (ticket, admitted, reasons)" by (cases x)
  show ?thesis
    unfolding take_verdict_def set_state_def x xs wp_simps sum.case prod.case
    using assms(1)
    by (auto simp: wp_simps intro!: wp_append wp_mono [OF keeps_issue] split: sum.split)
      (auto simp: engine_ok_def intro!: agree_verdict)
qed

named_theorems keeps_intros

lemma keeps_then [keeps_intros]: "keeps m e \<Longrightarrow> (\<And>a e'. engine_ok e' \<Longrightarrow> keeps (f a) e') \<Longrightarrow> keeps (then_do m f) e"
  unfolding wp_then by (erule wp_mono) auto

lemma keeps_cases [keeps_intros]:
  "(b \<Longrightarrow> keeps m e) \<Longrightarrow> (\<not> b \<Longrightarrow> keeps m' e) \<Longrightarrow> keeps (if b then m else m') e"
  "(x = None \<Longrightarrow> keeps m e) \<Longrightarrow> (\<And>a. x = Some a \<Longrightarrow> keeps (f a) e) \<Longrightarrow> keeps (case x of None \<Rightarrow> m | Some a \<Rightarrow> f a) e"
  "(\<And>z. y = Inl z \<Longrightarrow> keeps (g z) e) \<Longrightarrow> (\<And>a. y = Inr a \<Longrightarrow> keeps (h a) e) \<Longrightarrow> keeps (case y of Inl z \<Rightarrow> g z | Inr a \<Rightarrow> h a) e"
  "(\<And>a b. p = (a, b) \<Longrightarrow> keeps (k a b) e) \<Longrightarrow> keeps (case p of (a, b) \<Rightarrow> k a b) e"
  by (auto split: option.split sum.split prod.split)

lemma keeps_basic [keeps_intros]:
  "engine_ok e \<Longrightarrow> keeps (ret a) e" "engine_ok e \<Longrightarrow> keeps (fail x) e" "engine_ok e \<Longrightarrow> keeps (lift r) e"
  "engine_ok e \<Longrightarrow> keeps (get f) e" "engine_ok e \<Longrightarrow> keeps (look cf g) e" "engine_ok e \<Longrightarrow> keeps (ask cf act q) e"
  "engine_ok e \<Longrightarrow> keeps (adapter_of cf k) e" "engine_ok e \<Longrightarrow> keeps (entry_of t) e" "engine_ok e \<Longrightarrow> keeps (entry_at t) e"
  "engine_ok e \<Longrightarrow> keeps (conflicting_predecessor cf t m) e" "engine_ok e \<Longrightarrow> keeps (plan_shape_of cf i at) e"
  "engine_ok e \<Longrightarrow> keeps (apply_once cf ad d) e" "engine_ok e \<Longrightarrow> keeps (world_the_failed_apply_left cf ad locator fp0) e"
  "engine_ok e \<Longrightarrow> keeps (world_is_still_at cf ad locator fp0) e" "engine_ok e \<Longrightarrow> keeps (rollback_landed cf ad locator fp0) e"
  "engine_ok e \<Longrightarrow> keeps (observed_postcondition cf ad locator) e"
  by (erule keeps_quiet [rotated], intro quiet_intros)+

lemmas keeps_parts [keeps_intros] = keeps_abort keeps_expire keeps_issue keeps_unreachable keeps_take_verdict

lemma keeps_blobs [keeps_intros]: "engine_ok e \<Longrightarrow> keeps (put_blob cf d) e" "engine_ok e \<Longrightarrow> keeps (put_observation cf bs) e"
  by (auto intro!: wp_put_blob wp_put_observation)

text \<open>Changes of an entry that do not touch its standing.\<close>

lemma keeps_on_entry [keeps_intros]: "engine_ok e \<Longrightarrow> (\<And>en. same_standing en (f en)) \<Longrightarrow> keeps (on_entry t f) e"
  by (auto simp: wp_simps engine_ok_def intro!: agree_entry)

lemma same_standing_updates [keeps_intros]:
  "same_standing en (en\<lparr>e_blocked_by := b\<rparr>)" "same_standing en (en\<lparr>e_apply_started := c\<rparr>)" "same_standing en (en\<lparr>e_inverse_cid := c\<rparr>)"
  "same_standing en (en\<lparr>e_observation_cid := c\<rparr>)" "same_standing en (en\<lparr>e_provenance := p\<rparr>)"
  "same_standing en (en\<lparr>e_applied_at := at, e_receipt := r\<rparr>)"
  by (simp_all add: same_standing_def)

lemma keeps_modify [keeps_intros]: "engine_ok e \<Longrightarrow> (\<And>e. engine_ok e \<Longrightarrow> engine_ok (f e)) \<Longrightarrow> keeps (modify f) e"
  by (simp add: wp_simps)

text \<open>Records that stand alone.\<close>

lemma keeps_neutral [keeps_intros]:
  "engine_ok e \<Longrightarrow> keeps (engine_journal_append cf (InverseEscrowedRec t ic pending reads att und at)) e"
  "engine_ok e \<Longrightarrow> keeps (engine_journal_append cf (ApplyStartedRec t c at)) e"
  "engine_ok e \<Longrightarrow> keeps (engine_journal_append cf (ApplyObservedRec t c at)) e"
  "engine_ok e \<Longrightarrow> keeps (engine_journal_append cf (InverseCompletedRec t ic at)) e"
  by (rule wp_append; simp add: engine_ok_def agree_neutral)+

section \<open>Verifying, ruling, cancelling, canonicalizing\<close>

lemma keeps_gate_error:
  "engine_ok e \<Longrightarrow> keeps (then_do (engine_journal_append cf (AbortedRec t why None at)) (\<lambda>_. set_state t (Aborted why) at)) e"
  unfolding set_state_def wp_simps by (intro wp_append) (auto simp: engine_ok_def intro!: agree_abort)

lemma keeps_ask_the_gate: "engine_ok e \<Longrightarrow> keeps (ask_the_gate cf t at key) e"
  unfolding ask_the_gate_def by (intro keeps_gate_error keeps_intros)

lemma keeps_start_verify:
  "engine_ok e \<Longrightarrow> keeps (then_do (engine_journal_append cf (VerifyStartedRec t at)) (\<lambda>_.
     then_do (set_state t Verifying at) (\<lambda>_. ask_the_gate cf t at key))) e"
  unfolding set_state_def wp_simps
  by (intro wp_append keeps_ask_the_gate) (auto simp: engine_ok_def intro!: agree_verifying)

lemma keeps_verify: "engine_ok e \<Longrightarrow> keeps (verify cf t at key mode) e"
  unfolding verify_def Let_def by (intro keeps_start_verify keeps_intros)

lemma keeps_cancel: "engine_ok e \<Longrightarrow> keeps (cancel cf t at) e"
  unfolding cancel_def by (intro keeps_intros) (auto intro: keeps_intros split: lifecycle.split)

lemma keeps_ruling:
  "engine_ok e \<Longrightarrow> keeps (then_do (engine_journal_append cf (HumanDecisionRec t kind why who (Some d) at)) (\<lambda>_.
     then_do (on_entry t (\<lambda>en. en\<lparr>e_verdict := Some kind, e_verdict_digest := Some d\<rparr>)) (\<lambda>_.
     then_do (set_state t (state_of_verdict kind) at) (\<lambda>state.
     then_do (issue_verdict_receipt cf t v at key) (\<lambda>_. ret state))))) e"
  unfolding set_state_def wp_simps
  by (intro wp_append wp_mono [OF keeps_issue]) (auto simp: wp_simps engine_ok_def intro!: agree_ruling)

lemma keeps_escalation: "engine_ok e \<Longrightarrow> keeps (escalation cf t ruling at key) e"
  unfolding escalation_def by (intro keeps_ruling keeps_intros)

text \<open>Reading without moving: what was read is still so when the rest begins.\<close>

lemma keeps_still:
  "engine_ok e \<Longrightarrow> (\<And>a. r = Inr a \<Longrightarrow> keeps (f a) e) \<Longrightarrow> keeps (then_do (lift r) f) e"
  "engine_ok e \<Longrightarrow> (\<And>en. en_table e t = Some en \<Longrightarrow> keeps (g en) e) \<Longrightarrow> keeps (then_do (entry_of t) g) e"
  "engine_ok e \<Longrightarrow> (\<And>en. en_table e t = Some en \<Longrightarrow> keeps (g en) e) \<Longrightarrow> keeps (then_do (entry_at t) g) e"
  "engine_ok e \<Longrightarrow> keeps (h (q e)) e \<Longrightarrow> keeps (then_do (get q) h) e"
  "engine_ok e \<Longrightarrow> (\<And>ad. keeps (k ad) e) \<Longrightarrow> keeps (then_do (adapter_of cf kd) k) e"
  by (auto simp: wp_simps adapter_of_def split: option.split sum.split)

lemma keeps_canonicalized:
  assumes "engine_ok e" "en_table e t = Some en" "e_state en = Admitted \<or> e_state en = Denied \<and> enf = Some False"
  shows "keeps (then_do (engine_journal_append cf (CanonicalizedRec t c enf at)) (\<lambda>_.
     then_do (on_entry t (\<lambda>en. en\<lparr>e_canonical_cid := Some c, e_enforced := (if enf = Some False then False else e_enforced en)\<rparr>)) (\<lambda>_.
     set_state t Canonicalized at))) e"
  using assms unfolding set_state_def wp_simps
  by (intro wp_append) (auto simp: engine_ok_def intro!: agree_canonicalized)

lemma keeps_canonicalize: "engine_ok e \<Longrightarrow> keeps (canonicalize cf t at mode) e"
  unfolding canonicalize_def Let_def
  by (intro keeps_then [OF keeps_expire] keeps_still keeps_cases keeps_basic keeps_canonicalized) auto

section \<open>Planning\<close>

text \<open>
  The id of a transformation covers the id of its intent, so two intents with one transformation id
  are a collision of the hash. A plan is said to clash when it would meet one.
\<close>

definition plan_clash :: "'w engine_config \<Rightarrow> intent \<Rightarrow> timestamp \<Rightarrow> 'w engine \<Rightarrow> bool" where
  "plan_clash cf i at e \<longleftrightarrow>
     (\<exists>t en. fst (planned_id cf i at e) = Inr t \<and> en_table e t = Some en
        \<and> cid_compute (ec_hash (cf_codec cf)) (ec_intent (cf_codec cf)) (\<lambda>i. i) i \<noteq> Inr (e_intent_id en))"

lemma agree_seat:
  assumes ok: "agree records sh tbl" and row: "sh_rows (reconstruct_shadow records) t = Some r" "said_by (e_state en) (sr_state r)"
    and clear: "entry_cleared en"
  shows "agree records sh (tbl(t \<mapsto> en))"
  unfolding agree_def
proof
  fix x
  have "local_ok (tbl x) (sh_rows (reconstruct_shadow records) x) (sh_since (reconstruct_shadow records) x) (sh_rows sh x) (sh_since sh x)"
    using ok unfolding agree_def by blast
  then show "local_ok ((tbl(t \<mapsto> en)) x) (sh_rows (reconstruct_shadow records) x)
     (sh_since (reconstruct_shadow records) x) (sh_rows sh x) (sh_since sh x)"
    using row clear by (auto simp: local_ok_def)
qed

lemma wp_seat [wp_simps]: "wp (seat t en) Q E e = Q () (snd (seat t en e))"
  by (simp add: seat_def wp_simps) (simp add: modify_def)

lemma seat_sel [simp]:
  "en_journal (snd (seat t en e)) = en_journal e" "en_shadow (snd (seat t en e)) = en_shadow e"
  "en_resolved (snd (seat t en e)) = en_resolved e" "en_table (snd (seat t en e)) = (en_table e)(t \<mapsto> en)"
  by (simp_all add: seat_def modify_def Let_def)

lemma keeps_rehydrate:
  assumes ok: "engine_ok e" and p: "planned_in (en_records e) (ps_id s)"
  shows "keeps (plan_rehydrate cf iid s at) e"
proof -
  obtain r st where r: "sh_rows (reconstruct_shadow (en_records e)) (ps_id s) = Some r" "sr_state r = Some st"
    using p by (auto simp: planned_in_def)
  have clear: "row_cleared r" using ok r(1) agreeD(3) unfolding engine_ok_def by blast
  have seat: "agree (en_records e) (en_shadow e) ((en_table e)(ps_id s \<mapsto> rehydrated_entry iid s (Some r) since ticket))" for since ticket
    using ok r clear by (intro agree_seat) (auto simp: engine_ok_def rehydrated_entry_def entry_cleared_def row_cleared_def said_by_def)
  show ?thesis
    unfolding plan_rehydrate_def wp_simps
    by (intro wp_put_blob)
      (use ok seat r in \<open>auto simp: wp_simps sigma_state_of_reconstruct engine_ok_def split: sum.split\<close>)
qed

text \<open>The record of a plan makes the row a candidate; the entry follows, or stays aborted.\<close>

lemma agree_replanned:
  assumes ok: "agree records sh tbl" and tbl: "\<And>en. tbl t = Some en \<Longrightarrow> e_state en = Candidate \<or> is_aborted (e_state en)"
  shows "agree (records @ [PlannedRec t i l d fp ps inp w at]) (shadow_fold (PlannedRec t i l d fp ps inp w at) sh) tbl"
proof (rule agree_record [OF ok, of _ t])
  show "\<And>en row. tbl t = Some en \<Longrightarrow> row = row_or_new t (sh_rows (reconstruct_shadow records) t) \<Longrightarrow>
      entry_cleared en \<and> said_by (e_state en) (sr_state (row_arm t (PlannedRec t i l d fp ps inp w at) row))"
    using agreeD(1) [OF ok] tbl by (auto simp: said_by_def)
qed (auto simp: cleared_simps)

lemma keeps_new_plan:
  assumes ok: "engine_ok e" and free: "\<And>en. en_table e (ps_id s) = Some en \<Longrightarrow> e_state en = Candidate \<or> is_aborted (e_state en)"
  shows "keeps (then_do (engine_journal_append cf (PlannedRec (ps_id s) iid l d fp ps inp w at)) (\<lambda>_.
     then_do (remember_resolution iid (ps_id s)) (\<lambda>_. then_do (put_blob cf (ps_delta s)) (\<lambda>_.
     then_do (seat (ps_id s) (candidate_entry iid s at)) (\<lambda>_. ret x))))) e"
proof -
  let ?r = "PlannedRec (ps_id s) iid l d fp ps inp w at"
  let ?rs = "en_records e @ [?r]" and ?sh = "shadow_fold ?r (en_shadow e)"
  have ag: "agree ?rs ?sh (en_table e)" using ok free by (intro agree_replanned) (auto simp: engine_ok_def)
  have nm: "record_transformation ?r = Some (ps_id s)" by simp
  obtain r where r: "sh_rows (reconstruct_shadow ?rs) (ps_id s) = Some r" "sr_state r = Some Candidate"
    by (simp add: reconstruct_snoc fold_row [OF nm])
  have seated: "agree ?rs ?sh ((en_table e)(ps_id s \<mapsto> candidate_entry iid s at))"
    by (rule agree_seat [OF ag r(1)]) (simp_all add: r(2) candidate_entry_def cleared_simps said_by_def)
  define seen where "seen = (case en_resolved e iid of None \<Rightarrow> [] | Some ts \<Rightarrow> ts)"
  have old: "resolved_ok ?rs (en_resolved e)" using ok by (auto simp: engine_ok_def)
  have res: "resolved_ok ?rs ((en_resolved e)(iid \<mapsto> if ps_id s \<in> set seen then seen else seen @ [ps_id s]))"
    using r by (intro resolved_ok_remember [OF old _ seen_def]) (auto simp: planned_in_def)
  show ?thesis
    unfolding wp_simps remember_resolution_def Let_def
  proof (intro wp_append wp_put_blob, goal_cases)
    case (1 seq n j dir n' dir')
    then show ?case using seated res by (auto simp: engine_ok_def simp flip: seen_def split: if_splits)
  next
    case (2 seq n j dir err n' dir')
    then show ?case using ag res by (auto simp: engine_ok_def simp flip: seen_def split: if_splits)
  next
    case (3 err n dir)
    then show ?case using ok by simp
  qed
qed

lemma keeps_plan_shaped:
  assumes ok: "engine_ok e" and free: "\<And>en. en_table e (ps_id s) = Some en \<Longrightarrow> e_state en = Candidate"
  shows "keeps (then_do (get (\<lambda>e. (last_resolved e iid, en_table e (ps_id s) = None))) (\<lambda>(recorded, absent).
           then_do (get (\<lambda>e. replan_refused e recorded (ps_id s))) (\<lambda>refused.
           case refused of
             Some err \<Rightarrow> fail err
           | None \<Rightarrow>
               if recorded = Some (ps_id s) \<and> absent then plan_rehydrate cf iid s at
               else
                 then_do (engine_journal_append cf (PlannedRec (ps_id s) iid l d fp ps inp w at)) (\<lambda>_.
                 then_do (remember_resolution iid (ps_id s)) (\<lambda>_. then_do (put_blob cf (ps_delta s)) (\<lambda>_.
                 then_do (seat (ps_id s) (candidate_entry iid s at)) (\<lambda>_. ret (ps_id s)))))))) e"
proof -
  have "planned_in (en_records e) (ps_id s)" if "last_resolved e iid = Some (ps_id s)"
    using ok that by (auto simp: last_resolved_def engine_ok_def resolved_ok_def split: option.splits if_splits) (metis last_in_set)
  then show ?thesis
    by (intro keeps_still(4) ok) (auto intro!: keeps_still(4) ok keeps_rehydrate keeps_new_plan disjI1 free keeps_basic split: option.split)
qed

lemma keeps_plan:
  assumes ok: "engine_ok e" and clash: "\<not> plan_clash cf i at e"
  shows "keeps (plan cf i at) e"
proof -
  let ?cid = "cid_compute (ec_hash (cf_codec cf)) (ec_intent (cf_codec cf)) (\<lambda>i. i) i"
  obtain res e' where run: "plan_shape_of cf i at e = (res, e')" by (cases "plan_shape_of cf i at e")
  obtain n w where e': "e' = e\<lparr>en_tick := n, en_world := w\<rparr>"
    using quiet_plan_shape [of cf i at] run unfolding quiet_def by (metis snd_conv)
  have free: "e_state en = Candidate"
    if "res = Inr s" "en_table e (ps_id s) = Some en" "?cid = Inr iid"
      "find (\<lambda>(_, en). e_intent_id en = iid \<and> e_state en \<noteq> Candidate) (btree_items (en_table e)) = None" for s en iid
  proof -
    have "fst (planned_id cf i at e) = Inr (ps_id s)" using run that(1) by (simp add: planned_id_def then_do_def ret_def)
    with clash that have "e_intent_id en = iid" by (auto simp: plan_clash_def)
    moreover have "(ps_id s, en) \<in> set (btree_items (en_table e))" using that(2) by (auto simp: set_btree_items)
    ultimately show ?thesis using that(4) by (auto simp: find_None_iff)
  qed
  have shape: "wp (plan_shape_of cf i at) Q (\<lambda>_. engine_ok) e"
    if "\<And>s. res = Inr s \<Longrightarrow> Q s (e\<lparr>en_tick := n, en_world := w\<rparr>)" for Q
    using that ok unfolding wp_def run e' by (cases res) auto
  show ?thesis
    unfolding plan_def
    by (intro keeps_still(1,4) keeps_cases keeps_basic ok)
      (auto simp: wp_then ok intro!: shape keeps_plan_shaped free split: option.split)
qed

section \<open>Committing\<close>

text \<open>Inside a commit the entry stays at \<open>Committing\<close> until the commit ends one way or the other.\<close>

definition committing :: "transformation_id \<Rightarrow> 'w engine \<Rightarrow> bool" where
  "committing t e \<longleftrightarrow> engine_ok e \<and> (\<exists>en. en_table e t = Some en \<and> e_state en = Committing)"

abbreviation carries :: "transformation_id \<Rightarrow> ('w engine, 'a) action \<Rightarrow> 'w engine \<Rightarrow> bool" where
  "carries t m e \<equiv> wp m (\<lambda>_. committing t) (\<lambda>_. engine_ok) e"

lemma committing_ok: "committing t e \<Longrightarrow> engine_ok e"
  by (simp add: committing_def)

named_theorems carries_intros

lemma carries_then [carries_intros]:
  "carries t m e \<Longrightarrow> (\<And>a e'. committing t e' \<Longrightarrow> wp (f a) Q (\<lambda>_. engine_ok) e') \<Longrightarrow> wp (then_do m f) Q (\<lambda>_. engine_ok) e"
  unfolding wp_then by (erule wp_mono) auto

lemma wp_cases [carries_intros]:
  "(b \<Longrightarrow> wp m Q E e) \<Longrightarrow> (\<not> b \<Longrightarrow> wp m' Q E e) \<Longrightarrow> wp (if b then m else m') Q E e"
  "(x = None \<Longrightarrow> wp m Q E e) \<Longrightarrow> (\<And>a. x = Some a \<Longrightarrow> wp (f a) Q E e) \<Longrightarrow> wp (case x of None \<Rightarrow> m | Some a \<Rightarrow> f a) Q E e"
  "(\<And>z. y = Inl z \<Longrightarrow> wp (g z) Q E e) \<Longrightarrow> (\<And>a. y = Inr a \<Longrightarrow> wp (h a) Q E e) \<Longrightarrow> wp (case y of Inl z \<Rightarrow> g z | Inr a \<Rightarrow> h a) Q E e"
  "(\<And>a b. p = (a, b) \<Longrightarrow> wp (k a b) Q E e) \<Longrightarrow> wp (case p of (a, b) \<Rightarrow> k a b) Q E e"
  by (auto split: option.split sum.split prod.split)

lemma carries_quiet: "quiet m \<Longrightarrow> committing t e \<Longrightarrow> carries t m e"
  by (rule wp_quiet) (simp_all add: committing_def)

lemma carries_basic [carries_intros]:
  "committing t e \<Longrightarrow> carries t (ret a) e" "committing t e \<Longrightarrow> carries t (fail err) e" "committing t e \<Longrightarrow> carries t (lift r) e"
  "committing t e \<Longrightarrow> carries t (get f) e" "committing t e \<Longrightarrow> carries t (look cf g) e" "committing t e \<Longrightarrow> carries t (ask cf act q) e"
  "committing t e \<Longrightarrow> carries t (entry_at x) e" "committing t e \<Longrightarrow> carries t (apply_once cf ad d) e"
  "committing t e \<Longrightarrow> carries t (world_the_failed_apply_left cf ad locator fp0) e"
  "committing t e \<Longrightarrow> carries t (world_is_still_at cf ad locator fp0) e" "committing t e \<Longrightarrow> carries t (rollback_landed cf ad locator fp0) e"
  "committing t e \<Longrightarrow> carries t (observed_postcondition cf ad locator) e"
  by (erule carries_quiet [rotated], intro quiet_intros)+

lemma carries_blobs [carries_intros]:
  "committing t e \<Longrightarrow> carries t (put_blob cf d) e" "committing t e \<Longrightarrow> carries t (put_observation cf bs) e"
  by (auto simp: committing_def intro!: wp_put_blob wp_put_observation)

lemma carries_on_entry [carries_intros]:
  assumes "committing t e" "\<And>en. same_standing en (f en)" shows "carries t (on_entry x f) e"
  using assms(1) agree_entry [OF _ assms(2)] assms(2) by (auto simp: wp_simps committing_def engine_ok_def same_standing_def)

lemmas [carries_intros] = same_standing_updates

lemma carries_neutral [carries_intros]:
  "committing t e \<Longrightarrow> carries t (engine_journal_append cf (InverseEscrowedRec x ic pending reads att und at)) e"
  "committing t e \<Longrightarrow> carries t (engine_journal_append cf (ApplyStartedRec x c at)) e"
  "committing t e \<Longrightarrow> carries t (engine_journal_append cf (ApplyObservedRec x c at)) e"
  "committing t e \<Longrightarrow> carries t (engine_journal_append cf (InverseCompletedRec x ic at)) e"
  by (rule wp_append; auto simp: committing_def engine_ok_def agree_neutral)+

lemma carries_escrow_insert [carries_intros]: "committing t e \<Longrightarrow> carries t (escrow_insert x c st) e"
  by (simp add: escrow_insert_def wp_simps committing_def)

lemma carries_not_attempted [carries_intros]: "committing t e \<Longrightarrow> carries t (not_attempted x why) e"
  by (simp add: not_attempted_def wp_simps committing_def)

lemma carries_parts [carries_intros]:
  "committing t e \<Longrightarrow> carries t (escrow_inverse cf x d out at) e" "committing t e \<Longrightarrow> carries t (record_observation cf x bs at) e"
  "committing t e \<Longrightarrow> carries t (settle_pending_escrow cf x p ob at) e" "committing t e \<Longrightarrow> carries t (start_apply cf x c at) e"
  unfolding escrow_inverse_def record_observation_def settle_pending_escrow_def start_apply_def Let_def
  by (intro carries_intros; assumption)+

lemma carries_compensate [carries_intros]: "committing t e \<Longrightarrow> carries t (compensate cf ad x locator fp0 held at) e"
  unfolding compensate_def
  by (auto intro!: carries_intros split: option.split compensation_verdict.split)

text \<open>Operations on the ledger, the archive of receipts and the head leave the core of the state alone.\<close>

definition same_core :: "'w engine \<Rightarrow> 'w engine \<Rightarrow> bool" where
  "same_core e e' \<longleftrightarrow> en_journal e' = en_journal e \<and> en_shadow e' = en_shadow e \<and> en_table e' = en_table e \<and> en_resolved e' = en_resolved e"

definition aside :: "('w engine, 'a) action \<Rightarrow> bool" where
  "aside m \<longleftrightarrow> (\<forall>e. same_core e (snd (m e)))"

named_theorems aside_intros

lemma wp_aside:
  assumes "aside m" "\<And>a e'. same_core e e' \<Longrightarrow> Q a e'" "\<And>x e'. same_core e e' \<Longrightarrow> E x e'" shows "wp m Q E e"
  using assms unfolding aside_def wp_def by (auto split: prod.splits sum.splits) (metis snd_conv)+

lemma aside_then [aside_intros]: "aside m \<Longrightarrow> (\<And>a. aside (f a)) \<Longrightarrow> aside (then_do m f)"
  unfolding aside_def same_core_def then_do_def by (auto split: prod.splits sum.splits) (metis snd_conv)+

lemma aside_cases [aside_intros]:
  "aside m \<Longrightarrow> aside m' \<Longrightarrow> aside (if b then m else m')"
  "aside m \<Longrightarrow> (\<And>a. aside (f a)) \<Longrightarrow> aside (case x of None \<Rightarrow> m | Some a \<Rightarrow> f a)"
  by (auto split: option.split)

lemma aside_basic [aside_intros]:
  "aside (ret a)" "aside (fail x)" "aside (lift r)" "aside (get f)" "aside tick" "aside (append_entry cf t d at)" "aside (append_leaf cf t d at)" "aside (write_head cf head)"
  by (auto simp: aside_def same_core_def ret_def fail_def lift_def get_def tick_def append_entry_def append_leaf_run write_head_def split: prod.splits)

lemma aside_head [aside_intros]: "aside (modify (\<lambda>e. e\<lparr>en_head := h e\<rparr>))" "aside (modify (\<lambda>e. e\<lparr>en_committed := c e\<rparr>))"
  by (auto simp: aside_def same_core_def modify_def)

lemma aside_parts [aside_intros]:
  "aside (file_receipt cf t r)" "aside (record_head cf at key)" "aside (receipt_into_ledger cf t payload at key)"
  unfolding file_receipt_def record_head_def receipt_into_ledger_def Let_def by (intro aside_intros)+

lemma committing_core: "same_core e e' \<Longrightarrow> committing t e \<Longrightarrow> committing t e'" "same_core e e' \<Longrightarrow> engine_ok e \<Longrightarrow> engine_ok e'"
  by (simp_all add: same_core_def committing_def engine_ok_def)

lemma carries_aside: "aside m \<Longrightarrow> committing t e \<Longrightarrow> carries t m e"
  by (erule wp_aside) (auto intro: committing_core dest: committing_ok)

lemma carries_filing [carries_intros]:
  "committing t e \<Longrightarrow> carries t (file_receipt cf x r) e" "committing t e \<Longrightarrow> carries t (receipt_into_ledger cf x payload at key) e"
  by (auto intro!: carries_aside aside_intros)

lemma keeps_supersede:
  assumes "engine_ok e" shows "keeps (supersede_after_commit cf t_u at) e"
proof -
  have "keeps (then_do (engine_journal_append cf (SupersededRec t_o t_u at)) (\<lambda>_.
         then_do (modify (\<lambda>e. e\<lparr>en_supersedes := snd (supersede_record t_o t_u (en_supersedes e)),
             en_escrow := (en_escrow e)(t_o := map_option (\<lambda>row. row\<lparr>er_status := Consumed t_u\<rparr>) (en_escrow e t_o))\<rparr>)) (\<lambda>_.
         then_do (on_entry t_o (\<lambda>en. en\<lparr>e_superseded_by := Some t_u\<rparr>)) (\<lambda>_.
         then_do (set_state t_o Superseded at) (\<lambda>_. ret (Some t_o)))))) e"
    if un: "undone_by e c subj t_o" for t_o c subj
  proof -
    obtain en where "en_table e t_o = Some en" "e_state en = Committed"
      using un by (auto simp: undone_by_def split: option.splits)
    with assms show ?thesis
      unfolding set_state_def wp_simps
      by (intro wp_append) (auto simp: engine_ok_def same_standing_def passed_def intro!: agree_onward)
  qed
  then show ?thesis
    unfolding supersede_after_commit_def
    by (intro keeps_still(4) assms)
      (use assms in \<open>auto simp: find_Some_iff wp_ret intro!: keeps_basic split: option.split\<close>)
qed

text \<open>From the record of the commit on, the row is \<open>Committed\<close> and the entry follows.\<close>

lemma keeps_committed:
  assumes "committing t e"
  shows "keeps (then_do (engine_journal_append cf (CommittedRec t leaf at)) (\<lambda>_.
     then_do (modify (\<lambda>e. e\<lparr>en_committed := (en_committed e)(t \<mapsto> leaf)\<rparr>)) (\<lambda>_.
     then_do (record_head cf at key) (\<lambda>_.
     then_do (on_entry t (\<lambda>en. en\<lparr>e_applied_at := x, e_receipt := y\<rparr>)) (\<lambda>_.
     then_do (set_state t Committed at) (\<lambda>state.
     then_do (supersede_after_commit cf t at) (\<lambda>_. ret state))))))) e"
proof -
  let ?r = "CommittedRec t leaf at"
  let ?rs = "en_records e @ [?r]" and ?sh = "shadow_fold ?r (en_shadow e)"
  obtain en where en: "en_table e t = Some en" "e_state en = Committing" and ok: "engine_ok e"
    using assms by (auto simp: committing_def)
  have nm: "record_transformation ?r = Some t" by simp
  obtain r where r: "sh_rows (reconstruct_shadow ?rs) t = Some r" "sr_state r = Some Committed"
    by (simp add: reconstruct_snoc fold_row [OF nm])
  have seated: "agree ?rs ?sh ((en_table e)(t \<mapsto> en'))" if "same_standing (en\<lparr>e_state := Committed\<rparr>) en'" for en'
    by (rule agree_onward [where tbl = "en_table e" and t = t and en = en and st = Committed])
      (use ok en that in \<open>auto simp: engine_ok_def passed_def\<close>)
  have lagging: "agree ?rs ?sh (en_table e)"
  proof -
    have "agree ?rs ?sh ((en_table e)(t \<mapsto> en\<lparr>e_state := Committed\<rparr>))" by (rule seated) (simp add: same_standing_def)
    moreover have "entry_cleared en" using ok en(1) agreeD(1) unfolding engine_ok_def by blast
    ultimately have "agree ?rs ?sh ((en_table e)(t \<mapsto> en\<lparr>e_state := Committed\<rparr>, t \<mapsto> en))"
      using r en(2) by (intro agree_seat [where en = en and r = r]) (simp_all add: said_by_def)
    then show ?thesis using en(1) by (simp add: fun_upd_idem)
  qed
  show ?thesis
    unfolding wp_simps set_state_def
  proof (intro wp_append wp_aside [OF aside_parts(2)], goal_cases)
    case (1 seq n j dir a e')
    then have "engine_ok (e'\<lparr>en_table := (en_table e')(t := map_option (\<lambda>en. en\<lparr>e_state := Committed, e_since := at,
        e_ticket := if Committed \<noteq> Escalated then None else e_ticket en\<rparr>) (map_option (\<lambda>en. en\<lparr>e_applied_at := x, e_receipt := y\<rparr>) (en_table e' t)))\<rparr>)"
      using ok en seated [of "en\<lparr>e_applied_at := x, e_receipt := y, e_state := Committed, e_since := at, e_ticket := None\<rparr>"]
      by (auto simp: same_core_def engine_ok_def same_standing_def)
    then show ?case by (simp add: wp_mono [OF keeps_supersede])
  next
    case (2 seq n j dir a e')
    then show ?case using lagging ok by (auto simp: same_core_def engine_ok_def)
  next
    case (3 err n dir)
    then show ?case using ok by simp
  qed
qed

lemma keeps_finish: "committing t e \<Longrightarrow> keeps (finish_commit cf t v canonical out final_back applied at key) e"
  unfolding finish_commit_def by (intro keeps_committed carries_intros)

lemma keeps_check_promise:
  assumes "committing t e" "\<And>e'. committing t e' \<Longrightarrow> keeps go_on e'" shows "keeps (check_promise cf t applied at go_on) e"
proof -
  have "carries t (modify (\<lambda>e. e\<lparr>en_prediction := (en_prediction e)(t \<mapsto> p)\<rparr>)) e'" if "committing t e'" for e' p
    using that by (simp add: wp_simps committing_def)
  then show ?thesis
    unfolding check_promise_def Let_def
    by (intro carries_intros assms keeps_abort committing_ok) (assumption | rule assms)+
qed

lemma keeps_apply: "committing t e \<Longrightarrow> keeps (apply_and_finish cf ad t en v canonical out held at key) e"
  unfolding apply_and_finish_def Let_def
  by (intro carries_then [where t = t] wp_cases keeps_abort keeps_check_promise keeps_finish)
    (auto intro!: carries_intros keeps_abort keeps_check_promise keeps_finish dest: committing_ok split: option.split bool.split)

lemma keeps_guarded:
  assumes "committing t e" "\<And>e'. committing t e' \<Longrightarrow> keeps go_on e'" shows "keeps (guarded cf ad t en at go_on) e"
  unfolding guarded_def
  by (intro carries_then [where t = t] carries_intros assms)
    (auto intro!: keeps_abort assms dest: committing_ok split: sum.split bool.split)

lemma keeps_commit_canonicalized:
  assumes ok: "engine_ok e" and en: "en_table e t = Some en" "e_state en = Canonicalized"
  shows "keeps (commit_canonicalized cf t en canonical v ad at key) e"
proof -
  let ?p = "derive_provenance cf en (e_pre en)"
  have inner: "keeps (guarded cf ad t en at (
       then_do (ask cf ''invert'' (ad_invert ad (e_delta en) (e_pre en))) (\<lambda>out.
       then_do (escrow_inverse cf t (e_delta en) out at) (\<lambda>held.
       then_do (get (\<lambda>e. body_readable cf e held)) (\<lambda>readable.
       if \<not> readable then fail EngineMalformed
       else guarded cf ad t en at (apply_and_finish cf ad t en v canonical out held at key)))))) e'" if "committing t e'" for e'
    by (intro keeps_guarded [OF that] carries_then [where t = t] wp_cases)
      (auto intro!: carries_intros keeps_guarded keeps_apply keeps_basic dest: committing_ok)
  let ?en = "en\<lparr>e_state := Committing, e_since := at, e_ticket := None\<rparr>"
  let ?rs = "en_records e @ [CommittingStartedRec t at]"
  have one: "agree ?rs (en_shadow e) ((en_table e)(t \<mapsto> ?en))"
    using ok en by (intro agree_committing [where tbl = "en_table e" and t = t and en = en and en' = ?en])
      (auto simp: engine_ok_def same_standing_def)
  have two: "agree (?rs @ [ProvenanceDerivedRec t ?p at]) (en_shadow e) ((en_table e)(t \<mapsto> ?en))"
    by (rule agree_provenance [OF one, of _ ?en]) simp
  have "agree (?rs @ [ProvenanceDerivedRec t ?p at]) (en_shadow e) ((en_table e)(t \<mapsto> ?en, t \<mapsto> ?en\<lparr>e_provenance := Some ?p\<rparr>))"
    by (rule agree_put [OF two, of _ ?en]) (simp_all add: same_standing_def)
  then have three: "agree (?rs @ [ProvenanceDerivedRec t ?p at]) (en_shadow e) ((en_table e)(t \<mapsto> ?en\<lparr>e_provenance := Some ?p\<rparr>))" by simp
  have res: "resolved_ok ?rs (en_resolved e)" "resolved_ok (?rs @ [ProvenanceDerivedRec t ?p at]) (en_resolved e)"
    using ok unfolding engine_ok_def by blast+
  show ?thesis
    unfolding commit_canonicalized_def set_state_def wp_simps
  proof (intro wp_direct inner, goal_cases)
    case (1 seq n j dir seq' n' j' dir')
    then show ?case using three res en by (simp add: committing_def engine_ok_def)
  next
    case (2 seq n j dir err n' dir')
    then show ?case using one res en by (simp add: engine_ok_def)
  next
    case (3 err n dir)
    then show ?case using ok by simp
  qed
qed

lemma keeps_commit: "engine_ok e \<Longrightarrow> keeps (commit cf t at key) e"
  unfolding commit_def
  by (intro keeps_then [OF keeps_expire] keeps_still keeps_cases keeps_basic keeps_commit_canonicalized) auto

end
