(* ===== verification/Engine_Frames.thy ===== *)
theory Engine_Frames
  imports Engine_Safety
begin

text \<open>
  What the operations leave alone. A part of the state that no journal record, table or store of the
  engine is kept in is called a bystander (locale \<open>bystander\<close>); every operation leaves it as it was, up
  to the two steps of a commit that reach out of the engine: the application of a delta and the
  append of a leaf. The locale is interpreted on the ledger, on the world as long as nobody else
  changes it, and on what an engine was told when it was built.
\<close>

definition leaves :: "('s \<Rightarrow> 'b) \<Rightarrow> ('s, 'a) action \<Rightarrow> bool" where
  "leaves part m \<longleftrightarrow> (\<forall>e. part (snd (m e)) = part e)"

named_theorems leaves_intros

lemma leavesD: "leaves part m \<Longrightarrow> part (snd (m e)) = part e"
  by (simp add: leaves_def)

lemma wp_leaves:
  assumes "leaves part m" "\<And>a e'. part e' = part e \<Longrightarrow> Q a e'" "\<And>x e'. part e' = part e \<Longrightarrow> E x e'" shows "wp m Q E e"
  using assms unfolding leaves_def wp_def by (auto split: prod.splits sum.splits) (metis snd_conv)+

lemma leaves_then [leaves_intros]: "leaves part m \<Longrightarrow> (\<And>a. leaves part (f a)) \<Longrightarrow> leaves part (then_do m f)"
  unfolding leaves_def then_do_def by (auto split: prod.splits sum.splits) (metis snd_conv)+

lemma leaves_cases [leaves_intros]:
  "(b \<Longrightarrow> leaves part m) \<Longrightarrow> (\<not> b \<Longrightarrow> leaves part m') \<Longrightarrow> leaves part (if b then m else m')"
  "leaves part m \<Longrightarrow> (\<And>a. leaves part (f a)) \<Longrightarrow> leaves part (case x of None \<Rightarrow> m | Some a \<Rightarrow> f a)"
  "(\<And>x. leaves part (g x)) \<Longrightarrow> (\<And>a. leaves part (h a)) \<Longrightarrow> leaves part (case y of Inl x \<Rightarrow> g x | Inr a \<Rightarrow> h a)"
  "(\<And>a b. leaves part (k a b)) \<Longrightarrow> leaves part (case z of (a, b) \<Rightarrow> k a b)"
  "leaves part m \<Longrightarrow> leaves part m' \<Longrightarrow> leaves part (case c of True \<Rightarrow> m | False \<Rightarrow> m')"
  by (auto split: option.split sum.split prod.split bool.split)

lemma leaves_try [leaves_intros]:
  "leaves part m \<Longrightarrow> (\<And>a. leaves part (f a)) \<Longrightarrow> (\<And>x. leaves part (g x)) \<Longrightarrow> leaves part (try_do m f g)"
  unfolding leaves_def try_do_def by (auto split: prod.splits sum.splits) (metis snd_conv)+

lemma leaves_basic [leaves_intros]:
  "leaves part (ret a)" "leaves part (fail x)" "leaves part (lift r)" "leaves part (get f)"
  by (simp_all add: leaves_def ret_def fail_def lift_def get_def)

lemma leaves_modify: "(\<And>e. part (f e) = part e) \<Longrightarrow> leaves part (modify f)"
  by (simp add: leaves_def modify_def)

lemma leaves_for_each [leaves_intros]: "(\<And>x. leaves part (f x)) \<Longrightarrow> leaves part (for_each f xs)"
  by (induction xs) (auto intro!: leaves_intros)

locale bystander =
  fixes cf :: "'w engine_config" and part :: "'w engine \<Rightarrow> 'b"
  assumes world: "part (e\<lparr>en_world := cf_drift cf (en_tick e) (en_world e), en_tick := n\<rparr>) = part e"
    and clock: "part (e\<lparr>en_tick := n\<rparr>) = part e"
    and journal: "part (e\<lparr>en_journal := j\<rparr>) = part e" "part (e\<lparr>en_journal_dir := jd\<rparr>) = part e" "part (e\<lparr>en_shadow := sh\<rparr>) = part e"
    and stores: "part (e\<lparr>en_blobs := b\<rparr>) = part e" "part (e\<lparr>en_observations := b\<rparr>) = part e" "part (e\<lparr>en_escrow := es\<rparr>) = part e"
    and heads: "part (e\<lparr>en_head := h\<rparr>) = part e" "part (e\<lparr>en_head_dir := hd'\<rparr>) = part e" "part (e\<lparr>en_verdicts := v\<rparr>) = part e"
    and tables: "part (e\<lparr>en_table := tb\<rparr>) = part e" "part (e\<lparr>en_drafted := dr\<rparr>) = part e" "part (e\<lparr>en_resolved := rs\<rparr>) = part e"
      "part (e\<lparr>en_by_subject := bs\<rparr>) = part e" "part (e\<lparr>en_supersedes := su\<rparr>) = part e"
      "part (e\<lparr>en_not_attempted := na\<rparr>) = part e" "part (e\<lparr>en_prediction := pr\<rparr>) = part e" "part (e\<lparr>en_partial := pt\<rparr>) = part e"
begin

lemmas frame_simps = world clock journal stores heads tables

lemma leaves_look [leaves_intros]: "leaves part (look cf f)"
  by (simp add: leaves_def look_def Let_def world)

lemma leaves_steps [leaves_intros]:
  "leaves part tick" "leaves part (adapter_of cf k)" "leaves part (entry_of t)" "leaves part (entry_at t)" "leaves part (on_entry t f)"
  "leaves part (ask cf act g)"
  by (simp_all add: leaves_def tick_def adapter_of_def entry_of_def entry_at_def on_entry_def lift_def modify_def frame_simps)
    (metis ask_def leavesD leaves_then leaves_look leaves_basic(3))

lemma leaves_appends [leaves_intros]: "leaves part (journal_append_direct cf r)" "leaves part (engine_journal_append cf r)"
proof -
  show d: "leaves part (journal_append_direct cf r)"
    by (simp add: leaves_def journal_append_direct_def frame_simps split: prod.split)
  show "leaves part (engine_journal_append cf r)"
    unfolding engine_journal_append_def by (intro leaves_intros d leaves_modify) (simp add: frame_simps)
qed

lemma leaves_puts [leaves_intros]: "leaves part (put_blob cf d)" "leaves part (put_observation cf bs)" "leaves part (write_head cf head)"
  by (simp_all add: leaves_def put_blob_def put_observation_def write_head_def frame_simps split: prod.split)

lemma leaves_entries [leaves_intros]:
  "leaves part (set_state t st at)" "leaves part (abort_entry cf t why rb at)" "leaves part (seat t en)"
  "leaves part (remember_resolution i t)" "leaves part (escrow_insert t c status)" "leaves part (not_attempted t because)"
  unfolding set_state_def abort_entry_def seat_def remember_resolution_def escrow_insert_def not_attempted_def
  by (intro leaves_intros leaves_modify; simp add: frame_simps Let_def)+

lemma leaves_expire [leaves_intros]: "leaves part (expire_if_due cf t now)" "leaves part (reap cf now)"
  unfolding reap_def expire_if_due_def by (intro leaves_intros)+

section \<open>Up to the commit\<close>

lemma leaves_submit: "leaves part (submit cf i seed at)"
  unfolding submit_def by (intro leaves_intros leaves_modify) (simp add: frame_simps)

lemma leaves_shape [leaves_intros]: "leaves part (plan_shape_of cf i at)"
  unfolding plan_shape_of_def by (intro leaves_intros)

lemma leaves_plan: "leaves part (plan cf i at)"
  unfolding plan_def plan_rehydrate_def by (intro leaves_intros)

lemma leaves_issue [leaves_intros]: "leaves part (issue_verdict_receipt cf t v at key)"
  unfolding issue_verdict_receipt_def by (intro leaves_intros leaves_modify) (simp add: frame_simps)

lemma leaves_collector [leaves_intros]: "leaves part (unreachable_collector cf t at key)"
  unfolding unreachable_collector_def by (cases "cf_posture cf") (auto intro!: leaves_intros)

lemma leaves_first_conflict [leaves_intros]: "leaves part (first_conflict cf ad mode t d xs)"
  by (induction xs) (auto intro!: leaves_intros split: commutation.split)

lemma leaves_conflicting [leaves_intros]: "leaves part (conflicting_predecessor cf t mode)"
  unfolding conflicting_predecessor_def by (intro leaves_intros)

lemma leaves_gate [leaves_intros]: "leaves part (take_verdict cf t v at key)" "leaves part (ask_the_gate cf t at key)"
proof -
  show v: "leaves part (take_verdict cf t v at key)" for v unfolding take_verdict_def by (intro leaves_intros)
  show "leaves part (ask_the_gate cf t at key)" unfolding ask_the_gate_def by (intro leaves_intros v)
qed

lemma leaves_verify: "leaves part (verify cf t at key mode)"
  unfolding verify_def Let_def by (intro leaves_intros)

lemma leaves_escalation: "leaves part (escalation cf t ruling at key)"
  unfolding escalation_def by (intro leaves_intros)

lemma leaves_cancel: "leaves part (cancel cf t at)"
  unfolding cancel_def by (intro leaves_intros) (auto intro!: leaves_intros split: lifecycle.split)

lemma leaves_canonicalize: "leaves part (canonicalize cf t at mode)"
  unfolding canonicalize_def Let_def by (intro leaves_intros)

section \<open>The steps of a commit that stay inside\<close>

lemma leaves_escrow [leaves_intros]: "leaves part (escrow_inverse cf t d out at)" "leaves part (settle_pending_escrow cf t partial observation at)"
  unfolding escrow_inverse_def settle_pending_escrow_def Let_def by (intro leaves_intros)+

lemma leaves_observation [leaves_intros]: "leaves part (record_observation cf t bs at)" "leaves part (start_apply cf t c at)"
  unfolding record_observation_def start_apply_def Let_def by (intro leaves_intros)+

lemma leaves_reads [leaves_intros]:
  "leaves part (read_world cf ad locator)" "leaves part (world_the_failed_apply_left cf ad locator fp0)"
  "leaves part (world_is_still_at cf ad locator fp0)" "leaves part (rollback_landed cf ad locator fp0)"
  "leaves part (observed_postcondition cf ad locator)"
  unfolding world_the_failed_apply_left_def world_is_still_at_def rollback_landed_def observed_postcondition_def read_world_def
  by (intro leaves_intros)+

lemma leaves_filing [leaves_intros]: "leaves part (file_receipt cf t r)" "leaves part (record_head cf at key)"
  unfolding file_receipt_def record_head_def Let_def
  by (intro leaves_intros leaves_modify; simp add: frame_simps)+

lemma leaves_accept: "leaves part (accept_rollback cf against at key)"
  unfolding accept_rollback_def by (intro leaves_intros leaves_modify) (simp add: frame_simps)

lemma leaves_fetch [leaves_intros]: "leaves part (fetch_blob cf c)" "leaves part (fetch_observation cf c)"
  by (simp_all add: leaves_def fetch_blob_def fetch_observation_def frame_simps)

lemma leaves_archive [leaves_intros]: "leaves part (filed_receipt cf t)" "leaves part (filed_key_id cf t)"
  unfolding filed_receipt_def filed_key_id_def by (intro leaves_intros)+

lemma leaves_if_ok [leaves_intros]: "leaves part m \<Longrightarrow> leaves part (if_ok m)"
  unfolding if_ok_def by (intro leaves_intros)

lemma leaves_settle [leaves_intros]: "leaves part (settle_for_resume cf t row escrow at)"
  unfolding settle_for_resume_def by (intro leaves_intros)

section \<open>Undo\<close>

lemma leaves_undo_parts [leaves_intros]:
  "leaves part (undo_intent cf t)" "leaves part (draft_intent cf iid seed at)" "leaves part (plan_undo cf iid s c inp w at)"
  "leaves part (undo_go_on cf t iid s c inp witness at)"
  unfolding undo_intent_def draft_intent_def plan_undo_def undo_go_on_def
  by (intro leaves_intros leaves_modify; (simp add: frame_simps; fail)?)+ (auto intro!: leaves_intros split: option.split lifecycle.split)

lemma leaves_undo: "leaves part (undo cf t witness seed at)"
  unfolding undo_def undo_committed_def by (intro leaves_intros)

lemma leaves_rehydrate: "leaves part (rehydrate_committed cf t i)"
  unfolding rehydrate_committed_def rehydrate_row_def
  by (intro leaves_intros leaves_modify) (auto simp: frame_simps split: option.split)

lemma leaves_reissue: "leaves part (reissue_receipt cf t at key)"
  unfolding reissue_receipt_def reissue_row_def reissue_payload_def by (auto intro!: leaves_intros split: option.split)

section \<open>After a commit\<close>

lemma leaves_supersede [leaves_intros]: "leaves part (supersede_after_commit cf t at)"
  unfolding supersede_after_commit_def by (intro leaves_intros leaves_modify) (simp add: frame_simps)

end

section \<open>Bystanders\<close>

definition ledger_part :: "'w engine \<Rightarrow> ledger_store \<times> ledger_dir" where
  "ledger_part e = (en_ledger e, en_ledger_dir e)"

interpretation ledger: bystander cf ledger_part for cf
  by unfold_locales (simp_all add: ledger_part_def)

text \<open>The ledger together with the table of committed leaves.\<close>

definition record_part :: "'w engine \<Rightarrow> ledger_store \<times> ledger_dir \<times> (transformation_id \<Rightarrow> nat option)" where
  "record_part e = (en_ledger e, en_ledger_dir e, en_committed e)"

interpretation recorded: bystander cf record_part for cf
  by unfold_locales (simp_all add: record_part_def)

text \<open>The world, when the others leave it alone.\<close>

definition alone :: "'w engine_config \<Rightarrow> bool" where
  "alone cf \<longleftrightarrow> (\<forall>n w. cf_drift cf n w = w)"

definition world_part :: "'w engine_config \<Rightarrow> 'w engine \<Rightarrow> 'w option" where
  "world_part cf e = (if alone cf then Some (en_world e) else None)"

interpretation world: bystander cf "world_part cf" for cf
  by unfold_locales (simp_all add: world_part_def alone_def)

end
