(* ===== verification/Publication.thy ===== *)
theory Publication
  imports Commit
begin

text \<open>
  The publication of the verdict counters: \<open>Engine::verdict_checkpoint\<close> of
  \<open>src/crates/gx-engine/src/pipeline.rs\<close>, with the signature of a checkpoint of verdicts from
  \<open>src/crates/gx-witness/src/dsse.rs\<close>.
\<close>

definition verdict_checkpoint_signing_message ::
  "(verdict_checkpoint_core \<Rightarrow> string + bytes) \<Rightarrow> verdict_checkpoint \<Rightarrow> witness_error + bytes" where
  "verdict_checkpoint_signing_message tv ck =
     and_then (map_err WitnessLog (verdict_checkpoint_signing_bytes tv ck)) (\<lambda>core. Inr (pae VERDICT_CHECKPOINT_PAYLOAD_TYPE core))"

definition sign_verdict_checkpoint ::
  "(verdict_checkpoint_core \<Rightarrow> string + bytes) \<Rightarrow> verdict_checkpoint \<Rightarrow> key_pair \<Rightarrow> witness_error + verdict_checkpoint" where
  "sign_verdict_checkpoint tv ck k =
     and_then (verdict_checkpoint_signing_message tv ck) (\<lambda>message.
       Inr (ck\<lparr>vc_signature := \<lparr>sig_keyid = kp_key_id k, sig_bytes = kp_sign k message\<rparr>\<rparr>))"

definition verify_verdict_checkpoint ::
  "(verdict_checkpoint_core \<Rightarrow> string + bytes) \<Rightarrow> verdict_checkpoint \<Rightarrow> verifying_key \<Rightarrow> witness_error + unit" where
  "verify_verdict_checkpoint tv ck k =
     (if sig_keyid (vc_signature ck) \<noteq> vk_key_id k then Inl (SignatureInvalid (vk_key_id k))
      else and_then (verdict_checkpoint_signing_message tv ck) (\<lambda>message. verify_raw k message (vc_signature ck)))"

text \<open>The first counter, in the order of the code, of which more is published than was counted.\<close>

definition published_ahead :: "verdict_tally \<Rightarrow> verdict_tally \<Rightarrow> (string \<times> u64 \<times> u64) option" where
  "published_ahead published verdicts =
     List.find (\<lambda>(_, p, c). p > c)
       [(''deny'', vt_deny published, vt_deny verdicts), (''admit'', vt_admit published, vt_admit verdicts),
        (''escalate'', vt_escalate published, vt_escalate verdicts),
        (''unverdicted'', vt_unverdicted published, vt_unverdicted verdicts)]"

definition verdict_window :: "verdict_tally \<Rightarrow> verdict_tally \<Rightarrow> verdict_tally" where
  "verdict_window published verdicts =
     \<lparr>vt_deny = saturating_sub (vt_deny verdicts) (vt_deny published),
      vt_admit = saturating_sub (vt_admit verdicts) (vt_admit published),
      vt_escalate = saturating_sub (vt_escalate verdicts) (vt_escalate published),
      vt_unverdicted = saturating_sub (vt_unverdicted verdicts) (vt_unverdicted published)\<rparr>"

definition append_checkpoint :: "'w engine_config \<Rightarrow> verdict_checkpoint \<Rightarrow> ('w engine, nat) action" where
  "append_checkpoint cf ck e =
     (case verdict_append (ec_verdict_record (cf_codec cf)) (sys_verdicts (cf_system cf) (en_tick e)) ck (en_verdict_dir e) (en_verdict_log e) of
        (res, dir, store) \<Rightarrow>
          (map_err (\<lambda>_. LedgerRefused ''append the verdict checkpoint'') res,
           e\<lparr>en_tick := Suc (en_tick e), en_verdict_dir := dir, en_verdict_log := store\<rparr>))"

definition publish_verdicts ::
  "'w engine_config \<Rightarrow> string \<Rightarrow> timestamp \<Rightarrow> key_pair \<Rightarrow> ('w engine, verdict_checkpoint) action" where
  "publish_verdicts cf origin at key =
     then_do (get id) (\<lambda>e.
     if published_ahead (en_published e) (en_verdicts e) \<noteq> None then fail EngineMalformed
     else
       then_do (lift (map_err (\<lambda>_. EnginePanic) (unsigned_verdict_checkpoint (ec_hash (cf_codec cf)) (ls_tree (en_ledger e)) origin
           (tally_total (en_published e), tally_total (en_verdicts e)) (verdict_window (en_published e) (en_verdicts e)) at))) (\<lambda>unsigned.
       then_do (lift (map_err (\<lambda>_. WitnessRefused ''sign the verdict checkpoint'')
           (sign_verdict_checkpoint (ec_verdict_core (cf_codec cf)) unsigned key))) (\<lambda>ck.
       then_do (append_checkpoint cf ck) (\<lambda>_.
       then_do (modify (\<lambda>e. e\<lparr>en_published := en_verdicts e\<rparr>)) (\<lambda>_.
       ret ck)))))"

text \<open>A checkpoint that was signed verifies under the key that belongs to it: the signature covers none of itself.\<close>

lemma signed_verdicts_verify:
  assumes "sign_verdict_checkpoint tv ck k = Inr ck'" "vk_key_id vk = kp_key_id k" "\<And>m. vk_check vk m (kp_sign k m)"
  shows "verify_verdict_checkpoint tv ck' vk = Inr ()"
  using assms
  by (auto simp: sign_verdict_checkpoint_def verify_verdict_checkpoint_def verdict_checkpoint_signing_message_def verdict_checkpoint_signing_bytes_def
      and_then_eq_Inr and_then_def verify_raw_def split: sum.splits)

end
