(* ===== verification/Engine_Steps.thy ===== *)
theory Engine_Steps
  imports Engine_Frames Publication
begin

text \<open>
  Undo, recovery and the signing of a receipt again keep the invariant of the engine too; the steps
  of an engine and the states it can reach; the deadlines of entries and the shape of receipts.
\<close>

section \<open>Undo\<close>

lemma keeps_fetch [keeps_intros]: "engine_ok e \<Longrightarrow> keeps (fetch_blob cf c) e" "engine_ok e \<Longrightarrow> keeps (fetch_observation cf c) e"
  by (auto simp: wp_def fetch_blob_def fetch_observation_def split: sum.split)

lemma keeps_draft [keeps_intros]: "engine_ok e \<Longrightarrow> keeps (draft_intent cf iid seed at) e"
  unfolding draft_intent_def wp_simps
  by (auto simp: wp_simps engine_ok_def intro!: wp_append agree_draft)

lemma keeps_undo_intent [keeps_intros]: "engine_ok e \<Longrightarrow> keeps (undo_intent cf t) e"
  unfolding undo_intent_def by (intro keeps_intros)

lemma keeps_plan_undo:
  assumes "engine_ok e" "\<And>en. en_table e (ps_id s) = Some en \<Longrightarrow> e_state en = Candidate \<or> is_aborted (e_state en)"
  shows "keeps (plan_undo cf iid s c inp w at) e"
  unfolding plan_undo_def by (rule keeps_new_plan [OF assms])

lemma keeps_undo_go_on: "engine_ok e \<Longrightarrow> keeps (undo_go_on cf original iid s c inp witness at) e"
  unfolding undo_go_on_def
  by (rule keeps_still(4), assumption)
    (auto simp: undo_state_def intro!: keeps_plan_undo keeps_basic split: option.splits lifecycle.splits if_splits)

lemma keeps_undo: "engine_ok e \<Longrightarrow> keeps (undo cf original witness seed at) e"
  unfolding undo_def undo_committed_def by (intro keeps_intros keeps_undo_go_on)

text \<open>A committed transformation is seated as the journal describes it.\<close>

lemma keeps_seat_committed:
  assumes ok: "engine_ok e" and row: "sh_rows (reconstruct_shadow (en_records e)) t = Some row" "sr_state row = Some st"
  shows "keeps (seat t (rehydrated_committed iid tr delta fp0 pre prov row)) e"
proof -
  have "row_cleared row" using ok row(1) agreeD(3) unfolding engine_ok_def by blast
  with ok row have "agree (en_records e) (en_shadow e) ((en_table e)(t \<mapsto> rehydrated_committed iid tr delta fp0 pre prov row))"
    by (intro agree_seat) (auto simp: engine_ok_def rehydrated_committed_def entry_cleared_def row_cleared_def said_by_def)
  with ok show ?thesis by (simp add: wp_simps engine_ok_def)
qed

text \<open>Looking around leaves the journal as it is, so what it said before still holds after.\<close>

definition standing :: "journal_record list \<Rightarrow> 'w engine \<Rightarrow> bool" where
  "standing rs e \<longleftrightarrow> engine_ok e \<and> en_records e = rs"

lemma standing_then:
  "quiet m \<Longrightarrow> standing rs e \<Longrightarrow> (\<And>a e'. standing rs e' \<Longrightarrow> keeps (f a) e') \<Longrightarrow> keeps (then_do m f) e"
  unfolding wp_then by (rule wp_quiet) (simp_all add: standing_def)

lemma quiet_clock:
  assumes "\<And>e. \<exists>n. snd (m e) = e\<lparr>en_tick := n\<rparr>" shows "quiet m"
proof -
  have "e\<lparr>en_tick := n\<rparr> = e\<lparr>en_tick := n, en_world := en_world e\<rparr>" for n and e :: "'a engine" by simp
  with assms show ?thesis unfolding quiet_def by metis
qed

lemma quiet_fetch [quiet_intros]: "quiet (fetch_blob cf c)" "quiet (fetch_observation cf c)" "quiet tick"
  by (rule quiet_clock, unfold fetch_blob_def fetch_observation_def tick_def snd_conv, blast)+

lemma keeps_rehydrate_row:
  assumes "standing rs e" "sh_rows (reconstruct_shadow rs) t = Some row" "sr_state row = Some st"
  shows "keeps (rehydrate_row cf t i row) e"
proof -
  have seat: "keeps (then_do (seat t (rehydrated_committed iid tr delta fp0 pre prov row)) (\<lambda>_.
       then_do (modify (\<lambda>e. case find (\<lambda>r. er_transformation r = t) (sg_escrow (reconstruct (en_records e))) of
                  None \<Rightarrow> e | Some r \<Rightarrow> e\<lparr>en_escrow := (en_escrow e)(t \<mapsto> r)\<rparr>)) (\<lambda>_.
       then_do (modify (\<lambda>e. case sr_superseded_by row of
                  None \<Rightarrow> e | Some by \<Rightarrow> e\<lparr>en_supersedes := snd (supersede_record t by (en_supersedes e))\<rparr>)) (\<lambda>_.
       ret True)))) e'" if "standing rs e'" for iid tr delta fp0 pre prov e'
    using that assms(2,3)
    by (intro keeps_then [OF keeps_seat_committed [where st = st]] keeps_then [OF keeps_modify] keeps_basic)
      (auto simp: standing_def split: option.split)
  show ?thesis
    unfolding rehydrate_row_def
    by (intro standing_then [where rs = rs] quiet_intros assms(1) keeps_cases seat keeps_basic)
      (auto intro!: standing_then [where rs = rs] quiet_intros keeps_cases seat keeps_basic simp: standing_def)
qed

lemma keeps_rehydrate_committed: "engine_ok e \<Longrightarrow> keeps (rehydrate_committed cf t i) e"
  unfolding rehydrate_committed_def
  by (rule keeps_still(4), assumption)
    (auto simp: sigma_state_of_reconstruct standing_def intro!: keeps_basic keeps_rehydrate_row [where rs = "en_records e"] split: option.split)

section \<open>Recovery\<close>

text \<open>What the journal says of one transformation, and when the ledger has only grown.\<close>

definition row_state :: "'w engine \<Rightarrow> transformation_id \<Rightarrow> lifecycle option" where
  "row_state e t = Option.bind (sh_rows (reconstruct_shadow (en_records e)) t) sr_state"

definition ledger_good :: "'w engine_config \<Rightarrow> 'w engine \<Rightarrow> bool" where
  "ledger_good cf e \<longleftrightarrow> store_ok (ec_hash (cf_codec cf)) (ec_leaf (cf_codec cf)) (ec_entry (cf_codec cf)) (en_ledger_dir e) (en_ledger e)"

definition ledger_grows :: "'w engine_config \<Rightarrow> 'w engine \<Rightarrow> 'w engine \<Rightarrow> bool" where
  "ledger_grows cf e e' \<longleftrightarrow> (ledger_good cf e \<longrightarrow>
     ledger_good cf e' \<and> (\<exists>xs. log_entries (ls_tree (en_ledger e')) = log_entries (ls_tree (en_ledger e)) @ xs))"

text \<open>From \<open>e0\<close> to \<open>e\<close> only \<open>t\<close> has been dealt with.\<close>

definition touches :: "transformation_id \<Rightarrow> 'w engine \<Rightarrow> 'w engine \<Rightarrow> bool" where
  "touches t e0 e \<longleftrightarrow> (\<forall>u. u \<noteq> t \<longrightarrow> row_state e u = row_state e0 u \<and> en_committed e u = en_committed e0 u)"

text \<open>A resumption that is still going on, and one that an error has stopped.\<close>

definition underway :: "'w engine_config \<Rightarrow> transformation_id \<Rightarrow> 'w engine \<Rightarrow> 'w engine \<Rightarrow> bool" where
  "underway cf t e0 e \<longleftrightarrow> engine_ok e \<and> touches t e0 e \<and> ledger_grows cf e0 e \<and> row_state e t = Some Committing"

definition stopped :: "transformation_id \<Rightarrow> 'w engine \<Rightarrow> 'w engine \<Rightarrow> bool" where
  "stopped t e0 e \<longleftrightarrow> engine_ok e \<and> touches t e0 e"

lemma underwayD: "underway cf t e0 e \<Longrightarrow> engine_ok e" "underway cf t e0 e \<Longrightarrow> stopped t e0 e"
  by (simp_all add: underway_def stopped_def)

lemma row_state_other:
  "en_records e' = en_records e @ [r] \<Longrightarrow> record_transformation r = Some t \<Longrightarrow> u \<noteq> t \<Longrightarrow> row_state e' u = row_state e u"
  by (simp add: row_state_def reconstruct_snoc fold_row_other)

lemma row_state_new:
  "en_records e' = en_records e @ [r] \<Longrightarrow> record_transformation r = Some t \<Longrightarrow>
     row_state e' t = sr_state (row_arm t r (row_or_new t (sh_rows (reconstruct_shadow (en_records e)) t)))"
  by (simp add: row_state_def reconstruct_snoc fold_row(1))

lemma ledger_grows_trans: "ledger_grows cf e e' \<Longrightarrow> ledger_grows cf e' e'' \<Longrightarrow> ledger_grows cf e e''"
  unfolding ledger_grows_def by (metis append.assoc)

lemma ledger_grows_same [simp]: "en_ledger e' = en_ledger e \<Longrightarrow> en_ledger_dir e' = en_ledger_dir e \<Longrightarrow> ledger_grows cf e e'"
  by (simp add: ledger_grows_def ledger_good_def)

lemma touches_trans: "touches t e e' \<Longrightarrow> touches t e' e'' \<Longrightarrow> touches t e e''"
  by (simp add: touches_def)

lemma touches_same: "en_committed e' = en_committed e \<Longrightarrow> en_records e' = en_records e \<Longrightarrow> touches t e e'"
  by (simp add: touches_def row_state_def)

lemma touches_record:
  "en_records e' = en_records e @ [r] \<Longrightarrow> record_transformation r = Some t \<Longrightarrow> (\<And>u. u \<noteq> t \<Longrightarrow> en_committed e' u = en_committed e u)
     \<Longrightarrow> touches t e e'"
  by (simp add: touches_def row_state_other)

lemma record_partD: "record_part e' = record_part e \<Longrightarrow> en_ledger e' = en_ledger e \<and> en_ledger_dir e' = en_ledger_dir e \<and> en_committed e' = en_committed e"
  by (simp add: record_part_def)

text \<open>Every step of a resumption that does not end it keeps it underway.\<close>

abbreviation proceeds :: "'w engine_config \<Rightarrow> transformation_id \<Rightarrow> 'w engine \<Rightarrow> ('w engine, 'a) action \<Rightarrow> 'w engine \<Rightarrow> bool" where
  "proceeds cf t e0 m e \<equiv> wp m (\<lambda>_. underway cf t e0) (\<lambda>_. stopped t e0) e"

named_theorems proceeds_intros

lemma underway_same:
  assumes "underway cf t e0 e" "engine_ok e'" "record_part e' = record_part e" "en_records e' = en_records e"
  shows "underway cf t e0 e'"
  using assms(1,2,4) record_partD [OF assms(3)] touches_trans [OF _ touches_same, of t e0 e e']
    ledger_grows_trans [OF _ ledger_grows_same, of cf e0 e e'] by (simp add: underway_def row_state_def)

lemma underway_neutral:
  assumes "underway cf t e0 e" "engine_ok e'" "record_part e' = record_part e" "en_records e' = en_records e @ [r]"
    "record_transformation r = Some t" "\<And>row. sr_state (row_arm t r row) = sr_state row"
  shows "underway cf t e0 e'"
proof -
  have "row_state e' t = Some Committing"
    using assms(1) row_state_new [OF assms(4,5)] assms(6) by (auto simp: underway_def row_state_def row_or_new_def split: option.splits bind_splits)
  with assms(1,2) record_partD [OF assms(3)] touches_trans [OF _ touches_record [OF assms(4,5)], of e0]
    ledger_grows_trans [OF _ ledger_grows_same, of cf e0 e e'] show ?thesis by (simp add: underway_def)
qed

lemma underway_quiet:
  "quiet m \<Longrightarrow> underway cf t e0 e \<Longrightarrow> (\<And>a e'. underway cf t e0 e' \<Longrightarrow> Q a e') \<Longrightarrow> (\<And>x e'. underway cf t e0 e' \<Longrightarrow> E x e') \<Longrightarrow> wp m Q E e"
  by (erule wp_quiet) (simp_all add: underway_same [of cf t e0 e] underwayD record_part_def)

lemma proceeds_then [proceeds_intros]:
  "proceeds cf t e0 m e \<Longrightarrow> (\<And>a e'. underway cf t e0 e' \<Longrightarrow> wp (f a) Q (\<lambda>_. stopped t e0) e') \<Longrightarrow>
     wp (then_do m f) Q (\<lambda>_. stopped t e0) e"
  unfolding wp_then by (erule wp_mono) auto

lemma proceeds_basic [proceeds_intros]:
  "underway cf t e0 e \<Longrightarrow> proceeds cf t e0 (ret a) e" "underway cf t e0 e \<Longrightarrow> proceeds cf t e0 (fail x) e"
  "underway cf t e0 e \<Longrightarrow> proceeds cf t e0 (lift r) e" "underway cf t e0 e \<Longrightarrow> proceeds cf t e0 (get f) e"
  "underway cf t e0 e \<Longrightarrow> proceeds cf t e0 (fetch_blob cf' c) e" "underway cf t e0 e \<Longrightarrow> proceeds cf t e0 (fetch_observation cf' c) e"
  "underway cf t e0 e \<Longrightarrow> proceeds cf t e0 (adapter_of cf' k) e" "underway cf t e0 e \<Longrightarrow> proceeds cf t e0 (apply_once cf' ad d) e"
  by (erule underway_quiet [rotated]; auto intro!: quiet_intros dest: underwayD)+

lemma proceeds_if_ok [proceeds_intros]:
  "quiet m \<Longrightarrow> underway cf t e0 e \<Longrightarrow> proceeds cf t e0 (if_ok m) e"
  unfolding if_ok_def wp_try by (erule underway_quiet) (auto simp: wp_simps)

lemma proceeds_aside: "aside m \<Longrightarrow> leaves record_part m \<Longrightarrow> underway cf t e0 e \<Longrightarrow> proceeds cf t e0 m e"
proof -
  assume m: "aside m" "leaves record_part m" and u: "underway cf t e0 e"
  then have "underway cf t e0 (snd (m e))"
    using committing_core(2) underwayD(1) [OF u] unfolding aside_def leaves_def
    by (intro underway_same [OF u]) (auto simp: same_core_def)
  then show ?thesis by (auto simp: wp_def dest: underwayD split: prod.splits sum.splits)
qed

lemma proceeds_modify [proceeds_intros]:
  "underway cf t e0 e \<Longrightarrow> (\<And>e. record_part (f e) = record_part e \<and> en_records (f e) = en_records e \<and> (engine_ok e \<longrightarrow> engine_ok (f e))) \<Longrightarrow>
     proceeds cf t e0 (modify f) e"
  using underway_same [of cf t e0 e "f e"] underwayD(1) [of cf t e0 e] by (simp add: wp_simps)

lemma engine_ok_partial [simp]: "engine_ok (e\<lparr>en_partial := p\<rparr>) = engine_ok e"
  by (simp add: engine_ok_def)

lemma proceeds_record:
  assumes u: "underway cf t e0 e" and r: "r = ApplyStartedRec t c at \<or> r = InverseCompletedRec t ic at"
  shows "proceeds cf t e0 (engine_journal_append cf' r) e"
proof (rule wp_append)
  fix n and j :: engine_journal and dir assume j: "ej_records j = en_records e @ [r]"
  have "engine_ok (e\<lparr>en_tick := n, en_journal := j, en_journal_dir := dir, en_shadow := shadow_fold r (en_shadow e)\<rparr>)"
    using underwayD(1) [OF u] agree_neutral [of "en_records e" "en_shadow e" "en_table e" r t] r j by (auto simp: engine_ok_def)
  then show "underway cf t e0 (e\<lparr>en_tick := n, en_journal := j, en_journal_dir := dir, en_shadow := shadow_fold r (en_shadow e)\<rparr>)"
    by (rule underway_neutral [OF u, where r = r]) (use j r in \<open>auto simp: record_part_def\<close>)
next
  show "\<And>n dir. stopped t e0 (e\<lparr>en_tick := n, en_journal_dir := dir\<rparr>)"
    using u by (auto simp: stopped_def underway_def touches_def row_state_def)
qed

lemma proceeds_neutral [proceeds_intros]:
  "underway cf t e0 e \<Longrightarrow> proceeds cf t e0 (engine_journal_append cf' (ApplyStartedRec t c at)) e"
  "underway cf t e0 e \<Longrightarrow> proceeds cf t e0 (engine_journal_append cf' (InverseCompletedRec t ic at)) e"
  by (blast intro: proceeds_record)+

lemma proceeds_stores [proceeds_intros]:
  assumes u: "underway cf t e0 e"
  shows "proceeds cf t e0 (put_blob cf' d) e" "proceeds cf t e0 (escrow_insert x c st) e" "proceeds cf t e0 (not_attempted x why) e"
    "(\<And>en. same_standing en (f en)) \<Longrightarrow> proceeds cf t e0 (on_entry x f) e"
proof -
  show "proceeds cf t e0 (put_blob cf' d) e"
    by (rule wp_put_blob) (use underwayD(1) [OF u] in \<open>auto intro!: underwayD(2) underway_same [OF u] simp: record_part_def\<close>)
  show "proceeds cf t e0 (escrow_insert x c st) e" "proceeds cf t e0 (not_attempted x why) e"
    unfolding escrow_insert_def not_attempted_def
    by (rule proceeds_modify [OF u], simp add: record_part_def)
      (rule proceeds_then [OF proceeds_modify [OF u]], auto simp: record_part_def wp_simps)
  show "(\<And>en. same_standing en (f en)) \<Longrightarrow> proceeds cf t e0 (on_entry x f) e"
    unfolding on_entry_def by (intro proceeds_intros u) (auto simp: record_part_def engine_ok_def intro!: agree_entry)
qed

lemma proceeds_settle [proceeds_intros]: "underway cf t e0 e \<Longrightarrow> proceeds cf t e0 (settle_pending_escrow cf' t p ob at) e"
  unfolding settle_pending_escrow_def Let_def by (intro proceeds_intros wp_cases same_standing_updates; assumption)

lemma proceeds_settle_for_resume [proceeds_intros]: "underway cf t e0 e \<Longrightarrow> proceeds cf t e0 (settle_for_resume cf' t row escrow at) e"
  unfolding settle_for_resume_def by (intro proceeds_intros quiet_intros wp_cases; assumption)

lemma proceeds_archive [proceeds_intros]:
  "underway cf t e0 e \<Longrightarrow> proceeds cf t e0 (filed_receipt cf t) e" "underway cf t e0 e \<Longrightarrow> proceeds cf t e0 (filed_key_id cf t) e"
  "underway cf t e0 e \<Longrightarrow> proceeds cf t e0 (file_receipt cf t r) e"
  by (auto simp: filed_receipt_def filed_key_id_def intro!: proceeds_aside aside_intros recorded.leaves_archive recorded.leaves_filing leaves_intros recorded.leaves_steps)

lemma proceeds_receipt [proceeds_intros]: "underway cf t e0 e \<Longrightarrow> proceeds cf t e0 (resume_receipt cf t filed payload at key) e"
  unfolding resume_receipt_def by (assumption | rule proceeds_intros wp_cases)+

text \<open>The leaf of \<open>t\<close>: where the ledger that \<open>e0\<close> began with has it in \<open>e\<close>.\<close>

definition leafed :: "'w engine_config \<Rightarrow> transformation_id \<Rightarrow> nat \<Rightarrow> 'w engine \<Rightarrow> 'w engine \<Rightarrow> bool" where
  "leafed cf t n e0 e \<longleftrightarrow>
     (ledger_good cf e0 \<longrightarrow>
        n < length (log_entries (ls_tree (en_ledger e))) \<and> entry_transformation (log_entries (ls_tree (en_ledger e)) ! n) = t)"

lemma leafed_grows: "leafed cf t n e0 e \<Longrightarrow> ledger_grows cf e0 e \<Longrightarrow> ledger_grows cf e e' \<Longrightarrow> leafed cf t n e0 e'"
  unfolding leafed_def ledger_grows_def by (fastforce simp: nth_append)

lemma held_leafed: "held_entry e t = Some x \<Longrightarrow> leafed cf t (entry_index x) e e"
  unfolding held_entry_def leafed_def ledger_good_def find_Some_iff using store_okD(3) unfolding log_ok_def by metis

lemma proceeds_leaf:
  assumes u: "underway cf t e0 e"
  shows "wp (append_entry cf t d at) (\<lambda>out e'. underway cf t e0 e' \<and> leafed cf t (entry_index (outcome_entry out)) e0 e') (\<lambda>_. stopped t e0) e"
proof -
  let ?H = "ec_hash (cf_codec cf)" and ?L = "ec_leaf (cf_codec cf)" and ?E = "ec_entry (cf_codec cf)"
  obtain res dir store where a: "ledger_append ?H ?L ?E (sys_ledger (cf_system cf) (en_tick e)) t d at (en_ledger_dir e) (en_ledger e) = (res, dir, store)"
    by (metis prod_cases3)
  let ?e = "e\<lparr>en_tick := Suc (en_tick e), en_ledger := store, en_ledger_dir := dir\<rparr>"
  have st: "stopped t e0 ?e" using u by (auto simp: stopped_def underway_def touches_def row_state_def)
  have "underway cf t e0 ?e \<and> leafed cf t (entry_index (outcome_entry out)) e0 ?e" if res: "res = Inr out" for out
  proof -
    have "store_ok ?H ?L ?E dir store \<and> (\<exists>xs. log_entries (ls_tree store) = log_entries (ls_tree (en_ledger e)) @ xs)
       \<and> entry_index (outcome_entry out) < length (log_entries (ls_tree store))
       \<and> entry_transformation (log_entries (ls_tree store) ! entry_index (outcome_entry out)) = t" if g: "ledger_good cf e"
    proof -
      note D = store_okD [OF g [unfolded ledger_good_def]]
      from append_effect [OF g [unfolded ledger_good_def] a] consider
          (same) "dir = en_ledger_dir e" "store = en_ledger e" "\<forall>x. res \<noteq> Inr (append_outcome.Appended x)"
        | (new) x where "stage ?H ?L (ls_tree (en_ledger e)) t d at = Inr x" "res = Inr (append_outcome.Appended x)" "store_ok ?H ?L ?E dir store"
            "log_entries (ls_tree store) = log_entries (ls_tree (en_ledger e)) @ [x]"
        using res by (auto simp: is_ok_def)
      then show ?thesis
      proof cases
        case same
        with a res D(2,3,4) g show ?thesis
          by (auto simp: ledger_append_def log_entry_def keys_ok_def log_ok_def ledger_good_def split: option.splits if_splits sum.splits prod.splits)
      next
        case new
        with res have "out = append_outcome.Appended x" by simp
        with new stage_Inr [OF new(1)] show ?thesis by (simp add: log_len_def)
      qed
    qed
    moreover from this have "ledger_grows cf e ?e" by (simp add: ledger_grows_def ledger_good_def)
    moreover have "ledger_good cf e" if "ledger_good cf e0" using u that by (simp add: underway_def ledger_grows_def)
    ultimately show ?thesis
      using u st ledger_grows_trans [of cf e0 e ?e] by (auto simp: underway_def stopped_def leafed_def row_state_def)
  qed
  with st a show ?thesis by (auto simp: wp_def append_entry_def map_err_def split: sum.splits)
qed

section \<open>The end of a resumption\<close>

text \<open>
  What a report promises: the row is closed as it says, or it was not resumed, is told why and is still
  open. A commit has its leaf in the ledger.
\<close>

definition accounted :: "'w engine_config \<Rightarrow> 'w engine \<Rightarrow> recovered \<Rightarrow> 'w engine \<Rightarrow> bool" where
  "accounted cf e0 r e \<longleftrightarrow>
     rv_path r = NotResumed \<and> rv_state r = Committing \<and> rv_refusal r \<noteq> None \<and> row_state e (rv_transformation r) = Some Committing
     \<or> rv_path r \<notin> {NotResumed, Terminal} \<and> is_aborted (rv_state r) \<and> row_state e (rv_transformation r) = Some (rv_state r)
     \<or> rv_path r \<notin> {NotResumed, Terminal} \<and> rv_state r = Committed \<and> row_state e (rv_transformation r) = Some Committed
        \<and> (\<exists>n. rv_ledger_seq r = Some n \<and> en_committed e (rv_transformation r) = Some n \<and> leafed cf (rv_transformation r) n e0 e)"

definition settled :: "'w engine_config \<Rightarrow> transformation_id \<Rightarrow> 'w engine \<Rightarrow> recovered \<Rightarrow> 'w engine \<Rightarrow> bool" where
  "settled cf t e0 r e \<longleftrightarrow> stopped t e0 e \<and> ledger_grows cf e0 e \<and> rv_transformation r = t \<and> accounted cf e0 r e"

abbreviation resumes :: "'w engine_config \<Rightarrow> transformation_id \<Rightarrow> 'w engine \<Rightarrow> ('w engine, recovered) action \<Rightarrow> 'w engine \<Rightarrow> bool" where
  "resumes cf t e0 m e \<equiv> wp m (settled cf t e0) (\<lambda>_. stopped t e0) e"

definition closed :: "'w engine_config \<Rightarrow> transformation_id \<Rightarrow> nat \<Rightarrow> 'w engine \<Rightarrow> 'w engine \<Rightarrow> bool" where
  "closed cf t n e0 e \<longleftrightarrow> stopped t e0 e \<and> ledger_grows cf e0 e \<and> row_state e t = Some Committed \<and> en_committed e t = Some n
     \<and> leafed cf t n e0 e"

lemma closed_same:
  assumes "closed cf t n e0 e" "engine_ok e'" "record_part e' = record_part e" "en_records e' = en_records e"
  shows "closed cf t n e0 e'"
  using assms(1,2,4) record_partD [OF assms(3)] touches_trans [OF _ touches_same, of t e0 e e']
    ledger_grows_trans [OF _ ledger_grows_same, of cf e0 e e'] by (simp add: closed_def stopped_def row_state_def leafed_def)

lemma closed_aside:
  assumes "aside m" "leaves record_part m" "closed cf t n e0 e" "\<And>a e'. closed cf t n e0 e' \<Longrightarrow> Q a e'" "\<And>x e'. closed cf t n e0 e' \<Longrightarrow> E x e'"
  shows "wp m Q E e"
proof -
  have "closed cf t n e0 (snd (m e))"
    using assms(1,2,3) committing_core(2) unfolding aside_def leaves_def
    by (intro closed_same [OF assms(3)]) (auto simp: same_core_def closed_def stopped_def)
  with assms(4,5) show ?thesis by (auto simp: wp_def split: prod.splits sum.splits)
qed

text \<open>A row that is \<open>Committing\<close> may be recorded as committed, whether it has an entry or not.\<close>

lemma agree_closing:
  assumes ok: "agree records sh tbl" and row: "sh_rows (reconstruct_shadow records) t = Some row" "sr_state row = Some Committing"
  shows "agree (records @ [CommittedRec t n at]) (shadow_fold (CommittedRec t n at) sh) tbl"
proof (rule agree_record [OF ok, where t = t])
  show "\<And>row. sh_rows (reconstruct_shadow records) t = Some row \<and> row_cleared row
      \<or> sh_rows (reconstruct_shadow records) t = None \<and> row = row_about t \<Longrightarrow> row_cleared (row_arm t (CommittedRec t n at) row)"
    using row by (auto simp: cleared_simps)
  show "\<And>en row'. tbl t = Some en \<Longrightarrow> row' = row_or_new t (sh_rows (reconstruct_shadow records) t) \<Longrightarrow>
      entry_cleared en \<and> said_by (e_state en) (sr_state (row_arm t (CommittedRec t n at) row'))"
    using agreeD(1,2) [OF ok] row by (fastforce simp: said_by_def)
qed auto

lemma resumes_close_row:
  assumes u: "underway cf t e0 e" and l: "leafed cf t n e0 e"
  shows "wp (close_row cf t n rb at key) (\<lambda>_. closed cf t n e0) (\<lambda>_. stopped t e0) e"
proof -
  obtain row where row: "sh_rows (reconstruct_shadow (en_records e)) t = Some row" "sr_state row = Some Committing"
    using u by (auto simp: underway_def row_state_def split: bind_splits)
  have filed: "wp (then_do (record_head cf at key) (\<lambda>_. modify (\<lambda>e. e\<lparr>en_partial := f e\<rparr>))) (\<lambda>_. closed cf t n e0) (\<lambda>_. stopped t e0) e'"
    if "closed cf t n e0 e'" for e' f
    unfolding wp_then
    by (rule closed_aside [OF aside_parts(2) recorded.leaves_filing(2) that])
      (auto simp: wp_simps closed_def stopped_def touches_def row_state_def leafed_def ledger_grows_def ledger_good_def)
  have shut: "closed cf t n e0 e'"
    if "en_records e' = en_records e @ [CommittedRec t n at]" "en_shadow e' = shadow_fold (CommittedRec t n at) (en_shadow e)"
      "en_table e' = en_table e" "en_resolved e' = en_resolved e" "ledger_part e' = ledger_part e" "en_committed e' = (en_committed e)(t \<mapsto> n)" for e'
  proof -
    have "engine_ok e'"
      using underwayD(1) [OF u] agree_closing [OF _ row, of "en_shadow e" "en_table e" n at] that(1-4) by (auto simp: engine_ok_def)
    moreover have "touches t e0 e'"
      using u touches_trans [OF _ touches_record [OF that(1)], of t e0] that(6) by (auto simp: underway_def)
    moreover have "ledger_grows cf e0 e'" "leafed cf t n e0 e'"
      using u l that(5) by (auto simp: underway_def ledger_grows_def ledger_good_def leafed_def ledger_part_def)
    ultimately show ?thesis using row_state_new [OF that(1)] that(6) by (simp add: closed_def stopped_def)
  qed
  show ?thesis
    unfolding close_row_def
  proof (subst wp_then, rule wp_append, goal_cases)
    case (1 seq k j dir)
    show ?case by (subst wp_then, subst wp_modify, rule filed, rule shut) (simp_all add: 1 ledger_part_def)
  next
    case (2 err k dir)
    show ?case using u by (auto simp: stopped_def underway_def touches_def row_state_def)
  qed
qed

lemma closed_set_state:
  assumes c: "closed cf t n e0 e" and Q: "\<And>e'. closed cf t n e0 e' \<Longrightarrow> Q Committed e'" shows "wp (set_state t Committed at) Q E e"
proof -
  let ?f = "\<lambda>en. en\<lparr>e_state := Committed, e_since := at, e_ticket := None\<rparr>"
  have ok: "engine_ok e" and row: "row_state e t = Some Committed" using c by (simp_all add: closed_def stopped_def)
  have "engine_ok (e\<lparr>en_table := (en_table e)(t := map_option ?f (en_table e t))\<rparr>)"
  proof (cases "en_table e t")
    case None
    then show ?thesis using ok by (simp add: engine_ok_def fun_upd_idem)
  next
    case (Some en)
    obtain r where "sh_rows (reconstruct_shadow (en_records e)) t = Some r" "said_by (e_state en) (sr_state r)" "sr_state r = Some Committed"
      "entry_cleared en"
      using ok row Some agreeD(1,2) [of "en_records e" "en_shadow e" "en_table e" t en]
      unfolding engine_ok_def row_state_def by (auto split: bind_splits)
    then have "entry_cleared (?f en)" "said_by (e_state (?f en)) (sr_state r)" by (auto simp: said_by_def cleared_simps)
    with ok Some \<open>sh_rows (reconstruct_shadow (en_records e)) t = Some r\<close> show ?thesis by (simp add: engine_ok_def agree_seat)
  qed
  then have "closed cf t n e0 (e\<lparr>en_table := (en_table e)(t := map_option ?f (en_table e t))\<rparr>)"
    by (rule closed_same [OF c]) (simp_all add: record_part_def)
  from Q [OF this] show ?thesis by (simp add: set_state_def wp_simps)
qed

lemma resumes_close_held:
  assumes "underway cf t e0 e" "leafed cf t (entry_index x) e0 e" "path \<notin> {NotResumed, Terminal}"
  shows "resumes cf t e0 (close_held cf t x path matched at key) e"
  unfolding close_held_def wp_then
  by (rule wp_mono [OF resumes_close_row [OF assms(1,2)]])
    (use assms(3) in \<open>auto intro!: closed_set_state simp: wp_simps settled_def accounted_def closed_def report_def\<close>)

lemma resumes_aborted:
  assumes u: "underway cf t e0 e" and Q: "\<And>e'. stopped t e0 e' \<and> ledger_grows cf e0 e' \<and> row_state e' t = Some (Aborted why) \<Longrightarrow> Q (Aborted why) e'"
  shows "wp (abort_entry cf t why rb at) Q (\<lambda>_. stopped t e0) e"
proof -
  have "stopped t e0 e' \<and> ledger_grows cf e0 e' \<and> row_state e' t = Some (Aborted why)"
    if "en_records e' = en_records e @ [AbortedRec t why rb at]" "en_shadow e' = shadow_fold (AbortedRec t why rb at) (en_shadow e)"
      "\<And>x. x \<noteq> t \<Longrightarrow> en_table e' x = en_table e x" "\<And>en. en_table e' t = Some en \<Longrightarrow> e_state en = Aborted why"
      "en_resolved e' = en_resolved e" "record_part e' = record_part e" for e'
    using u that touches_trans [OF _ touches_record [OF that(1)], of t e0] record_partD [OF that(6)] row_state_new [OF that(1)]
      agree_abort [of "en_records e" "en_shadow e" "en_table e" t "en_table e'" why rb at]
    by (auto simp: underway_def stopped_def engine_ok_def ledger_grows_def ledger_good_def)
  note shut = this
  show ?thesis
    unfolding abort_entry_def set_state_def wp_simps
  proof (rule wp_append, goal_cases)
    case (1 seq k j dir)
    show ?case by (rule Q, rule shut) (auto simp: 1 record_part_def)
  next
    case (2 err k dir)
    show ?case using u by (auto simp: stopped_def underway_def touches_def row_state_def)
  qed
qed

lemma resumes_refuse: "underway cf t e0 e \<Longrightarrow> resumes cf t e0 (refuse_row cf t at) e"
  unfolding refuse_row_def wp_then
  by (rule resumes_aborted) (auto simp: wp_simps settled_def accounted_def report_def)

lemma resumes_not: "underway cf t e0 e \<Longrightarrow> rv_transformation r = t \<Longrightarrow> rv_path r = NotResumed \<Longrightarrow> rv_state r = Committing
    \<Longrightarrow> rv_refusal r \<noteq> None \<Longrightarrow> resumes cf t e0 (ret r) e"
  by (auto simp: wp_simps settled_def accounted_def underway_def stopped_def)

lemma leafed_underway: "leafed cf t n e0 e0 \<Longrightarrow> underway cf t e0 e \<Longrightarrow> leafed cf t n e0 e"
  by (erule leafed_grows) (simp_all add: underway_def)

lemma resumes_leaf:
  assumes u: "underway cf t e0 e" and held: "\<And>x. held = Some x \<Longrightarrow> leafed cf t (entry_index x) e0 e0"
    and refused: "\<And>r e'. underway cf t e0 e' \<Longrightarrow> rv_transformation r = t \<Longrightarrow> rv_path r = NotResumed \<Longrightarrow> rv_state r = Committing
        \<Longrightarrow> rv_refusal r \<noteq> None \<Longrightarrow> Q (Inl r) e'"
    and placed: "\<And>n how m path e'. underway cf t e0 e' \<Longrightarrow> leafed cf t n e0 e' \<Longrightarrow> path \<notin> {NotResumed, Terminal} \<Longrightarrow> Q (Inr (n, how, m, path)) e'"
  shows "wp (resume_leaf cf t held filed d at key) Q (\<lambda>_. stopped t e0) e"
proof (cases held)
  case None
  then show ?thesis
    unfolding resume_leaf_def None option.case wp_then
    by (intro wp_mono [OF proceeds_leaf [OF u]]) (auto simp: wp_simps intro!: placed)
next
  case (Some x)
  show ?thesis
    unfolding resume_leaf_def Some option.case wp_simps
    using u held [OF Some] by (auto intro!: refused placed leafed_underway simp: report_def)
qed

lemma wp_leaving: "leaves part m \<Longrightarrow> wp m Q E e \<Longrightarrow> wp m (\<lambda>a e'. Q a e' \<and> part e' = part e) E e"
  unfolding leaves_def wp_def by (cases "m e") (auto split: sum.splits dest: spec [where x = e])

lemma resumes_finish:
  assumes u: "underway cf t e0 e" and held: "\<And>x. held = Some x \<Longrightarrow> leafed cf t (entry_index x) e0 e0"
  shows "resumes cf t e0 (resume_finish cf t row escrow held filed v canonical fp0 back post at key) e"
proof -
  have ending: "resumes cf t e0
        (then_do (get (\<lambda>e. prove_inclusion (ec_hash (cf_codec cf)) (ls_tree (en_ledger e)) n)) (\<lambda>made.
         then_do (lift (map_err (\<lambda>_. LedgerRefused ''prove inclusion'') made)) (\<lambda>ipf.
         then_do (resume_receipt cf t filed (f ipf) at key) (\<lambda>r.
         then_do (close_row cf t n True at key) (\<lambda>_.
         ret ((report t path Committed)\<lparr>rv_ledger_seq := Some n, rv_appended := how, rv_payload_matched := m, rv_receipt := r\<rparr>)))))) e1"
    if u1: "underway cf t e0 e1" and l: "leafed cf t n e0 e1" and p: "path \<notin> {NotResumed, Terminal}" for n path how m f e1
  proof -
    have "wp (resume_receipt cf t filed payload at key) (\<lambda>_ e'. underway cf t e0 e' \<and> record_part e' = record_part e1) (\<lambda>_. stopped t e0) e1"
      for payload
      unfolding resume_receipt_def
      by (intro wp_leaving proceeds_receipt [OF u1, unfolded resume_receipt_def] leaves_intros recorded.leaves_filing)
    then have "wp (resume_receipt cf t filed payload at key) (\<lambda>_ e'. underway cf t e0 e' \<and> leafed cf t n e0 e') (\<lambda>_. stopped t e0) e1"
      for payload by (rule wp_mono) (use l in \<open>auto simp: leafed_def dest: record_partD\<close>)
    note filing = wp_mono [OF this]
    show ?thesis
      unfolding wp_simps
      by (cases "prove_inclusion (ec_hash (cf_codec cf)) (ls_tree (en_ledger e1)) n")
        (use p in \<open>auto simp: map_err_def underwayD [OF u1] settled_def accounted_def closed_def report_def
          intro!: filing wp_mono [OF resumes_close_row]\<close>)
  qed
  have leafing: "resumes cf t e0
      (then_do (resume_leaf cf t held filed d at key) (\<lambda>placed.
       case placed of
         Inl refused \<Rightarrow> ret refused
       | Inr (n, how, m, path) \<Rightarrow>
           then_do (get (\<lambda>e. prove_inclusion (ec_hash (cf_codec cf)) (ls_tree (en_ledger e)) n)) (\<lambda>made.
           then_do (lift (map_err (\<lambda>_. LedgerRefused ''prove inclusion'') made)) (\<lambda>ipf.
           then_do (resume_receipt cf t filed (f ipf) at key) (\<lambda>r.
           then_do (close_row cf t n True at key) (\<lambda>_.
           ret ((report t path Committed)\<lparr>rv_ledger_seq := Some n, rv_appended := how, rv_payload_matched := m, rv_receipt := r\<rparr>)))))))
      e1" if "underway cf t e0 e1" for d f e1
    by (subst wp_then, rule resumes_leaf [OF that held]) (auto intro!: resumes_not ending)
  show ?thesis
    unfolding resume_finish_def
    by (rule proceeds_then [OF proceeds_basic(4) [OF u]]) (assumption | rule leafing proceeds_then [where cf = cf] proceeds_basic wp_cases)+
qed

lemma resumes_reapply:
  assumes u: "underway cf t e0 e" and go_on: "\<And>post e'. underway cf t e0 e' \<Longrightarrow> resumes cf t e0 (go_on post) e'"
  shows "resumes cf t e0 (reapply cf ad t delta c at go_on) e"
proof -
  have failed: "resumes cf t e0
      (then_do (not_attempted t RecoveredWithoutRebuilding) (\<lambda>rb.
       then_do (abort_entry cf t abort_reason.ApplyFailed (Some rb) at) (\<lambda>state. ret (report t ApplyWasAnnounced state)))) e'"
    if "underway cf t e0 e'" for e'
    by (rule proceeds_then [OF proceeds_stores(3) [OF that]])
      (auto simp: wp_simps settled_def accounted_def report_def intro!: resumes_aborted)
  have applied: "resumes cf t e0 (then_do (modify (\<lambda>e. e\<lparr>en_partial := g e\<rparr>)) (\<lambda>_. go_on post)) e'" if "underway cf t e0 e'" for e' g post
    by (rule proceeds_then [OF proceeds_modify [OF that] go_on]) (simp_all add: record_part_def)
  show ?thesis
    unfolding reapply_def
    by (rule proceeds_then [OF proceeds_neutral(1) [OF u]]) (assumption | rule failed applied proceeds_then [where cf = cf] proceeds_basic wp_cases)+
qed

lemma resumes_world:
  assumes u: "underway cf t e0 e" and held: "\<And>x. held = Some x \<Longrightarrow> leafed cf t (entry_index x) e0 e0"
    and go_on: "\<And>post e'. underway cf t e0 e' \<Longrightarrow> resumes cf t e0 (go_on post) e'"
  shows "resumes cf t e0 (resume_world cf ad t held delta c at key go_on) e"
proof (cases held)
  case None
  then show ?thesis unfolding resume_world_def by (simp add: resumes_reapply [OF u go_on])
next
  case (Some x)
  have read: "resumes cf t e0 (try_do (observed_postcondition cf ad locator) go_on (\<lambda>_. close_held cf t x ClosedFromLedgerLeaf None at key)) e'"
    if "underway cf t e0 e'" for locator e'
    unfolding wp_try
    by (rule underway_quiet [OF _ that]) (auto intro!: quiet_intros go_on resumes_close_held leafed_underway held [OF Some])
  show ?thesis
    unfolding resume_world_def Some option.case wp_simps
    using u by (auto intro!: resumes_refuse read split: option.split)
qed

lemma resumes_rebuild:
  assumes u: "underway cf t e0 e" and held: "\<And>x. held = Some x \<Longrightarrow> leafed cf t (entry_index x) e0 e0"
  shows "resumes cf t e0 (resume_rebuild cf t row escrow held at key) e"
  using u unfolding resume_rebuild_def
  by (auto split: option.split intro!: resumes_refuse)
    (assumption | rule held resumes_world resumes_finish proceeds_then [where cf = cf] proceeds_basic proceeds_settle_for_resume proceeds_archive)+

lemma resumes_resume:
  assumes u: "underway cf t e e" and row: "sr_transformation row = t" "sr_state row = Some Committing"
  shows "resumes cf t e (resume cf row escrow at key) e"
proof -
  have filed: "resumes cf t e (then_do (filed_receipt cf t) (\<lambda>found.
       if (case found of None \<Rightarrow> False | Some r \<Rightarrow> filed_agrees cf t x r) then close_held cf t x ClosedFromFiledReceipt (Some True) at key
       else resume_rebuild cf t row escrow (Some x) at key)) e" if "held_entry e t = Some x" for x
    by (rule proceeds_then [OF proceeds_archive(1) [OF u]])
      (auto intro!: resumes_close_held resumes_rebuild leafed_underway held_leafed [OF that])
  show ?thesis
    using u unfolding resume_def Let_def row wp_simps
    by (cases "held_entry e t")
      (auto simp: report_def intro!: filed resumes_refuse resumes_rebuild resumes_not)
qed

section \<open>All rows\<close>

definition to_recover :: "state_row \<Rightarrow> bool" where
  "to_recover row \<longleftrightarrow> sr_state row = Some Committed \<or> sr_state row = Some Committing"

text \<open>What the report of a recovery says of one row that was due.\<close>

definition reported :: "'w engine_config \<Rightarrow> 'w engine \<Rightarrow> recovered \<Rightarrow> 'w engine \<Rightarrow> bool" where
  "reported cf e0 r e \<longleftrightarrow>
     rv_path r = Terminal \<and> rv_state r = Committed \<and> row_state e0 (rv_transformation r) = Some Committed
        \<and> row_state e (rv_transformation r) = Some Committed
     \<or> row_state e0 (rv_transformation r) = Some Committing \<and> accounted cf e0 r e"

lemma accounted_later:
  assumes "accounted cf e0 r e" "touches u e e'" "rv_transformation r \<noteq> u" "ledger_grows cf e0 e" "ledger_grows cf e e'"
  shows "accounted cf e0 r e'"
  using assms(1-3) leafed_grows [OF _ assms(4,5)] unfolding accounted_def touches_def by fastforce

lemma reported_later:
  "reported cf e0 r e \<Longrightarrow> touches u e e' \<Longrightarrow> rv_transformation r \<noteq> u \<Longrightarrow> ledger_grows cf e0 e \<Longrightarrow> ledger_grows cf e e' \<Longrightarrow> reported cf e0 r e'"
  unfolding reported_def using accounted_later [of cf e0 r e u e'] by (auto simp: touches_def)

lemma accounted_rebase: "accounted cf e r e' \<Longrightarrow> ledger_grows cf e0 e \<Longrightarrow> accounted cf e0 r e'"
  unfolding accounted_def leafed_def ledger_grows_def by blast

definition recovering :: "'w engine_config \<Rightarrow> 'w engine \<Rightarrow> state_row list \<Rightarrow> recovered list \<Rightarrow> 'w engine \<Rightarrow> bool" where
  "recovering cf e0 rows out e \<longleftrightarrow> engine_ok e \<and> ledger_grows cf e0 e
     \<and> (\<forall>row\<in>set rows. row_state e0 (sr_transformation row) = sr_state row)
     \<and> (\<forall>u. u \<notin> rv_transformation ` set out \<longrightarrow> row_state e u = row_state e0 u)
     \<and> (\<forall>r\<in>set out. rv_transformation r \<notin> sr_transformation ` set rows \<and> reported cf e0 r e)"

lemma recovering_skip: "recovering cf e0 (row # rows) out e \<Longrightarrow> recovering cf e0 rows out e"
  by (simp add: recovering_def)

lemma recovering_row: "recovering cf e0 (row # rows) out e \<Longrightarrow>
    engine_ok e \<and> row_state e (sr_transformation row) = sr_state row \<and> row_state e0 (sr_transformation row) = sr_state row"
  unfolding recovering_def by (metis image_eqI imageE list.set_intros(1))

lemma recovering_next:
  assumes inv: "recovering cf e0 (row # rows) out e" and dist: "distinct (map sr_transformation (row # rows))"
    and t: "stopped (sr_transformation row) e e'" "ledger_grows cf e e'"
    and r: "rv_transformation r = sr_transformation row" "reported cf e0 r e'"
  shows "recovering cf e0 rows (out @ [r]) e'"
proof -
  have g: "ledger_grows cf e0 e" using inv by (simp add: recovering_def)
  have "reported cf e0 r e'" if "r \<in> set out" for r
    using inv that t reported_later [OF _ _ _ g t(2), of r "sr_transformation row"] by (auto simp: recovering_def stopped_def)
  with inv dist t r ledger_grows_trans [OF g t(2)] show ?thesis by (auto simp: recovering_def stopped_def touches_def)
qed

lemma standing_refusal_partial [simp]: "standing_refusal (e\<lparr>en_partial := p\<rparr>) = standing_refusal e"
  unfolding standing_refusal_def by (cases "en_departure e") auto

lemma recovers_rows:
  assumes "recovering cf e0 rows out e" "distinct (map sr_transformation rows)"
  shows "wp (recover_rows cf sh at key out rows)
     (\<lambda>rs e'. recovering cf e0 [] rs e' \<and> map rv_transformation rs = map rv_transformation out @ map sr_transformation (filter to_recover rows))
     (\<lambda>_. engine_ok) e"
  using assms
proof (induction rows arbitrary: out e)
  case (Cons row rows)
  let ?t = "sr_transformation row"
  note step = recovering_next [OF Cons.prems]
  have ok: "engine_ok e" and row: "row_state e ?t = sr_state row" "row_state e0 ?t = sr_state row" using recovering_row [OF Cons.prems(1)] by simp_all
  have dist: "distinct (map sr_transformation rows)" using Cons.prems(2) by simp
  consider (committed) "sr_state row = Some Committed" | (committing) "sr_state row = Some Committing" | (other) "\<not> to_recover row"
    by (auto simp: to_recover_def)
  then show ?case
  proof cases
    case committed
    let ?r = "(report ?t Terminal Committed)\<lparr>rv_ledger_seq := sh_ledger sh ?t\<rparr>"
    let ?e = "case sh_ledger sh ?t of None \<Rightarrow> e | Some n \<Rightarrow> e\<lparr>en_committed := (en_committed e)(?t \<mapsto> n)\<rparr>"
    have "stopped ?t e ?e" "ledger_grows cf e ?e" "reported cf e0 ?r ?e"
      using ok row committed by (auto simp: stopped_def touches_def row_state_def ledger_grows_def ledger_good_def reported_def report_def split: option.split)
    then have "recovering cf e0 rows (out @ [?r]) ?e" by (intro step) (simp_all add: report_def)
    moreover have "to_recover row" using committed by (simp add: to_recover_def)
    ultimately show ?thesis using Cons.IH [of "out @ [?r]" ?e] dist committed by (simp add: wp_simps report_def Let_def)
  next
    case committing
    have u: "underway cf ?t e e" using ok row committing by (simp add: underway_def touches_def)
    have "wp (recover_rows cf sh at key (out @ [r]) rows)
       (\<lambda>rs e'. recovering cf e0 [] rs e' \<and> map rv_transformation rs = map rv_transformation out @ map sr_transformation (filter to_recover (row # rows)))
       (\<lambda>_. engine_ok) e'" if s: "settled cf ?t e r e'" for r e'
    proof -
      have "recovering cf e0 rows (out @ [r]) e'"
        using s row committing Cons.prems(1) by (intro step) (auto simp: settled_def reported_def recovering_def intro: accounted_rebase)
      moreover have "to_recover row" using committing by (simp add: to_recover_def)
      ultimately show ?thesis using Cons.IH [of "out @ [r]" e'] dist s by (simp add: settled_def)
    qed
    note go_on = this
    have eq: "recover_rows cf sh at key out (row # rows) = try_do (resume cf row (sh_escrow sh ?t) at key)
        (\<lambda>r. recover_rows cf sh at key (out @ [r]) rows)
        (\<lambda>why. then_do (modify (\<lambda>e. e\<lparr>en_partial := (en_partial e)\<lparr>rpt_finished := out\<rparr>\<rparr>)) (\<lambda>_. fail why))"
      using committing by simp
    show ?thesis
      unfolding eq wp_try
    proof (rule wp_mono [OF resumes_resume [OF u refl committing]], goal_cases)
      case (1 r e')
      then show ?case by (rule go_on)
    next
      case (2 err e')
      then show ?case by (simp add: wp_simps stopped_def)
    qed
  next
    case other
    with Cons.IH [OF recovering_skip [OF Cons.prems(1)] dist] show ?thesis by (simp add: to_recover_def)
  qed
qed (simp add: wp_simps)

lemma recovers:
  assumes ok: "engine_ok e" and std: "standing_refusal e = None"
  shows "wp (recover cf at key)
     (\<lambda>rs e'. recovering cf e [] rs e'
        \<and> map rv_transformation rs = map sr_transformation (filter to_recover (sg_transformations (reconstruct (en_records e)))))
     (\<lambda>_. engine_ok) e"
proof -
  let ?e = "e\<lparr>en_partial := no_partial\<rparr>" and ?rows = "sg_transformations (reconstruct (en_records e))"
  have dist: "distinct (map sr_transformation ?rows)" unfolding rows_listed by simp
  have "recovering cf e ?rows [] ?e"
    using ok shadow_keyed_reconstruct [of "en_records e"]
    by (auto simp: recovering_def rows_member row_state_def shadow_keyed_def)
  from recovers_rows [OF this dist, of "reconstruct_shadow (en_records e)" at key] std show ?thesis
    by (simp add: recover_def wp_simps reconstruct_def)
qed

lemma keeps_recover: "engine_ok e \<Longrightarrow> keeps (recover cf at key) e"
proof (cases "standing_refusal e")
  case None
  assume "engine_ok e"
  from wp_mono [OF recovers [OF this None]] show ?thesis by (auto simp: recovering_def)
next
  case (Some why)
  assume "engine_ok e"
  with Some show ?thesis by (simp add: recover_def wp_simps Let_def)
qed

section \<open>Signing again\<close>

lemma keeps_file [keeps_intros]: "engine_ok e \<Longrightarrow> keeps (file_receipt cf t r) e"
  by (rule wp_aside [OF aside_parts(1)]) (auto dest: committing_core(2))

lemma keeps_reissue: "engine_ok e \<Longrightarrow> keeps (reissue_receipt cf t at key) e"
  unfolding reissue_receipt_def reissue_row_def reissue_payload_def
  by (auto intro!: keeps_intros split: option.split) (simp_all add: same_standing_def)

section \<open>Reachable states\<close>

text \<open>One operation, whatever it returns.\<close>

inductive operates :: "'w engine_config \<Rightarrow> 'w engine \<Rightarrow> 'w engine \<Rightarrow> bool" for cf where
  step_submit: "operates cf e (snd (submit cf i seed at e))"
| step_plan: "\<not> plan_clash cf i at e \<Longrightarrow> operates cf e (snd (plan cf i at e))"
| step_verify: "operates cf e (snd (verify cf t at key mode e))"
| step_escalation: "operates cf e (snd (escalation cf t ruling at key e))"
| step_cancel: "operates cf e (snd (cancel cf t at e))"
| step_reap: "operates cf e (snd (reap cf now e))"
| step_canonicalize: "operates cf e (snd (canonicalize cf t at mode e))"
| step_commit: "operates cf e (snd (commit cf t at key e))"
| step_accept_rollback: "operates cf e (snd (accept_rollback cf against at key e))"
| step_undo: "operates cf e (snd (undo cf t witness seed at e))"
| step_rehydrate: "operates cf e (snd (rehydrate_committed cf t i e))"
| step_recover: "operates cf e (snd (recover cf at key e))"
| step_reissue: "operates cf e (snd (reissue_receipt cf t at key e))"
| step_publish: "operates cf e (snd (publish_verdicts cf origin at key e))"

text \<open>One step: an operation, or a restart, which reads the journal again.\<close>

inductive engine_step :: "'w engine_config \<Rightarrow> 'w engine \<Rightarrow> 'w engine \<Rightarrow> bool" for cf where
  step_operation: "operates cf e e' \<Longrightarrow> engine_step cf e e'"
| step_restart: "ej_records j = en_records e \<Longrightarrow> engine_step cf e (engine_at_open w n j jdir blobs obs ledger ldir hdir h vs vdir)"

inductive reachable :: "'w engine_config \<Rightarrow> 'w engine \<Rightarrow> 'w engine \<Rightarrow> bool" for cf where
  start: "reachable cf e e"
| onward: "reachable cf e e' \<Longrightarrow> engine_step cf e' e'' \<Longrightarrow> reachable cf e e''"

lemma resolved_at_open: "resolved_ok records (fold resolution_of records (\<lambda>_. None))"
proof (induction records rule: rev_induct)
  case (snoc r records)
  show ?case
  proof (cases "\<exists>t i l d fp ps inp w at. r = PlannedRec t i l d fp ps inp w at")
    case True
    then obtain t i l d fp ps inp w at where r: "r = PlannedRec t i l d fp ps inp w at" by blast
    then have nm: "record_transformation r = Some t" by simp
    have "planned_in (records @ [r]) t" using fold_row(1) [OF nm] by (auto simp: planned_in_def reconstruct_snoc r)
    from resolved_ok_remember [OF resolved_ok_snoc [OF snoc] this refl, of i] show ?thesis
      by (simp only: r fold_append fold_simps comp_apply id_apply resolution_of.simps Let_def)
  next
    case False
    then have "resolution_of r m = m" for m by (cases r) auto
    with resolved_ok_snoc [OF snoc, of r] show ?thesis by simp
  qed
qed (simp add: resolved_ok_def)

lemma opened_ok:
  assumes "\<And>t row. sh_rows (reconstruct_shadow (ej_records j)) t = Some row \<Longrightarrow> row_cleared row"
  shows "engine_ok (engine_at_open w n j jdir blobs obs ledger ldir hdir h vs vdir)"
  using assms resolved_at_open [of "ej_records j"]
  by (auto simp: engine_ok_def engine_at_open_def Let_def agree_def local_ok_def follows_def reconstruct_shadow_def split: option.split)

lemma keeps_accept_rollback: "engine_ok e \<Longrightarrow> keeps (accept_rollback cf against at key) e"
  by (rule wp_aside [of "accept_rollback cf against at key"])
    (auto simp: accept_rollback_def intro!: aside_intros dest: committing_core(2))

lemma engine_ok_publication [simp]:
  "engine_ok (e\<lparr>en_verdict_log := vl\<rparr>) = engine_ok e" "engine_ok (e\<lparr>en_verdict_dir := vd\<rparr>) = engine_ok e"
  "engine_ok (e\<lparr>en_published := pb\<rparr>) = engine_ok e"
  by (simp_all add: engine_ok_def)

lemma keeps_publish: "engine_ok e \<Longrightarrow> keeps (publish_verdicts cf origin at key) e"
proof -
  have ap: "engine_ok e \<Longrightarrow> keeps (append_checkpoint cf ck) e" for ck e
    by (simp add: wp_run append_checkpoint_def split: prod.split)
  show "engine_ok e \<Longrightarrow> keeps (publish_verdicts cf origin at key) e"
    unfolding publish_verdicts_def by (intro keeps_intros ap) auto
qed

lemma operates_ok: "operates cf e e' \<Longrightarrow> engine_ok e \<Longrightarrow> engine_ok e'"
  by (induction rule: operates.induct)
    (use keeps_submit keeps_plan keeps_verify keeps_escalation keeps_cancel keeps_reap keeps_canonicalize keeps_commit
      keeps_accept_rollback keeps_undo keeps_rehydrate_committed keeps_recover keeps_reissue keeps_publish in \<open>auto simp: wp_run\<close>)

lemma engine_step_ok: "engine_step cf e e' \<Longrightarrow> engine_ok e \<Longrightarrow> engine_ok e'"
proof (induction rule: engine_step.induct)
  case (step_restart j e w n jdir blobs obs ledger ldir hdir h vs vdir)
  then show ?case by (intro opened_ok) (auto simp: engine_ok_def dest: agreeD(3))
qed (rule operates_ok)

lemma reachable_ok: "reachable cf e e' \<Longrightarrow> engine_ok e \<Longrightarrow> engine_ok e'"
  by (induction rule: reachable.induct) (auto intro: engine_step_ok)

text \<open>The engine of a project whose journal is still empty.\<close>

lemma fresh_ok: "ej_records j = [] \<Longrightarrow> engine_ok (engine_at_open w n j jdir blobs obs ledger ldir hdir h vs vdir)"
  by (rule opened_ok) (simp add: reconstruct_shadow_def empty_shadow_def)

section \<open>Deadlines of entries\<close>

text \<open>An entry in the table is decisive for its deadline; the shadow adds nothing to it.\<close>

lemma shadow_state:
  assumes "engine_ok e" "en_table e t = Some en" "\<not> is_aborted (e_state en)"
  shows "\<exists>row. sh_rows (en_shadow e) t = Some row \<and> (sr_state row = Some (e_state en) \<or> sr_state row \<in> {Some Canonicalized, Some Committed})"
  using assms unfolding engine_ok_def agree_def local_ok_def follows_def said_by_def
  by (elim conjE allE [where x = t]) (fastforce split: option.splits)

lemma deadline_live:
  assumes "engine_ok e" "en_table e t = Some en" "\<not> is_aborted (e_state en)"
  shows "deadline cf e t = deadline_of cf en"
proof (cases "deadline_of cf en")
  case None
  then have "e_state en \<notin> {Candidate, Verifying, Escalated}" by (auto simp: deadline_of_def)
  with shadow_state [OF assms] have "shadow_deadline cf e t = None"
    by (auto simp: shadow_deadline_def split: bind_split) (cases "e_state en"; auto)+
  with None assms(2) show ?thesis by (simp add: deadline_def)
qed (use assms(2) in \<open>simp add: deadline_def\<close>)

lemma wp_not_due:
  assumes "engine_ok e" "en_table e t = Some en" "e_state en \<notin> {Candidate, Verifying, Escalated}" "\<not> is_aborted (e_state en)"
  shows "wp (expire_if_due cf t now) Q E e = Q False e"
proof -
  have "deadline_of cf en = None" using assms(3) by (cases "e_state en") (auto simp: deadline_of_def)
  with deadline_live [OF assms(1,2,4), of cf] show ?thesis by (simp add: expire_if_due_def wp_simps)
qed

section \<open>The schema of receipts\<close>

text \<open>What the schema asks of the receipts the engine makes out.\<close>

lemma attested_boundary_schema:
  "\<not> (case attested_boundary inp b of Mixed i v \<Rightarrow> i = v | _ \<Rightarrow> False)" "verdict_derivation (attested_boundary inp b) \<noteq> LlmOriginated"
  "verdict_derivation (attested_boundary inp b) = DeterministicReplay \<longleftrightarrow> b"
  by (cases inp; cases b; simp add: attested_boundary_def)+

section \<open>Running\<close>

lemma wp_tick [wp_simps]: "wp tick Q E e = Q (en_tick e) (e\<lparr>en_tick := Suc (en_tick e)\<rparr>)"
  by (simp add: wp_def tick_def)

lemma wp_next: "wp m (\<lambda>_. P) (\<lambda>_ _. False) s \<Longrightarrow> P (snd (m s))"
  by (auto simp: wp_def split: prod.splits sum.splits)

end
