(* ===== verification/Engine_Run.thy ===== *)
theory Engine_Run
  imports Engine_Steps
begin

text \<open>
  A small project on which the engine is run through once, from the submission of an intent to its
  commit: the world is one switch, the adapter turns it on, the policies allow everything and every
  call of the operating system succeeds. The theorems about the engine are applied to this run.
\<close>

definition demo_delta :: planned_delta where
  "demo_delta = \<lparr>pd_substrate = Fs, pd_payload = [], pd_reference = \<lparr>delta_substrate = Fs, delta_cid = other_cid\<rparr>,
     pd_promised_target = None\<rparr>"

definition demo_adapter :: "bool adapter" where
  "demo_adapter =
     \<lparr>ad_snapshot = (\<lambda>l w. Inr \<lparr>obj_id = other_cid, obj_substrate = Fs, obj_locator = l,
         obj_digest = (if w then other_cid else zero_cid), obj_representation = Bytes\<rparr>),
      ad_plan = (\<lambda>_ _ _. Inr demo_delta),
      ad_precondition = (\<lambda>s _. Inr \<lparr>fp_substrate = Fs, fp_scope = [], fp_digest = obj_digest s\<rparr>),
      ad_apply = (\<lambda>d _. (Inr (new_applied_delta (pd_reference d) \<lparr>fp_substrate = Fs, fp_scope = [], fp_digest = other_cid\<rparr> other_cid 0), True)),
      ad_invert = (\<lambda>d _ _. Inr (inverted d [])),
      ad_commutation = (\<lambda>_ _ _. Inr Commutes)\<rparr>"

definition demo_proof :: inclusion_proof where
  "demo_proof = \<lparr>ip_leaf_index = 0, ip_tree_size = 1, ip_audit_path = []\<rparr>"

text \<open>The two receipts of the run, and a codec for them.\<close>

definition demo_commit_payload :: "inclusion_proof option \<Rightarrow> receipt_payload" where
  "demo_commit_payload ipf =
     \<lparr>rp_key_id = ''k'', rp_verdict = Some \<lparr>vs_kind = Admit, vs_proof_digest = other_cid\<rparr>, rp_enforced = True,
      rp_confinement = Some \<lparr>kernel_confined = False, ruleset_hash = None\<rparr>, rp_catalogue_hash = None, rp_read_set = Some NothingRead,
      rp_reversibility = Some ReversibleTrue, rp_undo = None, rp_determinism_boundary = Mixed StageUnknown DeterministicReplay,
      rp_receipt_kind = CommitReceipt, rp_canonical_cid = other_cid, rp_inverse_delta = Some other_cid, rp_transformation = other_cid,
      rp_inclusion_proof = ipf, rp_fingerprint_scope = [], rp_fail_posture_engaged = False, rp_precondition_fingerprint = zero_cid,
      rp_postcondition_fingerprint = Some other_cid, rp_payload_version = Some 1, rp_engine_version = Some ''1''\<rparr>"

definition demo_verdict_payload :: receipt_payload where
  "demo_verdict_payload = (demo_commit_payload None)\<lparr>rp_receipt_kind := VerdictReceipt, rp_read_set := None, rp_reversibility := None,
     rp_inverse_delta := None, rp_postcondition_fingerprint := None\<rparr>"

definition demo_bytes :: "bool \<Rightarrow> bool \<Rightarrow> bytes" where
  "demo_bytes committed proved = enc (CMap [(ascii ''v'', CBool committed), (INCLUSION_PROOF_KEY, if proved then CBool True else CNull)])"

definition demo_tp :: "receipt_payload \<Rightarrow> string + bytes" where
  "demo_tp p =
     (if p = demo_verdict_payload then Inr (demo_bytes False False)
      else if p = demo_commit_payload None then Inr (demo_bytes True False)
      else if p = demo_commit_payload (Some demo_proof) then Inr (demo_bytes True True)
      else Inl [])"

definition demo_codec :: engine_codec where
  "demo_codec =
     \<lparr>ec_hash = (\<lambda>_. other_cid), ec_intent = (\<lambda>_. Inr [0]), ec_transformation = (\<lambda>_. Inr [0]), ec_journal = (\<lambda>_. Inr [0]),
      ec_delta = sample_tv, ec_blob = sample_fv, ec_ruling = (\<lambda>_. Inr [0]),
      ec_gate = \<lparr>gc_hash = (\<lambda>_. other_cid), gc_text = (\<lambda>_. Inr [0]), gc_reasons = (\<lambda>_. Inr [0]), gc_proof = (\<lambda>_. Inr [0]),
        gc_ticket = (\<lambda>_. Inr [0])\<rparr>,
      ec_payload = demo_tp, ec_read = (\<lambda>_. Inr [0]), ec_leaf = (\<lambda>_. Inr [0]), ec_entry = (\<lambda>_. Inr [0]),
      ec_checkpoint = (\<lambda>_. Inr [0]), ec_witness = (\<lambda>_. Inr [0]), ec_head = (\<lambda>_. Inr [0]), ec_value_from = (\<lambda>_. Inr CNull),
      ec_value_to = (\<lambda>_. Inr [0]), ec_payload_from = (\<lambda>_. Inl []), ec_observation = (\<lambda>_. Inl []), ec_observation_from = (\<lambda>_. Inl []),
      ec_verdict_core = (\<lambda>_. Inr [0]), ec_verdict_record = (\<lambda>_. Inr [0])\<rparr>"

definition demo_answers :: answers where
  "demo_answers = \<lparr>sys_journal = (\<lambda>_. WriteOk), sys_ledger = (\<lambda>_. WriteOk), sys_put = (\<lambda>_. sample_env), sys_head = (\<lambda>_. HeadWritten),
     sys_sink = (\<lambda>_ _ _. Inr ()), sys_filed_receipt = (\<lambda>_ _. None), sys_filed_key_id = (\<lambda>_ _. None), sys_read = (\<lambda>_. ReadOk),
     sys_verdicts = (\<lambda>_. WriteOk)\<rparr>"

definition demo_config :: "bool engine_config" where
  "demo_config =
     \<lparr>cf_codec = demo_codec, cf_system = demo_answers, cf_drift = (\<lambda>_ w. w), cf_adapters = (\<lambda>_. Some (demo_adapter, ''1'')),
      cf_completions = (\<lambda>_. None), cf_input_stages = (\<lambda>_. None), cf_files_receipts = True, cf_gate = with_policies sample_engine,
      cf_evidence = (\<lambda>_ _ _. Inr []), cf_canon = (\<lambda>_. Inr [0]), cf_mode = Enforce, cf_posture = FailClosed,
      cf_confinement = \<lparr>kernel_confined = False, ruleset_hash = None\<rparr>, cf_verify_ttl = DEFAULT_VERIFY_TTL_NANOS,
      cf_escalation_ttl = DEFAULT_ESCALATION_TTL_NANOS, cf_head_origin = None, cf_version_digest = None, cf_version = ''1''\<rparr>"

definition demo_engine :: "bool engine" where
  "demo_engine =
     engine_at_open False 0 (marked_journal False) marked_dir (\<lambda>_. None) (\<lambda>_. None) fresh_store
       \<lparr>ld_file = Some [], ld_torn = (\<lambda>_. None)\<rparr> \<lparr>hd_head = None, hd_tmp = None\<rparr>
       \<lparr>hs_floor = None, hs_rolled_back = None, hs_invalid = None, hs_resumed_rows = 0, hs_accepted = None, hs_pending = None,
        hs_authenticity = HeadAbsent, hs_key_id = None, hs_declaration_changed = False\<rparr>
       (verdict_store_of [] 0 False None) \<lparr>ld_file = Some [], ld_torn = (\<lambda>_. None)\<rparr>"

definition demo_intent :: intent where
  "demo_intent = \<lparr>in_substrate = Fs, in_locator = ''a'', in_goal = [], in_context = Substrate, in_actor = Human ''k''\<rparr>"

abbreviation demo_submitted :: "bool engine" where
  "demo_submitted \<equiv> snd (submit demo_config demo_intent 0 1 demo_engine)"

abbreviation demo_planned :: "bool engine" where
  "demo_planned \<equiv> snd (plan demo_config demo_intent 2 demo_submitted)"

abbreviation demo_verified :: "bool engine" where
  "demo_verified \<equiv> snd (verify demo_config other_cid 3 sample_key None demo_planned)"

abbreviation demo_canonicalized :: "bool engine" where
  "demo_canonicalized \<equiv> snd (canonicalize demo_config other_cid 4 None demo_verified)"

section \<open>Evaluating\<close>

text \<open>A journal that can be appended to, and what an append makes of it.\<close>

definition appendable :: "ledger_dir \<Rightarrow> engine_journal \<Rightarrow> bool" where
  "appendable dir j \<longleftrightarrow> \<not> ej_read_only j \<and> \<not> ej_downgraded j \<and> \<not> ej_newer j \<and> ej_format j = ChainedV2 \<and> ej_break j = None
     \<and> ej_chain j \<noteq> None \<and> ld_file dir \<noteq> None"

definition grown :: "journal_record \<Rightarrow> ledger_dir \<Rightarrow> engine_journal \<Rightarrow> ledger_dir \<times> engine_journal" where
  "grown r dir j = snd (journal_append (\<lambda>_. other_cid) (\<lambda>_. Inr [0]) WriteOk r dir j)"

lemma demo_encodes: "cbor_encode (\<lambda>_. Inr [0]) x = Inr [0]" "cid_compute (\<lambda>_. c) (\<lambda>_. Inr [0]) view y = Inr c"
  by (simp_all add: cbor_encode_def scan_strict_zero cid_compute_def digest_def)

lemma grown_ok:
  assumes "appendable dir j"
  shows "journal_append (\<lambda>_. other_cid) (\<lambda>_. Inr [0]) WriteOk r dir j = (Inr (length (ej_records j)), grown r dir j)"
    "appendable (fst (grown r dir j)) (snd (grown r dir j))" "ej_records (snd (grown r dir j)) = ej_records j @ [r]"
proof -
  have "vocabulary_rank (minimum_format r) \<le> 2" by (cases "minimum_format r") auto
  then show "journal_append (\<lambda>_. other_cid) (\<lambda>_. Inr [0]) WriteOk r dir j = (Inr (length (ej_records j)), grown r dir j)"
    "appendable (fst (grown r dir j)) (snd (grown r dir j))" "ej_records (snd (grown r dir j)) = ej_records j @ [r]"
    using assms
    by (auto simp: grown_def appendable_def journal_append_def demo_encodes seal_def journal_write_and_sync_def
        JOURNAL_MAX_RECORD_BYTES_def push_bit_eq_mult split: option.splits)
qed

named_theorems demo_simps

lemma demo_fields [demo_simps]:
  "ec_hash demo_codec = (\<lambda>_. other_cid)" "ec_intent demo_codec = (\<lambda>_. Inr [0])" "ec_transformation demo_codec = (\<lambda>_. Inr [0])"
  "ec_payload demo_codec = demo_tp" "ec_delta demo_codec = sample_tv" "ec_blob demo_codec = sample_fv"
  "cf_codec demo_config = demo_codec" "cf_system demo_config = demo_answers"
  by (simp_all add: demo_codec_def demo_config_def)

lemma demo_config_times:
  "cf_verify_ttl demo_config = 86400000000000" "cf_mode demo_config = Enforce" "cf_evidence demo_config = (\<lambda>_ _ _. Inr [])"
  "cf_version demo_config = ''1''" "cf_input_stages demo_config = (\<lambda>_. None)"
  "cf_completions demo_config = (\<lambda>_. None)" "cf_head_origin demo_config = None"
  "cf_confinement demo_config = \<lparr>kernel_confined = False, ruleset_hash = None\<rparr>"
  "cf_canon demo_config = (\<lambda>_. Inr [0])" "ec_value_from demo_codec = (\<lambda>_. Inr CNull)" "ec_value_to demo_codec = (\<lambda>_. Inr [0])"
  by (simp_all add: demo_config_def demo_codec_def DEFAULT_VERIFY_TTL_NANOS_def)

lemma demo_append [demo_simps]:
  assumes "appendable (en_journal_dir e) (en_journal e)"
  shows "wp (journal_append_direct demo_config r) Q E e = Q (length (en_records e))
     (e\<lparr>en_tick := Suc (en_tick e), en_journal := snd (grown r (en_journal_dir e) (en_journal e)),
        en_journal_dir := fst (grown r (en_journal_dir e) (en_journal e))\<rparr>)"
  using grown_ok(1) [OF assms, of r]
  by (simp add: wp_def journal_append_direct_def demo_fields demo_answers_def demo_codec_def split: prod.split)

lemma demo_append_shadow [demo_simps]:
  assumes "appendable (en_journal_dir e) (en_journal e)"
  shows "wp (engine_journal_append demo_config r) Q E e = Q (length (en_records e))
     (e\<lparr>en_tick := Suc (en_tick e), en_journal := snd (grown r (en_journal_dir e) (en_journal e)),
        en_journal_dir := fst (grown r (en_journal_dir e) (en_journal e)), en_shadow := shadow_fold r (en_shadow e)\<rparr>)"
  using assms by (simp add: engine_journal_append_def wp_simps demo_append grown_ok)


lemma demo_engine_fields [demo_simps]:
  "en_drafted demo_engine = (\<lambda>_. None)" "en_table demo_engine = (\<lambda>_. None)" "en_resolved demo_engine = (\<lambda>_. None)"
  "en_by_subject demo_engine = (\<lambda>_. None)" "en_world demo_engine = False" "en_blobs demo_engine = (\<lambda>_. None)"
  "en_ledger demo_engine = fresh_store" "en_ledger_dir demo_engine = \<lparr>ld_file = Some [], ld_torn = (\<lambda>_. None)\<rparr>"
  "en_journal demo_engine = marked_journal False" "en_journal_dir demo_engine = marked_dir" "en_shadow demo_engine = empty_shadow"
  "en_escrow demo_engine = (\<lambda>_. None)" "appendable marked_dir (marked_journal False)" "ej_records (marked_journal False) = []"
  by (simp_all add: demo_engine_def engine_at_open_def marked_journal_fields Let_def appendable_def marked_dir_def)

lemma demo_look [demo_simps]: "wp (look demo_config f) Q E e = Q (f (en_world e)) (e\<lparr>en_world := en_world e, en_tick := Suc (en_tick e)\<rparr>)"
  by (simp add: wp_def look_def demo_config_def Let_def)

lemma demo_ask [demo_simps]: "wp (ask demo_config act f) Q E e =
   (case f (en_world e) of Inl _ \<Rightarrow> E (AdapterRefused act) (e\<lparr>en_world := en_world e, en_tick := Suc (en_tick e)\<rparr>)
    | Inr a \<Rightarrow> Q a (e\<lparr>en_world := en_world e, en_tick := Suc (en_tick e)\<rparr>))"
  by (simp add: ask_def wp_simps demo_look split: sum.split)

lemma demo_apply_once [demo_simps]:
  "wp (apply_once demo_config demo_adapter d) Q E e = Q (Inr (new_applied_delta (pd_reference d)
     \<lparr>fp_substrate = Fs, fp_scope = [], fp_digest = other_cid\<rparr> other_cid 0)) (e\<lparr>en_world := True, en_tick := Suc (en_tick e)\<rparr>)"
  by (simp add: wp_def apply_once_def demo_adapter_def demo_config_def)

lemma demo_adapter_of [demo_simps]: "wp (adapter_of demo_config k) Q E e = Q demo_adapter e"
  by (simp add: adapter_of_def wp_simps demo_config_def)

lemma demo_put_blob [demo_simps]:
  "wp (put_blob demo_config demo_delta) Q E e \<longleftrightarrow>
     (let path = blob_path other_cid; bs = [0xa1, 0x61, 0x61, 0x01] in
      Q () (e\<lparr>en_tick := Suc (en_tick e), en_blobs := if en_blobs e path = Some bs then en_blobs e else
        (en_blobs e)(temp_name [] path := None, path \<mapsto> bs)\<rparr>))"
  by (simp add: wp_def put_blob_def blob_put_def demo_fields delta_identity_view_def demo_delta_def sample_encodes MAX_BLOB_BYTES_def
      push_bit_eq_mult demo_answers_def sample_env_def write_atomically_def Let_def)

definition demo_transformation :: transformation where
  "demo_transformation = \<lparr>t_id = other_cid, t_intent_id = other_cid, t_order = 0, t_subject = Object other_cid, t_target = None,
     t_delta = pd_reference demo_delta, t_context = Substrate, t_actor = Human ''k'', t_parents = [], t_created_at = 2\<rparr>"

definition demo_shape :: plan_shape where
  "demo_shape = \<lparr>ps_id = other_cid, ps_transformation = demo_transformation, ps_delta = demo_delta,
     ps_fp0 = \<lparr>fp_substrate = Fs, fp_scope = [], fp_digest = zero_cid\<rparr>,
     ps_pre = \<lparr>obj_id = other_cid, obj_substrate = Fs, obj_locator = ''a'', obj_digest = zero_cid, obj_representation = Bytes\<rparr>\<rparr>"

lemma demo_adapter_fields [demo_simps]:
  "ad_snapshot demo_adapter l w = Inr \<lparr>obj_id = other_cid, obj_substrate = Fs, obj_locator = l,
     obj_digest = (if w then other_cid else zero_cid), obj_representation = Bytes\<rparr>"
  "ad_plan demo_adapter i s w = Inr demo_delta"
  "ad_precondition demo_adapter s w = Inr \<lparr>fp_substrate = Fs, fp_scope = [], fp_digest = obj_digest s\<rparr>"
  "ad_invert demo_adapter d s w = Inr (inverted d [])"
  "ad_commutation demo_adapter d d' w = Inr Commutes"
  "pd_reference demo_delta = \<lparr>delta_substrate = Fs, delta_cid = other_cid\<rparr>" "pd_substrate demo_delta = Fs"
  "pd_promised_target demo_delta = None"
  by (simp_all add: demo_adapter_def demo_delta_def)

lemma zero_other [simp]: "zero_cid \<noteq> other_cid" "other_cid \<noteq> zero_cid"
  by (simp_all add: zero_cid_def other_cid_def Cid_inject)

lemma demo_plan_shape [demo_simps]:
  "\<not> en_world e \<Longrightarrow> wp (plan_shape_of demo_config demo_intent 2) Q E e =
     Q demo_shape (e\<lparr>en_world := False, en_tick := Suc (Suc (Suc (en_tick e)))\<rparr>)"
  by (simp add: plan_shape_of_def wp_simps demo_simps demo_encodes)
    (simp add: demo_intent_def demo_transformation_def demo_shape_def new_transformation_def in_range_def with_order_def
      UNSET_INTENT_def MAX_ORDER_def wp_simps demo_simps demo_encodes)

text \<open>The states the run goes through.\<close>

definition demo_at :: "entry \<Rightarrow> bool engine \<Rightarrow> bool" where
  "demo_at en e \<longleftrightarrow> appendable (en_journal_dir e) (en_journal e)
     \<and> last_planned other_cid (en_records e) = Some (''a'', [], StageUnknown, None, 2) \<and> \<not> en_world e \<and> en_table e = [other_cid \<mapsto> en]
     \<and> e_intent_id en = other_cid \<and> e_transformation en = demo_transformation \<and> e_delta en = demo_delta
     \<and> e_fp0 en = ps_fp0 demo_shape \<and> e_pre en = ps_pre demo_shape
     \<and> e_blocked_by en = None \<and> \<not> e_fail_posture_engaged en \<and> e_enforced en
     \<and> en_by_subject e = [Object other_cid \<mapsto> {other_cid}] \<and> en_ledger e = fresh_store
     \<and> en_ledger_dir e = \<lparr>ld_file = Some [], ld_torn = (\<lambda>_. None)\<rparr>"

lemma one_entry [simp]: "[k \<mapsto> a] = [k \<mapsto> b] \<longleftrightarrow> a = b"
  by (auto dest: fun_upd_eqD)

lemma demo_ok: "engine_ok demo_engine"
  unfolding demo_engine_def by (rule fresh_ok) (simp add: marked_journal_fields)

lemma demo_unclashed: "en_table e = (\<lambda>_. None) \<Longrightarrow> \<not> plan_clash cf i at e"
  by (simp add: plan_clash_def split: sum.split)

lemma demo_intent_fields: "in_locator demo_intent = ''a''" "in_substrate demo_intent = Fs" "in_actor demo_intent = Human ''k''"
  by (simp_all add: demo_intent_def)

lemma demo_to_plan:
  "wp (submit demo_config demo_intent 0 1) (\<lambda>i e. en_table e = (\<lambda>_. None)
     \<and> wp (plan demo_config demo_intent 2) (\<lambda>t e. \<exists>en. demo_at en e \<and> e_state en = Candidate \<and> e_since en = 2) (\<lambda>_ _. False) e)
     (\<lambda>_ _. False) demo_engine"
  by (simp add: submit_def wp_simps demo_simps demo_encodes)
    (simp add: plan_def wp_simps demo_simps demo_encodes btree_items_def replan_refused_def last_resolved_def demo_shape_def
      remember_resolution_def seat_def grown_ok demo_at_def candidate_entry_def demo_transformation_def Let_def last_planned_def
      joined_input_generation_def demo_intent_fields demo_config_times)

lemma demo_gate:
  "\<exists>p. gate_verify (ec_gate demo_codec) (cf_gate demo_config) \<lparr>gi_t = t, gi_pre = pre, gi_planned = bs, gi_evidence = [],
      gi_invert_available = True, gi_decided_at = at\<rparr> = Inr (AdmitVerdict p)"
  by (simp add: gate_verify_def demo_config_def with_policies_def evaluate_def sample_engine_def run_all_def violations_def)

lemma demo_bytes_fit: "fits 0 (CMap [(ascii ''v'', CBool c), (INCLUSION_PROOF_KEY, if b then CBool True else CNull)])"
proof -
  have "utf8_valid INCLUSION_PROOF_KEY" "utf8_valid (ascii ''v'')" by (rule utf8_valid_ascii, simp add: INCLUSION_PROOF_KEY_def ascii_def)+
  then show ?thesis by (simp add: MAX_DEPTH_def) (simp add: INCLUSION_PROOF_KEY_def ascii_def enc_text_def enc_head_def head_byte_def)
qed

lemma demo_bytes_eq:
  "demo_bytes c b = [0xa2, 0x61, 0x76, if c then 0xf5 else 0xf4] @ enc_text INCLUSION_PROOF_KEY @ [if b then 0xf5 else 0xf6]"
  by (simp add: demo_bytes_def enc_text_def enc_head_def head_byte_def ascii_def)

lemma demo_bytes_inject: "demo_bytes c b = demo_bytes c' b' \<longleftrightarrow> c = c' \<and> b = b'"
  by (auto simp: demo_bytes_eq split: if_splits)

lemma demo_bytes_short: "length (demo_bytes c b) < u64_limit"
  by (simp add: demo_bytes_eq enc_text_def enc_head_def INCLUSION_PROOF_KEY_def ascii_def)

lemma demo_scan: "scan_strict (demo_bytes c b) = Inr ()"
  using scan_strict_iff [OF demo_bytes_short, of c b] demo_bytes_fit [of c b] unfolding demo_bytes_def by blast

lemma demo_payloads_neq:
  "demo_commit_payload ipf \<noteq> demo_verdict_payload" "demo_verdict_payload \<noteq> demo_commit_payload ipf"
  "demo_commit_payload ipf = demo_commit_payload ipf' \<longleftrightarrow> ipf = ipf'"
  by (auto simp: demo_commit_payload_def demo_verdict_payload_def)

lemma demo_encoded:
  "cbor_encode demo_tp demo_verdict_payload = Inr (demo_bytes False False)"
  "cbor_encode demo_tp (demo_commit_payload None) = Inr (demo_bytes True False)"
  "cbor_encode demo_tp (demo_commit_payload (Some demo_proof)) = Inr (demo_bytes True True)"
  by (simp_all add: cbor_encode_ok demo_scan demo_tp_def demo_payloads_neq)

lemma demo_issue_verdict: obtains r where "receipt_issue demo_tp demo_verdict_payload at key = Inr r"
proof -
  have "check_schema demo_verdict_payload = Inr ()" by (simp add: check_schema_def demo_verdict_payload_def demo_commit_payload_def)
  with that show ?thesis by (simp add: receipt_issue_def demo_encoded)
qed

lemma demo_issue_commit: obtains r where "receipt_issue demo_tp (demo_commit_payload (Some demo_proof)) at key = Inr r"
proof -
  have "check_schema (demo_commit_payload (Some demo_proof)) = Inr ()" by (simp add: check_schema_def demo_commit_payload_def)
  with that show ?thesis by (simp add: receipt_issue_def demo_encoded)
qed

lemma demo_digest: "ledger_digest (\<lambda>_. other_cid) demo_tp (demo_commit_payload None) = Inr other_cid"
proof -
  have "(demo_commit_payload None)\<lparr>rp_inclusion_proof := None\<rparr> = demo_commit_payload None" by (simp add: demo_commit_payload_def)
  then show ?thesis by (simp add: ledger_digest_def cid_compute_def demo_encoded digest_def)
qed

lemma demo_verdict_receipt:
  assumes "en_table e t = Some en" "verdict_payload demo_config e t en (Some v) key = demo_verdict_payload"
    and "\<And>r. Q () (e\<lparr>en_table := (en_table e)(t \<mapsto> en\<lparr>e_verdict_receipts := e_verdict_receipts en @ [r]\<rparr>),
      en_verdicts := bump (Some (vs_kind v)) (en_verdicts e)\<rparr>)"
  shows "wp (issue_verdict_receipt demo_config t (Some v) at key) Q E e"
proof -
  obtain r where "receipt_issue demo_tp demo_verdict_payload at key = Inr r" by (rule demo_issue_verdict)
  then show ?thesis using assms
    by (simp add: issue_verdict_receipt_def wp_simps demo_simps)
qed

text \<open>What the receipts take from the journal.\<close>

lemma last_planned_others: "\<forall>r \<in> set rs'. planned_fields t r = None \<Longrightarrow> last_planned t (rs @ rs') = last_planned t rs"
  unfolding last_planned_def fold_append comp_apply by (induction rs' rule: rev_induct) auto

lemma demo_journalled:
  assumes "last_planned other_cid (en_records e) = Some (l, [], StageUnknown, None, at)"
  shows "journalled_input_generation e other_cid = StageUnknown" "journalled_undo e other_cid = None"
    "attested_boundary StageUnknown True = Mixed StageUnknown DeterministicReplay"
  using assms by (simp_all add: journalled_input_generation_def journalled_undo_def attested_boundary_def)

lemma demo_verdict_made:
  assumes "last_planned other_cid (en_records e) = Some (l, [], StageUnknown, None, at)" "e_enforced en" "\<not> e_fail_posture_engaged en"
    "e_fp0 en = ps_fp0 demo_shape"
  shows "verdict_payload demo_config e other_cid en (Some \<lparr>vs_kind = Admit, vs_proof_digest = other_cid\<rparr>) sample_key = demo_verdict_payload"
  using assms demo_journalled [OF assms(1)]
  by (simp add: verdict_payload_def demo_verdict_payload_def demo_commit_payload_def demo_config_times demo_shape_def sample_key_def
      CURRENT_PAYLOAD_VERSION_def)

lemma demo_commit_made:
  assumes "last_planned other_cid (en_records e) = Some (l, [], StageUnknown, None, at)" "e_enforced en" "\<not> e_fail_posture_engaged en"
    "e_fp0 en = ps_fp0 demo_shape" "fp_digest post = other_cid"
  shows "commit_payload demo_config e other_cid en (Some \<lparr>vs_kind = Admit, vs_proof_digest = other_cid\<rparr>) other_cid (Some other_cid)
     NothingRead ReversibleTrue post sample_key = demo_commit_payload None"
  using assms demo_journalled [OF assms(1)]
  by (simp add: commit_payload_def demo_commit_payload_def demo_config_times demo_shape_def sample_key_def CURRENT_PAYLOAD_VERSION_def)

lemma demo_to_verdict:
  assumes "demo_at en e" "e_state en = Candidate" "e_since en = 2"
  shows "wp (verify demo_config other_cid 3 sample_key None)
     (\<lambda>_ e. \<exists>en. demo_at en e \<and> e_state en = Admitted \<and> e_verdict en = Some Admit \<and> e_verdict_digest en = Some other_cid) (\<lambda>_ _. False) e"
proof -
  obtain p where p: "gate_verify (ec_gate demo_codec) (cf_gate demo_config) \<lparr>gi_t = e_transformation en, gi_pre = e_pre en,
      gi_planned = pd_payload (e_delta en), gi_evidence = [], gi_invert_available = True, gi_decided_at = 3\<rparr> = Inr (AdmitVerdict p)"
    using demo_gate by blast
  have d: "proof_digest (ec_gate demo_codec) (AdmitVerdict p) = Inr other_cid"
    by (simp add: proof_digest.simps digest_of_def demo_codec_def demo_encodes)
  show ?thesis
    using assms p d
    by (simp add: verify_def demo_at_def wp_simps demo_simps demo_encodes expire_if_due_def deadline_def deadline_of_def
        demo_config_times saturating_add_def conflicting_predecessor_def set_state_def wp_on_entry wp_entry_of wp_entry_at
        grown_ok Let_def demo_transformation_def del: proof_digest.simps)
      (simp add: ask_the_gate_def wp_simps demo_simps demo_config_times inverted_def take_verdict_def set_state_def
        grown_ok del: proof_digest.simps,
       rule demo_verdict_receipt, simp, rule demo_verdict_made, simp add: last_planned_others grown_ok, simp_all add: wp_simps grown_ok last_planned_others)
qed

lemma demo_to_canonical:
  assumes "demo_at en e" "engine_ok e" "e_state en = Admitted" "e_verdict en = Some Admit" "e_verdict_digest en = Some other_cid"
  shows "wp (canonicalize demo_config other_cid 4 None)
     (\<lambda>_ e. \<exists>en. demo_at en e \<and> e_state en = Canonicalized \<and> e_canonical_cid en = Some other_cid \<and> e_verdict en = Some Admit
       \<and> e_verdict_digest en = Some other_cid) (\<lambda>_ _. False) e"
  using assms
  by (simp add: canonicalize_def demo_at_def wp_simps demo_simps demo_encodes wp_not_due set_state_def Let_def
    demo_config_times is_canonical_def grown_ok last_planned_others)

lemma demo_held:
  assumes "dir (blob_path other_cid) = Some [0xa1, 0x61, 0x61, 0x01]"
  shows "holds_body (\<lambda>_. other_cid) sample_tv sample_fv dir other_cid"
proof -
  have "scan_strict [0xa1, 0x61, 0x61, 0x01] = Inr ()" using sample_encodes by (auto simp: cbor_encode_ok is_ok_iff)
  moreover have "new_planned_delta (\<lambda>_. other_cid) sample_tv Fs [] = Inr demo_delta"
    by (simp add: new_planned_delta_ok sample_encodes demo_delta_def)
  ultimately show ?thesis using assms
    by (simp add: holds_body_def blob_get_def MAX_BLOB_BYTES_def push_bit_eq_mult cbor_decode_def sample_fv_def demo_simps)
qed

lemma demo_leaf:
  assumes "en_ledger e = fresh_store" "en_ledger_dir e = \<lparr>ld_file = Some [], ld_torn = (\<lambda>_. None)\<rparr>"
    and "\<And>d l. log_entries (ls_tree l) = [\<lparr>appended_at = at, entry_index = 0, leaf_cid = other_cid, entry_receipt = c, entry_transformation = t\<rparr>] \<Longrightarrow>
       log_leaves (ls_tree l) = [other_cid] \<Longrightarrow> log_tile_roots (ls_tree l) = [] \<Longrightarrow>
       Q 0 (e\<lparr>en_tick := Suc (en_tick e), en_ledger := l, en_ledger_dir := d\<rparr>)"
  shows "wp (append_leaf demo_config t c at) Q E e"
  using assms(1,2)
  by (simp add: wp_def append_leaf_run demo_simps demo_answers_def)
    (simp add: demo_codec_def ledger_append_def fresh_store_def store_of_def replay_start_def new_log_def stage_def
      leaf_hash_def mint_leaf_def mint_def digest_def demo_encodes log_len_def write_and_sync_def frame_write_and_sync_def
      MAX_RECORD_BYTES_def push_bit_eq_mult log_commit_def TILE_WIDTH_def Let_def assms(3))

lemma demo_receipt:
  assumes "en_ledger e = fresh_store" "en_ledger_dir e = \<lparr>ld_file = Some [], ld_torn = (\<lambda>_. None)\<rparr>"
    and "\<And>d l r. Q (0, r) (e\<lparr>en_tick := Suc (en_tick e), en_ledger := l, en_ledger_dir := d\<rparr>)"
  shows "wp (receipt_into_ledger demo_config t (demo_commit_payload None) at key) Q E e"
proof -
  have path: "prove_inclusion (\<lambda>_. other_cid) log 0 = Inr demo_proof" if "log_leaves log = [other_cid]" "log_entries log = [x]" for log x
    using that
    by (simp add: prove_inclusion_def prove_inclusion_at_def log_len_def size_to_usize_def audit_path_at_def walk_to_root.simps demo_proof_def)
  have proved: "(demo_commit_payload None)\<lparr>rp_inclusion_proof := Some demo_proof\<rparr> = demo_commit_payload (Some demo_proof)"
    by (simp add: demo_commit_payload_def)
  obtain r where r: "receipt_issue demo_tp (demo_commit_payload (Some demo_proof)) at key = Inr r" by (rule demo_issue_commit)
  show ?thesis
    by (simp add: receipt_into_ledger_def wp_simps demo_simps demo_digest)
      (rule demo_leaf [OF assms(1,2)], simp add: wp_simps path r assms(3) demo_simps proved)
qed

lemma demo_put_any:
  assumes "\<And>d. d (blob_path other_cid) = Some [0xa1, 0x61, 0x61, 0x01] \<Longrightarrow> Q () (e\<lparr>en_tick := Suc (en_tick e), en_blobs := d\<rparr>)"
  shows "wp (put_blob demo_config demo_delta) Q E e"
  using assms by (simp add: demo_put_blob Let_def)

lemma demo_finish:
  assumes "appendable (en_journal_dir e) (en_journal e)" "en_table e = [other_cid \<mapsto> en]" "e_transformation en = demo_transformation"
    "en_ledger e = fresh_store" "en_ledger_dir e = \<lparr>ld_file = Some [], ld_torn = (\<lambda>_. None)\<rparr>" "en_world e"
    and made: "last_planned other_cid (en_records e) = Some (l, [], StageUnknown, None, at')" "e_enforced en" "\<not> e_fail_posture_engaged en"
      "e_fp0 en = ps_fp0 demo_shape" "fp_digest (ap_postcondition applied) = other_cid"
  shows "wp (finish_commit demo_config other_cid (Some \<lparr>vs_kind = Admit, vs_proof_digest = other_cid\<rparr>) other_cid (inverted d [])
      (Some other_cid) applied at sample_key)
     (\<lambda>st e. st = Committed \<and> en_world e \<and> (\<exists>en. en_table e other_cid = Some en \<and> e_state en = Committed)) (\<lambda>_ _. False) e"
  using assms(1-6)
  by (simp add: finish_commit_def wp_simps demo_simps from_reads_def inverted_def demo_commit_made [OF made])
    (rule demo_receipt, simp_all add: demo_config_times,
     simp add: wp_simps file_receipt_def demo_answers_def demo_simps record_head_def set_state_def supersede_after_commit_def
      grown_ok demo_transformation_def demo_config_times)

lemma demo_escrow:
  assumes "appendable (en_journal_dir e) (en_journal e)" "en_table e = [other_cid \<mapsto> en]"
    and "\<And>e'. en_blobs e' (blob_path other_cid) = Some [0xa1, 0x61, 0x61, 0x01] \<Longrightarrow> appendable (en_journal_dir e') (en_journal e') \<Longrightarrow>
      en_table e' = [other_cid \<mapsto> en\<lparr>e_inverse_cid := Some other_cid\<rparr>] \<Longrightarrow> en_world e' = en_world e \<Longrightarrow>
      last_planned other_cid (en_records e') = last_planned other_cid (en_records e) \<Longrightarrow>
      en_ledger e' = en_ledger e \<Longrightarrow> en_ledger_dir e' = en_ledger_dir e \<Longrightarrow> Q (Some (other_cid, demo_delta, False)) e'"
  shows "wp (escrow_inverse demo_config other_cid demo_delta (inverted demo_delta []) at) Q E e"
  using assms(1,2)
  by (simp add: escrow_inverse_def inverted_def needs_completion_def demo_config_times wp_simps demo_adapter_fields
      demo_append_shadow Let_def)
    (rule demo_put_any, simp add: wp_simps escrow_insert_def, rule assms(3), simp_all add: grown_ok last_planned_others)

lemma demo_apply:
  assumes "appendable (en_journal_dir e) (en_journal e)" "en_table e = [other_cid \<mapsto> en']" "e_transformation en' = demo_transformation"
    "en_ledger e = fresh_store" "en_ledger_dir e = \<lparr>ld_file = Some [], ld_torn = (\<lambda>_. None)\<rparr>" "e_delta en = demo_delta"
    and made: "last_planned other_cid (en_records e) = Some (''a'', [], StageUnknown, None, 2)" "e_enforced en'" "\<not> e_fail_posture_engaged en'"
      "e_fp0 en' = ps_fp0 demo_shape"
  shows "wp (apply_and_finish demo_config demo_adapter other_cid en (Some \<lparr>vs_kind = Admit, vs_proof_digest = other_cid\<rparr>) other_cid
      (inverted d []) (Some (other_cid, demo_delta, False)) at sample_key)
     (\<lambda>st e. st = Committed \<and> en_world e \<and> (\<exists>en. en_table e other_cid = Some en \<and> e_state en = Committed)) (\<lambda>_ _. False) e"
  using assms
  by (simp add: apply_and_finish_def start_apply_def wp_simps demo_append_shadow demo_apply_once)
    (simp add: check_promise_def wp_simps Let_def demo_transformation_def,
     rule demo_finish [where en = "en'\<lparr>e_apply_started := Some (delta_cid (pd_reference demo_delta))\<rparr>" and l = "''a''" and at' = 2],
     simp_all add: demo_transformation_def grown_ok last_planned_others new_applied_delta_def)

lemma demo_to_commit:
  assumes "demo_at en e" "engine_ok e" "e_state en = Canonicalized" "e_canonical_cid en = Some other_cid" "e_verdict en = Some Admit"
    "e_verdict_digest en = Some other_cid"
  shows "wp (commit demo_config other_cid 5 sample_key)
     (\<lambda>st e. st = Committed \<and> en_world e \<and> (\<exists>en. en_table e other_cid = Some en \<and> e_state en = Committed)) (\<lambda>_ _. False) e"
  using assms
  by (simp add: commit_def demo_at_def wp_simps demo_simps wp_not_due set_state_def demo_config_times commit_verdict_def
      commit_canonicalized_def grown_ok guarded_def observed_postcondition_def demo_shape_def cas_eq_def)
    (rule demo_escrow, simp_all add: grown_ok last_planned_others,
     simp add: wp_simps body_readable_def demo_fields demo_held demo_simps cas_eq_def observed_postcondition_def guarded_def,
     rule demo_apply, simp, simp, simp_all add: demo_shape_def)

section \<open>The run\<close>

lemma demo_submitted_facts:
  "en_table demo_submitted = (\<lambda>_. None)" "\<exists>en. demo_at en demo_planned \<and> e_state en = Candidate \<and> e_since en = 2"
proof -
  note s = wp_next [OF demo_to_plan]
  show "en_table demo_submitted = (\<lambda>_. None)" using s by (rule conjunct1)
  show "\<exists>en. demo_at en demo_planned \<and> e_state en = Candidate \<and> e_since en = 2"
    by (rule wp_next [OF conjunct2 [OF s]])
qed

lemma demo_steps: "reachable demo_config demo_engine demo_planned" "reachable demo_config demo_engine demo_verified"
  "reachable demo_config demo_engine demo_canonicalized"
proof -
  show p: "reachable demo_config demo_engine demo_planned"
    using onward [OF onward [OF start step_operation [OF step_submit]] step_operation [OF step_plan]] demo_unclashed [OF demo_submitted_facts(1)] by blast
  then show v: "reachable demo_config demo_engine demo_verified" by (rule onward) (rule step_operation [OF step_verify])
  then show "reachable demo_config demo_engine demo_canonicalized" by (rule onward) (rule step_operation [OF step_canonicalize])
qed

lemmas demo_run_ok = demo_steps [THEN reachable_ok, OF demo_ok]

lemma demo_canonicalized_facts:
  "\<exists>en. demo_at en demo_canonicalized \<and> e_state en = Canonicalized \<and> e_canonical_cid en = Some other_cid \<and> e_verdict en = Some Admit
     \<and> e_verdict_digest en = Some other_cid"
proof -
  from demo_submitted_facts(2) wp_next [OF demo_to_verdict] obtain en where "demo_at en demo_verified" "e_state en = Admitted"
    "e_verdict en = Some Admit" "e_verdict_digest en = Some other_cid" by blast
  with demo_run_ok(2) wp_next [OF demo_to_canonical] show ?thesis by blast
qed

lemma demo_commits:
  "wp (commit demo_config other_cid 5 sample_key)
     (\<lambda>st e. st = Committed \<and> en_world e \<and> (\<exists>en. en_table e other_cid = Some en \<and> e_state en = Committed)) (\<lambda>_ _. False) demo_canonicalized"
  using demo_canonicalized_facts demo_to_commit [OF _ demo_run_ok(3)] by blast

end
