(* ===== verification/Engine_Theorems.thy ===== *)
theory Engine_Theorems
  imports Engine_Run
begin

text \<open>
  What the engine promises: nothing passes the gate unjudged, the tables agree with the journal, the
  world is changed by a commit only and only as it was when the change was planned, every receipt of
  a commit verifies against the ledger, and what is overdue is reaped.
\<close>

section \<open>The gate\<close>

lemma follows_patch:
  assumes "follows row js row' ss"
  shows "row'\<lparr>sr_state := sr_state row, sr_provenance := sr_provenance row\<rparr> = row
    \<and> (sr_state row' = sr_state row \<or> sr_state row = Some Committing \<and> sr_state row' = Some Canonicalized)"
proof -
  have "row' = row\<lparr>sr_state := sr_state row', sr_provenance := sr_provenance row'\<rparr>" using assms by (simp add: follows_def)
  then have "row'\<lparr>sr_state := sr_state row, sr_provenance := sr_provenance row\<rparr>
      = row\<lparr>sr_state := sr_state row', sr_provenance := sr_provenance row', sr_state := sr_state row, sr_provenance := sr_provenance row\<rparr>"
    by (rule arg_cong)
  then have "row'\<lparr>sr_state := sr_state row, sr_provenance := sr_provenance row\<rparr> = row" by simp
  moreover have "sr_state row' = sr_state row \<or> sr_state row = Some Committing \<and> sr_state row' = Some Canonicalized"
    using assms unfolding follows_def by blast
  ultimately show ?thesis ..
qed



text \<open>
  C4. The tables are what the journal says, but for three things. In every reachable state an entry has a
  row in the replay of the journal, and its state is the one the replay gives, except that an entry at
  \<open>Committing\<close> may be \<open>Committed\<close> in the journal (an error came after the record of its commit) and an
  aborted entry may be a \<open>Candidate\<close> there (an undo has recorded a new plan and then failed). The shadow,
  which answers for what is not in the table, has exactly the rows of the replay with the same contents,
  except for what the two records say that \<open>commit\<close> writes past it: the provenance of a row, and a state
  \<open>Committing\<close> for which the shadow still has \<open>Canonicalized\<close>.
\<close>

theorem tables_agree:
  assumes "ej_records j = []" "reachable cf (engine_at_open w n j jdir blobs obs ledger ldir hdir h vs vdir) e"
  shows "(\<forall>t en. en_table e t = Some en \<longrightarrow> (\<exists>row. sigma_state_of (reconstruct (en_records e)) t = Some row
      \<and> (sr_state row = Some (e_state en) \<or> e_state en = Committing \<and> sr_state row = Some Committed
           \<or> (\<exists>why. e_state en = Aborted why) \<and> sr_state row = Some Candidate)))
    \<and> (\<forall>t. case sigma_state_of (reconstruct (en_records e)) t of
        None \<Rightarrow> sh_rows (en_shadow e) t = None
      | Some row \<Rightarrow> \<exists>row'. sh_rows (en_shadow e) t = Some row'
          \<and> row'\<lparr>sr_state := sr_state row, sr_provenance := sr_provenance row\<rparr> = row
          \<and> (sr_state row' = sr_state row \<or> sr_state row = Some Committing \<and> sr_state row' = Some Canonicalized))"
proof (intro conjI allI impI)
  have ok: "agree (en_records e) (en_shadow e) (en_table e)"
    using reachable_ok [OF assms(2) fresh_ok [OF assms(1)]] by (simp add: engine_ok_def)
  fix t
  show "\<exists>row. sigma_state_of (reconstruct (en_records e)) t = Some row
      \<and> (sr_state row = Some (e_state en) \<or> e_state en = Committing \<and> sr_state row = Some Committed
           \<or> (\<exists>why. e_state en = Aborted why) \<and> sr_state row = Some Candidate)"
    if "en_table e t = Some en" for en
    using agreeD(2) [OF ok that] by (auto simp: said_by_def is_aborted_def sigma_state_of_reconstruct)
  have "local_ok (en_table e t) (sh_rows (reconstruct_shadow (en_records e)) t) (sh_since (reconstruct_shadow (en_records e)) t)
      (sh_rows (en_shadow e) t) (sh_since (en_shadow e) t)"
    using ok unfolding agree_def by blast
  then show "case sigma_state_of (reconstruct (en_records e)) t of
        None \<Rightarrow> sh_rows (en_shadow e) t = None
      | Some row \<Rightarrow> \<exists>row'. sh_rows (en_shadow e) t = Some row'
          \<and> row'\<lparr>sr_state := sr_state row, sr_provenance := sr_provenance row\<rparr> = row
          \<and> (sr_state row' = sr_state row \<or> sr_state row = Some Committing \<and> sr_state row' = Some Canonicalized)"
    by (auto simp: local_ok_def sigma_state_of_reconstruct dest: follows_patch split: option.splits)
qed

theorem tables_agree_witness:
  "\<exists>row. sigma_state_of (reconstruct (en_records demo_canonicalized)) other_cid = Some row \<and> sr_state row = Some Canonicalized"
proof -
  obtain en where en: "en_table demo_canonicalized other_cid = Some en" "e_state en = Canonicalized"
    using demo_canonicalized_facts by (auto simp: demo_at_def)
  have "ej_records (marked_journal False) = []" by (simp add: marked_journal_fields)
  from tables_agree [OF this demo_steps(3) [unfolded demo_engine_def], folded demo_engine_def] en show ?thesis by fastforce
qed

section \<open>The world\<close>

text \<open>What is known of a change to the world when a commit has made one.\<close>

definition found_unchanged :: "'w adapter \<Rightarrow> entry \<Rightarrow> 'w \<Rightarrow> bool" where
  "found_unchanged ad en w \<longleftrightarrow>
     (\<exists>snap. ad_snapshot ad (obj_locator (e_pre en)) w = Inr snap \<and> ad_precondition ad snap w = Inr (e_fp0 en))"

definition applied_to :: "'w adapter \<Rightarrow> entry \<Rightarrow> 'w \<Rightarrow> 'w \<Rightarrow> bool" where
  "applied_to ad en w w' \<longleftrightarrow> found_unchanged ad en w
     \<and> (case ad_apply ad (e_delta en) w of
          (Inr _, w1) \<Rightarrow> w' = w1
        | (Inl _, w1) \<Rightarrow> w' = w1
            \<or> (\<exists>out back. ad_invert ad (e_delta en) (e_pre en) w = Inr out \<and> io_inverse out = Some back \<and> w' = snd (ad_apply ad back w1)))"

lemma cas_eq_same: "cas_eq a b = Inr True \<longleftrightarrow> b = a"
  by (cases a; cases b) (auto simp: cas_eq_def)

lemma wp_world:
  assumes "leaves (world_part cf) m" "alone cf" "en_world e = w"
    and "\<And>a e'. en_world e' = w \<Longrightarrow> Q a e'" "\<And>x e'. en_world e' = w \<Longrightarrow> E x e'"
  shows "wp m Q E e"
  using assms by (intro wp_leaves [OF assms(1)]) (auto simp: world_part_def)

lemma wp_observed:
  assumes "alone cf" "en_world e = w" and "\<And>x e'. en_world e' = w \<Longrightarrow> E x e'"
    and "\<And>snap fp e'. ad_snapshot ad locator w = Inr snap \<Longrightarrow> ad_precondition ad snap w = Inr fp \<Longrightarrow> en_world e' = w \<Longrightarrow> Q fp e'"
  shows "wp (observed_postcondition cf ad locator) Q E e"
  using assms by (auto simp: observed_postcondition_def ask_def look_def wp_def then_do_def lift_def alone_def Let_def split: sum.split)

lemma wp_guarded_world:
  assumes "alone cf" "en_world e = w" "\<And>a e'. en_world e' = w \<Longrightarrow> P a e'" "\<And>x e'. en_world e' = w \<Longrightarrow> R x e'"
    and "\<And>e'. found_unchanged ad en w \<Longrightarrow> en_world e' = w \<Longrightarrow> wp go_on P R e'"
  shows "wp (guarded cf ad t en at go_on) P R e"
  unfolding guarded_def wp_then
proof (rule wp_observed [OF assms(1,2)])
  fix snap fp and e' :: "'a engine"
  assume s: "ad_snapshot ad (obj_locator (e_pre en)) w = Inr snap" "ad_precondition ad snap w = Inr fp" "en_world e' = w"
  have a: "wp (abort_entry cf t why None at) P R e'" for why
    by (rule wp_world [OF world.leaves_entries(2) assms(1) s(3)]) (use assms(3,4) in auto)
  show "wp (case cas_eq (e_fp0 en) fp of Inl _ \<Rightarrow> abort_entry cf t InternalError None at
      | Inr True \<Rightarrow> go_on | Inr False \<Rightarrow> abort_entry cf t PreconditionChanged None at) P R e'"
  proof (cases "cas_eq (e_fp0 en) fp = Inr True")
    case True
    with s have "found_unchanged ad en w" by (auto simp: found_unchanged_def cas_eq_same)
    with True s assms(5) show ?thesis by simp
  qed (auto simp: a split: sum.split bool.split)
qed (use assms(4) in auto)

lemma leaves_leaf: "leaves (world_part cf) (append_leaf cf t d at)"
  by (simp add: leaves_def append_leaf_run world_part_def split: prod.split)

lemma leaves_finish: "leaves (world_part cf) (finish_commit cf t v canonical out back applied at key)"
  unfolding finish_commit_def receipt_into_ledger_def
  by (intro leaves_intros leaves_leaf leaves_modify) (simp add: world_part_def)

lemma leaves_publish: "leaves (world_part cf) (publish_verdicts cf origin at key)"
proof -
  have "leaves (world_part cf) (append_checkpoint cf ck)" for ck
    by (simp add: leaves_def append_checkpoint_def world_part_def split: prod.split)
  then show ?thesis unfolding publish_verdicts_def
    by (intro leaves_intros leaves_modify) (simp_all add: world_part_def)
qed

lemma leaves_promise:
  "leaves (world_part cf) go_on \<Longrightarrow> leaves (world_part cf) (check_promise cf t applied at go_on)"
  unfolding check_promise_def Let_def
  by (intro leaves_intros leaves_modify) (simp_all add: world_part_def)

lemma wp_apply_once:
  assumes "alone cf" "en_world e = w" "\<And>e'. en_world e' = snd (ad_apply ad d w) \<Longrightarrow> Q (fst (ad_apply ad d w)) e'"
  shows "wp (apply_once cf ad d) Q E e"
  using assms by (auto simp: wp_def apply_once_def alone_def split: prod.split)

lemma wp_compensate_world:
  assumes al: "alone cf" and "en_world e = w"
    and Q: "\<And>a e'. en_world e' = w \<or> (\<exists>c back pending. held = Some (c, back, pending) \<and> en_world e' = snd (ad_apply ad back w)) \<Longrightarrow> Q a e'"
    and E: "\<And>x e'. en_world e' = w \<or> (\<exists>c back pending. held = Some (c, back, pending) \<and> en_world e' = snd (ad_apply ad back w)) \<Longrightarrow> E x e'"
  shows "wp (compensate cf ad t locator fp0 held at) Q E e"
proof -
  have na: "wp (not_attempted t why) Q E e'" if "en_world e' = w" for why e'
    by (rule wp_world [OF world.leaves_entries(6) al that]) (use Q E in auto)
  have landed: "wp (case r of Inl _ \<Rightarrow> ret Failed | Inr _ \<Rightarrow> rollback_landed cf ad locator fp0) Q E e'"
    if "en_world e' = snd (ad_apply ad b w)" "held = Some (c, b, pending)" for r c b pending e'
    using that
    by (intro wp_world [OF _ al, of _ _ "snd (ad_apply ad b w)"])
      (auto intro!: leaves_intros Q E split: sum.split)
  have again: "wp (then_do (start_apply cf t c at) (\<lambda>_. then_do (apply_once cf ad b)
      (\<lambda>r. case r of Inl _ \<Rightarrow> ret Failed | Inr _ \<Rightarrow> rollback_landed cf ad locator fp0))) Q E e'" if "en_world e' = w" "held = Some (c, b, pending)" for c b pending e'
    unfolding wp_then
    by (rule wp_world [OF world.leaves_observation(2) al that(1)]) (auto intro!: wp_apply_once [OF al] landed [OF _ that(2)] E)
  have still: "wp (then_do (world_is_still_at cf ad locator left_at) (\<lambda>still. case still of
      None \<Rightarrow> not_attempted t WorldCouldNotBeRead
    | Some still \<Rightarrow> if \<not> still then not_attempted t WorldMovedBeneath
        else then_do (start_apply cf t c at) (\<lambda>_. then_do (apply_once cf ad b)
          (\<lambda>r. case r of Inl _ \<Rightarrow> ret Failed | Inr _ \<Rightarrow> rollback_landed cf ad locator fp0)))) Q E e'"
    if "en_world e' = w" "held = Some (c, b, pending)" for left_at c b pending e'
    unfolding wp_then
    by (rule wp_world [OF world.leaves_reads(3) al that(1)]) (auto intro!: na again [OF _ that(2)] E split: option.split)
  show ?thesis
    unfolding compensate_def
    by (cases held) (auto simp: wp_then intro!: na E wp_world [OF world.leaves_reads(2) al assms(2)] still [unfolded wp_then] assms(2) split: compensation_verdict.split)
qed

lemma wp_apply_world:
  assumes al: "alone cf" and w: "en_world e = w" and found: "found_unchanged ad en w"
    and inv: "ad_invert ad (e_delta en) (e_pre en) w = Inr out" "\<And>c back pending. held = Some (c, back, pending) \<Longrightarrow> io_inverse out = Some back"
    and P: "\<And>a e'. en_world e' = w \<or> applied_to ad en w (en_world e') \<Longrightarrow> P a e'"
    and R: "\<And>x e'. en_world e' = w \<or> applied_to ad en w (en_world e') \<Longrightarrow> R x e'"
  shows "wp (apply_and_finish cf ad t en v canonical out held at key) P R e"
proof -
  obtain r w1 where ap: "ad_apply ad (e_delta en) w = (r, w1)" by (cases "ad_apply ad (e_delta en) w")
  have after: "wp m P R e'" if "leaves (world_part cf) m" "en_world e' = w2" "applied_to ad en w w2" for m e' w2
    by (rule wp_world [OF that(1) al that(2)]) (use P R that(3) in auto)
  have failed: "wp (then_do (compensate cf ad t locator fp0 held at) (\<lambda>rb. abort_entry cf t abort_reason.ApplyFailed (Some rb) at)) P R e'"
    if "r = Inl x" "en_world e' = w1" for x locator fp0 e'
  proof -
    have a: "applied_to ad en w w2"
      if "w2 = w1 \<or> (\<exists>c back pending. held = Some (c, back, pending) \<and> w2 = snd (ad_apply ad back w1))" for w2
      using that ap \<open>r = Inl x\<close> found inv by (auto simp: applied_to_def)
    show ?thesis unfolding wp_then
      by (rule wp_compensate_world [OF al that(2)]) (auto intro!: after [OF world.leaves_entries(2)] R a)
  qed
  show ?thesis
    unfolding apply_and_finish_def wp_then
  proof (rule wp_world [OF world.leaves_observation(2) al w], goal_cases)
    case (1 a e1)
    show ?case
    proof (rule wp_apply_once [OF al 1], goal_cases)
      case (1 e2)
      show ?case
      proof (cases r)
        case (Inl x)
        with 1 failed ap show ?thesis by simp
      next
        case (Inr result)
        with ap found have a: "applied_to ad en w w1" by (simp add: applied_to_def)
        from Inr 1 ap show ?thesis
          unfolding Let_def by (simp, intro after [OF _ _ a] leaves_intros leaves_promise leaves_finish)
      qed
    qed
  qed (use R in auto)
qed

text \<open>The inverse that is escrowed is the one the adapter gave of the world as it is.\<close>

lemma wp_ask_world:
  assumes "alone cf" "en_world e = w" "\<And>a e'. q w = Inr a \<Longrightarrow> en_world e' = w \<Longrightarrow> Q a e'" "\<And>x e'. en_world e' = w \<Longrightarrow> R x e'"
  shows "wp (ask cf act q) Q R e"
  using assms by (auto simp: ask_def look_def wp_def then_do_def lift_def alone_def Let_def map_err_def split: sum.splits)

lemma wp_then_later: "(\<And>a s'. wp (f a) Q (\<lambda>_ _. True) s') \<Longrightarrow> wp (then_do m f) Q (\<lambda>_ _. True) s"
  by (simp add: wp_then wp_def [of m] split: prod.split sum.split)

lemma escrow_holds_inverse:
  "wp (escrow_inverse cf t d out at) (\<lambda>held _. \<forall>c back pending. held = Some (c, back, pending) \<longrightarrow> io_inverse out = Some back) (\<lambda>_ _. True) e"
  unfolding escrow_inverse_def Let_def
  by (auto split: option.split intro!: wp_then_later simp: wp_ret)

lemma wp_escrow_world:
  assumes "alone cf" "en_world e = w" "\<And>x e'. en_world e' = w \<Longrightarrow> R x e'"
    and "\<And>held e'. en_world e' = w \<Longrightarrow> (\<And>c back pending. held = Some (c, back, pending) \<Longrightarrow> io_inverse out = Some back) \<Longrightarrow> Q held e'"
  shows "wp (escrow_inverse cf t d out at) Q R e"
proof -
  have "wp (escrow_inverse cf t d out at) (\<lambda>_ e'. en_world e' = w) (\<lambda>_ e'. en_world e' = w) e"
    by (rule wp_world [OF world.leaves_escrow(1) assms(1,2)])
  from wp_conj [OF this escrow_holds_inverse] show ?thesis by (rule wp_mono) (use assms(3,4) in auto)
qed

lemma world_frame: "alone cf \<Longrightarrow> leaves (world_part cf) m \<Longrightarrow> en_world (snd (m e)) = en_world e"
  using leavesD [of "world_part cf" m e] by (simp add: world_part_def)

text \<open>An expiry changes nothing or aborts the entry.\<close>

lemma wp_expire:
  assumes "Q False e"
    "\<And>e'. en_world e' = en_world e \<Longrightarrow> (\<And>en. en_table e' t = Some en \<Longrightarrow> e_state en = Aborted Expired) \<Longrightarrow> Q True e'"
    "\<And>x e'. en_world e' = en_world e \<Longrightarrow> E x e'"
  shows "wp (expire_if_due cf t now) Q E e"
  by (auto simp: expire_if_due_def abort_entry_def set_state_def wp_simps intro!: wp_append assms split: option.split)

lemma wp_adapter_of:
  "wp (adapter_of cf k) Q E e = (case cf_adapters cf k of None \<Rightarrow> E (NotFound ''adapter'') e | Some (ad, version) \<Rightarrow> Q ad e)"
  by (auto simp: adapter_of_def wp_simps ok_or_def split: option.split)

lemma commit_canonicalized_world:
  assumes al: "alone cf" and w: "en_world e = w"
    and P: "\<And>a e'. en_world e' = w \<or> applied_to ad en w (en_world e') \<Longrightarrow> P a e'"
    and R: "\<And>x e'. en_world e' = w \<or> applied_to ad en w (en_world e') \<Longrightarrow> R x e'"
  shows "wp (commit_canonicalized cf t en canonical v ad at key) P R e"
proof -
  note still = wp_world [OF _ al]
  have inner: "wp (guarded cf ad t en at (
       then_do (ask cf ''invert'' (ad_invert ad (e_delta en) (e_pre en))) (\<lambda>out.
       then_do (escrow_inverse cf t (e_delta en) out at) (\<lambda>held.
       then_do (get (\<lambda>e. body_readable cf e held)) (\<lambda>readable.
       if \<not> readable then fail EngineMalformed
       else guarded cf ad t en at (apply_and_finish cf ad t en v canonical out held at key)))))) P R e'" if "en_world e' = w" for e'
  proof (rule wp_guarded_world [OF al that])
    fix e1 :: "'a engine" assume "en_world e1 = w"
    then show "wp (then_do (ask cf ''invert'' (ad_invert ad (e_delta en) (e_pre en))) (\<lambda>out.
       then_do (escrow_inverse cf t (e_delta en) out at) (\<lambda>held.
       then_do (get (\<lambda>e. body_readable cf e held)) (\<lambda>readable.
       if \<not> readable then fail EngineMalformed
       else guarded cf ad t en at (apply_and_finish cf ad t en v canonical out held at key))))) P R e1"
      unfolding wp_then
      by (intro wp_ask_world [OF al] wp_escrow_world [OF al])
        (auto simp: wp_simps intro!: wp_guarded_world [OF al] wp_apply_world [OF al] P R)
  qed (use P R in auto)
  show ?thesis
    unfolding commit_canonicalized_def wp_then
    by (intro still [OF world.leaves_appends(1)] still [OF world.leaves_entries(1)] still [OF world.leaves_steps(5)] inner R disjI1) (rule w)
qed

lemma commit_world:
  assumes al: "alone cf"
  shows "en_world (snd (commit cf t at key e)) = en_world e
     \<or> (\<exists>en ad version. en_table e t = Some en \<and> e_state en = Canonicalized
          \<and> cf_adapters cf (pd_substrate (e_delta en)) = Some (ad, version)
          \<and> applied_to ad en (en_world e) (en_world (snd (commit cf t at key e))))"
proof -
  let ?P = "\<lambda>e'. en_world e' = en_world e
     \<or> (\<exists>en ad version. en_table e t = Some en \<and> e_state en = Canonicalized
          \<and> cf_adapters cf (pd_substrate (e_delta en)) = Some (ad, version)
          \<and> applied_to ad en (en_world e) (en_world e'))"
  have "wp (commit cf t at key) (\<lambda>_. ?P) (\<lambda>_. ?P) e"
    unfolding commit_def wp_then
    by (rule wp_expire)
      (auto simp: wp_simps wp_adapter_of intro!: commit_canonicalized_world [OF al] split: option.split sum.split)
  then show ?thesis by (simp add: wp_run)
qed

text \<open>A recovery applies a delta only for a row whose application was announced.\<close>

lemma leaves_close: "leaves (world_part cf) (close_row cf t leaf rb at key)" "leaves (world_part cf) (close_held cf t x path matched at key)"
  unfolding close_held_def close_row_def by (intro leaves_intros leaves_modify; simp add: world_part_def)+

lemma leaves_resume_leaf: "leaves (world_part cf) (resume_leaf cf t held filed d at key)"
proof -
  have "leaves (world_part cf) (append_entry cf t d at)"
    by (simp add: leaves_def append_entry_def world_part_def split: prod.split)
  then show ?thesis unfolding resume_leaf_def by (intro leaves_intros)
qed

lemma leaves_resume_finish: "leaves (world_part cf) (resume_finish cf t row escrow held filed v canonical fp0 post post' at key)"
  unfolding resume_finish_def resume_receipt_def by (intro leaves_intros leaves_close leaves_resume_leaf)

lemma leaves_resume_held: "leaves (world_part cf) (resume_rebuild cf t row escrow (Some x) at key)"
  unfolding resume_rebuild_def resume_world_def refuse_row_def option.case
  by (auto split: option.split intro!: leaves_intros leaves_close leaves_resume_finish)

lemma leaves_resume: "sr_apply_started row = None \<Longrightarrow> leaves (world_part cf) (resume cf row escrow at key)"
  unfolding resume_def refuse_row_def Let_def
  by (auto split: option.split intro!: leaves_intros leaves_close leaves_resume_held)

text \<open>
  What a recovery may do to the world: row by row, nothing, or, for a row that was left at \<open>Committing\<close> with
  its application announced, the application once more of the delta that the journal names.
\<close>

fun reapplied :: "'w engine_config \<Rightarrow> state_row list \<Rightarrow> 'w \<Rightarrow> 'w \<Rightarrow> bool" where
  "reapplied cf [] w w' \<longleftrightarrow> w' = w"
| "reapplied cf (row # rows) w w' \<longleftrightarrow>
     reapplied cf rows w w'
     \<or> sr_state row = Some Committing \<and> sr_apply_started row \<noteq> None
       \<and> (\<exists>d ad version. sr_delta_cid row = Some (delta_cid (pd_reference d)) \<and> cf_adapters cf (pd_substrate d) = Some (ad, version)
            \<and> reapplied cf rows (snd (ad_apply ad d w)) w')"

lemma reapplied_none: "reapplied cf rows w w"
  by (induction rows) simp_all

lemma wp_fetched:
  assumes "en_world e = w" "\<And>d e'. delta_cid (pd_reference d) = c \<Longrightarrow> en_world e' = w \<Longrightarrow> Q d e'" "\<And>x e'. en_world e' = w \<Longrightarrow> R x e'"
  shows "wp (fetch_blob cf c) Q R e"
  using assms
  by (auto simp: wp_def fetch_blob_def blob_get_def and_then_eq_Inr and_then_def split: sum.splits option.splits if_splits)

definition row_applied :: "'w engine_config \<Rightarrow> state_row \<Rightarrow> 'w \<Rightarrow> 'a \<Rightarrow> 'w engine \<Rightarrow> bool" where
  "row_applied cf row w a e' \<longleftrightarrow> reapplied cf [row] w (en_world e')"

lemma row_left: "en_world e' = w \<Longrightarrow> row_applied cf row w a e'"
  by (simp add: row_applied_def)

lemma wp_row_left:
  assumes "alone cf" "leaves (world_part cf) m" "en_world e = w"
  shows "wp m (row_applied cf row w) (row_applied cf row w) e"
  by (rule wp_world [OF assms(2,1,3)]) (simp_all add: row_left)

lemma wp_reapply_world:
  assumes al: "alone cf" and row: "sr_state row = Some Committing" "sr_apply_started row \<noteq> None" "sr_delta_cid row = Some c"
    and d: "delta_cid (pd_reference d) = c" "cf_adapters cf (pd_substrate d) = Some (ad, version)" and w: "en_world e = w"
  shows "wp (reapply cf ad t d c at (\<lambda>post. resume_finish cf t row escrow held filed_key v canonical fp0 c' post at key))
     (row_applied cf row w) (row_applied cf row w) e"
proof -
  have after: "wp m (row_applied cf row w) (row_applied cf row w) e2"
    if "leaves (world_part cf) m" "en_world e2 = snd (ad_apply ad d w)" for m :: "('a engine, recovered) action" and e2
    by (rule wp_world [OF that(1) al that(2)]) (use d row in \<open>auto simp: row_applied_def\<close>)
  show ?thesis
    unfolding reapply_def
    by (rule wp_then [THEN iffD2], rule wp_world [OF world.leaves_appends(2) al w], rule wp_then [THEN iffD2], rule wp_apply_once [OF al],
        assumption, rule after) (auto simp: row_left intro!: leaves_intros leaves_resume_finish leaves_modify, auto simp: world_part_def)
qed

text \<open>The part of a resumption after the delta has been read.\<close>

lemma wp_resume_adapter:
  assumes al: "alone cf" and row: "sr_state row = Some Committing" "sr_apply_started row \<noteq> None" "sr_delta_cid row = Some c"
    and d: "delta_cid (pd_reference d) = c" and w: "en_world e = w"
  shows "wp (then_do (adapter_of cf (pd_substrate d)) (\<lambda>ad. then_do (settle_for_resume cf t row escrow at) (\<lambda>c'.
      then_do (filed_key_id cf t) (\<lambda>filed_key. reapply cf ad t d c at (\<lambda>post.
        resume_finish cf t row escrow None filed_key v canonical fp0 c' post at key))))) (row_applied cf row w) (row_applied cf row w) e"
proof (cases "cf_adapters cf (pd_substrate d)")
  case None
  then show ?thesis using w by (simp add: wp_then wp_adapter_of row_left)
next
  case (Some x)
  then obtain ad version where x: "cf_adapters cf (pd_substrate d) = Some (ad, version)" by (cases x) simp
  have "wp (then_do (settle_for_resume cf t row escrow at) (\<lambda>c'. then_do (filed_key_id cf t) (\<lambda>filed_key. reapply cf ad t d c at (\<lambda>post.
      resume_finish cf t row escrow None filed_key v canonical fp0 c' post at key)))) (row_applied cf row w) (row_applied cf row w) e"
    unfolding wp_then
  proof (rule wp_world [OF world.leaves_settle al w], goal_cases)
    case (1 c' e2)
    show ?case by (rule wp_world [OF world.leaves_archive(2) al 1], erule wp_reapply_world [OF al row d x]) (rule row_left)
  qed (rule row_left)
  then show ?thesis by (simp add: wp_then [of "adapter_of cf (pd_substrate d)"] wp_adapter_of x)
qed

lemma wp_rebuild_world:
  assumes al: "alone cf" and row: "sr_state row = Some Committing" "sr_apply_started row \<noteq> None" and w: "en_world e = w"
  shows "wp (resume_rebuild cf t row escrow None at key) (row_applied cf row w) (row_applied cf row w) e"
proof (cases "(sr_delta_cid row, sr_canonical_cid row, sr_fp0 row, row_verdict row)")
  case (fields dc cc fp v)
  show ?thesis
  proof (cases "\<exists>c canonical fp0 v'. dc = Some c \<and> cc = Some canonical \<and> fp = Some fp0 \<and> v = Some v'")
    case True
    then obtain c canonical fp0 v' where c: "sr_delta_cid row = Some c" "sr_canonical_cid row = Some canonical" "sr_fp0 row = Some fp0" "row_verdict row = Some v'"
      using fields by auto
    have "wp (then_do (fetch_blob cf c) (\<lambda>d. then_do (adapter_of cf (pd_substrate d)) (\<lambda>ad. then_do (settle_for_resume cf t row escrow at) (\<lambda>c'.
        then_do (filed_key_id cf t) (\<lambda>filed_key. reapply cf ad t d c at (\<lambda>post.
          resume_finish cf t row escrow None filed_key v' canonical fp0 c' post at key)))))) (row_applied cf row w) (row_applied cf row w) e"
      by (rule wp_then [THEN iffD2], rule wp_fetched [OF w], erule (1) wp_resume_adapter [OF al row c(1)]) (rule row_left)
    with c show ?thesis by (simp add: resume_rebuild_def wp_then wp_lift ok_or_def resume_world_def)
  next
    case False
    have "wp (refuse_row cf t at) (row_applied cf row w) (row_applied cf row w) e"
      unfolding refuse_row_def by (intro wp_row_left [OF al _ w] leaves_intros)
    with False fields w show ?thesis
      by (auto simp: resume_rebuild_def wp_then wp_lift ok_or_def row_left split: option.split)
  qed
qed

lemma wp_resume_world:
  assumes al: "alone cf" and w: "en_world e = w" and st: "sr_state row = Some Committing"
  shows "wp (resume cf row escrow at key) (row_applied cf row w) (row_applied cf row w) e"
proof (cases "sr_apply_started row = None")
  case True
  then show ?thesis by (intro wp_row_left [OF al leaves_resume w])
next
  case False
  show ?thesis
  proof (cases "held_entry e (sr_transformation row)")
    case None
    with wp_rebuild_world [OF al st False w] False show ?thesis by (auto simp: resume_def Let_def wp_then wp_get)
  next
    case (Some x)
    have "leaves (world_part cf) (if entry_index x + 1 < log_len (ls_tree (en_ledger e))
          then ret ((report (sr_transformation row) NotResumed (case sr_state row of Some st \<Rightarrow> st | None \<Rightarrow> Committing))
                 \<lparr>rv_ledger_seq := Some (entry_index x), rv_refusal := Some LedgerMovedOn\<rparr>)
          else then_do (filed_receipt cf (sr_transformation row)) (\<lambda>found.
            if (case found of None \<Rightarrow> False | Some r \<Rightarrow> filed_agrees cf (sr_transformation row) x r)
            then close_held cf (sr_transformation row) x ClosedFromFiledReceipt (Some True) at key
            else resume_rebuild cf (sr_transformation row) row escrow (Some x) at key))"
      by (intro leaves_intros leaves_close leaves_resume_held)
    from wp_row_left [OF al this w] show ?thesis
      unfolding resume_def Let_def wp_then [of "get f" for f] wp_get by (simp only: Some prod.case option.case)
  qed
qed

lemma reapplied_step: "reapplied cf [row] w w1 \<Longrightarrow> reapplied cf rows w1 w2 \<Longrightarrow> reapplied cf (row # rows) w w2"
  by auto

lemma wp_recover_rows_world:
  assumes "alone cf" "en_world e = w"
  shows "wp (recover_rows cf sh at key out rows) (\<lambda>_ e'. reapplied cf rows w (en_world e')) (\<lambda>_ e'. reapplied cf rows w (en_world e')) e"
  using assms(2)
proof (induction rows arbitrary: out e w)
  case (Cons row rows)
  have skip: "reapplied cf rows w w' \<Longrightarrow> reapplied cf (row # rows) w w'" for w w' by simp
  show ?case
  proof (cases "sr_state row = Some Committing")
    case True
    have "wp (try_do (resume cf row (sh_escrow sh (sr_transformation row)) at key)
          (\<lambda>r. recover_rows cf sh at key (out @ [r]) rows)
          (\<lambda>why. then_do (modify (\<lambda>e. e\<lparr>en_partial := (en_partial e)\<lparr>rpt_finished := out\<rparr>\<rparr>)) (\<lambda>_. fail why)))
        (\<lambda>_ e'. reapplied cf (row # rows) w (en_world e')) (\<lambda>_ e'. reapplied cf (row # rows) w (en_world e')) e"
      unfolding wp_try
    proof (rule wp_mono [OF wp_resume_world [OF assms(1) Cons.prems True]], goal_cases)
      case (1 r e1)
      show ?case by (rule wp_mono [OF Cons.IH [OF refl]]; rule reapplied_step [OF 1 [unfolded row_applied_def]])
    next
      case (2 why e1)
      then show ?case using reapplied_step [OF 2 [unfolded row_applied_def] reapplied_none] by (simp add: wp_simps del: reapplied.simps)
    qed
    with True show ?thesis by simp
  next
    case False
    then show ?thesis
      using Cons.prems
      by (auto simp: Let_def wp_simps simp del: reapplied.simps split: option.split intro!: wp_mono [OF Cons.IH] skip)
  qed
qed (simp add: wp_simps)

lemma recover_world:
  assumes "alone cf"
  shows "en_world (snd (recover cf at key e)) = en_world e
     \<or> standing_refusal e = None \<and> reapplied cf (sg_transformations (reconstruct (en_records e))) (en_world e) (en_world (snd (recover cf at key e)))"
proof (cases "standing_refusal e")
  case None
  let ?e = "e\<lparr>en_partial := no_partial\<rparr>" and ?rows = "sg_transformations (reconstruct (en_records e))"
  have "reapplied cf ?rows (en_world e) (en_world (snd (recover_rows cf (reconstruct_shadow (en_records e)) at key [] ?rows ?e)))"
    using wp_recover_rows_world [OF assms, of ?e "en_world e" _ at key "[]" ?rows] by (simp add: wp_run)
  with None show ?thesis by (simp add: recover_def then_do_def modify_def get_def Let_def reconstruct_def)
next
  case (Some why)
  then show ?thesis by (simp add: recover_def then_do_def modify_def get_def ret_def Let_def)
qed

text \<open>
  C2. The world is changed by a commit, and only from where it was when the change was planned, or by the
  recovery of one. As long as nobody else changes the world, in every reachable state: every other
  operation leaves it as it is, undo included, which only plans. If a commit leaves it different, then
  the transformation stood at \<open>Canonicalized\<close> and was cleared for it, the world had the very fingerprint
  taken when the change was planned, and the new world is what the adapter's \<open>apply\<close> made of it with the
  planned delta, or, after a failed application, what the inverse that the adapter had given of that
  delta in that world then made of it. A recovery changes the world only if nothing stands against
  recovering, and then by applying once more, in the order of the rows and without comparing
  fingerprints, the deltas that the journal names for some of the transformations that were left at
  \<open>Committing\<close> with their application announced.
\<close>

theorem world_changes_behind_the_gate:
  assumes al: "\<forall>n w. cf_drift cf n w = w" and j: "ej_records j = []"
    and reach: "reachable cf (engine_at_open w0 n j jdir blobs obs ledger ldir hdir h vs vdir) e"
  shows "en_world (snd (submit cf i seed at e)) = en_world e \<and> en_world (snd (plan cf i at e)) = en_world e
    \<and> en_world (snd (verify cf t at key mode e)) = en_world e \<and> en_world (snd (escalation cf t ruling at key e)) = en_world e
    \<and> en_world (snd (cancel cf t at e)) = en_world e \<and> en_world (snd (reap cf at e)) = en_world e
    \<and> en_world (snd (canonicalize cf t at mode e)) = en_world e \<and> en_world (snd (accept_rollback cf against at key e)) = en_world e
    \<and> (en_world (snd (commit cf t at key e)) = en_world e
       \<or> (\<exists>en ad version. en_table e t = Some en \<and> e_state en = Canonicalized \<and> entry_cleared en
            \<and> cf_adapters cf (pd_substrate (e_delta en)) = Some (ad, version)
            \<and> applied_to ad en (en_world e) (en_world (snd (commit cf t at key e)))))
    \<and> en_world (snd (undo cf t witness seed at e)) = en_world e \<and> en_world (snd (rehydrate_committed cf t i e)) = en_world e
    \<and> en_world (snd (reissue_receipt cf t at key e)) = en_world e \<and> en_world (snd (publish_verdicts cf origin at key e)) = en_world e
    \<and> (en_world (snd (recover cf at key e)) = en_world e
       \<or> standing_refusal e = None
         \<and> reapplied cf (sg_transformations (reconstruct (en_records e))) (en_world e) (en_world (snd (recover cf at key e))))"
proof (intro conjI)
  have alone: "alone cf" using al by (simp add: alone_def)
  note frame = world_frame [OF alone]
  show "en_world (snd (submit cf i seed at e)) = en_world e" by (rule frame [OF world.leaves_submit])
  show "en_world (snd (plan cf i at e)) = en_world e" by (rule frame [OF world.leaves_plan])
  show "en_world (snd (verify cf t at key mode e)) = en_world e" by (rule frame [OF world.leaves_verify])
  show "en_world (snd (escalation cf t ruling at key e)) = en_world e" by (rule frame [OF world.leaves_escalation])
  show "en_world (snd (cancel cf t at e)) = en_world e" by (rule frame [OF world.leaves_cancel])
  show "en_world (snd (reap cf at e)) = en_world e" by (rule frame [OF world.leaves_expire(2)])
  show "en_world (snd (canonicalize cf t at mode e)) = en_world e" by (rule frame [OF world.leaves_canonicalize])
  show "en_world (snd (accept_rollback cf against at key e)) = en_world e" by (rule frame [OF world.leaves_accept])
  show "en_world (snd (undo cf t witness seed at e)) = en_world e" by (rule frame [OF world.leaves_undo])
  show "en_world (snd (rehydrate_committed cf t i e)) = en_world e" by (rule frame [OF world.leaves_rehydrate])
  show "en_world (snd (reissue_receipt cf t at key e)) = en_world e" by (rule frame [OF world.leaves_reissue])
  show "en_world (snd (publish_verdicts cf origin at key e)) = en_world e" by (rule frame [OF leaves_publish])
  show "en_world (snd (recover cf at key e)) = en_world e
       \<or> standing_refusal e = None
         \<and> reapplied cf (sg_transformations (reconstruct (en_records e))) (en_world e) (en_world (snd (recover cf at key e)))"
    by (rule recover_world [OF alone])
  have ok: "engine_ok e" using reachable_ok [OF reach fresh_ok [OF j]] .
  show "en_world (snd (commit cf t at key e)) = en_world e
       \<or> (\<exists>en ad version. en_table e t = Some en \<and> e_state en = Canonicalized \<and> entry_cleared en
            \<and> cf_adapters cf (pd_substrate (e_delta en)) = Some (ad, version)
            \<and> applied_to ad en (en_world e) (en_world (snd (commit cf t at key e))))"
    using commit_world [OF alone, of t at key e] ok [unfolded engine_ok_def, THEN conjunct1, THEN agreeD(1)] by blast
qed

theorem world_changes_behind_the_gate_witness:
  "\<exists>en ad version. \<not> en_world demo_canonicalized \<and> en_world (snd (commit demo_config other_cid 5 sample_key demo_canonicalized))
     \<and> en_table demo_canonicalized other_cid = Some en \<and> e_state en = Canonicalized \<and> entry_cleared en
     \<and> cf_adapters demo_config (pd_substrate (e_delta en)) = Some (ad, version) \<and> applied_to ad en False True"
proof -
  let ?e = demo_canonicalized and ?e' = "snd (commit demo_config other_cid 5 sample_key demo_canonicalized)"
  have w: "\<not> en_world ?e" using demo_canonicalized_facts by (auto simp: demo_at_def)
  have w': "en_world ?e'" by (rule wp_next [OF wp_mono [OF demo_commits]]) auto
  have j: "ej_records (marked_journal False) = []" by (simp add: marked_journal_fields)
  have al: "\<forall>n w. cf_drift demo_config n w = w" by (simp add: demo_config_def)
  note run = world_changes_behind_the_gate [where t = other_cid and at = 5 and key = sample_key, OF al j
      demo_steps(3) [unfolded demo_engine_def], folded demo_engine_def, THEN conjunct2, THEN conjunct2, THEN conjunct2, THEN conjunct2,
      THEN conjunct2, THEN conjunct2, THEN conjunct2, THEN conjunct2, THEN conjunct1]
  from run w w' have "\<exists>en ad version. en_table ?e other_cid = Some en \<and> e_state en = Canonicalized \<and> entry_cleared en
     \<and> cf_adapters demo_config (pd_substrate (e_delta en)) = Some (ad, version) \<and> applied_to ad en (en_world ?e) (en_world ?e')" by blast
  with w w' show ?thesis by (simp only: simp_thms eq_False eq_True)
qed

section \<open>Deadlines\<close>

definition due :: "'w engine_config \<Rightarrow> timestamp \<Rightarrow> 'w engine \<Rightarrow> transformation_id \<Rightarrow> bool" where
  "due cf now e t \<longleftrightarrow> (case deadline cf e t of None \<Rightarrow> False | Some d \<Rightarrow> d \<le> now)"

text \<open>What the two tables say of one transformation is all its deadline depends on.\<close>

definition same_about :: "transformation_id \<Rightarrow> 'w engine \<Rightarrow> 'w engine \<Rightarrow> bool" where
  "same_about t e e' \<longleftrightarrow> en_table e' t = en_table e t \<and> sh_rows (en_shadow e') t = sh_rows (en_shadow e) t
     \<and> sh_since (en_shadow e') t = sh_since (en_shadow e) t"

lemma same_about_deadline: "same_about t e e' \<Longrightarrow> deadline cf e' t = deadline cf e t"
proof -
  assume s: "same_about t e e'"
  then have "shadow_deadline cf e' t = shadow_deadline cf e t" by (simp add: same_about_def shadow_deadline_def)
  with s show ?thesis by (simp add: same_about_def deadline_def split: option.split)
qed

lemma same_about_due: "same_about t e e' \<Longrightarrow> due cf now e' t = due cf now e t"
  by (simp add: due_def same_about_deadline)

lemma same_about_trans: "same_about t e e' \<Longrightarrow> same_about t e' e'' \<Longrightarrow> same_about t e e''"
  by (simp add: same_about_def)

definition expired :: "transformation_id \<Rightarrow> 'w engine \<Rightarrow> bool" where
  "expired t e \<longleftrightarrow> (\<forall>en. en_table e t = Some en \<longrightarrow> e_state en = Aborted Expired)
     \<and> (\<exists>row. sh_rows (en_shadow e) t = Some row \<and> sr_state row = Some (Aborted Expired))"

lemma expired_same: "expired t e \<Longrightarrow> same_about t e e' \<Longrightarrow> expired t e'"
  by (simp add: expired_def same_about_def)

lemma expired_deadline: "expired t e \<Longrightarrow> deadline cf e t = None"
proof -
  assume x: "expired t e"
  then have "shadow_deadline cf e t = None" by (auto simp: expired_def shadow_deadline_def split: bind_split)
  moreover from x have "Option.bind (en_table e t) (deadline_of cf) = None"
    by (cases "en_table e t") (auto simp: expired_def deadline_of_def)
  ultimately show ?thesis by (simp add: deadline_def)
qed

lemma expired_final: "expired t e \<Longrightarrow> \<not> due cf now e t" "expired t e \<Longrightarrow> engine_state_of e t = Some (Aborted Expired)"
  by (simp_all add: due_def expired_deadline) (auto simp: expired_def engine_state_of_def split: option.splits)

lemma wp_append_failing:
  assumes "\<And>seq n j dir. Q seq (e\<lparr>en_tick := n, en_journal := j, en_journal_dir := dir, en_shadow := shadow_fold r (en_shadow e)\<rparr>)"
    and "\<And>err e'. journal_append_direct cf r e = (Inl err, e') \<Longrightarrow> E err e'"
  shows "wp (engine_journal_append cf r) Q E e"
proof -
  have "wp (engine_journal_append cf r) Q (\<lambda>_ _. True) e" by (rule wp_append) (auto intro: assms(1))
  moreover have "wp (engine_journal_append cf r) (\<lambda>_ _. True) E e"
    unfolding engine_journal_append_def wp_then using assms(2) by (auto simp: wp_def modify_def ret_def split: prod.split sum.split)
  ultimately show ?thesis using wp_conj wp_mono by fastforce
qed

lemma wp_expire_due:
  assumes "\<And>e'. (if due cf now e t then expired t e' else same_about t e e') \<Longrightarrow> (\<And>x. x \<noteq> t \<Longrightarrow> same_about x e e') \<Longrightarrow> Q (due cf now e t) e'"
    and "\<And>err e2. journal_append_direct cf (AbortedRec t Expired None now) e = (Inl err, e2) \<Longrightarrow> E err e2"
  shows "wp (expire_if_due cf t now) Q E e"
proof (cases "due cf now e t")
  case True
  have r: "record_transformation (AbortedRec t Expired None now) = Some t" by simp
  from True obtain d where "deadline cf e t = Some d" "d \<le> now" by (auto simp: due_def split: option.splits)
  moreover have go: "expired t e' \<Longrightarrow> (\<And>x. x \<noteq> t \<Longrightarrow> same_about x e e') \<Longrightarrow> Q True e'" for e' using assms(1) [of e'] True by simp
  ultimately show ?thesis
    by (auto simp: expire_if_due_def abort_entry_def set_state_def wp_simps expired_def same_about_def fold_row [OF r] fold_row_other
        intro!: wp_append_failing go assms(2))
next
  case False
  with assms(1) [of e] have "Q False e" by (simp add: same_about_def)
  with False show ?thesis by (auto simp: expire_if_due_def wp_simps due_def split: option.splits)
qed

lemma wp_reap_loop:
  assumes "distinct xs"
  shows "wp (for_each (\<lambda>t. then_do (expire_if_due cf t now) (\<lambda>b. ret (t, b))) xs)
     (\<lambda>rs e'. rs = map (\<lambda>t. (t, due cf now e t)) xs
        \<and> (\<forall>t. if t \<in> set xs \<and> due cf now e t then expired t e' else same_about t e e'))
     (\<lambda>err _. \<exists>t e1 e2. journal_append_direct cf (AbortedRec t Expired None now) e1 = (Inl err, e2)) e"
  using assms
proof (induction xs arbitrary: e)
  case Nil
  then show ?case by (simp add: wp_simps same_about_def)
next
  case (Cons x xs)
  show ?case
    unfolding for_each.simps wp_then
  proof (rule wp_expire_due, goal_cases)
    case (1 e1)
    note x = 1(1) and off = 1(2)
    have "wp (for_each (\<lambda>t. then_do (expire_if_due cf t now) (\<lambda>b. ret (t, b))) xs)
     (\<lambda>rs e'. rs = map (\<lambda>t. (t, due cf now e1 t)) xs
        \<and> (\<forall>t. if t \<in> set xs \<and> due cf now e1 t then expired t e' else same_about t e1 e'))
     (\<lambda>err _. \<exists>t e1 e2. journal_append_direct cf (AbortedRec t Expired None now) e1 = (Inl err, e2)) e1"
      using Cons by simp
    then show ?case
      unfolding wp_simps
    proof (rule wp_mono, goal_cases)
      case (1 rs e')
      then show ?case unfolding wp_simps
        using Cons.prems x off same_about_due [OF off] same_about_trans [OF off] same_about_trans [of x e e1 e'] expired_same [of x e1 e']
        by (auto split: if_splits) metis+
    qed
  qed blast
qed

text \<open>
  C5. What is overdue is reaped. When \<open>reap\<close> returns, it returns exactly the overdue transformations in
  increasing order, each of them is aborted as expired, no deadline that has passed is left, and the
  entries of all others are untouched. It fails only if the journal refuses the record of an expiry.
\<close>

theorem reap_leaves_nothing_overdue:
  "case reap cf now e of
     (Inr ts, e') \<Rightarrow> ts = sorted_list_of_set {t. \<exists>d. deadline cf e t = Some d \<and> d \<le> now}
       \<and> (\<forall>t. case deadline cf e' t of None \<Rightarrow> True | Some d \<Rightarrow> now < d)
       \<and> (\<forall>t. if t \<in> set ts then engine_state_of e' t = Some (Aborted Expired) else en_table e' t = en_table e t)
   | (Inl err, e') \<Rightarrow> \<exists>t e1 e2. journal_append_direct cf (AbortedRec t Expired None now) e1 = (Inl err, e2)"
proof -
  let ?due = "{t. \<exists>d. deadline cf e t = Some d \<and> d \<le> now}"
  have dueset: "t \<in> ?due \<longleftrightarrow> due cf now e t" for t by (auto simp: due_def split: option.splits)
  have fin: "finite (A :: transformation_id set)" for A by (rule finite)
  have cands: "distinct (reap_candidates e)" by (auto simp: reap_candidates_def)
  have all: "t \<in> set (reap_candidates e)" if "due cf now e t" for t
    using that by (cases "en_table e t") (auto simp: reap_candidates_def fin due_def deadline_def shadow_deadline_def split: option.splits bind_splits)
  have sorted: "sort (map fst (filter snd (map (\<lambda>t. (t, due cf now e t)) (reap_candidates e)))) = sorted_list_of_set ?due"
  proof -
    let ?ts = "filter (due cf now e) (reap_candidates e)"
    have "?due = set ?ts" using all dueset by auto
    moreover have "remdups ?ts = ?ts" using cands by (intro distinct_remdups_id) simp
    ultimately have "sorted_list_of_set ?due = sort ?ts" using sorted_list_of_set_sort_remdups [of ?ts] by metis
    then show ?thesis by (simp add: filter_map comp_def)
  qed
  have "wp (reap cf now) (\<lambda>ts e'. ts = sorted_list_of_set ?due
       \<and> (\<forall>t. case deadline cf e' t of None \<Rightarrow> True | Some d \<Rightarrow> now < d)
       \<and> (\<forall>t. if t \<in> set ts then engine_state_of e' t = Some (Aborted Expired) else en_table e' t = en_table e t))
     (\<lambda>err _. \<exists>t e1 e2. journal_append_direct cf (AbortedRec t Expired None now) e1 = (Inl err, e2)) e"
    unfolding reap_def wp_then wp_get
  proof (rule wp_mono [OF wp_reap_loop [OF cands]], goal_cases)
    case (1 rs e')
    then have each: "if due cf now e t then expired t e' else same_about t e e'" for t using all by (auto split: if_splits)
    have "case deadline cf e' t of None \<Rightarrow> True | Some d \<Rightarrow> now < d" for t
      using each [of t] expired_deadline [of t e' cf] same_about_deadline [of t e e' cf]
      by (auto simp: due_def split: if_splits option.splits)
    moreover have "if t \<in> ?due then engine_state_of e' t = Some (Aborted Expired) else en_table e' t = en_table e t" for t
      using each [of t] expired_final(2) [of t e'] unfolding dueset by (auto simp: same_about_def split: if_splits)
    ultimately show ?case using 1 sorted by (simp add: wp_simps fin)
  qed
  then show ?thesis by (simp add: wp_def split: prod.splits sum.splits)
qed

end
