(* ===== verification/Engine_Receipts.thy ===== *)
theory Engine_Receipts
  imports Engine_Theorems
begin

text \<open>
  The receipts of commits: what the engine files is what an auditor can check without it. The
  application of the delta, the escrow and the journal do not touch the ledger (\<open>Engine_Frames\<close>); the
  receipt is issued over the leaf that carries its digest (\<open>Receipt\<close>).
\<close>

text \<open>What the engine relies on: the codec of payloads, the keys, and sizes that fit the machine.\<close>

definition receipt_setting ::
  "'w engine_config \<Rightarrow> (bytes \<Rightarrow> string + receipt_payload) \<Rightarrow> key_pair \<Rightarrow> verifying_key \<Rightarrow> bool" where
  "receipt_setting cf fp key vk \<longleftrightarrow> payload_codec (ec_payload (cf_codec cf))
     \<and> (\<forall>p bs. ec_payload (cf_codec cf) p = Inr bs \<longrightarrow> fp bs = Inr p \<and> length bs < u64_limit)
     \<and> vk_key_id vk = kp_key_id key \<and> (\<forall>m. vk_check vk m (kp_sign key m))"

text \<open>A receipt that stands in the ledger of this state.\<close>

definition receipt_stands ::
  "'w engine_config \<Rightarrow> (bytes \<Rightarrow> string + receipt_payload) \<Rightarrow> verifying_key \<Rightarrow> ledger_store \<Rightarrow> transformation_id \<Rightarrow> cid \<Rightarrow> receipt \<Rightarrow> bool" where
  "receipt_stands cf fp vk store t canonical r \<longleftrightarrow>
     (\<forall>anch policy. ck_tree_size (anc_checkpoint anch) = log_len (ls_tree store)
        \<and> log_root (ec_hash (cf_codec cf)) (ls_tree store) = Inr (Some (ck_root_hash (anc_checkpoint anch))) \<longrightarrow>
        (\<exists>c. checks_of (ec_hash (cf_codec cf)) (ec_leaf (cf_codec cf)) fp r vk (Some anch) policy = Inr c \<and> chk_inclusion c = Verified
           \<and> chk_canonical_cid c = (canonical = t)))"

definition grown_by :: "ledger_store \<Rightarrow> transformation_id \<Rightarrow> ledger_store \<Rightarrow> bool" where
  "grown_by store t store' \<longleftrightarrow> (\<exists>x. entry_transformation x = t \<and> log_entries (ls_tree store') = log_entries (ls_tree store) @ [x])"

lemma ledger_append_fresh:
  "ls_by_key store t = None \<Longrightarrow> ledger_append H lv te outcome t d at dir store = (Inr out, dir', store') \<Longrightarrow> \<exists>x. out = Appended x"
  by (auto simp: ledger_append_def split: if_splits sum.splits prod.splits)

lemma stage_entry: "stage H lv log t d at = Inr x \<Longrightarrow>
   entry_leaf x = \<lparr>leaf_index = log_len log, leaf_receipt = d, leaf_transformation = t\<rparr> \<and> entry_index x = log_len log \<and> entry_transformation x = t"
  by (auto simp: stage_def Let_def entry_leaf_def and_then_eq_Inr)

lemma wp_receipt:
  assumes setting: "receipt_setting cf fp key vk"
    and ok: "store_ok (ec_hash (cf_codec cf)) (ec_leaf (cf_codec cf)) (ec_entry (cf_codec cf)) (en_ledger_dir e) (en_ledger e)"
    and fresh: "ls_by_key (en_ledger e) t = None" and small: "Suc (log_len (ls_tree (en_ledger e))) < u64_limit"
    and p: "rp_key_id p = kp_key_id key" "rp_receipt_kind p = CommitReceipt" "rp_transformation p = t" "rp_canonical_cid p = canonical"
    and Q: "\<And>leaf r e'. en_table e' = en_table e \<Longrightarrow> grown_by (en_ledger e) t (en_ledger e') \<Longrightarrow>
      store_ok (ec_hash (cf_codec cf)) (ec_leaf (cf_codec cf)) (ec_entry (cf_codec cf)) (en_ledger_dir e') (en_ledger e') \<Longrightarrow>
      receipt_stands cf fp vk (en_ledger e') t canonical r \<Longrightarrow> Q (leaf, r) e'"
  shows "wp (receipt_into_ledger cf t p at key) Q (\<lambda>_ _. True) e"
proof (cases "ledger_digest (ec_hash (cf_codec cf)) (ec_payload (cf_codec cf)) p")
  case (Inl x)
  then show ?thesis by (simp add: receipt_into_ledger_def wp_simps)
next
  case (Inr d)
  let ?H = "ec_hash (cf_codec cf)" and ?lv = "ec_leaf (cf_codec cf)" and ?te = "ec_entry (cf_codec cf)" and ?tp = "ec_payload (cf_codec cf)"
  obtain res dir' store' where a: "ledger_append ?H ?lv ?te (sys_ledger (cf_system cf) (en_tick e)) t d at (en_ledger_dir e) (en_ledger e)
      = (res, dir', store')" by (rule prod_cases3)
  let ?e1 = "e\<lparr>en_tick := Suc (en_tick e), en_ledger := store', en_ledger_dir := dir'\<rparr>"
  show ?thesis
  proof (cases res)
    case (Inl x)
    with a \<open>ledger_digest ?H ?tp p = Inr d\<close> show ?thesis by (simp add: receipt_into_ledger_def wp_simps) (simp add: wp_def append_leaf_run)
  next
    case (Inr out)
    obtain x where x: "out = Appended x" using ledger_append_fresh [OF fresh] a Inr by blast
    with append_effect [OF ok a] Inr obtain st: "stage ?H ?lv (ls_tree (en_ledger e)) t d at = Inr x"
      and ok': "store_ok ?H ?lv ?te dir' store'" and es: "log_entries (ls_tree store') = log_entries (ls_tree (en_ledger e)) @ [x]" by auto
    note leaf = stage_entry [OF st]
    let ?i = "log_len (ls_tree (en_ledger e))"
    have run: "append_leaf cf t d at e = (Inr ?i, ?e1)" using a Inr x leaf by (simp add: append_leaf_run)
    have stands: "receipt_stands cf fp vk store' t canonical r"
      if "prove_inclusion ?H (ls_tree store') ?i = Inr ipf" "receipt_issue ?tp (p\<lparr>rp_inclusion_proof := Some ipf\<rparr>) at key = Inr r" for ipf r
      unfolding receipt_stands_def
    proof (intro allI impI)
      fix anch :: anchorage and policy
      assume anch: "ck_tree_size (anc_checkpoint anch) = log_len (ls_tree store')
        \<and> log_root ?H (ls_tree store') = Inr (Some (ck_root_hash (anc_checkpoint anch)))"
      have "length (env_payload (rc_envelope r)) < u64_limit"
        using that(2) setting by (auto simp: receipt_setting_def receipt_issue_def and_then_eq_Inr envelope_sign_def cbor_encode_ok)
      with setting have s: "payload_codec ?tp" "\<And>p bs. ?tp p = Inr bs \<Longrightarrow> fp bs = Inr p" "vk_key_id vk = kp_key_id key"
        "\<And>m. vk_check vk m (kp_sign key m)" "length (env_payload (rc_envelope r)) < u64_limit" by (simp_all add: receipt_setting_def)
      have l: "?i < log_len (ls_tree store')" "log_len (ls_tree store') < u64_limit"
        "entry_leaf (log_entries (ls_tree store') ! ?i) = \<lparr>leaf_index = ?i, leaf_receipt = d, leaf_transformation = rp_transformation p\<rparr>"
        using es small leaf p(3) by (simp_all add: log_len_def nth_append)
      from issued_receipt_checks [where fp = fp and policy = policy, OF s(1-4) p(1) \<open>ledger_digest ?H ?tp p = Inr d\<close> p(2) store_okD(3) [OF ok'] l that s(5)
          conjunct1 [OF anch] conjunct2 [OF anch]]
      show "\<exists>c. checks_of ?H ?lv fp r vk (Some anch) policy = Inr c \<and> chk_inclusion c = Verified
           \<and> chk_canonical_cid c = (canonical = t)" unfolding p(3,4) .
    qed
    have step: "wp (append_leaf cf t d at) Q' (\<lambda>_ _. True) e = Q' ?i ?e1" for Q' by (simp add: wp_def run)
    have grown: "grown_by (en_ledger e) t store'" using es leaf by (auto simp: grown_by_def)
    show ?thesis
    proof (cases "prove_inclusion ?H (ls_tree store') ?i")
      case (Inr ipf)
      show ?thesis
      proof (cases "receipt_issue ?tp (p\<lparr>rp_inclusion_proof := Some ipf\<rparr>) at key")
        case (Inr r)
        have "Q (?i, r) ?e1" by (rule Q) (simp_all add: grown ok' stands [OF \<open>prove_inclusion ?H (ls_tree store') ?i = Inr ipf\<close> Inr])
        with Inr \<open>prove_inclusion ?H (ls_tree store') ?i = Inr ipf\<close> \<open>ledger_digest ?H ?tp p = Inr d\<close> show ?thesis
          by (simp add: receipt_into_ledger_def wp_simps step)
      qed (use Inr \<open>ledger_digest ?H ?tp p = Inr d\<close> in \<open>simp add: receipt_into_ledger_def wp_simps step\<close>)
    qed (use \<open>ledger_digest ?H ?tp p = Inr d\<close> in \<open>simp add: receipt_into_ledger_def wp_simps step\<close>)
  qed
qed

lemma wp_side:
  assumes "aside m" "leaves ledger_part m"
    "\<And>a e'. en_table e' = en_table e \<Longrightarrow> en_ledger e' = en_ledger e \<Longrightarrow> en_ledger_dir e' = en_ledger_dir e \<Longrightarrow> Q a e'"
  shows "wp m Q (\<lambda>_ _. True) e"
  using assms unfolding aside_def same_core_def leaves_def ledger_part_def wp_def
  by (auto split: prod.splits sum.splits) (metis snd_conv)

definition engine_receipt :: "'w engine \<Rightarrow> transformation_id \<Rightarrow> receipt option" where
  "engine_receipt e t = Option.bind (en_table e t) e_receipt"

lemma wp_supersede_receipt:
  assumes "\<And>a e'. engine_receipt e' t = engine_receipt e t \<Longrightarrow> en_ledger e' = en_ledger e \<Longrightarrow> en_ledger_dir e' = en_ledger_dir e \<Longrightarrow> Q a e'"
  shows "wp (supersede_after_commit cf u at) Q (\<lambda>_ _. True) e"
  by (auto simp: supersede_after_commit_def set_state_def wp_simps engine_receipt_def intro!: wp_append assms split: option.split bind_split)

lemma wp_finish_receipt:
  assumes setting: "receipt_setting cf fp key vk"
    and ok: "store_ok (ec_hash (cf_codec cf)) (ec_leaf (cf_codec cf)) (ec_entry (cf_codec cf)) (en_ledger_dir e) (en_ledger e)"
    and fresh: "ls_by_key (en_ledger e) t = None" and small: "Suc (log_len (ls_tree (en_ledger e))) < u64_limit"
    and Q: "\<And>a e' r. engine_receipt e' t = Some r \<Longrightarrow> grown_by (en_ledger e) t (en_ledger e') \<Longrightarrow>
      store_ok (ec_hash (cf_codec cf)) (ec_leaf (cf_codec cf)) (ec_entry (cf_codec cf)) (en_ledger_dir e') (en_ledger e') \<Longrightarrow>
      receipt_stands cf fp vk (en_ledger e') t canonical r \<Longrightarrow> Q a e'"
  shows "wp (finish_commit cf t v canonical out held at' at key) Q (\<lambda>_ _. True) e"
proof (cases "en_table e t")
  case None
  then show ?thesis by (simp add: finish_commit_def wp_simps wp_entry_at)
next
  case (Some en)
  have side: "wp (then_do (file_receipt cf t r) (\<lambda>_.
     then_do (engine_journal_append cf (CommittedRec t leaf at)) (\<lambda>_.
     then_do (modify (\<lambda>e. e\<lparr>en_committed := (en_committed e)(t \<mapsto> leaf)\<rparr>)) (\<lambda>_.
     then_do (record_head cf at key) (\<lambda>_.
     then_do (on_entry t (\<lambda>en. en\<lparr>e_applied_at := Some (ap_applied_at at'), e_receipt := Some r\<rparr>)) (\<lambda>_.
     then_do (set_state t Committed at) (\<lambda>state.
     then_do (supersede_after_commit cf t at) (\<lambda>_.
     ret state))))))))  Q (\<lambda>_ _. True) e1"
    if e1: "en_table e1 t = Some en" "grown_by (en_ledger e) t (en_ledger e1)"
      "store_ok (ec_hash (cf_codec cf)) (ec_leaf (cf_codec cf)) (ec_entry (cf_codec cf)) (en_ledger_dir e1) (en_ledger e1)"
      "receipt_stands cf fp vk (en_ledger e1) t canonical r" for e1 leaf r
    unfolding wp_then
    by (rule wp_side [OF aside_parts(1) ledger.leaves_filing(1)], rule wp_append, simp_all add: wp_simps)
      (rule wp_side [OF aside_parts(2) ledger.leaves_filing(2)], simp add: wp_simps set_state_def e1,
       rule wp_supersede_receipt [where t = t], simp add: wp_simps, rule Q [where r = r], simp_all add: engine_receipt_def e1)
  show ?thesis
  proof (cases "from_reads (ec_hash (cf_codec cf)) (ec_read (cf_codec cf)) (io_reads out)")
    case (Inl x)
    with Some show ?thesis by (simp add: finish_commit_def wp_simps)
  next
    case (Inr rs)
    show ?thesis
      unfolding finish_commit_def wp_then wp_entry_at Some option.case wp_lift Inr map_err_simps sum.case wp_get
      by (rule wp_receipt [OF setting ok fresh small, where canonical = canonical])
        (simp_all add: commit_payload_def Some side)
  qed
qed

lemma wp_ledger:
  assumes "leaves ledger_part m" "en_ledger e = l" "en_ledger_dir e = d" "\<And>a e'. en_ledger e' = l \<Longrightarrow> en_ledger_dir e' = d \<Longrightarrow> Q a e'"
  shows "wp m Q (\<lambda>_ _. True) e"
  using assms by (intro wp_leaves [OF assms(1)]) (auto simp: ledger_part_def)

lemma leaves_apply: "leaves ledger_part (apply_once cf ad d)" "leaves ledger_part (compensate cf ad t locator fp0 held at)"
proof -
  show a: "leaves ledger_part (apply_once cf ad d)" for d
    by (simp add: leaves_def apply_once_def ledger_part_def split: prod.split)
  show "leaves ledger_part (compensate cf ad t locator fp0 held at)"
    unfolding compensate_def by (cases held) (auto intro!: leaves_intros a split: compensation_verdict.split)
qed

lemma wp_abort_result: "(\<And>e'. Q (Aborted why) e') \<Longrightarrow> wp (abort_entry cf t why rb at) Q (\<lambda>_ _. True) e"
  by (auto simp: abort_entry_def set_state_def wp_simps intro!: wp_append)

lemma commit_receipt:
  assumes setting: "receipt_setting cf fp key vk"
    and ok: "store_ok (ec_hash (cf_codec cf)) (ec_leaf (cf_codec cf)) (ec_entry (cf_codec cf)) d l"
    and fresh: "ls_by_key l t = None" and small: "Suc (log_len (ls_tree l)) < u64_limit"
    and l: "en_ledger e = l" "en_ledger_dir e = d"
    and Q: "\<And>a e' r. engine_receipt e' t = Some r \<Longrightarrow> grown_by l t (en_ledger e') \<Longrightarrow>
      store_ok (ec_hash (cf_codec cf)) (ec_leaf (cf_codec cf)) (ec_entry (cf_codec cf)) (en_ledger_dir e') (en_ledger e') \<Longrightarrow>
      receipt_stands cf fp vk (en_ledger e') t canonical r \<Longrightarrow> Q a e'"
    and aborted: "\<And>why e'. Q (Aborted why) e'"
  shows "wp (commit_canonicalized cf t en canonical v ad at key) Q (\<lambda>_ _. True) e"
proof -
  let ?in = "\<lambda>e. en_ledger e = l \<and> en_ledger_dir e = d"
  have finish: "wp (finish_commit cf t v canonical out held at' at key) Q (\<lambda>_ _. True) e1" if "?in e1" for out held at' e1
    using that ok fresh small by (intro wp_finish_receipt [OF setting] Q) auto
  have promise: "wp (check_promise cf t applied at (finish_commit cf t v canonical out held applied at key)) Q (\<lambda>_ _. True) e1"
    if "?in e1" for applied out held e1
    using that unfolding check_promise_def Let_def wp_then wp_entry_at
    by (auto simp: wp_simps intro!: finish wp_ledger [OF ledger.leaves_entries(6)] wp_abort_result aborted split: option.split)
  have guard: "wp (guarded cf ad t en at go_on) Q (\<lambda>_ _. True) e1" if "?in e1" "\<And>e'. ?in e' \<Longrightarrow> wp go_on Q (\<lambda>_ _. True) e'" for go_on e1
    using that(1) unfolding guarded_def wp_then
    by (auto intro!: wp_ledger [OF ledger.leaves_reads(5)] that(2) wp_abort_result aborted split: sum.split bool.split)
  have apply_it: "wp (apply_and_finish cf ad t en v canonical out held at key) Q (\<lambda>_ _. True) e1" if e1: "?in e1" for out held e1
  proof -
    have settled: "wp (then_do m (\<lambda>final_back. check_promise cf t applied at (finish_commit cf t v canonical out final_back applied at key)))
        Q (\<lambda>_ _. True) e2" if "leaves ledger_part m" "?in e2" for m :: "('a engine, cid option) action" and applied e2
      unfolding wp_then by (rule wp_ledger [OF that(1)]) (use that(2) promise in auto)
    show ?thesis
      using e1 unfolding apply_and_finish_def wp_then [where m = "start_apply cf t c at" for c] wp_then [where m = "apply_once cf ad dl" for dl]
      by (auto simp: wp_then [where m = "compensate cf ad t lo f he a" for lo f he a] Let_def
          intro!: wp_ledger [OF ledger.leaves_observation(2)] wp_ledger [OF leaves_apply(1)] wp_ledger [OF leaves_apply(2)]
            wp_abort_result aborted settled leaves_intros split: sum.split)
  qed
  have inner: "wp (guarded cf ad t en at (
       then_do (ask cf ''invert'' (ad_invert ad (e_delta en) (e_pre en))) (\<lambda>out.
       then_do (escrow_inverse cf t (e_delta en) out at) (\<lambda>held.
       then_do (get (\<lambda>e. body_readable cf e held)) (\<lambda>readable.
       if \<not> readable then fail EngineMalformed
       else guarded cf ad t en at (apply_and_finish cf ad t en v canonical out held at key)))))) Q (\<lambda>_ _. True) e1" if "?in e1" for e1
    using that
    by (intro guard) (auto simp: wp_simps intro!: wp_ledger [OF ledger.leaves_steps(6)] wp_ledger [OF ledger.leaves_escrow(1)] guard apply_it)
  show ?thesis
    using l unfolding commit_canonicalized_def wp_then
    by (intro wp_ledger [OF ledger.leaves_appends(1)] wp_ledger [OF ledger.leaves_entries(1)] wp_ledger [OF ledger.leaves_steps(5)] inner) auto
qed

text \<open>
  C3. The receipt of a commit verifies. When a commit of a canonicalized transformation that is not yet in
  the ledger ends at \<open>Committed\<close>, the ledger has grown by one entry, for this transformation, and is in
  order on disk and in memory; the entry of the transformation holds a receipt; and an auditor who has
  the verifying key and a checkpoint with the root of the ledger finds the receipt signed and its inclusion
  verified, and the canonical identifier in it confirmed exactly if it is the transformation's own. What
  is relied on: the codec of payloads can be read back, the key checks what its pair signed.
\<close>

theorem commit_receipt_verifies:
  assumes "receipt_setting cf fp key vk"
    and "store_ok (ec_hash (cf_codec cf)) (ec_leaf (cf_codec cf)) (ec_entry (cf_codec cf)) (en_ledger_dir e) (en_ledger e)"
    and "ls_by_key (en_ledger e) t = None" "Suc (log_len (ls_tree (en_ledger e))) < u64_limit"
    and start: "en_table e t = Some en" "e_state en = Canonicalized" "e_canonical_cid en = Some canonical"
    and run: "commit cf t at key e = (Inr Committed, e')"
  shows "\<exists>r root. engine_receipt e' t = Some r \<and> grown_by (en_ledger e) t (en_ledger e')
    \<and> store_ok (ec_hash (cf_codec cf)) (ec_leaf (cf_codec cf)) (ec_entry (cf_codec cf)) (en_ledger_dir e') (en_ledger e')
    \<and> log_root (ec_hash (cf_codec cf)) (ls_tree (en_ledger e')) = Inr (Some root)
    \<and> (\<forall>anch policy. ck_tree_size (anc_checkpoint anch) = log_len (ls_tree (en_ledger e')) \<and> ck_root_hash (anc_checkpoint anch) = root \<longrightarrow>
        (\<exists>c. checks_of (ec_hash (cf_codec cf)) (ec_leaf (cf_codec cf)) fp r vk (Some anch) policy = Inr c
           \<and> chk_inclusion c = Verified \<and> chk_canonical_cid c = (canonical = t)))"
proof -
  let ?H = "ec_hash (cf_codec cf)"
  let ?G = "\<lambda>e'. \<exists>r. engine_receipt e' t = Some r \<and> grown_by (en_ledger e) t (en_ledger e')
    \<and> store_ok ?H (ec_leaf (cf_codec cf)) (ec_entry (cf_codec cf)) (en_ledger_dir e') (en_ledger e')
    \<and> receipt_stands cf fp vk (en_ledger e') t canonical r"
  have inner: "wp (commit_canonicalized cf t en canonical v ad at key) (\<lambda>st e'. st = Committed \<longrightarrow> ?G e') (\<lambda>_ _. True) e" for v ad
    by (rule commit_receipt [OF assms(1-4)]) blast+
  have "wp (commit cf t at key) (\<lambda>st e'. st = Committed \<longrightarrow> ?G e') (\<lambda>_ _. True) e"
    unfolding commit_def wp_then
    by (rule wp_expire) (auto simp: wp_simps wp_adapter_of start inner split: option.split sum.split)
  from wp_result [OF this run] obtain r where r: "engine_receipt e' t = Some r" "grown_by (en_ledger e) t (en_ledger e')"
    "store_ok ?H (ec_leaf (cf_codec cf)) (ec_entry (cf_codec cf)) (en_ledger_dir e') (en_ledger e')"
    "receipt_stands cf fp vk (en_ledger e') t canonical r" by blast
  note ok = store_okD(3) [OF r(3)]
  have "log_leaves (ls_tree (en_ledger e')) \<noteq> []"
    using r(2) log_okD(2) [OF ok] by (auto simp: grown_by_def log_len_def)
  then obtain root where root: "log_root ?H (ls_tree (en_ledger e')) = Inr (Some root)"
    using log_root_correct [OF log_okD(3) [OF ok]] mth_mtr by metis
  then have "\<forall>anch policy. ck_tree_size (anc_checkpoint anch) = log_len (ls_tree (en_ledger e')) \<and> ck_root_hash (anc_checkpoint anch) = root \<longrightarrow>
        (\<exists>c. checks_of ?H (ec_leaf (cf_codec cf)) fp r vk (Some anch) policy = Inr c
           \<and> chk_inclusion c = Verified \<and> chk_canonical_cid c = (canonical = t))"
    using r(4) unfolding receipt_stands_def by simp
  with r(1-3) root show ?thesis by blast
qed

definition demo_fp :: "bytes \<Rightarrow> string + receipt_payload" where
  "demo_fp bs =
     (if bs = demo_bytes False False then Inr demo_verdict_payload
      else if bs = demo_bytes True False then Inr (demo_commit_payload None)
      else if bs = demo_bytes True True then Inr (demo_commit_payload (Some demo_proof))
      else Inl [])"

definition demo_vk :: verifying_key where
  "demo_vk = \<lparr>vk_key_id = ''k'', vk_check = (\<lambda>m s. s = m)\<rparr>"

lemma demo_setting: "receipt_setting demo_config demo_fp sample_key demo_vk"
proof -
  have "payload_codec demo_tp"
    unfolding payload_codec_def
  proof (intro allI impI)
    fix p bs assume p: "demo_tp p = Inr bs"
    obtain c b where bs: "bs = demo_bytes c b" and none: "demo_tp (p\<lparr>rp_inclusion_proof := None\<rparr>) = Inr (demo_bytes c False)"
      using p by (auto simp: demo_tp_def demo_verdict_payload_def demo_commit_payload_def split: if_splits)
    show "\<exists>kvs. fits 0 (CMap kvs) \<and> bs = enc (CMap kvs) \<and> INCLUSION_PROOF_KEY \<in> fst ` set kvs
       \<and> demo_tp (p\<lparr>rp_inclusion_proof := None\<rparr>) = Inr (enc (CMap (null_at INCLUSION_PROOF_KEY kvs)))"
      using demo_bytes_fit [of c b] none bs
      by (intro exI [of _ "[(ascii ''v'', CBool c), (INCLUSION_PROOF_KEY, if b then CBool True else CNull)]"])
        (auto simp: demo_bytes_def null_at_def INCLUSION_PROOF_KEY_def ascii_def simp del: fits.simps enc.simps)
  qed
  moreover have "demo_fp bs = Inr p \<and> length bs < u64_limit" if "demo_tp p = Inr bs" for p bs
    using that demo_bytes_short by (auto simp: demo_tp_def demo_fp_def demo_bytes_inject split: if_splits)
  ultimately show ?thesis by (simp add: receipt_setting_def demo_fields demo_vk_def sample_key_def)
qed

theorem commit_receipt_verifies_witness:
  "\<exists>e' r anch c. commit demo_config other_cid 5 sample_key demo_canonicalized = (Inr Committed, e') \<and> engine_receipt e' other_cid = Some r
     \<and> checks_of (\<lambda>_. other_cid) (\<lambda>_. Inr [0]) demo_fp r demo_vk (Some anch) None = Inr c \<and> chk_inclusion c = Verified \<and> chk_canonical_cid c"
proof -
  obtain e' where run: "commit demo_config other_cid 5 sample_key demo_canonicalized = (Inr Committed, e')"
    using demo_commits by (auto simp: wp_def split: prod.splits sum.splits)
  obtain en where en: "demo_at en demo_canonicalized" "e_state en = Canonicalized" "e_canonical_cid en = Some other_cid"
    using demo_canonicalized_facts by blast
  have codec: "ec_hash demo_codec = (\<lambda>_. other_cid)" "ec_leaf demo_codec = (\<lambda>_. Inr [0])" "ec_entry demo_codec = (\<lambda>_. Inr [0])"
    by (simp_all add: demo_codec_def)
  have store: "store_ok (\<lambda>_. other_cid) (\<lambda>_. Inr [0]) (\<lambda>_. Inr [0]) (en_ledger_dir demo_canonicalized) (en_ledger demo_canonicalized)"
    "ls_by_key (en_ledger demo_canonicalized) other_cid = None" "Suc (log_len (ls_tree (en_ledger demo_canonicalized))) < u64_limit"
    "en_table demo_canonicalized other_cid = Some en"
    using en(1) new_log_ok
    by (simp_all add: demo_at_def fresh_store_def store_ok_def store_of_def replay_start_def keys_ok_Nil log_len_def)
      (simp_all add: new_log_def last_frame_def)
  from commit_receipt_verifies [where cf = demo_config, unfolded demo_fields codec, OF demo_setting store en(2,3) run]
  obtain r root where "engine_receipt e' other_cid = Some r" and
    chk: "\<And>anch policy. ck_tree_size (anc_checkpoint anch) = log_len (ls_tree (en_ledger e')) \<Longrightarrow> ck_root_hash (anc_checkpoint anch) = root \<Longrightarrow>
        \<exists>c. checks_of (\<lambda>_. other_cid) (\<lambda>_. Inr [0]) demo_fp r demo_vk (Some anch) policy = Inr c
           \<and> chk_inclusion c = Verified \<and> chk_canonical_cid c = (other_cid = other_cid)" by blast
  moreover have "\<exists>anch :: anchorage. ck_tree_size (anc_checkpoint anch) = n \<and> ck_root_hash (anc_checkpoint anch) = root" for n
    by (rule exI [of _ "\<lparr>anc_checkpoint = \<lparr>ck_origin = [], ck_tree_size = n, ck_root_hash = root, ck_timestamp = 0,
        ck_signature = \<lparr>sig_keyid = [], sig_bytes = []\<rparr>\<rparr>, anc_bridge = None\<rparr>"]) simp
  ultimately show ?thesis using run by (metis (full_types))
qed

section \<open>The shape of receipts\<close>

text \<open>A confinement that states a rule set exactly when the kernel confines; a payload may also state none.\<close>

definition rule_set_stated :: "confinement_context option \<Rightarrow> bool" where
  "rule_set_stated c \<longleftrightarrow> (case c of None \<Rightarrow> True | Some x \<Rightarrow> kernel_confined x \<longleftrightarrow> ruleset_hash x \<noteq> None)"

lemma schema_of_boundary:
  assumes "rp_verdict p \<noteq> None \<or> rp_fail_posture_engaged p" "rp_determinism_boundary p = attested_boundary inp (rp_verdict p \<noteq> None)"
    and "rp_receipt_kind p = CommitReceipt \<longrightarrow> rp_inclusion_proof p \<noteq> None"
    and "rp_receipt_kind p = VerdictReceipt \<longrightarrow> rp_inclusion_proof p = None \<and> rp_postcondition_fingerprint p = None \<and> rp_inverse_delta p = None
      \<and> rp_read_set p = None \<and> rp_reversibility p = None \<and> rp_undo p = None"
  shows "check_schema p = Inr () \<longleftrightarrow> rule_set_stated (rp_confinement p)"
  using assms attested_boundary_schema [of inp "rp_verdict p \<noteq> None"]
  by (cases "rp_receipt_kind p") (auto simp: check_schema_def rule_set_stated_def split: option.splits)

text \<open>
  C11. Every payload that the engine signs fits the receipt schema, but for one thing that is not checked
  before: the confinement the engine was given, or that the journal recorded, states a rule set
  exactly when the kernel confines. The payload of a verdict fits the schema exactly then, in the two
  situations in which a verdict receipt is issued: the gate has answered, or the posture that admits
  without a verdict is engaged. So does the payload of a commit, for every entry that \<open>commit\<close> lets
  through \<open>commit_verdict\<close>, and the payload that a recovery or a reissue rebuilds from a row of the
  journal that passes \<open>row_verdict\<close>, both once the inclusion proof is set; without the proof they are refused.
\<close>

theorem payloads_fit_schema:
  "(v \<noteq> None \<or> e_fail_posture_engaged en \<longrightarrow>
      (check_schema (verdict_payload cf e t en v key) = Inr () \<longleftrightarrow> rule_set_stated (Some (cf_confinement cf))))
   \<and> (commit_verdict en = Inr w \<longrightarrow>
        (check_schema (commit_payload cf e t en w canonical held rs rv post key\<lparr>rp_inclusion_proof := Some ipf\<rparr>) = Inr ()
           \<longleftrightarrow> rule_set_stated (Some (cf_confinement cf)))
        \<and> check_schema (commit_payload cf e t en w canonical held rs rv post key) = Inl Schema)
   \<and> (row_verdict row = Some u \<longrightarrow>
        (check_schema (rebuilt_payload e t row key_id u canonical fp0 held rs' rv' post\<lparr>rp_inclusion_proof := Some ipf\<rparr>) = Inr ()
           \<longleftrightarrow> rule_set_stated (Option.bind (sr_provenance row) (\<lambda>p. confinement (prov_environment p))))
        \<and> check_schema (rebuilt_payload e t row key_id u canonical fp0 held rs' rv' post) = Inl Schema)"
proof (intro conjI impI)
  assume "v \<noteq> None \<or> e_fail_posture_engaged en"
  then show "check_schema (verdict_payload cf e t en v key) = Inr () \<longleftrightarrow> rule_set_stated (Some (cf_confinement cf))"
    using schema_of_boundary [of "verdict_payload cf e t en v key" "journalled_input_generation e t"] by (simp add: verdict_payload_def)
next
  assume "commit_verdict en = Inr w"
  then have "w \<noteq> None \<or> e_fail_posture_engaged en" by (auto simp: commit_verdict_def split: option.splits if_splits)
  then show "check_schema (commit_payload cf e t en w canonical held rs rv post key\<lparr>rp_inclusion_proof := Some ipf\<rparr>) = Inr ()
      \<longleftrightarrow> rule_set_stated (Some (cf_confinement cf))"
    using schema_of_boundary [of "commit_payload cf e t en w canonical held rs rv post key\<lparr>rp_inclusion_proof := Some ipf\<rparr>" "journalled_input_generation e t"]
    by (simp add: commit_payload_def)
  show "check_schema (commit_payload cf e t en w canonical held rs rv post key) = Inl Schema"
    by (auto simp: check_schema_def commit_payload_def)
next
  assume "row_verdict row = Some u"
  then have "u \<noteq> None \<or> sr_fail_posture_engaged row" by (auto simp: row_verdict_def split: option.splits if_splits)
  then show "check_schema (rebuilt_payload e t row key_id u canonical fp0 held rs' rv' post\<lparr>rp_inclusion_proof := Some ipf\<rparr>) = Inr ()
      \<longleftrightarrow> rule_set_stated (Option.bind (sr_provenance row) (\<lambda>p. confinement (prov_environment p)))"
    using schema_of_boundary [of "rebuilt_payload e t row key_id u canonical fp0 held rs' rv' post\<lparr>rp_inclusion_proof := Some ipf\<rparr>" "journalled_input_generation e t"]
    by (simp add: rebuilt_payload_def)
  show "check_schema (rebuilt_payload e t row key_id u canonical fp0 held rs' rv' post) = Inl Schema"
    by (auto simp: check_schema_def rebuilt_payload_def)
qed

theorem payloads_fit_schema_witness:
  "\<exists>en. en_table demo_canonicalized other_cid = Some en
     \<and> check_schema (verdict_payload demo_config demo_canonicalized other_cid en (Some \<lparr>vs_kind = Admit, vs_proof_digest = other_cid\<rparr>) sample_key) = Inr ()
     \<and> check_schema (commit_payload demo_config demo_canonicalized other_cid en (Some \<lparr>vs_kind = Admit, vs_proof_digest = other_cid\<rparr>) other_cid None
          NothingRead ReversibleTrue (e_fp0 en) sample_key\<lparr>rp_inclusion_proof := Some demo_proof\<rparr>) = Inr ()"
proof -
  let ?v = "Some \<lparr>vs_kind = Admit, vs_proof_digest = other_cid\<rparr>"
  obtain en where en: "demo_at en demo_canonicalized" "e_verdict en = Some Admit" "e_verdict_digest en = Some other_cid"
    using demo_canonicalized_facts by blast
  have "rule_set_stated (Some (cf_confinement demo_config))" by (simp add: rule_set_stated_def demo_config_def)
  with payloads_fit_schema [where cf = demo_config and e = demo_canonicalized and v = ?v and w = ?v and en = en] en show ?thesis
    by (auto simp: commit_verdict_def demo_at_def)
qed

end
