(* ===== verification/Engine_Recovery.thy ===== *)
theory Engine_Recovery
  imports Engine_Theorems
begin

text \<open>
  What a recovery and an undo promise. A recovery accounts for every transformation that a process left
  behind, and touches nothing when the journal or the head are not what was published. An undo offers
  the escrowed inverse, from the very world its witness attests, and leaves the rest to the gate.
\<close>

section \<open>Recovery\<close>

text \<open>
  C6. A recovery accounts for every row. If the journal has departed from what was published, or the head
  was rolled body or is invalid, a recovery changes nothing but its own notes and reports every row
  at \<open>Committed\<close> or \<open>Committing\<close> as not resumed, with that reason. Otherwise, when it returns, it has
  reported exactly those rows, in the order of their ids. A row that was \<open>Committed\<close> still is. A row
  that was \<open>Committing\<close> is now recorded as committed, and the ledger has its leaf at the recorded index
  (when the ledger was sound before), or is recorded as aborted, or is still \<open>Committing\<close> and the
  report says why; the state reported is the state of the row. All other rows are as they were.
\<close>

theorem recover_accounts_for_every_row:
  assumes ok: "engine_ok e" and run: "recover cf at key e = (Inr rs, e')"
  shows "(case standing_refusal e of
     Some why \<Rightarrow> e' = e\<lparr>en_partial := no_partial\<rparr>
       \<and> rs = map (not_resumed_row why) (filter to_recover (sg_transformations (reconstruct (en_records e))))
   | None \<Rightarrow> engine_ok e'
       \<and> map rv_transformation rs = map sr_transformation (filter to_recover (sg_transformations (reconstruct (en_records e))))
       \<and> (\<forall>u. u \<notin> rv_transformation ` set rs \<longrightarrow> row_state e' u = row_state e u)
       \<and> (\<forall>r\<in>set rs. let t = rv_transformation r in
            if rv_path r = Terminal
            then rv_state r = Committed \<and> row_state e t = Some Committed \<and> row_state e' t = Some Committed
            else row_state e t = Some Committing \<and> row_state e' t = Some (rv_state r)
              \<and> (if rv_path r = NotResumed then rv_state r = Committing \<and> rv_refusal r \<noteq> None
                 else (\<exists>why. rv_state r = Aborted why)
                   \<or> rv_state r = Committed \<and> (\<exists>n. rv_ledger_seq r = Some n \<and> en_committed e' t = Some n
                        \<and> (ledger_good cf e \<longrightarrow> n < length (log_entries (ls_tree (en_ledger e')))
                             \<and> entry_transformation (log_entries (ls_tree (en_ledger e')) ! n) = t)))))"
proof (cases "standing_refusal e")
  case None
  have "recovering cf e [] rs e' \<and> map rv_transformation rs = map sr_transformation (filter to_recover (sg_transformations (reconstruct (en_records e))))"
    using recovers [OF ok None, of cf at key] run by (simp add: wp_def)
  moreover have "let t = rv_transformation r in
            if rv_path r = Terminal
            then rv_state r = Committed \<and> row_state e t = Some Committed \<and> row_state e' t = Some Committed
            else row_state e t = Some Committing \<and> row_state e' t = Some (rv_state r)
              \<and> (if rv_path r = NotResumed then rv_state r = Committing \<and> rv_refusal r \<noteq> None
                 else (\<exists>why. rv_state r = Aborted why)
                   \<or> rv_state r = Committed \<and> (\<exists>n. rv_ledger_seq r = Some n \<and> en_committed e' t = Some n
                        \<and> (ledger_good cf e \<longrightarrow> n < length (log_entries (ls_tree (en_ledger e')))
                             \<and> entry_transformation (log_entries (ls_tree (en_ledger e')) ! n) = t)))"
    if "reported cf e r e'" for r
    using that unfolding reported_def accounted_def leafed_def is_aborted_def Let_def by auto
  ultimately show ?thesis using None by (simp add: recovering_def)
next
  case (Some why)
  have "to_recover = (\<lambda>row. sr_state row = Some Committed \<or> sr_state row = Some Committing)"
    by (rule ext) (simp add: to_recover_def)
  with Some run show ?thesis
    by (auto simp: recover_def then_do_def modify_def get_def ret_def Let_def reconstruct_def)
qed

section \<open>Undo\<close>

lemma wp_ask_alone:
  assumes "alone cf" "\<And>a n. q (en_world e) = Inr a \<Longrightarrow> Q a (e\<lparr>en_tick := n\<rparr>)"
  shows "wp (ask cf act q) Q (\<lambda>_ _. True) e"
  using assms by (auto simp: ask_def look_def wp_def then_do_def lift_def alone_def Let_def map_err_def split: sum.splits)

lemma wp_plan_undo:
  "wp (plan_undo cf iid s c inp w at)
     (\<lambda>(i, tid) e'. tid = ps_id s \<and> en_table e' = (en_table e)(tid \<mapsto> candidate_entry iid s at)) (\<lambda>_ _. True) e"
  unfolding plan_undo_def remember_resolution_def seat_def wp_simps
  by (intro wp_append wp_put_blob) (simp_all add: Let_def)

lemma wp_undo_go_on:
  "wp (undo_go_on cf original iid s c inp witness at)
     (\<lambda>(i, tid) e'. tid = ps_id s \<and> (\<forall>x. x \<noteq> tid \<longrightarrow> en_table e' x = en_table e x)
        \<and> (en_table e' tid = Some (candidate_entry iid s at)
           \<or> (\<exists>en'. en_table e tid = Some en' \<and> en_table e' tid = Some en' \<and> e_state en' = Candidate))) (\<lambda>_ _. True) e"
proof -
  have plan: "wp (plan_undo cf iid s c inp w at)
     (\<lambda>(i, tid) e'. tid = ps_id s \<and> (\<forall>x. x \<noteq> tid \<longrightarrow> en_table e' x = en_table e x)
        \<and> (en_table e' tid = Some (candidate_entry iid s at)
           \<or> (\<exists>en'. en_table e tid = Some en' \<and> en_table e' tid = Some en' \<and> e_state en' = Candidate))) (\<lambda>_ _. True) e" for w
    by (rule wp_mono [OF wp_plan_undo]) auto
  show ?thesis
    unfolding undo_go_on_def wp_simps
    by (auto simp: plan wp_simps undo_state_def split: option.splits lifecycle.splits)
qed

text \<open>What an undo that is granted has found.\<close>

definition undo_grounds ::
  "'w engine_config \<Rightarrow> 'w engine \<Rightarrow> transformation_id \<Rightarrow> undo_witness \<Rightarrow> planned_delta \<Rightarrow> fingerprint \<Rightarrow> bool" where
  "undo_grounds cf e original witness body fp \<longleftrightarrow>
     (\<exists>en row c ad version snap k. en_table e original = Some en \<and> e_state en = Committed
        \<and> en_escrow e original = Some row \<and> er_inverse_cid row = Some c \<and> er_status row \<noteq> Pending \<and> (\<forall>u. er_status row \<noteq> Consumed u)
        \<and> blob_get (ec_hash (cf_codec cf)) (ec_delta (cf_codec cf)) (ec_blob (cf_codec cf)) (sys_read (cf_system cf) k) (en_blobs e) c = Inr body
        \<and> cf_adapters cf (pd_substrate (e_delta en)) = Some (ad, version)
        \<and> ad_snapshot ad (obj_locator (e_pre en)) (en_world e) = Inr snap \<and> ad_precondition ad snap (en_world e) = Inr fp
        \<and> (case witness of WitnessAttested d \<Rightarrow> fp_digest fp = d | WitnessIsMissing _ \<Rightarrow> False | WitnessUnobservable _ \<Rightarrow> True))"

definition undo_offer ::
  "'w engine_config \<Rightarrow> 'w engine \<Rightarrow> transformation_id \<Rightarrow> planned_delta \<Rightarrow> fingerprint \<Rightarrow> transformation_id \<Rightarrow> 'w engine \<Rightarrow> bool" where
  "undo_offer cf e original body fp tid e' \<longleftrightarrow>
     (\<exists>tr. t_parents tr = [original] \<and> t_delta tr = pd_reference body
        \<and> cid_compute (ec_hash (cf_codec cf)) (ec_transformation (cf_codec cf)) transformation_identity tr = Inr tid)
     \<and> (\<forall>x. x \<noteq> tid \<longrightarrow> en_table e' x = en_table e x)
     \<and> (\<exists>en'. en_table e' tid = Some en' \<and> e_state en' = Candidate
        \<and> (t_parents (e_transformation en') = [original] \<and> e_delta en' = body \<and> e_fp0 en' = fp \<and> e_verdict en' = None
           \<or> en_table e tid = Some en'))"

lemma undo_shape_Inr:
  "undo_shape cf original en iid body pre fp0 at = Inr s \<Longrightarrow>
     t_parents (ps_transformation s) = [original] \<and> ps_delta s = body \<and> ps_fp0 s = fp0
     \<and> (\<exists>tr. t_parents tr = [original] \<and> t_delta tr = pd_reference body
          \<and> cid_compute (ec_hash (cf_codec cf)) (ec_transformation (cf_codec cf)) transformation_identity tr = Inr (ps_id s))"
  by (auto simp: undo_shape_def new_transformation_def and_then_eq_Inr with_order_def map_err_def split: sum.splits if_splits)
    (rule exI, rule conjI [rotated], rule conjI [rotated], assumption, simp_all)

lemma wp_fetch:
  assumes "\<And>body n. blob_get (ec_hash (cf_codec cf)) (ec_delta (cf_codec cf)) (ec_blob (cf_codec cf)) (sys_read (cf_system cf) (en_tick e)) (en_blobs e) c
      = Inr body \<Longrightarrow> Q body (e\<lparr>en_tick := n\<rparr>)"
  shows "wp (fetch_blob cf c) Q (\<lambda>_ _. True) e"
  using assms by (auto simp: wp_def fetch_blob_def split: sum.split)

lemma wp_get_any: "Q (f e) e \<Longrightarrow> wp (get f) Q E e" and wp_lift_any: "(\<And>a. r = Inr a \<Longrightarrow> Q a e) \<Longrightarrow> wp (lift r) Q (\<lambda>_ _. True) e"
  by (simp_all add: wp_simps split: sum.split)

lemmas step = wp_then [THEN iffD2]

lemma wp_draft_table:
  assumes "\<And>a e'. en_table e' = en_table e \<Longrightarrow> Q a e'" shows "wp (draft_intent cf iid seed at) Q (\<lambda>_ _. True) e"
  unfolding draft_intent_def wp_simps using assms by (auto simp: wp_simps intro!: wp_append)

lemma quiet_undo_intent: "quiet (undo_intent cf t)"
  unfolding undo_intent_def by (auto intro!: quiet_intros split: prod.split option.split)

lemma wp_undo_committed:
  assumes al: "alone cf" and en: "en_table e original = Some en" "e_state en = Committed"
  shows "wp (undo_committed cf original en witness seed at)
     (\<lambda>(i, tid) e'. \<exists>body fp. undo_grounds cf e original witness body fp \<and> undo_offer cf e original body fp tid e') (\<lambda>_ _. True) e"
    (is "wp _ ?Q _ _")
proof -
  have finish: "wp (then_do (undo_intent cf original) (\<lambda>made.
     then_do (lift (ok_or (NotFound ''the escrowed inverse'') made)) (\<lambda>i.
     then_do (lift (map_err EngineCanon (cid_compute (ec_hash (cf_codec cf)) (ec_intent (cf_codec cf)) (\<lambda>i. i) i))) (\<lambda>iid.
     then_do (draft_intent cf iid seed at) (\<lambda>_.
     then_do (lift (undo_shape cf original en iid body pre fp at)) (\<lambda>s.
     undo_go_on cf original iid s c inp witness at)))))) ?Q (\<lambda>_ _. True) e1"
    if g: "undo_grounds cf e original witness body fp" and e1: "en_table e1 = en_table e" for body pre fp c inp e1
  proof -
    have go: "wp (undo_go_on cf original iid s c inp witness at) ?Q (\<lambda>_ _. True) e2"
      if "en_table e2 = en_table e" "undo_shape cf original en iid body pre fp at = Inr s" for e2 iid s
      using that(1) undo_shape_Inr [OF that(2)] g
      by (intro wp_mono [OF wp_undo_go_on]) (fastforce simp: undo_offer_def candidate_entry_def)+
    show ?thesis
      unfolding wp_then
      by (rule wp_quiet [OF quiet_undo_intent]) (auto simp: wp_simps e1 intro!: wp_draft_table go split: sum.split)
  qed
  show ?thesis
    unfolding undo_committed_def
  proof (intro step wp_get_any wp_lift_any, goal_cases)
    case (1 c)
    then obtain row where row: "en_escrow e original = Some row" "er_inverse_cid row = Some c" "er_status row \<noteq> Pending"
        "\<forall>u. er_status row \<noteq> Consumed u"
      by (auto simp: undoable_row_def ok_or_def split: option.splits inverse_status.splits)
    show ?case
    proof (intro wp_fetch step wp_lift_any, goal_cases)
      case (1 body n ad)
      then obtain version where ad: "cf_adapters cf (pd_substrate (e_delta en)) = Some (ad, version)"
        by (auto simp: ok_or_def split: option.splits)
      show ?case
      proof (intro step wp_ask_alone [OF al] wp_lift_any, goal_cases)
        case (1 pre n1 fp n2 u)
        have "undo_grounds cf e original witness body fp"
          unfolding undo_grounds_def using en row ad 1 \<open>blob_get _ _ _ _ _ c = Inr body\<close>
          by (intro exI [of _ en] exI [of _ row] exI [of _ c] exI [of _ ad] exI [of _ version] exI [of _ pre] exI [of _ "en_tick e"])
            (auto simp: check_witness_def split: undo_witness.splits if_splits)
        then show ?case by (rule finish [THEN wp_then [THEN iffD1]]) simp
      qed
    qed
  qed
qed

text \<open>
  C7. An undo offers the escrowed inverse and nothing else. When an undo is granted and nobody else changes
  the world meanwhile, the original stands at \<open>Committed\<close>, an inverse of it is escrowed, finished and
  not consumed, and its body was read from the store; the witness is not missing, and if it attests a
  digest, that is the digest of the fingerprint the adapter gives of the world as it is (a witness that
  says it cannot observe is let through without a comparison). The id that is returned is the content
  address of a transformation whose only parent is the original and whose delta is the escrowed body. It
  stands in the table as a \<open>Candidate\<close>: either a new one, with that parent, that body, that fingerprint as
  its precondition and no verdict, or the very entry that an earlier undo has left there under the same
  address. No other entry is touched.
\<close>

theorem undo_offers_the_inverse:
  assumes "\<forall>n w. cf_drift cf n w = w" "undo cf original witness seed at e = (Inr (iid, tid), e')"
  shows "\<exists>body fp. undo_grounds cf e original witness body fp \<and> undo_offer cf e original body fp tid e'"
proof -
  have al: "alone cf" using assms(1) by (simp add: alone_def)
  have "wp (undo cf original witness seed at)
     (\<lambda>(i, tid) e'. \<exists>body fp. undo_grounds cf e original witness body fp \<and> undo_offer cf e original body fp tid e') (\<lambda>_ _. True) e"
    unfolding undo_def
    by (intro step wp_get_any) (auto simp: wp_simps intro!: wp_undo_committed [OF al] split: option.split)
  with assms(2) show ?thesis by (simp add: wp_def)
qed

text \<open>An engine that has a committed transformation with its inverse in escrow.\<close>

definition demo_undoable :: "bool engine" where
  "demo_undoable = demo_engine\<lparr>en_table := [zero_cid \<mapsto> (candidate_entry other_cid demo_shape 2)\<lparr>e_state := Committed\<rparr>],
     en_escrow := [zero_cid \<mapsto> \<lparr>er_transformation = zero_cid, er_inverse_cid = Some other_cid, er_retained_until = None, er_status = Available\<rparr>],
     en_blobs := [blob_path other_cid \<mapsto> [0xa1, 0x61, 0x61, 0x01]]\<rparr>"

lemma demo_fetch:
  assumes "en_blobs e (blob_path other_cid) = Some [0xa1, 0x61, 0x61, 0x01]"
  shows "wp (fetch_blob demo_config other_cid) Q E e = Q demo_delta (e\<lparr>en_tick := Suc (en_tick e)\<rparr>)"
proof -
  have "scan_strict [0xa1, 0x61, 0x61, 0x01] = Inr ()" using sample_encodes by (auto simp: cbor_encode_ok is_ok_iff)
  moreover have "new_planned_delta (\<lambda>_. other_cid) sample_tv Fs [] = Inr demo_delta"
    by (simp add: new_planned_delta_ok sample_encodes demo_delta_def)
  ultimately show ?thesis using assms
    by (simp add: wp_def fetch_blob_def blob_get_def MAX_BLOB_BYTES_def push_bit_eq_mult cbor_decode_def sample_fv_def demo_simps demo_answers_def)
qed

lemma demo_undoes: "wp (undo demo_config zero_cid (WitnessAttested zero_cid) 0 9) (\<lambda>_ _. True) (\<lambda>_ _. False) demo_undoable"
proof -
  have adapters: "cf_adapters demo_config k = Some (demo_adapter, ''1'')" for k by (simp add: demo_config_def)
  show ?thesis
    by (simp add: undo_def undo_committed_def wp_simps demo_undoable_def demo_simps demo_fetch undoable_row_def candidate_entry_def
        is_observation_substrate_def demo_shape_def demo_transformation_def adapters check_witness_def undo_intent_def)
      (simp add: draft_intent_def wp_simps demo_simps demo_encodes undo_shape_def new_transformation_def in_range_def with_order_def
        UNSET_INTENT_def MAX_ORDER_def,
       simp add: undo_go_on_def undo_state_def wp_simps demo_simps grown_ok plan_undo_def remember_resolution_def seat_def Let_def)
qed

theorem undo_offers_the_inverse_witness:
  "\<exists>body fp iid tid e'. undo demo_config zero_cid (WitnessAttested zero_cid) 0 9 demo_undoable = (Inr (iid, tid), e')
     \<and> undo_grounds demo_config demo_undoable zero_cid (WitnessAttested zero_cid) body fp
     \<and> undo_offer demo_config demo_undoable zero_cid body fp tid e'"
proof -
  obtain iid tid e' where run: "undo demo_config zero_cid (WitnessAttested zero_cid) 0 9 demo_undoable = (Inr (iid, tid), e')"
    using demo_undoes by (auto simp: wp_def split: prod.splits sum.splits)
  have "\<forall>n w. cf_drift demo_config n w = w" by (simp add: demo_config_def)
  from undo_offers_the_inverse [OF this run] run show ?thesis by blast
qed

text \<open>An engine opened on a journal whose process stopped between the start of a commit and its application.\<close>

definition demo_crash_records :: "journal_record list" where
  "demo_crash_records = [PlannedRec zero_cid zero_cid ''a'' other_cid (record_of_fingerprint (ps_fp0 demo_shape)) [] StageUnknown None 2,
     VerifyStartedRec zero_cid 3, VerdictRec zero_cid Admit (Some other_cid) False 3, CanonicalizedRec zero_cid other_cid None 4,
     CommittingStartedRec zero_cid 5]"

definition demo_crashed :: "bool engine" where
  "demo_crashed =
     engine_at_open False 0 ((marked_journal False)\<lparr>ej_records := demo_crash_records\<rparr>) marked_dir (\<lambda>_. None) (\<lambda>_. None) fresh_store
       \<lparr>ld_file = Some [], ld_torn = (\<lambda>_. None)\<rparr> \<lparr>hd_head = None, hd_tmp = None\<rparr>
       \<lparr>hs_floor = None, hs_rolled_back = None, hs_invalid = None, hs_resumed_rows = 0, hs_accepted = None, hs_pending = None,
        hs_authenticity = HeadAbsent, hs_key_id = None, hs_declaration_changed = False\<rparr>
       (verdict_store_of [] 0 False None) \<lparr>ld_file = Some [], ld_torn = (\<lambda>_. None)\<rparr>"

lemma demo_crash_rows:
  "sh_rows (reconstruct_shadow demo_crash_records) = [zero_cid \<mapsto> (row_about zero_cid)\<lparr>sr_intent_id := Some zero_cid, sr_delta_cid := Some other_cid,
     sr_fp0 := Some (record_of_fingerprint (ps_fp0 demo_shape)), sr_verdict := Some Admit, sr_verdict_digest := Some other_cid,
     sr_canonical_cid := Some other_cid, sr_state := Some Committing\<rparr>]"
  by (simp add: demo_crash_records_def sample_replay_simps)

lemma demo_crashed_ok: "engine_ok demo_crashed" "standing_refusal demo_crashed = None"
  unfolding demo_crashed_def
  by (rule opened_ok, auto simp: demo_crash_rows cleared_simps split: if_splits)
    (simp add: standing_refusal_def engine_at_open_def Let_def departure_def marked_journal_fields)

lemma demo_recovers:
  "wp (recover demo_config 9 sample_key) (\<lambda>rs _. rs = [report zero_cid NothingWasApplied (Aborted InternalError)]) (\<lambda>_ _. False) demo_crashed"
proof -
  have rows: "sg_transformations (shadow_sigma (reconstruct_shadow demo_crash_records)) = [(row_about zero_cid)\<lparr>sr_intent_id := Some zero_cid, sr_delta_cid := Some other_cid,
     sr_fp0 := Some (record_of_fingerprint (ps_fp0 demo_shape)), sr_verdict := Some Admit, sr_verdict_digest := Some other_cid,
     sr_canonical_cid := Some other_cid, sr_state := Some Committing\<rparr>]"
    by (simp add: shadow_sigma_def new_sigma_def btree_items_def demo_crash_rows)
  have fields: "en_records demo_crashed = demo_crash_records" "held_entry (demo_crashed\<lparr>en_partial := p\<rparr>) t = None"
      "appendable (en_journal_dir demo_crashed) (en_journal demo_crashed)" for p t
    by (simp_all add: demo_crashed_def engine_at_open_def Let_def held_entry_def appendable_def marked_journal_fields marked_dir_def fresh_store_def
        store_of_def replay_start_def new_log_def)
  show ?thesis
    by (simp add: recover_def wp_simps demo_crashed_ok Let_def fields rows)
      (simp add: resume_def Let_def wp_simps fields refuse_row_def abort_entry_def set_state_def demo_append_shadow row_about_def)
qed

theorem recover_accounts_for_every_row_witness:
  "\<exists>e'. recover demo_config 9 sample_key demo_crashed = (Inr [report zero_cid NothingWasApplied (Aborted InternalError)], e')
     \<and> row_state demo_crashed zero_cid = Some Committing \<and> row_state e' zero_cid = Some (Aborted InternalError)"
proof -
  obtain e' where run: "recover demo_config 9 sample_key demo_crashed = (Inr [report zero_cid NothingWasApplied (Aborted InternalError)], e')"
    using demo_recovers by (auto simp: wp_def split: prod.splits sum.splits)
  from recover_accounts_for_every_row [OF demo_crashed_ok(1) run] demo_crashed_ok(2) run show ?thesis
    by (auto simp: report_def Let_def)
qed

end
