(* ===== verification/Engine_Publication.thy ===== *)
theory Engine_Publication
  imports Engine_Run
begin

text \<open>
  What an engine publishes about its verdicts stands up to the audit of \<open>gx-log/src/proof.rs\<close>: the
  windows of the checkpoints it makes out meet, their counters add up to what it counted, and the
  ledger they name does not shrink, over restarts that find the two files as they were left.
\<close>

section \<open>What the other operations do to the chain\<close>

text \<open>The ledger may grow; the chain and what is published stay.\<close>

definition publication_kept :: "'w engine \<Rightarrow> 'w engine \<Rightarrow> bool" where
  "publication_kept e e' \<longleftrightarrow> en_verdict_log e' = en_verdict_log e \<and> en_published e' = en_published e
     \<and> log_len (ls_tree (en_ledger e)) \<le> log_len (ls_tree (en_ledger e'))"

definition silent :: "('w engine, 'a) action \<Rightarrow> bool" where
  "silent m \<longleftrightarrow> (\<forall>e. publication_kept e (snd (m e)))"

named_theorems silent_intros

lemma publication_kept_refl [simp]: "publication_kept e e"
  by (simp add: publication_kept_def)

lemma publication_kept_trans: "publication_kept e e' \<Longrightarrow> publication_kept e' e'' \<Longrightarrow> publication_kept e e''"
  by (auto simp: publication_kept_def)

lemma silent_then [silent_intros]: "silent m \<Longrightarrow> (\<And>a. silent (f a)) \<Longrightarrow> silent (then_do m f)"
  unfolding silent_def then_do_def by (auto split: prod.splits sum.splits) (metis publication_kept_trans snd_conv)+

lemma silent_try [silent_intros]:
  "silent m \<Longrightarrow> (\<And>a. silent (f a)) \<Longrightarrow> (\<And>x. silent (g x)) \<Longrightarrow> silent (try_do m f g)"
  unfolding silent_def try_do_def by (auto split: prod.splits sum.splits) (metis publication_kept_trans snd_conv)+

lemma silent_cases [silent_intros]:
  "(b \<Longrightarrow> silent m) \<Longrightarrow> (\<not> b \<Longrightarrow> silent m') \<Longrightarrow> silent (if b then m else m')"
  "silent m \<Longrightarrow> (\<And>a. silent (f a)) \<Longrightarrow> silent (case x of None \<Rightarrow> m | Some a \<Rightarrow> f a)"
  "(\<And>x. silent (g x)) \<Longrightarrow> (\<And>a. silent (h a)) \<Longrightarrow> silent (case y of Inl x \<Rightarrow> g x | Inr a \<Rightarrow> h a)"
  "(\<And>a b. silent (k a b)) \<Longrightarrow> silent (case z of (a, b) \<Rightarrow> k a b)"
  "silent m \<Longrightarrow> silent m' \<Longrightarrow> silent (case c of True \<Rightarrow> m | False \<Rightarrow> m')"
  by (auto split: option.split sum.split prod.split bool.split)

lemma silent_modify: "(\<And>e. publication_kept e (f e)) \<Longrightarrow> silent (modify f)"
  by (simp add: silent_def modify_def)

definition publication_part :: "'w engine \<Rightarrow> verdict_store \<times> verdict_tally \<times> ledger_store" where
  "publication_part e = (en_verdict_log e, en_published e, en_ledger e)"

interpretation publication: bystander cf publication_part for cf
  by unfold_locales (simp_all add: publication_part_def)

lemma silent_leaves: "leaves publication_part m \<Longrightarrow> silent m"
  by (simp add: silent_def leaves_def publication_kept_def publication_part_def)

lemmas silent_basic [silent_intros] = leaves_basic [THEN silent_leaves]

lemmas silent_parts [silent_intros] =
  publication.leaves_look [THEN silent_leaves] publication.leaves_steps [THEN silent_leaves]
  publication.leaves_appends [THEN silent_leaves] publication.leaves_puts [THEN silent_leaves]
  publication.leaves_entries [THEN silent_leaves] publication.leaves_expire [THEN silent_leaves]
  publication.leaves_escrow [THEN silent_leaves] publication.leaves_observation [THEN silent_leaves]
  publication.leaves_reads [THEN silent_leaves] publication.leaves_filing [THEN silent_leaves]
  publication.leaves_fetch [THEN silent_leaves] publication.leaves_archive [THEN silent_leaves]
  publication.leaves_settle [THEN silent_leaves] publication.leaves_supersede [THEN silent_leaves]

lemma silent_if_ok [silent_intros]: "silent m \<Longrightarrow> silent (if_ok m)"
  unfolding if_ok_def by (intro silent_intros)

subsection \<open>A commit\<close>

lemma write_and_sync_tree: "write_and_sync outcome payload dir store = (Inr store', dir') \<Longrightarrow> ls_tree store' = ls_tree store"
  by (auto simp: write_and_sync_def Let_def split: option.splits prod.splits sum.splits if_splits)

lemma log_commit_len: "log_commit H entry log = Inr log' \<Longrightarrow> log_len log' = Suc (log_len log)"
  by (auto simp: log_commit_def log_len_def and_then_eq_Inr Let_def split: if_splits)

lemma ledger_append_len:
  "ledger_append H tvl tve outcome t d at dir store = (res, dir', store') \<Longrightarrow> log_len (ls_tree store) \<le> log_len (ls_tree store')"
  by (auto simp: ledger_append_def dest!: write_and_sync_tree log_commit_len split: if_splits option.splits sum.splits prod.splits)

lemma silent_leaf [silent_intros]: "silent (append_entry cf t d at)" "silent (append_leaf cf t d at)"
proof -
  show a: "silent (append_entry cf t d at)"
    by (auto simp: silent_def append_entry_def publication_kept_def dest: ledger_append_len split: prod.split)
  show "silent (append_leaf cf t d at)" unfolding append_leaf_def by (intro silent_intros a)
qed

lemma silent_apply [silent_intros]: "silent (apply_once cf ad d)"
  by (simp add: silent_def apply_once_def publication_kept_def split: prod.split)

lemma silent_finish [silent_intros]: "silent (finish_commit cf t v canonical out back applied at key)"
  unfolding finish_commit_def receipt_into_ledger_def
  by (intro silent_intros silent_modify) (simp add: publication_kept_def)

lemma silent_promise [silent_intros]: "silent go_on \<Longrightarrow> silent (check_promise cf t applied at go_on)"
  unfolding check_promise_def Let_def by (intro silent_intros silent_modify) (simp_all add: publication_kept_def)

lemma silent_compensate [silent_intros]: "silent (compensate cf ad t locator fp0 held at)"
  unfolding compensate_def by (auto intro!: silent_intros split: option.split compensation_verdict.split)

lemma silent_guarded [silent_intros]: "silent go_on \<Longrightarrow> silent (guarded cf ad t en at go_on)"
  unfolding guarded_def by (auto intro!: silent_intros split: sum.split bool.split)

lemma silent_commit: "silent (commit cf t at key)"
  unfolding commit_def commit_canonicalized_def apply_and_finish_def Let_def by (intro silent_intros)

subsection \<open>A recovery\<close>

lemma silent_close [silent_intros]: "silent (close_row cf t leaf rb at key)" "silent (close_held cf t x path matched at key)"
  unfolding close_held_def close_row_def by (intro silent_intros silent_modify; simp add: publication_kept_def)+

lemma silent_resume_finish [silent_intros]: "silent (resume_finish cf t row escrow held filed v canonical fp0 post post' at key)"
  unfolding resume_finish_def resume_receipt_def resume_leaf_def by (intro silent_intros)

lemma silent_partial [silent_intros]: "silent (modify (\<lambda>e. e\<lparr>en_partial := f e\<rparr>))"
  by (rule silent_modify) (simp add: publication_kept_def)

lemma silent_resume: "silent (resume cf row escrow at key)"
  unfolding resume_def resume_rebuild_def resume_world_def reapply_def refuse_row_def Let_def
  by (auto split: option.split intro!: silent_intros)

lemma silent_recover_rows: "silent (recover_rows cf sh at key out rows)"
proof (induction rows arbitrary: out)
  case (Cons row rows)
  then show ?case
    unfolding recover_rows.simps Let_def
    by (intro silent_cases silent_then silent_try silent_resume silent_modify Cons.IH silent_basic) (auto simp: publication_kept_def split: option.split)
qed (simp add: silent_intros)

lemma silent_recover: "silent (recover cf at key)"
  unfolding recover_def Let_def
  by (intro silent_intros silent_recover_rows silent_modify) (simp_all add: publication_kept_def)

section \<open>The invariant of the chain\<close>

text \<open>
  The published chain is consistent, adds up to what the engine takes for published, and names a ledger
  that is not longer than the one it has.
\<close>

definition publication_ok :: "'w engine \<Rightarrow> bool" where
  "publication_ok e \<longleftrightarrow>
     (let cks = vs_checkpoints (en_verdict_log e) in
      windows_chained None None cks \<and> tally_sum cks tally_default = en_published e
      \<and> (cks \<noteq> [] \<longrightarrow> vc_window_end (last cks) = tally_total (en_published e)
           \<and> unat (vc_ledger_tree_size (last cks)) \<le> log_len (ls_tree (en_ledger e))))"

lemma publication_ok_kept: "publication_kept e e' \<Longrightarrow> publication_ok e \<Longrightarrow> publication_ok e'"
  by (auto simp: publication_ok_def publication_kept_def Let_def)

lemma windows_chained_snoc:
  "windows_chained pe pl (cks @ [ck]) \<longleftrightarrow> windows_chained pe pl cks
     \<and> saturating_sub (vc_window_end ck) (vc_window_start ck) = tally_total (vc_tally ck)
     \<and> (\<forall>e. (if cks = [] then pe else Some (vc_window_end (last cks))) = Some e \<longrightarrow> e = vc_window_start ck)
     \<and> (\<forall>b. (if cks = [] then pl else Some (vc_ledger_tree_size (last cks))) = Some b \<longrightarrow> b \<le> vc_ledger_tree_size ck)"
  by (induction cks arbitrary: pe pl) auto

lemma not_ahead:
  "published_ahead p v = None \<longleftrightarrow>
     vt_deny p \<le> vt_deny v \<and> vt_admit p \<le> vt_admit v \<and> vt_escalate p \<le> vt_escalate v \<and> vt_unverdicted p \<le> vt_unverdicted v"
  by (auto simp: published_ahead_def not_less)

lemma saturating_sub_le: "b \<le> a \<Longrightarrow> saturating_sub a b = a - b"
  by (auto simp: saturating_sub_def dest: leD)

lemma window_adds: "published_ahead p v = None \<Longrightarrow> tally_add p (verdict_window p v) = v"
  by (simp add: not_ahead tally_add_def verdict_window_def saturating_sub_le)

lemma window_total:
  assumes "published_ahead p v = None" "count_total v < u64_limit"
  shows "saturating_sub (tally_total v) (tally_total p) = tally_total (verdict_window p v)"
proof -
  have le: "vt_deny p \<le> vt_deny v" "vt_admit p \<le> vt_admit v" "vt_escalate p \<le> vt_escalate v" "vt_unverdicted p \<le> vt_unverdicted v"
    using assms(1) by (simp_all add: not_ahead)
  then have le': "count_total p \<le> count_total v" by (simp add: count_total_def word_le_nat_alt)
  then have "unat (tally_total p) \<le> unat (tally_total v)" using assms(2) by (simp add: tally_total_small)
  then have "tally_total p \<le> tally_total v" by (simp add: word_le_nat_alt)
  moreover have "tally_total (verdict_window p v) = tally_total v - tally_total p"
    using le by (simp add: verdict_window_def saturating_sub_le tally_total_def)
  ultimately show ?thesis by (simp add: saturating_sub_le)
qed

lemma verdict_append_result:
  "verdict_append tvv outcome ck dir store = (res, dir', store') \<Longrightarrow>
     (case res of Inl _ \<Rightarrow> store' = store | Inr _ \<Rightarrow> store' = store\<lparr>vs_checkpoints := vs_checkpoints store @ [ck]\<rparr>)"
  by (auto simp: verdict_append_def Let_def split: if_splits sum.splits option.splits prod.splits)

text \<open>What a publication does: nothing, or one more checkpoint over all that was counted since the last.\<close>

lemma publish_run:
  assumes "publish_verdicts cf origin at key e = (res, e')"
  shows "case res of
      Inl _ \<Rightarrow> publication_kept e e'
    | Inr ck \<Rightarrow> published_ahead (en_published e) (en_verdicts e) = None
        \<and> vs_checkpoints (en_verdict_log e') = vs_checkpoints (en_verdict_log e) @ [ck] \<and> en_published e' = en_verdicts e
        \<and> en_ledger e' = en_ledger e \<and> vc_tally ck = verdict_window (en_published e) (en_verdicts e)
        \<and> vc_window_start ck = tally_total (en_published e) \<and> vc_window_end ck = tally_total (en_verdicts e)
        \<and> vc_ledger_tree_size ck = of_nat (log_len (ls_tree (en_ledger e)))"
  using assms
  by (cases "published_ahead (en_published e) (en_verdicts e)") (auto simp: publish_verdicts_def append_checkpoint_def then_do_def get_def lift_def fail_def ret_def modify_def unsigned_verdict_checkpoint_def
      sign_verdict_checkpoint_def and_then_eq_Inr publication_kept_def dest!: verdict_append_result split: if_splits sum.splits prod.splits option.splits)

lemma publish_ok:
  assumes "publication_ok e" "count_total (en_verdicts e) < u64_limit" "log_len (ls_tree (en_ledger e)) < u64_limit"
  shows "publication_ok (snd (publish_verdicts cf origin at key e))"
proof (cases "publish_verdicts cf origin at key e")
  case (Pair res e')
  show ?thesis
  proof (cases res)
    case (Inl x)
    then show ?thesis using publish_run [OF Pair] Pair assms(1) publication_ok_kept by auto
  next
    case (Inr ck)
    note run = publish_run [OF Pair, unfolded Inr sum.case]
    have size: "unat (of_nat (log_len (ls_tree (en_ledger e))) :: u64) = log_len (ls_tree (en_ledger e))"
      using assms(3) by (simp add: unat_of_nat)
    have "tally_sum (vs_checkpoints (en_verdict_log e) @ [ck]) tally_default = en_verdicts e"
      using assms(1) run window_adds by (simp add: tally_sum_def publication_ok_def Let_def)
    then show ?thesis
      using assms(1) run window_total [OF _ assms(2)] size Pair
      by (auto simp: publication_ok_def Let_def windows_chained_snoc word_le_nat_alt)
  qed
qed

section \<open>A deployment\<close>

lemma silent_step: "silent m \<Longrightarrow> publication_kept e (snd (m e))"
  by (simp add: silent_def)

text \<open>
  The operations of an engine, with restarts that find the checkpoints and the ledger as they were left
  (\<open>verdict_append_crash_safe\<close> and \<open>append_crash_safe\<close> say when they do), whatever they find of the
  journal, and as long as no counter of 64 bits runs over.
\<close>

inductive deployment :: "'w engine_config \<Rightarrow> 'w engine \<Rightarrow> 'w engine \<Rightarrow> bool" for cf e0 where
  deployed: "deployment cf e0 e0"
| operated: "deployment cf e0 e \<Longrightarrow> operates cf e e' \<Longrightarrow>
    count_total (en_verdicts e) < u64_limit \<Longrightarrow> log_len (ls_tree (en_ledger e)) < u64_limit \<Longrightarrow> deployment cf e0 e'"
| restarted: "deployment cf e0 e \<Longrightarrow> vs_checkpoints vs = vs_checkpoints (en_verdict_log e) \<Longrightarrow>
    log_len (ls_tree (en_ledger e)) \<le> log_len (ls_tree ledger) \<Longrightarrow>
    deployment cf e0 (engine_at_open w n j jdir blobs obs ledger ldir hdir h vs vdir)"

lemma tally_sum_fold: "fold (\<lambda>ck acc. tally_add acc (vc_tally ck)) cks t = tally_sum cks t"
  by (simp add: tally_sum_def foldl_conv_fold)

lemma operates_publication:
  assumes "operates cf e e'" "publication_ok e" "count_total (en_verdicts e) < u64_limit" "log_len (ls_tree (en_ledger e)) < u64_limit"
  shows "publication_ok e'"
  using assms
proof (induction rule: operates.induct)
  case (step_publish e origin at key)
  then show ?case by (intro publish_ok)
qed (use publication_ok_kept publication.leaves_submit publication.leaves_plan publication.leaves_verify publication.leaves_escalation
    publication.leaves_cancel publication.leaves_expire(2) publication.leaves_canonicalize silent_commit publication.leaves_accept
    publication.leaves_undo publication.leaves_rehydrate silent_recover publication.leaves_reissue silent_leaves silent_step in metis)+

lemma deployment_publication: "deployment cf e0 e \<Longrightarrow> publication_ok e0 \<Longrightarrow> publication_ok e"
proof (induction rule: deployment.induct)
  case (restarted e vs ledger w n j jdir blobs obs ldir hdir h vdir)
  then show ?case by (auto simp: publication_ok_def Let_def engine_at_open_def tally_sum_fold)
qed (auto intro: operates_publication)

text \<open>
  C22. An engine's published verdicts stand up to the audit. In every state a deployment reaches from an
  engine that has published nothing, by any operations, restarts and publications, the audit of the
  published chain finds nothing wrong with it exactly when the auditor has seen no more verdicts of a
  kind than were published so far and the ledger has no more leaves than verdicts of admission and
  passages without a verdict were published; the last window ends at the number published; and right
  after a publication all that was counted is published.
\<close>

theorem published_chain_audits_clean:
  assumes "deployment cf e0 e" "vs_checkpoints (en_verdict_log e0) = []" "en_published e0 = tally_default"
  shows "(audit_verdict_chain (vs_checkpoints (en_verdict_log e)) observed n = [] \<longleftrightarrow>
      vt_deny observed \<le> vt_deny (en_published e) \<and> vt_admit observed \<le> vt_admit (en_published e)
      \<and> vt_escalate observed \<le> vt_escalate (en_published e) \<and> n \<le> vt_admit (en_published e) + vt_unverdicted (en_published e))
    \<and> (vs_checkpoints (en_verdict_log e) \<noteq> [] \<longrightarrow>
        vc_window_end (last (vs_checkpoints (en_verdict_log e))) = tally_total (en_published e))
    \<and> (case publish_verdicts cf origin at key e of
         (Inl _, e') \<Rightarrow> en_published e' = en_published e \<and> en_verdict_log e' = en_verdict_log e
       | (Inr ck, e') \<Rightarrow> en_published e' = en_verdicts e
           \<and> vs_checkpoints (en_verdict_log e') = vs_checkpoints (en_verdict_log e) @ [ck]
           \<and> published_ahead (en_published e) (en_verdicts e) = None)"
proof -
  have "publication_ok e0" using assms(2,3) by (simp add: publication_ok_def tally_sum_def)
  then have ok: "publication_ok e" by (rule deployment_publication [OF assms(1)])
  obtain res e' where run: "publish_verdicts cf origin at key e = (res, e')" by fastforce
  from ok publish_run [OF run] show ?thesis
    by (auto simp: publication_ok_def Let_def audit_clean_iff run publication_kept_def split: sum.splits)
qed

text \<open>A project that publishes before anything has happened, and again.\<close>

abbreviation demo_published :: "bool engine" where
  "demo_published \<equiv> snd (publish_verdicts demo_config ''o'' 1 sample_key demo_engine)"

lemma demo_unpublished:
  "en_published demo_engine = tally_default" "en_verdicts demo_engine = tally_default" "vs_checkpoints (en_verdict_log demo_engine) = []"
  "en_verdict_log demo_engine = verdict_store_of [] 0 False None" "ld_file (en_verdict_dir demo_engine) = Some []"
  by (simp_all add: demo_engine_def engine_at_open_def Let_def marked_journal_fields tally_from_the_journal_def verdict_store_of_def)

lemma fresh_tree: "ls_tree fresh_store = \<lparr>log_entries = [], log_leaves = [], log_tile_roots = []\<rparr>"
  by (simp add: fresh_store_def store_of_def replay_start_def new_log_def)

lemma demo_publishes: obtains ck e' where "publish_verdicts demo_config ''o'' 1 sample_key demo_engine = (Inr ck, e')"
proof -
  have "published_ahead tally_default tally_default = None" by (simp add: not_ahead)
  moreover have "log_root (\<lambda>_. other_cid) (ls_tree fresh_store) = Inr None"
    by (simp add: fresh_tree log_root_def mth_range.simps)
  ultimately show ?thesis
    using that
    by (simp add: publish_verdicts_def then_do_def get_def demo_unpublished demo_simps lift_def unsigned_verdict_checkpoint_def and_then_def
        sign_verdict_checkpoint_def verdict_checkpoint_signing_message_def verdict_checkpoint_signing_bytes_def demo_encodes map_err_def
        append_checkpoint_def verdict_append_def verdict_store_of_def frame_write_and_sync_def MAX_RECORD_BYTES_def modify_def ret_def Let_def demo_config_def demo_codec_def demo_answers_def)
qed

theorem published_chain_audits_clean_witness:
  "length (vs_checkpoints (en_verdict_log demo_published)) = 1
    \<and> audit_verdict_chain (vs_checkpoints (en_verdict_log demo_published)) tally_default 0 = []"
proof -
  obtain ck e' where run: "publish_verdicts demo_config ''o'' 1 sample_key demo_engine = (Inr ck, e')" by (rule demo_publishes)
  have small: "count_total (en_verdicts demo_engine) < u64_limit" "log_len (ls_tree (en_ledger demo_engine)) < u64_limit"
    by (simp_all add: demo_unpublished count_total_def tally_default_def demo_simps fresh_tree log_len_def)
  note chain = published_chain_audits_clean [OF _ demo_unpublished(3,1)]
  have step: "deployment demo_config demo_engine demo_published" by (rule operated [OF deployed step_publish small])
  have "vs_checkpoints (en_verdict_log demo_published) = [ck]" "en_published demo_published = tally_default"
    using publish_run [OF run] by (simp_all add: run demo_unpublished verdict_store_of_def)
  with chain [OF step, of tally_default 0] show ?thesis by (simp add: tally_default_def)
qed

end
