(* ===== verification/Project_Open.thy ===== *)
theory Project_Open
  imports Recovery
begin

text \<open>
  Opening a project, \<open>open_through\<close> of \<open>src/crates/gx-engine/src/pipeline.rs\<close> for the door of a writer: the
  stores are opened one after the other, the recorded head is read and authenticated (\<open>read_head\<close>,
  \<open>verify_head_witness\<close>), and the project is compared with it (\<open>rollback_of\<close>). The texts of the refusals are
  shortened; the two directories of bodies are taken to exist.
\<close>

section \<open>The recorded head\<close>

record head_reading =
  hr_floor :: "head_floor option"
  hr_authenticity :: "head_authenticity option"
  hr_invalid :: "string option"
  hr_key_id :: "string option"

definition no_reading :: head_reading where
  "no_reading = \<lparr>hr_floor = None, hr_authenticity = None, hr_invalid = None, hr_key_id = None\<rparr>"

definition verify_head_witness :: "(head_witness \<Rightarrow> string + bytes) \<Rightarrow> persisted_head \<Rightarrow> verifying_key \<Rightarrow> string + unit" where
  "verify_head_witness tw head vk =
     (case ph_witness_signature head of
        None \<Rightarrow> Inr ()
      | Some s \<Rightarrow>
          and_then (map_err (\<lambda>_. ''no payload'') (tw (head_stated head))) (\<lambda>payload.
          map_err (\<lambda>_. ''does not verify'')
            (envelope_verify vk \<lparr>env_payload_type = HEAD_WITNESS_PAYLOAD_TYPE, env_payload = payload, env_signatures = [s]\<rparr>)))"

definition refuted_head :: "string option \<Rightarrow> string \<Rightarrow> head_reading" where
  "refuted_head key_id why = \<lparr>hr_floor = None, hr_authenticity = Some HeadRefuted, hr_invalid = Some why, hr_key_id = key_id\<rparr>"

definition read_head ::
  "(bytes \<Rightarrow> string + persisted_head) \<Rightarrow> (checkpoint_core \<Rightarrow> string + bytes) \<Rightarrow> (head_witness \<Rightarrow> string + bytes) \<Rightarrow> head_dir
    \<Rightarrow> (string \<Rightarrow> verifying_key option) option \<Rightarrow> head_reading" where
  "read_head fj tc tw dir keys =
     (case head_read fj dir of
        Inr None \<Rightarrow> no_reading\<lparr>hr_authenticity := Some HeadAbsent\<rparr>
      | Inl _ \<Rightarrow> refuted_head None ''will not read''
      | Inr (Some head) \<Rightarrow>
          (let keyid = sig_keyid (ck_signature (ph_checkpoint head)) in
           case head_floor_of head of
             Inl _ \<Rightarrow> refuted_head (Some keyid) ''no floor''
           | Inr fl \<Rightarrow>
               (let found = (\<lambda>au. \<lparr>hr_floor = Some fl, hr_authenticity = Some au, hr_invalid = None, hr_key_id = Some keyid\<rparr>) in
                case Option.bind keys (\<lambda>ks. ks keyid) of
                  None \<Rightarrow> found HeadUnverified
                | Some vk \<Rightarrow>
                    (case verify_checkpoint tc (ph_checkpoint head) vk of
                       Inl _ \<Rightarrow> refuted_head (Some keyid) ''signature''
                     | Inr _ \<Rightarrow>
                         (case verify_head_witness tw head vk of
                            Inl why \<Rightarrow> refuted_head (Some keyid) why
                          | Inr _ \<Rightarrow> found HeadVerified)))))"

definition rollback_of ::
  "(bytes \<Rightarrow> cid) \<Rightarrow> head_floor \<Rightarrow> ledger_store \<Rightarrow> ledger_dir \<Rightarrow> engine_journal \<Rightarrow> bytes option \<Rightarrow> engine_error + rolled_back option" where
  "rollback_of H fl ledger jdir j version =
     and_then (map_err (\<lambda>_. EnginePanic) (root_at H (ls_tree ledger) (hf_tree_size fl))) (\<lambda>now_root.
     let now_journal_len = (case ld_file jdir of Some bs \<Rightarrow> length bs | None \<Rightarrow> 0);
         now_journal_head =
           (if hf_journal_head fl \<noteq> None \<and> hf_journal_len fl \<le> now_journal_len
            then Some (chain_head_through H jdir (hf_journal_len fl) j) else None)
     in Inr (compare_head fl (log_len (ls_tree ledger)) now_root now_journal_len
               (map_option (\<lambda>h. case h of Some x \<Rightarrow> x | None \<Rightarrow> None) now_journal_head) version))"

section \<open>Opening\<close>

record project_anchor =
  pa_head :: bool
  pa_declared_format :: "journal_format option"
  pa_keys :: "(string \<Rightarrow> verifying_key option) option"
  pa_version_digest :: "bytes option"
  pa_accept_rollback :: bool
  pa_journal_creation :: journal_creation

text \<open>The files of a project, the decoders, and the answers of the operating system to the opening.\<close>

record project_disk =
  dk_journal :: ledger_dir
  dk_blobs :: file_dir
  dk_observations :: file_dir
  dk_ledger :: ledger_dir
  dk_verdicts :: ledger_dir
  dk_head :: head_dir

record open_codec =
  oc_journal :: "bytes \<Rightarrow> string + journal_record"
  oc_entry :: "bytes \<Rightarrow> string + ledger_entry"
  oc_verdict :: "bytes \<Rightarrow> string + verdict_checkpoint"
  oc_head :: "bytes \<Rightarrow> string + persisted_head"

record open_answers =
  oa_marker :: write_outcome
  oa_journal_copy :: copy_outcome
  oa_truncate :: truncate_outcome
  oa_parent_synced :: bool
  oa_ledger_copy :: copy_outcome
  oa_verdict_copy :: copy_outcome

definition open_ledger ::
  "engine_codec \<Rightarrow> open_codec \<Rightarrow> open_answers \<Rightarrow> bool \<Rightarrow> ledger_dir \<Rightarrow> (engine_error + ledger_store) \<times> ledger_dir" where
  "open_ledger ec oc oa suspect dir =
     (if suspect then (map_err (\<lambda>_. LedgerRefused ''open'') (open_read_only_or_absent (ec_hash ec) (ec_leaf ec) (oc_entry oc) dir), dir)
      else case ledger_open (ec_hash ec) (ec_leaf ec) (oc_entry oc) (oa_ledger_copy oa) dir of
          (res, dir') \<Rightarrow> (map_err (\<lambda>_. LedgerRefused ''open'') res, dir'))"

definition open_verdicts ::
  "open_codec \<Rightarrow> open_answers \<Rightarrow> bool \<Rightarrow> ledger_dir \<Rightarrow> (engine_error + verdict_store) \<times> ledger_dir" where
  "open_verdicts oc oa suspect dir =
     (if suspect then (map_err (\<lambda>_. LedgerRefused ''open the verdict checkpoint log'') (verdict_open_read_only_or_absent (oc_verdict oc) dir), dir)
      else case verdict_open (oc_verdict oc) (oa_verdict_copy oa) dir of
          (res, dir') \<Rightarrow> (map_err (\<lambda>_. LedgerRefused ''open the verdict checkpoint log'') res, dir'))"

fun version_changed :: "rolled_back option \<Rightarrow> bool" where
  "version_changed (Some (VersionChanged _ _)) = True"
| "version_changed _ = False"

definition head_at_open :: "head_reading \<Rightarrow> rolled_back option \<Rightarrow> bool \<Rightarrow> head_state" where
  "head_at_open reading why accept =
     \<lparr>hs_floor = hr_floor reading,
      hs_rolled_back = map_option (\<lambda>_. ''rolled back'') why,
      hs_invalid = hr_invalid reading,
      hs_resumed_rows = 0,
      hs_accepted = None,
      hs_pending =
        (case (why, accept, hr_floor reading) of
           (Some _, True, Some fl) \<Rightarrow>
             Some \<lparr>ar_was_tree_size = hf_tree_size fl, ar_was_root_hash = to_text (hf_root_hash fl), ar_against = [], ar_at = 0\<rparr>
         | _ \<Rightarrow> None),
      hs_authenticity = (case hr_authenticity reading of Some au \<Rightarrow> au | None \<Rightarrow> HeadAbsent),
      hs_key_id = hr_key_id reading,
      hs_declaration_changed = version_changed why\<rparr>"

definition open_through ::
  "engine_codec \<Rightarrow> open_codec \<Rightarrow> open_answers \<Rightarrow> project_anchor \<Rightarrow> 'w \<Rightarrow> nat \<Rightarrow> project_disk \<Rightarrow> (engine_error + 'w engine) \<times> project_disk" where
  "open_through ec oc oa anchor w n dk =
     (case open_declared_creating (ec_hash ec) (oc_journal oc) (oa_marker oa) (oa_journal_copy oa) (oa_truncate oa) (oa_parent_synced oa)
             (pa_declared_format anchor) (pa_journal_creation anchor) (dk_journal dk) of
        (Inl err, jdir) \<Rightarrow> (Inl err, dk\<lparr>dk_journal := jdir\<rparr>)
      | (Inr j, jdir) \<Rightarrow>
          (let dk = dk\<lparr>dk_journal := jdir\<rparr>; suspect = (ej_break j \<noteq> None \<or> ej_downgraded j) in
           case open_ledger ec oc oa suspect (dk_ledger dk) of
             (Inl err, ldir) \<Rightarrow> (Inl err, dk\<lparr>dk_ledger := ldir\<rparr>)
           | (Inr ledger, ldir) \<Rightarrow>
               (let dk = dk\<lparr>dk_ledger := ldir\<rparr> in
                case open_verdicts oc oa suspect (dk_verdicts dk) of
                  (Inl err, vdir) \<Rightarrow> (Inl err, dk\<lparr>dk_verdicts := vdir\<rparr>)
                | (Inr vs, vdir) \<Rightarrow>
                    (let dk = dk\<lparr>dk_verdicts := vdir\<rparr>;
                         reading = (if pa_head anchor
                           then read_head (oc_head oc) (ec_checkpoint ec) (ec_witness ec) (dk_head dk) (pa_keys anchor) else no_reading) in
                     case (case hr_floor reading of
                             None \<Rightarrow> Inr None
                           | Some fl \<Rightarrow> rollback_of (ec_hash ec) fl ledger jdir j (pa_version_digest anchor)) of
                       Inl err \<Rightarrow> (Inl err, dk)
                     | Inr why \<Rightarrow>
                         (Inr (engine_at_open w n j jdir (dk_blobs dk) (dk_observations dk) ledger ldir (dk_head dk)
                            (head_at_open reading why (pa_accept_rollback anchor)) vs vdir), dk)))))"

end
