(* ===== verification/Engine_Open.thy ===== *)
theory Engine_Open
  imports Project_Open Engine_Run
begin

text \<open>
  What opening a project finds out: a recorded head reads back as verified, every ledger file is replayed
  into a well-formed log, and the comparison with the head finds every rewriting of the history that
  the head committed to and accuses no project that only grew.
\<close>

section \<open>The head comes back as it was written\<close>

definition key_fits :: "key_pair \<Rightarrow> verifying_key \<Rightarrow> bool" where
  "key_fits key vk \<longleftrightarrow> vk_key_id vk = kp_key_id key \<and> (\<forall>m. vk_check vk m (kp_sign key m))"

definition floor_of_engine :: "'w engine_config \<Rightarrow> 'w engine \<Rightarrow> cid \<Rightarrow> head_floor" where
  "floor_of_engine cf e root =
     (let len = (case ld_file (en_journal_dir e) of Some bs \<Rightarrow> length bs | None \<Rightarrow> 0) in
      \<lparr>hf_tree_size = log_len (ls_tree (en_ledger e)), hf_root_hash = root, hf_journal_len = len,
       hf_journal_head = Option.bind (chain_head_through (ec_hash (cf_codec cf)) (en_journal_dir e) len (en_journal e)) id,
       hf_version_digest = cf_version_digest cf\<rparr>)"

text \<open>What a head states of the engine that wrote it, and that it verifies under the key of the engine.\<close>

lemma recorded_head:
  assumes "head_to_record cf e origin at key = Inr head" "key_fits key vk"
  obtains root where "log_root (ec_hash (cf_codec cf)) (ls_tree (en_ledger e)) = Inr (Some root)"
    "head_floor_of head = Inr (floor_of_engine cf e root)" "sig_keyid (ck_signature (ph_checkpoint head)) = kp_key_id key"
    "verify_checkpoint (ec_checkpoint (cf_codec cf)) (ph_checkpoint head) vk = Inr ()"
    "verify_head_witness (ec_witness (cf_codec cf)) head vk = Inr ()" "ph_head_version head = HEAD_VERSION"
proof -
  obtain root where "log_root (ec_hash (cf_codec cf)) (ls_tree (en_ledger e)) = Inr (Some root)"
    using assms(1) by (auto simp: head_to_record_def Let_def and_then_eq_Inr unsigned_checkpoint_def ok_or_def split: option.splits)
  then show ?thesis
    using assms
    by (intro that [of root])
      (auto simp: head_to_record_def Let_def and_then_eq_Inr unsigned_checkpoint_def ok_or_def head_floor_of_def floor_of_engine_def from_hex_to_hex
        sign_checkpoint_def verify_checkpoint_def checkpoint_signing_message_def checkpoint_signing_bytes_def key_fits_def verify_raw_def
        verify_head_witness_def head_stated_def envelope_sign_def envelope_verify_def signature_for_def signing_bytes_def and_then_def
        split: option.splits sum.splits)
qed

lemma recorded_head_read:
  assumes "head_to_record cf e origin at key = Inr head" "key_fits key vk" "ks (kp_key_id key) = Some vk"
    "head_read fj dir = Inr (Some head)"
  obtains root where "log_root (ec_hash (cf_codec cf)) (ls_tree (en_ledger e)) = Inr (Some root)"
    "read_head fj (ec_checkpoint (cf_codec cf)) (ec_witness (cf_codec cf)) dir (Some ks) =
       \<lparr>hr_floor = Some (floor_of_engine cf e root), hr_authenticity = Some HeadVerified, hr_invalid = None, hr_key_id = Some (kp_key_id key)\<rparr>"
  by (rule recorded_head [OF assms(1,2)]) (rule that, simp_all add: read_head_def assms(3,4) Let_def)

section \<open>Opening replays a log\<close>

text \<open>Whatever the file holds, the log that an opening builds from it is a well-formed one.\<close>

lemma replay_loop_ok: "log_ok H tvl (rp_tree st) \<Longrightarrow> replay_loop H tvl fse rest st = Inr rp \<Longrightarrow> log_ok H tvl (rp_tree rp)"
proof (induction rest arbitrary: st rule: length_induct)
  case (1 rest)
  have next_ok: "log_ok H tvl tree" if "stage H tvl (rp_tree st) t r at = Inr staged" "log_commit H staged (rp_tree st) = Inr tree" for t r at staged tree
  proof -
    have "\<exists>e. log_append H tvl (rp_tree st) t r at = Inr (tree, e)" using that by (simp add: log_append_def and_then_def)
    then show ?thesis using log_append_Inr(1) [OF "1.prems"(1)] by blast
  qed
  let ?len = "be_nat (take LENGTH_BYTES rest)"
  consider (stop) "rp_tree rp = rp_tree st"
    | (onward) tree st' where "log_ok H tvl tree" "rp_tree st' = tree" "\<not> length rest < LENGTH_BYTES"
        "replay_loop H tvl fse (drop (LENGTH_BYTES + ?len) rest) st' = Inr rp"
    using "1.prems"(2) [unfolded replay_loop.simps [of H tvl fse rest st]]
    by (auto simp: Let_def and_then_eq_Inr split: if_splits sum.splits) (metis next_ok replayed.select_convs(1))
  then show ?case
  proof cases
    case onward
    have "length (drop (LENGTH_BYTES + ?len) rest) < length rest" using onward(3) by (simp add: LENGTH_BYTES_def)
    with "1.IH" onward show ?thesis by blast
  qed (use "1.prems"(1) in simp)
qed

lemma replay_ok: "replay H tvl fse file = Inr rp \<Longrightarrow> log_ok H tvl (rp_tree rp)"
  using replay_loop_ok [where st = replay_start] by (fastforce simp: replay_def replay_start_def)

lemma open_ledger_ok: "open_ledger ec oc oa suspect dir = (Inr store, dir') \<Longrightarrow> log_ok (ec_hash ec) (ec_leaf ec) (ls_tree store)"
  by (auto simp: open_ledger_def ledger_open_def open_read_only_or_absent_def open_read_only_def Let_def and_then_eq_Inr store_of_def
      dest!: replay_ok split: if_splits prod.splits sum.splits option.splits)

section \<open>Comparing with the head\<close>

definition journal_length :: "'w engine \<Rightarrow> nat" where
  "journal_length e = (case ld_file (en_journal_dir e) of Some bs \<Rightarrow> length bs | None \<Rightarrow> 0)"

text \<open>A later state of a project that only grew.\<close>

definition only_grew :: "'w engine \<Rightarrow> 'w engine \<Rightarrow> bool" where
  "only_grew e e' \<longleftrightarrow>
     take (log_len (ls_tree (en_ledger e))) (log_entries (ls_tree (en_ledger e'))) = log_entries (ls_tree (en_ledger e))
     \<and> (case ld_file (en_journal_dir e) of
          None \<Rightarrow> True
        | Some bs \<Rightarrow> (\<exists>bs'. ld_file (en_journal_dir e') = Some bs' \<and> take (length bs) bs' = bs))
     \<and> ej_format (en_journal e') = ej_format (en_journal e)"

lemma head_root:
  assumes "log_ok H tv log" "log_root H log = Inr (Some root)" "log_len log < u64_limit"
  shows "0 < log_len log" "root_at H log (log_len log) = Inr (Some root)"
proof -
  have len: "length (log_leaves log) = log_len log" using log_okD(2) [OF assms(1)] by simp
  show pos: "0 < log_len log"
  proof (rule ccontr)
    assume "\<not> 0 < log_len log"
    then have "log_leaves log = []" using len by simp
    then show False using assms(2) by (simp add: log_root_def mth_range.simps)
  qed
  show "root_at H log (log_len log) = Inr (Some root)" using assms(2,3) pos len by (simp add: root_at_def log_root_def)
qed

lemma rollback_none_if_grown:
  assumes log: "log_ok (ec_hash (cf_codec cf)) tv (ls_tree (en_ledger e))" "log_len (ls_tree (en_ledger e)) < u64_limit"
    and root: "log_root (ec_hash (cf_codec cf)) (ls_tree (en_ledger e)) = Inr (Some root)"
    and log': "log_ok (ec_hash (cf_codec cf)) tv (ls_tree (en_ledger e'))" and grew: "only_grew e e'"
  shows "rollback_of (ec_hash (cf_codec cf)) (floor_of_engine cf e root) (en_ledger e') (en_journal_dir e') (en_journal e') (cf_version_digest cf) = Inr None"
proof -
  let ?H = "ec_hash (cf_codec cf)" and ?log = "ls_tree (en_ledger e)" and ?log' = "ls_tree (en_ledger e')"
  have len: "log_len ?log \<le> log_len ?log'" using grew by (auto simp: only_grew_def log_len_def dest: arg_cong [of _ _ length])
  have "root_at ?H ?log' (log_len ?log) = root_at ?H ?log (log_len ?log)"
    using grew len by (intro root_at_prefix [OF log' log(1)]) (auto simp: only_grew_def log_len_def)
  then have r: "root_at ?H ?log' (log_len ?log) = Inr (Some root)" using head_root(2) [OF log(1) root log(2)] by simp
  have j: "journal_length e \<le> journal_length e'"
    using grew by (auto simp: only_grew_def journal_length_def split: option.splits dest: arg_cong [of _ _ length])
  have c: "chain_head_through ?H (en_journal_dir e') (journal_length e) (en_journal e') = Some (Some x)"
    if "chain_head_through ?H (en_journal_dir e) (journal_length e) (en_journal e) = Some (Some x)" for x
    using that grew by (auto simp: only_grew_def journal_length_def chain_head_through_def Let_def split: if_splits option.splits)
  show ?thesis
    using r len j c
    by (auto simp: rollback_of_def floor_of_engine_def Let_def compare_head_def and_then_def journal_length_def [symmetric] bind_eq_Some_conv
        split: option.split)
qed

lemma no_rollback_means:
  assumes log: "log_ok (ec_hash (cf_codec cf)) tv (ls_tree (en_ledger e))" "log_len (ls_tree (en_ledger e)) < u64_limit"
    and root: "log_root (ec_hash (cf_codec cf)) (ls_tree (en_ledger e)) = Inr (Some root)"
    and log': "log_ok (ec_hash (cf_codec cf)) tv (ls_tree (en_ledger e'))"
    and none: "rollback_of (ec_hash (cf_codec cf)) (floor_of_engine cf e root) (en_ledger e') (en_journal_dir e') (en_journal e') version = Inr None"
  shows "log_len (ls_tree (en_ledger e)) \<le> log_len (ls_tree (en_ledger e'))
    \<and> (take (log_len (ls_tree (en_ledger e))) (log_leaves (ls_tree (en_ledger e'))) = log_leaves (ls_tree (en_ledger e))
       \<or> collision (ec_hash (cf_codec cf)) (tree_inputs (ec_hash (cf_codec cf)) (take (log_len (ls_tree (en_ledger e))) (log_leaves (ls_tree (en_ledger e')))))
           (tree_inputs (ec_hash (cf_codec cf)) (log_leaves (ls_tree (en_ledger e)))))
    \<and> journal_length e \<le> journal_length e' \<and> (cf_version_digest cf = None \<or> version = cf_version_digest cf)"
proof -
  let ?H = "ec_hash (cf_codec cf)" and ?fl = "floor_of_engine cf e root"
  have fl: "hf_tree_size ?fl = log_len (ls_tree (en_ledger e))" "hf_root_hash ?fl = root" "hf_journal_len ?fl = journal_length e"
      "hf_version_digest ?fl = cf_version_digest cf"
    by (simp_all add: floor_of_engine_def Let_def journal_length_def)
  have all: "take (log_len (ls_tree (en_ledger e))) (log_leaves (ls_tree (en_ledger e))) = log_leaves (ls_tree (en_ledger e))"
    using log_okD(2) [OF log(1)] by simp
  obtain now_root jhead where now: "root_at ?H (ls_tree (en_ledger e')) (hf_tree_size ?fl) = Inr now_root"
      "compare_head ?fl (log_len (ls_tree (en_ledger e'))) now_root (journal_length e') jhead version = None"
    using none by (auto simp: rollback_of_def and_then_eq_Inr Let_def journal_length_def)
  have "hf_tree_size ?fl > 0" "root_at ?H (ls_tree (en_ledger e)) (hf_tree_size ?fl) = Inr (Some (hf_root_hash ?fl))"
    using head_root [OF log(1) root log(2)] by (simp_all add: fl)
  note found = rewrite_detected [OF log(1) log' this now]
  have "journal_length e \<le> journal_length e' \<and> (cf_version_digest cf = None \<or> version = cf_version_digest cf)"
    using now(2) by (auto simp: compare_head_def fl split: if_splits option.splits)
  with found show ?thesis by (simp add: fl all)
qed

lemma opened_engine:
  assumes "open_through ec oc oa anchor w n dk = (Inr e', dk')" "pa_head anchor"
    "hr_floor (read_head (oc_head oc) (ec_checkpoint ec) (ec_witness ec) (dk_head dk) (pa_keys anchor)) = Some fl"
  obtains why where "log_ok (ec_hash ec) (ec_leaf ec) (ls_tree (en_ledger e'))"
    "rollback_of (ec_hash ec) fl (en_ledger e') (en_journal_dir e') (en_journal e') (pa_version_digest anchor) = Inr why"
    "en_head e' = head_at_open (read_head (oc_head oc) (ec_checkpoint ec) (ec_witness ec) (dk_head dk) (pa_keys anchor)) why (pa_accept_rollback anchor)"
  using assms
  by (auto simp: open_through_def Let_def engine_at_open_def dest!: open_ledger_ok split: prod.splits sum.splits option.splits)

text \<open>
  C8. Opening a project compares it with the head it recorded. When an engine recorded its head under a key
  and the project is opened later with that head in place and the key known, then the head counts as
  verified; a project that only grew and has the same declaration is not reported as rolled back; and if
  it is not reported, then its ledger has all leaves the head committed to, or two node inputs of the
  two trees collide, its journal is not shorter, and the declaration is the recorded one. A project
  that is reported refuses every recovery.
\<close>

theorem reopening_compares_with_the_head:
  assumes recorded: "head_to_record cf e origin at key = Inr head"
    and log: "log_ok (ec_hash (cf_codec cf)) (ec_leaf (cf_codec cf)) (ls_tree (en_ledger e))" "log_len (ls_tree (en_ledger e)) < u64_limit"
    and held: "head_read (oc_head oc) (dk_head dk) = Inr (Some head)"
    and keys: "pa_keys anchor = Some ks" "ks (kp_key_id key) = Some vk" "key_fits key vk"
    and run: "open_through (cf_codec cf) oc oa anchor w n dk = (Inr e', dk')" "pa_head anchor"
  shows "hs_authenticity (en_head e') = HeadVerified \<and> hs_invalid (en_head e') = None
    \<and> (only_grew e e' \<and> pa_version_digest anchor = cf_version_digest cf \<longrightarrow> hs_rolled_back (en_head e') = None)
    \<and> (if hs_rolled_back (en_head e') \<noteq> None then standing_refusal e' \<noteq> None
       else log_len (ls_tree (en_ledger e)) \<le> log_len (ls_tree (en_ledger e'))
         \<and> (take (log_len (ls_tree (en_ledger e))) (log_leaves (ls_tree (en_ledger e'))) = log_leaves (ls_tree (en_ledger e))
            \<or> collision (ec_hash (cf_codec cf))
                (tree_inputs (ec_hash (cf_codec cf)) (take (log_len (ls_tree (en_ledger e))) (log_leaves (ls_tree (en_ledger e')))))
                (tree_inputs (ec_hash (cf_codec cf)) (log_leaves (ls_tree (en_ledger e)))))
         \<and> journal_length e \<le> journal_length e' \<and> (cf_version_digest cf = None \<or> pa_version_digest anchor = cf_version_digest cf))"
proof -
  obtain root where root: "log_root (ec_hash (cf_codec cf)) (ls_tree (en_ledger e)) = Inr (Some root)"
    and reading: "read_head (oc_head oc) (ec_checkpoint (cf_codec cf)) (ec_witness (cf_codec cf)) (dk_head dk) (pa_keys anchor) =
       \<lparr>hr_floor = Some (floor_of_engine cf e root), hr_authenticity = Some HeadVerified, hr_invalid = None, hr_key_id = Some (kp_key_id key)\<rparr>"
    using recorded_head_read [where ks = ks and fj = "oc_head oc", OF recorded keys(3,2) held] keys(1) by metis
  have "hr_floor (read_head (oc_head oc) (ec_checkpoint (cf_codec cf)) (ec_witness (cf_codec cf)) (dk_head dk) (pa_keys anchor))
      = Some (floor_of_engine cf e root)" by (simp only: reading head_reading.simps)
  from opened_engine [OF run this] obtain why
    where ok': "log_ok (ec_hash (cf_codec cf)) (ec_leaf (cf_codec cf)) (ls_tree (en_ledger e'))"
    and why: "rollback_of (ec_hash (cf_codec cf)) (floor_of_engine cf e root) (en_ledger e') (en_journal_dir e') (en_journal e')
        (pa_version_digest anchor) = Inr why"
    and made: "en_head e' = head_at_open (read_head (oc_head oc) (ec_checkpoint (cf_codec cf)) (ec_witness (cf_codec cf)) (dk_head dk)
        (pa_keys anchor)) why (pa_accept_rollback anchor)" .
  have head: "hs_authenticity (en_head e') = HeadVerified" "hs_invalid (en_head e') = None"
      "hs_rolled_back (en_head e') = map_option (\<lambda>_. ''rolled back'') why"
    by (simp_all add: made reading head_at_open_def)
  have grown: "why = None" if "only_grew e e'" "pa_version_digest anchor = cf_version_digest cf"
    using rollback_none_if_grown [OF log root ok' that(1)] why that(2) by simp
  have none: "why = None \<Longrightarrow> rollback_of (ec_hash (cf_codec cf)) (floor_of_engine cf e root) (en_ledger e') (en_journal_dir e')
      (en_journal e') (pa_version_digest anchor) = Inr None" using why by simp
  show ?thesis
    using grown no_rollback_means [OF log root ok' none] by (simp add: head standing_refusal_def split: option.split)
qed

text \<open>
  A head without a signed witness counts as verified as soon as its checkpoint verifies, whatever it states
  about the journal: with the witness taken out, the recorded length of the journal can be lowered at
  will.
\<close>

theorem unwitnessed_head_verified:
  assumes "read_head fj tc tw dir (Some ks) = r" "hr_authenticity r = Some HeadVerified" "head_read fj dir = Inr (Some head)"
    "head_read fj dir' = Inr (Some (head\<lparr>ph_witness_signature := None, ph_journal_len := len, ph_journal_head := None\<rparr>))"
  shows "\<exists>fl. read_head fj tc tw dir' (Some ks) = r\<lparr>hr_floor := Some fl\<rparr> \<and> hf_journal_len fl = len \<and> hf_journal_head fl = None"
  using assms
  by (auto simp: read_head_def Let_def refuted_head_def head_floor_of_def and_then_def verify_head_witness_def split: sum.splits option.splits)

section \<open>A project that lost its ledger\<close>

definition lost_config :: "bool engine_config" where
  "lost_config = demo_config\<lparr>cf_codec := demo_codec\<lparr>ec_hash := sample_hash\<rparr>\<rparr>"

definition lost_engine :: "bool engine" where
  "lost_engine = demo_engine\<lparr>en_ledger := fresh_store\<lparr>ls_tree := sample_log\<rparr>\<rparr>"

definition lost_codec :: "persisted_head \<Rightarrow> open_codec" where
  "lost_codec head = \<lparr>oc_journal = sample_fj, oc_entry = (\<lambda>_. Inl []), oc_verdict = (\<lambda>_. Inl []), oc_head = (\<lambda>_. Inr head)\<rparr>"

definition lost_answers :: open_answers where
  "lost_answers = \<lparr>oa_marker = WriteOk, oa_journal_copy = CopyOk, oa_truncate = TruncateOk, oa_parent_synced = True, oa_ledger_copy = CopyOk,
     oa_verdict_copy = CopyOk\<rparr>"

definition lost_key :: verifying_key where
  "lost_key = \<lparr>vk_key_id = ''k'', vk_check = (\<lambda>m s. s = m)\<rparr>"

definition lost_anchor :: project_anchor where
  "lost_anchor = \<lparr>pa_head = True, pa_declared_format = None, pa_keys = Some (\<lambda>_. Some lost_key), pa_version_digest = None,
     pa_accept_rollback = False, pa_journal_creation = Permitted\<rparr>"

definition lost_disk :: project_disk where
  "lost_disk = \<lparr>dk_journal = marked_dir, dk_blobs = (\<lambda>_. None), dk_observations = (\<lambda>_. None), dk_ledger = empty_dir,
     dk_verdicts = empty_dir, dk_head = \<lparr>hd_head = Some [0], hd_tmp = None\<rparr>\<rparr>"

lemma lost_head: obtains head where "head_to_record lost_config lost_engine ''o'' 1 sample_key = Inr head"
proof -
  have "log_root sample_hash sample_log = Inr (Some sample_cid)"
    by (simp add: log_root_def sample_log_def mth_range.simps)
  then show ?thesis
    by (intro that)
      (simp add: head_to_record_def lost_config_def lost_engine_def Let_def unsigned_checkpoint_def and_then_def ok_or_def sign_checkpoint_def
        checkpoint_signing_message_def checkpoint_signing_bytes_def demo_codec_def demo_config_def demo_encodes map_err_def)
qed

lemma lost_journal:
  "open_declared_creating sample_hash sample_fj WriteOk CopyOk TruncateOk True None Permitted marked_dir = (Inr (marked_journal False), marked_dir)"
proof -
  have "open_bytes WriteOk None marked_dir = (Inr JOURNAL_MAGIC_V2, marked_dir)"
    by (simp add: open_bytes_def marked_dir_def JOURNAL_MAGIC_V2_def ascii_def)
  then show ?thesis by (simp add: open_declared_creating_def marked_replay marked_journal_def Let_def marked_dir_def)
qed

lemma opened_run:
  assumes "open_declared_creating (ec_hash ec) (oc_journal oc) (oa_marker oa) (oa_journal_copy oa) (oa_truncate oa) (oa_parent_synced oa)
      (pa_declared_format anchor) (pa_journal_creation anchor) (dk_journal dk) = (Inr j, jdir)"
    and "open_ledger ec oc oa (ej_break j \<noteq> None \<or> ej_downgraded j) (dk_ledger dk) = (Inr ledger, ldir)"
    and "open_verdicts oc oa (ej_break j \<noteq> None \<or> ej_downgraded j) (dk_verdicts dk) = (Inr vs, vdir)"
    and compared: "\<And>fl ver. \<exists>why. rollback_of (ec_hash ec) fl ledger jdir j ver = Inr why"
  shows "\<exists>h dk'. open_through ec oc oa anchor w n dk =
    (Inr (engine_at_open w n j jdir (dk_blobs dk) (dk_observations dk) ledger ldir (dk_head dk) h vs vdir), dk')"
proof -
  have "\<exists>why. (case x of None \<Rightarrow> Inr None | Some fl \<Rightarrow> rollback_of (ec_hash ec) fl ledger jdir j (pa_version_digest anchor)) = Inr why" for x
    using compared by (cases x) auto
  then obtain why where "(case hr_floor (if pa_head anchor
      then read_head (oc_head oc) (ec_checkpoint ec) (ec_witness ec) (dk_head dk) (pa_keys anchor) else no_reading) of
        None \<Rightarrow> Inr None | Some fl \<Rightarrow> rollback_of (ec_hash ec) fl ledger jdir j (pa_version_digest anchor)) = Inr why" by blast
  with assms(1-3) show ?thesis by (cases "pa_head anchor") (simp add: open_through_def Let_def, blast)+
qed

lemma lost_opens:
  obtains e' dk' where "open_through (cf_codec lost_config) (lost_codec head) lost_answers lost_anchor False 0 lost_disk = (Inr e', dk')"
    "en_ledger e' = fresh_store"
proof -
  have v: "\<exists>vs dir. verdict_open (\<lambda>_. Inl []) CopyOk empty_dir = (Inr vs, dir)"
    by (simp add: verdict_open_def empty_dir_def replay_verdicts.simps [of _ "[]"] LENGTH_BYTES_def Let_def)
  have r: "\<exists>why. rollback_of sample_hash fl fresh_store marked_dir (marked_journal False) ver = Inr why" for fl ver
  proof -
    have "root_at sample_hash (ls_tree fresh_store) k = Inr None" for k
      by (simp add: root_at_def fresh_store_def store_of_def replay_start_def new_log_def mth_range.simps)
    then show ?thesis by (simp add: rollback_of_def and_then_def map_err_def Let_def)
  qed
  have sound: "(ej_break (marked_journal False) \<noteq> None \<or> ej_downgraded (marked_journal False)) = False" by (simp add: marked_journal_fields)
  obtain vs vdir where vd: "open_verdicts (lost_codec head) lost_answers False (dk_verdicts lost_disk) = (Inr vs, vdir)"
    using v by (auto simp: open_verdicts_def lost_codec_def lost_answers_def lost_disk_def map_err_def)
  obtain ldir where ld: "open_ledger (cf_codec lost_config) (lost_codec head) lost_answers False (dk_ledger lost_disk) = (Inr fresh_store, ldir)"
    by (simp add: open_ledger_def lost_codec_def lost_answers_def lost_disk_def empty_store map_err_def)
  have jd: "open_declared_creating (ec_hash (cf_codec lost_config)) (oc_journal (lost_codec head)) (oa_marker lost_answers)
      (oa_journal_copy lost_answers) (oa_truncate lost_answers) (oa_parent_synced lost_answers) (pa_declared_format lost_anchor)
      (pa_journal_creation lost_anchor) (dk_journal lost_disk) = (Inr (marked_journal False), marked_dir)"
    using lost_journal by (simp add: lost_codec_def lost_answers_def lost_disk_def lost_anchor_def lost_config_def)
  have rb: "\<exists>why. rollback_of (ec_hash (cf_codec lost_config)) fl fresh_store marked_dir (marked_journal False) ver = Inr why" for fl ver
    using r by (simp add: lost_config_def)
  from opened_run [OF jd _ _ rb, unfolded sound, OF ld vd, of False 0] obtain h dk' where "open_through (cf_codec lost_config) (lost_codec head) lost_answers lost_anchor False 0 lost_disk =
      (Inr (engine_at_open False 0 (marked_journal False) marked_dir (dk_blobs lost_disk) (dk_observations lost_disk) fresh_store ldir
         (dk_head lost_disk) h vs vdir), dk')"
    by blast
  then show ?thesis by (rule that) (simp add: engine_at_open_def Let_def)
qed

theorem reopening_compares_with_the_head_witness:
  "\<exists>head e' dk'. head_to_record lost_config lost_engine ''o'' 1 sample_key = Inr head
     \<and> open_through (cf_codec lost_config) (lost_codec head) lost_answers lost_anchor False 0 lost_disk = (Inr e', dk')
     \<and> standing_refusal e' \<noteq> None"
proof -
  obtain head where head: "head_to_record lost_config lost_engine ''o'' 1 sample_key = Inr head" by (rule lost_head)
  obtain e' dk' where run: "open_through (cf_codec lost_config) (lost_codec head) lost_answers lost_anchor False 0 lost_disk = (Inr e', dk')"
    "en_ledger e' = fresh_store" by (rule lost_opens)
  have log: "log_ok (ec_hash (cf_codec lost_config)) (ec_leaf (cf_codec lost_config)) (ls_tree (en_ledger lost_engine))"
    "log_len (ls_tree (en_ledger lost_engine)) = 1"
    using sample_log_ok by (simp_all add: lost_config_def lost_engine_def demo_codec_def sample_hash_def sample_cid_def zero_cid_def log_len_def sample_log_def)
  have keys: "pa_keys lost_anchor = Some (\<lambda>_. Some lost_key)" "key_fits sample_key lost_key" "pa_head lost_anchor"
    by (simp_all add: lost_anchor_def key_fits_def lost_key_def sample_key_def)
  have held: "head_read (oc_head (lost_codec head)) (dk_head lost_disk) = Inr (Some head)"
    by (rule recorded_head [OF head keys(2)]) (simp add: head_read_def lost_codec_def lost_disk_def)
  have "standing_refusal e' \<noteq> None"
    using reopening_compares_with_the_head [OF head log(1) _ held keys(1) refl keys(2) run(1) keys(3)] log(2) run(2)
    by (auto simp: fresh_store_def store_of_def replay_start_def new_log_def log_len_def split: if_splits)
  with head run show ?thesis by blast
qed

end
