(* ===== verification/Catch_Up.thy ===== *)
theory Catch_Up
  imports Project_Open
begin

text \<open>
  Catching up with what another process has written: \<open>catch_up\<close>, \<open>catch_up_unlocked\<close> and their body
  \<open>read_to_the_end\<close> of \<open>src/crates/gx-engine/src/pipeline.rs\<close>, for an engine that was opened through the
  door of a writer, and the agreement of the two files (\<open>ledger_agrees\<close>, \<open>files_agree\<close>). What the files
  hold by now is an argument. A map of the code is a function here; where the code runs through the
  committed transformations, the model runs through those that the journal names, which are all of them.
\<close>

record caught_up =
  cu_records :: nat
  cu_evicted :: "transformation_id list"

text \<open>The rows that the new records are about, each once, in the order of the records.\<close>

fun evicted_by :: "(transformation_id \<Rightarrow> entry option) \<Rightarrow> transformation_id list \<Rightarrow> journal_record list \<Rightarrow> transformation_id list" where
  "evicted_by tbl out [] = out"
| "evicted_by tbl out (r # rs) =
     evicted_by tbl (case record_transformation r of
         None \<Rightarrow> out
       | Some t \<Rightarrow> if tbl t \<noteq> None \<and> t \<notin> set out then out @ [t] else out) rs"

definition drop_peer :: "transformation_id \<Rightarrow> transformation_id set option \<Rightarrow> transformation_id set option" where
  "drop_peer t peers = (case peers of None \<Rightarrow> None | Some ps \<Rightarrow> if ps - {t} = {} then None else Some (ps - {t}))"

definition evict :: "transformation_id \<Rightarrow> 'w engine \<Rightarrow> 'w engine" where
  "evict t e =
     (case en_table e t of
        None \<Rightarrow> e\<lparr>en_escrow := (en_escrow e)(t := None)\<rparr>
      | Some en \<Rightarrow>
          (let subj = t_subject (e_transformation en) in
           e\<lparr>en_table := (en_table e)(t := None), en_by_subject := (en_by_subject e)(subj := drop_peer t (en_by_subject e subj)),
             en_escrow := (en_escrow e)(t := None)\<rparr>))"

definition read_journal ::
  "'w engine_config \<Rightarrow> open_codec \<Rightarrow> bool \<Rightarrow> ledger_dir \<Rightarrow> ('w engine, journal_record list) action" where
  "read_journal cf oc under_lock jdir e =
     (case read_to_the_end (ec_hash (cf_codec cf)) (oc_journal oc) under_lock jdir (en_journal e) of
        (res, j) \<Rightarrow> (res, e\<lparr>en_journal := j, en_journal_dir := jdir\<rparr>))"

definition departure_now :: "'w engine_config \<Rightarrow> open_codec \<Rightarrow> bool \<Rightarrow> 'w engine \<Rightarrow> journal_departure option" where
  "departure_now cf oc under_lock e =
     (let H = ec_hash (cf_codec cf); j = en_journal e; dir = en_journal_dir e;
          intact = prefix_intact H (oc_journal oc) dir j in
      departure
        \<lparr>jt_not_from_a_newer_gx = (\<not> ej_newer j), jt_not_downgraded = (\<not> ej_downgraded j), jt_chain_intact = (ej_break j = None),
         jt_not_shorter_than_read = (case ld_file dir of None \<Rightarrow> True | Some bs \<Rightarrow> \<not> length bs < ej_consumed j),
         jt_tail_unchanged = journal_tail_unchanged dir j,
         jt_prefix_intact = (if ej_format j = Legacy then \<not> under_lock \<or> intact else intact),
         jt_no_unrepaired_torn_tail = True\<rparr>)"

definition ledger_moved :: "ledger_dir \<Rightarrow> ledger_store \<Rightarrow> bool" where
  "ledger_moved ldir store \<longleftrightarrow>
     (case ld_file ldir of None \<Rightarrow> False | Some bs \<Rightarrow> length bs \<noteq> ls_bytes store) \<or> \<not> tail_unchanged ldir store"

definition reread_ledger ::
  "'w engine_config \<Rightarrow> open_codec \<Rightarrow> open_answers \<Rightarrow> bool \<Rightarrow> bool \<Rightarrow> ledger_dir \<Rightarrow> ('w engine, unit) action" where
  "reread_ledger cf oc oa under_lock reopen ldir e =
     (if \<not> reopen then (Inr (), e\<lparr>en_ledger_dir := ldir\<rparr>)
      else
        (let suspect = (ej_break (en_journal e) \<noteq> None \<or> ej_downgraded (en_journal e)) in
         case open_ledger (cf_codec cf) oc oa (\<not> under_lock \<or> suspect) ldir of
           (Inl err, ldir') \<Rightarrow> (Inl (LedgerRefused ''re-read''), e\<lparr>en_ledger_dir := ldir'\<rparr>)
         | (Inr store, ldir') \<Rightarrow> (Inr (), e\<lparr>en_ledger := store, en_ledger_dir := ldir'\<rparr>)))"

definition compare_again :: "'w engine_config \<Rightarrow> ('w engine, unit) action" where
  "compare_again cf =
     then_do (get id) (\<lambda>e.
     case hs_floor (en_head e) of
       None \<Rightarrow> ret ()
     | Some fl \<Rightarrow>
         then_do (lift (rollback_of (ec_hash (cf_codec cf)) fl (en_ledger e) (en_journal_dir e) (en_journal e) (cf_version_digest cf))) (\<lambda>why.
         modify (\<lambda>e. e\<lparr>en_head := (en_head e)\<lparr>hs_declaration_changed := version_changed why,
             hs_rolled_back := map_option (\<lambda>_. ''rolled back'') why\<rparr>\<rparr>)))"

definition engine_read_to_the_end ::
  "'w engine_config \<Rightarrow> open_codec \<Rightarrow> open_answers \<Rightarrow> bool \<Rightarrow> ledger_dir \<Rightarrow> ledger_dir \<Rightarrow> ('w engine, caught_up) action" where
  "engine_read_to_the_end cf oc oa under_lock jdir ldir =
     then_do (read_journal cf oc under_lock jdir) (\<lambda>arrived.
     then_do (modify (\<lambda>e. e\<lparr>en_departure := departure_now cf oc under_lock e, en_shadow := fold shadow_fold arrived (en_shadow e)\<rparr>)) (\<lambda>_.
     then_do (get (\<lambda>e. evicted_by (en_table e) [] arrived)) (\<lambda>gone.
     then_do (modify (fold evict gone)) (\<lambda>_.
     then_do (get (\<lambda>e. ledger_moved ldir (en_ledger e) \<or> under_lock)) (\<lambda>reopen.
     then_do (reread_ledger cf oc oa under_lock reopen ldir) (\<lambda>_.
     then_do (compare_again cf) (\<lambda>_.
     then_do (modify (\<lambda>e. if arrived \<noteq> [] \<or> reopen then e\<lparr>en_committed := sh_ledger (en_shadow e)\<rparr> else e)) (\<lambda>_.
     ret \<lparr>cu_records = length arrived, cu_evicted = gone\<rparr>))))))))"

definition catch_up ::
  "'w engine_config \<Rightarrow> open_codec \<Rightarrow> open_answers \<Rightarrow> ledger_dir \<Rightarrow> ledger_dir \<Rightarrow> ('w engine, caught_up) action" where
  "catch_up cf oc oa = engine_read_to_the_end cf oc oa True"

definition catch_up_unlocked ::
  "'w engine_config \<Rightarrow> open_codec \<Rightarrow> open_answers \<Rightarrow> ledger_dir \<Rightarrow> ledger_dir \<Rightarrow> ('w engine, caught_up) action" where
  "catch_up_unlocked cf oc oa = engine_read_to_the_end cf oc oa False"

section \<open>The agreement of the two files\<close>

definition committed_pairs :: "'w engine \<Rightarrow> (transformation_id \<times> nat) list" where
  "committed_pairs e =
     List.map_filter (\<lambda>t. map_option (\<lambda>leaf. (t, leaf)) (en_committed e t)) (remdups (List.map_filter record_transformation (en_records e)))"

definition files_agree :: "'w engine_config \<Rightarrow> 'w engine \<Rightarrow> engine_error + bool" where
  "files_agree cf e =
     (let H = ec_hash (cf_codec cf); log = ls_tree (en_ledger e); frontier = length (committed_pairs e) in
      if frontier \<noteq> log_len log then Inr False
      else if \<exists>p\<in>set (committed_pairs e). (case log_entry log (snd p) of
          None \<Rightarrow> True | Some x \<Rightarrow> entry_transformation x \<noteq> fst p) then Inr False
      else
        and_then (map_err (\<lambda>_. EnginePanic) (root_at H log frontier)) (\<lambda>a.
        and_then (map_err (\<lambda>_. EnginePanic) (log_root H log)) (\<lambda>b. Inr (a = b))))"

definition ledger_agrees :: "'w engine_config \<Rightarrow> 'w engine \<Rightarrow> engine_error + bool" where
  "ledger_agrees cf e =
     (if en_departure e \<noteq> None \<or> hs_rolled_back (en_head e) \<noteq> None \<or> hs_invalid (en_head e) \<noteq> None then Inr False
      else files_agree cf e)"

end
