(* ===== verification/Engine_Catch_Up.thy ===== *)
theory Engine_Catch_Up
  imports Catch_Up Engine_Run
begin

text \<open>
  What catching up does to an engine: it follows the journal, and it keeps no row that another process
  has touched. What the agreement of the two files means.
\<close>

section \<open>Eviction\<close>

definition named_by :: "journal_record list \<Rightarrow> transformation_id \<Rightarrow> bool" where
  "named_by rs t \<longleftrightarrow> (\<exists>r\<in>set rs. record_transformation r = Some t)"

lemma named_by_simps [simp]:
  "\<not> named_by [] t" "named_by (r # rs) t \<longleftrightarrow> record_transformation r = Some t \<or> named_by rs t"
  by (auto simp: named_by_def)

lemma evicted_by_spec:
  "set (evicted_by tbl out rs) = set out \<union> {t. tbl t \<noteq> None \<and> named_by rs t}" "distinct out \<Longrightarrow> distinct (evicted_by tbl out rs)"
  by (induction tbl out rs rule: evicted_by.induct) (auto split: option.splits)

lemma evict_fields [simp]:
  "en_table (evict t e) = (en_table e)(t := None)" "en_journal (evict t e) = en_journal e" "en_shadow (evict t e) = en_shadow e"
  "en_resolved (evict t e) = en_resolved e"
  by (auto simp: evict_def Let_def fun_upd_idem_iff split: option.splits)

lemma fold_evict [simp]:
  "en_table (fold evict ts e) = (\<lambda>t. if t \<in> set ts then None else en_table e t)" "en_journal (fold evict ts e) = en_journal e"
  "en_shadow (fold evict ts e) = en_shadow e" "en_resolved (fold evict ts e) = en_resolved e"
  by (induction ts arbitrary: e) (auto simp: fun_eq_iff)

section \<open>The journal is followed\<close>

lemma read_to_the_end_records: "read_to_the_end H fj under_lock dir j = (Inr rs, j') \<Longrightarrow> ej_records j' = ej_records j @ rs"
  by (auto simp: read_to_the_end_def Let_def split: if_splits option.splits)

text \<open>What is read on is what a replay of the whole file finds after what was read before.\<close>

lemma read_on_is_replay:
  assumes r: "journal_reads H fj ps bs j" and d: "\<not> ej_downgraded j" and f: "ld_file dir = Some bs"
    and run: "read_to_the_end H fj under_lock dir j = (Inr rs, j')"
  shows "rr_records (journal_replay H fj bs) = ej_records j @ rs"
proof -
  let ?st = "walk_loop H fj (is_chained (ej_format j)) (drop (ej_consumed j) bs) (fresh_walk (ej_chain j))"
  have len: "\<not> length bs < ej_consumed j" using r unfolding journal_reads_def by (metis length_take min_less_iff_conj nat_less_le not_less)
  have "rs = ws_records ?st"
  proof (cases "length bs = ej_consumed j")
    case True
    then have "rs = []" using run d f by (simp add: read_to_the_end_def)
    moreover have "ws_records ?st = []" using True by (simp add: walk_loop.simps [of H fj _ "[]"] LENGTH_BYTES_def fresh_walk_def)
    ultimately show ?thesis by simp
  next
    case False
    with len run d f show ?thesis
      by (auto simp: read_to_the_end_def Let_def replay_onward_walk split: if_splits option.splits)
  qed
  with replay_from_consumed [OF r] show ?thesis by simp
qed

lemma wp_read_journal [wp_simps]:
  "wp (read_journal cf oc under_lock jdir) Q E e =
     (case read_to_the_end (ec_hash (cf_codec cf)) (oc_journal oc) under_lock jdir (en_journal e) of
        (Inl x, j) \<Rightarrow> E x (e\<lparr>en_journal := j, en_journal_dir := jdir\<rparr>)
      | (Inr rs, j) \<Rightarrow> Q rs (e\<lparr>en_journal := j, en_journal_dir := jdir\<rparr>))"
  by (simp add: wp_def read_journal_def split: prod.split sum.split)

lemma wp_not_reread: "wp (reread_ledger cf oc oa under_lock False ldir) Q E e = Q () (e\<lparr>en_ledger_dir := ldir\<rparr>)"
  by (simp add: wp_def reread_ledger_def)

definition core_part :: "'w engine \<Rightarrow> engine_journal \<times> sigma_shadow \<times> (transformation_id \<Rightarrow> entry option) \<times> (intent_id \<Rightarrow> transformation_id list option)" where
  "core_part e = (en_journal e, en_shadow e, en_table e, en_resolved e)"

lemma leaves_rest: "leaves core_part (reread_ledger cf oc oa under_lock reopen ldir)" "leaves core_part (compare_again cf)"
proof -
  show "leaves core_part (reread_ledger cf oc oa under_lock reopen ldir)"
    by (simp add: leaves_def reread_ledger_def core_part_def Let_def split: prod.split sum.split)
  show "leaves core_part (compare_again cf)"
    unfolding compare_again_def by (intro leaves_intros leaves_modify) (simp add: core_part_def)
qed

lemma catch_up_run:
  assumes "engine_read_to_the_end cf oc oa under_lock jdir ldir e = (Inr r, e')"
  obtains arrived where "en_records e' = en_records e @ arrived" "en_shadow e' = fold shadow_fold arrived (en_shadow e)"
    "cu_evicted r = evicted_by (en_table e) [] arrived" "cu_records r = length arrived" "en_resolved e' = en_resolved e"
    "en_table e' = (\<lambda>t. if t \<in> set (cu_evicted r) then None else en_table e t)"
    "\<exists>j. read_to_the_end (ec_hash (cf_codec cf)) (oc_journal oc) under_lock jdir (en_journal e) = (Inr arrived, j)"
proof -
  let ?G = "\<lambda>r e'. \<exists>arrived. en_records e' = en_records e @ arrived \<and> en_shadow e' = fold shadow_fold arrived (en_shadow e)
    \<and> cu_evicted r = evicted_by (en_table e) [] arrived \<and> cu_records r = length arrived \<and> en_resolved e' = en_resolved e
    \<and> en_table e' = (\<lambda>t. if t \<in> set (cu_evicted r) then None else en_table e t)
    \<and> (\<exists>j. read_to_the_end (ec_hash (cf_codec cf)) (oc_journal oc) under_lock jdir (en_journal e) = (Inr arrived, j))"
  have "wp (engine_read_to_the_end cf oc oa under_lock jdir ldir) ?G (\<lambda>_ _. True) e"
  proof (cases "read_to_the_end (ec_hash (cf_codec cf)) (oc_journal oc) under_lock jdir (en_journal e)")
    case (Pair res j)
    show ?thesis
    proof (cases res)
      case (Inr arrived)
      show ?thesis
        using read_to_the_end_records [OF Pair [unfolded Inr]]
        by (simp add: engine_read_to_the_end_def wp_simps Pair Inr)
          (rule wp_leaves [OF leaves_rest(1)], subst wp_then, rule wp_leaves [OF leaves_rest(2)], auto simp: wp_simps core_part_def)
    qed (simp add: engine_read_to_the_end_def wp_simps Pair)
  qed
  with assms that show ?thesis by (auto simp: wp_def)
qed

lemma reconstruct_append: "reconstruct_shadow (rs @ rs') = fold shadow_fold rs' (reconstruct_shadow rs)"
  by (simp add: reconstruct_shadow_def)

lemma fold_others:
  "\<not> named_by rs t \<Longrightarrow> sh_rows (fold shadow_fold rs sh) t = sh_rows sh t" "\<not> named_by rs t \<Longrightarrow> sh_since (fold shadow_fold rs sh) t = sh_since sh t"
  by (induction rs arbitrary: sh) (auto simp: fold_row_other)

lemma resolved_ok_append: "resolved_ok rs res \<Longrightarrow> resolved_ok (rs @ rs') res"
  by (induction rs' rule: rev_induct) (auto simp flip: append_assoc)

text \<open>
  The shadow may be behind the journal by the two records that a commit writes past it. Folding the same
  records into both keeps it so, unless the row is half-way through a commit and the first of the records
  to move it announces once more the state that the shadow or the journal has already.
\<close>

definition announces :: "transformation_id \<Rightarrow> journal_record \<Rightarrow> lifecycle option" where
  "announces t r = sr_state (row_arm t r (row_about t))"

fun restarts :: "transformation_id \<Rightarrow> journal_record list \<Rightarrow> bool" where
  "restarts t [] = False"
| "restarts t (r # rs) =
     (if record_transformation r = Some t \<and> announces t r \<noteq> None then announces t r \<in> {Some Canonicalized, Some Committing}
      else restarts t rs)"

definition half_way :: "'w engine \<Rightarrow> transformation_id \<Rightarrow> bool" where
  "half_way e t \<longleftrightarrow> map_option sr_state (sh_rows (en_shadow e) t) \<noteq> map_option sr_state (sh_rows (reconstruct_shadow (en_records e)) t)"

lemma announces_state:
  assumes "record_transformation r = Some t"
  shows "sr_state (row_arm t r row) = (case announces t r of None \<Rightarrow> sr_state row | Some st \<Rightarrow> Some st)"
  using assms by (cases r) (auto simp: announces_def row_arm_def on_row_def Let_def row_about_def split: option.splits)

definition row_follows :: "transformation_id \<Rightarrow> sigma_shadow \<Rightarrow> sigma_shadow \<Rightarrow> bool" where
  "row_follows t sh sh' \<longleftrightarrow>
     (case sh_rows sh t of
        None \<Rightarrow> sh_rows sh' t = None \<and> sh_since sh' t = sh_since sh t
      | Some row \<Rightarrow> \<exists>row'. sh_rows sh' t = Some row' \<and> follows row (sh_since sh t) row' (sh_since sh' t))"

lemma row_follows_record:
  assumes fo: "row_follows t sh sh'" and r: "record_transformation r = Some t"
    and same: "map_option sr_state (sh_rows sh' t) = map_option sr_state (sh_rows sh t)
      \<or> announces t r \<notin> {Some Canonicalized, Some Committing}"
  shows "row_follows t (shadow_fold r sh) (shadow_fold r sh')"
proof (cases "sh_rows sh t")
  case None
  with fo have "sh_rows sh' t = None" "sh_since sh' t = sh_since sh t" by (simp_all add: row_follows_def)
  with None row_arm_shape [OF r, of "row_about t" "row_about t"] show ?thesis
    by (simp add: row_follows_def fold_row [OF r] row_or_new_def follows_def)
next
  case (Some row)
  with fo obtain row' where row': "sh_rows sh' t = Some row'" and f: "follows row (sh_since sh t) row' (sh_since sh' t)"
    by (auto simp: row_follows_def)
  have s: "row_arm t r row' = (row_arm t r row)\<lparr>sr_state := sr_state (row_arm t r row'), sr_provenance := sr_provenance (row_arm t r row')\<rparr>"
    using f by (intro row_arm_shape [OF r]) (simp add: follows_def)
  have st: "sr_state (row_arm t r x) = (case announces t r of None \<Rightarrow> sr_state x | Some st \<Rightarrow> Some st)" for x by (rule announces_state [OF r])
  show ?thesis
    using Some row' f s same by (cases "announces t r") (auto simp: row_follows_def fold_row [OF r] row_or_new_def follows_def st)
qed

lemma announced_same:
  assumes "record_transformation r = Some t" "announces t r \<noteq> None"
  shows "map_option sr_state (sh_rows (shadow_fold r sh') t) = map_option sr_state (sh_rows (shadow_fold r sh) t)"
  using assms(2) by (auto simp: fold_row [OF assms(1)] announces_state [OF assms(1)])

lemma row_follows_fold:
  assumes "row_follows t sh sh'" "map_option sr_state (sh_rows sh' t) = map_option sr_state (sh_rows sh t) \<or> \<not> restarts t rs"
  shows "row_follows t (fold shadow_fold rs sh) (fold shadow_fold rs sh')"
  using assms
proof (induction rs arbitrary: sh sh')
  case (Cons r rs)
  let ?same = "\<lambda>sh sh'. map_option sr_state (sh_rows sh' t) = map_option sr_state (sh_rows sh t)"
  show ?case
  proof (cases "record_transformation r = Some t")
    case True
    have "?same sh sh' \<or> announces t r \<notin> {Some Canonicalized, Some Committing}"
      using Cons.prems(2) True by (cases "announces t r") auto
    note next_row = row_follows_record [OF Cons.prems(1) True this]
    have "?same (shadow_fold r sh) (shadow_fold r sh') \<or> \<not> restarts t rs"
    proof (cases "announces t r")
      case None
      have "?same sh sh' \<Longrightarrow> ?same (shadow_fold r sh) (shadow_fold r sh')"
        using None by (auto simp: fold_row [OF True] announces_state [OF True] row_or_new_def split: option.splits)
      with Cons.prems(2) None True show ?thesis by auto
    next
      case (Some st)
      then show ?thesis using announced_same [OF True, of sh' sh] by simp
    qed
    with Cons.IH [OF next_row] show ?thesis by simp
  next
    case False
    then have "row_follows t (shadow_fold r sh) (shadow_fold r sh')" using Cons.prems(1) by (simp add: row_follows_def fold_row_other split: option.splits)
    from Cons.IH [OF this] show ?thesis using Cons.prems(2) False by (simp add: fold_row_other)
  qed
qed simp

lemma local_ok_alt:
  "local_ok found (sh_rows sh t) (sh_since sh t) (sh_rows sh' t) (sh_since sh' t) \<longleftrightarrow>
     (\<forall>en. found = Some en \<longrightarrow> entry_cleared en \<and> (\<exists>row. sh_rows sh t = Some row \<and> said_by (e_state en) (sr_state row)))
     \<and> (\<forall>row. sh_rows sh t = Some row \<longrightarrow> row_cleared row) \<and> row_follows t sh sh'"
  by (auto simp: local_ok_def row_follows_def split: option.split)

text \<open>
  C9. Catching up follows the journal file and keeps no row that another process has touched. Let an engine
  keep its invariant (C1, C4), having read the bytes \<open>bs\<close> of a journal that is not downgraded; let the
  file hold \<open>now\<close>, with the part that was read unchanged; let the records that a replay of the whole file
  finds be those of an engine that keeps the invariant too; and let no record that is new begin again a
  commit that this engine has begun and left half-way. An engine that has caught up, with or without
  the lock, has exactly the records that a replay of the file finds, and keeps the invariant: its
  tables and its shadow agree with that journal as in C4, and the shadow is the fold of the journal
  if it was so before. Exactly the rows that the new records are about have left the table, and all
  other rows are as they were. The counters of verdicts are not among what is caught up.
\<close>

theorem catch_up_follows_the_journal:
  assumes ok: "engine_ok e" and reads: "journal_reads (ec_hash (cf_codec cf)) (oc_journal oc) ps bs (en_journal e)" "\<not> ej_downgraded (en_journal e)"
    and now: "ld_file jdir = Some now" "take (ej_consumed (en_journal e)) now = take (ej_consumed (en_journal e)) bs" "sniff_format now = sniff_format bs"
    and written: "engine_ok other" "en_records other = rr_records (journal_replay (ec_hash (cf_codec cf)) (oc_journal oc) now)"
    and begun: "\<And>t. half_way e t \<Longrightarrow> \<not> restarts t (drop (length (en_records e)) (en_records other))"
    and run: "engine_read_to_the_end cf oc oa under_lock jdir ldir e = (Inr r, e')"
  shows "engine_ok e' \<and> en_records e' = en_records other
    \<and> (en_shadow e = reconstruct_shadow (en_records e) \<longrightarrow> en_shadow e' = reconstruct_shadow (en_records e'))
    \<and> (\<exists>arrived. en_records e' = en_records e @ arrived \<and> cu_records r = length arrived
        \<and> (\<forall>t. t \<in> set (cu_evicted r) \<longleftrightarrow> en_table e t \<noteq> None \<and> (\<exists>x\<in>set arrived. record_transformation x = Some t))
        \<and> (\<forall>t. en_table e' t = (if \<exists>x\<in>set arrived. record_transformation x = Some t then None else en_table e t)))"
proof -
  obtain arrived where a: "en_records e' = en_records e @ arrived" "en_shadow e' = fold shadow_fold arrived (en_shadow e)"
    "cu_evicted r = evicted_by (en_table e) [] arrived" "cu_records r = length arrived" "en_resolved e' = en_resolved e"
    "en_table e' = (\<lambda>t. if t \<in> set (cu_evicted r) then None else en_table e t)"
    and read: "\<exists>j. read_to_the_end (ec_hash (cf_codec cf)) (oc_journal oc) under_lock jdir (en_journal e) = (Inr arrived, j)"
    by (rule catch_up_run [OF run])
  have "journal_reads (ec_hash (cf_codec cf)) (oc_journal oc) ps now (en_journal e)" using reads(1) now(2,3) unfolding journal_reads_def by metis
  then have all: "en_records other = en_records e @ arrived" using read_on_is_replay [OF _ reads(2) now(1)] read written(2) by auto
  have gone: "t \<in> set (cu_evicted r) \<longleftrightarrow> en_table e t \<noteq> None \<and> named_by arrived t" for t
    using evicted_by_spec(1) [of "en_table e" "[]" arrived] a(3) by auto
  then have tbl: "en_table e' t = (if named_by arrived t then None else en_table e t)" for t using a(6) by (cases "en_table e t") auto
  have agr: "agree (en_records e) (en_shadow e) (en_table e)" "resolved_ok (en_records e) (en_resolved e)" using ok by (simp_all add: engine_ok_def)
  have agr': "agree (en_records e @ arrived) (en_shadow other) (en_table other)" using written(1) all by (simp add: engine_ok_def)
  have "local_ok (en_table e' t) (sh_rows (reconstruct_shadow (en_records e')) t) (sh_since (reconstruct_shadow (en_records e')) t)
      (sh_rows (en_shadow e') t) (sh_since (en_shadow e') t)" for t
  proof -
    have here: "local_ok (en_table e t) (sh_rows (reconstruct_shadow (en_records e)) t) (sh_since (reconstruct_shadow (en_records e)) t)
        (sh_rows (en_shadow e) t) (sh_since (en_shadow e) t)" using agr(1) by (simp add: agree_def)
    have "row_follows t (reconstruct_shadow (en_records e')) (en_shadow e')"
      unfolding a(1,2) reconstruct_append
      by (rule row_follows_fold) (use here begun [of t] all in \<open>auto simp: local_ok_alt half_way_def\<close>)
    moreover have "row_cleared row" if "sh_rows (reconstruct_shadow (en_records e')) t = Some row" for row
      using agreeD(3) [OF agr'] that a(1) by simp
    moreover have "\<exists>row. sh_rows (reconstruct_shadow (en_records e')) t = Some row \<and> said_by (e_state en) (sr_state row)" "entry_cleared en"
      if "en_table e' t = Some en" for en
      using here that by (auto simp: tbl local_ok_alt a(1) reconstruct_append fold_others split: if_splits)
    ultimately show ?thesis by (simp add: local_ok_alt)
  qed
  then have "engine_ok e'" using agr(2) by (simp add: engine_ok_def agree_def a(1,5) resolved_ok_append)
  moreover have "en_shadow e' = reconstruct_shadow (en_records e')" if "en_shadow e = reconstruct_shadow (en_records e)"
    using that by (simp add: a(1,2) reconstruct_append)
  ultimately show ?thesis using a all gone tbl by (auto simp: named_by_def)
qed

text \<open>The verdicts that another process has recorded are not counted, and what it has published is not read.\<close>

definition tally_part :: "'w engine \<Rightarrow> verdict_tally \<times> verdict_store \<times> verdict_tally" where
  "tally_part e = (en_verdicts e, en_verdict_log e, en_published e)"

lemma catch_up_counts_nothing: "leaves tally_part (engine_read_to_the_end cf oc oa under_lock jdir ldir)"
proof -
  have ev: "tally_part (fold evict ts e) = tally_part e" for ts and e :: "'w engine"
    by (induction ts arbitrary: e) (simp_all add: evict_def tally_part_def Let_def split: option.split)
  have rd: "leaves tally_part (read_journal cf oc under_lock jdir)"
    by (simp add: leaves_def read_journal_def tally_part_def split: prod.split)
  have rr: "leaves tally_part (reread_ledger cf oc oa under_lock reopen ldir)" for reopen
    by (simp add: leaves_def reread_ledger_def tally_part_def Let_def split: prod.split sum.split)
  have ca: "leaves tally_part (compare_again cf)"
    unfolding compare_again_def by (intro leaves_intros leaves_modify) (simp add: tally_part_def)
  show ?thesis
    unfolding engine_read_to_the_end_def by (intro leaves_intros leaves_modify rd rr ca) (simp_all add: ev, simp_all add: tally_part_def)
qed

section \<open>Agreement\<close>

lemma map_filter_pairs: "map fst (List.map_filter (\<lambda>t. map_option (\<lambda>x. (t, x)) (f t)) ts) = filter (\<lambda>t. f t \<noteq> None) ts"
  by (induction ts) (auto simp: List.map_filter_simps split: option.split)

lemma in_map_filter: "y \<in> set (List.map_filter f xs) \<longleftrightarrow> (\<exists>x\<in>set xs. f x = Some y)"
  by (induction xs) (auto simp: List.map_filter_simps split: option.split)

lemma committed_pairs_spec:
  "distinct (map fst (committed_pairs e))"
  "(t, i) \<in> set (committed_pairs e) \<longleftrightarrow> named_by (en_records e) t \<and> en_committed e t = Some i"
  by (simp_all add: committed_pairs_def map_filter_pairs in_map_filter named_by_def)

text \<open>
  C10. When the two files agree, the leaves of the ledger and the transformations the engine takes for committed
  are the same: the transformation at every position of the ledger is the one that is committed there,
  and every commit has its leaf, so no leaf is without a commit, no commit without a leaf, and no
  transformation has two leaves; the journal was not departed from and no rollback was found.
\<close>

theorem agreement_means:
  assumes "ledger_agrees cf e = Inr True"
  shows "en_departure e = None \<and> hs_rolled_back (en_head e) = None \<and> hs_invalid (en_head e) = None
    \<and> (\<forall>t i. named_by (en_records e) t \<and> en_committed e t = Some i \<longleftrightarrow>
        i < log_len (ls_tree (en_ledger e)) \<and> entry_transformation (log_entries (ls_tree (en_ledger e)) ! i) = t)
    \<and> distinct (map entry_transformation (log_entries (ls_tree (en_ledger e))))"
proof -
  let ?log = "ls_tree (en_ledger e)" and ?ps = "committed_pairs e"
  have fa: "files_agree cf e = Inr True" and st: "en_departure e = None" "hs_rolled_back (en_head e) = None" "hs_invalid (en_head e) = None"
    using assms by (auto simp: ledger_agrees_def split: if_splits)
  have len: "length ?ps = log_len ?log"
    and ent: "\<And>t i. (t, i) \<in> set ?ps \<Longrightarrow> i < log_len ?log \<and> entry_transformation (log_entries ?log ! i) = t"
    using fa by (fastforce simp: files_agree_def Let_def log_entry_def log_len_def split: if_splits)+
  have "inj_on snd (set ?ps)" by (rule inj_onI) (metis ent prod.collapse)
  moreover have "card (set ?ps) = log_len ?log" using len distinct_card [OF distinct_map [THEN iffD1, OF committed_pairs_spec(1), THEN conjunct1]] by metis
  ultimately have "card (snd ` set ?ps) = log_len ?log" by (simp add: card_image)
  moreover have "snd ` set ?ps \<subseteq> {..<log_len ?log}" using ent by auto
  ultimately have all: "snd ` set ?ps = {..<log_len ?log}" by (intro card_subset_eq) auto
  have iff: "(t, i) \<in> set ?ps \<longleftrightarrow> i < log_len ?log \<and> entry_transformation (log_entries ?log ! i) = t" for t i
  proof
    assume i: "i < log_len ?log \<and> entry_transformation (log_entries ?log ! i) = t"
    then have "i \<in> snd ` set ?ps" by (simp add: all)
    then obtain t' where "(t', i) \<in> set ?ps" by auto
    with ent i show "(t, i) \<in> set ?ps" by blast
  qed (use ent in blast)
  have "i = k" if "i < log_len ?log" "k < log_len ?log" "entry_transformation (log_entries ?log ! i) = entry_transformation (log_entries ?log ! k)" for i k
    using that iff [of _ i] iff [of _ k] committed_pairs_spec(2) [of _ _ e] by (metis option.inject)
  then have "distinct (map entry_transformation (log_entries ?log))" by (auto simp: distinct_conv_nth log_len_def)
  with st iff committed_pairs_spec(2) [of _ _ e] show ?thesis by auto
qed

definition sample_committed :: "bool engine" where
  "sample_committed = demo_engine\<lparr>en_ledger := fresh_store\<lparr>ls_tree := sample_log\<rparr>,
     en_journal := (marked_journal False)\<lparr>ej_records := [CommittedRec sample_cid 0 1]\<rparr>, en_committed := [sample_cid \<mapsto> 0]\<rparr>"

theorem agreement_means_witness:
  "ledger_agrees demo_config sample_committed = Inr True
    \<and> (named_by (en_records sample_committed) sample_cid \<and> en_committed sample_committed sample_cid = Some 0)"
proof -
  have "committed_pairs sample_committed = [(sample_cid, 0)]"
    by (simp add: committed_pairs_def sample_committed_def List.map_filter_simps)
  then have "ledger_agrees demo_config sample_committed = Inr True"
    by (simp add: ledger_agrees_def files_agree_def sample_committed_def demo_engine_def engine_at_open_def Let_def marked_journal_fields departure_def
        log_len_def log_entry_def sample_log_def root_at_def log_root_def mth_range.simps and_then_def map_err_def)
  with agreement_means [OF this] show ?thesis by (simp add: sample_committed_def sample_log_def log_len_def)
qed

text \<open>The journal of the sample project after another process has begun to verify a transformation.\<close>

definition grown_dir :: ledger_dir where
  "grown_dir = marked_dir\<lparr>ld_file := Some (journal_body (\<lambda>_. other_cid) ChainedV2 [[0]])\<rparr>"

definition sample_open :: open_codec where
  "sample_open = \<lparr>oc_journal = sample_fj, oc_entry = (\<lambda>_. Inl []), oc_verdict = (\<lambda>_. Inl []), oc_head = (\<lambda>_. Inl [])\<rparr>"

definition sample_answers :: open_answers where
  "sample_answers = \<lparr>oa_marker = WriteOk, oa_journal_copy = CopyOk, oa_truncate = TruncateOk, oa_parent_synced = True, oa_ledger_copy = CopyOk,
     oa_verdict_copy = CopyOk\<rparr>"

text \<open>An engine that has read an empty journal, and one that has written a record since.\<close>

definition reading_engine :: "bool engine" where
  "reading_engine = demo_engine\<lparr>en_journal := (marked_journal False)\<lparr>ej_chain := Some other_cid\<rparr>\<rparr>"

definition writing_engine :: "bool engine" where
  "writing_engine = engine_at_open False 0 ((marked_journal False)\<lparr>ej_records := [sample_record]\<rparr>) (en_journal_dir demo_engine) (en_blobs demo_engine)
     (en_observations demo_engine) (en_ledger demo_engine) (en_ledger_dir demo_engine) (en_head_dir demo_engine) (en_head demo_engine)
     (en_verdict_log demo_engine) (en_verdict_dir demo_engine)"

lemma one_frame: "decodes sample_fj [[0]] [sample_record]"
  by (simp add: decodes_def payload_ok_def JOURNAL_MAX_RECORD_BYTES_def push_bit_eq_mult cbor_decode_def scan_strict_zero and_then_def sample_fj_def map_err_def)

lemma other_genesis: "genesis_link_v2 (\<lambda>_. other_cid) = other_cid"
  by (simp add: genesis_link_v2_def mint_def digest_def)

lemma reading_reads:
  "journal_reads (\<lambda>_. other_cid) sample_fj [] JOURNAL_MAGIC_V2 (en_journal reading_engine)" "\<not> ej_downgraded (en_journal reading_engine)"
  using marked_journal_reads [of False] marked_body [of "\<lambda>_. other_cid"] marked_body [of sample_hash]
  by (simp_all add: journal_reads_def reading_engine_def marked_journal_fields journal_chain_def journal_tail_def other_genesis)

lemma grown_replay: "rr_records (journal_replay (\<lambda>_. other_cid) sample_fj (journal_body (\<lambda>_. other_cid) ChainedV2 [[0]])) = [sample_record]"
  using replay_body [OF one_frame, of ChainedV2 "\<lambda>_. other_cid" "[]"] by (simp add: walk_loop.simps [of _ _ _ "[]"] LENGTH_BYTES_def)

lemma grown_file:
  "take 8 (journal_body (\<lambda>_. other_cid) ChainedV2 [[0]]) = take 8 JOURNAL_MAGIC_V2"
  "sniff_format (journal_body (\<lambda>_. other_cid) ChainedV2 [[0]]) = sniff_format JOURNAL_MAGIC_V2"
  "length (journal_body (\<lambda>_. other_cid) ChainedV2 [[0]]) > 8"
  using sniff_body(1) [OF one_frame, of ChainedV2 "\<lambda>_. other_cid" "[]"] sniff_body(1) [OF sample_decodes_Nil, of ChainedV2 sample_hash "[]"]
  by (simp_all add: marked_body) (simp_all add: journal_body_def marker_of_def JOURNAL_MAGIC_V2_def ascii_def length_journal_frame LENGTH_BYTES_def)

lemma grown_reads:
  obtains j where "read_to_the_end (\<lambda>_. other_cid) sample_fj False grown_dir (en_journal reading_engine) = (Inr [sample_record], j)"
proof -
  obtain rs j where run: "read_to_the_end (\<lambda>_. other_cid) sample_fj False grown_dir (en_journal reading_engine) = (Inr rs, j)"
    using grown_file(3) by (simp add: read_to_the_end_def reading_engine_def marked_journal_fields grown_dir_def Let_def)
  have "journal_reads (\<lambda>_. other_cid) sample_fj [] (journal_body (\<lambda>_. other_cid) ChainedV2 [[0]]) (en_journal reading_engine)"
    using reading_reads(1) grown_file(1,2) by (auto simp: journal_reads_def reading_engine_def marked_journal_fields)
  from read_on_is_replay [OF this reading_reads(2) _ run] that run show ?thesis
    by (simp add: grown_dir_def grown_replay reading_engine_def marked_journal_fields)
qed

lemma reading_runs:
  obtains r e' where "engine_read_to_the_end demo_config sample_open sample_answers False grown_dir (en_ledger_dir demo_engine) reading_engine = (Inr r, e')"
    "cu_records r = 1"
proof -
  obtain j where j: "read_to_the_end (\<lambda>_. other_cid) sample_fj False grown_dir (en_journal reading_engine) = (Inr [sample_record], j)" by (rule grown_reads)
  have still: "\<not> ledger_moved (en_ledger_dir demo_engine) fresh_store" "hs_floor (en_head demo_engine) = None"
    by (simp_all add: ledger_moved_def tail_unchanged_def demo_simps fresh_store_def store_of_def replay_start_def)
      (simp add: demo_engine_def engine_at_open_def Let_def)
  have "wp (engine_read_to_the_end demo_config sample_open sample_answers False grown_dir (en_ledger_dir demo_engine))
      (\<lambda>r e'. cu_records r = 1) (\<lambda>_ _. False) reading_engine"
    using j still
    by (simp add: engine_read_to_the_end_def wp_simps sample_open_def demo_simps sample_record_def wp_not_reread compare_again_def reading_engine_def)
  then obtain r e' where "engine_read_to_the_end demo_config sample_open sample_answers False grown_dir (en_ledger_dir demo_engine) reading_engine = (Inr r, e')"
    "cu_records r = 1" by (auto simp: wp_def split: prod.splits sum.splits)
  then show ?thesis by (rule that)
qed

lemma writing_ok: "engine_ok writing_engine" "en_records writing_engine = [sample_record]"
proof -
  have "row_cleared row" if "sh_rows (reconstruct_shadow [sample_record]) t = Some row" for t row
  proof (cases "t = zero_cid")
    case True
    have "record_transformation sample_record = Some zero_cid" by (simp add: sample_record_def)
    from fold_row(1) [OF this, of empty_shadow] that True show ?thesis
      by (auto simp: reconstruct_shadow_def row_cleared_def cleared_def passed_def sample_record_def)
  next
    case False
    then have "record_transformation sample_record \<noteq> Some t" by (simp add: sample_record_def)
    from fold_row_other(1) [OF this, of empty_shadow] that show ?thesis by (simp add: reconstruct_shadow_def empty_shadow_def)
  qed
  then show "engine_ok writing_engine" unfolding writing_engine_def by (intro opened_ok) simp
  show "en_records writing_engine = [sample_record]" by (simp add: writing_engine_def engine_at_open_def Let_def)
qed

theorem catch_up_follows_the_journal_witness:
  "\<exists>r e'. engine_read_to_the_end demo_config sample_open sample_answers False grown_dir (en_ledger_dir demo_engine) reading_engine = (Inr r, e')
     \<and> engine_ok e' \<and> en_records e' = [sample_record] \<and> cu_records r = 1"
proof -
  obtain r e' where run: "engine_read_to_the_end demo_config sample_open sample_answers False grown_dir (en_ledger_dir demo_engine) reading_engine = (Inr r, e')"
    "cu_records r = 1" by (rule reading_runs)
  have empty: "en_records reading_engine = []" "en_shadow reading_engine = reconstruct_shadow []" "en_table reading_engine = en_table demo_engine"
    "en_resolved reading_engine = en_resolved demo_engine" "en_records demo_engine = []" "en_shadow demo_engine = reconstruct_shadow []"
    by (simp_all add: reading_engine_def marked_journal_fields demo_simps reconstruct_shadow_def)
  have ok: "engine_ok reading_engine" using demo_ok by (simp add: engine_ok_def empty)
  have H: "ec_hash (cf_codec demo_config) = (\<lambda>_. other_cid)" "oc_journal sample_open = sample_fj" by (simp_all add: demo_config_def demo_codec_def sample_open_def)
  have none: "\<not> half_way reading_engine t" for t by (simp add: half_way_def empty)
  have at: "ej_consumed (en_journal reading_engine) = 8" by (simp add: reading_engine_def marked_journal_fields)
  have f: "ld_file grown_dir = Some (journal_body (\<lambda>_. other_cid) ChainedV2 [[0]])" by (simp add: grown_dir_def)
  have now: "take (ej_consumed (en_journal reading_engine)) (journal_body (\<lambda>_. other_cid) ChainedV2 [[0]])
      = take (ej_consumed (en_journal reading_engine)) JOURNAL_MAGIC_V2" unfolding at by (rule grown_file(1))
  have rec: "en_records writing_engine = rr_records (journal_replay (ec_hash (cf_codec demo_config)) (oc_journal sample_open)
      (journal_body (\<lambda>_. other_cid) ChainedV2 [[0]]))" unfolding H writing_ok(2) by (rule grown_replay [symmetric])
  have reads: "journal_reads (ec_hash (cf_codec demo_config)) (oc_journal sample_open) [] JOURNAL_MAGIC_V2 (en_journal reading_engine)"
    unfolding H by (rule reading_reads(1))
  have begun: "half_way reading_engine t \<Longrightarrow> \<not> restarts t (drop (length (en_records reading_engine)) (en_records writing_engine))" for t
    using none by simp
  note follows = catch_up_follows_the_journal [OF ok reads reading_reads(2) f now grown_file(2) writing_ok(1) rec begun run(1)]
  have "engine_ok e'" "en_records e' = [sample_record]" using follows by (simp_all only: writing_ok(2) simp_thms)
  then show ?thesis using run by blast
qed

end
