(* ===== verification/Observation_Road.thy ===== *)
theory Observation_Road
  imports Undo
begin

text \<open>
  The road that observations take, from the end of \<open>src/crates/gx-engine/src/pipeline.rs\<close>: the adapter
  \<open>ObservationRoad\<close>, which keeps one head per chain of observations, and \<open>ingest_observation\<close>, which turns
  a reported observation into an ordinary transformation, once. The chains and the remembered reports
  live in the memory of the process; they are part of the world of the engine here, beside the rest
  of the world. A poisoned lock, which the code passes over in silence, does not occur in the model.
\<close>

section \<open>The state of the road\<close>

record remembered_ingest =
  ri_id :: transformation_id
  ri_chain_ref :: string
  ri_gap :: bool

record 'v observed_world =
  ow_chains :: "string \<Rightarrow> string option"
  ow_replays :: "string \<times> string \<Rightarrow> remembered_ingest option"
  ow_rest :: 'v

record observation_restore =
  or_restore :: string
  or_head :: "string option"

record object_snapshot_view =
  ov_substrate :: substrate_kind
  ov_locator :: string
  ov_digest :: cid
  ov_representation :: repr_kind

definition object_identity :: "object_snapshot \<Rightarrow> object_snapshot_view" where
  "object_identity s =
     \<lparr>ov_substrate = obj_substrate s, ov_locator = obj_locator s, ov_digest = obj_digest s, ov_representation = obj_representation s\<rparr>"

text \<open>The codecs of the road, parameters like the others.\<close>

record road_codec =
  rc_hash :: "bytes \<Rightarrow> cid"
  rc_object :: "object_snapshot_view \<Rightarrow> string + bytes"
  rc_scope :: "string \<Rightarrow> string + bytes"
  rc_delta :: "planned_delta_view \<Rightarrow> string + bytes"
  rc_observation_from :: "bytes \<Rightarrow> string + observation_delta"
  rc_restore :: "observation_restore \<Rightarrow> string + bytes"
  rc_restore_from :: "bytes \<Rightarrow> string + observation_restore"

section \<open>Texts\<close>

definition text_of :: "bytes \<Rightarrow> string" where
  "text_of bs = map (\<lambda>b. char_of (unat b)) bs"

definition elide_scope :: "(bytes \<Rightarrow> cid) \<Rightarrow> (string \<Rightarrow> string + bytes) \<Rightarrow> string \<Rightarrow> substrate_error + string" where
  "elide_scope H to_vec scope =
     (if length scope \<le> MAX_SCOPE_BYTES then Inr scope
      else and_then (map_err (\<lambda>_. NotDigestible) (cid_compute H to_vec (\<lambda>s. s) scope)) (\<lambda>c.
        Inr (''<elided: '' @ decimal (length scope) @ '' bytes over the '' @ decimal MAX_SCOPE_BYTES @ ''-byte bound of M4H1-2, ''
             @ text_of (to_text c) @ ''>'')))"

definition observation_locator :: "string \<Rightarrow> string \<Rightarrow> string \<Rightarrow> string" where
  "observation_locator scope source observation_id = ''observation://'' @ scope @ ''?obs='' @ source @ '':'' @ observation_id"

definition observation_scope_of :: "string \<Rightarrow> substrate_error + string" where
  "observation_scope_of locator =
     (if take 14 locator = ''observation://'' then Inr (takeWhile (\<lambda>c. c \<noteq> CHR ''?'') (drop 14 locator))
      else Inl (Unreadable locator))"

section \<open>The adapter\<close>

definition chain_continuous :: "string option \<Rightarrow> string option \<Rightarrow> bool" where
  "chain_continuous claimed held \<longleftrightarrow>
     (case (claimed, held) of (None, None) \<Rightarrow> True | (Some c, Some h) \<Rightarrow> c = h | _ \<Rightarrow> False)"

definition observation_substrate :: substrate_kind where
  "observation_substrate = Custom OBSERVATION_SUBSTRATE"

definition state_digest :: "road_codec \<Rightarrow> 'v observed_world \<Rightarrow> string \<Rightarrow> cid" where
  "state_digest rc w scope =
     mint (rc_hash rc) Leaf [ascii ''gx-observation-chain'', ascii scope,
       case ow_chains w scope of Some h \<Rightarrow> ascii h | None \<Rightarrow> 0 # ascii ''absent'']"

definition decode_observation_delta :: "road_codec \<Rightarrow> bytes \<Rightarrow> substrate_error + observation_delta" where
  "decode_observation_delta rc payload =
     map_err (\<lambda>_. Unreadable ''<observation delta payload>'') (cbor_decode (rc_observation_from rc) payload)"

definition road_snapshot :: "road_codec \<Rightarrow> string \<Rightarrow> 'v observed_world \<Rightarrow> substrate_error + object_snapshot" where
  "road_snapshot rc locator w =
     and_then (observation_scope_of locator) (\<lambda>scope.
     let placeholder = \<lparr>obj_id = zero_cid, obj_substrate = observation_substrate, obj_locator = locator,
           obj_digest = state_digest rc w scope, obj_representation = Bytes\<rparr>
     in and_then (map_err (\<lambda>_. NotDigestible) (cid_compute (rc_hash rc) (rc_object rc) object_identity placeholder)) (\<lambda>c.
        Inr (placeholder\<lparr>obj_id := c\<rparr>)))"

definition road_plan :: "road_codec \<Rightarrow> intent \<Rightarrow> object_snapshot \<Rightarrow> 'v observed_world \<Rightarrow> substrate_error + planned_delta" where
  "road_plan rc i pre w =
     and_then (decode_observation_delta rc (in_goal i)) (\<lambda>_.
     new_planned_delta (rc_hash rc) (rc_delta rc) observation_substrate (in_goal i))"

definition road_fingerprint :: "road_codec \<Rightarrow> string \<Rightarrow> cid \<Rightarrow> substrate_error + fingerprint" where
  "road_fingerprint rc shown c =
     and_then (elide_scope (rc_hash rc) (rc_scope rc) shown) (\<lambda>s. map_err SubstrateCore (new_fingerprint observation_substrate s c))"

definition road_precondition :: "road_codec \<Rightarrow> object_snapshot \<Rightarrow> 'v observed_world \<Rightarrow> substrate_error + fingerprint" where
  "road_precondition rc snap w =
     and_then (observation_scope_of (obj_locator snap)) (\<lambda>scope.
     road_fingerprint rc (obj_locator snap) (state_digest rc w scope))"

definition road_applied :: "road_codec \<Rightarrow> planned_delta \<Rightarrow> string \<Rightarrow> 'v observed_world \<Rightarrow> substrate_error + applied_delta" where
  "road_applied rc d scope w =
     and_then (road_fingerprint rc scope (state_digest rc w scope)) (\<lambda>post.
     Inr (new_applied_delta (pd_reference d) post (state_digest rc w scope) 0))"

text \<open>The chain is moved before the postcondition is computed, so an error may come after the move.\<close>

definition road_apply ::
  "road_codec \<Rightarrow> planned_delta \<Rightarrow> 'v observed_world \<Rightarrow> (substrate_error + applied_delta) \<times> 'v observed_world" where
  "road_apply rc d w =
     (case cbor_decode (rc_restore_from rc) (pd_payload d) of
        Inr r \<Rightarrow>
          (let w' = w\<lparr>ow_chains := (ow_chains w)(or_restore r := or_head r)\<rparr> in (road_applied rc d (or_restore r) w', w'))
      | Inl _ \<Rightarrow>
          (case decode_observation_delta rc (pd_payload d) of
             Inl err \<Rightarrow> (Inl err, w)
           | Inr od \<Rightarrow>
               (let w' = w\<lparr>ow_chains := (ow_chains w)(od_scope od \<mapsto> text_of (to_text (delta_cid (pd_reference d))))\<rparr>
                in (road_applied rc d (od_scope od) w', w'))))"

definition road_invert ::
  "road_codec \<Rightarrow> planned_delta \<Rightarrow> object_snapshot \<Rightarrow> 'v observed_world \<Rightarrow> substrate_error + invert_outcome" where
  "road_invert rc d pre w =
     and_then (decode_observation_delta rc (pd_payload d)) (\<lambda>od.
     if \<not> chain_continuous (od_prev_claimed od) (od_held_at_plan od) then Inr (invert_none [])
     else
       and_then (map_err (\<lambda>_. NotDigestible) (cbor_encode (rc_restore rc) \<lparr>or_restore = od_scope od, or_head = od_held_at_plan od\<rparr>)) (\<lambda>payload.
       and_then (new_planned_delta (rc_hash rc) (rc_delta rc) observation_substrate payload) (\<lambda>d'.
       Inr (inverted d' []))))"

definition road_commutation ::
  "road_codec \<Rightarrow> planned_delta \<Rightarrow> planned_delta \<Rightarrow> 'v observed_world \<Rightarrow> substrate_error + commutation" where
  "road_commutation rc a b w =
     and_then (decode_observation_delta rc (pd_payload a)) (\<lambda>sa.
     and_then (decode_observation_delta rc (pd_payload b)) (\<lambda>sb.
     Inr (if od_scope sa = od_scope sb then Conflicts (pd_reference b) else Commutes)))"

definition observation_road :: "road_codec \<Rightarrow> 'v observed_world adapter" where
  "observation_road rc =
     \<lparr>ad_snapshot = road_snapshot rc, ad_plan = road_plan rc, ad_precondition = road_precondition rc, ad_apply = road_apply rc,
      ad_invert = road_invert rc, ad_commutation = road_commutation rc\<rparr>"

section \<open>Reporting an observation\<close>

record observation_ingest =
  oi_id :: transformation_id
  oi_replayed :: bool
  oi_gap :: bool
  oi_chain_ref :: string

definition observation_class_named :: "string \<Rightarrow> engine_error + observation_class" where
  "observation_class_named c = ok_or (ObservationClassUnknown c) (from_wire_str c)"

fun ingest_scope :: "string \<Rightarrow> observation_record \<Rightarrow> string" where
  "ingest_scope source (EnvsetObserved fp) =
     ''envset/'' @ text_of (env_project (env_scope fp)) @ ''/'' @ text_of (env_environment (env_scope fp))"
| "ingest_scope source (DeployObserved r) = ''deploy/'' @ source @ ''/'' @ dp_target_env r"
| "ingest_scope source (ConfigObserved _) = ''config/'' @ source"
| "ingest_scope source (LogWindowObserved r) = ''logw/'' @ source @ ''/'' @ lw_stream_id r"

fun ingest_gap :: "observation_record \<Rightarrow> string option \<Rightarrow> string option \<Rightarrow> engine_error + bool" where
  "ingest_gap (EnvsetObserved fp) prev held =
     (case envset_admit fp (map_option ascii held) of
        EnvDeny n \<Rightarrow> Inl (PlaintextSecret n)
      | EnvEscalate _ _ \<Rightarrow> Inr True
      | EnvAllow \<Rightarrow> Inr False)"
| "ingest_gap _ prev held = Inr (\<not> chain_continuous prev held)"

text \<open>The road is registered as an adapter when the first observation comes in.\<close>

definition with_road :: "road_codec \<Rightarrow> 'v observed_world engine_config \<Rightarrow> 'v observed_world engine_config" where
  "with_road rc cf =
     (if cf_adapters cf observation_substrate = None
      then cf\<lparr>cf_adapters := (cf_adapters cf)(observation_substrate \<mapsto>
             (observation_road rc, ''engine-internal observation road (req/824 A5)''))\<rparr>
      else cf)"

definition ingest_observation ::
  "road_codec \<Rightarrow> 'v observed_world engine_config \<Rightarrow> string \<Rightarrow> string \<Rightarrow> string option \<Rightarrow> observation_record \<Rightarrow> u64 \<Rightarrow> timestamp
    \<Rightarrow> ('v observed_world engine, observation_ingest) action" where
  "ingest_observation rc cf source oid prev rec seed at =
     (let scope = ingest_scope source rec in
      if oid = [] then fail EngineMalformed
      else
        then_do (get (\<lambda>e. ow_chains (en_world e) scope)) (\<lambda>held.
        then_do (lift (ingest_gap rec prev held)) (\<lambda>gap.
        then_do (get (\<lambda>e. ow_replays (en_world e) (source, oid))) (\<lambda>known.
        case known of
          Some r \<Rightarrow> ret \<lparr>oi_id = ri_id r, oi_replayed = True, oi_gap = ri_gap r, oi_chain_ref = ri_chain_ref r\<rparr>
        | None \<Rightarrow>
            then_do (lift (map_err EngineCanon (cbor_encode (ec_observation (cf_codec cf))
                \<lparr>od_class = observation_class_of rec, od_source = source, od_observation_id = oid, od_scope = scope,
                 od_prev_claimed = prev, od_held_at_plan = held, od_record = rec\<rparr>))) (\<lambda>payload.
            let i = \<lparr>in_substrate = observation_substrate, in_locator = observation_locator scope source oid, in_goal = payload,
                  in_context = Evidence, in_actor = Process (''attach-source:'' @ source)\<rparr> in
            then_do (submit (with_road rc cf) i seed at) (\<lambda>_.
            then_do (plan (with_road rc cf) i at) (\<lambda>t.
            then_do (get (\<lambda>e. case en_table e t of None \<Rightarrow> [] | Some en \<Rightarrow> text_of (to_text (delta_cid (pd_reference (e_delta en)))))) (\<lambda>chain_ref.
            then_do (modify (\<lambda>e. e\<lparr>en_world := (en_world e)\<lparr>ow_replays := (ow_replays (en_world e))((source, oid) \<mapsto>
                \<lparr>ri_id = t, ri_chain_ref = chain_ref, ri_gap = gap\<rparr>)\<rparr>\<rparr>)) (\<lambda>_.
            ret \<lparr>oi_id = t, oi_replayed = False, oi_gap = gap, oi_chain_ref = chain_ref\<rparr>))))))))) "

section \<open>What an adapter owes\<close>

text \<open>
  The laws of the trait that the engine builds on when it compensates or undoes: the inverse of a delta
  takes it back, and deltas that are said to commute do. They hold of the deltas that fit the world, and
  of the part of the world that the adapter answers for: its view.
\<close>

locale lawful_adapter =
  fixes ad :: "'w adapter" and fit :: "planned_delta \<Rightarrow> 'w \<Rightarrow> bool" and view :: "'w \<Rightarrow> 'o"
  assumes takes_back: "fit d w \<Longrightarrow> ad_invert ad d pre w = Inr out \<Longrightarrow> io_inverse out = Some d' \<Longrightarrow>
      view (snd (ad_apply ad d' (snd (ad_apply ad d w)))) = view w"
    and commutes: "ad_commutation ad a b w = Inr Commutes \<Longrightarrow> fit a w \<Longrightarrow> fit b w \<Longrightarrow>
      view (snd (ad_apply ad b (snd (ad_apply ad a w)))) = view (snd (ad_apply ad a (snd (ad_apply ad b w))))"
    and reads_view: "view w = view w' \<Longrightarrow> ad_precondition ad snap w = ad_precondition ad snap w'"
    and acts_on_view: "fit d w \<Longrightarrow> view w = view w' \<Longrightarrow> view (snd (ad_apply ad d w)) = view (snd (ad_apply ad d w'))"
begin

text \<open>After a delta and its inverse the world reads as before, and the delta does what it did.\<close>

lemma reads_as_before:
  assumes "fit d w" "ad_invert ad d pre w = Inr out" "io_inverse out = Some d'"
  shows "ad_precondition ad snap (snd (ad_apply ad d' (snd (ad_apply ad d w)))) = ad_precondition ad snap w"
    "view (snd (ad_apply ad d (snd (ad_apply ad d' (snd (ad_apply ad d w)))))) = view (snd (ad_apply ad d w))"
  using reads_view [OF takes_back [OF assms]] acts_on_view [OF assms(1) takes_back [OF assms, symmetric]] by simp_all

text \<open>A delta can be taken back although another that commutes with it was applied before it.\<close>

lemma taken_back_past:
  assumes "ad_commutation ad a b w = Inr Commutes" "fit a w" "fit b w" "fit a (snd (ad_apply ad b w))"
    "ad_invert ad a pre (snd (ad_apply ad b w)) = Inr out" "io_inverse out = Some a'"
    "fit a' (snd (ad_apply ad b (snd (ad_apply ad a w))))"
  shows "view (snd (ad_apply ad a' (snd (ad_apply ad b (snd (ad_apply ad a w)))))) = view (snd (ad_apply ad b w))"
  using takes_back [OF assms(4-6)] acts_on_view [OF assms(7) commutes [OF assms(1-3)]] by simp

end

text \<open>The codecs of the road: what is written can be read, and the two payloads cannot be mistaken for each other.\<close>

definition road_codec_ok :: "road_codec \<Rightarrow> bool" where
  "road_codec_ok rc \<longleftrightarrow>
     (\<forall>r bs. cbor_encode (rc_restore rc) r = Inr bs \<longrightarrow> cbor_decode (rc_restore_from rc) bs = Inr r)
     \<and> (\<forall>bs od. cbor_decode (rc_observation_from rc) bs = Inr od \<longrightarrow> \<not> is_ok (cbor_decode (rc_restore_from rc) bs))"

text \<open>An observation fits when its chain has not moved since it was planned; \<open>commit\<close> compares the fingerprints.\<close>

definition road_fit :: "road_codec \<Rightarrow> planned_delta \<Rightarrow> 'v observed_world \<Rightarrow> bool" where
  "road_fit rc d w \<longleftrightarrow> road_codec_ok rc
     \<and> (\<forall>od. decode_observation_delta rc (pd_payload d) = Inr od \<longrightarrow> od_held_at_plan od = ow_chains w (od_scope od))"

lemma road_applies:
  assumes "road_codec_ok rc" "decode_observation_delta rc (pd_payload d) = Inr od"
  shows "snd (road_apply rc d w) = w\<lparr>ow_chains := (ow_chains w)(od_scope od \<mapsto> text_of (to_text (delta_cid (pd_reference d))))\<rparr>"
proof -
  have "\<not> is_ok (cbor_decode (rc_restore_from rc) (pd_payload d))"
    using assms by (auto simp: road_codec_ok_def decode_observation_delta_def map_err_def split: sum.splits)
  with assms(2) show ?thesis by (auto simp: road_apply_def is_ok_def Let_def split: sum.splits)
qed

lemma road_restores:
  assumes "road_codec_ok rc" "road_invert rc d pre w = Inr out" "io_inverse out = Some d'"
  obtains od where "decode_observation_delta rc (pd_payload d) = Inr od" "chain_continuous (od_prev_claimed od) (od_held_at_plan od)"
    "\<And>w'. snd (road_apply rc d' w') = w'\<lparr>ow_chains := (ow_chains w')(od_scope od := od_held_at_plan od)\<rparr>"
proof -
  obtain od payload where od: "decode_observation_delta rc (pd_payload d) = Inr od" "chain_continuous (od_prev_claimed od) (od_held_at_plan od)"
      "cbor_encode (rc_restore rc) \<lparr>or_restore = od_scope od, or_head = od_held_at_plan od\<rparr> = Inr payload" "pd_payload d' = payload"
    using assms(2,3) by (auto simp: road_invert_def and_then_eq_Inr invert_none_def inverted_def new_planned_delta_def Let_def map_err_def
        split: if_splits sum.splits)
  then have "cbor_decode (rc_restore_from rc) (pd_payload d') = Inr \<lparr>or_restore = od_scope od, or_head = od_held_at_plan od\<rparr>"
    using assms(1) unfolding road_codec_ok_def by blast
  then show ?thesis by (intro that [OF od(1,2)]) (simp add: road_apply_def Let_def)
qed

interpretation road: lawful_adapter "observation_road rc" "road_fit rc" "\<lambda>w. w" for rc
proof
  fix d :: planned_delta and w :: "'a observed_world" and pre out d'
  assume fit: "road_fit rc d w" and inv: "ad_invert (observation_road rc) d pre w = Inr out" "io_inverse out = Some d'"
  then have ok: "road_codec_ok rc" by (simp add: road_fit_def)
  obtain od where od: "decode_observation_delta rc (pd_payload d) = Inr od"
      "\<And>w' :: 'a observed_world. snd (road_apply rc d' w') = w'\<lparr>ow_chains := (ow_chains w')(od_scope od := od_held_at_plan od)\<rparr>"
    using road_restores [OF ok, of d pre w out d'] inv by (auto simp: observation_road_def)
  have "od_held_at_plan od = ow_chains w (od_scope od)" using fit od(1) by (simp add: road_fit_def)
  then show "snd (ad_apply (observation_road rc) d' (snd (ad_apply (observation_road rc) d w))) = w"
    by (simp add: observation_road_def od(2) road_applies [OF ok od(1)])
next
  fix a b :: planned_delta and w :: "'a observed_world"
  assume c: "ad_commutation (observation_road rc) a b w = Inr Commutes" and fit: "road_fit rc a w" "road_fit rc b w"
  then obtain sa sb where s: "decode_observation_delta rc (pd_payload a) = Inr sa" "decode_observation_delta rc (pd_payload b) = Inr sb"
      "od_scope sa \<noteq> od_scope sb"
    by (auto simp: observation_road_def road_commutation_def and_then_eq_Inr split: if_splits)
  have ok: "road_codec_ok rc" using fit(1) by (simp add: road_fit_def)
  from s(3) show "snd (ad_apply (observation_road rc) b (snd (ad_apply (observation_road rc) a w)))
      = snd (ad_apply (observation_road rc) a (snd (ad_apply (observation_road rc) b w)))"
    by (simp add: observation_road_def road_applies [OF ok s(1)] road_applies [OF ok s(2)] fun_upd_twist)
qed simp_all

text \<open>
  C36. An observation can be taken back as long as its chain is continuous, and observations of different
  chains do not get in each other's way. For a delta whose chain has not moved since it was planned
  (as the codecs are: what is written can be read back, and a restore is not read as an observation):
  the road offers no inverse exactly when the reported predecessor is not the one held; otherwise
  applying the inverse after the delta gives the very world of before, with the same fingerprint; and
  two deltas that are said to commute give the same world in both orders.
\<close>

theorem observation_taken_back:
  assumes "road_fit rc d w" "road_fit rc b w" "road_invert rc d pre w = Inr out" "decode_observation_delta rc (pd_payload d) = Inr od"
  shows "(case io_inverse out of
      None \<Rightarrow> \<not> chain_continuous (od_prev_claimed od) (od_held_at_plan od)
    | Some d' \<Rightarrow> chain_continuous (od_prev_claimed od) (od_held_at_plan od)
        \<and> snd (road_apply rc d' (snd (road_apply rc d w))) = w
        \<and> road_precondition rc snap (snd (road_apply rc d' (snd (road_apply rc d w)))) = road_precondition rc snap w)
    \<and> (road_commutation rc d b w = Inr Commutes \<longrightarrow>
         snd (road_apply rc b (snd (road_apply rc d w))) = snd (road_apply rc d (snd (road_apply rc b w))))"
proof (intro conjI impI)
  have none: "io_inverse out = None \<Longrightarrow> \<not> chain_continuous (od_prev_claimed od) (od_held_at_plan od)"
    using assms(3,4) by (auto simp: road_invert_def and_then_eq_Inr inverted_def split: if_splits)
  show "case io_inverse out of
      None \<Rightarrow> \<not> chain_continuous (od_prev_claimed od) (od_held_at_plan od)
    | Some d' \<Rightarrow> chain_continuous (od_prev_claimed od) (od_held_at_plan od)
        \<and> snd (road_apply rc d' (snd (road_apply rc d w))) = w
        \<and> road_precondition rc snap (snd (road_apply rc d' (snd (road_apply rc d w)))) = road_precondition rc snap w"
  proof (cases "io_inverse out")
    case (Some d')
    have "chain_continuous (od_prev_claimed od) (od_held_at_plan od)"
      using assms(1) road_restores [OF _ assms(3) Some] assms(4) by (metis road_fit_def sum.inject(2))
    then show ?thesis
      using Some road.takes_back [OF assms(1), of pre out d'] road.reads_as_before(1) [OF assms(1), of pre out d' snap] assms(3)
      by (simp add: observation_road_def)
  qed (use none in simp)
  show "road_commutation rc d b w = Inr Commutes \<Longrightarrow>
      snd (road_apply rc b (snd (road_apply rc d w))) = snd (road_apply rc d (snd (road_apply rc b w)))"
    using road.commutes [of rc d b w] assms(1,2) by (simp add: observation_road_def)
qed

text \<open>A chain with one observation planned on it.\<close>

definition sample_observation :: observation_delta where
  "sample_observation = \<lparr>od_class = Config, od_source = ''s'', od_observation_id = ''1'', od_scope = ''config/s'', od_prev_claimed = None,
     od_held_at_plan = None, od_record = ConfigObserved \<lparr>cg_document = ''d'', cg_substrate = Declared\<rparr>\<rparr>"

definition sample_road :: road_codec where
  "sample_road =
     (let r0 = \<lparr>or_restore = ''config/s'', or_head = None\<rparr> in
      \<lparr>rc_hash = (\<lambda>_. zero_cid), rc_object = (\<lambda>_. Inr [0]), rc_scope = (\<lambda>_. Inr [0]), rc_delta = (\<lambda>_. Inr [0]),
       rc_observation_from = (\<lambda>bs. if bs = [0] then Inr sample_observation else Inl []),
       rc_restore = (\<lambda>r. if r = r0 then Inr [0xa1, 0x61, 0x61, 0x01] else Inl []), rc_restore_from = (\<lambda>bs. if bs = [0xa1, 0x61, 0x61, 0x01] then Inr r0 else Inl [])\<rparr>)"

lemma sample_scans: "scan_strict [0] = Inr ()" "scan_strict [0xa1, 0x61, 0x61, 0x01] = Inr ()"
  using sample_encodes by (auto simp: scan_strict_zero cbor_encode_ok is_ok_iff)

lemma sample_road_ok: "road_codec_ok sample_road"
  unfolding road_codec_ok_def sample_road_def Let_def
  by (auto simp: cbor_encode_def cbor_decode_def is_ok_def and_then_def sample_scans map_err_def split: sum.splits if_splits)

definition sample_road_delta :: planned_delta where
  "sample_road_delta = \<lparr>pd_substrate = observation_substrate, pd_payload = [0],
     pd_reference = \<lparr>delta_substrate = observation_substrate, delta_cid = zero_cid\<rparr>, pd_promised_target = None\<rparr>"

definition sample_road_world :: "unit observed_world" where
  "sample_road_world = \<lparr>ow_chains = (\<lambda>_. None), ow_replays = (\<lambda>_. None), ow_rest = ()\<rparr>"

lemma sample_road_decodes: "decode_observation_delta sample_road (pd_payload sample_road_delta) = Inr sample_observation"
  by (simp add: decode_observation_delta_def sample_road_def sample_road_delta_def Let_def cbor_decode_def and_then_def sample_scans map_err_def)

theorem observation_taken_back_witness:
  "\<exists>out d'. road_invert sample_road sample_road_delta sample_object sample_road_world = Inr out \<and> io_inverse out = Some d'
     \<and> snd (road_apply sample_road d' (snd (road_apply sample_road sample_road_delta sample_road_world))) = sample_road_world"
proof -
  obtain out where out: "road_invert sample_road sample_road_delta sample_object sample_road_world = Inr out" "io_inverse out \<noteq> None"
    by (simp add: road_invert_def sample_road_decodes and_then_def chain_continuous_def sample_observation_def)
      (simp add: sample_road_def Let_def cbor_encode_def and_then_def map_err_def sample_scans new_planned_delta_def cid_compute_def inverted_def)
  have fit: "road_fit sample_road sample_road_delta sample_road_world"
    by (simp add: road_fit_def sample_road_ok sample_road_decodes) (simp add: sample_observation_def sample_road_world_def)
  from observation_taken_back [OF fit fit out(1) sample_road_decodes] out show ?thesis by (auto split: option.splits)
qed

section \<open>A chain that moves is seen\<close>

lemma scope_of_locator:
  "observation_scope_of (observation_locator scope source oid) = Inr (takeWhile (\<lambda>c. c \<noteq> CHR ''?'') scope)"
proof -
  have "takeWhile (\<lambda>c. c \<noteq> CHR ''?'') (scope @ CHR ''?'' # rest) = takeWhile (\<lambda>c. c \<noteq> CHR ''?'') scope" for rest
    by (induction scope) simp_all
  then show ?thesis by (simp add: observation_scope_of_def observation_locator_def)
qed

lemma scope_of_locator_whole:
  "CHR ''?'' \<notin> set scope \<Longrightarrow> observation_scope_of (observation_locator scope source oid) = Inr scope"
  by (auto simp: scope_of_locator takeWhile_eq_all_conv)

text \<open>The bytes under the digest of a chain.\<close>

definition chain_bytes :: "string \<Rightarrow> string option \<Rightarrow> bytes" where
  "chain_bytes scope held = 0 # ascii ''gx-observation-chain'' @ ascii scope @ (case held of Some h \<Rightarrow> ascii h | None \<Rightarrow> 0 # ascii ''absent'')"

lemma state_digest_bytes: "state_digest rc w scope = rc_hash rc (chain_bytes scope (ow_chains w scope))"
  by (simp add: state_digest_def mint_def digest_def chain_bytes_def)

lemma chain_bytes_inject:
  assumes "chain_bytes scope held = chain_bytes scope held'" "held \<noteq> Some (CHR 0x00 # ''absent'')" "held' \<noteq> Some (CHR 0x00 # ''absent'')"
  shows "held = held'"
proof -
  have absent: "0 # ascii ''absent'' = ascii (CHR 0x00 # ''absent'')" by (simp add: ascii_def)
  show ?thesis using assms
    by (cases held; cases held') (auto simp: chain_bytes_def absent ascii_inject simp del: list.map)
qed

text \<open>
  The precondition of an observation sees every move of its chain. Where the scope has no question mark and
  its chain holds references (no head begins with the byte zero), two worlds in which the
  precondition of an observation on the scope is the same hold the same head there, or two explicit
  byte strings collide. A scope with a question mark is read back shortened from the locator, and
  then the precondition is the same whatever happens to the chain.
\<close>

theorem moved_chain_seen:
  assumes "ow_chains w scope \<noteq> Some (CHR 0x00 # ''absent'')" "ow_chains w' scope \<noteq> Some (CHR 0x00 # ''absent'')"
    and "obj_locator snap = observation_locator scope source oid"
    and "road_precondition rc snap w = Inr fp" "road_precondition rc snap w' = Inr fp'"
  shows "if CHR ''?'' \<in> set scope
    then road_precondition rc snap (w\<lparr>ow_chains := (ow_chains w)(scope := head)\<rparr>) = Inr fp
    else cas_eq fp fp' = Inr (rc_hash rc (chain_bytes scope (ow_chains w scope)) = rc_hash rc (chain_bytes scope (ow_chains w' scope)))
      \<and> (cas_eq fp fp' = Inr True \<longrightarrow> ow_chains w scope = ow_chains w' scope
           \<or> chain_bytes scope (ow_chains w scope) \<noteq> chain_bytes scope (ow_chains w' scope)
             \<and> rc_hash rc (chain_bytes scope (ow_chains w scope)) = rc_hash rc (chain_bytes scope (ow_chains w' scope)))"
proof (cases "CHR ''?'' \<in> set scope")
  case True
  then have "takeWhile (\<lambda>c. c \<noteq> CHR ''?'') scope \<noteq> scope" by (auto simp only: takeWhile_eq_all_conv)
  then have "state_digest rc (w\<lparr>ow_chains := (ow_chains w)(scope := head)\<rparr>) (takeWhile (\<lambda>c. c \<noteq> CHR ''?'') scope)
      = state_digest rc w (takeWhile (\<lambda>c. c \<noteq> CHR ''?'') scope)"
    by (simp add: state_digest_def del: takeWhile_eq_all_conv)
  with True assms(4) show ?thesis by (simp add: road_precondition_def assms(3) scope_of_locator and_then_def)
next
  case False
  obtain shown where "fp = \<lparr>fp_substrate = observation_substrate, fp_scope = shown, fp_digest = state_digest rc w scope\<rparr>"
      "fp' = \<lparr>fp_substrate = observation_substrate, fp_scope = shown, fp_digest = state_digest rc w' scope\<rparr>"
    using assms(3-5) scope_of_locator_whole [OF False]
    by (auto simp: road_precondition_def road_fingerprint_def and_then_eq_Inr map_err_eq_Inr new_fingerprint_def split: if_splits)
  then have eq: "cas_eq fp fp' = Inr (rc_hash rc (chain_bytes scope (ow_chains w scope)) = rc_hash rc (chain_bytes scope (ow_chains w' scope)))"
    by (simp add: cas_eq_def state_digest_bytes)
  then show ?thesis using False chain_bytes_inject [OF _ assms(1,2)] by auto
qed

theorem moved_chain_seen_witness:
  "\<exists>fp. road_precondition sample_road (sample_object\<lparr>obj_locator := observation_locator ''deploy/s/a?b'' ''s'' ''1''\<rparr>) sample_road_world = Inr fp
     \<and> road_precondition sample_road (sample_object\<lparr>obj_locator := observation_locator ''deploy/s/a?b'' ''s'' ''1''\<rparr>)
         (sample_road_world\<lparr>ow_chains := (ow_chains sample_road_world)(''deploy/s/a?b'' \<mapsto> ''gx1:a'')\<rparr>) = Inr fp"
proof -
  let ?snap = "sample_object\<lparr>obj_locator := observation_locator ''deploy/s/a?b'' ''s'' ''1''\<rparr>"
  obtain fp where fp: "road_precondition sample_road ?snap sample_road_world = Inr fp"
    by (simp add: road_precondition_def scope_of_locator and_then_def)
      (simp add: road_fingerprint_def elide_scope_def observation_locator_def MAX_SCOPE_BYTES_def map_err_def new_fingerprint_def and_then_def)
  have "ow_chains sample_road_world ''deploy/s/a?b'' \<noteq> Some (CHR 0x00 # ''absent'')" by (simp add: sample_road_world_def)
  from moved_chain_seen [OF this this _ fp fp, of "''s''" "''1''" "Some ''gx1:a''"] fp show ?thesis by simp
qed

section \<open>Reporting once\<close>

lemma wp_any: "(\<And>a s'. Q a s') \<Longrightarrow> wp m Q (\<lambda>_ _. True) s"
  by (auto simp: wp_def split: prod.splits sum.splits)

lemma ingest_gap_fails: "\<not> is_ok (ingest_gap rec prev held) \<longleftrightarrow>
    (\<exists>fp x. rec = EnvsetObserved fp \<and> x \<in> set (env_entries fp) \<and> \<not> is_digest_form (env_value_digest x))"
proof (cases rec)
  case (EnvsetObserved fp)
  have "find (\<lambda>e. \<not> is_digest_form (env_value_digest e)) (env_entries fp) = None \<longleftrightarrow> (\<forall>x\<in>set (env_entries fp). is_digest_form (env_value_digest x))"
    by (auto simp: find_None_iff)
  then show ?thesis
    using EnvsetObserved by (auto simp: is_ok_def envset_admit_def split: option.splits)
qed (simp_all add: is_ok_def)

text \<open>
  C37. An observation is taken in once. A report without an id, and one that carries a value in plain text,
  is refused and changes nothing. A report that is taken in is remembered under its source and id, and
  the same report made again, whatever predecessor it claims and whenever it comes, is answered with
  the same transformation, the same reference and the same note of a gap, marked as repeated, and
  changes nothing.
\<close>

theorem ingest_once:
  "if oid = [] \<or> (\<exists>fp x. rec = EnvsetObserved fp \<and> x \<in> set (env_entries fp) \<and> \<not> is_digest_form (env_value_digest x))
   then \<exists>err. ingest_observation rc cf source oid prev rec seed at e = (Inl err, e)
   else case ingest_observation rc cf source oid prev rec seed at e of
       (Inl _, _) \<Rightarrow> True
     | (Inr r, e') \<Rightarrow>
         ow_replays (en_world e') (source, oid) = Some \<lparr>ri_id = oi_id r, ri_chain_ref = oi_chain_ref r, ri_gap = oi_gap r\<rparr>
         \<and> ingest_observation rc cf source oid prev' rec seed' at' e' = (Inr (r\<lparr>oi_replayed := True\<rparr>), e')"
proof (cases "oid = [] \<or> \<not> is_ok (ingest_gap rec prev (ow_chains (en_world e) (ingest_scope source rec)))")
  case True
  then show ?thesis
    unfolding ingest_gap_fails [symmetric]
    by (auto simp: ingest_observation_def Let_def then_do_def get_def lift_def fail_def is_ok_def split: sum.splits)
next
  case False
  have known: "ingest_observation rc cf source oid prev' rec seed' at' e' =
      (Inr \<lparr>oi_id = ri_id r, oi_replayed = True, oi_gap = ri_gap r, oi_chain_ref = ri_chain_ref r\<rparr>, e')"
    if "ow_replays (en_world e') (source, oid) = Some r" for e' r prev' seed' at'
  proof -
    have "is_ok (ingest_gap rec prev' (ow_chains (en_world e') (ingest_scope source rec)))"
      using False ingest_gap_fails by blast
    then show ?thesis
      using False that by (auto simp: ingest_observation_def Let_def then_do_def get_def lift_def ret_def is_ok_def split: sum.splits)
  qed
  have "wp (ingest_observation rc cf source oid prev rec seed at)
      (\<lambda>r e'. ow_replays (en_world e') (source, oid) = Some \<lparr>ri_id = oi_id r, ri_chain_ref = oi_chain_ref r, ri_gap = oi_gap r\<rparr>) (\<lambda>_ _. True) e"
    using False
    by (auto simp: ingest_observation_def Let_def wp_simps split: sum.split option.split) (rule wp_any, subst wp_then, rule wp_any, simp add: wp_simps)
  moreover have "\<not> (oid = [] \<or> (\<exists>fp x. rec = EnvsetObserved fp \<and> x \<in> set (env_entries fp) \<and> \<not> is_digest_form (env_value_digest x)))"
    using False ingest_gap_fails [of rec prev "ow_chains (en_world e) (ingest_scope source rec)"] by blast
  ultimately show ?thesis using known by (simp only: if_False) (auto simp: wp_def split: prod.splits sum.splits)
qed

end
