(* ===== verification/Fs_Adapter.thy ===== *)
theory Fs_Adapter
  imports Observation_Road
begin

text \<open>
  The adapter for files, \<open>src/crates/gx-adapter-fs/src\<close>: the normal form of a locator (\<open>locator.rs\<close>), the
  payload of a delta (\<open>delta.rs\<close>), and the methods of the trait: \<open>plan\<close>, \<open>snapshot\<close>, \<open>precondition\<close>, \<open>apply\<close>
  through a temporary file and a rename, \<open>invert\<close> and \<open>commutation\<close>. The file system is what the code uses of
  it: regular files and directories under absolute names, and calls of the operating system that may
  each be refused. Symbolic links are not in the model, so a name stands for one file.
\<close>

section \<open>Locators\<close>

definition SEPARATOR :: char where
  "SEPARATOR = CHR ''/''"

definition is_absolute :: "string \<Rightarrow> bool" where
  "is_absolute locator \<longleftrightarrow> take 1 locator = [SEPARATOR]"

text \<open>\<open>str::split\<close> on the separator, and \<open>join\<close>.\<close>

fun path_split :: "string \<Rightarrow> string list" where
  "path_split [] = [[]]"
| "path_split (c # cs) =
     (if c = SEPARATOR then [] # path_split cs
      else (case path_split cs of [] \<Rightarrow> [[c]] | s # ss \<Rightarrow> (c # s) # ss))"

fun path_join :: "string list \<Rightarrow> string" where
  "path_join [] = []"
| "path_join [s] = s"
| "path_join (s # ss) = s @ SEPARATOR # path_join ss"

definition normalize_step :: "bool \<Rightarrow> string list \<Rightarrow> string \<Rightarrow> string list" where
  "normalize_step absolute segments segment =
     (if segment = '''' \<or> segment = ''.'' then segments
      else if segment = ''..'' then
        (if segments \<noteq> [] \<and> last segments \<noteq> ''..'' then butlast segments
         else if absolute then segments else segments @ [''..''])
      else segments @ [segment])"

definition normalize_locator :: "string \<Rightarrow> string" where
  "normalize_locator locator =
     (let absolute = is_absolute locator;
          body = path_join (foldl (normalize_step absolute) [] (path_split locator))
      in if absolute then SEPARATOR # body else if body = [] then ''.'' else body)"

section \<open>The payload of a delta\<close>

definition MAX_OPS :: nat where
  "MAX_OPS = 1"

definition MAX_INVERSE_PAYLOAD_BYTES :: nat where
  "MAX_INVERSE_PAYLOAD_BYTES = 1024 * 1024"

definition MAX_FORWARD_PAYLOAD_BYTES :: nat where
  "MAX_FORWARD_PAYLOAD_BYTES = 1024 * 1024"

record fs_op =
  fo_content :: "bytes option"
  fo_locator :: string

definition fs_write :: "string \<Rightarrow> bytes \<Rightarrow> fs_op" where
  "fs_write locator content = \<lparr>fo_content = Some content, fo_locator = locator\<rparr>"

definition fs_remove :: "string \<Rightarrow> fs_op" where
  "fs_remove locator = \<lparr>fo_content = None, fo_locator = locator\<rparr>"

definition fs_position :: "fs_op \<Rightarrow> substrate_error + string" where
  "fs_position op =
     (let normalised = normalize_locator (fo_locator op)
      in if is_absolute normalised then Inr normalised else Inl (NotAPosition (fo_locator op) normalised))"

text \<open>The codecs of the adapter: serialization, and the hash.\<close>

record fs_codec =
  fc_hash :: "bytes \<Rightarrow> cid"
  fc_object :: "object_snapshot_view \<Rightarrow> string + bytes"
  fc_scope :: "string \<Rightarrow> string + bytes"
  fc_delta :: "planned_delta_view \<Rightarrow> string + bytes"
  fc_ops :: "fs_op list \<Rightarrow> string + bytes"
  fc_ops_from :: "bytes \<Rightarrow> string + fs_op list"

definition fs_encode :: "fs_codec \<Rightarrow> fs_op list \<Rightarrow> substrate_error + bytes" where
  "fs_encode fc ops = map_err (\<lambda>_. NotDigestible) (cbor_encode (fc_ops fc) ops)"

definition fs_decode :: "fs_codec \<Rightarrow> bytes \<Rightarrow> substrate_error + fs_op list" where
  "fs_decode fc payload =
     and_then (map_err (\<lambda>_. PayloadUnreadable) (cbor_decode (fc_ops_from fc) payload)) (\<lambda>ops.
     if length ops > MAX_OPS then Inl (Unimplemented ''apply'')
     else if ops = [] then Inl PayloadUnreadable else Inr ops)"

text \<open>What the methods that take a delta begin with: it is for files, it can be read, and it has a position.\<close>

definition operation_of :: "fs_codec \<Rightarrow> planned_delta \<Rightarrow> substrate_error + (string \<times> fs_op)" where
  "operation_of fc d =
     (if pd_substrate d \<noteq> Fs then Inl (ForeignDelta Fs (pd_substrate d))
      else and_then (fs_decode fc (pd_payload d)) (\<lambda>ops.
           let op = hd ops in and_then (fs_position op) (\<lambda>pos. Inr (pos, op))))"

section \<open>The file system\<close>

datatype fs_node = Regular bytes | Directory

datatype io_kind = NotFound | OtherIo

datatype fs_call = CallCreate | CallWrite | CallSync | CallRename | CallOpenDir | CallSyncDir | CallRemove | CallRead

text \<open>
  The files, what the operating system refuses (a call at a name), how many bytes reach a file before a
  refused write, the number of the process and the counter of its temporary files.
\<close>

record fs_world =
  fw_nodes :: "string \<Rightarrow> fs_node option"
  fw_refuses :: "fs_call \<Rightarrow> string \<Rightarrow> bool"
  fw_short :: nat
  fw_process :: "32 word"
  fw_next_temp :: "64 word"

text \<open>\<open>Path::parent\<close> and \<open>Path::join\<close> of a position: an absolute name in normal form.\<close>

definition path_parent :: "string \<Rightarrow> string option" where
  "path_parent p =
     (if p = [SEPARATOR] then None
      else (let up = rev (dropWhile (\<lambda>c. c \<noteq> SEPARATOR) (rev p))
            in Some (if up = [SEPARATOR] then up else butlast up)))"

definition path_child :: "string \<Rightarrow> string \<Rightarrow> string" where
  "path_child dir name = (if dir = [SEPARATOR] then SEPARATOR # name else dir @ SEPARATOR # name)"

text \<open>Why there is nothing at a name: a file stands where a directory should, or an entry is missing.\<close>

definition missing_kind :: "fs_world \<Rightarrow> string \<Rightarrow> io_kind" where
  "missing_kind w p =
     (if list_ex (\<lambda>n. p ! n = SEPARATOR \<and> (case fw_nodes w (take n p) of Some (Regular _) \<Rightarrow> True | _ \<Rightarrow> False)) [1..<length p]
      then OtherIo else NotFound)"

definition std_read :: "fs_world \<Rightarrow> string \<Rightarrow> io_kind + bytes" where
  "std_read w p =
     (if fw_refuses w CallRead p then Inl OtherIo
      else (case fw_nodes w p of Some (Regular bs) \<Rightarrow> Inr bs | Some Directory \<Rightarrow> Inl OtherIo | None \<Rightarrow> Inl (missing_kind w p)))"

definition set_node :: "string \<Rightarrow> fs_node option \<Rightarrow> fs_world \<Rightarrow> fs_world" where
  "set_node p n w = w\<lparr>fw_nodes := (fw_nodes w)(p := n)\<rparr>"

definition std_create :: "string \<Rightarrow> fs_world \<Rightarrow> (io_kind + unit) \<times> fs_world" where
  "std_create p w =
     (if fw_refuses w CallCreate p then (Inl OtherIo, w)
      else (case path_parent p of None \<Rightarrow> (Inl OtherIo, w) | Some dir \<Rightarrow>
       if fw_nodes w dir \<noteq> Some Directory then (Inl (missing_kind w p), w)
       else if fw_nodes w p = Some Directory then (Inl OtherIo, w)
       else (Inr (), set_node p (Some (Regular [])) w)))"

definition std_write_all :: "string \<Rightarrow> bytes \<Rightarrow> fs_world \<Rightarrow> (io_kind + unit) \<times> fs_world" where
  "std_write_all p content w =
     (if fw_refuses w CallWrite p then (Inl OtherIo, set_node p (Some (Regular (take (fw_short w) content))) w)
      else (Inr (), set_node p (Some (Regular content)) w))"

definition std_sync_all :: "string \<Rightarrow> fs_world \<Rightarrow> (io_kind + unit) \<times> fs_world" where
  "std_sync_all p w = (if fw_refuses w CallSync p then Inl OtherIo else Inr (), w)"

definition std_rename :: "string \<Rightarrow> string \<Rightarrow> fs_world \<Rightarrow> (io_kind + unit) \<times> fs_world" where
  "std_rename p target w =
     (if fw_refuses w CallRename target \<or> fw_nodes w target = Some Directory then (Inl OtherIo, w)
      else (Inr (), set_node target (fw_nodes w p) (set_node p None w)))"

definition std_remove_file :: "string \<Rightarrow> fs_world \<Rightarrow> (io_kind + unit) \<times> fs_world" where
  "std_remove_file p w =
     (if fw_refuses w CallRemove p then (Inl OtherIo, w)
      else (case fw_nodes w p of
         Some (Regular _) \<Rightarrow> (Inr (), set_node p None w)
       | Some Directory \<Rightarrow> (Inl OtherIo, w)
       | None \<Rightarrow> (Inl (missing_kind w p), w)))"

definition sync_parent_directory :: "string \<Rightarrow> fs_world \<Rightarrow> io_kind + unit" where
  "sync_parent_directory dir w =
     (if fw_refuses w CallOpenDir dir then Inl OtherIo
      else if fw_nodes w dir = None then Inl (missing_kind w dir)
      else if fw_refuses w CallSyncDir dir then Inl OtherIo else Inr ())"

text \<open>One call after the other, up to the first that fails.\<close>

definition io_then :: "('s \<Rightarrow> ('e + 'a) \<times> 's) \<Rightarrow> ('s \<Rightarrow> ('e + 'b) \<times> 's) \<Rightarrow> 's \<Rightarrow> ('e + 'b) \<times> 's" where
  "io_then m m' s = (case m s of (Inl e, s') \<Rightarrow> (Inl e, s') | (Inr _, s') \<Rightarrow> m' s')"

section \<open>The methods\<close>

definition content_digest :: "fs_codec \<Rightarrow> bytes \<Rightarrow> cid" where
  "content_digest fc content = mint (fc_hash fc) Leaf [content]"

definition absent_digest :: "fs_codec \<Rightarrow> cid" where
  "absent_digest fc = content_digest fc []"

definition fs_read :: "string \<Rightarrow> fs_world \<Rightarrow> substrate_error + bytes" where
  "fs_read locator w =
     (if \<not> is_absolute locator then Inl (Unreadable locator) else map_err (\<lambda>_. Unreadable locator) (std_read w locator))"

definition fs_snapshot :: "fs_codec \<Rightarrow> string \<Rightarrow> fs_world \<Rightarrow> substrate_error + object_snapshot" where
  "fs_snapshot fc locator w =
     (let normalised = normalize_locator locator in
      and_then (fs_read normalised w) (\<lambda>content.
      let placeholder = \<lparr>obj_id = zero_cid, obj_substrate = Fs, obj_locator = normalised,
            obj_digest = content_digest fc content, obj_representation = Bytes\<rparr>
      in and_then (map_err (\<lambda>_. NotDigestible) (cid_compute (fc_hash fc) (fc_object fc) object_identity placeholder)) (\<lambda>c.
         Inr (placeholder\<lparr>obj_id := c\<rparr>))))"

definition fs_plan :: "fs_codec \<Rightarrow> intent \<Rightarrow> object_snapshot \<Rightarrow> fs_world \<Rightarrow> substrate_error + planned_delta" where
  "fs_plan fc i pre w =
     (if in_substrate i \<noteq> Fs then Inl NotPlannable
      else (let target = normalize_locator (in_locator i) in
        if \<not> is_absolute target then Inl NotPlannable
        else and_then (fs_encode fc [fs_write target (in_goal i)]) (\<lambda>payload.
          if length payload > MAX_FORWARD_PAYLOAD_BYTES then Inl NotPlannable
          else and_then (new_planned_delta (fc_hash fc) (fc_delta fc) Fs payload) (\<lambda>d.
            Inr (with_promised_target (content_digest fc (in_goal i)) d)))))"

definition fs_fingerprint :: "fs_codec \<Rightarrow> string \<Rightarrow> cid \<Rightarrow> substrate_error + fingerprint" where
  "fs_fingerprint fc scope c =
     and_then (elide_scope (fc_hash fc) (fc_scope fc) scope) (\<lambda>s. map_err SubstrateCore (new_fingerprint Fs s c))"

definition fs_precondition :: "fs_codec \<Rightarrow> object_snapshot \<Rightarrow> fs_world \<Rightarrow> substrate_error + fingerprint" where
  "fs_precondition fc snap w =
     (let scope = normalize_locator (obj_locator snap) in
      and_then (fs_read scope w) (\<lambda>content. fs_fingerprint fc scope (content_digest fc content)))"

definition fs_temp :: "fs_world \<Rightarrow> string \<Rightarrow> string" where
  "fs_temp w dir =
     path_child dir (''.gx-apply-'' @ decimal (unat (fw_process w)) @ ''-'' @ decimal (unat (fw_next_temp w)) @ ''.tmp'')"

text \<open>
  The five steps around the rename. Whatever fails, the temporary file is removed if it is there, and the
  failure of that removal is not reported.
\<close>

definition write_whole_file :: "string \<Rightarrow> bytes \<Rightarrow> fs_world \<Rightarrow> (substrate_error + unit) \<times> fs_world" where
  "write_whole_file pos content w =
     (case path_parent pos of None \<Rightarrow> (Inl ApplyFailed, w) | Some dir \<Rightarrow>
      (let temp = fs_temp w dir; w = w\<lparr>fw_next_temp := fw_next_temp w + 1\<rparr>
       in case io_then (std_create temp) (io_then (std_write_all temp content) (io_then (std_sync_all temp)
                (io_then (std_rename temp pos) (\<lambda>w. (sync_parent_directory dir w, w))))) w of
            (Inl _, w') \<Rightarrow> (Inl ApplyFailed, snd (std_remove_file temp w'))
          | (Inr _, w') \<Rightarrow> (Inr (), w')))"

definition remove_whole_file :: "string \<Rightarrow> fs_world \<Rightarrow> (substrate_error + unit) \<times> fs_world" where
  "remove_whole_file pos w =
     (case std_remove_file pos w of
        (Inl OtherIo, w') \<Rightarrow> (Inl ApplyFailed, w')
      | (_, w') \<Rightarrow>
          (case path_parent pos of None \<Rightarrow> (Inl ApplyFailed, w')
           | Some dir \<Rightarrow> (map_err (\<lambda>_. ApplyFailed) (sync_parent_directory dir w'), w')))"

definition fs_observe :: "fs_codec \<Rightarrow> string \<Rightarrow> fs_world \<Rightarrow> substrate_error + cid" where
  "fs_observe fc pos w =
     (case std_read w pos of
        Inr bs \<Rightarrow> Inr (content_digest fc bs)
      | Inl NotFound \<Rightarrow> Inr (content_digest fc [])
      | Inl OtherIo \<Rightarrow> Inl (Unreadable pos))"

definition fs_applied :: "fs_codec \<Rightarrow> planned_delta \<Rightarrow> string \<Rightarrow> fs_world \<Rightarrow> substrate_error + applied_delta" where
  "fs_applied fc d pos w =
     and_then (fs_observe fc pos w) (\<lambda>c.
     and_then (fs_fingerprint fc pos c) (\<lambda>postcondition.
     Inr (new_applied_delta (pd_reference d) postcondition c 0)))"

definition fs_act :: "string \<Rightarrow> fs_op \<Rightarrow> fs_world \<Rightarrow> (substrate_error + unit) \<times> fs_world" where
  "fs_act pos op = (case fo_content op of Some content \<Rightarrow> write_whole_file pos content | None \<Rightarrow> remove_whole_file pos)"

definition fs_apply :: "fs_codec \<Rightarrow> planned_delta \<Rightarrow> fs_world \<Rightarrow> (substrate_error + applied_delta) \<times> fs_world" where
  "fs_apply fc d w =
     (case operation_of fc d of Inl e \<Rightarrow> (Inl e, w)
      | Inr (pos, op) \<Rightarrow> io_then (fs_act pos op) (\<lambda>w. (fs_applied fc d pos w, w)) w)"

definition read_if_present :: "string \<Rightarrow> fs_world \<Rightarrow> substrate_error + bytes option" where
  "read_if_present pos w =
     (case std_read w pos of
        Inr bs \<Rightarrow> Inr (Some bs) | Inl NotFound \<Rightarrow> Inr None | Inl OtherIo \<Rightarrow> Inl (Unreadable pos))"

definition fs_invert :: "fs_codec \<Rightarrow> planned_delta \<Rightarrow> object_snapshot \<Rightarrow> fs_world \<Rightarrow> substrate_error + invert_outcome" where
  "fs_invert fc d pre w =
     and_then (operation_of fc d) (\<lambda>(pos, op).
     let named = normalize_locator (obj_locator pre) in
     if named \<noteq> pos then Inl (LocatorMismatch pos named)
     else and_then (read_if_present pos w) (\<lambda>found.
       let (restore, reads) = (case found of
             Some old \<Rightarrow> (fs_write pos old, [\<lparr>read_digest = content_digest fc old, read_locator = pos\<rparr>])
           | None \<Rightarrow> (fs_remove pos, [\<lparr>read_digest = absent_digest fc, read_locator = pos\<rparr>]))
       in and_then (fs_encode fc [restore]) (\<lambda>payload.
          if length payload > MAX_INVERSE_PAYLOAD_BYTES then Inr (invert_none reads)
          else and_then (new_planned_delta (fc_hash fc) (fc_delta fc) Fs payload) (\<lambda>d'. Inr (inverted d' reads)))))"

definition fs_mint :: "fs_codec \<Rightarrow> string \<times> fs_op \<Rightarrow> substrate_error + delta_ref" where
  "fs_mint fc = (\<lambda>(pos, op).
     let restated = (case fo_content op of Some content \<Rightarrow> fs_write pos content | None \<Rightarrow> fs_remove pos)
     in and_then (fs_encode fc [restated]) (\<lambda>payload.
        and_then (new_planned_delta (fc_hash fc) (fc_delta fc) Fs payload) (\<lambda>d. Inr (pd_reference d))))"

definition fs_commutation :: "fs_codec \<Rightarrow> planned_delta \<Rightarrow> planned_delta \<Rightarrow> fs_world \<Rightarrow> substrate_error + commutation" where
  "fs_commutation fc a b w =
     and_then (operation_of fc a) (\<lambda>left.
     and_then (operation_of fc b) (\<lambda>right.
     if fst left \<noteq> fst right then Inr Commutes
     else and_then (fs_mint fc right) (\<lambda>residual. Inr (Conflicts residual))))"

definition fs_adapter :: "fs_codec \<Rightarrow> fs_world adapter" where
  "fs_adapter fc =
     \<lparr>ad_snapshot = fs_snapshot fc, ad_plan = fs_plan fc, ad_precondition = fs_precondition fc, ad_apply = fs_apply fc,
      ad_invert = fs_invert fc, ad_commutation = fs_commutation fc\<rparr>"

section \<open>The normal form of a locator\<close>

lemma path_split_not_Nil [simp]: "path_split l \<noteq> []"
  by (cases l) (auto split: list.splits)

lemma path_split_no_separator: "s \<in> set (path_split l) \<Longrightarrow> SEPARATOR \<notin> set s"
  by (induction l arbitrary: s) (auto split: if_splits list.splits)

lemma path_split_append: "SEPARATOR \<notin> set s \<Longrightarrow> path_split (s @ SEPARATOR # l) = s # path_split l"
  by (induction s) auto

lemma path_split_single: "SEPARATOR \<notin> set s \<Longrightarrow> path_split s = [s]"
  by (induction s) auto

lemma path_split_join:
  "ss \<noteq> [] \<Longrightarrow> \<forall>s\<in>set ss. SEPARATOR \<notin> set s \<Longrightarrow> path_split (path_join ss) = ss"
  by (induction ss rule: path_join.induct) (simp_all add: path_split_append path_split_single)

text \<open>A segment that names an entry of a directory.\<close>

definition plain_segment :: "string \<Rightarrow> bool" where
  "plain_segment s \<longleftrightarrow> s \<noteq> '''' \<and> s \<noteq> ''.'' \<and> s \<noteq> ''..'' \<and> SEPARATOR \<notin> set s"

text \<open>The segments of a normal form: steps up only at the front, and none in an absolute one.\<close>

definition normal_segments :: "bool \<Rightarrow> string list \<Rightarrow> bool" where
  "normal_segments absolute ss \<longleftrightarrow>
     (\<exists>k ps. ss = replicate k ''..'' @ ps \<and> (absolute \<longrightarrow> k = 0) \<and> list_all plain_segment ps)"

lemma normalize_step_normal:
  assumes "normal_segments a ss" "SEPARATOR \<notin> set s"
  shows "normal_segments a (normalize_step a ss s)"
proof -
  obtain k ps where k: "ss = replicate k ''..'' @ ps" "a \<longrightarrow> k = 0" "list_all plain_segment ps"
    using assms(1) by (auto simp: normal_segments_def)
  have last: "ss \<noteq> [] \<and> last ss \<noteq> ''..'' \<longleftrightarrow> ps \<noteq> []"
  proof (cases ps rule: rev_cases)
    case Nil
    then show ?thesis using k(1) by (cases k) (simp_all add: replicate_append_same [symmetric])
  next
    case (snoc qs q)
    then show ?thesis using k(1,3) by (simp add: plain_segment_def)
  qed
  consider "s = '''' \<or> s = ''.''" | "s = ''..''" "ps \<noteq> []" | "s = ''..''" "ps = []" | "plain_segment s"
    using assms(2) by (auto simp: plain_segment_def)
  then show ?thesis
  proof cases
    case 1
    then show ?thesis using assms(1) by (auto simp: normalize_step_def)
  next
    case 2
    then have "normalize_step a ss s = replicate k ''..'' @ butlast ps" using last k(1) by (simp add: normalize_step_def butlast_append)
    moreover have "list_all plain_segment (butlast ps)" using k(3) by (auto simp: list_all_iff dest: in_set_butlastD)
    ultimately show ?thesis using k(2) unfolding normal_segments_def by blast
  next
    case 3
    then have "normalize_step a ss s = (if a then ss else replicate (Suc k) ''..'' @ [])"
      using last k(1) by (cases k) (simp_all add: normalize_step_def replicate_append_same)
    then show ?thesis using assms(1) unfolding normal_segments_def by (cases a) (auto intro!: exI [of _ "Suc k"] exI [of _ "[]"])
  next
    case 4
    then have "normalize_step a ss s = replicate k ''..'' @ (ps @ [s])" using k(1) by (auto simp: normalize_step_def plain_segment_def)
    then show ?thesis using 4 k(2,3) unfolding normal_segments_def by (intro exI [of _ k] exI [of _ "ps @ [s]"]) simp
  qed
qed

lemma fold_normal:
  "normal_segments a ss \<Longrightarrow> \<forall>s\<in>set l. SEPARATOR \<notin> set s \<Longrightarrow> normal_segments a (foldl (normalize_step a) ss l)"
  by (induction l arbitrary: ss) (simp_all add: normalize_step_normal)

definition normal_of :: "string \<Rightarrow> string list" where
  "normal_of l = foldl (normalize_step (is_absolute l)) [] (path_split l)"

lemma normal_of_normal: "normal_segments (is_absolute l) (normal_of l)"
proof -
  have "normal_segments (is_absolute l) []" unfolding normal_segments_def by (intro exI [of _ 0] exI [of _ "[]"]) simp
  then show ?thesis unfolding normal_of_def by (rule fold_normal) (auto dest: path_split_no_separator)
qed

text \<open>Folding the segments of a normal form builds them again.\<close>

lemma fold_plain: "list_all plain_segment ps \<Longrightarrow> foldl (normalize_step a) ss ps = ss @ ps"
  by (induction ps arbitrary: ss) (simp_all add: normalize_step_def plain_segment_def)

lemma fold_up: "foldl (normalize_step False) (replicate j ''..'') (replicate k ''..'') = replicate (j + k) ''..''"
proof (induction k arbitrary: j)
  case (Suc k)
  have "normalize_step False (replicate j ''..'') ''..'' = replicate (Suc j) ''..''"
    by (cases j) (simp_all add: normalize_step_def replicate_append_same)
  then show ?case using Suc [of "Suc j"] by simp
qed simp

lemma fold_normal_id:
  assumes "normal_segments a ss"
  shows "foldl (normalize_step a) [] ss = ss"
proof -
  obtain k ps where k: "ss = replicate k ''..'' @ ps" "a \<longrightarrow> k = 0" "list_all plain_segment ps"
    using assms by (auto simp: normal_segments_def)
  have "foldl (normalize_step a) [] (replicate k ''..'') = replicate k ''..''"
    using fold_up [of 0 k] k(2) by (cases a) simp_all
  then show ?thesis using k(1) by (simp add: fold_plain [OF k(3)])
qed

lemma normal_segments_nonempty:
  "normal_segments a ss \<Longrightarrow> s \<in> set ss \<Longrightarrow> s \<noteq> [] \<and> SEPARATOR \<notin> set s"
  unfolding normal_segments_def list_all_iff by (elim exE conjE) (force simp: plain_segment_def SEPARATOR_def)

lemma path_join_head: "s \<noteq> [] \<Longrightarrow> \<exists>rest. path_join (s # ss) = hd s # rest"
  by (cases s; cases ss) auto

lemma normal_of_join:
  assumes "normal_of l = s # ss"
  shows "\<exists>c rest. path_join (normal_of l) = c # rest \<and> c \<noteq> SEPARATOR"
proof -
  have "s \<noteq> []" "SEPARATOR \<notin> set s" using normal_segments_nonempty [OF normal_of_normal [of l], of s] assms by simp_all
  then show ?thesis using path_join_head [of s ss] assms hd_in_set [of s] by metis
qed

lemma normalize_locator_eq:
  "normalize_locator l =
     (if is_absolute l then SEPARATOR # path_join (normal_of l) else if normal_of l = [] then ''.'' else path_join (normal_of l))"
proof -
  have "path_join (normal_of l) = [] \<longleftrightarrow> normal_of l = []"
    using normal_of_join [of l] by (cases "normal_of l") auto
  then show ?thesis unfolding normalize_locator_def Let_def normal_of_def [symmetric] by simp
qed

lemma is_absolute_normalize: "is_absolute (normalize_locator l) = is_absolute l"
  using normal_of_join [of l] by (cases "normal_of l") (auto simp: normalize_locator_eq is_absolute_def SEPARATOR_def)

text \<open>What the segments of a normal form are, read back from its text.\<close>

lemma path_split_normalize:
  "path_split (normalize_locator l) =
     (if is_absolute l then [] # (if normal_of l = [] then [[]] else normal_of l) else if normal_of l = [] then [''.''] else normal_of l)"
proof -
  have "path_split (path_join (normal_of l)) = (if normal_of l = [] then [[]] else normal_of l)"
    using path_split_join [of "normal_of l"] normal_segments_nonempty [OF normal_of_normal [of l]] by auto
  then show ?thesis by (simp add: normalize_locator_eq) (simp add: SEPARATOR_def)
qed

lemma normal_of_normalize: "normal_of (normalize_locator l) = normal_of l"
proof -
  have "normalize_step a [] [] = []" "normalize_step a [] ''.'' = []" for a by (simp_all add: normalize_step_def)
  then show ?thesis using fold_normal_id [OF normal_of_normal [of l]]
    unfolding normal_of_def [of "normalize_locator l"] 
    by (cases "is_absolute l") (simp_all add: path_split_normalize is_absolute_normalize)
qed

lemma normalize_normalize [simp]: "normalize_locator (normalize_locator l) = normalize_locator l"
  unfolding normalize_locator_eq [of "normalize_locator l"] normal_of_normalize is_absolute_normalize normalize_locator_eq [symmetric] ..

text \<open>Where a locator leads from a directory, one segment at a time; the parent of the root is the root.\<close>

fun path_walk :: "string list \<Rightarrow> string list \<Rightarrow> string list" where
  "path_walk dir [] = dir"
| "path_walk dir (s # ss) =
     path_walk (if s = '''' \<or> s = ''.'' then dir else if s = ''..'' then butlast dir else dir @ [s]) ss"

definition leads_to :: "string list \<Rightarrow> string \<Rightarrow> string list" where
  "leads_to dir l = path_walk (if is_absolute l then [] else dir) (path_split l)"

lemma path_walk_append: "path_walk dir (ss @ ts) = path_walk (path_walk dir ss) ts"
  by (induction ss arbitrary: dir) simp_all

lemma path_walk_plain: "list_all plain_segment ps \<Longrightarrow> path_walk dir ps = dir @ ps"
  by (induction ps arbitrary: dir) (simp_all add: plain_segment_def)

lemma walk_step:
  assumes "normal_segments a ss" "a \<longrightarrow> dir = []"
  shows "path_walk dir (normalize_step a ss s) = path_walk (path_walk dir ss) [s]"
proof -
  obtain k ps where k: "ss = replicate k ''..'' @ ps" "a \<longrightarrow> k = 0" "list_all plain_segment ps"
    using assms(1) by (auto simp: normal_segments_def)
  have up: "path_walk dir (butlast ss) = butlast (path_walk dir ss)" if "ss \<noteq> []" "last ss \<noteq> ''..''"
  proof -
    have "plain_segment (last ss)"
      using that k by (cases ps rule: rev_cases) (auto simp: last_append split: if_splits)
    then have "path_walk dir (butlast ss @ [last ss]) = path_walk dir (butlast ss) @ [last ss]"
      by (simp add: path_walk_append plain_segment_def)
    then show ?thesis using that(1) by simp
  qed
  have root: "path_walk dir ss = []" if "a" "\<not> (ss \<noteq> [] \<and> last ss \<noteq> ''..'')"
  proof -
    have "ps = []" using that k by (cases ps rule: rev_cases) (auto simp: plain_segment_def)
    then show ?thesis using that(1) k(1,2) assms(2) by simp
  qed
  show ?thesis using up root by (auto simp: normalize_step_def path_walk_append)
qed

lemma walk_fold:
  assumes "normal_segments a ss" "\<forall>s\<in>set l. SEPARATOR \<notin> set s" "a \<longrightarrow> dir = []"
  shows "path_walk dir (foldl (normalize_step a) ss l) = path_walk (path_walk dir ss) l"
  using assms
proof (induction l arbitrary: ss)
  case (Cons s l)
  then have "path_walk dir (foldl (normalize_step a) (normalize_step a ss s) l) = path_walk (path_walk dir (normalize_step a ss s)) l"
    by (intro Cons.IH) (simp_all add: normalize_step_normal)
  also have "\<dots> = path_walk (path_walk (path_walk dir ss) [s]) l" by (simp only: walk_step [OF Cons.prems(1,3)])
  finally show ?case by (simp add: path_walk_append [symmetric])
qed simp

lemma leads_to_normal_of: "leads_to dir l = path_walk (if is_absolute l then [] else dir) (normal_of l)"
proof -
  have "normal_segments (is_absolute l) []" unfolding normal_segments_def by (intro exI [of _ 0] exI [of _ "[]"]) simp
  then show ?thesis unfolding leads_to_def normal_of_def by (subst walk_fold) (auto dest: path_split_no_separator)
qed

text \<open>
  C31. The normal form of a locator names the same place, and there is one for each place: it is its own
  normal form, it is absolute when the locator is, from every directory it leads where the locator leads
  (segment by segment, the parent of the root being the root), and two absolute locators have the same
  normal form exactly when they lead to the same place.
\<close>

theorem normal_form_names_the_place:
  "normalize_locator (normalize_locator l) = normalize_locator l
   \<and> is_absolute (normalize_locator l) = is_absolute l
   \<and> leads_to dir (normalize_locator l) = leads_to dir l
   \<and> (is_absolute l \<and> is_absolute l' \<longrightarrow> (normalize_locator l = normalize_locator l' \<longleftrightarrow> leads_to dir l = leads_to dir l'))"
proof (intro conjI impI)
  show "leads_to dir (normalize_locator l) = leads_to dir l"
    by (simp add: leads_to_normal_of is_absolute_normalize normal_of_normalize)
next
  assume abs: "is_absolute l \<and> is_absolute l'"
  have "leads_to dir m = normal_of m" if "is_absolute m" for m
  proof -
    have "list_all plain_segment (normal_of m)" using normal_of_normal [of m] that by (simp add: normal_segments_def)
    then show ?thesis using that path_walk_plain [of "normal_of m" "[]"] by (simp add: leads_to_normal_of)
  qed
  then show "normalize_locator l = normalize_locator l' \<longleftrightarrow> leads_to dir l = leads_to dir l'"
    using abs by (metis normal_of_normalize normalize_locator_eq)
qed (simp_all add: is_absolute_normalize)

theorem normal_form_names_the_place_witness:
  "leads_to [] ''/a/./b//../c'' = [''a'', ''c''] \<and> normalize_locator ''/a/./b//../c'' = normalize_locator ''/a/c/x/..''"
proof -
  have a: "is_absolute ''/a/./b//../c'' \<and> is_absolute ''/a/c/x/..''" by (simp add: is_absolute_def SEPARATOR_def)
  have "leads_to [] ''/a/./b//../c'' = [''a'', ''c'']" "leads_to [] ''/a/c/x/..'' = [''a'', ''c'']"
    by (simp_all add: leads_to_def is_absolute_def SEPARATOR_def)
  then show ?thesis using normal_form_names_the_place [of "''/a/./b//../c''" "[]" "''/a/c/x/..''"] a by simp
qed

section \<open>What a call of the adapter leaves behind\<close>

lemma set_node_simps [simp]:
  "fw_nodes (set_node p n w) = (fw_nodes w)(p := n)" "fw_refuses (set_node p n w) = fw_refuses w"
  "fw_next_temp (set_node p n w) = fw_next_temp w" "fw_short (set_node p n w) = fw_short w"
  by (simp_all add: set_node_def)

text \<open>Names: the parent of a child, and the name of the temporary file.\<close>

lemma while_not_sep:
  "x \<notin> set xs \<Longrightarrow> dropWhile (\<lambda>c. c \<noteq> x) (xs @ x # ys) = x # ys" "x \<notin> set xs \<Longrightarrow> takeWhile (\<lambda>c. c \<noteq> x) (xs @ x # ys) = xs"
  by (induction xs) auto

lemma path_parent_child:
  assumes "SEPARATOR \<notin> set name" "dir \<noteq> []" "name \<noteq> []"
  shows "path_parent (path_child dir name) = Some dir"
proof -
  have drop: "dropWhile (\<lambda>c. c \<noteq> SEPARATOR) (rev (pre @ SEPARATOR # name)) = SEPARATOR # rev pre" for pre
    using assms(1) while_not_sep(1) [of SEPARATOR "rev name"] by simp
  show ?thesis
  proof (cases "dir = [SEPARATOR]")
    case True
    then show ?thesis using drop [of "[]"] assms(3) by (simp add: path_parent_def path_child_def Let_def)
  next
    case False
    then show ?thesis using drop [of dir] assms(2) by (cases dir) (auto simp: path_parent_def path_child_def Let_def)
  qed
qed

lemma path_parent_shorter:
  assumes "is_absolute p" "path_parent p = Some dir"
  shows "dir \<noteq> [] \<and> length dir < length p"
proof -
  define up where "up = rev (dropWhile (\<lambda>c. c \<noteq> SEPARATOR) (rev p))"
  obtain rest where p: "p = SEPARATOR # rest" using assms(1) by (cases p) (auto simp: is_absolute_def)
  have "\<exists>rest'. up = SEPARATOR # rest'"
    unfolding up_def p by (cases "SEPARATOR \<in> set rest") (auto simp: dropWhile_append intro: exI [of _ "rev (dropWhile (\<lambda>c. c \<noteq> SEPARATOR) (rev rest))"])
  then obtain rest' where up: "up = SEPARATOR # rest'" by blast
  have "length up \<le> length p" unfolding up_def by (metis length_dropWhile_le length_rev)
  moreover have "rest \<noteq> []" "dir = (if up = [SEPARATOR] then up else butlast up)"
    using assms(2) p unfolding up_def by (auto simp: path_parent_def Let_def split: if_splits)
  ultimately show ?thesis using up p by auto
qed

definition file_name_of :: "string \<Rightarrow> string" where
  "file_name_of p = rev (takeWhile (\<lambda>c. c \<noteq> SEPARATOR) (rev p))"

definition names_temp :: "string \<Rightarrow> bool" where
  "names_temp p \<longleftrightarrow> take 10 (file_name_of p) = ''.gx-apply-''"

lemma file_name_of_child: "SEPARATOR \<notin> set name \<Longrightarrow> file_name_of (path_child dir name) = name"
  using while_not_sep(2) [of SEPARATOR "rev name"] by (simp add: file_name_of_def path_child_def)

lemma decimal_no_separator: "SEPARATOR \<notin> set (decimal n)"
  using decimal_digits [of SEPARATOR n] by (auto simp: SEPARATOR_def)

lemma fs_temp_child:
  obtains name where "fs_temp w dir = path_child dir name" "SEPARATOR \<notin> set name" "take 10 name = ''.gx-apply-''"
  using decimal_no_separator by (auto simp: fs_temp_def intro!: that) (auto simp: SEPARATOR_def)

lemma fs_temp_name: "names_temp (fs_temp w dir)"
  by (rule fs_temp_child [of w dir]) (simp add: names_temp_def file_name_of_child)

lemma fs_temp_parent:
  assumes "dir \<noteq> []"
  shows "path_parent (fs_temp w dir) = Some dir" "fs_temp w dir \<noteq> dir"
proof -
  obtain name where n: "fs_temp w dir = path_child dir name" "SEPARATOR \<notin> set name" "take 10 name = ''.gx-apply-''"
    by (rule fs_temp_child)
  then show "path_parent (fs_temp w dir) = Some dir" using path_parent_child assms by force
  show "fs_temp w dir \<noteq> dir" using n by (auto simp: path_child_def)
qed

text \<open>The world after a step that touches some names only.\<close>

definition touches :: "string set \<Rightarrow> fs_world \<Rightarrow> fs_world \<Rightarrow> bool" where
  "touches ps w w' \<longleftrightarrow> (\<forall>q. q \<notin> ps \<longrightarrow> fw_nodes w' q = fw_nodes w q) \<and> fw_refuses w' = fw_refuses w"

lemma std_remove_file_outcome:
  assumes "std_remove_file p w = (r, w')"
  shows "touches {p} w w'" "r \<noteq> Inl OtherIo \<Longrightarrow> fw_nodes w' p = None" "fw_nodes w' p = fw_nodes w p \<or> (r = Inr () \<and> fw_nodes w' p = None)"
  using assms by (auto simp: std_remove_file_def touches_def missing_kind_def split: option.splits fs_node.splits if_splits)

lemmas write_steps = write_whole_file_def Let_def io_then_def std_create_def std_write_all_def std_sync_all_def std_rename_def
  std_remove_file_def sync_parent_directory_def touches_def

text \<open>The outcome of replacing a file: what each way out leaves at the target, at the temporary name and elsewhere.\<close>

lemma write_whole_file_outcome:
  assumes "path_parent pos = Some dir" "is_absolute pos" "pos \<noteq> fs_temp w dir" "write_whole_file pos content w = (r, w')"
  shows "touches {pos, fs_temp w dir} w w'"
    "fw_nodes w' pos = fw_nodes w pos \<or> fw_nodes w' pos = Some (Regular content)"
    "r = Inr () \<Longrightarrow> fw_nodes w' pos = Some (Regular content) \<and> fw_nodes w' (fs_temp w dir) = None"
    "r = Inl e \<Longrightarrow> fw_nodes w' pos \<noteq> fw_nodes w pos \<Longrightarrow> \<not> is_ok (sync_parent_directory dir w')"
proof -
  have dir: "path_parent (fs_temp w dir) = Some dir" "fs_temp w dir \<noteq> dir" "pos \<noteq> dir" "dir \<noteq> fs_temp w dir"
    using path_parent_shorter [OF assms(2,1)] fs_temp_parent [of dir w] by auto
  show "touches {pos, fs_temp w dir} w w'" "fw_nodes w' pos = fw_nodes w pos \<or> fw_nodes w' pos = Some (Regular content)"
    "r = Inr () \<Longrightarrow> fw_nodes w' pos = Some (Regular content) \<and> fw_nodes w' (fs_temp w dir) = None"
    using assms dir by (auto simp: write_steps split: option.splits if_splits prod.splits sum.splits fs_node.splits)
  show "r = Inl e \<Longrightarrow> fw_nodes w' pos \<noteq> fw_nodes w pos \<Longrightarrow> \<not> is_ok (sync_parent_directory dir w')"
    using assms dir by (auto simp: write_steps is_ok_def split: option.splits if_splits prod.splits sum.splits fs_node.splits)
qed

lemma remove_whole_file_outcome:
  assumes "path_parent pos = Some dir" "remove_whole_file pos w = (r, w')"
  shows "touches {pos} w w'" "fw_nodes w' pos = fw_nodes w pos \<or> fw_nodes w' pos = None"
    "r = Inr () \<Longrightarrow> fw_nodes w' pos = None"
    "r = Inl e \<Longrightarrow> fw_nodes w' pos \<noteq> fw_nodes w pos \<Longrightarrow> \<not> is_ok (sync_parent_directory dir w')"
proof -
  obtain r0 where r0: "std_remove_file pos w = (r0, w')" "r = (if r0 = Inl OtherIo then Inl ApplyFailed else map_err (\<lambda>_. ApplyFailed) (sync_parent_directory dir w'))"
    using assms by (auto simp: remove_whole_file_def split: prod.splits sum.splits io_kind.splits)
  show "touches {pos} w w'" "fw_nodes w' pos = fw_nodes w pos \<or> fw_nodes w' pos = None" "r = Inr () \<Longrightarrow> fw_nodes w' pos = None"
    using std_remove_file_outcome [OF r0(1)] r0(2) by (auto split: if_splits)
  show "r = Inl e \<Longrightarrow> fw_nodes w' pos \<noteq> fw_nodes w pos \<Longrightarrow> \<not> is_ok (sync_parent_directory dir w')"
    using std_remove_file_outcome(3) [OF r0(1)] r0(2) by (auto simp: is_ok_def map_err_def split: if_splits sum.splits)
qed

lemma fs_act_outcome:
  assumes "path_parent pos = Some dir" "is_absolute pos" "pos \<noteq> fs_temp w dir" "fs_act pos op w = (r, w')"
  shows "touches {pos, fs_temp w dir} w w'"
    "fw_nodes w' pos = fw_nodes w pos \<or> fw_nodes w' pos = map_option Regular (fo_content op)"
    "r = Inr () \<Longrightarrow> fw_nodes w' pos = map_option Regular (fo_content op)"
    "r = Inr () \<Longrightarrow> fo_content op \<noteq> None \<Longrightarrow> fw_nodes w' (fs_temp w dir) = None"
    "r = Inl e \<Longrightarrow> fw_nodes w' pos \<noteq> fw_nodes w pos \<Longrightarrow> \<not> is_ok (sync_parent_directory dir w')"
  using write_whole_file_outcome [OF assms(1-3)] remove_whole_file_outcome [OF assms(1)] assms(4)
  by (auto simp: fs_act_def touches_def split: option.splits)

lemma operation_of_position:
  assumes "operation_of fc d = Inr (pos, op)"
  shows "is_absolute pos" "normalize_locator pos = pos" "pd_substrate d = Fs"
  using assms by (auto simp: operation_of_def fs_position_def and_then_eq_Inr Let_def split: if_splits)

text \<open>The root is a directory, and the adapter can do nothing to it.\<close>

lemma fs_act_root:
  assumes "path_parent pos = None" "fw_nodes w [SEPARATOR] = Some Directory"
  shows "fs_act pos op w = (Inl ApplyFailed, w)"
proof -
  have "pos = [SEPARATOR]" using assms(1) by (auto simp: path_parent_def Let_def split: if_splits)
  then show ?thesis
    using assms by (auto simp: fs_act_def write_whole_file_def remove_whole_file_def std_remove_file_def split: option.splits)
qed

lemma fs_applied_digest:
  assumes "fs_applied fc d pos w = Inr a" "fw_nodes w pos = map_option Regular c"
  shows "ap_resulting_digest a = content_digest fc (case c of Some bs \<Rightarrow> bs | None \<Rightarrow> [])" "ap_delta a = pd_reference d"
  using assms by (auto simp: fs_applied_def fs_observe_def std_read_def and_then_eq_Inr new_applied_delta_def
      split: option.splits if_splits sum.splits io_kind.splits)

text \<open>
  C38. A change of a file happens whole or not at all, whichever calls the operating system refuses. When a
  delta is applied whose name is not the one of the temporary file (and the root is a directory): its position holds afterwards what it
  held before or what the delta asks for, never a part of it; every other name but the temporary one holds
  what it held; if the adapter reports success, the position holds what the delta asks for, no temporary
  file is left, and the reported digest is the one of that content; and if the adapter reports an error
  although the position has changed, then the directory could not be synced or the file could not be
  read back, after the change.
\<close>

theorem change_whole_or_not_at_all:
  assumes "operation_of fc d = Inr (pos, op)" "fs_apply fc d w = (r, w')" "fw_nodes w [SEPARATOR] = Some Directory"
    "\<And>dir. path_parent pos = Some dir \<Longrightarrow> pos \<noteq> fs_temp w dir"
  shows "(fw_nodes w' pos = fw_nodes w pos \<or> fw_nodes w' pos = map_option Regular (fo_content op))
   \<and> (\<forall>q. q \<noteq> pos \<and> q \<noteq> fs_temp w (the (path_parent pos)) \<longrightarrow> fw_nodes w' q = fw_nodes w q)
   \<and> (\<forall>a. r = Inr a \<longrightarrow> fw_nodes w' pos = map_option Regular (fo_content op)
        \<and> (fo_content op \<noteq> None \<longrightarrow> fw_nodes w' (fs_temp w (the (path_parent pos))) = None)
        \<and> ap_resulting_digest a = content_digest fc (case fo_content op of Some bs \<Rightarrow> bs | None \<Rightarrow> []))
   \<and> (\<forall>e. r = Inl e \<and> fw_nodes w' pos \<noteq> fw_nodes w pos \<longrightarrow>
        (\<exists>dir. path_parent pos = Some dir \<and> \<not> is_ok (sync_parent_directory dir w')) \<or> fs_applied fc d pos w' = Inl e)"
proof -
  obtain r0 where r0: "fs_act pos op w = (r0, w')" "r = (case r0 of Inl e \<Rightarrow> Inl e | Inr _ \<Rightarrow> fs_applied fc d pos w')"
    using assms(1,2) by (auto simp: fs_apply_def io_then_def split: prod.splits sum.splits)
  show ?thesis
  proof (cases "path_parent pos")
    case None
    then show ?thesis using fs_act_root [OF None assms(3), of op] r0 by auto
  next
    case (Some dir)
    note out = fs_act_outcome [OF Some operation_of_position(1) [OF assms(1)] assms(4) [OF Some] r0(1)]
    have "fw_nodes w' q = fw_nodes w q" if "q \<noteq> pos" "q \<noteq> fs_temp w dir" for q using out(1) that by (simp add: touches_def)
    moreover have "ap_resulting_digest a = content_digest fc (case fo_content op of Some bs \<Rightarrow> bs | None \<Rightarrow> [])" if "r = Inr a" for a
      using that r0(2) out(3) fs_applied_digest(1) by (auto split: sum.splits)
    ultimately show ?thesis using out(2-5) r0(2) Some by (auto split: sum.splits)
  qed
qed

section \<open>Taking a change back\<close>

definition fs_codec_ok :: "fs_codec \<Rightarrow> bool" where
  "fs_codec_ok fc \<longleftrightarrow> (\<forall>ops bs. cbor_encode (fc_ops fc) ops = Inr bs \<longrightarrow> cbor_decode (fc_ops_from fc) bs = Inr ops)"

text \<open>A file system that refuses nothing and holds no temporary file.\<close>

definition fs_calm :: "fs_world \<Rightarrow> bool" where
  "fs_calm w \<longleftrightarrow> (\<forall>c p. \<not> fw_refuses w c p) \<and> (\<forall>p. names_temp p \<longrightarrow> fw_nodes w p = None)"

text \<open>A position where a file can be: in a directory, not itself one, and not under a temporary name.\<close>

definition file_place :: "fs_world \<Rightarrow> string \<Rightarrow> bool" where
  "file_place w pos \<longleftrightarrow> \<not> names_temp pos \<and> fw_nodes w pos \<noteq> Some Directory
     \<and> (case path_parent pos of None \<Rightarrow> False | Some dir \<Rightarrow> fw_nodes w dir = Some Directory)"

definition fs_fit :: "fs_codec \<Rightarrow> planned_delta \<Rightarrow> fs_world \<Rightarrow> bool" where
  "fs_fit fc d w \<longleftrightarrow> fs_codec_ok fc \<and> fs_calm w
     \<and> (case operation_of fc d of Inl _ \<Rightarrow> True | Inr (pos, _) \<Rightarrow> file_place w pos)"

definition fs_view :: "fs_world \<Rightarrow> (string \<Rightarrow> fs_node option) \<times> (fs_call \<Rightarrow> string \<Rightarrow> bool)" where
  "fs_view w = (fw_nodes w, fw_refuses w)"

lemma fs_view_eq: "fs_view w = fs_view w' \<longleftrightarrow> fw_nodes w = fw_nodes w' \<and> fw_refuses w = fw_refuses w'"
  by (simp add: fs_view_def)

lemma file_place_names:
  assumes "file_place w pos" "is_absolute pos"
  obtains dir where "path_parent pos = Some dir" "fw_nodes w dir = Some Directory" "fw_nodes w pos \<noteq> Some Directory"
    "path_parent (fs_temp w dir) = Some dir" "fs_temp w dir \<noteq> dir" "dir \<noteq> fs_temp w dir" "pos \<noteq> dir" "pos \<noteq> fs_temp w dir"
    "names_temp (fs_temp w dir)"
proof -
  obtain dir where dir: "path_parent pos = Some dir" "fw_nodes w dir = Some Directory" "fw_nodes w pos \<noteq> Some Directory"
    using assms(1) by (auto simp: file_place_def split: option.splits)
  have "pos \<noteq> fs_temp w dir" using fs_temp_name [of w dir] assms(1) by (auto simp: file_place_def)
  then show ?thesis
    using that [OF dir] path_parent_shorter [OF assms(2) dir(1)] fs_temp_parent [of dir w] fs_temp_name [of w dir] by auto
qed

lemma calm_act:
  assumes "fs_calm w" "file_place w pos" "is_absolute pos"
  shows "fs_view (snd (fs_act pos op w)) = ((fw_nodes w)(pos := map_option Regular (fo_content op)), fw_refuses w)"
proof -
  obtain dir where dir: "path_parent pos = Some dir" "fw_nodes w dir = Some Directory" "fw_nodes w pos \<noteq> Some Directory"
    and names: "path_parent (fs_temp w dir) = Some dir" "fs_temp w dir \<noteq> dir" "dir \<noteq> fs_temp w dir" "pos \<noteq> dir" "pos \<noteq> fs_temp w dir"
      "names_temp (fs_temp w dir)"
    by (rule file_place_names [OF assms(2,3)])
  have calm: "\<not> fw_refuses w c p" "fw_nodes w (fs_temp w dir) = None" for c p using assms(1) names(6) by (simp_all add: fs_calm_def)
  show ?thesis
  proof (cases "fo_content op")
    case None
    then show ?thesis using dir(1,3)
      by (auto simp: fs_act_def remove_whole_file_def std_remove_file_def calm fs_view_def split: option.splits fs_node.splits io_kind.splits)
  next
    case (Some content)
    then show ?thesis using dir names by (auto simp: fs_act_def write_steps calm fs_view_def)
  qed
qed

lemma snd_fs_apply: "snd (fs_apply fc d w) = (case operation_of fc d of Inl _ \<Rightarrow> w | Inr (pos, op) \<Rightarrow> snd (fs_act pos op w))"
  by (auto simp: fs_apply_def io_then_def split: sum.splits prod.splits)

text \<open>Applying a delta that fits sets its position and nothing else.\<close>

lemma fit_apply:
  assumes "fs_fit fc d w" "operation_of fc d = Inr (pos, op)"
  shows "fs_view (snd (fs_apply fc d w)) = ((fw_nodes w)(pos := map_option Regular (fo_content op)), fw_refuses w)"
  using calm_act [of w pos op] assms operation_of_position(1) [OF assms(2)] by (simp add: snd_fs_apply fs_fit_def)

text \<open>Fitting is a matter of the view, and setting a file does not disturb it.\<close>

lemma fit_view: "fs_view w = fs_view w' \<Longrightarrow> fs_fit fc d w \<Longrightarrow> fs_fit fc d w'"
  by (auto simp: fs_view_eq fs_fit_def fs_calm_def file_place_def split: sum.splits option.splits)

lemma place_set:
  assumes "file_place w pos" "file_place w p" "fw_nodes w' = (fw_nodes w)(pos := map_option Regular c)"
  shows "file_place w' p"
  using assms by (cases c) (auto simp: file_place_def split: option.splits if_splits)

lemma fit_after:
  assumes "fs_fit fc a w" "fs_fit fc d w"
  shows "fs_fit fc d (snd (fs_apply fc a w))"
proof (cases "operation_of fc a")
  case (Inl e)
  then show ?thesis using assms(2) by (simp add: snd_fs_apply)
next
  case (Inr x)
  then obtain pos op where a: "operation_of fc a = Inr (pos, op)" by (cases x) simp
  have v: "fw_nodes (snd (fs_apply fc a w)) = (fw_nodes w)(pos := map_option Regular (fo_content op))" "fw_refuses (snd (fs_apply fc a w)) = fw_refuses w"
    using fit_apply [OF assms(1) a] by (simp_all add: fs_view_def)
  have pos: "file_place w pos" "fs_calm w" using assms(1) a by (simp_all add: fs_fit_def)
  then have "fs_calm (snd (fs_apply fc a w))" by (auto simp: fs_calm_def v file_place_def)
  then show ?thesis using assms(2) place_set [OF pos(1) _ v(1)] by (auto simp: fs_fit_def split: sum.splits)
qed

text \<open>The inverse of a delta asks for what was read at its position.\<close>

lemma fs_inverse:
  assumes "fs_codec_ok fc" "fs_calm w" "fs_invert fc d pre w = Inr out" "io_inverse out = Some d'"
  obtains pos op op' where "operation_of fc d = Inr (pos, op)" "operation_of fc d' = Inr (pos, op')"
    "fw_nodes w pos = map_option Regular (fo_content op')"
proof -
  obtain pos op found where d: "operation_of fc d = Inr (pos, op)" "read_if_present pos w = Inr found"
    using assms(3) by (auto simp: fs_invert_def and_then_eq_Inr Let_def split: if_splits)
  define op' where "op' = (case found of Some old \<Rightarrow> fs_write pos old | None \<Rightarrow> fs_remove pos)"
  obtain payload where p: "fs_encode fc [op'] = Inr payload" "new_planned_delta (fc_hash fc) (fc_delta fc) Fs payload = Inr d'"
    using assms(3,4) d by (auto simp: fs_invert_def and_then_eq_Inr Let_def op'_def invert_none_def inverted_def split: if_splits option.splits)
  have d': "pd_substrate d' = Fs" "pd_payload d' = payload"
    using p(2) by (auto simp: new_planned_delta_def and_then_eq_Inr Let_def)
  have "fs_decode fc payload = Inr [op']"
    using assms(1) p(1) by (auto simp: fs_codec_ok_def fs_encode_def fs_decode_def and_then_def MAX_OPS_def map_err_def split: sum.splits)
  moreover have "fo_locator op' = pos" by (simp add: op'_def fs_write_def fs_remove_def split: option.splits)
  ultimately have "operation_of fc d' = Inr (pos, op')"
    using operation_of_position [OF d(1)] d' by (simp add: operation_of_def and_then_def fs_position_def Let_def)
  moreover have "fw_nodes w pos = map_option Regular (fo_content op')"
    using d(2) assms(2) by (auto simp: read_if_present_def std_read_def fs_calm_def op'_def fs_write_def fs_remove_def
        split: option.splits fs_node.splits sum.splits io_kind.splits)
  ultimately show ?thesis using that d(1) by blast
qed

interpretation fs: lawful_adapter "fs_adapter fc" "fs_fit fc" fs_view for fc
proof
  fix d w pre out d'
  assume fit: "fs_fit fc d w" and inv: "ad_invert (fs_adapter fc) d pre w = Inr out" "io_inverse out = Some d'"
  then obtain pos op op' where o: "operation_of fc d = Inr (pos, op)" "operation_of fc d' = Inr (pos, op')"
      "fw_nodes w pos = map_option Regular (fo_content op')"
    using fs_inverse [of fc w d pre out d'] by (auto simp: fs_adapter_def fs_fit_def)
  have "fs_fit fc d' w" using fit o(1,2) by (simp add: fs_fit_def)
  from fit_apply [OF fit_after [OF fit this] o(2)] fit_apply [OF fit o(1)] o(3)
  show "fs_view (snd (ad_apply (fs_adapter fc) d' (snd (ad_apply (fs_adapter fc) d w)))) = fs_view w"
    by (auto simp: fs_adapter_def fs_view_def)
next
  fix a b w
  assume c: "ad_commutation (fs_adapter fc) a b w = Inr Commutes" and fit: "fs_fit fc a w" "fs_fit fc b w"
  then obtain pa oa pb ob where o: "operation_of fc a = Inr (pa, oa)" "operation_of fc b = Inr (pb, ob)" "pa \<noteq> pb"
    by (auto simp: fs_adapter_def fs_commutation_def and_then_eq_Inr split: if_splits)
  from fit_apply [OF fit_after [OF fit] o(2)] fit_apply [OF fit_after [OF fit(2,1)] o(1)] fit_apply [OF fit(1) o(1)] fit_apply [OF fit(2) o(2)] o(3)
  show "fs_view (snd (ad_apply (fs_adapter fc) b (snd (ad_apply (fs_adapter fc) a w))))
      = fs_view (snd (ad_apply (fs_adapter fc) a (snd (ad_apply (fs_adapter fc) b w))))"
    by (auto simp: fs_adapter_def fs_view_def fun_upd_twist)
next
  fix w w' snap
  assume "fs_view w = fs_view w'"
  moreover from this have "missing_kind w p = missing_kind w' p" for p by (simp add: missing_kind_def fs_view_eq)
  ultimately have "std_read w p = std_read w' p" for p by (simp add: std_read_def fs_view_eq split: option.split)
  then show "ad_precondition (fs_adapter fc) snap w = ad_precondition (fs_adapter fc) snap w'"
    by (simp add: fs_adapter_def fs_precondition_def fs_read_def Let_def)
next
  fix d w w'
  assume fit: "fs_fit fc d w" and v: "fs_view w = fs_view w'"
  show "fs_view (snd (ad_apply (fs_adapter fc) d w)) = fs_view (snd (ad_apply (fs_adapter fc) d w'))"
  proof (cases "operation_of fc d")
    case (Inl e)
    then show ?thesis using v by (simp add: fs_adapter_def snd_fs_apply)
  next
    case (Inr x)
    then show ?thesis using fit_apply [OF fit, of "fst x" "snd x"] fit_apply [OF fit_view [OF v fit], of "fst x" "snd x"] v
      by (simp add: fs_adapter_def fs_view_eq)
  qed
qed

text \<open>A delta that was planned from an intent asks for its goal at its locator.\<close>

lemma fs_plan_operation:
  assumes "fs_codec_ok fc" "fs_plan fc i pre w = Inr d"
  shows "operation_of fc d = Inr (normalize_locator (in_locator i), fs_write (normalize_locator (in_locator i)) (in_goal i))"
    "pd_promised_target d = Some (content_digest fc (in_goal i))"
proof -
  define op where "op = fs_write (normalize_locator (in_locator i)) (in_goal i)"
  obtain payload d0 where p: "is_absolute (normalize_locator (in_locator i))" "fs_encode fc [op] = Inr payload"
      "new_planned_delta (fc_hash fc) (fc_delta fc) Fs payload = Inr d0" "d = with_promised_target (content_digest fc (in_goal i)) d0"
    using assms(2) by (auto simp: fs_plan_def and_then_eq_Inr Let_def op_def split: if_splits)
  then show "pd_promised_target d = Some (content_digest fc (in_goal i))" by (simp add: with_promised_target_def)
  have "pd_substrate d = Fs" "pd_payload d = payload"
    using p(3,4) by (auto simp: new_planned_delta_def and_then_eq_Inr Let_def with_promised_target_def)
  moreover have "fs_decode fc payload = Inr [op]"
    using assms(1) p(2) by (auto simp: fs_codec_ok_def fs_encode_def fs_decode_def and_then_def MAX_OPS_def map_err_def split: sum.splits)
  ultimately show "operation_of fc d = Inr (normalize_locator (in_locator i), fs_write (normalize_locator (in_locator i)) (in_goal i))"
    using p(1) by (simp add: operation_of_def and_then_def fs_position_def op_def fs_write_def Let_def)
qed

text \<open>In a calm file system a write succeeds, and what is read back is what was written.\<close>

lemma calm_write:
  assumes "fs_fit fc d w" "operation_of fc d = Inr (pos, op)" "fo_content op = Some content" "length pos \<le> MAX_SCOPE_BYTES"
  shows "\<exists>a. fst (fs_apply fc d w) = Inr a \<and> ap_resulting_digest a = content_digest fc content"
proof -
  have place: "fs_calm w" "file_place w pos" "is_absolute pos" using assms(1,2) operation_of_position(1) [OF assms(2)] by (simp_all add: fs_fit_def)
  obtain dir where dir: "path_parent pos = Some dir" "fw_nodes w dir = Some Directory" "fw_nodes w pos \<noteq> Some Directory"
    and names: "path_parent (fs_temp w dir) = Some dir" "fs_temp w dir \<noteq> dir" "dir \<noteq> fs_temp w dir" "pos \<noteq> dir" "pos \<noteq> fs_temp w dir"
      "names_temp (fs_temp w dir)"
    by (rule file_place_names [OF place(2,3)])
  have calm: "\<not> fw_refuses w c p" "fw_nodes w (fs_temp w dir) = None" for c p using place(1) names(6) by (simp_all add: fs_calm_def)
  obtain w' where w': "fs_act pos op w = (Inr (), w')"
    using dir names assms(3) by (auto simp: fs_act_def write_steps calm)
  then have "fw_nodes w' pos = Some (Regular content)" "fw_refuses w' = fw_refuses w"
    using calm_act [OF place, of op] assms(3) by (simp_all add: fs_view_def)
  then have "fs_observe fc pos w' = Inr (content_digest fc content)" by (simp add: fs_observe_def std_read_def calm)
  moreover have "fs_fingerprint fc pos (content_digest fc content) = Inr \<lparr>fp_substrate = Fs, fp_scope = pos, fp_digest = content_digest fc content\<rparr>"
    using assms(4) by (simp add: fs_fingerprint_def elide_scope_def and_then_def new_fingerprint_def map_err_def)
  ultimately show ?thesis
    using assms(2) w' by (simp add: fs_apply_def io_then_def fs_applied_def and_then_def new_applied_delta_def)
qed

text \<open>
  C39. A change of a file can be taken back, can be retried, and keeps its promise. In a file system that
  refuses nothing and holds no temporary file, for deltas whose position lies in a directory and is not
  itself one (as the codec is: what is written can be read back): the inverse that was computed before the change gives,
  after the change, the files of before and the same fingerprints; deltas that are said to commute give
  the same files in both orders; applying a delta again changes nothing; and a delta planned from an
  intent, at a locator short enough to be shown whole, is applied without error and the digest that is
  reported is the one that was promised.
\<close>

theorem file_change_taken_back:
  assumes "fs_fit fc d w" "fs_fit fc b w"
  shows "(\<forall>pre out d'. fs_invert fc d pre w = Inr out \<and> io_inverse out = Some d' \<longrightarrow>
       fw_nodes (snd (fs_apply fc d' (snd (fs_apply fc d w)))) = fw_nodes w
       \<and> fs_precondition fc snap (snd (fs_apply fc d' (snd (fs_apply fc d w)))) = fs_precondition fc snap w)
   \<and> (fs_commutation fc d b w = Inr Commutes \<longrightarrow>
       fw_nodes (snd (fs_apply fc b (snd (fs_apply fc d w)))) = fw_nodes (snd (fs_apply fc d (snd (fs_apply fc b w)))))
   \<and> fw_nodes (snd (fs_apply fc d (snd (fs_apply fc d w)))) = fw_nodes (snd (fs_apply fc d w))
   \<and> (\<forall>i pre v. fs_plan fc i pre v = Inr d \<and> length (normalize_locator (in_locator i)) \<le> MAX_SCOPE_BYTES \<longrightarrow>
       (\<exists>a. fst (fs_apply fc d w) = Inr a \<and> pd_promised_target d = Some (ap_resulting_digest a)
          \<and> fw_nodes (snd (fs_apply fc d w)) (normalize_locator (in_locator i)) = Some (Regular (in_goal i))))"
proof (intro conjI allI impI)
  fix pre out d'
  assume "fs_invert fc d pre w = Inr out \<and> io_inverse out = Some d'"
  then show "fw_nodes (snd (fs_apply fc d' (snd (fs_apply fc d w)))) = fw_nodes w"
    "fs_precondition fc snap (snd (fs_apply fc d' (snd (fs_apply fc d w)))) = fs_precondition fc snap w"
    using fs.takes_back [OF assms(1), of pre out d'] fs.reads_as_before(1) [OF assms(1), of pre out d' snap]
    by (simp_all add: fs_adapter_def fs_view_eq)
next
  assume "fs_commutation fc d b w = Inr Commutes"
  then show "fw_nodes (snd (fs_apply fc b (snd (fs_apply fc d w)))) = fw_nodes (snd (fs_apply fc d (snd (fs_apply fc b w))))"
    using fs.commutes [of fc d b w] assms by (simp add: fs_adapter_def fs_view_eq)
next
  show "fw_nodes (snd (fs_apply fc d (snd (fs_apply fc d w)))) = fw_nodes (snd (fs_apply fc d w))"
  proof (cases "operation_of fc d")
    case (Inl e)
    then show ?thesis by (simp add: snd_fs_apply)
  next
    case (Inr x)
    then show ?thesis
      using fit_apply [OF assms(1), of "fst x" "snd x"] fit_apply [OF fit_after [OF assms(1,1)], of "fst x" "snd x"] by (simp add: fs_view_def)
  qed
next
  fix i pre v
  assume p: "fs_plan fc i pre v = Inr d \<and> length (normalize_locator (in_locator i)) \<le> MAX_SCOPE_BYTES"
  have ok: "fs_codec_ok fc" using assms(1) by (simp add: fs_fit_def)
  note op = fs_plan_operation [OF ok conjunct1 [OF p]]
  show "\<exists>a. fst (fs_apply fc d w) = Inr a \<and> pd_promised_target d = Some (ap_resulting_digest a)
      \<and> fw_nodes (snd (fs_apply fc d w)) (normalize_locator (in_locator i)) = Some (Regular (in_goal i))"
    using calm_write [OF assms(1) op(1) _ conjunct2 [OF p], of "in_goal i"] fit_apply [OF assms(1) op(1)] op(2)
    by (auto simp: fs_write_def fs_view_def)
qed

section \<open>A file in a directory\<close>

definition sample_fs :: fs_codec where
  "sample_fs =
     (let put = [fs_write ''/d/f'' [1]]; take_away = [fs_remove ''/d/f''] in
      \<lparr>fc_hash = (\<lambda>_. zero_cid), fc_object = (\<lambda>_. Inr [0]), fc_scope = (\<lambda>_. Inr [0]), fc_delta = (\<lambda>_. Inr [0]),
       fc_ops = (\<lambda>ops. if ops = put then Inr [0] else if ops = take_away then Inr [0xa1, 0x61, 0x61, 0x01] else Inl []),
       fc_ops_from = (\<lambda>bs. if bs = [0] then Inr put else if bs = [0xa1, 0x61, 0x61, 0x01] then Inr take_away else Inl [])\<rparr>)"

definition sample_fs_delta :: planned_delta where
  "sample_fs_delta = \<lparr>pd_substrate = Fs, pd_payload = [0],
     pd_reference = \<lparr>delta_substrate = Fs, delta_cid = zero_cid\<rparr>, pd_promised_target = None\<rparr>"

text \<open>An empty directory; whether it can be opened is a parameter.\<close>

definition sample_files :: "bool \<Rightarrow> fs_world" where
  "sample_files opens = \<lparr>fw_nodes = (\<lambda>p. if p = ''/'' \<or> p = ''/d'' then Some Directory else None),
     fw_refuses = (\<lambda>c p. \<not> opens \<and> c = CallOpenDir), fw_short = 0, fw_process = 7, fw_next_temp = 0\<rparr>"

lemma sample_fs_ok: "fs_codec_ok sample_fs"
  unfolding fs_codec_ok_def sample_fs_def Let_def
  by (auto simp: cbor_encode_def cbor_decode_def and_then_def sample_scans map_err_def fs_write_def fs_remove_def split: sum.splits if_splits)

lemma sample_normal: "normalize_locator ''/d/f'' = ''/d/f''" "is_absolute ''/d/f''" "path_parent ''/d/f'' = Some ''/d''"
  by (simp_all add: normalize_locator_def is_absolute_def SEPARATOR_def normalize_step_def path_parent_def)

lemma sample_operation: "operation_of sample_fs sample_fs_delta = Inr (''/d/f'', fs_write ''/d/f'' [1])"
  by (simp add: operation_of_def sample_fs_def sample_fs_delta_def Let_def fs_decode_def cbor_decode_def and_then_def sample_scans map_err_def
      MAX_OPS_def fs_position_def fs_write_def sample_normal)

lemma sample_place: "file_place (sample_files b) ''/d/f''"
  by (simp add: file_place_def sample_normal sample_files_def names_temp_def file_name_of_def SEPARATOR_def)

lemma sample_fit: "fs_fit sample_fs sample_fs_delta (sample_files True)"
proof -
  have "fs_calm (sample_files True)"
    by (auto simp: fs_calm_def sample_files_def names_temp_def file_name_of_def SEPARATOR_def)
  then show ?thesis by (simp add: fs_fit_def sample_fs_ok sample_operation sample_place)
qed

text \<open>When the directory cannot be opened, the file is replaced and the adapter reports that it was not.\<close>

lemma landed_change_reported_failed:
  "\<exists>w'. fs_apply sample_fs sample_fs_delta (sample_files False) = (Inl ApplyFailed, w') \<and> fw_nodes w' ''/d/f'' = Some (Regular [1])"
proof -
  let ?w = "sample_files False"
  obtain dir where dir: "path_parent ''/d/f'' = Some dir" "fw_nodes ?w dir = Some Directory"
    and names: "path_parent (fs_temp ?w dir) = Some dir" "fs_temp ?w dir \<noteq> dir" "''/d/f'' \<noteq> dir" "''/d/f'' \<noteq> fs_temp ?w dir"
      "names_temp (fs_temp ?w dir)"
    by (rule file_place_names [OF sample_place sample_normal(2)])
  have w: "fw_refuses ?w c p \<longleftrightarrow> c = CallOpenDir" "fw_nodes ?w ''/d/f'' = None" for c p by (simp_all add: sample_files_def)
  have "fw_nodes ?w (fs_temp ?w dir) = None"
    using names(5) by (auto simp: sample_files_def names_temp_def file_name_of_def SEPARATOR_def)
  then show ?thesis
    using dir names w by (simp add: fs_apply_def sample_operation io_then_def fs_act_def fs_write_def write_steps)
qed

theorem change_whole_or_not_at_all_witness:
  "\<exists>w'. fs_apply sample_fs sample_fs_delta (sample_files False) = (Inl ApplyFailed, w')
     \<and> fw_nodes w' ''/d/f'' = Some (Regular [1]) \<and> fw_nodes w' ''/d'' = Some Directory"
proof -
  obtain w' where w': "fs_apply sample_fs sample_fs_delta (sample_files False) = (Inl ApplyFailed, w')" "fw_nodes w' ''/d/f'' = Some (Regular [1])"
    using landed_change_reported_failed by blast
  have "\<not> names_temp ''/d/f''" "\<not> names_temp ''/d''" by (simp_all add: names_temp_def file_name_of_def SEPARATOR_def)
  then have "''/d/f'' \<noteq> fs_temp w dir" "''/d'' \<noteq> fs_temp w dir" for w dir using fs_temp_name by metis+
  moreover have "fw_nodes (sample_files False) [SEPARATOR] = Some Directory" "fw_nodes (sample_files False) ''/d'' = Some Directory"
    by (simp_all add: sample_files_def SEPARATOR_def)
  ultimately show ?thesis using change_whole_or_not_at_all [OF sample_operation w'(1)] w' by simp
qed

theorem file_change_taken_back_witness:
  "\<exists>out d'. fs_invert sample_fs sample_fs_delta (sample_object\<lparr>obj_locator := ''/d/f''\<rparr>) (sample_files True) = Inr out \<and> io_inverse out = Some d'
     \<and> fw_nodes (snd (fs_apply sample_fs d' (snd (fs_apply sample_fs sample_fs_delta (sample_files True))))) = fw_nodes (sample_files True)"
proof -
  have "read_if_present ''/d/f'' (sample_files True) = Inr None"
    by (simp add: read_if_present_def std_read_def sample_files_def missing_kind_def SEPARATOR_def upt_rec)
  moreover have "fs_encode sample_fs [fs_remove ''/d/f''] = Inr [0xa1, 0x61, 0x61, 0x01]"
    by (simp add: fs_encode_def sample_fs_def Let_def cbor_encode_def and_then_def map_err_def sample_scans fs_remove_def fs_write_def)
  moreover obtain d' where "new_planned_delta (fc_hash sample_fs) (fc_delta sample_fs) Fs [0xa1, 0x61, 0x61, 0x01] = Inr d'"
    by (simp add: new_planned_delta_def sample_fs_def Let_def cid_compute_def cbor_encode_def and_then_def map_err_def sample_scans)
  ultimately obtain out where "fs_invert sample_fs sample_fs_delta (sample_object\<lparr>obj_locator := ''/d/f''\<rparr>) (sample_files True) = Inr out" "io_inverse out = Some d'"
    by (simp add: fs_invert_def sample_operation and_then_def sample_normal Let_def MAX_INVERSE_PAYLOAD_BYTES_def inverted_def)
  then show ?thesis using file_change_taken_back [OF sample_fit sample_fit] by blast
qed

end
