(* ===== verification/Spec2Isabelle.thy ===== *)
theory Spec2Isabelle
  imports Canon_Cbor Text_Codec Log_Head Engine_Receipts Engine_Recovery Engine_Publication
    Engine_Open Engine_Catch_Up Fs_Adapter
begin

text \<open>
  A verification library for the core of TraceFold.

  \<^bold>\<open>The program.\<close>  TraceFold records transformations of a project in an append-only ledger that third
  parties can check.  A transformation is written as canonical CBOR (\<open>crates/gx-canon\<close>), named by the
  hash of these bytes (\<open>Cid\<close> in \<open>crates/gx-core/src/lib.rs\<close>), judged by a gate (\<open>crates/gx-gate\<close>), applied
  to the world through an adapter, and recorded in a ledger (\<open>crates/gx-log\<close>): a Merkle tree over tiles,
  stored as a file of length-prefixed records, with inclusion and consistency proofs, signed
  checkpoints, a chain of verdict counters, and a recorded head against which a project is compared
  to find a rollback.  The engine (\<open>crates/gx-engine\<close>) drives a transformation from the intent to the
  commit; it writes every step into a hash chained journal before it takes it, holds the inverse of
  every commit in escrow, and signs a receipt (\<open>crates/gx-witness\<close>) that an auditor can check against
  the ledger without the engine.

  \<^bold>\<open>The theories\<close>, in the order in which they build on each other:

  \<^item> \<open>Prelude\<close>: results (\<open>error + value\<close>), byte strings, big-endian numbers, list and word lemmas, the
    locale \<open>canonical_codec\<close> of a codec with one spelling per value.
  \<^item> \<open>Canon_Cbor\<close>: \<open>gx-canon/src/cbor.rs\<close>.  The strict scanner \<open>Scan\<close> as state passing over a record
    of input and position; \<open>scan_strict\<close>, \<open>value_span\<close>.  A reference grammar of values with one encoding
    each; the scanner accepts exactly these encodings.  The serde codec that turns typed values into
    CBOR is not part of the repository: it is a parameter.
  \<^item> \<open>Text_Codec\<close>: \<open>gx-core/src/lib.rs\<close> (the \<open>gx1\<close> base 32 text of a \<open>Cid\<close>) and \<open>gx-core/src/b64.rs\<close>.
    Both interpret \<open>canonical_codec\<close>: a text is accepted exactly when it is what the encoder writes.
  \<^item> \<open>Merkle\<close>, \<open>Merkle_Walk\<close>, \<open>Tile_Log\<close>: \<open>gx-canon/src/cid.rs\<close> (domain separated hashing, the hash
    function a parameter) and \<open>gx-log/src/tile.rs\<close>.  The tree hash \<open>mth\<close>, audit paths, the iterative
    verification walks of RFC 9162, the log with its tile cache, \<open>stage\<close> and \<open>commit\<close>.  The cached
    routines equal the reference tree hash; every append keeps all earlier entries and roots (locale
    \<open>append_log\<close>).
  \<^item> \<open>Log_Proof\<close>: \<open>gx-log/src/proof.rs\<close>.  Provers and verifiers: every proof the log makes verifies,
    and a proof that verifies is true of the log or exhibits two different hashed byte strings with
    one hash.
  \<^item> \<open>Ledger_Store\<close>: \<open>gx-log/src/store.rs\<close>.  The file as a byte string, opening by replay with
    quarantine of a torn tail, append with write and fsync.  The answers of the file system (a write
    that stops after n bytes, a failing fsync, a failing copy) are arguments, and the crash-safety
    theorems quantify over them.
  \<^item> \<open>Verdict_Log\<close>: the verdict counters of \<open>gx-core/src/ledger.rs\<close> with their 64-bit arithmetic, the audit
    of a chain of verdict checkpoints and the checkpoint file.
  \<^item> \<open>Log_Head\<close>: \<open>gx-log/src/head.rs\<close> and \<open>witness_audit.rs\<close>: rollback detection, atomic replacement of
    the head, detection of equivocation (locale \<open>pairwise_scan\<close>).

  \<^item> \<open>Core_Model\<close>: the data types of \<open>gx-core\<close> (\<open>transformation.rs\<close>, \<open>object.rs\<close>, \<open>fingerprint.rs\<close>,
    \<open>boundary.rs\<close>, \<open>observation.rs\<close>, and others): constructors with their range checks, composition, the walk over
    ancestors, the comparison \<open>cas_eq\<close> of fingerprints.  Composition is associative, every transformation
    that can be built is well ranged, the walk ends on every graph.
  \<^item> \<open>Engine_Records\<close>: \<open>gx-engine/src/replay.rs\<close>, the vocabulary of the journal and the fold that rebuilds
    the state of every transformation from it.
  \<^item> \<open>Engine_Journal\<close>: the journal file of \<open>gx-engine/src/store.rs\<close>: framing with a hash chain, opening,
    append, catching up with a file that has grown, the check of the prefix read before, which is as strong
    as the hash for the chained formats only.
  \<^item> \<open>Blob_Store\<close>: the stores of deltas and observations and the escrow rows of \<open>store.rs\<close>.
  \<^item> \<open>Gate\<close>: \<open>gx-gate\<close>: the request view, the fold of policies and invariants into a verdict, denial reasons
    and escalation tickets.  The Cedar engine is a parameter.
  \<^item> \<open>Receipt\<close>: \<open>gx-witness\<close>: envelopes, the schema of payloads, read sets, revocation, the verification of a
    receipt.  The signature scheme is a parameter.
  \<^item> \<open>Engine_State\<close>, \<open>Pipeline\<close>, \<open>Commit\<close>, \<open>Undo\<close>, \<open>Recovery\<close>, \<open>Publication\<close>, \<open>Project_Open\<close>, \<open>Catch_Up\<close>:
    \<open>gx-engine/src/pipeline.rs\<close>.  The engine is a record
    with the world, the journal, the stores, the ledger, the head and the tables; an operation is a
    state passing action that may fail (\<open>then_do\<close>, \<open>try_do\<close>), and what it changed before it failed stays
    changed.  \<open>submit\<close>, \<open>plan\<close>, \<open>verify\<close>, \<open>escalation\<close>, \<open>cancel\<close>, \<open>reap\<close>, \<open>canonicalize\<close>; \<open>commit\<close> with its
    compensation, the recorded head and \<open>accept_rollback\<close>; \<open>undo\<close> and \<open>rehydrate_committed\<close>; \<open>recover\<close> and
    \<open>reissue_receipt\<close>; \<open>publish_verdicts\<close>, which signs the verdicts counted since the last checkpoint;
    \<open>open_through\<close> with the reading of the recorded head; \<open>catch_up\<close> with another process, and \<open>ledger_agrees\<close>.
  \<^item> \<open>Engine_Agreement\<close>, \<open>Engine_Safety\<close>, \<open>Engine_Frames\<close>, \<open>Engine_Steps\<close>: weakest preconditions of the actions; the
    invariant \<open>engine_ok\<close> (the tables, the journal and the shadow agree, nothing is past the gate
    uncleared) and that every operation keeps it, wherever it fails; what operations leave alone
    (locale \<open>bystander\<close>, interpreted on the ledger, the committed leaves and the world); the relation
    \<open>operates\<close> of all operations, \<open>engine_step\<close> with restarts besides, and the states it reaches.
  \<^item> \<open>Engine_Run\<close>: one run of the engine, evaluated, to which the theorems are applied.
  \<^item> \<open>Engine_Theorems\<close>, \<open>Engine_Receipts\<close>, \<open>Engine_Recovery\<close>: what the engine promises: no way around the gate, the world
    changes behind the gate only and from where the change was planned (a recovery applies again what
    was announced, without comparing), the receipt of a commit verifies, the tables are what the journal
    says (with the exceptions that errors leave), what is overdue is reaped, a recovery accounts for every row, an undo offers the escrowed
    inverse only.
  \<^item> \<open>Engine_Publication\<close>: the verdict chain that a deployment publishes, over all operations and restarts,
    stands up to the audit of \<open>Verdict_Log\<close>.
  \<^item> \<open>Engine_Open\<close>, \<open>Engine_Catch_Up\<close>: what opening a project finds out by comparing it with its head, and what
    catching up with the journal file leaves of the tables; what the agreement of the two files means.
  \<^item> \<open>Observation_Road\<close>: late observations, at the end of \<open>pipeline.rs\<close>: the adapter that keeps one head per
    chain of observations, and \<open>ingest_observation\<close>, which turns a report into a transformation once.  What
    an adapter owes to undo and commutation is the locale \<open>lawful_adapter\<close>, interpreted on this adapter.
  \<^item> \<open>Fs_Adapter\<close>: \<open>gx-adapter-fs\<close>: the normal form of locators, the payload of a delta, and the methods
    over a file system of regular files and directories in which every call may be refused.  A change
    happens whole or not at all; in a file system that refuses nothing the adapter interprets
    \<open>lawful_adapter\<close>, a retry changes nothing, and a planned change keeps its promise.

  \<^bold>\<open>Conventions.\<close>  A fallible function returns \<open>error + value\<close>; integers keep their width (\<open>u64\<close>,
  \<open>u32\<close>, \<open>byte\<close>), positions in memory are \<open>nat\<close>.  Loops are structural recursion or functions with a
  termination proof; the fuel of the CBOR scanner is the nesting limit \<open>MAX_DEPTH\<close> of the code itself.
  Panics of the code (an index out of range) are errors of the model.

  Answers of the operating system, of the archive of receipts and of the adapters are arguments; the
  engine counts its questions (\<open>en_tick\<close>), and the answers may differ with the count, so a theorem over
  all answers covers failures at any point.  The world may change between two looks (\<open>cf_drift\<close>).
  Texts of errors are shortened.  Timestamps are unbounded integers; where the code adds to one, the
  saturation at 64 bits is written out.  A restart in \<open>engine_step\<close> reopens a journal with the records
  that the engine had; a whole frame that a failed sync left in the file is not among them.  What an opening
  finds in such a file is the subject of \<open>Engine_Journal\<close>.

  \<^bold>\<open>Not modelled.\<close>  The serde codecs, BLAKE3, Ed25519 and Cedar, which are not part of the repository; the
  operating system beyond the answers named above; the Unicode trimming of a declaration file.  Of the
  engine: the door of a reader, accessors that only read, and the calls that set the configuration, which
  is an argument.  The other adapters (git, tool protocol,
  clock); of the one for files, symbolic links, other processes at work in the same directory and
  platforms without directory sync.  The HTTP interface, the command line, the terminal interface, the database face and the
  browser verifier, which drive the engine or are driven by it and hold none of its state; the
  conformance suite and the policy packs, which are tests and texts.
\<close>

end
